(* ===== verification/Xv6_Prelude.thy ===== *)
theory Xv6_Prelude
  imports Main "HOL-Library.Word"
begin

unbundle bit_operations_syntax

text \<open>
  Shared vocabulary of the xv6 development: the machine integer types of \<^verbatim>\<open>types.h\<close>, the
  outcome of a kernel operation (a value, a \<^verbatim>\<open>panic\<close>, an access the C program may not make,
  or a wait for another CPU or process), the constants of \<^verbatim>\<open>param.h\<close>, \<^verbatim>\<open>memlayout.h\<close> and
  \<^verbatim>\<open>mmu.h\<close>, and the generic lemmas on outcomes, words and lists that the components share.
\<close>

named_theorems outcome_simps \<open>splitting of the outcome of a sequence of operations\<close>
named_theorems pg_simps \<open>page arithmetic on 32-bit addresses\<close>

section \<open>Machine integers\<close>

type_synonym u8 = "8 word"
type_synonym u16 = "16 word"
type_synonym u32 = "32 word"

text \<open>The bytes of a C string literal.\<close>

definition bytes :: "string \<Rightarrow> u8 list" where
  "bytes s = map of_char s"

section \<open>Outcomes\<close>

text \<open>
  \<open>Ok\<close>: the function returned. \<open>Panic\<close>: it called \<^verbatim>\<open>panic\<close> with this message.
  \<open>UB\<close>: it dereferenced a null pointer or indexed an array out of range, where C gives the
  program no meaning. \<open>Wait\<close>: it spins or sleeps until another CPU or process acts.
\<close>

datatype 'a outcome = Ok 'a | Panic string | UB | Wait

fun bindo :: "'a outcome \<Rightarrow> ('a \<Rightarrow> 'b outcome) \<Rightarrow> 'b outcome" where
  "bindo (Ok x) f = f x"
| "bindo (Panic e) f = Panic e"
| "bindo UB f = UB"
| "bindo Wait f = Wait"

fun is_ok :: "'a outcome \<Rightarrow> bool" where
  "is_ok (Ok _) = True"
| "is_ok _ = False"

lemma bindo_Ok_iff [outcome_simps]: "bindo m f = Ok y \<longleftrightarrow> (\<exists>x. m = Ok x \<and> f x = Ok y)"
  by (cases m) auto

lemma bindo_Panic_iff [outcome_simps]:
  "bindo m f = Panic e \<longleftrightarrow> m = Panic e \<or> (\<exists>x. m = Ok x \<and> f x = Panic e)"
  by (cases m) auto

lemma bindo_UB_iff [outcome_simps]: "bindo m f = UB \<longleftrightarrow> m = UB \<or> (\<exists>x. m = Ok x \<and> f x = UB)"
  by (cases m) auto

lemma bindo_assoc: "bindo (bindo m f) g = bindo m (\<lambda>x. bindo (f x) g)"
  by (cases m) auto

lemma bindo_cong [fundef_cong]:
  "m = m' \<Longrightarrow> (\<And>x. m' = Ok x \<Longrightarrow> f x = f' x) \<Longrightarrow> bindo m f = bindo m' f'"
  by (cases m') auto

lemma is_ok_iff: "is_ok m \<longleftrightarrow> (\<exists>x. m = Ok x)"
  by (cases m) auto

section \<open>Constants\<close>

abbreviation (input) NPROC :: nat where "NPROC \<equiv> 64"
abbreviation (input) NOFILE :: nat where "NOFILE \<equiv> 16"
abbreviation (input) NFILE :: nat where "NFILE \<equiv> 100"
abbreviation (input) NPROCQ :: nat where "NPROCQ \<equiv> 3"
abbreviation (input) MAXSHAREDPG :: nat where "MAXSHAREDPG \<equiv> 10"
abbreviation (input) MAXOPBLOCKS :: nat where "MAXOPBLOCKS \<equiv> 10"
abbreviation (input) LOGSIZE :: nat where "LOGSIZE \<equiv> 30"

definition PHYSTOP :: u32 where "PHYSTOP = 0xE000000"
definition EXTMEM :: u32 where "EXTMEM = 0x100000"
definition DEVSPACE :: u32 where "DEVSPACE = 0xFE000000"
definition KERNBASE :: u32 where "KERNBASE = 0x80000000"
definition KERNLINK :: u32 where "KERNLINK = KERNBASE + EXTMEM"

abbreviation (input) PGSIZE :: u32 where "PGSIZE \<equiv> 4096"

definition V2P :: "u32 \<Rightarrow> u32" where "V2P a = a - KERNBASE"
definition P2V :: "u32 \<Rightarrow> u32" where "P2V a = a + KERNBASE"

definition PGROUNDDOWN :: "u32 \<Rightarrow> u32" where
  "PGROUNDDOWN a = a AND NOT (PGSIZE - 1)"

definition PGROUNDUP :: "u32 \<Rightarrow> u32" where
  "PGROUNDUP sz = (sz + PGSIZE - 1) AND NOT (PGSIZE - 1)"

lemma V2P_P2V [simp]: "V2P (P2V a) = a"
  by (simp add: V2P_def P2V_def)

lemma P2V_V2P [simp]: "P2V (V2P a) = a"
  by (simp add: V2P_def P2V_def)

lemma not_low_mask [pg_simps]: "(a :: u32) AND NOT (PGSIZE - 1) = push_bit 12 (drop_bit 12 a)"
proof (rule bit_word_eqI)
  fix n assume "n < LENGTH(32)"
  then have n: "n < 32" by simp
  have m: "PGSIZE - 1 = mask 12" by (simp add: mask_eq_exp_minus_1)
  show "bit (a AND NOT (PGSIZE - 1)) n = bit (push_bit 12 (drop_bit 12 a)) n"
    using n unfolding m by (auto simp: bit_simps)
qed

lemma unat32_lt [simp]: "unat (a :: u32) < 4294967296"
  using unsigned_less [of a] by simp

lemma unat_PGROUNDDOWN: "unat (PGROUNDDOWN a) = unat a div 4096 * 4096"
proof -
  have "unat a div 4096 * 4096 < 4294967296"
    using unat32_lt [of a] div_times_less_eq_dividend [of "unat a" 4096] by linarith
  then show ?thesis
    unfolding PGROUNDDOWN_def not_low_mask push_bit_eq_mult
    by (simp add: unat_word_ariths unat_drop_bit_eq drop_bit_eq_div)
qed

lemma unat_diff_Suc:
  fixes x d :: u32
  shows "unat (x - (d + 1)) = (if x = d then 4294967295 else unat (x - d) - 1)"
proof -
  have e: "x - (d + 1) = (x - d) - 1" by simp
  show ?thesis
  proof (cases "x = d")
    case True
    then show ?thesis by (simp add: unsigned_minus_1_eq_mask mask_eq_exp_minus_1)
  next
    case False
    then have "x - d \<noteq> 0" by simp
    then show ?thesis using False unfolding e by (simp add: unat_minus_one)
  qed
qed

lemma unat_diff_pos: "x \<noteq> d \<Longrightarrow> 0 < unat (x - d :: u32)"
  by (metis gr0I right_minus_eq unat_eq_zero)

lemma unat_add_small:
  "unat (s :: u32) + unat t < 4294967296 \<Longrightarrow> unat (s + t) = unat s + unat t"
  by (simp add: unat_word_ariths)

lemma unat_minus_1_less: "0 < unat (w :: u32) \<Longrightarrow> unat (w - 1) = unat w - 1"
  by (metis less_numeral_extra(3) unat_0 unat_minus_one)

end
