(* ===== verification/Sched.thy ===== *)
theory Sched
  imports Xv6_Prelude
begin

text \<open>
  The process table and the multi-level feedback scheduler of \<^verbatim>\<open>proc.c\<close>. A process is its
  index in \<^verbatim>\<open>ptable.proc\<close>; the three run queues are lists threaded through the \<^verbatim>\<open>next\<close>
  fields, with a head, a last element and a count each. Every operation below runs with
  \<^verbatim>\<open>ptable.lock\<close> held, so it is one atomic step; the lock itself is modelled in \<open>Spinlock\<close>.
  A call of \<^verbatim>\<open>swtch\<close> to the scheduler is followed by what the scheduler does when it resumes.
\<close>

section \<open>The process table\<close>

datatype procstate = UNUSED | EMBRYO | SLEEPING | RUNNABLE | RUNNING | ZOMBIE

text \<open>Sleep channels are addresses of kernel objects; only their identity matters.\<close>

datatype chan = ChProc nat | ChTicks | ChLog | ChBuf nat | ChSleeplock nat | ChInput
  | ChPipeRead u32 | ChPipeWrite u32

record trapframe =
  tf_edi :: u32
  tf_esi :: u32
  tf_ebp :: u32
  tf_oesp :: u32
  tf_ebx :: u32
  tf_edx :: u32
  tf_ecx :: u32
  tf_eax :: u32
  tf_gs :: u16
  tf_fs :: u16
  tf_es :: u16
  tf_ds :: u16
  tf_trapno :: u32
  tf_err :: u32
  tf_eip :: u32
  tf_cs :: u16
  tf_eflags :: u32
  tf_esp :: u32
  tf_ss :: u16

record proc =
  p_sz :: u32
  p_pgdir :: u32
  p_kstack :: u32
  p_state :: procstate
  p_pid :: int
  p_parent :: "nat option"
  p_tf :: trapframe
  p_eip :: u32
  p_chan :: "chan option"
  p_killed :: bool
  p_ofile :: "nat \<Rightarrow> nat option"
  p_cwd :: "nat option"
  p_name :: "u8 list"
  p_next :: "nat option"
  p_priority :: u32
  p_timepiece :: u32
  p_sharedrec :: "nat \<Rightarrow> u8"
  p_widx :: int

record pqueue =
  q_head :: "nat option"
  q_last :: "nat option"

text \<open>The fields of \<^verbatim>\<open>struct cpu\<close> the scheduler uses, with the page-table register and the
  task-state fields that \<^verbatim>\<open>switchuvm\<close> loads.\<close>

record cpu =
  c_proc :: "nat option"
  c_rtime :: u32
  c_consflag :: u8
  c_cr3 :: u32
  c_esp0 :: u32
  c_ss0 :: u16
  c_iomb :: u16
  c_apicid :: u8

record ptable =
  procs :: "nat \<Rightarrow> proc"
  pqueue :: "nat \<Rightarrow> pqueue"
  count :: "nat \<Rightarrow> u32"
  nextpid :: int
  initproc :: "nat option"
  cpus :: "nat \<Rightarrow> cpu"
  kpgdir :: u32

definition upd_proc :: "nat \<Rightarrow> (proc \<Rightarrow> proc) \<Rightarrow> 'a ptable_scheme \<Rightarrow> 'a ptable_scheme" where
  "upd_proc p f s = s\<lparr>procs := (procs s)(p := f (procs s p))\<rparr>"

definition upd_cpu :: "nat \<Rightarrow> (cpu \<Rightarrow> cpu) \<Rightarrow> 'a ptable_scheme \<Rightarrow> 'a ptable_scheme" where
  "upd_cpu c f s = s\<lparr>cpus := (cpus s)(c := f (cpus s c))\<rparr>"

definition myproc :: "nat \<Rightarrow> 'a ptable_scheme \<Rightarrow> nat option" where
  "myproc c s = c_proc (cpus s c)"

section \<open>Run queues\<close>

text \<open>\<^verbatim>\<open>np->priority\<close> indexes arrays of \<open>NPROCQ\<close> elements.\<close>

definition qpush :: "nat \<Rightarrow> 'a ptable_scheme \<Rightarrow> 'a ptable_scheme outcome" where
  "qpush np s = (let pr = unat (p_priority (procs s np)) in
     if pr \<ge> NPROCQ then UB
     else
       bindo
         (if count s pr \<le> 0 then
            Ok ((upd_proc np (\<lambda>p. p\<lparr>p_next := Some np\<rparr>) s)
                  \<lparr>pqueue := (pqueue s)(pr := \<lparr>q_head = Some np, q_last = Some np\<rparr>)\<rparr>)
          else case q_last (pqueue s pr) of
              None \<Rightarrow> UB
            | Some l \<Rightarrow>
                let s1 = upd_proc np (\<lambda>p. p\<lparr>p_next := q_head (pqueue s pr)\<rparr>) s;
                    s2 = upd_proc l (\<lambda>p. p\<lparr>p_next := Some np\<rparr>) s1
                in Ok (s2\<lparr>pqueue := (pqueue s2)(pr := (pqueue s2 pr)\<lparr>q_last := Some np\<rparr>)\<rparr>))
         (\<lambda>s. let s1 = upd_proc np (\<lambda>p. p\<lparr>p_timepiece :=
                  push_bit (unat (of_nat NPROCQ - p_priority p - 1)) 1\<rparr>) s
              in Ok (s1\<lparr>count := (count s1)(pr := count s1 pr + 1)\<rparr>)))"

section \<open>The scheduler\<close>

text \<open>The inner \<^verbatim>\<open>while\<close> of \<^verbatim>\<open>scheduler\<close>: drop heads that are not runnable.\<close>

function drop_stale :: "nat \<Rightarrow> 'a ptable_scheme \<Rightarrow> 'a ptable_scheme outcome" where
  "drop_stale q s =
     (if count s q > 0 then
        (case q_head (pqueue s q) of
           None \<Rightarrow> UB
         | Some h \<Rightarrow>
             if p_state (procs s h) \<noteq> RUNNABLE then
               drop_stale q (s\<lparr>pqueue := (pqueue s)(q := (pqueue s q)\<lparr>q_head := p_next (procs s h)\<rparr>),
                              count := (count s)(q := count s q - 1)\<rparr>)
             else Ok s)
      else Ok s)"
  by pat_completeness auto
termination
  by (relation "measure (\<lambda>(q, s). unat (count s q))")
     (auto simp: unat_minus_1_less word_less_nat_alt)

declare drop_stale.simps [simp del]

text \<open>\<^verbatim>\<open>switchuvm\<close> (\<^verbatim>\<open>vm.c\<close>): the checks, then the task state and the page-table register of
  the CPU. The segment descriptor it rewrites each time has the same value each time.\<close>

definition switchuvm :: "nat \<Rightarrow> nat option \<Rightarrow> 'a ptable_scheme \<Rightarrow> 'a ptable_scheme outcome" where
  "switchuvm c po s = (case po of
     None \<Rightarrow> Panic ''switchuvm: no process''
   | Some p \<Rightarrow>
       if p_kstack (procs s p) = 0 then Panic ''switchuvm: no kstack''
       else if p_pgdir (procs s p) = 0 then Panic ''switchuvm: no pgdir''
       else Ok (upd_cpu c (\<lambda>r. r\<lparr>c_ss0 := 0x10, c_esp0 := p_kstack (procs s p) + 4096,
                 c_iomb := 0xFFFF, c_cr3 := V2P (p_pgdir (procs s p))\<rparr>) s))"

definition switchkvm :: "nat \<Rightarrow> 'a ptable_scheme \<Rightarrow> 'a ptable_scheme" where
  "switchkvm c s = upd_cpu c (\<lambda>r. r\<lparr>c_cr3 := V2P (kpgdir s)\<rparr>) s"

text \<open>One pass of the \<^verbatim>\<open>for\<close> loop over the queues, from the highest priority down, up to the
  \<^verbatim>\<open>swtch\<close> into the chosen process (\<open>Some p\<close>), or to the end of the loop with nothing to run.
  The queue number is \<open>q - 1\<close>, so that the loop is a recursion on \<open>q\<close>.\<close>

fun sched_loop :: "nat \<Rightarrow> nat \<Rightarrow> 'a ptable_scheme \<Rightarrow> (nat option \<times> 'a ptable_scheme) outcome" where
  "sched_loop c 0 s = Ok (None, s)"
| "sched_loop c (Suc q) s =
     bindo (drop_stale q s) (\<lambda>s.
       if count s q > 0 then
         (case q_head (pqueue s q) of
            None \<Rightarrow> UB
          | Some p \<Rightarrow>
              let s1 = s\<lparr>pqueue := (pqueue s)(q := (pqueue s q)\<lparr>q_head := p_next (procs s p)\<rparr>),
                         count := (count s)(q := count s q - 1)\<rparr>;
                  s2 = upd_cpu c (\<lambda>r. r\<lparr>c_proc := Some p\<rparr>) s1
              in bindo (switchuvm c (Some p) s2) (\<lambda>s3.
                   Ok (Some p, upd_proc p (\<lambda>x. x\<lparr>p_state := RUNNING\<rparr>) s3)))
       else sched_loop c q s)"

definition scheduler :: "nat \<Rightarrow> 'a ptable_scheme \<Rightarrow> (nat option \<times> 'a ptable_scheme) outcome" where
  "scheduler c s = sched_loop c NPROCQ s"

text \<open>What the scheduler does when a process switches back to it.\<close>

definition sched_resume :: "nat \<Rightarrow> 'a ptable_scheme \<Rightarrow> 'a ptable_scheme" where
  "sched_resume c s = upd_cpu c (\<lambda>r. r\<lparr>c_proc := None\<rparr>) (switchkvm c s)"

text \<open>The previous round-robin scheduler, \<^verbatim>\<open>schedulerR\<close>: its scan of the table from slot \<open>i\<close>,
  up to the next \<^verbatim>\<open>swtch\<close>.\<close>

function schedulerR_loop :: "nat \<Rightarrow> nat \<Rightarrow> 'a ptable_scheme \<Rightarrow> (nat option \<times> 'a ptable_scheme) outcome" where
  "schedulerR_loop c i s =
     (if i < NPROC then
        (if p_state (procs s i) \<noteq> RUNNABLE then schedulerR_loop c (Suc i) s
         else bindo (switchuvm c (Some i) (upd_cpu c (\<lambda>r. r\<lparr>c_proc := Some i\<rparr>) s)) (\<lambda>s.
                Ok (Some i, upd_proc i (\<lambda>x. x\<lparr>p_state := RUNNING\<rparr>) s)))
      else Ok (None, s))"
  by pat_completeness auto
termination
  by (relation "measure (\<lambda>(c, i, s). NPROC - i)") auto

declare schedulerR_loop.simps [simp del]

text \<open>\<^verbatim>\<open>sched\<close>: the checks on \<^verbatim>\<open>ptable.lock\<close>, \<^verbatim>\<open>ncli\<close> and the interrupt flag are those of a
  caller that holds exactly \<^verbatim>\<open>ptable.lock\<close>.\<close>

definition sched :: "nat \<Rightarrow> 'a ptable_scheme \<Rightarrow> 'a ptable_scheme outcome" where
  "sched c s = (case myproc c s of
     None \<Rightarrow> UB
   | Some p \<Rightarrow> if p_state (procs s p) = RUNNING then Panic ''sched running''
              else Ok (sched_resume c s))"

section \<open>Giving up the CPU, sleeping and waking\<close>

definition yield :: "nat \<Rightarrow> 'a ptable_scheme \<Rightarrow> 'a ptable_scheme outcome" where
  "yield c s = (case myproc c s of
     None \<Rightarrow> UB
   | Some p \<Rightarrow>
       let s1 = upd_proc p (\<lambda>x. x\<lparr>p_state := RUNNABLE\<rparr>) s;
           s2 = upd_proc p (\<lambda>x. if p_priority x > 0 then x\<lparr>p_priority := p_priority x - 1\<rparr> else x) s1
       in bindo (qpush p s2) (\<lambda>s. sched c s))"

text \<open>\<^verbatim>\<open>sleep\<close> up to its \<^verbatim>\<open>sched\<close>, and what it does when it is scheduled again. The lock
  argument only matters for being null.\<close>

definition sleep :: "nat \<Rightarrow> chan \<Rightarrow> u32 \<Rightarrow> 'a ptable_scheme \<Rightarrow> 'a ptable_scheme outcome" where
  "sleep c ch lk s = (case myproc c s of
     None \<Rightarrow> Panic ''sleep''
   | Some p \<Rightarrow>
       if lk = 0 then Panic ''sleep without lk''
       else sched c (upd_proc p (\<lambda>x. x\<lparr>p_chan := Some ch, p_state := SLEEPING\<rparr>) s))"

definition sleep_resume :: "nat \<Rightarrow> 'a ptable_scheme \<Rightarrow> 'a ptable_scheme outcome" where
  "sleep_resume c s = (case myproc c s of
     None \<Rightarrow> UB | Some p \<Rightarrow> Ok (upd_proc p (\<lambda>x. x\<lparr>p_chan := None\<rparr>) s))"

definition wakeup1_at :: "chan option \<Rightarrow> nat \<Rightarrow> 'a ptable_scheme \<Rightarrow> 'a ptable_scheme outcome" where
  "wakeup1_at ch p s =
     (if p_state (procs s p) = SLEEPING \<and> p_chan (procs s p) = ch then
        let s1 = upd_proc p (\<lambda>x. x\<lparr>p_state := RUNNABLE\<rparr>) s;
            s2 = upd_proc p (\<lambda>x. if p_priority x < of_nat NPROCQ - 1
                                  then x\<lparr>p_priority := p_priority x + 1\<rparr> else x) s1
        in qpush p s2
      else Ok s)"

fun wakeup1_loop :: "chan option \<Rightarrow> nat list \<Rightarrow> 'a ptable_scheme \<Rightarrow> 'a ptable_scheme outcome" where
  "wakeup1_loop ch [] s = Ok s"
| "wakeup1_loop ch (p # ps) s = bindo (wakeup1_at ch p s) (\<lambda>s. wakeup1_loop ch ps s)"

definition wakeup1 :: "chan option \<Rightarrow> 'a ptable_scheme \<Rightarrow> 'a ptable_scheme outcome" where
  "wakeup1 ch s = wakeup1_loop ch [0..<NPROC] s"

definition wakeup :: "chan \<Rightarrow> 'a ptable_scheme \<Rightarrow> 'a ptable_scheme outcome" where
  "wakeup ch s = wakeup1 (Some ch) s"

text \<open>\<^verbatim>\<open>kill\<close> marks the first process with this pid; a sleeper is made runnable.\<close>

fun kill_loop :: "int \<Rightarrow> nat list \<Rightarrow> 'a ptable_scheme \<Rightarrow> int \<times> 'a ptable_scheme" where
  "kill_loop pid [] s = (-1, s)"
| "kill_loop pid (p # ps) s =
     (if p_pid (procs s p) = pid then
        (0, upd_proc p (\<lambda>x. if p_state x = SLEEPING then x\<lparr>p_killed := True, p_state := RUNNABLE\<rparr>
                             else x\<lparr>p_killed := True\<rparr>) s)
      else kill_loop pid ps s)"

definition kill :: "int \<Rightarrow> 'a ptable_scheme \<Rightarrow> int \<times> 'a ptable_scheme" where
  "kill pid s = kill_loop pid [0..<NPROC] s"

section \<open>Process slots\<close>

text \<open>The part of \<^verbatim>\<open>allocproc\<close> under the lock: the first unused slot, its state and pid.\<close>

definition find_unused :: "'a ptable_scheme \<Rightarrow> nat option" where
  "find_unused s = List.find (\<lambda>p. p_state (procs s p) = UNUSED) [0..<NPROC]"

definition allocproc_slot :: "'a ptable_scheme \<Rightarrow> nat option \<times> 'a ptable_scheme" where
  "allocproc_slot s = (case find_unused s of
     None \<Rightarrow> (None, s)
   | Some p \<Rightarrow>
       (Some p, (upd_proc p (\<lambda>x. x\<lparr>p_state := EMBRYO, p_pid := nextpid s\<rparr>) s)\<lparr>nextpid := nextpid s + 1\<rparr>))"

text \<open>The end of \<^verbatim>\<open>allocproc\<close>, and the lines of \<^verbatim>\<open>fork\<close> and \<^verbatim>\<open>userinit\<close> that make the new
  process runnable.\<close>

definition allocproc_init :: "nat \<Rightarrow> 'a ptable_scheme \<Rightarrow> 'a ptable_scheme" where
  "allocproc_init p s = upd_proc p (\<lambda>x. x\<lparr>p_priority := of_nat NPROCQ - 1, p_widx := 0\<rparr>) s"

definition make_runnable :: "nat \<Rightarrow> 'a ptable_scheme \<Rightarrow> 'a ptable_scheme outcome" where
  "make_runnable p s = qpush p (upd_proc p (\<lambda>x. x\<lparr>p_state := RUNNABLE\<rparr>) s)"

text \<open>The loop of \<^verbatim>\<open>exit\<close> that passes abandoned children to init.\<close>

definition reparent_at :: "nat \<Rightarrow> nat \<Rightarrow> 'a ptable_scheme \<Rightarrow> 'a ptable_scheme outcome" where
  "reparent_at cur p s =
     (if p_parent (procs s p) = Some cur then
        let s1 = upd_proc p (\<lambda>x. x\<lparr>p_parent := initproc s\<rparr>) s
        in if p_state (procs s1 p) = ZOMBIE then wakeup1 (map_option ChProc (initproc s1)) s1 else Ok s1
      else Ok s)"

fun reparent_loop :: "nat \<Rightarrow> nat list \<Rightarrow> 'a ptable_scheme \<Rightarrow> 'a ptable_scheme outcome" where
  "reparent_loop cur [] s = Ok s"
| "reparent_loop cur (p # ps) s = bindo (reparent_at cur p s) (\<lambda>s. reparent_loop cur ps s)"

text \<open>\<^verbatim>\<open>exit\<close> from the acquisition of \<^verbatim>\<open>ptable.lock\<close> to its \<^verbatim>\<open>sched\<close>.\<close>

definition exit_locked :: "nat \<Rightarrow> 'a ptable_scheme \<Rightarrow> 'a ptable_scheme outcome" where
  "exit_locked c s = (case myproc c s of
     None \<Rightarrow> UB
   | Some cur \<Rightarrow>
       bindo (wakeup1 (map_option ChProc (p_parent (procs s cur))) s) (\<lambda>s.
       bindo (reparent_loop cur [0..<NPROC] s) (\<lambda>s.
       sched c (upd_proc cur (\<lambda>x. x\<lparr>p_state := ZOMBIE\<rparr>) s))))"

text \<open>The fields \<^verbatim>\<open>wait\<close> resets when it has found an exited child.\<close>

definition reap :: "nat \<Rightarrow> 'a ptable_scheme \<Rightarrow> 'a ptable_scheme" where
  "reap p s = upd_proc p (\<lambda>x. x\<lparr>p_kstack := 0, p_pid := 0, p_parent := None,
     p_name := list_update (p_name x) 0 0, p_killed := False, p_state := UNUSED\<rparr>) s"

text \<open>The clock interrupt: the scheduling lines of \<^verbatim>\<open>trap\<close>. The unsigned comparison
  \<^verbatim>\<open>(--timepiece) <= 0\<close> holds only at zero.\<close>

definition timer_tick :: "nat \<Rightarrow> 'a ptable_scheme \<Rightarrow> 'a ptable_scheme outcome" where
  "timer_tick c s =
     (let s1 = upd_cpu c (\<lambda>r. r\<lparr>c_rtime := c_rtime r + 1\<rparr>) s in
      case myproc c s1 of
        None \<Rightarrow> Ok s1
      | Some p \<Rightarrow>
          if p_state (procs s1 p) = RUNNING then
            let s2 = upd_proc p (\<lambda>x. x\<lparr>p_timepiece := p_timepiece x - 1\<rparr>) s1
            in if p_timepiece (procs s2 p) \<le> 0 then yield c s2 else Ok s2
          else Ok s1)"

section \<open>The run queues as lists\<close>

lemma upd_proc_simps [simp]:
  "procs (upd_proc p f s) = (procs s)(p := f (procs s p))"
  "pqueue (upd_proc p f s) = pqueue s" "count (upd_proc p f s) = count s"
  "cpus (upd_proc p f s) = cpus s" "nextpid (upd_proc p f s) = nextpid s"
  "initproc (upd_proc p f s) = initproc s" "kpgdir (upd_proc p f s) = kpgdir s"
  by (simp_all add: upd_proc_def)

lemma upd_cpu_simps [simp]:
  "cpus (upd_cpu c g s) = (cpus s)(c := g (cpus s c))"
  "pqueue (upd_cpu c g s) = pqueue s" "count (upd_cpu c g s) = count s"
  "procs (upd_cpu c g s) = procs s" "nextpid (upd_cpu c g s) = nextpid s"
  "initproc (upd_cpu c g s) = initproc s" "kpgdir (upd_cpu c g s) = kpgdir s"
  by (simp_all add: upd_cpu_def)

fun walk :: "(nat \<Rightarrow> nat option) \<Rightarrow> nat option \<Rightarrow> nat \<Rightarrow> nat list" where
  "walk nx h 0 = []"
| "walk nx None (Suc n) = []"
| "walk nx (Some p) (Suc n) = p # walk nx (nx p) n"

fun linked_path :: "(nat \<Rightarrow> nat option) \<Rightarrow> nat option \<Rightarrow> nat list \<Rightarrow> bool" where
  "linked_path nx h [] \<longleftrightarrow> True"
| "linked_path nx h (x # xs) \<longleftrightarrow> h = Some x \<and> linked_path nx (nx x) xs"

definition links :: "'a ptable_scheme \<Rightarrow> nat \<Rightarrow> nat option" where
  "links s p = p_next (procs s p)"

definition qabs :: "'a ptable_scheme \<Rightarrow> nat \<Rightarrow> nat list" where
  "qabs s q = walk (links s) (q_head (pqueue s q)) (unat (count s q))"

definition qrep :: "'a ptable_scheme \<Rightarrow> nat \<Rightarrow> nat list \<Rightarrow> bool" where
  "qrep s q xs \<longleftrightarrow> unat (count s q) = length xs \<and> linked_path (links s) (q_head (pqueue s q)) xs \<and>
     (xs \<noteq> [] \<longrightarrow> q_last (pqueue s q) = Some (last xs))"

lemma walk_linked_path: "linked_path nx h xs \<Longrightarrow> walk nx h (length xs) = xs"
  by (induction xs arbitrary: h) auto

lemma qrep_qabs: "qrep s q xs \<Longrightarrow> qabs s q = xs"
  by (metis qabs_def qrep_def walk_linked_path)

lemma path_cong: "\<forall>x\<in>set xs. nx x = nx' x \<Longrightarrow> linked_path nx h xs = linked_path nx' h xs"
  by (induction xs arbitrary: h) auto

lemma path_snoc:
  assumes "linked_path nx h xs" "xs \<noteq> []" "distinct xs" "np \<notin> set xs"
  shows "linked_path (nx(np := z, last xs := Some np)) h (xs @ [np])"
  using assms
proof (induction xs arbitrary: h)
  case (Cons x xs)
  show ?case
  proof (cases "xs = []")
    case True
    then show ?thesis using Cons.prems by simp
  next
    case False
    then have "linked_path (nx(np := z, last xs := Some np)) (nx x) (xs @ [np])"
      using Cons.IH [of "nx x"] Cons.prems by (simp del: fun_upd_apply)
    moreover have "x \<noteq> np" "x \<noteq> last xs" using Cons.prems False by auto
    ultimately show ?thesis using Cons.prems False by (simp add: fun_upd_def)
  qed
qed simp

definition slice :: "nat \<Rightarrow> u32" where
  "slice q = push_bit (NPROCQ - 1 - q) 1"

definition queued :: "'a ptable_scheme \<Rightarrow> nat \<Rightarrow> bool" where
  "queued s p \<longleftrightarrow> (\<exists>q<NPROCQ. p \<in> set (qabs s q))"

definition runq_inv :: "'a ptable_scheme \<Rightarrow> bool" where
  "runq_inv s \<longleftrightarrow> (\<forall>q<NPROCQ. qrep s q (qabs s q) \<and> distinct (qabs s q) \<and>
     (\<forall>p\<in>set (qabs s q). p < NPROC \<and> p_state (procs s p) = RUNNABLE \<and>
        unat (p_priority (procs s p)) = q \<and>
        p_timepiece (procs s p) = slice q))"

lemma qpush_tp: "unat pr < NPROCQ \<Longrightarrow> push_bit (unat (of_nat NPROCQ - pr - 1 :: u32)) 1 = slice (unat pr)"
proof -
  assume a: "unat pr < NPROCQ"
  then have "unat pr = 0 \<or> unat pr = 1 \<or> unat pr = 2" by auto
  then have "pr = 0 \<or> pr = 1 \<or> pr = 2" by (auto simp: word_unat_eq_iff)
  then show ?thesis by (auto simp: slice_def)
qed

lemma qrep_length:
  assumes "distinct xs" "\<forall>p\<in>set xs. p < NPROC"
  shows "length xs \<le> NPROC"
proof -
  have "set xs \<subseteq> {..<NPROC}" using assms by auto
  then have "card (set xs) \<le> NPROC" using card_mono [of "{..<NPROC}" "set xs"] by simp
  then show ?thesis using assms by (simp add: distinct_card)
qed

lemma qpush_empty:
  assumes "unat (p_priority (procs s np)) = pr" "pr < NPROCQ" "qrep s pr []"
  shows "qpush np s = Ok (s\<lparr>procs := (procs s)(np := (procs s np)\<lparr>p_next := Some np, p_timepiece := slice pr\<rparr>),
      pqueue := (pqueue s)(pr := \<lparr>q_head = Some np, q_last = Some np\<rparr>), count := (count s)(pr := 1)\<rparr>)"
proof -
  have "count s pr = 0" using assms(3) by (simp add: qrep_def unat_eq_zero)
  then show ?thesis using assms(1,2) qpush_tp [of "p_priority (procs s np)"]
    by (simp add: qpush_def Let_def upd_proc_def)
qed

lemma qpush_snoc:
  assumes "unat (p_priority (procs s np)) = pr" "pr < NPROCQ" "qrep s pr xs" "xs \<noteq> []" "np \<noteq> last xs"
  shows "qpush np s = Ok (s\<lparr>procs := (procs s)(
        last xs := (procs s (last xs))\<lparr>p_next := Some np\<rparr>,
        np := (procs s np)\<lparr>p_next := q_head (pqueue s pr), p_timepiece := slice pr\<rparr>),
      pqueue := (pqueue s)(pr := (pqueue s pr)\<lparr>q_last := Some np\<rparr>), count := (count s)(pr := count s pr + 1)\<rparr>)"
proof -
  have "count s pr \<noteq> 0" using assms(3,4) by (auto simp: qrep_def)
  moreover have "q_last (pqueue s pr) = Some (last xs)" using assms(3,4) by (simp add: qrep_def)
  ultimately show ?thesis using assms(1,2,5) qpush_tp [of "p_priority (procs s np)"]
    by (simp add: qpush_def Let_def upd_proc_def fun_upd_twist)
qed

lemma qrep_frame:
  assumes "qrep s q xs" "pqueue s' q = pqueue s q" "count s' q = count s q"
    and "\<forall>x\<in>set xs. links s' x = links s x"
  shows "qrep s' q xs"
  using assms path_cong [of xs "links s'" "links s"] by (simp add: qrep_def)

lemma qpush_rep_same:
  assumes "qrep s pr xs" "distinct xs" "\<forall>p\<in>set xs. p < NPROC" "np \<notin> set xs"
    and "unat (p_priority (procs s np)) = pr" "pr < NPROCQ"
  shows "\<exists>s'. qpush np s = Ok s' \<and> qrep s' pr (xs @ [np])"
proof (cases "xs = []")
  case True
  then show ?thesis using assms by (simp add: qpush_empty) (simp add: qrep_def)
next
  case False
  have len: "length xs \<le> 64" using assms by (intro qrep_length) auto
  let ?nx = "(links s)(np := q_head (pqueue s pr), last xs := Some np)"
  have "linked_path ?nx (q_head (pqueue s pr)) (xs @ [np])"
    using assms False by (intro path_snoc) (auto simp: qrep_def)
  moreover have "unat (count s pr + 1) = length xs + 1"
    using assms(1) len by (simp add: qrep_def unat_add_small)
  moreover have "last xs \<noteq> np" using assms(4) False by auto
  moreover have "?nx = (\<lambda>p. p_next (((procs s)(
        last xs := (procs s (last xs))\<lparr>p_next := Some np\<rparr>,
        np := (procs s np)\<lparr>p_next := q_head (pqueue s pr), p_timepiece := slice pr\<rparr>)) p))"
    using \<open>last xs \<noteq> np\<close> by (auto simp: fun_eq_iff links_def)
  ultimately show ?thesis using assms False
    by (subst qpush_snoc [of s np pr xs]) (auto simp: qrep_def links_def [abs_def])
qed

lemma runq_invD:
  assumes "runq_inv s" "q < NPROCQ"
  shows "qrep s q (qabs s q)" "distinct (qabs s q)"
    and "p \<in> set (qabs s q) \<Longrightarrow> p < NPROC \<and> p_state (procs s p) = RUNNABLE \<and>
       unat (p_priority (procs s p)) = q \<and> p_timepiece (procs s p) = slice q"
  using assms by (auto simp: runq_inv_def)

lemma qpush_frame:
  assumes "qpush np s = Ok s'"
  shows "p_state (procs s' p) = p_state (procs s p)" "p_priority (procs s' p) = p_priority (procs s p)"
    and "p_kstack (procs s' p) = p_kstack (procs s p)" "p_pgdir (procs s' p) = p_pgdir (procs s p)"
    and "p_chan (procs s' p) = p_chan (procs s p)" "p_pid (procs s' p) = p_pid (procs s p)"
    and "p_killed (procs s' p) = p_killed (procs s p)" "p_parent (procs s' p) = p_parent (procs s p)"
    and "cpus s' = cpus s" "initproc s' = initproc s" "nextpid s' = nextpid s" "kpgdir s' = kpgdir s"
    and "p \<noteq> np \<Longrightarrow> p_timepiece (procs s' p) = p_timepiece (procs s p)"
    and "p_timepiece (procs s' np) = slice (unat (p_priority (procs s np)))"
  using assms qpush_tp [of "p_priority (procs s np)"]
  by (auto simp: qpush_def Let_def upd_proc_def outcome_simps not_le split: if_splits option.splits)

lemma qpush_links:
  assumes "qpush np s = Ok s'" "p \<noteq> np" "q_last (pqueue s (unat (p_priority (procs s np)))) \<noteq> Some p \<or>
     count s (unat (p_priority (procs s np))) = 0"
  shows "links s' p = links s p"
  using assms
  by (auto simp: links_def qpush_def Let_def upd_proc_def outcome_simps not_le split: if_splits option.splits)

lemma qpush_other_queue:
  assumes "qpush np s = Ok s'" "q \<noteq> unat (p_priority (procs s np))"
  shows "pqueue s' q = pqueue s q" "count s' q = count s q"
  using assms
  by (auto simp: qpush_def Let_def upd_proc_def outcome_simps not_le split: if_splits option.splits)

lemma qpush_correct:
  assumes inv: "runq_inv s" and np: "np < NPROC" "p_state (procs s np) = RUNNABLE"
    and pr: "unat (p_priority (procs s np)) = pr" "pr < NPROCQ" and nq: "\<not> queued s np"
  shows "\<exists>s'. qpush np s = Ok s' \<and> runq_inv s' \<and>
    (\<forall>q<NPROCQ. qabs s' q = (if q = pr then qabs s q @ [np] else qabs s q))"
proof -
  obtain s' where s': "qpush np s = Ok s'" "qrep s' pr (qabs s pr @ [np])"
    using qpush_rep_same [of s pr "qabs s pr" np] runq_invD [OF inv pr(2)] pr nq
    by (auto simp: queued_def)
  have rep: "qrep s' q (if q = pr then qabs s q @ [np] else qabs s q)" if q: "q < NPROCQ" for q
  proof (cases "q = pr")
    case False
    note same = qpush_other_queue [OF s'(1), of q, unfolded pr(1), OF False]
    have "links s' x = links s x" if x: "x \<in> set (qabs s q)" for x
    proof (rule qpush_links [OF s'(1)])
      show "x \<noteq> np" using nq x q by (auto simp: queued_def)
      have "unat (p_priority (procs s x)) = q" using runq_invD(3) [OF inv q x] by simp
      then have "x \<notin> set (qabs s pr)" using runq_invD(3) [OF inv pr(2)] False by auto
      then show "q_last (pqueue s (unat (p_priority (procs s np)))) \<noteq> Some x \<or>
        count s (unat (p_priority (procs s np))) = 0"
        using runq_invD(1) [OF inv pr(2)] pr(1) by (cases "qabs s pr = []") (auto simp: qrep_def unat_eq_zero)
    qed
    then show ?thesis using False qrep_frame [OF runq_invD(1) [OF inv q] same] by simp
  qed (use s'(2) in simp)
  have abs: "qabs s' q = (if q = pr then qabs s q @ [np] else qabs s q)" if "q < NPROCQ" for q
    using qrep_qabs [OF rep [OF that]] .
  have "runq_inv s'"
    unfolding runq_inv_def
  proof (intro allI impI conjI ballI)
    fix q p assume q: "q < NPROCQ"
    show "qrep s' q (qabs s' q)" using rep [OF q] abs [OF q] by simp
    show "distinct (qabs s' q)"
      using abs [OF q] runq_invD(2) [OF inv q] nq q by (auto simp: queued_def)
    assume p: "p \<in> set (qabs s' q)"
    then have "p = np \<and> q = pr \<or> p \<in> set (qabs s q) \<and> p \<noteq> np"
      using abs [OF q] nq q by (auto simp: queued_def split: if_splits)
    then show "p < NPROC" "p_state (procs s' p) = RUNNABLE" "unat (p_priority (procs s' p)) = q"
      "p_timepiece (procs s' p) = slice q"
      using np pr runq_invD(3) [OF inv q, of p] qpush_frame [OF s'(1)] by auto
  qed
  with s'(1) abs show ?thesis by blast
qed
section \<open>The invariant\<close>

definition keeps_sched :: "proc \<Rightarrow> proc \<Rightarrow> bool" where
  "keeps_sched x y \<longleftrightarrow> p_state y = p_state x \<and> p_next y = p_next x \<and>
     p_priority y = p_priority x \<and> p_timepiece y = p_timepiece x"

definition proc_ok :: "proc \<Rightarrow> bool" where
  "proc_ok x \<longleftrightarrow> unat (p_priority x) < NPROCQ \<and>
     (p_state x \<in> {SLEEPING, RUNNABLE, RUNNING} \<longrightarrow> p_kstack x \<noteq> 0 \<and> p_pgdir x \<noteq> 0)"

definition procs_ok :: "'a ptable_scheme \<Rightarrow> bool" where
  "procs_ok s \<longleftrightarrow> (\<forall>p<NPROC. proc_ok (procs s p))"

definition cpu_inv :: "'a ptable_scheme \<Rightarrow> bool" where
  "cpu_inv s \<longleftrightarrow>
     (\<forall>c p. c_proc (cpus s c) = Some p \<longrightarrow> p < NPROC \<and> p_state (procs s p) = RUNNING) \<and>
     (\<forall>c c' p. c_proc (cpus s c) = Some p \<and> c_proc (cpus s c') = Some p \<longrightarrow> c = c')"

definition sched_inv :: "'a ptable_scheme \<Rightarrow> bool" where
  "sched_inv s \<longleftrightarrow> runq_inv s \<and> procs_ok s \<and> cpu_inv s"

lemma runq_frame:
  assumes inv: "runq_inv s" and pq: "pqueue s' = pqueue s" "count s' = count s"
    and p: "\<And>p. queued s p \<Longrightarrow> keeps_sched (procs s p) (procs s' p)"
  shows "runq_inv s' \<and> (\<forall>q<NPROCQ. qabs s' q = qabs s q)"
proof -
  have "qrep s' q (qabs s q)" if q: "q < NPROCQ" for q
  proof -
    have "keeps_sched (procs s x) (procs s' x)" if "x \<in> set (qabs s q)" for x
      using p that q by (auto simp: queued_def)
    then have "\<forall>x\<in>set (qabs s q). links s' x = links s x"
      by (simp add: keeps_sched_def links_def)
    then show ?thesis using qrep_frame [OF runq_invD(1) [OF inv q], of s'] pq by simp
  qed
  then have rep: "qrep s' q (qabs s q)" "qabs s' q = qabs s q" if "q < NPROCQ" for q
    using that qrep_qabs by auto
  have "runq_inv s'"
    unfolding runq_inv_def
  proof (intro allI impI)
    fix q assume q: "q < NPROCQ"
    have "\<forall>x\<in>set (qabs s q). keeps_sched (procs s x) (procs s' x)" using p q by (auto simp: queued_def)
    then show "qrep s' q (qabs s' q) \<and> distinct (qabs s' q) \<and> (\<forall>x\<in>set (qabs s' q). x < NPROC \<and>
        p_state (procs s' x) = RUNNABLE \<and> unat (p_priority (procs s' x)) = q \<and>
        p_timepiece (procs s' x) = slice q)"
      using rep [OF q] runq_invD(2,3) [OF inv q] by (auto simp: keeps_sched_def)
  qed
  with rep(2) show ?thesis by blast
qed

lemma queued_runnable: "runq_inv s \<Longrightarrow> queued s p \<Longrightarrow> p < NPROC \<and> p_state (procs s p) = RUNNABLE"
  using runq_invD(3) by (auto simp: queued_def)

lemma runq_upd:
  assumes "runq_inv s" "p_state (procs s p) \<noteq> RUNNABLE \<or> keeps_sched (procs s p) (f (procs s p))"
  shows "runq_inv (upd_proc p f s)" "q < NPROCQ \<Longrightarrow> qabs (upd_proc p f s) q = qabs s q"
proof -
  have "keeps_sched (procs s x) (procs (upd_proc p f s) x)" if "queued s x" for x
    using assms queued_runnable [OF assms(1) that] by (auto simp: keeps_sched_def)
  then show "runq_inv (upd_proc p f s)" "q < NPROCQ \<Longrightarrow> qabs (upd_proc p f s) q = qabs s q"
    using runq_frame [OF assms(1), of "upd_proc p f s"] by auto
qed

lemma runq_upd_cpu [simp]: "runq_inv (upd_cpu c g s) = runq_inv s" "qabs (upd_cpu c g s) = qabs s"
proof -
  have l: "links (upd_cpu c g s) = links s" by (simp add: fun_eq_iff links_def)
  show a: "qabs (upd_cpu c g s) = qabs s" by (simp add: fun_eq_iff qabs_def l)
  show "runq_inv (upd_cpu c g s) = runq_inv s" by (simp add: runq_inv_def a qrep_def l)
qed

lemma procs_ok_upd_cpu [simp]: "procs_ok (upd_cpu c g s) = procs_ok s"
  by (simp add: procs_ok_def)

lemma queued_cong: "\<forall>q<NPROCQ. qabs s' q = qabs s q \<Longrightarrow> queued s' = queued s"
  by (auto simp: queued_def fun_eq_iff)

lemma procs_ok_upd: "procs_ok s \<Longrightarrow> (p < NPROC \<Longrightarrow> proc_ok (f (procs s p))) \<Longrightarrow> procs_ok (upd_proc p f s)"
  by (simp add: procs_ok_def)

lemma slice_nonzero: "q < NPROCQ \<Longrightarrow> slice q \<noteq> 0"
proof -
  assume "q < NPROCQ"
  then have "q = 0 \<or> q = 1 \<or> q = 2" by auto
  then show ?thesis by (auto simp: slice_def)
qed

lemma enqueue:
  assumes inv: "runq_inv s" "procs_ok s" and p: "p < NPROC" "p_state (procs s p) \<noteq> RUNNABLE"
    and st: "p_kstack (procs s p) \<noteq> 0" "p_pgdir (procs s p) \<noteq> 0"
    and f: "p_state (f (procs s p)) = RUNNABLE" "unat (p_priority (f (procs s p))) = pr" "pr < NPROCQ"
      "p_kstack (f (procs s p)) = p_kstack (procs s p)" "p_pgdir (f (procs s p)) = p_pgdir (procs s p)"
  shows "\<exists>s'. qpush p (upd_proc p f s) = Ok s' \<and> runq_inv s' \<and> procs_ok s' \<and>
    (\<forall>q<NPROCQ. qabs s' q = (if q = pr then qabs s q @ [p] else qabs s q))"
proof -
  let ?s = "upd_proc p f s"
  have r: "runq_inv ?s" and a: "\<And>q. q < NPROCQ \<Longrightarrow> qabs ?s q = qabs s q"
    using runq_upd [OF inv(1), of p f] p by auto
  have "\<not> queued ?s p" using a queued_runnable [OF inv(1), of p] p by (auto simp: queued_def)
  then obtain s' where s': "qpush p ?s = Ok s'" "runq_inv s'"
      "\<forall>q<NPROCQ. qabs s' q = (if q = pr then qabs ?s q @ [p] else qabs ?s q)"
    using qpush_correct [OF r p(1)] f by auto
  have "proc_ok (procs s' x)" if "x < NPROC" for x
    using inv(2) that f st slice_nonzero
    by (cases "x = p") (auto simp: procs_ok_def proc_ok_def qpush_frame [OF s'(1)])
  with s' a show ?thesis by (auto simp: procs_ok_def)
qed

lemma sched_resume_simps [simp]:
  "procs (sched_resume c s) = procs s" "pqueue (sched_resume c s) = pqueue s"
  "count (sched_resume c s) = count s" "qabs (sched_resume c s) = qabs s"
  "runq_inv (sched_resume c s) = runq_inv s" "procs_ok (sched_resume c s) = procs_ok s"
  "c_proc (cpus (sched_resume c s) d) = (if d = c then None else c_proc (cpus s d))"
  "initproc (sched_resume c s) = initproc s"
  by (simp_all add: sched_resume_def switchkvm_def)


lemma cpu_invD:
  assumes "cpu_inv s" "myproc c s = Some p"
  shows "p < NPROC" "p_state (procs s p) = RUNNING" "c_proc (cpus s d) = Some p \<Longrightarrow> d = c"
  using assms by (auto simp: cpu_inv_def myproc_def)

lemma cpu_inv_frame:
  assumes "cpu_inv s" "\<And>d. c_proc (cpus s' d) = c_proc (cpus s d)"
    and "\<And>p. p_state (procs s p) = RUNNING \<Longrightarrow> p_state (procs s' p) = RUNNING"
  shows "cpu_inv s'"
  using assms by (auto simp: cpu_inv_def)

lemma cpu_inv_release:
  assumes "cpu_inv s" "myproc c s = Some p"
    and "\<And>d. c_proc (cpus s' d) = (if d = c then None else c_proc (cpus s d))"
    and "\<And>x. x \<noteq> p \<Longrightarrow> p_state (procs s x) = RUNNING \<Longrightarrow> p_state (procs s' x) = RUNNING"
  shows "cpu_inv s'"
proof -
  have "c_proc (cpus s d) = Some x \<Longrightarrow> d \<noteq> c \<Longrightarrow> x \<noteq> p" for d x
    using assms(1,2) by (auto simp: cpu_inv_def myproc_def)
  then show ?thesis using assms by (auto simp: cpu_inv_def split: if_splits)
qed

section \<open>What the operations do to the queues\<close>

definition demote :: "u32 \<Rightarrow> u32" where
  "demote pr = (if pr > 0 then pr - 1 else pr)"

definition promote :: "u32 \<Rightarrow> u32" where
  "promote pr = (if pr < 2 then pr + 1 else pr)"

lemma demote_bound: "unat pr < NPROCQ \<Longrightarrow> unat (demote pr) = unat pr - 1"
  by (auto simp: demote_def word_less_nat_alt unat_minus_1_less)

lemma promote_bound: "unat pr < NPROCQ \<Longrightarrow> unat (promote pr) = min 2 (unat pr + 1)"
  by (auto simp: promote_def word_less_nat_alt unat_add_small)

lemma yield_eq:
  "myproc c s = Some p \<Longrightarrow> yield c s =
     bindo (qpush p (upd_proc p (\<lambda>x. x\<lparr>p_state := RUNNABLE, p_priority := demote (p_priority x)\<rparr>) s)) (sched c)"
proof -
  have "upd_proc p (\<lambda>x. if p_priority x > 0 then x\<lparr>p_priority := p_priority x - 1\<rparr> else x)
      (upd_proc p (\<lambda>x. x\<lparr>p_state := RUNNABLE\<rparr>) s) =
    upd_proc p (\<lambda>x. x\<lparr>p_state := RUNNABLE, p_priority := demote (p_priority x)\<rparr>) s"
    by (simp add: upd_proc_def demote_def fun_eq_iff)
  then show "myproc c s = Some p \<Longrightarrow> ?thesis" by (simp add: yield_def Let_def)
qed

lemma yield_correct:
  assumes inv: "sched_inv s" and c: "myproc c s = Some p"
  shows "\<exists>s'. yield c s = Ok s' \<and> sched_inv s' \<and>
    (let pr = unat (p_priority (procs s p)) - 1 in
     \<forall>q<NPROCQ. qabs s' q = (if q = pr then qabs s q @ [p] else qabs s q)) \<and>
    (\<forall>x. p_state (procs s' x) = (if x = p then RUNNABLE else p_state (procs s x))) \<and>
    (\<forall>d. c_proc (cpus s' d) = (if d = c then None else c_proc (cpus s d)))"
proof -
  let ?f = "\<lambda>x. x\<lparr>p_state := RUNNABLE, p_priority := demote (p_priority x)\<rparr>"
  from inv have i: "runq_inv s" "procs_ok s" "cpu_inv s" by (auto simp: sched_inv_def)
  note p = cpu_invD [OF i(3) c]
  have ok: "proc_ok (procs s p)" using i(2) p(1) by (simp add: procs_ok_def)
  then have st: "p_kstack (procs s p) \<noteq> 0" "p_pgdir (procs s p) \<noteq> 0" "unat (p_priority (procs s p)) < NPROCQ"
    using p(2) by (auto simp: proc_ok_def)
  then have "unat (p_priority (procs s p)) - 1 < NPROCQ" by simp
  then obtain s1 where s1: "qpush p (upd_proc p ?f s) = Ok s1" "runq_inv s1" "procs_ok s1"
     "\<forall>q<NPROCQ. qabs s1 q = (if q = unat (p_priority (procs s p)) - 1 then qabs s q @ [p] else qabs s q)"
    using enqueue [OF i(1,2) p(1), of ?f "unat (p_priority (procs s p)) - 1"] p(2) st
    by (auto simp: demote_bound)
  note fr = qpush_frame [OF s1(1)]
  have "yield c s = sched c s1" using c s1(1) by (simp add: yield_eq)
  also have "\<dots> = Ok (sched_resume c s1)" using c fr by (simp add: sched_def myproc_def)
  finally have "yield c s = Ok (sched_resume c s1)" .
  moreover have "cpu_inv (sched_resume c s1)"
    by (rule cpu_inv_release [OF i(3) c]) (auto simp: fr)
  ultimately show ?thesis using s1 fr by (auto simp: sched_inv_def Let_def)
qed

lemma sleep_correct:
  assumes inv: "sched_inv s" and c: "myproc c s = Some p" and "lk \<noteq> 0"
  shows "\<exists>s'. sleep c ch lk s = Ok s' \<and> sched_inv s' \<and> (\<forall>q<NPROCQ. qabs s' q = qabs s q) \<and>
    (\<forall>x. p_state (procs s' x) = (if x = p then SLEEPING else p_state (procs s x))) \<and>
    p_chan (procs s' p) = Some ch \<and>
    (\<forall>d. c_proc (cpus s' d) = (if d = c then None else c_proc (cpus s d)))"
proof -
  let ?f = "\<lambda>x. x\<lparr>p_chan := Some ch, p_state := SLEEPING\<rparr>"
  let ?s = "upd_proc p ?f s"
  from inv have i: "runq_inv s" "procs_ok s" "cpu_inv s" by (auto simp: sched_inv_def)
  note p = cpu_invD [OF i(3) c]
  have e: "sleep c ch lk s = Ok (sched_resume c ?s)"
    using assms by (simp add: sleep_def sched_def myproc_def)
  have r: "runq_inv ?s" and a: "\<forall>q<NPROCQ. qabs ?s q = qabs s q"
    using runq_upd [OF i(1), of p ?f] p(2) by auto
  have o: "procs_ok ?s"
    using i(2) p by (intro procs_ok_upd) (auto simp: procs_ok_def proc_ok_def)
  have "cpu_inv (sched_resume c ?s)"
    by (rule cpu_inv_release [OF i(3) c]) auto
  then show ?thesis using r a o unfolding e sched_inv_def
    by (intro exI [of _ "sched_resume c ?s"]) simp
qed

text \<open>wakeup: the processes sleeping on a channel, in table order, are appended to the queues.\<close>

definition sleepers :: "'a ptable_scheme \<Rightarrow> chan option \<Rightarrow> nat list \<Rightarrow> nat list" where
  "sleepers s ch ps = filter (\<lambda>p. p_state (procs s p) = SLEEPING \<and> p_chan (procs s p) = ch) ps"

definition woken_state :: "'a ptable_scheme \<Rightarrow> chan option \<Rightarrow> nat list \<Rightarrow> nat \<Rightarrow> procstate" where
  "woken_state s ch ps x = (if x \<in> set (sleepers s ch ps) then RUNNABLE else p_state (procs s x))"

lemma wakeup1_at_eq:
  "p_state (procs s p) = SLEEPING \<Longrightarrow> p_chan (procs s p) = ch \<Longrightarrow> wakeup1_at ch p s =
     qpush p (upd_proc p (\<lambda>x. x\<lparr>p_state := RUNNABLE, p_priority := promote (p_priority x)\<rparr>) s)"
proof -
  have "upd_proc p (\<lambda>x. if p_priority x < of_nat NPROCQ - 1 then x\<lparr>p_priority := p_priority x + 1\<rparr> else x)
      (upd_proc p (\<lambda>x. x\<lparr>p_state := RUNNABLE\<rparr>) s) =
    upd_proc p (\<lambda>x. x\<lparr>p_state := RUNNABLE, p_priority := promote (p_priority x)\<rparr>) s"
    by (simp add: upd_proc_def promote_def fun_eq_iff)
  then show "p_state (procs s p) = SLEEPING \<Longrightarrow> p_chan (procs s p) = ch \<Longrightarrow> ?thesis"
    by (simp add: wakeup1_at_def Let_def)
qed

lemma wakeup1_at_correct:
  assumes inv: "sched_inv s" and p: "p < NPROC" "p_state (procs s p) = SLEEPING" "p_chan (procs s p) = ch"
  shows "\<exists>s'. wakeup1_at ch p s = Ok s' \<and> sched_inv s' \<and>
    (\<forall>q<NPROCQ. qabs s' q = (if q = unat (promote (p_priority (procs s p))) then qabs s q @ [p] else qabs s q)) \<and>
    (\<forall>x. p_state (procs s' x) = (if x = p then RUNNABLE else p_state (procs s x))) \<and>
    (\<forall>x. p_priority (procs s' x) = (if x = p then promote (p_priority (procs s x)) else p_priority (procs s x))) \<and>
    (\<forall>x. p_chan (procs s' x) = p_chan (procs s x)) \<and>
    (\<forall>x. p_parent (procs s' x) = p_parent (procs s x)) \<and>
    cpus s' = cpus s \<and> initproc s' = initproc s"
proof -
  let ?f = "\<lambda>x. x\<lparr>p_state := RUNNABLE, p_priority := promote (p_priority x)\<rparr>"
  from inv have i: "runq_inv s" "procs_ok s" "cpu_inv s" by (auto simp: sched_inv_def)
  have st: "p_kstack (procs s p) \<noteq> 0" "p_pgdir (procs s p) \<noteq> 0" "unat (p_priority (procs s p)) < NPROCQ"
    using i(2) p by (auto simp: procs_ok_def proc_ok_def)
  then have "unat (promote (p_priority (procs s p))) < NPROCQ" by (simp add: promote_bound)
  then obtain s' where s': "qpush p (upd_proc p ?f s) = Ok s'" "runq_inv s'" "procs_ok s'"
     "\<forall>q<NPROCQ. qabs s' q = (if q = unat (promote (p_priority (procs s p))) then qabs s q @ [p] else qabs s q)"
    using enqueue [OF i(1,2) p(1), of ?f "unat (promote (p_priority (procs s p)))"] p(2) st by auto
  note fr = qpush_frame [OF s'(1)]
  have "cpu_inv s'"
    by (rule cpu_inv_frame [OF i(3)]) (use p(2) in \<open>auto simp: fr\<close>)
  then show ?thesis using s' p by (intro exI [of _ s']) (simp add: wakeup1_at_eq fr sched_inv_def)
qed

text \<open>The queues after waking the processes of a list, in order.\<close>

fun wake_queues :: "(nat \<Rightarrow> u32) \<Rightarrow> nat list \<Rightarrow> (nat \<Rightarrow> nat list) \<Rightarrow> nat \<Rightarrow> nat list" where
  "wake_queues pr [] A = A"
| "wake_queues pr (p # ps) A =
     wake_queues pr ps (A(unat (promote (pr p)) := A (unat (promote (pr p))) @ [p]))"

lemma wake_queues_cong:
  "(\<And>p. p \<in> set ps \<Longrightarrow> pr p = pr' p) \<Longrightarrow> (\<And>q. q < NPROCQ \<Longrightarrow> A q = B q) \<Longrightarrow> q < NPROCQ \<Longrightarrow>
   wake_queues pr ps A q = wake_queues pr' ps B q"
proof (induction ps arbitrary: A B)
  case (Cons p ps)
  let ?q = "unat (promote (pr' p))"
  have "wake_queues pr ps (A(?q := A ?q @ [p])) q = wake_queues pr' ps (B(?q := B ?q @ [p])) q"
    using Cons.prems by (intro Cons.IH) auto
  then show ?case using Cons.prems(1) by simp
qed simp

lemma wakeup1_loop_correct:
  assumes "sched_inv s" "\<forall>p\<in>set ps. p < NPROC" "distinct ps"
  shows "\<exists>s'. wakeup1_loop ch ps s = Ok s' \<and> sched_inv s' \<and>
    (\<forall>q<NPROCQ. qabs s' q = wake_queues (\<lambda>p. p_priority (procs s p)) (sleepers s ch ps) (qabs s) q) \<and>
    (\<forall>x. p_state (procs s' x) = woken_state s ch ps x) \<and>
    (\<forall>x. p_parent (procs s' x) = p_parent (procs s x)) \<and>
    cpus s' = cpus s \<and> initproc s' = initproc s"
  using assms
proof (induction ps arbitrary: s)
  case Nil
  then show ?case by (simp add: sleepers_def woken_state_def)
next
  case (Cons p ps)
  show ?case
  proof (cases "p_state (procs s p) = SLEEPING \<and> p_chan (procs s p) = ch")
    case True
    then obtain s1 where s1: "wakeup1_at ch p s = Ok s1" "sched_inv s1"
      "\<forall>q<NPROCQ. qabs s1 q = (if q = unat (promote (p_priority (procs s p))) then qabs s q @ [p] else qabs s q)"
      "\<forall>x. p_state (procs s1 x) = (if x = p then RUNNABLE else p_state (procs s x))"
      "\<forall>x. p_priority (procs s1 x) = (if x = p then promote (p_priority (procs s x)) else p_priority (procs s x))"
      "\<forall>x. p_chan (procs s1 x) = p_chan (procs s x)"
      "\<forall>x. p_parent (procs s1 x) = p_parent (procs s x)"
      "cpus s1 = cpus s" "initproc s1 = initproc s"
      using wakeup1_at_correct [of s p ch] Cons.prems by auto
    have sl: "sleepers s1 ch ps = sleepers s ch ps"
      using Cons.prems(3) s1(4,6) by (auto simp: sleepers_def intro!: filter_cong)
    have "p \<notin> set (sleepers s ch ps)" using Cons.prems(3) by (simp add: sleepers_def)
    obtain s' where s': "wakeup1_loop ch ps s1 = Ok s'" "sched_inv s'"
      "\<forall>q<NPROCQ. qabs s' q = wake_queues (\<lambda>p. p_priority (procs s1 p)) (sleepers s1 ch ps) (qabs s1) q"
      "\<forall>x. p_state (procs s' x) = woken_state s1 ch ps x"
      "\<forall>x. p_parent (procs s' x) = p_parent (procs s1 x)"
      "cpus s' = cpus s1" "initproc s' = initproc s1"
      using Cons.IH [OF s1(2)] Cons.prems by auto
    have q: "wake_queues (\<lambda>p. p_priority (procs s1 p)) (sleepers s ch ps) (qabs s1) q =
       wake_queues (\<lambda>p. p_priority (procs s p)) (sleepers s ch (p # ps)) (qabs s) q"
      if "q < NPROCQ" for q
    proof -
      have "wake_queues (\<lambda>p. p_priority (procs s1 p)) (sleepers s ch ps) (qabs s1) q =
        wake_queues (\<lambda>p. p_priority (procs s p)) (sleepers s ch ps)
          ((qabs s)(unat (promote (p_priority (procs s p))) := qabs s (unat (promote (p_priority (procs s p)))) @ [p])) q"
        using s1(3,5) \<open>p \<notin> _\<close> that by (intro wake_queues_cong) auto
      then show ?thesis using True by (simp add: sleepers_def)
    qed
    have "woken_state s1 ch ps x = woken_state s ch (p # ps) x" for x
      using s1(4) sl True by (simp add: woken_state_def) (simp add: sleepers_def)
    then show ?thesis using s' s1 q sl by (simp add: s1(1))
  next
    case False
    then have "wakeup1_at ch p s = Ok s" by (auto simp: wakeup1_at_def)
    moreover have "sleepers s ch (p # ps) = sleepers s ch ps" using False by (simp add: sleepers_def)
    ultimately show ?thesis using Cons.IH [OF Cons.prems(1)] Cons.prems
      by (simp add: woken_state_def)
  qed
qed

lemma wakeup1_correct:
  assumes "sched_inv s"
  shows "\<exists>s'. wakeup1 ch s = Ok s' \<and> sched_inv s' \<and>
    (\<forall>q<NPROCQ. qabs s' q = wake_queues (\<lambda>p. p_priority (procs s p)) (sleepers s ch [0..<NPROC]) (qabs s) q) \<and>
    (\<forall>x. p_state (procs s' x) = woken_state s ch [0..<NPROC] x) \<and>
    (\<forall>x. p_parent (procs s' x) = p_parent (procs s x)) \<and>
    cpus s' = cpus s \<and> initproc s' = initproc s"
  unfolding wakeup1_def by (rule wakeup1_loop_correct [OF assms]) auto

text \<open>The specification of the scheduler: the head of the highest non-empty queue.\<close>

fun top_queue :: "(nat \<Rightarrow> nat list) \<Rightarrow> nat \<Rightarrow> nat option" where
  "top_queue A 0 = None"
| "top_queue A (Suc q) = (if A q \<noteq> [] then Some q else top_queue A q)"

lemma top_queue_Some: "top_queue A n = Some q \<Longrightarrow> q < n \<and> A q \<noteq> [] \<and> (\<forall>r. q < r \<and> r < n \<longrightarrow> A r = [])"
  by (induction n) (auto simp: less_Suc_eq split: if_splits)

lemma top_queue_None: "top_queue A n = None \<longleftrightarrow> (\<forall>r<n. A r = [])"
  by (induction n) (auto simp: less_Suc_eq)

definition pick :: "nat \<Rightarrow> nat \<Rightarrow> 'a ptable_scheme \<Rightarrow> 'a ptable_scheme" where
  "pick c q s = (let p = hd (qabs s q) in
     upd_proc p (\<lambda>x. x\<lparr>p_state := RUNNING\<rparr>)
       (upd_cpu c (\<lambda>r. r\<lparr>c_proc := Some p, c_ss0 := 0x10, c_esp0 := p_kstack (procs s p) + 4096,
                 c_iomb := 0xFFFF, c_cr3 := V2P (p_pgdir (procs s p))\<rparr>)
         (s\<lparr>pqueue := (pqueue s)(q := (pqueue s q)\<lparr>q_head := p_next (procs s p)\<rparr>),
           count := (count s)(q := count s q - 1)\<rparr>)))"

lemma count_pos: "runq_inv s \<Longrightarrow> q < NPROCQ \<Longrightarrow> 0 < count s q \<longleftrightarrow> qabs s q \<noteq> []"
  using runq_invD(1) [of s q] by (auto simp: qrep_def word_less_nat_alt)

lemma head_hd: "runq_inv s \<Longrightarrow> q < NPROCQ \<Longrightarrow> qabs s q \<noteq> [] \<Longrightarrow> q_head (pqueue s q) = Some (hd (qabs s q))"
  using runq_invD(1) [of s q] by (cases "qabs s q") (auto simp: qrep_def)

lemma drop_stale_id: "runq_inv s \<Longrightarrow> q < NPROCQ \<Longrightarrow> drop_stale q s = Ok s"
proof -
  assume a: "runq_inv s" "q < NPROCQ"
  show "drop_stale q s = Ok s"
  proof (cases "qabs s q = []")
    case True
    then show ?thesis using count_pos [OF a] by (simp add: drop_stale.simps)
  next
    case False
    then have "p_state (procs s (hd (qabs s q))) = RUNNABLE"
      using runq_invD(3) [OF a, of "hd (qabs s q)"] by simp
    then show ?thesis using head_hd [OF a False] by (simp add: drop_stale.simps)
  qed
qed

lemma sched_loop_correct:
  assumes "runq_inv s" "procs_ok s" "n \<le> NPROCQ"
  shows "sched_loop c n s = (case top_queue (qabs s) n of
     None \<Rightarrow> Ok (None, s) | Some q \<Rightarrow> Ok (Some (hd (qabs s q)), pick c q s))"
  using assms(3)
proof (induction n)
  case (Suc n)
  then have n: "n < NPROCQ" by simp
  show ?case
  proof (cases "qabs s n = []")
    case True
    then show ?thesis using Suc count_pos [OF assms(1) n] by (simp add: drop_stale_id [OF assms(1) n])
  next
    case False
    let ?p = "hd (qabs s n)"
    have "?p < NPROC" "p_state (procs s ?p) = RUNNABLE"
      using runq_invD(3) [OF assms(1) n, of ?p] False by auto
    then have "p_kstack (procs s ?p) \<noteq> 0" "p_pgdir (procs s ?p) \<noteq> 0"
      using assms(2) by (auto simp: procs_ok_def proc_ok_def)
    then show ?thesis using False count_pos [OF assms(1) n] head_hd [OF assms(1) n False]
      by (simp add: drop_stale_id [OF assms(1) n] Let_def switchuvm_def pick_def upd_cpu_def)
  qed
qed simp

lemma pick_qabs:
  assumes inv: "runq_inv s" "q < NPROCQ" "qabs s q \<noteq> []"
  shows "runq_inv (pick c q s)" "r < NPROCQ \<Longrightarrow> qabs (pick c q s) r = (if r = q then tl (qabs s r) else qabs s r)"
proof -
  let ?p = "hd (qabs s q)"
  obtain xs where xs: "qabs s q = ?p # xs" using inv(3) by (cases "qabs s q") auto
  have lk: "links (pick c q s) = links s" by (auto simp: fun_eq_iff links_def pick_def Let_def)
  have rep: "qrep (pick c q s) r (if r = q then tl (qabs s r) else qabs s r)" if r: "r < NPROCQ" for r
  proof (cases "r = q")
    case True
    have "qrep s q (?p # xs)" using runq_invD(1) [OF inv(1,2)] xs by simp
    then have "qrep (pick c q s) q xs"
      using lk by (auto simp: qrep_def pick_def Let_def links_def unat_minus_1_less)
    then show ?thesis using True xs by (metis list.sel(3))
  next
    case False
    then show ?thesis using runq_invD(1) [OF inv(1) r] lk by (simp add: qrep_def pick_def Let_def)
  qed
  then have abs: "qabs (pick c q s) r = (if r = q then tl (qabs s r) else qabs s r)" if "r < NPROCQ" for r
    using qrep_qabs that by blast
  have ov: "?p \<notin> set (if r = q then tl (qabs s r) else qabs s r)" if r: "r < NPROCQ" for r
    using runq_invD(2) [OF inv(1,2)] runq_invD(3) [OF inv(1) r, of ?p] runq_invD(3) [OF inv(1,2), of ?p] xs
    by (metis distinct.simps(2) list.sel(1,3) list.set_intros(1))
  have mem: "x \<noteq> ?p \<and> x \<in> set (qabs s r)"
    if "x \<in> set (if r = q then tl (qabs s r) else qabs s r)" "r < NPROCQ" for x r
    using that ov [OF that(2)] list.set_sel(2) [OF inv(3)] by (cases "r = q") auto
  show "runq_inv (pick c q s)"
    unfolding runq_inv_def
  proof (intro allI impI conjI ballI)
    fix r x assume r: "r < NPROCQ"
    show "qrep (pick c q s) r (qabs (pick c q s) r)" using rep [OF r] abs [OF r] by simp
    show "distinct (qabs (pick c q s) r)"
      using abs [OF r] runq_invD(2) [OF inv(1) r] by (auto simp: distinct_tl)
    assume "x \<in> set (qabs (pick c q s) r)"
    then have x: "x \<noteq> ?p" "x \<in> set (qabs s r)" using mem [of x r] abs [OF r] r by auto
    then have "procs (pick c q s) x = procs s x" by (simp add: pick_def Let_def)
    then show "x < NPROC" "p_state (procs (pick c q s) x) = RUNNABLE"
      "unat (p_priority (procs (pick c q s) x)) = r" "p_timepiece (procs (pick c q s) x) = slice r"
      using runq_invD(3) [OF inv(1) r x(2)] by auto
  qed
  show "r < NPROCQ \<Longrightarrow> qabs (pick c q s) r = (if r = q then tl (qabs s r) else qabs s r)" by (rule abs)
qed

lemma pick_simps:
  "procs (pick c q s) x = (if x = hd (qabs s q) then (procs s x)\<lparr>p_state := RUNNING\<rparr> else procs s x)"
  "c_proc (cpus (pick c q s) d) = (if d = c then Some (hd (qabs s q)) else c_proc (cpus s d))"
  "initproc (pick c q s) = initproc s"
  by (simp_all add: pick_def Let_def)

lemma pick_inv:
  assumes inv: "sched_inv s" and c: "c_proc (cpus s c) = None" and q: "q < NPROCQ" "qabs s q \<noteq> []"
  shows "sched_inv (pick c q s)"
proof -
  from inv have i: "runq_inv s" "procs_ok s" "cpu_inv s" by (auto simp: sched_inv_def)
  have p: "hd (qabs s q) < NPROC" "p_state (procs s (hd (qabs s q))) = RUNNABLE"
    "p_timepiece (procs s (hd (qabs s q))) = slice q"
    using runq_invD(3) [OF i(1) q(1), of "hd (qabs s q)"] q(2) by auto
  have "procs_ok (pick c q s)"
    using i(2) p slice_nonzero [OF q(1)] by (auto simp: procs_ok_def proc_ok_def pick_simps)
  moreover have "cpu_inv (pick c q s)"
    using i(3) p c unfolding cpu_inv_def pick_simps by (auto split: if_splits)
  ultimately show ?thesis using pick_qabs(1) [OF i(1) q] by (simp add: sched_inv_def)
qed

lemma make_runnable_correct:
  assumes inv: "sched_inv s" and p: "p < NPROC" "p_state (procs s p) = EMBRYO"
    "p_kstack (procs s p) \<noteq> 0" "p_pgdir (procs s p) \<noteq> 0"
  shows "\<exists>s'. make_runnable p s = Ok s' \<and> sched_inv s' \<and>
    (\<forall>q<NPROCQ. qabs s' q = (if q = unat (p_priority (procs s p)) then qabs s q @ [p] else qabs s q)) \<and>
    (\<forall>x. p_state (procs s' x) = (if x = p then RUNNABLE else p_state (procs s x))) \<and> cpus s' = cpus s"
proof -
  let ?f = "\<lambda>x. x\<lparr>p_state := RUNNABLE\<rparr>"
  from inv have i: "runq_inv s" "procs_ok s" "cpu_inv s" by (auto simp: sched_inv_def)
  have "unat (p_priority (procs s p)) < NPROCQ" using i(2) p by (auto simp: procs_ok_def proc_ok_def)
  then obtain s' where s': "qpush p (upd_proc p ?f s) = Ok s'" "runq_inv s'" "procs_ok s'"
     "\<forall>q<NPROCQ. qabs s' q = (if q = unat (p_priority (procs s p)) then qabs s q @ [p] else qabs s q)"
    using enqueue [OF i(1,2) p(1), of ?f "unat (p_priority (procs s p))"] p by auto
  note fr = qpush_frame [OF s'(1)]
  have "cpu_inv s'" by (rule cpu_inv_frame [OF i(3)]) (use p(2) in \<open>auto simp: fr\<close>)
  then show ?thesis using s' by (intro exI [of _ s']) (simp add: make_runnable_def fr sched_inv_def)
qed

text \<open>Updates that keep the invariant.\<close>

lemma sched_inv_upd:
  assumes "sched_inv s" "p_state (procs s p) \<noteq> RUNNABLE \<or> keeps_sched (procs s p) (f (procs s p))"
    and "p < NPROC \<Longrightarrow> proc_ok (f (procs s p))"
    and "p_state (procs s p) = RUNNING \<Longrightarrow> p_state (f (procs s p)) = RUNNING"
  shows "sched_inv (upd_proc p f s)"
proof -
  from assms have i: "runq_inv s" "procs_ok s" "cpu_inv s" by (auto simp: sched_inv_def)
  have "cpu_inv (upd_proc p f s)" by (rule cpu_inv_frame [OF i(3)]) (use assms(4) in auto)
  then show ?thesis
    using runq_upd(1) [of s p f] procs_ok_upd [of s p f] i assms(2,3) by (simp add: sched_inv_def)
qed

lemma sched_inv_upd_cpu:
  assumes "\<And>r. c_proc (g r) = c_proc r"
  shows "sched_inv (upd_cpu c g s) = sched_inv s"
proof -
  have "c_proc (cpus (upd_cpu c g s) d) = c_proc (cpus s d)" for d using assms by simp
  then show ?thesis by (simp add: sched_inv_def cpu_inv_def del: upd_cpu_simps(1))
qed

lemma sched_inv_ok: "sched_inv s \<Longrightarrow> p < NPROC \<Longrightarrow> proc_ok (procs s p)"
  by (simp add: sched_inv_def procs_ok_def)

definition tick_state :: "nat \<Rightarrow> nat \<Rightarrow> 'a ptable_scheme \<Rightarrow> 'a ptable_scheme" where
  "tick_state c p s = upd_proc p (\<lambda>x. x\<lparr>p_timepiece := p_timepiece x - 1\<rparr>)
     (upd_cpu c (\<lambda>r. r\<lparr>c_rtime := c_rtime r + 1\<rparr>) s)"

lemma timer_tick_running:
  "myproc c s = Some p \<Longrightarrow> p_state (procs s p) = RUNNING \<Longrightarrow>
   timer_tick c s = (if p_timepiece (procs s p) = 1 then yield c (tick_state c p s) else Ok (tick_state c p s))"
  by (simp add: timer_tick_def Let_def myproc_def tick_state_def)

lemma timer_tick_idle:
  "myproc c s = None \<Longrightarrow> timer_tick c s = Ok (upd_cpu c (\<lambda>r. r\<lparr>c_rtime := c_rtime r + 1\<rparr>) s)"
  by (simp add: timer_tick_def Let_def myproc_def)

lemma tick_state_simps [simp]:
  "p_state (procs (tick_state c p s) x) = p_state (procs s x)"
  "p_priority (procs (tick_state c p s) x) = p_priority (procs s x)"
  "p_timepiece (procs (tick_state c p s) x) = (if x = p then p_timepiece (procs s x) - 1 else p_timepiece (procs s x))"
  "c_proc (cpus (tick_state c p s) d) = c_proc (cpus s d)"
  "myproc c (tick_state c p s) = myproc c s"
  by (simp_all add: tick_state_def myproc_def)

lemma tick_state_inv:
  assumes inv: "sched_inv s" and c: "myproc c s = Some p"
  shows "sched_inv (tick_state c p s)" "q < NPROCQ \<Longrightarrow> qabs (tick_state c p s) q = qabs s q"
proof -
  let ?s = "upd_cpu c (\<lambda>r. r\<lparr>c_rtime := c_rtime r + 1\<rparr>) s"
  have i: "sched_inv ?s" using inv by (simp add: sched_inv_upd_cpu)
  have p: "p < NPROC" "p_state (procs s p) = RUNNING" using inv c cpu_invD by (auto simp: sched_inv_def)
  have "proc_ok (procs s p)" using inv p by (simp add: sched_inv_ok)
  then show "sched_inv (tick_state c p s)" unfolding tick_state_def
    using p by (intro sched_inv_upd [OF i]) (auto simp: proc_ok_def)
  show "q < NPROCQ \<Longrightarrow> qabs (tick_state c p s) q = qabs s q" unfolding tick_state_def
    using i p by (subst runq_upd(2)) (auto simp: sched_inv_def)
qed

text \<open>The queues a wakeup leaves hold what they held and the woken processes.\<close>

lemma wake_queues_set:
  assumes "\<And>p. p \<in> set ps \<Longrightarrow> unat (promote (pr p)) < n"
  shows "(\<Union>q<n. set (wake_queues pr ps A q)) = (\<Union>q<n. set (A q)) \<union> set ps"
  using assms
proof (induction ps arbitrary: A)
  case (Cons p ps)
  let ?q = "unat (promote (pr p))" let ?A = "A(?q := A ?q @ [p])"
  have "(\<Union>q<n. set (?A q)) = insert p (\<Union>q<n. set (A q))" using Cons.prems [of p] by (auto split: if_splits)
  moreover have "(\<Union>q<n. set (wake_queues pr ps ?A q)) = (\<Union>q<n. set (?A q)) \<union> set ps"
    by (rule Cons.IH) (use Cons.prems in simp)
  ultimately show ?case by (simp del: fun_upd_apply)
qed simp

lemma queued_wakeup:
  assumes "sched_inv s" "wakeup1 ch s = Ok s'"
  shows "queued s' p \<longleftrightarrow> queued s p \<or> p \<in> set (sleepers s ch [0..<NPROC])"
proof -
  let ?pr = "\<lambda>p. p_priority (procs s p)"
  have a: "\<forall>q<NPROCQ. qabs s' q = wake_queues ?pr (sleepers s ch [0..<NPROC]) (qabs s) q"
    using wakeup1_correct [OF assms(1), of ch] assms(2) by auto
  have "unat (promote (?pr p)) < NPROCQ" if "p \<in> set (sleepers s ch [0..<NPROC])" for p
    using sched_inv_ok [OF assms(1), of p] that by (auto simp: sleepers_def proc_ok_def promote_bound)
  then have "(\<Union>q<NPROCQ. set (wake_queues ?pr (sleepers s ch [0..<NPROC]) (qabs s) q)) =
      (\<Union>q<NPROCQ. set (qabs s q)) \<union> set (sleepers s ch [0..<NPROC])"
    by (rule wake_queues_set)
  then have "(\<Union>q<NPROCQ. set (qabs s' q)) = (\<Union>q<NPROCQ. set (qabs s q)) \<union> set (sleepers s ch [0..<NPROC])"
    using a by auto
  then show ?thesis by (auto simp: queued_def set_eq_iff)
qed

lemma find_unused_Some: "find_unused s = Some p \<Longrightarrow> p < NPROC \<and> p_state (procs s p) = UNUSED"
  by (auto simp: find_unused_def find_Some_iff)

lemma sched_inv_nextpid [simp]: "sched_inv (s\<lparr>nextpid := n\<rparr>) = sched_inv s" "qabs (s\<lparr>nextpid := n\<rparr>) = qabs s"
proof -
  have l: "links (s\<lparr>nextpid := n\<rparr>) = links s" by (simp add: links_def fun_eq_iff)
  show q: "qabs (s\<lparr>nextpid := n\<rparr>) = qabs s" by (simp add: qabs_def fun_eq_iff l)
  show "sched_inv (s\<lparr>nextpid := n\<rparr>) = sched_inv s"
    by (simp add: sched_inv_def runq_inv_def qrep_def l q procs_ok_def cpu_inv_def)
qed

lemma sched_inv_initproc [simp]: "sched_inv (s\<lparr>initproc := n\<rparr>) = sched_inv s" "qabs (s\<lparr>initproc := n\<rparr>) = qabs s"
proof -
  have l: "links (s\<lparr>initproc := n\<rparr>) = links s" by (simp add: links_def fun_eq_iff)
  show q: "qabs (s\<lparr>initproc := n\<rparr>) = qabs s" by (simp add: qabs_def fun_eq_iff l)
  show "sched_inv (s\<lparr>initproc := n\<rparr>) = sched_inv s"
    by (simp add: sched_inv_def runq_inv_def qrep_def l q procs_ok_def cpu_inv_def)
qed

lemma allocproc_slot_inv:
  assumes inv: "sched_inv s" and a: "allocproc_slot s = (r, s')"
  shows "sched_inv s'" "q < NPROCQ \<Longrightarrow> qabs s' q = qabs s q"
    and "p_state (procs s' x) = (if r = Some x then EMBRYO else p_state (procs s x))"
    and "cpus s' = cpus s"
proof -
  have "sched_inv s' \<and> (q < NPROCQ \<longrightarrow> qabs s' q = qabs s q) \<and>
    p_state (procs s' x) = (if r = Some x then EMBRYO else p_state (procs s x)) \<and> cpus s' = cpus s"
  proof (cases "find_unused s")
    case None
    then show ?thesis using inv a by (simp add: allocproc_slot_def)
  next
    case (Some p)
    let ?f = "\<lambda>x. x\<lparr>p_state := EMBRYO, p_pid := nextpid s\<rparr>"
    note p = find_unused_Some [OF Some]
    have "sched_inv (upd_proc p ?f s)"
      using p sched_inv_ok [OF inv, of p] by (intro sched_inv_upd [OF inv]) (auto simp: proc_ok_def)
    moreover have "q < NPROCQ \<Longrightarrow> qabs (upd_proc p ?f s) q = qabs s q"
      using inv p by (intro runq_upd(2)) (auto simp: sched_inv_def)
    ultimately show ?thesis using a Some by (auto simp: allocproc_slot_def)
  qed
  then show "sched_inv s'" "q < NPROCQ \<Longrightarrow> qabs s' q = qabs s q"
    "p_state (procs s' x) = (if r = Some x then EMBRYO else p_state (procs s x))" "cpus s' = cpus s"
    by auto
qed

lemma kill_loop_eq:
  "kill_loop pid ps s = (case List.find (\<lambda>p. p_pid (procs s p) = pid) ps of
     None \<Rightarrow> (-1, s)
   | Some p \<Rightarrow> (0, upd_proc p (\<lambda>x. if p_state x = SLEEPING then x\<lparr>p_killed := True, p_state := RUNNABLE\<rparr>
                             else x\<lparr>p_killed := True\<rparr>) s))"
  by (induction ps) auto

lemma kill_inv:
  assumes inv: "sched_inv s"
  shows "sched_inv (snd (kill pid s))" "q < NPROCQ \<Longrightarrow> qabs (snd (kill pid s)) q = qabs s q"
proof -
  have "sched_inv (snd (kill pid s)) \<and> (q < NPROCQ \<longrightarrow> qabs (snd (kill pid s)) q = qabs s q)"
  proof (cases "List.find (\<lambda>p. p_pid (procs s p) = pid) [0..<NPROC]")
    case None
    then show ?thesis using inv by (simp add: kill_def kill_loop_eq)
  next
    case (Some p)
    let ?f = "\<lambda>x. if p_state x = SLEEPING then x\<lparr>p_killed := True, p_state := RUNNABLE\<rparr> else x\<lparr>p_killed := True\<rparr>"
    from Some have p: "p < NPROC" by (auto simp: find_Some_iff)
    have "sched_inv (upd_proc p ?f s)"
      using p sched_inv_ok [OF inv, of p]
      by (intro sched_inv_upd [OF inv]) (auto simp: proc_ok_def keeps_sched_def)
    moreover have "q < NPROCQ \<Longrightarrow> qabs (upd_proc p ?f s) q = qabs s q"
      using inv by (intro runq_upd(2)) (auto simp: sched_inv_def keeps_sched_def)
    ultimately show ?thesis using Some by (auto simp: kill_def kill_loop_eq)
  qed
  then show "sched_inv (snd (kill pid s))" "q < NPROCQ \<Longrightarrow> qabs (snd (kill pid s)) q = qabs s q" by auto
qed

text \<open>\<open>wakes s s'\<close>: some sleepers have been made runnable and queued; nothing else happened to
  the scheduling state.\<close>

definition wakes :: "'a ptable_scheme \<Rightarrow> 'a ptable_scheme \<Rightarrow> bool" where
  "wakes s s' \<longleftrightarrow> sched_inv s' \<and> cpus s' = cpus s \<and> initproc s' = initproc s \<and>
     (\<forall>x. p_state (procs s' x) = p_state (procs s x) \<or>
          p_state (procs s x) = SLEEPING \<and> p_state (procs s' x) = RUNNABLE) \<and>
     (\<forall>x. queued s' x \<longleftrightarrow> queued s x \<or> (p_state (procs s x) = SLEEPING \<and> p_state (procs s' x) = RUNNABLE))"

lemma wakes_refl: "sched_inv s \<Longrightarrow> wakes s s"
  by (auto simp: wakes_def)

lemma wakes_trans: "wakes s s1 \<Longrightarrow> wakes s1 s2 \<Longrightarrow> wakes s s2"
  unfolding wakes_def by (metis procstate.distinct)

lemma wakeup1_wakes:
  assumes "sched_inv s"
  shows "\<exists>s'. wakeup1 ch s = Ok s' \<and> wakes s s'"
proof -
  obtain s' where s': "wakeup1 ch s = Ok s'" "sched_inv s'"
      "\<forall>x. p_state (procs s' x) = woken_state s ch [0..<NPROC] x" "cpus s' = cpus s" "initproc s' = initproc s"
    using wakeup1_correct [OF assms, of ch] by blast
  then show ?thesis using queued_wakeup [OF assms s'(1)]
    by (intro exI [of _ s']) (auto simp: wakes_def woken_state_def sleepers_def)
qed

lemma reparent_at_wakes:
  assumes inv: "sched_inv s"
  shows "\<exists>s'. reparent_at cur p s = Ok s' \<and> wakes s s'"
proof (cases "p_parent (procs s p) = Some cur")
  case False
  then show ?thesis using wakes_refl [OF inv] by (simp add: reparent_at_def)
next
  case True
  let ?s = "upd_proc p (\<lambda>x. x\<lparr>p_parent := initproc s\<rparr>) s"
  have i: "sched_inv ?s"
    using sched_inv_ok [OF inv, of p] by (intro sched_inv_upd [OF inv]) (auto simp: keeps_sched_def proc_ok_def)
  have q: "queued ?s x = queued s x" for x
    using inv runq_upd(2) [of s p "\<lambda>x. x\<lparr>p_parent := initproc s\<rparr>"]
    by (auto simp: queued_def sched_inv_def keeps_sched_def)
  have st: "p_state (procs ?s x) = p_state (procs s x)" for x by simp
  have w: "wakes s ?s" unfolding wakes_def q st using i by auto
  show ?thesis
  proof (cases "p_state (procs s p) = ZOMBIE")
    case False
    then have "reparent_at cur p s = Ok ?s" using True by (simp add: reparent_at_def)
    then show ?thesis using w by blast
  next
    case z: True
    obtain s' where s': "wakeup1 (map_option ChProc (initproc s)) ?s = Ok s'" "wakes ?s s'"
      using wakeup1_wakes [OF i] by blast
    then have "reparent_at cur p s = Ok s'" using True z by (simp add: reparent_at_def)
    then show ?thesis using wakes_trans [OF w s'(2)] by blast
  qed
qed

lemma reparent_loop_wakes: "sched_inv s \<Longrightarrow> \<exists>s'. reparent_loop cur ps s = Ok s' \<and> wakes s s'"
proof (induction ps arbitrary: s)
  case Nil
  then show ?case using wakes_refl by auto
next
  case (Cons p ps)
  obtain s1 where s1: "reparent_at cur p s = Ok s1" "wakes s s1"
    using reparent_at_wakes [OF Cons.prems] by blast
  then have "sched_inv s1" by (simp add: wakes_def)
  then obtain s' where "reparent_loop cur ps s1 = Ok s'" "wakes s1 s'" using Cons.IH by blast
  then show ?case using s1 wakes_trans by auto
qed

lemma exit_locked_correct:
  assumes inv: "sched_inv s" and c: "myproc c s = Some p"
  shows "\<exists>s1 s'. exit_locked c s = Ok s' \<and> wakes s s1 \<and> sched_inv s' \<and>
    (\<forall>q<NPROCQ. qabs s' q = qabs s1 q) \<and>
    (\<forall>x. p_state (procs s' x) = (if x = p then ZOMBIE else p_state (procs s1 x))) \<and>
    (\<forall>d. c_proc (cpus s' d) = (if d = c then None else c_proc (cpus s d)))"
proof -
  obtain s1 where s1: "wakeup1 (map_option ChProc (p_parent (procs s p))) s = Ok s1" "wakes s s1"
    using wakeup1_wakes [OF inv] by blast
  then obtain s2 where s2: "reparent_loop p [0..<NPROC] s1 = Ok s2" "wakes s1 s2"
    using reparent_loop_wakes [of s1 p "[0..<NPROC]"] by (auto simp: wakes_def)
  have w: "wakes s s2" using s1 s2 wakes_trans by blast
  let ?f = "\<lambda>x. x\<lparr>p_state := ZOMBIE\<rparr>" let ?s = "upd_proc p ?f s2"
  have i: "runq_inv s2" "procs_ok s2" "cpu_inv s2" and cs: "cpus s2 = cpus s"
    using w by (auto simp: wakes_def sched_inv_def)
  have c2: "myproc c s2 = Some p" using c cs by (simp add: myproc_def)
  note p = cpu_invD [OF i(3) c2]
  have e: "exit_locked c s = Ok (sched_resume c ?s)"
    using c c2 s1(1) s2(1) by (simp add: exit_locked_def sched_def myproc_def)
  have r: "runq_inv ?s" and a: "\<forall>q<NPROCQ. qabs ?s q = qabs s2 q"
    using runq_upd [OF i(1), of p ?f] p(2) by auto
  have o: "procs_ok ?s"
    using i(2) p by (intro procs_ok_upd) (auto simp: procs_ok_def proc_ok_def)
  have "cpu_inv (sched_resume c ?s)"
    by (rule cpu_inv_release [OF i(3) c2]) auto
  then show ?thesis using r a o w cs unfolding e sched_inv_def
    by (intro exI [of _ s2] exI [of _ "sched_resume c ?s"]) simp
qed

end
