(* ===== verification/Bio.thy ===== *)
theory Bio
  imports Sched
begin

text \<open>
  Disk blocks and the buffer cache, \<^verbatim>\<open>bio.c\<close>, with the synchronous part of the disk driver,
  \<^verbatim>\<open>iderw\<close> in \<^verbatim>\<open>ide.c\<close>. A block is a list of \<open>BSIZE\<close> bytes; integers are read from it and
  written to it in little-endian order, as the C code does through pointers. The list of
  buffers in most-recently-used order is a list of buffer numbers. A call that would sleep
  on a locked buffer gives \<open>Wait\<close>. \<open>dwrites\<close> records the disk writes in the order they reach
  the disk, and \<open>woken\<close> the channels passed to \<^verbatim>\<open>wakeup\<close>.
\<close>

section \<open>Blocks of bytes\<close>

type_synonym block = "u8 list"

abbreviation (input) BSIZE :: nat where "BSIZE \<equiv> 512"
abbreviation (input) NBUF :: nat where "NBUF \<equiv> 30"
abbreviation (input) FSSIZE :: nat where "FSSIZE \<equiv> 1000"

definition get16 :: "block \<Rightarrow> nat \<Rightarrow> u16" where
  "get16 d o' = ucast (d ! o') OR push_bit 8 (ucast (d ! (o' + 1)))"

definition put16 :: "block \<Rightarrow> nat \<Rightarrow> u16 \<Rightarrow> block" where
  "put16 d o' v = d[o' := ucast v, o' + 1 := ucast (drop_bit 8 v)]"

definition get32 :: "block \<Rightarrow> nat \<Rightarrow> u32" where
  "get32 d o' = ucast (d ! o') OR push_bit 8 (ucast (d ! (o' + 1))) OR
     push_bit 16 (ucast (d ! (o' + 2))) OR push_bit 24 (ucast (d ! (o' + 3)))"

definition put32 :: "block \<Rightarrow> nat \<Rightarrow> u32 \<Rightarrow> block" where
  "put32 d o' v = d[o' := ucast v, o' + 1 := ucast (drop_bit 8 v),
     o' + 2 := ucast (drop_bit 16 v), o' + 3 := ucast (drop_bit 24 v)]"

text \<open>\<open>splice d k xs\<close> overwrites the bytes of \<open>d\<close> from position \<open>k\<close> with \<open>xs\<close>.\<close>

definition splice :: "block \<Rightarrow> nat \<Rightarrow> u8 list \<Rightarrow> block" where
  "splice d k xs = take k d @ xs @ drop (k + length xs) d"

lemma length_put [simp]: "length (put32 d k v) = length d" "length (put16 d k w) = length d"
  by (simp_all add: put32_def put16_def)

lemma length_splice [simp]: "k + length xs \<le> length d \<Longrightarrow> length (splice d k xs) = length d"
  by (simp add: splice_def)

lemma get32_put32 [simp]:
  assumes "k + 4 \<le> length d"
  shows "get32 (put32 d k v) k = v"
proof (rule bit_word_eqI)
  fix n assume "n < LENGTH(32)"
  then show "bit (get32 (put32 d k v) k) n = bit v n"
    unfolding get32_def put32_def using assms
    by (cases "n < 8"; cases "n < 16"; cases "n < 24") (auto simp: bit_simps nth_list_update)
qed

lemma get16_put16 [simp]:
  assumes "k + 2 \<le> length d"
  shows "get16 (put16 d k v) k = v"
proof (rule bit_word_eqI)
  fix n assume "n < LENGTH(16)"
  then show "bit (get16 (put16 d k v) k) n = bit v n"
    unfolding get16_def put16_def using assms by (auto simp: bit_simps nth_list_update)
qed

lemma get32_put32_other: "k + 4 \<le> j \<or> j + 4 \<le> k \<Longrightarrow> get32 (put32 d k v) j = get32 d j"
  by (auto simp: get32_def put32_def)

section \<open>Buffers\<close>

record buf =
  b_valid :: bool
  b_dirty :: bool
  b_dev :: u32
  b_blockno :: u32
  b_locked :: bool
  b_refcnt :: u32
  b_data :: block

record bio =
  bufs :: "nat \<Rightarrow> buf"
  lru :: "nat list"
  disk :: "u32 \<Rightarrow> u32 \<Rightarrow> block"
  havedisk1 :: bool
  dwrites :: "(u32 \<times> u32 \<times> block) list"
  woken :: "chan list"

definition upd_buf :: "nat \<Rightarrow> (buf \<Rightarrow> buf) \<Rightarrow> 'a bio_scheme \<Rightarrow> 'a bio_scheme" where
  "upd_buf i f s = s\<lparr>bufs := (bufs s)(i := f (bufs s i))\<rparr>"

text \<open>\<^verbatim>\<open>binit\<close>: each buffer is put in front of the list. The buffers themselves are zero, as static
  data is.\<close>

fun binit_loop :: "nat list \<Rightarrow> 'a bio_scheme \<Rightarrow> 'a bio_scheme" where
  "binit_loop [] s = s"
| "binit_loop (b # bs) s =
     binit_loop bs ((upd_buf b (\<lambda>x. x\<lparr>b_locked := False\<rparr>) s)\<lparr>lru := b # lru s\<rparr>)"

definition binit :: "'a bio_scheme \<Rightarrow> 'a bio_scheme" where
  "binit s = binit_loop [0..<NBUF] (s\<lparr>lru := []\<rparr>)"

text \<open>\<^verbatim>\<open>acquiresleep\<close>, \<^verbatim>\<open>releasesleep\<close> and \<^verbatim>\<open>holdingsleep\<close> on the lock of a buffer.\<close>

definition acquiresleep_buf :: "nat \<Rightarrow> 'a bio_scheme \<Rightarrow> 'a bio_scheme outcome" where
  "acquiresleep_buf i s = (if b_locked (bufs s i) then Wait else Ok (upd_buf i (\<lambda>b. b\<lparr>b_locked := True\<rparr>) s))"

definition releasesleep_buf :: "nat \<Rightarrow> 'a bio_scheme \<Rightarrow> 'a bio_scheme" where
  "releasesleep_buf i s = (upd_buf i (\<lambda>b. b\<lparr>b_locked := False\<rparr>) s)\<lparr>woken := woken s @ [ChBuf i]\<rparr>"

definition bget :: "u32 \<Rightarrow> u32 \<Rightarrow> 'a bio_scheme \<Rightarrow> (nat \<times> 'a bio_scheme) outcome" where
  "bget dev blockno s =
     (case List.find (\<lambda>i. b_dev (bufs s i) = dev \<and> b_blockno (bufs s i) = blockno) (lru s) of
        Some i \<Rightarrow>
          bindo (acquiresleep_buf i (upd_buf i (\<lambda>b. b\<lparr>b_refcnt := b_refcnt b + 1\<rparr>) s)) (\<lambda>s. Ok (i, s))
      | None \<Rightarrow>
          (case List.find (\<lambda>i. b_refcnt (bufs s i) = 0 \<and> \<not> b_dirty (bufs s i)) (rev (lru s)) of
             Some i \<Rightarrow>
               bindo (acquiresleep_buf i (upd_buf i (\<lambda>b. b\<lparr>b_dev := dev, b_blockno := blockno,
                        b_valid := False, b_dirty := False, b_refcnt := 1\<rparr>) s)) (\<lambda>s. Ok (i, s))
           | None \<Rightarrow> Panic ''bget: no buffers''))"

text \<open>\<^verbatim>\<open>iderw\<close> with the disk interrupt that completes it: a dirty buffer is written, another one
  is read.\<close>

definition iderw :: "nat \<Rightarrow> 'a bio_scheme \<Rightarrow> 'a bio_scheme outcome" where
  "iderw i s = (let b = bufs s i in
     if \<not> b_locked b then Panic ''iderw: buf not locked''
     else if b_valid b \<and> \<not> b_dirty b then Panic ''iderw: nothing to do''
     else if b_dev b \<noteq> 0 \<and> \<not> havedisk1 s then Panic ''iderw: ide disk 1 not present''
     else if unat (b_blockno b) \<ge> FSSIZE then Panic ''incorrect blockno''
     else if b_dirty b then
       Ok ((upd_buf i (\<lambda>b. b\<lparr>b_valid := True, b_dirty := False\<rparr>) s)
             \<lparr>disk := (disk s)(b_dev b := (disk s (b_dev b))(b_blockno b := b_data b)),
              dwrites := dwrites s @ [(b_dev b, b_blockno b, b_data b)],
              woken := woken s @ [ChBuf i]\<rparr>)
     else
       Ok ((upd_buf i (\<lambda>b. b\<lparr>b_data := disk s (b_dev b) (b_blockno b), b_valid := True\<rparr>) s)
             \<lparr>woken := woken s @ [ChBuf i]\<rparr>))"

definition bread :: "u32 \<Rightarrow> u32 \<Rightarrow> 'a bio_scheme \<Rightarrow> (nat \<times> 'a bio_scheme) outcome" where
  "bread dev blockno s =
     bindo (bget dev blockno s) (\<lambda>(i, s).
       if \<not> b_valid (bufs s i) then bindo (iderw i s) (\<lambda>s. Ok (i, s)) else Ok (i, s))"

definition bwrite :: "nat \<Rightarrow> 'a bio_scheme \<Rightarrow> 'a bio_scheme outcome" where
  "bwrite i s =
     (if \<not> b_locked (bufs s i) then Panic ''bwrite''
      else iderw i (upd_buf i (\<lambda>b. b\<lparr>b_dirty := True\<rparr>) s))"

definition brelse :: "nat \<Rightarrow> 'a bio_scheme \<Rightarrow> 'a bio_scheme outcome" where
  "brelse i s =
     (if \<not> b_locked (bufs s i) then Panic ''brelse''
      else let s = upd_buf i (\<lambda>b. b\<lparr>b_refcnt := b_refcnt b - 1\<rparr>) (releasesleep_buf i s) in
        if b_refcnt (bufs s i) = 0 then Ok (s\<lparr>lru := i # remove1 i (lru s)\<rparr>) else Ok s)"

section \<open>What the cache holds\<close>

text \<open>\<open>cached s dev b i\<close>: buffer \<open>i\<close> is assigned to this block. \<open>view\<close> is the content of a block
  as the kernel sees it: that of its valid buffer, or else the disk's.\<close>

definition cached :: "'a bio_scheme \<Rightarrow> u32 \<Rightarrow> u32 \<Rightarrow> nat \<Rightarrow> bool" where
  "cached s dev b i \<longleftrightarrow> i < NBUF \<and> b_dev (bufs s i) = dev \<and> b_blockno (bufs s i) = b"

definition view :: "'a bio_scheme \<Rightarrow> u32 \<Rightarrow> u32 \<Rightarrow> block" where
  "view s dev b = (case List.find (\<lambda>i. b_valid (bufs s i) \<and> b_dev (bufs s i) = dev \<and> b_blockno (bufs s i) = b) (lru s) of
     Some i \<Rightarrow> b_data (bufs s i) | None \<Rightarrow> disk s dev b)"

definition binv :: "'a bio_scheme \<Rightarrow> bool" where
  "binv s \<longleftrightarrow> distinct (lru s) \<and> set (lru s) = {..<NBUF} \<and>
     (\<forall>i<NBUF. \<forall>j<NBUF. b_dev (bufs s i) = b_dev (bufs s j) \<longrightarrow> b_dev (bufs s i) \<noteq> 0 \<longrightarrow>
        b_blockno (bufs s i) = b_blockno (bufs s j) \<longrightarrow> i = j) \<and>
     (\<forall>i<NBUF. b_dirty (bufs s i) \<longrightarrow> b_valid (bufs s i)) \<and>
     (\<forall>i<NBUF. b_locked (bufs s i) \<longrightarrow> b_refcnt (bufs s i) \<noteq> 0) \<and>
     (\<forall>i<NBUF. b_valid (bufs s i) \<longrightarrow> \<not> b_dirty (bufs s i) \<longrightarrow> \<not> b_locked (bufs s i) \<longrightarrow>
        b_data (bufs s i) = disk s (b_dev (bufs s i)) (b_blockno (bufs s i)))"

lemma upd_buf_simps [simp]:
  "bufs (upd_buf i f s) = (bufs s)(i := f (bufs s i))" "lru (upd_buf i f s) = lru s"
  "disk (upd_buf i f s) = disk s" "havedisk1 (upd_buf i f s) = havedisk1 s"
  "dwrites (upd_buf i f s) = dwrites s" "woken (upd_buf i f s) = woken s"
  "bio.more (upd_buf i f s) = bio.more s"
  by (simp_all add: upd_buf_def)

lemma binv_uniq:
  "binv s \<Longrightarrow> cached s dev b i \<Longrightarrow> cached s dev b j \<Longrightarrow> dev \<noteq> 0 \<Longrightarrow> i = j"
  by (simp add: binv_def cached_def)

lemma find_cached:
  assumes "binv s" "dev \<noteq> 0"
  shows "List.find (\<lambda>i. b_dev (bufs s i) = dev \<and> b_blockno (bufs s i) = b) (lru s) =
    (if \<exists>i. cached s dev b i then Some (THE i. cached s dev b i) else None)"
proof (cases "\<exists>i. cached s dev b i")
  case True
  then obtain i where i: "cached s dev b i" by blast
  then have t: "(THE i. cached s dev b i) = i" using binv_uniq [OF assms(1)] assms(2) by blast
  have "i \<in> set (lru s)" using i assms(1) by (simp add: binv_def cached_def)
  then obtain k where k: "List.find (\<lambda>i. b_dev (bufs s i) = dev \<and> b_blockno (bufs s i) = b) (lru s) = Some k"
    using i by (cases "List.find (\<lambda>i. b_dev (bufs s i) = dev \<and> b_blockno (bufs s i) = b) (lru s)")
      (auto simp: find_None_iff cached_def)
  then have "cached s dev b k" using assms(1) by (auto simp: find_Some_iff binv_def cached_def dest: nth_mem)
  then have "k = i" using binv_uniq [OF assms(1) _ i assms(2)] by blast
  then show ?thesis using True k t by simp
next
  case False
  then show ?thesis using assms(1) by (auto simp: find_None_iff binv_def cached_def)
qed

lemma view_cached:
  assumes "binv s" "dev \<noteq> 0" "cached s dev b i"
  shows "view s dev b = (if b_valid (bufs s i) then b_data (bufs s i) else disk s dev b)"
proof (cases "List.find (\<lambda>i. b_valid (bufs s i) \<and> b_dev (bufs s i) = dev \<and> b_blockno (bufs s i) = b) (lru s)")
  case None
  then have "\<not> b_valid (bufs s i)" using assms by (auto simp: find_None_iff binv_def cached_def)
  then show ?thesis using None by (simp add: view_def)
next
  case (Some k)
  then have k: "cached s dev b k" "b_valid (bufs s k)"
    using assms(1) by (auto simp: find_Some_iff binv_def cached_def dest: nth_mem)
  then have "k = i" using binv_uniq [OF assms(1) _ assms(3,2)] by blast
  then show ?thesis using Some k by (simp add: view_def)
qed

lemma view_uncached:
  assumes "binv s" "\<nexists>i. cached s dev b i"
  shows "view s dev b = disk s dev b"
proof -
  have "List.find (\<lambda>i. b_valid (bufs s i) \<and> b_dev (bufs s i) = dev \<and> b_blockno (bufs s i) = b) (lru s) = None"
    using assms by (auto simp: find_None_iff binv_def cached_def)
  then show ?thesis by (simp add: view_def)
qed

text \<open>A change of one buffer that keeps its block assignment.\<close>

lemma view_eqI:
  assumes "binv s" "binv s'" "d \<noteq> 0" "disk s' d c = disk s d c \<or> (\<exists>i. cached s' d c i \<and> b_valid (bufs s' i))"
    and "\<And>i. cached s d c i \<Longrightarrow> b_valid (bufs s i) \<Longrightarrow>
      (cached s' d c i \<and> b_valid (bufs s' i) \<and> b_data (bufs s' i) = b_data (bufs s i)) \<or>
      (b_data (bufs s i) = disk s' d c \<and> \<not> (\<exists>j. cached s' d c j \<and> b_valid (bufs s' j)))"
    and "\<And>i. cached s' d c i \<Longrightarrow> b_valid (bufs s' i) \<Longrightarrow>
      (cached s d c i \<and> b_valid (bufs s i)) \<or> (b_data (bufs s' i) = disk s d c \<and> \<not> (\<exists>j. cached s d c j \<and> b_valid (bufs s j)))"
  shows "view s' d c = view s d c"
proof -
  show ?thesis
  proof (cases "\<exists>i. cached s' d c i \<and> b_valid (bufs s' i)")
    case True
    then obtain i where i: "cached s' d c i" "b_valid (bufs s' i)" by blast
    have v': "view s' d c = b_data (bufs s' i)" using view_cached [OF assms(2,3) i(1)] i(2) by simp
    from assms(6) [OF i] show ?thesis
    proof (elim disjE conjE)
      assume c: "cached s d c i" "b_valid (bufs s i)"
      then show ?thesis using v' view_cached [OF assms(1,3) c(1)] assms(5) [OF c] i by auto
    next
      assume c: "b_data (bufs s' i) = disk s d c" "\<not> (\<exists>j. cached s d c j \<and> b_valid (bufs s j))"
      then have "view s d c = disk s d c"
        using view_cached [OF assms(1,3)] view_uncached [OF assms(1)] by metis
      then show ?thesis using v' c by simp
    qed
  next
    case False
    then have v': "view s' d c = disk s' d c" "disk s' d c = disk s d c"
      using view_cached [OF assms(2,3)] view_uncached [OF assms(2)] assms(4) by metis+
    show ?thesis
    proof (cases "\<exists>i. cached s d c i \<and> b_valid (bufs s i)")
      case True
      then obtain i where i: "cached s d c i" "b_valid (bufs s i)" by blast
      then show ?thesis using assms(5) [OF i] False v' view_cached [OF assms(1,3) i(1)] by auto
    next
      case n: False
      then have "view s d c = disk s d c"
        using view_cached [OF assms(1,3)] view_uncached [OF assms(1)] by metis
      then show ?thesis using v' by simp
    qed
  qed
qed

text \<open>The effect of \<^verbatim>\<open>bread\<close>: buffer \<open>i\<close> holds the block, locked; it held the block before, or it
  was the one evicted.\<close>

definition took :: "'a bio_scheme \<Rightarrow> u32 \<Rightarrow> u32 \<Rightarrow> nat \<Rightarrow> 'a bio_scheme \<Rightarrow> bool" where
  "took s dev b i s' \<longleftrightarrow> (\<exists>B w. s' = s\<lparr>bufs := (bufs s)(i := B), woken := w\<rparr> \<and> i < NBUF \<and>
     B = \<lparr>b_valid = True, b_dirty = (cached s dev b i \<and> b_dirty (bufs s i)), b_dev = dev, b_blockno = b,
       b_locked = True, b_refcnt = (if cached s dev b i then b_refcnt (bufs s i) + 1 else 1),
       b_data = view s dev b\<rparr> \<and>
     \<not> b_locked (bufs s i) \<and>
     (cached s dev b i \<or> b_refcnt (bufs s i) = 0 \<and> \<not> b_dirty (bufs s i) \<and> (\<nexists>j. cached s dev b j)))"

lemma bread_took:
  assumes inv: "binv s" and dev: "dev \<noteq> 0" "havedisk1 s" "unat b < FSSIZE"
    and nl: "\<And>i. cached s dev b i \<Longrightarrow> \<not> b_locked (bufs s i)"
    and room: "(\<exists>i. cached s dev b i) \<or> (\<exists>i<NBUF. b_refcnt (bufs s i) = 0 \<and> \<not> b_dirty (bufs s i))"
  shows "\<exists>i s'. bread dev b s = Ok (i, s') \<and> took s dev b i s'"
proof (cases "\<exists>i. cached s dev b i")
  case True
  then obtain i where i: "cached s dev b i" by blast
  have t: "(THE i. cached s dev b i) = i" using binv_uniq [OF inv _ _ dev(1)] i by blast
  have f: "List.find (\<lambda>i. b_dev (bufs s i) = dev \<and> b_blockno (bufs s i) = b) (lru s) = Some i"
    using find_cached [OF inv dev(1)] True t by simp
  have d: "b_dev (bufs s i) = dev" "b_blockno (bufs s i) = b" "i < NBUF" using i by (simp_all add: cached_def)
  have v: "view s dev b = (if b_valid (bufs s i) then b_data (bufs s i) else disk s dev b)"
    by (rule view_cached [OF inv dev(1) i])
  have dv: "b_dirty (bufs s i) \<longrightarrow> b_valid (bufs s i)" using inv d(3) by (simp add: binv_def)
  let ?g = "upd_buf i (\<lambda>b. b\<lparr>b_locked := True\<rparr>) (upd_buf i (\<lambda>b. b\<lparr>b_refcnt := b_refcnt b + 1\<rparr>) s)"
  have g: "bget dev b s = Ok (i, ?g)" using f nl [OF i] by (simp add: bget_def acquiresleep_buf_def)
  show ?thesis
  proof (cases "b_valid (bufs s i)")
    case val: True
    then have "bread dev b s = Ok (i, ?g)" using g by (simp add: bread_def)
    moreover have "took s dev b i ?g"
      unfolding took_def using val i d v nl [OF i] 
      by (intro exI [of _ "(bufs s i)\<lparr>b_refcnt := b_refcnt (bufs s i) + 1, b_locked := True\<rparr>"] exI [of _ "woken s"])
         (simp add: upd_buf_def)
    ultimately show ?thesis by blast
  next
    case val: False
    then have nd: "\<not> b_dirty (bufs s i)" using dv by simp
    let ?s' = "(upd_buf i (\<lambda>b. b\<lparr>b_data := disk s (b_dev b) (b_blockno b), b_valid := True\<rparr>) ?g)\<lparr>woken := woken s @ [ChBuf i]\<rparr>"
    have "bread dev b s = Ok (i, ?s')" using g val nd dev d by (simp add: bread_def iderw_def Let_def)
    moreover have "took s dev b i ?s'"
      unfolding took_def using val nd i d v nl [OF i]
      by (intro exI [of _ "(bufs s i)\<lparr>b_refcnt := b_refcnt (bufs s i) + 1, b_locked := True, b_data := disk s dev b, b_valid := True\<rparr>"] exI [of _ "woken s @ [ChBuf i]"])
         (simp add: upd_buf_def)
    ultimately show ?thesis by blast
  qed
next
  case nc: False
  have f: "List.find (\<lambda>i. b_dev (bufs s i) = dev \<and> b_blockno (bufs s i) = b) (lru s) = None"
    using find_cached [OF inv dev(1)] nc by simp
  obtain k where k: "k < NBUF" "b_refcnt (bufs s k) = 0" "\<not> b_dirty (bufs s k)" using room nc by blast
  have "k \<in> set (rev (lru s))" using k inv by (simp add: binv_def)
  then obtain i where fi: "List.find (\<lambda>i. b_refcnt (bufs s i) = 0 \<and> \<not> b_dirty (bufs s i)) (rev (lru s)) = Some i"
    using k by (cases "List.find (\<lambda>i. b_refcnt (bufs s i) = 0 \<and> \<not> b_dirty (bufs s i)) (rev (lru s))") (auto simp: find_None_iff)
  then have i0: "b_refcnt (bufs s i) = 0" "\<not> b_dirty (bufs s i)" "i \<in> set (rev (lru s))"
    unfolding find_Some_iff by (blast, blast, metis nth_mem)
  then have i: "i < NBUF" "\<not> b_locked (bufs s i)" using inv by (auto simp: binv_def)
  let ?g = "upd_buf i (\<lambda>b. b\<lparr>b_locked := True\<rparr>) (upd_buf i (\<lambda>x. x\<lparr>b_dev := dev, b_blockno := b,
                        b_valid := False, b_dirty := False, b_refcnt := 1\<rparr>) s)"
  have g: "bget dev b s = Ok (i, ?g)" using f fi i by (simp add: bget_def acquiresleep_buf_def)
  let ?s' = "(upd_buf i (\<lambda>b. b\<lparr>b_data := disk s (b_dev b) (b_blockno b), b_valid := True\<rparr>) ?g)\<lparr>woken := woken s @ [ChBuf i]\<rparr>"
  have "bread dev b s = Ok (i, ?s')" using g dev by (simp add: bread_def iderw_def Let_def)
  moreover have "took s dev b i ?s'"
    unfolding took_def using i i0 nc view_uncached [OF inv nc]
    by (intro exI [of _ "(bufs s i)\<lparr>b_dev := dev, b_blockno := b, b_dirty := False, b_refcnt := 1, b_locked := True, b_data := disk s dev b, b_valid := True\<rparr>"] exI [of _ "woken s @ [ChBuf i]"])
       (auto simp: upd_buf_def)
  ultimately show ?thesis by blast
qed

lemma took_simps:
  assumes "took s dev b i s'"
  shows "lru s' = lru s" "disk s' = disk s" "dwrites s' = dwrites s" "havedisk1 s' = havedisk1 s"
    "bio.more s' = bio.more s" "i < NBUF" "cached s' dev b i" "b_valid (bufs s' i)" "b_locked (bufs s' i)"
    "b_data (bufs s' i) = view s dev b" "j \<noteq> i \<Longrightarrow> bufs s' j = bufs s j"
    "b_dirty (bufs s' i) = (cached s dev b i \<and> b_dirty (bufs s i))"
    "b_refcnt (bufs s' i) = (if cached s dev b i then b_refcnt (bufs s i) + 1 else 1)"
    "\<not> b_locked (bufs s i)" "b_dirty (bufs s i) \<Longrightarrow> cached s dev b i"
    "\<not> cached s dev b i \<Longrightarrow> b_refcnt (bufs s i) = 0"
  using assms by (auto simp: took_def cached_def)

lemma took_binv:
  assumes inv: "binv s" and dev: "dev \<noteq> 0" and t: "took s dev b i s'"
    and ov: "cached s dev b i \<Longrightarrow> b_refcnt (bufs s i) + 1 \<noteq> 0"
  shows "binv s'"
proof -
  note ts = took_simps [OF t]
  have u: "j = i" if "j < NBUF" "b_dev (bufs s' j) = dev" "b_blockno (bufs s' j) = b" for j
  proof (rule ccontr)
    assume "j \<noteq> i"
    then have "cached s dev b j" using that ts by (simp add: cached_def)
    then show False using t binv_uniq [OF inv _ _ dev] \<open>j \<noteq> i\<close> by (auto simp: took_def)
  qed
  have "\<forall>j<NBUF. \<forall>k<NBUF. b_dev (bufs s' j) = b_dev (bufs s' k) \<longrightarrow> b_dev (bufs s' j) \<noteq> 0 \<longrightarrow>
        b_blockno (bufs s' j) = b_blockno (bufs s' k) \<longrightarrow> j = k"
  proof (intro allI impI)
    fix j k assume a: "j < NBUF" "k < NBUF" "b_dev (bufs s' j) = b_dev (bufs s' k)" "b_dev (bufs s' j) \<noteq> 0" "b_blockno (bufs s' j) = b_blockno (bufs s' k)"
    show "j = k"
    proof (cases "j = i \<or> k = i")
      case True
      then show ?thesis using u a ts(7) by (auto simp: cached_def)
    next
      case False
      then show ?thesis using a ts(11) inv by (simp add: binv_def)
    qed
  qed
  moreover have "distinct (lru s')" "set (lru s') = {..<NBUF}" using inv ts by (simp_all add: binv_def)
  moreover have "\<forall>j<NBUF. b_dirty (bufs s' j) \<longrightarrow> b_valid (bufs s' j)"
  proof (intro allI impI)
    fix j assume "j < NBUF" "b_dirty (bufs s' j)"
    then show "b_valid (bufs s' j)" using inv ts(8,11) by (cases "j = i") (auto simp: binv_def)
  qed
  moreover have "\<forall>j<NBUF. b_locked (bufs s' j) \<longrightarrow> b_refcnt (bufs s' j) \<noteq> 0"
  proof (intro allI impI)
    fix j assume "j < NBUF" "b_locked (bufs s' j)"
    then show "b_refcnt (bufs s' j) \<noteq> 0" using inv ts(11,13) ov by (cases "j = i") (auto simp: binv_def)
  qed
  moreover have "\<forall>j<NBUF. b_valid (bufs s' j) \<longrightarrow> \<not> b_dirty (bufs s' j) \<longrightarrow> \<not> b_locked (bufs s' j) \<longrightarrow>
        b_data (bufs s' j) = disk s' (b_dev (bufs s' j)) (b_blockno (bufs s' j))"
  proof (intro allI impI)
    fix j assume "j < NBUF" "b_valid (bufs s' j)" "\<not> b_dirty (bufs s' j)" "\<not> b_locked (bufs s' j)"
    then show "b_data (bufs s' j) = disk s' (b_dev (bufs s' j)) (b_blockno (bufs s' j))"
      using inv ts(2,9,11) by (cases "j = i") (auto simp: binv_def)
  qed
  ultimately show ?thesis by (simp add: binv_def)
qed

lemma took_view:
  assumes inv: "binv s" "binv s'" and dev: "dev \<noteq> 0" and t: "took s dev b i s'" and d: "d \<noteq> 0"
  shows "view s' d c = view s d c"
proof (cases "d = dev \<and> c = b")
  case True
  then show ?thesis using view_cached [OF inv(2) dev took_simps(7) [OF t]] took_simps [OF t] by simp
next
  case False
  note ts = took_simps [OF t]
  have c1: "cached s' d c j \<Longrightarrow> j \<noteq> i \<and> cached s d c j \<and> bufs s' j = bufs s j" for j
    using False ts(7) ts(11) [of j] by (cases "j = i") (auto simp: cached_def)
  have c2: "cached s d c j \<Longrightarrow> j \<noteq> i \<Longrightarrow> cached s' d c j \<and> bufs s' j = bufs s j" for j
    using ts(11) [of j] by (simp add: cached_def)
  show ?thesis
  proof (rule view_eqI [OF inv d])
    show "disk s' d c = disk s d c \<or> (\<exists>i. cached s' d c i \<and> b_valid (bufs s' i))" by (simp add: ts)
    fix j
    show "cached s' d c j \<Longrightarrow> b_valid (bufs s' j) \<Longrightarrow>
      (cached s d c j \<and> b_valid (bufs s j)) \<or> (b_data (bufs s' j) = disk s d c \<and> \<not> (\<exists>j. cached s d c j \<and> b_valid (bufs s j)))"
      using c1 by metis
    assume j: "cached s d c j" "b_valid (bufs s j)"
    show "(cached s' d c j \<and> b_valid (bufs s' j) \<and> b_data (bufs s' j) = b_data (bufs s j)) \<or>
      (b_data (bufs s j) = disk s' d c \<and> \<not> (\<exists>j. cached s' d c j \<and> b_valid (bufs s' j)))"
    proof (cases "j = i")
      case True
      then have "\<not> cached s dev b i" using j False by (auto simp: cached_def)
      then have "\<not> b_dirty (bufs s i)" "\<not> b_locked (bufs s i)" using ts(14,15) by auto
      then have "b_data (bufs s i) = disk s d c" using inv(1) j True by (auto simp: binv_def cached_def)
      moreover have "\<not> (\<exists>j. cached s' d c j)" using c1 binv_uniq [OF inv(1) _ j(1) d] True by blast
      ultimately show ?thesis using True ts(2) by auto
    qed (use c2 j in auto)
  qed
qed

text \<open>Updates of one buffer that keep the block it is assigned to.\<close>

lemma upd_cached:
  assumes "\<And>b. b_dev (f b) = b_dev b" "\<And>b. b_blockno (f b) = b_blockno b" "bufs s' = (bufs s)(i := f (bufs s i))"
  shows "cached s' d c j = cached s d c j"
  using assms by (simp add: cached_def)

lemma upd_view:
  assumes "binv s" "binv s'" "d \<noteq> 0" "i < NBUF"
    and f: "\<And>b. b_dev (f b) = b_dev b" "\<And>b. b_blockno (f b) = b_blockno b" "\<And>b. b_valid (f b) = b_valid b"
    and b: "bufs s' = (bufs s)(i := f (bufs s i))" and v: "b_valid (bufs s i)"
    and ds: "\<And>d c. (d, c) \<noteq> (b_dev (bufs s i), b_blockno (bufs s i)) \<Longrightarrow> disk s' d c = disk s d c"
  shows "view s' d c = (if d = b_dev (bufs s i) \<and> c = b_blockno (bufs s i) then b_data (f (bufs s i)) else view s d c)"
proof (cases "d = b_dev (bufs s i) \<and> c = b_blockno (bufs s i)")
  case True
  then have "cached s' d c i" using assms(4) f b by (simp add: cached_def)
  from view_cached [OF assms(2,3) this] True show ?thesis using f b v by simp
next
  case False
  have c: "cached s' d c j = cached s d c j" for j by (rule upd_cached [OF f(1,2) b])
  have n: "cached s d c j \<Longrightarrow> j \<noteq> i" for j using False by (auto simp: cached_def)
  then have e: "cached s d c j \<Longrightarrow> bufs s' j = bufs s j" for j using b by simp
  have "view s' d c = view s d c"
    by (rule view_eqI [OF assms(1,2,3)]) (use ds False c e in auto)
  then show ?thesis using False by auto
qed

lemma upd_binv:
  assumes inv: "binv s"
    and f: "\<And>b. b_dev (f b) = b_dev b" "\<And>b. b_blockno (f b) = b_blockno b" "\<And>b. b_valid (f b) = b_valid b"
    and b: "bufs s' = (bufs s)(i := f (bufs s i))"
    and l: "distinct (lru s')" "set (lru s') = {..<NBUF}" and i: "i < NBUF" "b_valid (bufs s i)" "b_dev (bufs s i) \<noteq> 0"
    and ds: "\<And>d c. (d, c) \<noteq> (b_dev (bufs s i), b_blockno (bufs s i)) \<Longrightarrow> disk s' d c = disk s d c"
    and lk: "b_locked (f (bufs s i)) \<longrightarrow> b_refcnt (f (bufs s i)) \<noteq> 0"
    and cl: "\<not> b_dirty (f (bufs s i)) \<longrightarrow> \<not> b_locked (f (bufs s i)) \<longrightarrow>
      b_data (f (bufs s i)) = disk s' (b_dev (bufs s i)) (b_blockno (bufs s i))"
  shows "binv s'"
proof -
  have dv: "b_dev (bufs s' j) = b_dev (bufs s j)" "b_blockno (bufs s' j) = b_blockno (bufs s j)"
    "b_valid (bufs s' j) = b_valid (bufs s j)" for j using f b by auto
  have o: "j \<noteq> i \<Longrightarrow> bufs s' j = bufs s j" for j using b by simp
  have "\<forall>j<NBUF. b_dirty (bufs s' j) \<longrightarrow> b_valid (bufs s' j)"
  proof (intro allI impI)
    fix j assume "j < NBUF" "b_dirty (bufs s' j)"
    then show "b_valid (bufs s' j)" using o inv i(2) dv(3) by (cases "j = i") (auto simp: binv_def)
  qed
  moreover have "\<forall>j<NBUF. b_locked (bufs s' j) \<longrightarrow> b_refcnt (bufs s' j) \<noteq> 0"
  proof (intro allI impI)
    fix j assume "j < NBUF" "b_locked (bufs s' j)"
    then show "b_refcnt (bufs s' j) \<noteq> 0" using o inv lk b by (cases "j = i") (auto simp: binv_def)
  qed
  moreover have "\<forall>j<NBUF. b_valid (bufs s' j) \<longrightarrow> \<not> b_dirty (bufs s' j) \<longrightarrow> \<not> b_locked (bufs s' j) \<longrightarrow>
        b_data (bufs s' j) = disk s' (b_dev (bufs s' j)) (b_blockno (bufs s' j))"
  proof (intro allI impI)
    fix j assume j: "j < NBUF" "b_valid (bufs s' j)" "\<not> b_dirty (bufs s' j)" "\<not> b_locked (bufs s' j)"
    show "b_data (bufs s' j) = disk s' (b_dev (bufs s' j)) (b_blockno (bufs s' j))"
    proof (cases "j = i")
      case True
      then show ?thesis using j cl b f by simp
    next
      case False
      then have e: "bufs s' j = bufs s j" by (rule o)
      have "(b_dev (bufs s j), b_blockno (bufs s j)) \<noteq> (b_dev (bufs s i), b_blockno (bufs s i))"
        using inv j(1) i False by (auto simp: binv_def)
      then show ?thesis using j ds inv unfolding e by (simp add: binv_def)
    qed
  qed
  moreover have "\<forall>j<NBUF. \<forall>k<NBUF. b_dev (bufs s' j) = b_dev (bufs s' k) \<longrightarrow> b_dev (bufs s' j) \<noteq> 0 \<longrightarrow>
        b_blockno (bufs s' j) = b_blockno (bufs s' k) \<longrightarrow> j = k"
    unfolding dv using inv by (simp add: binv_def)
  ultimately show ?thesis using l by (simp add: binv_def)
qed

lemma binv_lru: "binv s \<Longrightarrow> distinct (lru s) \<and> set (lru s) = {..<NBUF}"
  by (simp add: binv_def)

text \<open>The effect of the three ways a locked buffer is used: changing its data, writing it and
  releasing it.\<close>

lemma set_data:
  assumes inv: "binv s" and i: "i < NBUF" "b_locked (bufs s i)" "b_valid (bufs s i)" "b_dev (bufs s i) \<noteq> 0"
    and s': "s' = upd_buf i (\<lambda>b. b\<lparr>b_data := D\<rparr>) s"
  shows "binv s'"
    and "d \<noteq> 0 \<Longrightarrow> view s' d c = (if d = b_dev (bufs s i) \<and> c = b_blockno (bufs s i) then D else view s d c)"
proof -
  have b: "bufs s' = (bufs s)(i := (bufs s i)\<lparr>b_data := D\<rparr>)" by (simp add: s')
  have r: "b_refcnt (bufs s i) \<noteq> 0" using inv i by (simp add: binv_def)
  show i': "binv s'"
    by (rule upd_binv [OF inv, of "\<lambda>b. b\<lparr>b_data := D\<rparr>" _ i, OF _ _ _ b])
       (use i r binv_lru [OF inv] in \<open>simp_all add: s'\<close>)
  show "d \<noteq> 0 \<Longrightarrow> view s' d c = (if d = b_dev (bufs s i) \<and> c = b_blockno (bufs s i) then D else view s d c)"
    using upd_view [OF inv i' _ i(1), of d "\<lambda>b. b\<lparr>b_data := D\<rparr>" c, OF _ _ _ _ b i(3)] by (simp add: s')
qed

lemma bwrite_spec:
  assumes inv: "binv s" and i: "i < NBUF" "b_locked (bufs s i)" "b_valid (bufs s i)" "b_dev (bufs s i) \<noteq> 0"
    and d: "havedisk1 s" "unat (b_blockno (bufs s i)) < FSSIZE"
  shows "\<exists>s'. bwrite i s = Ok s' \<and> binv s' \<and> bufs s' = (bufs s)(i := (bufs s i)\<lparr>b_dirty := False\<rparr>) \<and>
     disk s' = (disk s)(b_dev (bufs s i) := (disk s (b_dev (bufs s i)))(b_blockno (bufs s i) := b_data (bufs s i))) \<and>
     dwrites s' = dwrites s @ [(b_dev (bufs s i), b_blockno (bufs s i), b_data (bufs s i))] \<and>
     havedisk1 s' = havedisk1 s \<and> bio.more s' = bio.more s \<and> (\<forall>d c. d \<noteq> 0 \<longrightarrow> view s' d c = view s d c)"
proof -
  let ?s' = "s\<lparr>bufs := (bufs s)(i := (bufs s i)\<lparr>b_valid := True, b_dirty := False\<rparr>),
     disk := (disk s)(b_dev (bufs s i) := (disk s (b_dev (bufs s i)))(b_blockno (bufs s i) := b_data (bufs s i))),
     dwrites := dwrites s @ [(b_dev (bufs s i), b_blockno (bufs s i), b_data (bufs s i))],
     woken := woken s @ [ChBuf i]\<rparr>"
  have w: "bwrite i s = Ok ?s'" using i d by (simp add: bwrite_def iderw_def Let_def upd_buf_def)
  have b: "bufs ?s' = (bufs s)(i := (bufs s i)\<lparr>b_dirty := False\<rparr>)" using i(3) by (simp add: fun_eq_iff)
  have r: "b_refcnt (bufs s i) \<noteq> 0" using inv i by (simp add: binv_def)
  have i': "binv ?s'"
    by (rule upd_binv [OF inv, of "\<lambda>b. b\<lparr>b_dirty := False\<rparr>" _ i, OF _ _ _ b])
       (use i r binv_lru [OF inv] in simp_all)
  have "view ?s' d c = view s d c" if "d \<noteq> 0" for d c
    using upd_view [OF inv i' that i(1), of "\<lambda>b. b\<lparr>b_dirty := False\<rparr>" c, OF _ _ _ b i(3)] view_cached [OF inv that, of c i] i
    by (auto simp: cached_def)
  then show ?thesis using w b i' by (intro exI [of _ ?s']) simp
qed

lemma brelse_spec:
  assumes inv: "binv s" and i: "i < NBUF" "b_locked (bufs s i)" "b_valid (bufs s i)" "b_dev (bufs s i) \<noteq> 0"
    and r: "b_refcnt (bufs s i) = 1"
    and cl: "b_dirty (bufs s i) \<or> b_data (bufs s i) = disk s (b_dev (bufs s i)) (b_blockno (bufs s i))"
  shows "\<exists>s'. brelse i s = Ok s' \<and> binv s' \<and> bufs s' = (bufs s)(i := (bufs s i)\<lparr>b_locked := False, b_refcnt := 0\<rparr>) \<and>
     disk s' = disk s \<and> dwrites s' = dwrites s \<and> havedisk1 s' = havedisk1 s \<and> bio.more s' = bio.more s \<and>
     (\<forall>d c. d \<noteq> 0 \<longrightarrow> view s' d c = view s d c)"
proof -
  let ?s' = "s\<lparr>bufs := (bufs s)(i := (bufs s i)\<lparr>b_locked := False, b_refcnt := 0\<rparr>),
     lru := i # remove1 i (lru s), woken := woken s @ [ChBuf i]\<rparr>"
  have w: "brelse i s = Ok ?s'" using i r by (simp add: brelse_def releasesleep_buf_def Let_def upd_buf_def)
  have b: "bufs ?s' = (bufs s)(i := (bufs s i)\<lparr>b_locked := False, b_refcnt := 0\<rparr>)" by simp
  have l: "distinct (lru ?s')" "set (lru ?s') = {..<NBUF}"
    using binv_lru [OF inv] i(1) by (auto simp: set_remove1_eq)
  have i': "binv ?s'"
    by (rule upd_binv [OF inv, of "\<lambda>b. b\<lparr>b_locked := False, b_refcnt := 0\<rparr>" _ i, OF _ _ _ b l])
       (use i r cl in auto)
  have "view ?s' d c = view s d c" if "d \<noteq> 0" for d c
    using upd_view [OF inv i' that i(1), of "\<lambda>b. b\<lparr>b_locked := False, b_refcnt := 0\<rparr>" c, OF _ _ _ b i(3)] view_cached [OF inv that, of c i] i
    by (auto simp: cached_def)
  then show ?thesis using w b i' by (intro exI [of _ ?s']) simp
qed

text \<open>The idiom of the log: copy one buffer to another, write it, release both.\<close>

lemma copy_tail:
  assumes inv: "binv s" "havedisk1 s" and pq: "p \<noteq> q" "p < NBUF" "q < NBUF"
    and p: "b_locked (bufs s p)" "b_valid (bufs s p)" "b_refcnt (bufs s p) = 1" "b_dev (bufs s p) \<noteq> 0" "unat (b_blockno (bufs s p)) < FSSIZE"
    and q: "b_locked (bufs s q)" "b_valid (bufs s q)" "b_refcnt (bufs s q) = 1" "b_dev (bufs s q) \<noteq> 0"
      "b_dirty (bufs s q) \<or> b_data (bufs s q) = disk s (b_dev (bufs s q)) (b_blockno (bufs s q))"
    and dp: "dp = b_dev (bufs s p)" "bp = b_blockno (bufs s p)" "D = b_data (bufs s q)"
  shows "\<exists>s2 s3 s4. bwrite p (upd_buf p (\<lambda>b. b\<lparr>b_data := D\<rparr>) s) = Ok s2 \<and> brelse q s2 = Ok s3 \<and> brelse p s3 = Ok s4 \<and>
    binv s4 \<and>
    bufs s4 = (bufs s)(p := (bufs s p)\<lparr>b_data := D, b_dirty := False, b_locked := False, b_refcnt := 0\<rparr>,
                       q := (bufs s q)\<lparr>b_locked := False, b_refcnt := 0\<rparr>) \<and>
    disk s4 = (disk s)(dp := (disk s dp)(bp := D)) \<and> dwrites s4 = dwrites s @ [(dp, bp, D)] \<and>
    havedisk1 s4 \<and> bio.more s4 = bio.more s \<and>
    (\<forall>d c. d \<noteq> 0 \<longrightarrow> view s4 d c = (if d = dp \<and> c = bp then D else view s d c))"
proof -
  define s1 where "s1 = upd_buf p (\<lambda>b. b\<lparr>b_data := D\<rparr>) s"
  have i1: "binv s1" and v1: "d \<noteq> 0 \<Longrightarrow> view s1 d c = (if d = dp \<and> c = bp then D else view s d c)" for d c
    using set_data [OF inv(1) pq(2) p(1,2,4) s1_def] dp by simp_all
  have b1: "bufs s1 = (bufs s)(p := (bufs s p)\<lparr>b_data := D\<rparr>)" "disk s1 = disk s" "dwrites s1 = dwrites s"
    "havedisk1 s1" "bio.more s1 = bio.more s" using inv(2) by (simp_all add: s1_def)
  have p1: "bufs s1 p = (bufs s p)\<lparr>b_data := D\<rparr>" by (simp add: b1)
  obtain s2 where w: "bwrite p s1 = Ok s2" and i2: "binv s2" and b2: "bufs s2 = (bufs s1)(p := (bufs s1 p)\<lparr>b_dirty := False\<rparr>)"
    and d2: "disk s2 = (disk s)(dp := (disk s dp)(bp := D))" "dwrites s2 = dwrites s @ [(dp, bp, D)]"
      "havedisk1 s2" "bio.more s2 = bio.more s" and v2: "\<forall>d c. d \<noteq> 0 \<longrightarrow> view s2 d c = view s1 d c"
    using bwrite_spec [OF i1 pq(2)] p b1 dp by auto
  have q2: "bufs s2 q = bufs s q" using pq b1 b2 by simp
  have ne: "(b_dev (bufs s q), b_blockno (bufs s q)) \<noteq> (dp, bp)"
    using inv(1) pq p(4) dp unfolding binv_def by auto
  have cq: "b_dirty (bufs s q) \<or> b_data (bufs s q) = disk s2 (b_dev (bufs s q)) (b_blockno (bufs s q))"
    using q(5) ne unfolding d2(1) by (auto simp: fun_upd_apply)
  obtain s3 where r1: "brelse q s2 = Ok s3" and i3: "binv s3" and b3: "bufs s3 = (bufs s2)(q := (bufs s2 q)\<lparr>b_locked := False, b_refcnt := 0\<rparr>)"
    and d3: "disk s3 = disk s2" "dwrites s3 = dwrites s2" "havedisk1 s3" "bio.more s3 = bio.more s2"
    and v3: "\<forall>d c. d \<noteq> 0 \<longrightarrow> view s3 d c = view s2 d c"
    using brelse_spec [OF i2 pq(3)] q(1-4) cq d2(3) unfolding q2 by auto
  have p3: "bufs s3 p = (bufs s p)\<lparr>b_data := D, b_dirty := False\<rparr>" using pq b1 b2 b3 by simp
  obtain s4 where r2: "brelse p s3 = Ok s4" and i4: "binv s4" and b4: "bufs s4 = (bufs s3)(p := (bufs s3 p)\<lparr>b_locked := False, b_refcnt := 0\<rparr>)"
    and d4: "disk s4 = disk s3" "dwrites s4 = dwrites s3" "havedisk1 s4" "bio.more s4 = bio.more s3"
    and v4: "\<forall>d c. d \<noteq> 0 \<longrightarrow> view s4 d c = view s3 d c"
    using brelse_spec [OF i3 pq(2)] p dp d2 d3 unfolding p3 by auto
  have "bufs s4 = (bufs s)(p := (bufs s p)\<lparr>b_data := D, b_dirty := False, b_locked := False, b_refcnt := 0\<rparr>,
                       q := (bufs s q)\<lparr>b_locked := False, b_refcnt := 0\<rparr>)"
    using pq by (simp add: b4 b3 b2 b1 fun_eq_iff)
  then show ?thesis using w r1 r2 i4 d2 d3 d4 v1 v2 v3 v4 unfolding s1_def [symmetric] by auto
qed

section \<open>Between operations\<close>

text \<open>No buffer is in use. \<open>dblk s dev\<close> are the blocks pinned in the cache by the log.\<close>

definition qbio :: "'a bio_scheme \<Rightarrow> bool" where
  "qbio s \<longleftrightarrow> binv s \<and> havedisk1 s \<and> (\<forall>i<NBUF. \<not> b_locked (bufs s i) \<and> b_refcnt (bufs s i) = 0)"

definition dirties :: "'a bio_scheme \<Rightarrow> nat set" where
  "dirties s = {i. i < NBUF \<and> b_dirty (bufs s i)}"

definition dblk :: "'a bio_scheme \<Rightarrow> u32 \<Rightarrow> u32 set" where
  "dblk s dev = {b. \<exists>i. cached s dev b i \<and> b_dirty (bufs s i)}"

definition held :: "'a bio_scheme \<Rightarrow> 'a bio_scheme \<Rightarrow> u32 \<Rightarrow> u32 \<Rightarrow> nat \<Rightarrow> bool" where
  "held s s2 dev x i \<longleftrightarrow> i < NBUF \<and> cached s2 dev x i \<and> b_locked (bufs s2 i) \<and> b_valid (bufs s2 i) \<and>
     b_refcnt (bufs s2 i) = 1 \<and> b_data (bufs s2 i) = view s dev x \<and>
     b_dirty (bufs s2 i) = (cached s dev x i \<and> b_dirty (bufs s i)) \<and> (b_dirty (bufs s i) \<longrightarrow> cached s dev x i)"

lemma dirties_finite: "finite (dirties s)" "dirties s \<subseteq> {..<NBUF}"
  by (auto simp: dirties_def)

lemma clean_exists:
  assumes "card (dirties s) < NBUF"
  shows "\<exists>i<NBUF. \<not> b_dirty (bufs s i)"
proof (rule ccontr)
  assume "\<not> (\<exists>i<NBUF. \<not> b_dirty (bufs s i))"
  then have "dirties s = {..<NBUF}" by (auto simp: dirties_def)
  then show False using assms by simp
qed

lemma clean_exists2:
  assumes "card (dirties s) < NBUF - 1"
  shows "\<exists>k<NBUF. k \<noteq> i \<and> \<not> b_dirty (bufs s k)"
proof (rule ccontr)
  assume "\<not> (\<exists>k<NBUF. k \<noteq> i \<and> \<not> b_dirty (bufs s k))"
  then have "{..<NBUF} - {i} \<subseteq> dirties s" by (auto simp: dirties_def)
  then have "card ({..<NBUF} - {i}) \<le> card (dirties s)" using dirties_finite card_mono by metis
  moreover have "NBUF - 1 \<le> card ({..<NBUF} - {i})" by (simp add: card_Diff_singleton_if)
  ultimately show False using assms by linarith
qed

lemma quiet_view:
  assumes "qbio s" "dev \<noteq> 0" "b \<notin> dblk s dev"
  shows "view s dev b = disk s dev b"
proof (cases "\<exists>i. cached s dev b i")
  case True
  then obtain i where i: "cached s dev b i" by blast
  then have "\<not> b_dirty (bufs s i)" "\<not> b_locked (bufs s i)" using assms by (auto simp: dblk_def qbio_def cached_def)
  then show ?thesis using view_cached [OF _ assms(2) i] assms(1) i by (auto simp: qbio_def binv_def cached_def)
qed (use assms view_uncached in \<open>auto simp: qbio_def\<close>)

lemma one_bread:
  assumes q: "qbio s" and dev: "dev \<noteq> 0" "unat x < FSSIZE" and room: "card (dirties s) < NBUF \<or> x \<in> dblk s dev"
  shows "\<exists>i s1. bread dev x s = Ok (i, s1) \<and> took s dev x i s1 \<and> binv s1 \<and> held s s1 dev x i \<and>
    (\<forall>d c. d \<noteq> 0 \<longrightarrow> view s1 d c = view s d c)"
proof -
  have inv: "binv s" "havedisk1 s" and nl: "\<And>i. i < NBUF \<Longrightarrow> \<not> b_locked (bufs s i) \<and> b_refcnt (bufs s i) = 0"
    using q by (auto simp: qbio_def)
  have "(\<exists>i. cached s dev x i) \<or> (\<exists>i<NBUF. b_refcnt (bufs s i) = 0 \<and> \<not> b_dirty (bufs s i))"
    using room clean_exists [of s] nl by (auto simp: dblk_def)
  then obtain i s1 where t: "bread dev x s = Ok (i, s1)" "took s dev x i s1"
    using bread_took [OF inv(1) dev(1) inv(2) dev(2)] nl by (auto simp: cached_def)
  note ts = took_simps [OF t(2)]
  have i1: "binv s1" using took_binv [OF inv(1) dev(1) t(2)] nl by (auto simp: cached_def)
  have "held s s1 dev x i" using ts nl [of i] by (auto simp: held_def)
  then show ?thesis using t i1 took_view [OF inv(1) i1 dev(1) t(2)] by blast
qed

lemma two_breads:
  assumes q: "qbio s" and dev: "dev \<noteq> 0" "x \<noteq> y" "unat x < FSSIZE" "unat y < FSSIZE"
    and room: "card (dirties s) < NBUF" "y \<in> dblk s dev \<or> card (dirties s) < NBUF - 1"
  shows "\<exists>i s1 j s2. bread dev x s = Ok (i, s1) \<and> bread dev y s1 = Ok (j, s2) \<and> i \<noteq> j \<and> binv s2 \<and> havedisk1 s2 \<and>
    held s s2 dev x i \<and> held s s2 dev y j \<and> (\<forall>k. k \<noteq> i \<longrightarrow> k \<noteq> j \<longrightarrow> bufs s2 k = bufs s k) \<and>
    disk s2 = disk s \<and> dwrites s2 = dwrites s \<and> bio.more s1 = bio.more s \<and> bio.more s2 = bio.more s \<and>
    (\<forall>d c. d \<noteq> 0 \<longrightarrow> view s2 d c = view s d c)"
proof -
  have nl: "\<And>i. i < NBUF \<Longrightarrow> \<not> b_locked (bufs s i) \<and> b_refcnt (bufs s i) = 0"
    using q by (auto simp: qbio_def)
  obtain i s1 where t: "bread dev x s = Ok (i, s1)" "took s dev x i s1" and i1: "binv s1" and h: "held s s1 dev x i"
    and v1: "\<forall>d c. d \<noteq> 0 \<longrightarrow> view s1 d c = view s d c"
    using one_bread [OF q dev(1,3)] room by blast
  note ts = took_simps [OF t(2)]
  have cy: "cached s1 dev y k \<longleftrightarrow> k \<noteq> i \<and> cached s dev y k" for k
    using ts(7) ts(11) [of k] dev(2) by (cases "k = i") (auto simp: cached_def)
  have hd1: "havedisk1 s1" using q ts(4) by (simp add: qbio_def)
  have r2: "(\<exists>k. cached s1 dev y k) \<or> (\<exists>k<NBUF. b_refcnt (bufs s1 k) = 0 \<and> \<not> b_dirty (bufs s1 k))"
    using room(2)
  proof
    assume "y \<in> dblk s dev"
    then obtain k where k: "cached s dev y k" "b_dirty (bufs s k)" by (auto simp: dblk_def)
    then have "k \<noteq> i" using ts(15) dev(2) by (auto simp: cached_def)
    then show ?thesis using cy k by blast
  next
    assume "card (dirties s) < NBUF - 1"
    then obtain k where k: "k < NBUF" "k \<noteq> i" "\<not> b_dirty (bufs s k)" using clean_exists2 by blast
    then show ?thesis using nl ts(11) by metis
  qed
  have nl1: "\<not> b_locked (bufs s1 k)" if "cached s1 dev y k" for k
    using that cy nl ts(11) [of k] by (auto simp: cached_def)
  obtain j s2 where t2: "bread dev y s1 = Ok (j, s2)" "took s1 dev y j s2"
    using bread_took [OF i1 dev(1) hd1 dev(4) nl1 r2] by blast
  note ts2 = took_simps [OF t2(2)]
  have ij: "j \<noteq> i" using ts2(14) ts(9) by auto
  have oj: "bufs s1 j = bufs s j" using ts(11) ij by simp
  have cj: "cached s1 dev y j = cached s dev y j" using cy ij by simp
  have i2: "binv s2" using took_binv [OF i1 dev(1) t2(2)] nl [of j] oj ts2(6) by simp
  have oi: "bufs s2 i = bufs s1 i" using ts2(11) ij by simp
  have v2: "\<forall>d c. d \<noteq> 0 \<longrightarrow> view s2 d c = view s d c" using took_view [OF i1 i2 dev(1) t2(2)] v1 by simp
  have "held s s2 dev x i" using h oi by (simp add: held_def cached_def)
  moreover have "held s s2 dev y j"
  proof -
    have "b_refcnt (bufs s2 j) = 1" using ts2(13) oj nl [of j] ts2(6) by simp
    moreover have "b_dirty (bufs s j) \<longrightarrow> cached s dev y j" using ts2(15) oj cj by simp
    moreover have "b_data (bufs s2 j) = view s dev y" using ts2(10) v1 dev(1) by simp
    ultimately show ?thesis using ts2 oj cj by (simp add: held_def)
  qed
  moreover have "\<forall>k. k \<noteq> i \<longrightarrow> k \<noteq> j \<longrightarrow> bufs s2 k = bufs s k" using ts(11) ts2(11) by simp
  ultimately show ?thesis using t(1) t2(1) ij i2 v2 ts(2-5) ts2(2-5) hd1 
    by (intro exI [of _ i] exI [of _ s1] exI [of _ j] exI [of _ s2]) simp
qed

lemma copy_done:
  assumes q: "qbio s" and dev: "dev \<noteq> 0" "x \<noteq> y" "unat x < FSSIZE" and pq: "p \<noteq> q"
    and s2: "binv s2" "havedisk1 s2" "disk s2 = disk s" "dwrites s2 = dwrites s" "\<forall>d c. d \<noteq> 0 \<longrightarrow> view s2 d c = view s d c"
    and h: "held s s2 dev x p" "held s s2 dev y q"
    and oth: "\<forall>k. k \<noteq> p \<longrightarrow> k \<noteq> q \<longrightarrow> bufs s2 k = bufs s k"
  shows "\<exists>s3 s4 s5. bwrite p (upd_buf p (\<lambda>b. b\<lparr>b_data := b_data (bufs s2 q)\<rparr>) s2) = Ok s3 \<and>
    brelse q s3 = Ok s4 \<and> brelse p s4 = Ok s5 \<and> qbio s5 \<and>
    disk s5 = (disk s)(dev := (disk s dev)(x := view s dev y)) \<and>
    dwrites s5 = dwrites s @ [(dev, x, view s dev y)] \<and> bio.more s5 = bio.more s2 \<and>
    (\<forall>d c. d \<noteq> 0 \<longrightarrow> view s5 d c = (if d = dev \<and> c = x then view s dev y else view s d c)) \<and>
    dirties s5 \<subseteq> dirties s \<and> dblk s5 dev = dblk s dev - {x}"
proof -
  have p: "p < NBUF" "b_locked (bufs s2 p)" "b_valid (bufs s2 p)" "b_refcnt (bufs s2 p) = 1" "b_dev (bufs s2 p) = dev"
    "b_blockno (bufs s2 p) = x" and pd: "b_dirty (bufs s p) \<longrightarrow> cached s dev x p"
    using h(1) by (auto simp: held_def cached_def)
  have qq: "q < NBUF" "b_locked (bufs s2 q)" "b_valid (bufs s2 q)" "b_refcnt (bufs s2 q) = 1" "b_dev (bufs s2 q) = dev"
    "b_blockno (bufs s2 q) = y" "b_data (bufs s2 q) = view s dev y"
    and qd: "b_dirty (bufs s q) \<longrightarrow> cached s dev y q" "b_dirty (bufs s2 q) = (cached s dev y q \<and> b_dirty (bufs s q))"
    using h(2) by (auto simp: held_def cached_def)
  have inv: "binv s" using q by (simp add: qbio_def)
  have "\<not> b_dirty (bufs s2 q) \<Longrightarrow> y \<notin> dblk s dev"
  proof
    assume n: "\<not> b_dirty (bufs s2 q)" and "y \<in> dblk s dev"
    then obtain k where k: "cached s dev y k" "b_dirty (bufs s k)" by (auto simp: dblk_def)
    have kq: "k \<noteq> q" using n qd(2) k by auto
    have kp: "k \<noteq> p" using pd k dev(2) by (auto simp: cached_def)
    have "cached s2 dev y k" using k(1) oth kp kq by (simp add: cached_def)
    moreover have "cached s2 dev y q" using h(2) by (simp add: held_def)
    ultimately show False using binv_uniq [OF s2(1) _ _ dev(1)] kq by blast
  qed
  then have qc: "b_dirty (bufs s2 q) \<or> b_data (bufs s2 q) = disk s2 dev y"
    using quiet_view [OF q dev(1)] qq(7) s2(3) by metis
  have pn: "b_dev (bufs s2 p) \<noteq> 0" "unat (b_blockno (bufs s2 p)) < FSSIZE" using p dev by simp_all
  have qn: "b_dev (bufs s2 q) \<noteq> 0" "b_dirty (bufs s2 q) \<or> b_data (bufs s2 q) = disk s2 (b_dev (bufs s2 q)) (b_blockno (bufs s2 q))"
    using qq dev qc by simp_all
  obtain s3 s4 s5 where c: "bwrite p (upd_buf p (\<lambda>b. b\<lparr>b_data := b_data (bufs s2 q)\<rparr>) s2) = Ok s3" "brelse q s3 = Ok s4" "brelse p s4 = Ok s5"
    and i5: "binv s5" and b5: "bufs s5 = (bufs s2)(p := (bufs s2 p)\<lparr>b_data := b_data (bufs s2 q), b_dirty := False, b_locked := False, b_refcnt := 0\<rparr>,
                       q := (bufs s2 q)\<lparr>b_locked := False, b_refcnt := 0\<rparr>)"
    and d5: "disk s5 = (disk s2)(dev := (disk s2 dev)(x := view s dev y))" "dwrites s5 = dwrites s2 @ [(dev, x, view s dev y)]"
      "havedisk1 s5" "bio.more s5 = bio.more s2"
    and v5: "\<forall>d c. d \<noteq> 0 \<longrightarrow> view s5 d c = (if d = dev \<and> c = x then view s dev y else view s2 d c)"
    using copy_tail [OF s2(1,2) pq p(1) qq(1) p(2,3,4) pn qq(2,3,4) qn refl refl refl] p(5,6) qq(7) by metis
  have e: "k \<noteq> p \<Longrightarrow> k \<noteq> q \<Longrightarrow> bufs s5 k = bufs s k" for k using b5 oth by simp
  have ep: "b_dirty (bufs s5 p) = False" "b_locked (bufs s5 p) = False" "b_refcnt (bufs s5 p) = 0" "b_dev (bufs s5 p) = dev" "b_blockno (bufs s5 p) = x"
    using b5 pq p by simp_all
  have eq: "b_dirty (bufs s5 q) = (cached s dev y q \<and> b_dirty (bufs s q))" "b_locked (bufs s5 q) = False" "b_refcnt (bufs s5 q) = 0" "b_dev (bufs s5 q) = dev" "b_blockno (bufs s5 q) = y"
    using b5 qq qd by simp_all
  have "\<not> b_locked (bufs s5 k) \<and> b_refcnt (bufs s5 k) = 0" if "k < NBUF" for k
    using that e [of k] ep eq q by (cases "k = p"; cases "k = q") (auto simp: qbio_def)
  then have "qbio s5" using i5 d5(3) by (simp add: qbio_def)
  moreover have "dirties s5 \<subseteq> dirties s"
  proof
    fix k assume "k \<in> dirties s5"
    then show "k \<in> dirties s" using e [of k] ep eq by (cases "k = p"; cases "k = q") (auto simp: dirties_def)
  qed
  moreover have "b \<in> dblk s5 dev \<longleftrightarrow> b \<in> dblk s dev \<and> b \<noteq> x" for b
  proof
    assume "b \<in> dblk s5 dev"
    then obtain k where k: "cached s5 dev b k" "b_dirty (bufs s5 k)" by (auto simp: dblk_def)
    have kp: "k \<noteq> p" using k(2) ep(1) by auto
    have "cached s5 dev x p" using p(1) ep by (simp add: cached_def)
    then have "b \<noteq> x" using binv_uniq [OF i5 k(1) _ dev(1), of p] kp by blast
    moreover have "b \<in> dblk s dev"
    proof (cases "k = q")
      case True
      then have "b = y" using k eq by (simp add: cached_def)
      then show ?thesis using k eq True by (auto simp: dblk_def)
    next
      case False
      then show ?thesis using k e [OF kp False] by (auto simp: dblk_def cached_def)
    qed
    ultimately show "b \<in> dblk s dev \<and> b \<noteq> x" by simp
  next
    assume b: "b \<in> dblk s dev \<and> b \<noteq> x"
    then obtain k where k: "cached s dev b k" "b_dirty (bufs s k)" by (auto simp: dblk_def)
    have kp: "k \<noteq> p" using pd k b by (auto simp: cached_def)
    show "b \<in> dblk s5 dev"
    proof (cases "k = q")
      case True
      then have "cached s dev y q" "b = y" using k qd(1) by (auto simp: cached_def)
      then have "cached s5 dev b k" "b_dirty (bufs s5 k)" using k True eq by (auto simp: cached_def)
      then show ?thesis by (auto simp: dblk_def)
    next
      case False
      then have "cached s5 dev b k" "b_dirty (bufs s5 k)" using k e [OF kp False] by (auto simp: cached_def)
      then show ?thesis by (auto simp: dblk_def)
    qed
  qed
  ultimately show ?thesis using c d5 v5 s2 by auto
qed

section \<open>Properties\<close>

text \<open>C30: when the block is cached and unlocked or some unused clean buffer exists, \<^verbatim>\<open>bread\<close>
  returns a locked buffer that holds the current content of the block, the cache stays consistent,
  no block's content changes and nothing is written to the disk; the buffer it takes
  over, if the block was not cached, was unused and clean.\<close>

theorem bread_correct:
  assumes "binv s" "dev \<noteq> 0" "havedisk1 s" "unat b < FSSIZE"
    and "\<forall>i. cached s dev b i \<longrightarrow> \<not> b_locked (bufs s i) \<and> b_refcnt (bufs s i) + 1 \<noteq> 0"
    and "(\<exists>i. cached s dev b i) \<or> (\<exists>i<NBUF. b_refcnt (bufs s i) = 0 \<and> \<not> b_dirty (bufs s i))"
  shows "\<exists>i s'. bread dev b s = Ok (i, s') \<and> binv s' \<and> cached s' dev b i \<and> b_valid (bufs s' i) \<and>
    b_locked (bufs s' i) \<and> b_data (bufs s' i) = view s dev b \<and> dwrites s' = dwrites s \<and>
    (\<forall>d c. d \<noteq> 0 \<longrightarrow> view s' d c = view s d c) \<and> (\<forall>j. j \<noteq> i \<longrightarrow> bufs s' j = bufs s j) \<and>
    (cached s dev b i \<or> b_refcnt (bufs s i) = 0 \<and> \<not> b_dirty (bufs s i))"
proof -
  obtain i s' where t: "bread dev b s = Ok (i, s')" "took s dev b i s'"
    using bread_took [OF assms(1-4) _ assms(6)] assms(5) by blast
  note ts = took_simps [OF t(2)]
  have i': "binv s'" using took_binv [OF assms(1,2) t(2)] assms(5) by blast
  have "\<forall>d c. d \<noteq> 0 \<longrightarrow> view s' d c = view s d c" using took_view [OF assms(1) i' assms(2) t(2)] by blast
  then show ?thesis using t(1) i' ts by blast
qed

definition demo_bio :: bio where
  "demo_bio = \<lparr>bufs = (\<lambda>_. \<lparr>b_valid = False, b_dirty = False, b_dev = 0, b_blockno = 0, b_locked = False,
       b_refcnt = 0, b_data = []\<rparr>),
     lru = [0..<30], disk = (\<lambda>_ b. replicate 512 (ucast b)), havedisk1 = True, dwrites = [], woken = []\<rparr>"

theorem bread_correct_witness:
  "\<exists>i s'. bread 1 5 demo_bio = Ok (i, s') \<and> b_data (bufs s' i) = replicate 512 5"
proof -
  have inv: "binv demo_bio" by (auto simp: binv_def demo_bio_def)
  have nc: "\<not> cached demo_bio 1 5 i" for i by (simp add: cached_def demo_bio_def)
  have v: "view demo_bio 1 5 = replicate 512 5" using view_uncached [OF inv, of 1 5] nc by (simp add: demo_bio_def)
  have r: "b_refcnt (bufs demo_bio 0) = 0 \<and> \<not> b_dirty (bufs demo_bio 0)" "havedisk1 demo_bio" by (simp_all add: demo_bio_def)
  then have "\<exists>i<NBUF. b_refcnt (bufs demo_bio i) = 0 \<and> \<not> b_dirty (bufs demo_bio i)" by (intro exI [of _ 0]) simp
  then have "\<exists>i s'. bread 1 5 demo_bio = Ok (i, s') \<and> b_data (bufs s' i) = view demo_bio 1 5"
    using bread_correct [OF inv _ r(2), of 1 5] nc by fastforce
  then show ?thesis unfolding v .
qed

end
