(* ===== verification/Log.thy ===== *)
theory Log
  imports Bio
begin

text \<open>
  The redo log, \<^verbatim>\<open>log.c\<close>, and \<^verbatim>\<open>readsb\<close> of \<^verbatim>\<open>fs.c\<close>, which \<^verbatim>\<open>initlog\<close> calls. Disk writes go
  through \<^verbatim>\<open>bwrite\<close>, so the order in which a commit writes the log, the header and the home
  locations is in \<open>dwrites\<close>; a crash keeps a prefix of it.
\<close>

section \<open>The super block\<close>

record superblock =
  sb_size :: u32
  sb_nblocks :: u32
  sb_ninodes :: u32
  sb_nlog :: u32
  sb_logstart :: u32
  sb_inodestart :: u32
  sb_bmapstart :: u32

definition superblock_of :: "block \<Rightarrow> superblock" where
  "superblock_of d = \<lparr>sb_size = get32 d 0, sb_nblocks = get32 d 4, sb_ninodes = get32 d 8,
     sb_nlog = get32 d 12, sb_logstart = get32 d 16, sb_inodestart = get32 d 20,
     sb_bmapstart = get32 d 24\<rparr>"

definition readsb :: "u32 \<Rightarrow> 'a bio_scheme \<Rightarrow> (superblock \<times> 'a bio_scheme) outcome" where
  "readsb dev s =
     bindo (bread dev 1 s) (\<lambda>(bp, s).
       let sb = superblock_of (b_data (bufs s bp)) in
       bindo (brelse bp s) (\<lambda>s. Ok (sb, s)))"

section \<open>The log\<close>

record logst = bio +
  l_start :: int
  l_size :: int
  l_outstanding :: int
  l_committing :: bool
  l_dev :: int
  lh_n :: int
  lh_block :: "u32 list"

definition upd_data :: "nat \<Rightarrow> (block \<Rightarrow> block) \<Rightarrow> 'a bio_scheme \<Rightarrow> 'a bio_scheme" where
  "upd_data i f s = upd_buf i (\<lambda>b. b\<lparr>b_data := f (b_data b)\<rparr>) s"

text \<open>Indexing \<^verbatim>\<open>log.lh.block\<close> outside its \<open>LOGSIZE\<close> elements has no meaning in C.\<close>

fun install_trans_loop :: "nat list \<Rightarrow> 'a logst_scheme \<Rightarrow> 'a logst_scheme outcome" where
  "install_trans_loop [] s = Ok s"
| "install_trans_loop (tail # ts) s =
     bindo (bread (of_int (l_dev s)) (of_int (l_start s + int tail + 1)) s) (\<lambda>(lbuf, s).
       if tail \<ge> length (lh_block s) then UB
       else bindo (bread (of_int (l_dev s)) (lh_block s ! tail) s) (\<lambda>(dbuf, s).
         let s = upd_data dbuf (\<lambda>_. b_data (bufs s lbuf)) s in
         bindo (bwrite dbuf s) (\<lambda>s.
         bindo (brelse lbuf s) (\<lambda>s.
         bindo (brelse dbuf s) (\<lambda>s. install_trans_loop ts s)))))"

definition install_trans :: "'a logst_scheme \<Rightarrow> 'a logst_scheme outcome" where
  "install_trans s = install_trans_loop [0..<nat (lh_n s)] s"

definition read_head :: "'a logst_scheme \<Rightarrow> 'a logst_scheme outcome" where
  "read_head s =
     bindo (bread (of_int (l_dev s)) (of_int (l_start s)) s) (\<lambda>(b, s).
       let d = b_data (bufs s b); n = sint (get32 d 0) in
       if nat n > length (lh_block s) then UB
       else brelse b (s\<lparr>lh_n := n,
              lh_block := map (\<lambda>i. get32 d (4 + 4 * i)) [0..<nat n] @ drop (nat n) (lh_block s)\<rparr>))"

definition put_head :: "int \<Rightarrow> u32 list \<Rightarrow> block \<Rightarrow> block" where
  "put_head n bl d = fold (\<lambda>i d. put32 d (4 + 4 * i) (bl ! i)) [0..<nat n] (put32 d 0 (of_int n))"

definition write_head :: "'a logst_scheme \<Rightarrow> 'a logst_scheme outcome" where
  "write_head s =
     bindo (bread (of_int (l_dev s)) (of_int (l_start s)) s) (\<lambda>(b, s).
       if nat (lh_n s) > length (lh_block s) then UB
       else bindo (bwrite b (upd_data b (put_head (lh_n s) (lh_block s)) s)) (\<lambda>s. brelse b s))"

definition recover_from_log :: "'a logst_scheme \<Rightarrow> 'a logst_scheme outcome" where
  "recover_from_log s =
     bindo (read_head s) (\<lambda>s.
     bindo (install_trans s) (\<lambda>s.
     write_head (s\<lparr>lh_n := 0\<rparr>)))"

text \<open>The size test of \<^verbatim>\<open>initlog\<close> compares \<^verbatim>\<open>sizeof(struct logheader)\<close>, 4 + 4 * LOGSIZE, with
  \<open>BSIZE\<close>.\<close>

definition initlog :: "int \<Rightarrow> 'a logst_scheme \<Rightarrow> 'a logst_scheme outcome" where
  "initlog dev s =
     (if 4 + 4 * LOGSIZE \<ge> BSIZE then Panic ''initlog: too big logheader''
      else bindo (readsb (of_int dev) s) (\<lambda>(sb, s).
        recover_from_log (s\<lparr>l_start := sint (sb_logstart sb), l_size := sint (sb_nlog sb),
          l_dev := dev\<rparr>)))"

text \<open>\<^verbatim>\<open>begin_op\<close> sleeps while the log is committing or may run out of space.\<close>

definition begin_op :: "'a logst_scheme \<Rightarrow> 'a logst_scheme outcome" where
  "begin_op s =
     (if l_committing s then Wait
      else if lh_n s + (l_outstanding s + 1) * int MAXOPBLOCKS > int LOGSIZE then Wait
      else Ok (s\<lparr>l_outstanding := l_outstanding s + 1\<rparr>))"

fun write_log_loop :: "nat list \<Rightarrow> 'a logst_scheme \<Rightarrow> 'a logst_scheme outcome" where
  "write_log_loop [] s = Ok s"
| "write_log_loop (tail # ts) s =
     bindo (bread (of_int (l_dev s)) (of_int (l_start s + int tail + 1)) s) (\<lambda>(to, s).
       if tail \<ge> length (lh_block s) then UB
       else bindo (bread (of_int (l_dev s)) (lh_block s ! tail) s) (\<lambda>(from, s).
         let s = upd_data to (\<lambda>_. b_data (bufs s from)) s in
         bindo (bwrite to s) (\<lambda>s.
         bindo (brelse from s) (\<lambda>s.
         bindo (brelse to s) (\<lambda>s. write_log_loop ts s)))))"

definition write_log :: "'a logst_scheme \<Rightarrow> 'a logst_scheme outcome" where
  "write_log s = write_log_loop [0..<nat (lh_n s)] s"

definition commit :: "'a logst_scheme \<Rightarrow> 'a logst_scheme outcome" where
  "commit s =
     (if lh_n s > 0 then
        bindo (write_log s) (\<lambda>s.
        bindo (write_head s) (\<lambda>s.
        bindo (install_trans s) (\<lambda>s.
        write_head (s\<lparr>lh_n := 0\<rparr>))))
      else Ok s)"

text \<open>\<^verbatim>\<open>end_op\<close> in its two critical sections, with the commit between them.\<close>

definition end_op :: "'a logst_scheme \<Rightarrow> 'a logst_scheme outcome" where
  "end_op s =
     (let s = s\<lparr>l_outstanding := l_outstanding s - 1\<rparr> in
      if l_committing s then Panic ''log.committing''
      else if l_outstanding s = 0 then
        bindo (commit (s\<lparr>l_committing := True\<rparr>)) (\<lambda>s.
          Ok (s\<lparr>l_committing := False, woken := woken s @ [ChLog]\<rparr>))
      else Ok (s\<lparr>woken := woken s @ [ChLog]\<rparr>))"

text \<open>The search of \<^verbatim>\<open>log_write\<close> from index \<open>i\<close>, with \<open>k\<close> entries left.\<close>

fun absorb :: "u32 \<Rightarrow> u32 list \<Rightarrow> nat \<Rightarrow> nat \<Rightarrow> nat" where
  "absorb b bl 0 i = i"
| "absorb b bl (Suc k) i = (if bl ! i = b then i else absorb b bl k (i + 1))"

definition log_write :: "nat \<Rightarrow> 'a logst_scheme \<Rightarrow> 'a logst_scheme outcome" where
  "log_write b s =
     (if lh_n s \<ge> int LOGSIZE \<or> lh_n s \<ge> l_size s - 1 then Panic ''too big a transaction''
      else if l_outstanding s < 1 then Panic ''log_write outside of trans''
      else let i = absorb (b_blockno (bufs s b)) (lh_block s) (nat (lh_n s)) 0;
               s = s\<lparr>lh_block := (lh_block s)[i := b_blockno (bufs s b)]\<rparr>;
               s = (if int i = lh_n s then s\<lparr>lh_n := lh_n s + 1\<rparr> else s)
           in Ok (upd_buf b (\<lambda>x. x\<lparr>b_dirty := True\<rparr>) s))"

section \<open>Effects of the log's steps\<close>

definition appl :: "(u32 \<times> u32 \<times> block) list \<Rightarrow> (u32 \<Rightarrow> u32 \<Rightarrow> block) \<Rightarrow> u32 \<Rightarrow> u32 \<Rightarrow> block" where
  "appl ws d = fold (\<lambda>(dev, b, x) d. d(dev := (d dev)(b := x))) ws d"

lemma appl_simps [simp]:
  "appl [] d = d" "appl (ws @ vs) d = appl vs (appl ws d)" "appl ((dev, b, x) # ws) d = appl ws (d(dev := (d dev)(b := x)))"
  by (simp_all add: appl_def)

lemma appl_other: "\<forall>w\<in>set ws. (fst w, fst (snd w)) \<noteq> (dev, b) \<Longrightarrow> appl ws d dev b = d dev b"
  by (induction ws arbitrary: d) (auto simp: appl_def fun_upd_apply)

lemma appl_map:
  assumes "distinct is" "inj_on f (set is)"
  shows "appl (map (\<lambda>i. (dev, f i, g i)) is) d dev b = (if b \<in> f ` set is then g (the_inv_into (set is) f b) else d dev b)"
proof (cases "b \<in> f ` set is")
  case False
  then show ?thesis by (auto intro!: appl_other)
next
  case True
  then obtain i where i: "i \<in> set is" "b = f i" by auto
  then obtain xs ys where s: "is = xs @ i # ys" by (meson split_list)
  have "appl (map (\<lambda>i. (dev, f i, g i)) ys) d' dev (f i) = d' dev (f i)" for d'
  proof (rule appl_other, rule ballI)
    fix w assume "w \<in> set (map (\<lambda>i. (dev, f i, g i)) ys)"
    then obtain j where j: "j \<in> set ys" "w = (dev, f j, g j)" by auto
    then have "j \<noteq> i" "j \<in> set is" using assms(1) s by auto
    then have "f j \<noteq> f i" using assms(2) i(1) by (auto dest: inj_onD)
    then show "(fst w, fst (snd w)) \<noteq> (dev, f i)" using j by simp
  qed
  then show ?thesis using i True s assms by (simp add: the_inv_into_f_f)
qed

lemma appl_map_other: "\<forall>i\<in>set is. f i \<noteq> b \<Longrightarrow> appl (map (\<lambda>i. (dev, f i, g i)) is) d dev b = d dev b"
  by (rule appl_other) auto

lemma written_blocks: "(\<lambda>w. fst (snd w)) ` set (map (\<lambda>i. (dev, f i, g i)) is) = f ` set is"
  by (simp add: image_image)

lemma more_fields:
  assumes "bio.more s' = bio.more s"
  shows "l_start s' = l_start s" "l_size s' = l_size s" "l_outstanding s' = l_outstanding s"
    "l_committing s' = l_committing s" "l_dev s' = l_dev s" "lh_n s' = lh_n s" "lh_block s' = lh_block s"
    "logst.more s' = logst.more s"
  using assms by (cases s; cases s'; simp)+

text \<open>Rewriting one block in place, and reading one.\<close>

lemma rewrite_one:
  assumes q: "qbio s" and dev: "dev \<noteq> 0" "unat x < FSSIZE" and room: "card (dirties s) < NBUF \<or> x \<in> dblk s dev"
  shows "\<exists>i s1 s2 s3. bread dev x s = Ok (i, s1) \<and> bio.more s1 = bio.more s \<and> bwrite i (upd_data i f s1) = Ok s2 \<and> brelse i s2 = Ok s3 \<and>
    qbio s3 \<and> disk s3 = (disk s)(dev := (disk s dev)(x := f (view s dev x))) \<and>
    dwrites s3 = dwrites s @ [(dev, x, f (view s dev x))] \<and> bio.more s3 = bio.more s \<and>
    (\<forall>d c. d \<noteq> 0 \<longrightarrow> view s3 d c = (if d = dev \<and> c = x then f (view s dev x) else view s d c)) \<and>
    dirties s3 \<subseteq> dirties s \<and> dblk s3 dev = dblk s dev - {x}"
proof -
  obtain i s1 where t: "bread dev x s = Ok (i, s1)" "took s dev x i s1" and i1: "binv s1" and h: "held s s1 dev x i"
    and v1: "\<forall>d c. d \<noteq> 0 \<longrightarrow> view s1 d c = view s d c"
    using one_bread [OF q dev room] by blast
  note ts = took_simps [OF t(2)]
  have b: "i < NBUF" "b_locked (bufs s1 i)" "b_valid (bufs s1 i)" "b_dev (bufs s1 i) = dev" "b_blockno (bufs s1 i) = x"
    "b_data (bufs s1 i) = view s dev x" "b_refcnt (bufs s1 i) = 1"
    and bd: "b_dirty (bufs s i) \<longrightarrow> cached s dev x i"
    using h by (auto simp: held_def cached_def)
  let ?D = "f (view s dev x)"
  define sd where "sd = upd_buf i (\<lambda>b. b\<lparr>b_data := ?D\<rparr>) s1"
  have ud: "upd_data i f s1 = sd" using b(6) by (simp add: upd_data_def upd_buf_def sd_def)
  have bn: "b_dev (bufs s1 i) \<noteq> 0" using b dev by simp
  have id: "binv sd" and vd: "d \<noteq> 0 \<Longrightarrow> view sd d c = (if d = dev \<and> c = x then ?D else view s1 d c)" for d c
    using set_data [OF i1 b(1-3) bn sd_def] b by auto
  have fd: "disk sd = disk s" "dwrites sd = dwrites s" "havedisk1 sd" "bio.more sd = bio.more s" "bufs sd = (bufs s1)(i := (bufs s1 i)\<lparr>b_data := ?D\<rparr>)"
    using ts q by (simp_all add: sd_def qbio_def)
  obtain s2 where w: "bwrite i sd = Ok s2" and i2: "binv s2" and b2: "bufs s2 = (bufs sd)(i := (bufs sd i)\<lparr>b_dirty := False\<rparr>)"
    and f2: "disk s2 = (disk s)(dev := (disk s dev)(x := ?D))" "dwrites s2 = dwrites s @ [(dev, x, ?D)]" "havedisk1 s2" "bio.more s2 = bio.more s"
    and v2: "\<forall>d c. d \<noteq> 0 \<longrightarrow> view s2 d c = view sd d c"
    using bwrite_spec [OF id b(1)] b fd dev by auto
  have p2: "bufs s2 i = (bufs s1 i)\<lparr>b_data := ?D, b_dirty := False\<rparr>" using b2 fd by simp
  obtain s3 where r: "brelse i s2 = Ok s3" and i3: "binv s3" and b3: "bufs s3 = (bufs s2)(i := (bufs s2 i)\<lparr>b_locked := False, b_refcnt := 0\<rparr>)"
    and f3: "disk s3 = disk s2" "dwrites s3 = dwrites s2" "havedisk1 s3" "bio.more s3 = bio.more s2"
    and v3: "\<forall>d c. d \<noteq> 0 \<longrightarrow> view s3 d c = view s2 d c"
    using brelse_spec [OF i2 b(1)] b f2 dev unfolding p2 by auto
  have e: "k \<noteq> i \<Longrightarrow> bufs s3 k = bufs s k" for k using b3 b2 fd ts(11) by simp
  have ei: "b_dirty (bufs s3 i) = False" "b_locked (bufs s3 i) = False" "b_refcnt (bufs s3 i) = 0" "b_dev (bufs s3 i) = dev" "b_blockno (bufs s3 i) = x"
    using b3 p2 b by simp_all
  have "\<not> b_locked (bufs s3 k) \<and> b_refcnt (bufs s3 k) = 0" if "k < NBUF" for k
    using that e [of k] ei q by (cases "k = i") (auto simp: qbio_def)
  then have "qbio s3" using i3 f3 f2 by (simp add: qbio_def)
  moreover have "dirties s3 \<subseteq> dirties s"
  proof
    fix k assume "k \<in> dirties s3"
    then show "k \<in> dirties s" using e [of k] ei by (cases "k = i") (auto simp: dirties_def)
  qed
  moreover have "c \<in> dblk s3 dev \<longleftrightarrow> c \<in> dblk s dev \<and> c \<noteq> x" for c
  proof
    assume "c \<in> dblk s3 dev"
    then obtain k where k: "cached s3 dev c k" "b_dirty (bufs s3 k)" by (auto simp: dblk_def)
    then have ki: "k \<noteq> i" using ei(1) by auto
    moreover have "cached s3 dev x i" using b(1) ei by (simp add: cached_def)
    ultimately have "c \<noteq> x" using binv_uniq [OF i3 k(1) _ dev(1), of i] by blast
    then show "c \<in> dblk s dev \<and> c \<noteq> x" using k e [OF ki] by (auto simp: dblk_def cached_def)
  next
    assume c: "c \<in> dblk s dev \<and> c \<noteq> x"
    then obtain k where k: "cached s dev c k" "b_dirty (bufs s k)" by (auto simp: dblk_def)
    then have "k \<noteq> i" using bd c by (auto simp: cached_def)
    then show "c \<in> dblk s3 dev" using k e by (auto simp: dblk_def cached_def)
  qed
  moreover have "view s3 d c = (if d = dev \<and> c = x then ?D else view s d c)" if "d \<noteq> 0" for d c
    using v1 vd v2 v3 that by simp
  ultimately show ?thesis using t(1) ts(5) w r f2 f3 unfolding ud [symmetric]
    by - (rule exI [of _ i], rule exI [of _ s1], rule exI [of _ s2], rule exI [of _ s3], auto)
qed

lemma bio_cong:
  assumes "bufs s' = bufs s" "lru s' = lru s" "disk s' = disk s"
  shows "binv s' = binv s" "view s' d c = view s d c" "cached s' d c i = cached s d c i"
  unfolding binv_def view_def cached_def assms by simp_all

text \<open>What each step of the log writes: \<open>wrote ws s s'\<close>.\<close>

definition wrote :: "(u32 \<times> u32 \<times> block) list \<Rightarrow> 'a bio_scheme \<Rightarrow> 'a bio_scheme \<Rightarrow> bool" where
  "wrote ws s s' \<longleftrightarrow> qbio s' \<and> dwrites s' = dwrites s @ ws \<and> disk s' = appl ws (disk s) \<and>
     dirties s' \<subseteq> dirties s \<and> (\<forall>d c. d \<noteq> 0 \<longrightarrow> view s' d c = appl ws (view s) d c) \<and>
     (\<forall>d. d \<noteq> 0 \<longrightarrow> (\<forall>w\<in>set ws. fst w = d) \<longrightarrow> dblk s' d = dblk s d - (\<lambda>w. fst (snd w)) ` set ws)"

lemma appl_pointwise: "(\<And>d c. d \<noteq> 0 \<Longrightarrow> f d c = g d c) \<Longrightarrow> d \<noteq> 0 \<Longrightarrow> appl ws f d c = appl ws g d c"
proof (induction ws arbitrary: f g)
  case (Cons w ws)
  obtain dv b x where w: "w = (dv, b, x)" by (cases w) auto
  have "appl ws (f(dv := (f dv)(b := x))) d c = appl ws (g(dv := (g dv)(b := x))) d c"
    using Cons.prems by (intro Cons.IH) auto
  then show ?case by (simp add: w)
qed simp

lemma wrote_trans:
  assumes "wrote ws s s1" "wrote vs s1 s2"
  shows "wrote (ws @ vs) s s2"
proof -
  have "view s2 d c = appl (ws @ vs) (view s) d c" if "d \<noteq> 0" for d c
    using assms appl_pointwise [of "view s1" "appl ws (view s)" d vs c] that by (simp add: wrote_def)
  moreover have "dblk s2 d = dblk s d - (\<lambda>w. fst (snd w)) ` set (ws @ vs)" if "d \<noteq> 0" "\<forall>w\<in>set (ws @ vs). fst w = d" for d
    using assms that by (auto simp: wrote_def)
  ultimately show ?thesis using assms by (auto simp: wrote_def)
qed

lemma wrote_refl: "qbio s \<Longrightarrow> wrote [] s s"
  by (simp add: wrote_def)

section \<open>Committing and recovering\<close>

text \<open>The geometry the log relies on: header and log blocks on the disk, home blocks on the disk
  and outside the log, each home block listed once.\<close>

abbreviation (input) ldev :: "'a logst_scheme \<Rightarrow> u32" where "ldev s \<equiv> of_int (l_dev s)"
abbreviation (input) lhead :: "'a logst_scheme \<Rightarrow> u32" where "lhead s \<equiv> of_int (l_start s)"
definition lblk :: "int \<Rightarrow> nat \<Rightarrow> u32" where "lblk st i = of_int (st + int i + 1)"

definition log_area :: "int \<Rightarrow> u32 set" where
  "log_area st = insert (of_int st) (lblk st ` {..<LOGSIZE})"

definition log_geo :: "u32 \<Rightarrow> int \<Rightarrow> nat \<Rightarrow> u32 list \<Rightarrow> bool" where
  "log_geo dev st n bl \<longleftrightarrow> dev \<noteq> 0 \<and> 0 \<le> st \<and> st + int LOGSIZE < int FSSIZE \<and>
     length bl = LOGSIZE \<and> n \<le> LOGSIZE \<and> distinct (take n bl) \<and>
     (\<forall>i<n. unat (bl ! i) < FSSIZE \<and> bl ! i \<notin> log_area st)"

lemma unat_of_int_small: "0 \<le> k \<Longrightarrow> k < 4294967296 \<Longrightarrow> unat (of_int k :: u32) = nat k"
  by (simp add: unsigned_of_int take_bit_int_eq_self)

lemma log_geo_blocks:
  assumes "log_geo dev st n bl"
  shows "unat (of_int st :: u32) < FSSIZE" "i < LOGSIZE \<Longrightarrow> unat (lblk st i) < FSSIZE"
    "i < LOGSIZE \<Longrightarrow> lblk st i \<noteq> of_int st" "i < LOGSIZE \<Longrightarrow> j < LOGSIZE \<Longrightarrow> lblk st i = lblk st j \<Longrightarrow> i = j"
proof -
  have g: "0 \<le> st" "st + 30 < 1000" using assms by (auto simp: log_geo_def)
  have h: "unat (of_int st :: u32) = nat st" using g by (intro unat_of_int_small) auto
  have l: "unat (lblk st i) = nat (st + int i + 1)" if "i < LOGSIZE" for i
    unfolding lblk_def using g that by (intro unat_of_int_small) auto
  show "unat (of_int st :: u32) < FSSIZE" "i < LOGSIZE \<Longrightarrow> unat (lblk st i) < FSSIZE" using g h l by auto
  show "lblk st i \<noteq> of_int st" if "i < LOGSIZE"
  proof
    assume "lblk st i = of_int st"
    then have "nat (st + int i + 1) = nat st" using l [OF that] h by simp
    then show False using g by simp
  qed
  show "i = j" if "i < LOGSIZE" "j < LOGSIZE" "lblk st i = lblk st j"
  proof -
    have "nat (st + int i + 1) = nat (st + int j + 1)" using l that by metis
    then show ?thesis using g by simp
  qed
qed

lemma log_geo_home:
  assumes "log_geo dev st n bl" "i < n"
  shows "unat (bl ! i) < FSSIZE" "j < LOGSIZE \<Longrightarrow> bl ! i \<noteq> lblk st j" "bl ! i \<noteq> of_int st" "i < length bl"
    "j < n \<Longrightarrow> bl ! i = bl ! j \<Longrightarrow> i = j"
proof -
  show "unat (bl ! i) < FSSIZE" "j < LOGSIZE \<Longrightarrow> bl ! i \<noteq> lblk st j" "bl ! i \<noteq> of_int st" "i < length bl"
    using assms by (auto simp: log_geo_def log_area_def)
  show "j < n \<Longrightarrow> bl ! i = bl ! j \<Longrightarrow> i = j"
  proof -
    assume j: "j < n" "bl ! i = bl ! j"
    have "distinct (take n bl)" "n \<le> length bl" using assms by (auto simp: log_geo_def)
    then show ?thesis using j assms(2) nth_eq_iff_index_eq [of "take n bl" i j] by simp
  qed
qed

definition log_at :: "u32 \<Rightarrow> int \<Rightarrow> u32 list \<Rightarrow> 'a logst_scheme \<Rightarrow> bool" where
  "log_at dev st bl s \<longleftrightarrow> of_int (l_dev s) = dev \<and> l_start s = st \<and> lh_block s = bl"

lemma log_at_more: "bio.more s' = bio.more s \<Longrightarrow> log_at dev st bl s' = log_at dev st bl s"
  using more_fields [of s' s] by (simp add: log_at_def)

lemma wrote_one:
  assumes "qbio s5" "disk s5 = (disk s)(dev := (disk s dev)(x := D))" "dwrites s5 = dwrites s @ [(dev, x, D)]"
    "\<forall>d c. d \<noteq> 0 \<longrightarrow> view s5 d c = (if d = dev \<and> c = x then D else view s d c)"
    "dirties s5 \<subseteq> dirties s" "dblk s5 dev = dblk s dev - {x}"
  shows "wrote [(dev, x, D)] s s5"
  using assms by (auto simp: wrote_def)

lemma write_log_loop_wrote:
  assumes "qbio s" "log_geo dev st n bl" "log_at dev st bl s" "card (dirties s) < NBUF" "set ts \<subseteq> {..<n}"
    "\<forall>t\<in>set ts. bl ! t \<in> dblk s dev" "\<forall>t\<in>set ts. view s dev (bl ! t) = V t"
  shows "\<exists>s'. write_log_loop ts s = Ok s' \<and> wrote (map (\<lambda>i. (dev, lblk st i, V i)) ts) s s' \<and> bio.more s' = bio.more s"
  using assms(1,3-7)
proof (induction ts arbitrary: s)
  case Nil
  then show ?case by (simp add: wrote_refl)
next
  case (Cons t ts)
  have dev: "dev \<noteq> 0" using assms(2) by (simp add: log_geo_def)
  have tn: "t < n" "t < LOGSIZE" using Cons.prems(4) assms(2) by (auto simp: log_geo_def)
  note gb = log_geo_blocks [OF assms(2)] and gh = log_geo_home [OF assms(2) tn(1)]
  have ne: "lblk st t \<noteq> bl ! t" using gh(2) [OF tn(2)] by simp
  obtain i s1 j s2 where b: "bread dev (lblk st t) s = Ok (i, s1)" "bread dev (bl ! t) s1 = Ok (j, s2)" "i \<noteq> j"
    and s2: "binv s2" "havedisk1 s2" "disk s2 = disk s" "dwrites s2 = dwrites s" "\<forall>d c. d \<noteq> 0 \<longrightarrow> view s2 d c = view s d c"
    and h: "held s s2 dev (lblk st t) i" "held s s2 dev (bl ! t) j"
    and o: "\<forall>k. k \<noteq> i \<longrightarrow> k \<noteq> j \<longrightarrow> bufs s2 k = bufs s k" and m: "bio.more s1 = bio.more s" "bio.more s2 = bio.more s"
    using two_breads [OF Cons.prems(1) dev ne gb(2) [OF tn(2)] gh(1) Cons.prems(3)] Cons.prems(5) by auto
  obtain s3 s4 s5 where c: "bwrite i (upd_buf i (\<lambda>b. b\<lparr>b_data := b_data (bufs s2 j)\<rparr>) s2) = Ok s3" "brelse j s3 = Ok s4" "brelse i s4 = Ok s5"
    and q5: "qbio s5" and f5: "disk s5 = (disk s)(dev := (disk s dev)(lblk st t := view s dev (bl ! t)))"
      "dwrites s5 = dwrites s @ [(dev, lblk st t, view s dev (bl ! t))]" "bio.more s5 = bio.more s2"
      "\<forall>d c. d \<noteq> 0 \<longrightarrow> view s5 d c = (if d = dev \<and> c = lblk st t then view s dev (bl ! t) else view s d c)"
      "dirties s5 \<subseteq> dirties s" "dblk s5 dev = dblk s dev - {lblk st t}"
    using copy_done [OF Cons.prems(1) dev ne gb(2) [OF tn(2)] b(3) s2 h o] by blast
  have w1: "wrote [(dev, lblk st t, V t)] s s5"
    using wrote_one [OF q5 f5(1,2,4-6)] Cons.prems(6) by simp
  have m5: "bio.more s5 = bio.more s" using f5(3) m by simp
  have at1: "of_int (l_dev s) = dev" "l_start s = st" "lh_block s = bl" using Cons.prems(2) by (auto simp: log_at_def)
  have "write_log_loop (t # ts) s = write_log_loop ts s5"
    using b c more_fields [OF m(1)] at1 gh(4) by (simp add: lblk_def upd_data_def Let_def add.assoc)
  moreover have "\<exists>s'. write_log_loop ts s5 = Ok s' \<and> wrote (map (\<lambda>i. (dev, lblk st i, V i)) ts) s5 s' \<and> bio.more s' = bio.more s5"
  proof (rule Cons.IH [OF q5])
    show "log_at dev st bl s5" using Cons.prems(2) log_at_more [OF m5] by simp
    show "card (dirties s5) < NBUF" using f5(5) Cons.prems(3) card_mono [OF dirties_finite(1) f5(5)] by linarith
    show "set ts \<subseteq> {..<n}" using Cons.prems(4) by simp
    have hb: "bl ! u \<noteq> lblk st t" if "u \<in> set ts" for u
      using log_geo_home(2) [OF assms(2) _ tn(2)] Cons.prems(4) that by auto
    show "\<forall>t\<in>set ts. bl ! t \<in> dblk s5 dev" using f5(6) Cons.prems(5) hb by simp
    show "\<forall>t\<in>set ts. view s5 dev (bl ! t) = V t" using f5(4) dev hb Cons.prems(6) by simp
  qed
  ultimately show ?case using wrote_trans [OF w1] m5 by auto
qed

lemma install_trans_loop_wrote:
  assumes "qbio s" "log_geo dev st n bl" "log_at dev st bl s" "card (dirties s) < NBUF" "set ts \<subseteq> {..<n}" "distinct ts"
    "(\<forall>t\<in>set ts. bl ! t \<in> dblk s dev) \<or> card (dirties s) < NBUF - 1" "\<forall>t\<in>set ts. view s dev (lblk st t) = V t"
  shows "\<exists>s'. install_trans_loop ts s = Ok s' \<and> wrote (map (\<lambda>i. (dev, bl ! i, V i)) ts) s s' \<and> bio.more s' = bio.more s"
  using assms(1,3-8)
proof (induction ts arbitrary: s)
  case Nil
  then show ?case by (simp add: wrote_refl)
next
  case (Cons t ts)
  have dev: "dev \<noteq> 0" using assms(2) by (simp add: log_geo_def)
  have tn: "t < n" "t < LOGSIZE" using Cons.prems(4) assms(2) by (auto simp: log_geo_def)
  note gb = log_geo_blocks [OF assms(2)] and gh = log_geo_home [OF assms(2) tn(1)]
  have ne: "lblk st t \<noteq> bl ! t" using gh(2) [OF tn(2)] by simp
  obtain i s1 j s2 where b: "bread dev (lblk st t) s = Ok (i, s1)" "bread dev (bl ! t) s1 = Ok (j, s2)" "i \<noteq> j"
    and s2: "binv s2" "havedisk1 s2" "disk s2 = disk s" "dwrites s2 = dwrites s" "\<forall>d c. d \<noteq> 0 \<longrightarrow> view s2 d c = view s d c"
    and h: "held s s2 dev (lblk st t) i" "held s s2 dev (bl ! t) j"
    and o: "\<forall>k. k \<noteq> i \<longrightarrow> k \<noteq> j \<longrightarrow> bufs s2 k = bufs s k" and m: "bio.more s1 = bio.more s" "bio.more s2 = bio.more s"
    using two_breads [OF Cons.prems(1) dev ne gb(2) [OF tn(2)] gh(1) Cons.prems(3)] Cons.prems(6) by auto
  have o': "\<forall>k. k \<noteq> j \<longrightarrow> k \<noteq> i \<longrightarrow> bufs s2 k = bufs s k" using o by blast
  obtain s3 s4 s5 where c: "bwrite j (upd_buf j (\<lambda>b. b\<lparr>b_data := b_data (bufs s2 i)\<rparr>) s2) = Ok s3" "brelse i s3 = Ok s4" "brelse j s4 = Ok s5"
    and q5: "qbio s5" and f5: "disk s5 = (disk s)(dev := (disk s dev)(bl ! t := view s dev (lblk st t)))"
      "dwrites s5 = dwrites s @ [(dev, bl ! t, view s dev (lblk st t))]" "bio.more s5 = bio.more s2"
      "\<forall>d c. d \<noteq> 0 \<longrightarrow> view s5 d c = (if d = dev \<and> c = bl ! t then view s dev (lblk st t) else view s d c)"
      "dirties s5 \<subseteq> dirties s" "dblk s5 dev = dblk s dev - {bl ! t}"
    using copy_done [OF Cons.prems(1) dev ne [symmetric] gh(1) b(3) [symmetric] s2 h(2,1) o'] by blast
  have w1: "wrote [(dev, bl ! t, V t)] s s5"
    using wrote_one [OF q5 f5(1,2,4-6)] Cons.prems(7) by simp
  have m5: "bio.more s5 = bio.more s" using f5(3) m by simp
  have at1: "of_int (l_dev s) = dev" "l_start s = st" "lh_block s = bl" using Cons.prems(2) by (auto simp: log_at_def)
  have "install_trans_loop (t # ts) s = install_trans_loop ts s5"
    using b c more_fields [OF m(1)] at1 gh(4) by (simp add: lblk_def upd_data_def Let_def add.assoc)
  moreover have "\<exists>s'. install_trans_loop ts s5 = Ok s' \<and> wrote (map (\<lambda>i. (dev, bl ! i, V i)) ts) s5 s' \<and> bio.more s' = bio.more s5"
  proof (rule Cons.IH [OF q5])
    have cd: "card (dirties s5) \<le> card (dirties s)" using card_mono [OF dirties_finite(1) f5(5)] .
    show "log_at dev st bl s5" using Cons.prems(2) log_at_more [OF m5] by simp
    show "card (dirties s5) < NBUF" using cd Cons.prems(3) by linarith
    show "set ts \<subseteq> {..<n}" "distinct ts" using Cons.prems(4,5) by simp_all
    have hb: "bl ! u \<noteq> bl ! t" if "u \<in> set ts" for u
      using log_geo_home(5) [OF assms(2), of u t] Cons.prems(4,5) tn(1) that by auto
    show "(\<forall>t\<in>set ts. bl ! t \<in> dblk s5 dev) \<or> card (dirties s5) < NBUF - 1"
      using f5(6) Cons.prems(6) hb cd by auto
    have "lblk st u \<noteq> bl ! t" if "u \<in> set ts" for u
      using gh(2) [of u] Cons.prems(4) assms(2) that by (auto simp: log_geo_def)
    then show "\<forall>t\<in>set ts. view s5 dev (lblk st t) = V t" using f5(4) dev Cons.prems(7) by simp
  qed
  ultimately show ?case using wrote_trans [OF w1] m5 by auto
qed

lemma write_head_wrote:
  assumes q: "qbio s" and g: "log_geo dev st n bl" and a: "log_at dev st bl s" and room: "card (dirties s) < NBUF"
    and n: "nat (lh_n s) \<le> LOGSIZE"
  shows "\<exists>s'. write_head s = Ok s' \<and> wrote [(dev, of_int st, put_head (lh_n s) bl (view s dev (of_int st)))] s s' \<and> bio.more s' = bio.more s"
proof -
  have dev: "dev \<noteq> 0" using g by (simp add: log_geo_def)
  have at1: "of_int (l_dev s) = dev" "l_start s = st" "lh_block s = bl" using a by (auto simp: log_at_def)
  have lb: "length bl = LOGSIZE" using g by (simp add: log_geo_def)
  obtain i s1 s2 s3 where r: "bread dev (of_int st) s = Ok (i, s1)" "bio.more s1 = bio.more s"
    "bwrite i (upd_data i (put_head (lh_n s) bl) s1) = Ok s2" "brelse i s2 = Ok s3" "qbio s3"
    "disk s3 = (disk s)(dev := (disk s dev)(of_int st := put_head (lh_n s) bl (view s dev (of_int st))))"
    "dwrites s3 = dwrites s @ [(dev, of_int st, put_head (lh_n s) bl (view s dev (of_int st)))]" "bio.more s3 = bio.more s"
    "\<forall>d c. d \<noteq> 0 \<longrightarrow> view s3 d c = (if d = dev \<and> c = of_int st then put_head (lh_n s) bl (view s dev (of_int st)) else view s d c)"
    "dirties s3 \<subseteq> dirties s" "dblk s3 dev = dblk s dev - {of_int st}"
    using rewrite_one [OF q dev log_geo_blocks(1) [OF g], of "put_head (lh_n s) bl"] room by blast
  have "write_head s = Ok s3"
    using r more_fields [OF r(2)] at1 lb n by (simp add: write_head_def)
  then show ?thesis using wrote_one [OF r(5,6,7,9,10,11)] r(8) by blast
qed

lemma put_head_fold:
  assumes "4 + 4 * m \<le> length d" "m \<le> length bl"
  shows "length (fold (\<lambda>i d. put32 d (4 + 4 * i) (bl ! i)) [0..<m] d) = length d \<and>
    get32 (fold (\<lambda>i d. put32 d (4 + 4 * i) (bl ! i)) [0..<m] d) 0 = get32 d 0 \<and>
    (\<forall>i<m. get32 (fold (\<lambda>i d. put32 d (4 + 4 * i) (bl ! i)) [0..<m] d) (4 + 4 * i) = bl ! i)"
  using assms
proof (induction m)
  case (Suc m)
  let ?f = "fold (\<lambda>i d. put32 d (4 + 4 * i) (bl ! i)) [0..<m] d"
  have ih: "length ?f = length d" "get32 ?f 0 = get32 d 0" "\<forall>i<m. get32 ?f (4 + 4 * i) = bl ! i"
    using Suc by auto
  have "get32 (put32 ?f (4 + 4 * m) (bl ! m)) (4 + 4 * i) = bl ! i" if "i < Suc m" for i
  proof (cases "i = m")
    case True
    then show ?thesis using Suc.prems ih by simp
  next
    case False
    then have "i < m" using that by simp
    then show ?thesis using ih(3) by (subst get32_put32_other) auto
  qed
  moreover have "get32 (put32 ?f (4 + 4 * m) (bl ! m)) 0 = get32 d 0"
    using ih(2) by (subst get32_put32_other) auto
  ultimately show ?case using ih by simp
qed simp

lemma put_head_get:
  assumes "n \<le> LOGSIZE" "length bl = LOGSIZE" "length d = BSIZE"
  shows "length (put_head (int n) bl d) = BSIZE" "get32 (put_head (int n) bl d) 0 = of_nat n"
    "i < n \<Longrightarrow> get32 (put_head (int n) bl d) (4 + 4 * i) = bl ! i"
  using put_head_fold [of n "put32 d 0 (of_int (int n))" bl] assms by (simp_all add: put_head_def)

lemma sint_small: "n \<le> LOGSIZE \<Longrightarrow> sint (of_nat n :: u32) = int n"
  by (simp add: signed_of_nat signed_take_bit_int_eq_self)

lemma lh_upd [simp]:
  "qbio (s\<lparr>lh_n := k\<rparr>) = qbio s" "dirties (s\<lparr>lh_n := k\<rparr>) = dirties s" "dblk (s\<lparr>lh_n := k\<rparr>) d = dblk s d"
  "view (s\<lparr>lh_n := k\<rparr>) d c = view s d c" "log_at dv st bl (s\<lparr>lh_n := k\<rparr>) = log_at dv st bl s"
  by (simp_all add: qbio_def binv_def dirties_def dblk_def cached_def log_at_def bio_cong(2) [of "s\<lparr>lh_n := k\<rparr>" s])

lemma wrote_lh [simp]: "wrote ws (s\<lparr>lh_n := k\<rparr>) s' = wrote ws s s'"
proof -
  have "view (s\<lparr>lh_n := k\<rparr>) = view s" by (simp add: fun_eq_iff)
  then show ?thesis by (simp add: wrote_def)
qed

definition commit_writes :: "u32 \<Rightarrow> int \<Rightarrow> nat \<Rightarrow> u32 list \<Rightarrow> (nat \<Rightarrow> block) \<Rightarrow> block \<Rightarrow> (u32 \<times> u32 \<times> block) list" where
  "commit_writes dev st n bl V h =
     map (\<lambda>i. (dev, lblk st i, V i)) [0..<n] @ [(dev, of_int st, put_head (int n) bl h)] @
     map (\<lambda>i. (dev, bl ! i, V i)) [0..<n] @ [(dev, of_int st, put_head 0 bl (put_head (int n) bl h))]"

lemma wrote_dirties: "wrote ws s s' \<Longrightarrow> card (dirties s') \<le> card (dirties s)"
  by (simp add: wrote_def card_mono dirties_finite)

lemma wrote_dblk:
  "wrote ws s s' \<Longrightarrow> d \<noteq> 0 \<Longrightarrow> \<forall>w\<in>set ws. fst w = d \<Longrightarrow> dblk s' d = dblk s d - (\<lambda>w. fst (snd w)) ` set ws"
  by (simp add: wrote_def)

lemma commit_wrote:
  assumes q: "qbio s" and g: "log_geo dev st n bl" and a: "log_at dev st bl s" and n: "lh_n s = int n" "0 < n"
    and room: "card (dirties s) < NBUF" and pin: "\<forall>i<n. bl ! i \<in> dblk s dev"
    and V: "\<And>i. V i = view s dev (bl ! i)" and h: "h = view s dev (of_int st)"
  shows "\<exists>s'. commit s = Ok s' \<and> wrote (commit_writes dev st n bl V h) s s' \<and> lh_n s' = 0 \<and>
    log_at dev st bl s'"
proof -
  have dev: "dev \<noteq> 0" and nl: "n \<le> LOGSIZE" using g by (simp_all add: log_geo_def)
  have ts: "set [0..<n] \<subseteq> {..<n}" by auto
  let ?w1 = "map (\<lambda>i. (dev, lblk st i, V i)) [0..<n]"
  obtain s1 where s1: "write_log_loop [0..<n] s = Ok s1" "wrote ?w1 s s1" "bio.more s1 = bio.more s"
    using write_log_loop_wrote [OF q g a room ts, of V] pin V by auto
  have v1: "view s1 dev c = appl ?w1 (view s) dev c" for c using s1(2) dev by (simp add: wrote_def)
  have h1: "view s1 dev (of_int st) = h"
    unfolding v1 h by (rule appl_map_other) (use log_geo_blocks(3) [OF g] nl in simp)
  have q1: "qbio s1" "card (dirties s1) < NBUF" "log_at dev st bl s1" "lh_n s1 = int n"
    using s1 wrote_dirties [OF s1(2)] room a log_at_more [OF s1(3)] more_fields(6) [OF s1(3)] n by (auto simp: wrote_def)
  have n1: "nat (lh_n s1) \<le> LOGSIZE" using q1(4) nl by simp
  obtain s2 where s2: "write_head s1 = Ok s2" "wrote [(dev, of_int st, put_head (int n) bl h)] s1 s2" "bio.more s2 = bio.more s1"
    using write_head_wrote [OF q1(1) g q1(3,2) n1] h1 q1(4) by auto
  have inj: "inj_on (lblk st) (set [0..<n])"
    using log_geo_blocks(4) [OF g] nl by (auto intro!: inj_onI)
  have v2: "view s2 dev (lblk st i) = V i" if "i < n" for i
  proof -
    have "view s2 dev (lblk st i) = view s1 dev (lblk st i)"
      using s2(2) dev log_geo_blocks(3) [OF g, of i] that nl by (simp add: wrote_def)
    also have "\<dots> = V i" unfolding v1 appl_map [OF distinct_upt inj]
      using that inj by (simp add: the_inv_into_f_f)
    finally show ?thesis .
  qed
  have pin2: "bl ! i \<in> dblk s2 dev" if "i < n" for i
  proof -
    have "dblk s1 dev = dblk s dev - (\<lambda>w. fst (snd w)) ` set ?w1"
      by (rule wrote_dblk [OF s1(2) dev]) auto
    moreover have "dblk s2 dev = dblk s1 dev - {of_int st}" using s2(2) dev by (simp add: wrote_def)
    moreover have "bl ! i \<noteq> lblk st x" if "x < n" for x
      using log_geo_home(2) [OF g \<open>i < n\<close>, of x] nl that by linarith
    then have "bl ! i \<notin> lblk st ` set [0..<n]" by (simp add: image_iff)
    ultimately show ?thesis using pin that log_geo_home(3) [OF g that] unfolding written_blocks by simp
  qed
  have q2: "qbio s2" "card (dirties s2) < NBUF" "log_at dev st bl s2" "lh_n s2 = int n"
    using s2 wrote_dirties [OF s2(2)] q1 log_at_more [OF s2(3)] more_fields(6) [OF s2(3)] by (auto simp: wrote_def)
  let ?w3 = "map (\<lambda>i. (dev, bl ! i, V i)) [0..<n]"
  have pv: "(\<forall>t\<in>set [0..<n]. bl ! t \<in> dblk s2 dev) \<or> card (dirties s2) < NBUF - 1" "\<forall>t\<in>set [0..<n]. view s2 dev (lblk st t) = V t"
    using pin2 v2 by auto
  obtain s3 where s3: "install_trans_loop [0..<n] s2 = Ok s3" "wrote ?w3 s2 s3" "bio.more s3 = bio.more s2"
    using install_trans_loop_wrote [OF q2(1) g q2(3,2) ts distinct_upt pv] by blast
  have q3: "qbio s3" "card (dirties s3) < NBUF" "log_at dev st bl s3"
    using s3 wrote_dirties [OF s3(2)] q2 log_at_more [OF s3(3)] by (auto simp: wrote_def)
  have h3: "view s3 dev (of_int st) = put_head (int n) bl h"
  proof -
    have "view s3 dev (of_int st) = appl ?w3 (view s2) dev (of_int st)" using s3(2) dev by (simp add: wrote_def)
    also have "\<dots> = view s2 dev (of_int st)" by (rule appl_other) (use log_geo_home(3) [OF g] in auto)
    also have "\<dots> = put_head (int n) bl h" using s2(2) dev by (simp add: wrote_def)
    finally show ?thesis .
  qed
  obtain s4 where s4: "write_head (s3\<lparr>lh_n := 0\<rparr>) = Ok s4"
    "wrote [(dev, of_int st, put_head 0 bl (put_head (int n) bl h))] s3 s4" "bio.more s4 = bio.more (s3\<lparr>lh_n := 0\<rparr>)"
    using write_head_wrote [of "s3\<lparr>lh_n := 0\<rparr>" dev st n bl] q3 g h3 by auto
  have "commit s = Ok s4"
    using s1(1) s2(1) s3(1) s4(1) n q2(4) by (simp add: commit_def write_log_def install_trans_def)
  moreover have "wrote (commit_writes dev st n bl V h) s s4"
    using wrote_trans [OF s1(2) wrote_trans [OF s2(2) wrote_trans [OF s3(2) s4(2)]]] by (simp add: commit_writes_def)
  moreover have "lh_n s4 = 0" using more_fields(6) [OF s4(3)] by simp
  moreover have "log_at dev st bl s4" using log_at_more [OF s4(3)] q3(3) by simp
  ultimately show ?thesis by blast
qed

text \<open>Recovery: what \<^verbatim>\<open>recover_from_log\<close> makes of a disk with a cold cache.\<close>

lemma read_head_reads:
  assumes q: "qbio r" and clean: "dirties r = {}" and a: "log_at dev st bl0 r" and len: "length bl0 = LOGSIZE"
    and dev: "dev \<noteq> 0" "unat (of_int st :: u32) < FSSIZE" and D: "D = disk r dev (of_int st)" "sint (get32 D 0) = int n" "n \<le> LOGSIZE"
  shows "\<exists>s'. read_head r = Ok s' \<and> qbio s' \<and> dirties s' = {} \<and> disk s' = disk r \<and> lh_n s' = int n \<and>
    log_at dev st (map (\<lambda>i. get32 D (4 + 4 * i)) [0..<n] @ drop n bl0) s'"
proof -
  have at1: "of_int (l_dev r) = dev" "l_start r = st" "lh_block r = bl0" using a by (auto simp: log_at_def)
  have nd: "of_int st \<notin> dblk r dev" using clean by (auto simp: dblk_def dirties_def cached_def)
  have "card (dirties r) < NBUF" using clean by simp
  then obtain i s1 where t: "bread dev (of_int st) r = Ok (i, s1)" "took r dev (of_int st) i s1" and i1: "binv s1" and h: "held r s1 dev (of_int st) i"
    using one_bread [OF q dev] by blast
  note ts = took_simps [OF t(2)] and mf = more_fields [OF took_simps(5) [OF t(2)]]
  have d: "b_data (bufs s1 i) = D" using h quiet_view [OF q dev(1) nd] D by (simp add: held_def)
  let ?s = "s1\<lparr>lh_n := int n, lh_block := map (\<lambda>i. get32 D (4 + 4 * i)) [0..<n] @ drop n bl0\<rparr>"
  have bs: "binv ?s" using i1 by (subst bio_cong(1) [of ?s s1]) simp_all
  have b: "i < NBUF" "b_locked (bufs ?s i)" "b_valid (bufs ?s i)" "b_dev (bufs ?s i) \<noteq> 0" "b_refcnt (bufs ?s i) = 1"
    "b_dirty (bufs ?s i) \<or> b_data (bufs ?s i) = disk ?s (b_dev (bufs ?s i)) (b_blockno (bufs ?s i))"
    using h d D ts(2) dev(1) by (auto simp: held_def cached_def)
  obtain s2 where s2: "brelse i ?s = Ok s2" "binv s2" "bufs s2 = (bufs ?s)(i := (bufs ?s i)\<lparr>b_locked := False, b_refcnt := 0\<rparr>)"
    "disk s2 = disk ?s" "havedisk1 s2 = havedisk1 ?s" "bio.more s2 = bio.more ?s"
    using brelse_spec [OF bs b] by blast
  have "read_head r = Ok s2"
    using t(1) d at1 mf D len s2(1) by (simp add: read_head_def Let_def)
  moreover have "qbio s2"
  proof -
    have "\<not> b_locked (bufs s2 k) \<and> b_refcnt (bufs s2 k) = 0" if "k < NBUF" for k
      using that s2(3) ts(11) [of k] q by (cases "k = i") (auto simp: qbio_def)
    then show ?thesis using s2 ts(4) q by (simp add: qbio_def)
  qed
  moreover have "dirties s2 = {}"
  proof -
    have "\<not> b_dirty (bufs s2 k)" if "k < NBUF" for k
      using that s2(3) ts(11) [of k] ts(12) clean by (cases "k = i") (auto simp: dirties_def)
    then show ?thesis by (auto simp: dirties_def)
  qed
  moreover have "log_at dev st (map (\<lambda>i. get32 D (4 + 4 * i)) [0..<n] @ drop n bl0) s2" "lh_n s2 = int n"
    using more_fields [OF s2(6)] mf at1 by (simp_all add: log_at_def)
  ultimately show ?thesis using s2(4) ts(2) by auto
qed

lemma recover_effect:
  assumes q: "qbio r" and clean: "dirties r = {}" and a: "log_at dev st bl0 r" and len: "length bl0 = LOGSIZE"
    and D: "D = disk r dev (of_int st)" "length D = BSIZE" "sint (get32 D 0) = int n"
    and g: "log_geo dev st n bl" and bl: "\<forall>i<n. get32 D (4 + 4 * i) = bl ! i"
  shows "\<exists>r'. recover_from_log r = Ok r' \<and> get32 (disk r' dev (of_int st)) 0 = 0 \<and>
    (\<forall>b. b \<notin> log_area st \<longrightarrow> disk r' dev b = appl (map (\<lambda>i. (dev, bl ! i, disk r dev (lblk st i))) [0..<n]) (disk r) dev b)"
proof -
  have dev: "dev \<noteq> 0" and nl: "n \<le> LOGSIZE" and lb: "length bl = LOGSIZE" using g by (simp_all add: log_geo_def)
  let ?bl = "map (\<lambda>i. get32 D (4 + 4 * i)) [0..<n] @ drop n bl0"
  have e: "?bl ! i = bl ! i" if "i < n" for i using that bl by (simp add: nth_append)
  have "take n ?bl = take n bl" using bl nl lb by (intro nth_equalityI) auto
  then have g': "log_geo dev st n ?bl" using g e nl len by (auto simp: log_geo_def)
  obtain s1 where s1: "read_head r = Ok s1" "qbio s1" "dirties s1 = {}" "disk s1 = disk r" "lh_n s1 = int n" "log_at dev st ?bl s1"
    using read_head_reads [OF q clean a len dev log_geo_blocks(1) [OF g] D(1,3) nl] by blast
  have dbe: "dblk s1 dev = {}" using s1(3) by (auto simp: dblk_def dirties_def cached_def)
  have vd: "view s1 dev c = disk r dev c" for c using quiet_view [OF s1(2) dev, of c] dbe s1(4) by simp
  let ?w = "map (\<lambda>i. (dev, ?bl ! i, disk r dev (lblk st i))) [0..<n]"
  have c1: "card (dirties s1) < NBUF" "card (dirties s1) < NBUF - 1" using s1(3) by simp_all
  have ts: "set [0..<n] \<subseteq> {..<n}" and vt: "\<forall>t\<in>set [0..<n]. view s1 dev (lblk st t) = disk r dev (lblk st t)"
    using vd by auto
  obtain s2 where s2: "install_trans_loop [0..<n] s1 = Ok s2" "wrote ?w s1 s2" "bio.more s2 = bio.more s1"
    using install_trans_loop_wrote [OF s1(2) g' s1(6) c1(1) ts distinct_upt disjI2 [OF c1(2)] vt] by blast
  have q2: "qbio s2" "card (dirties s2) < NBUF" "log_at dev st ?bl s2"
    using s2 wrote_dirties [OF s2(2)] c1 s1(6) log_at_more [OF s2(3)] by (auto simp: wrote_def)
  have hv: "view s2 dev (of_int st) = D"
  proof -
    have "view s2 dev (of_int st) = appl ?w (view s1) dev (of_int st)" using s2(2) dev by (simp add: wrote_def)
    also have "\<dots> = view s1 dev (of_int st)" by (rule appl_other) (use log_geo_home(3) [OF g'] in auto)
    finally show ?thesis using vd D by simp
  qed
  obtain s3 where s3: "write_head (s2\<lparr>lh_n := 0\<rparr>) = Ok s3" "wrote [(dev, of_int st, put_head 0 ?bl D)] s2 s3"
    using write_head_wrote [of "s2\<lparr>lh_n := 0\<rparr>" dev st n ?bl] q2 g' hv by auto
  have d3: "disk s3 = appl [(dev, of_int st, put_head 0 ?bl D)] (appl ?w (disk r))"
    using s3(2) s2(2) s1(4) by (simp add: wrote_def)
  have "recover_from_log r = Ok s3"
    using s1(1,5) s2(1) s3(1) by (simp add: recover_from_log_def install_trans_def)
  moreover have "get32 (disk s3 dev (of_int st)) 0 = 0"
    using put_head_get(2) [of 0 ?bl D] len nl D(2) by (simp add: d3)
  moreover have "disk s3 dev b = appl (map (\<lambda>i. (dev, bl ! i, disk r dev (lblk st i))) [0..<n]) (disk r) dev b"
    if "b \<notin> log_area st" for b
  proof -
    have w: "?w = map (\<lambda>i. (dev, bl ! i, disk r dev (lblk st i))) [0..<n]"
      by (rule map_cong [OF refl]) (simp add: e del: nth_append)
    have "b \<noteq> of_int st" using that by (auto simp: log_area_def)
    then show ?thesis unfolding d3 w by simp
  qed
  ultimately show ?thesis by blast
qed

text \<open>The disk after a crash during the writes of a commit.\<close>

lemma crash_before:
  assumes g: "log_geo dev st n bl" and k: "k \<le> n" and D: "D = appl (take k (commit_writes dev st n bl V h)) d0"
  shows "D dev (of_int st) = d0 dev (of_int st)" "b \<notin> log_area st \<Longrightarrow> D dev b = d0 dev b"
proof -
  have t: "take k (commit_writes dev st n bl V h) = map (\<lambda>i. (dev, lblk st i, V i)) [0..<k]"
    using k by (simp add: commit_writes_def take_map min_def)
  have nl: "n \<le> LOGSIZE" using g by (simp add: log_geo_def)
  show "D dev (of_int st) = d0 dev (of_int st)"
    unfolding D t by (rule appl_map_other) (use log_geo_blocks(3) [OF g] k nl in simp)
  show "b \<notin> log_area st \<Longrightarrow> D dev b = d0 dev b"
    unfolding D t by (rule appl_map_other) (use k nl in \<open>auto simp: log_area_def\<close>)
qed

lemma crash_after:
  assumes g: "log_geo dev st n bl" and k: "n < k" and D: "D = appl (take k (commit_writes dev st n bl V h)) d0"
  shows "\<forall>i<n. D dev (lblk st i) = V i"
    and "b \<notin> log_area st \<Longrightarrow> b \<notin> set (take n bl) \<Longrightarrow> D dev b = d0 dev b"
    and "if k \<le> 2 * n + 1 then D dev (of_int st) = put_head (int n) bl h
         else D dev (of_int st) = put_head 0 bl (put_head (int n) bl h) \<and> (\<forall>i<n. D dev (bl ! i) = V i)"
proof -
  have nl: "n \<le> LOGSIZE" "length bl = LOGSIZE" using g by (simp_all add: log_geo_def)
  let ?w1 = "map (\<lambda>i. (dev, lblk st i, V i)) [0..<n]" and ?h1 = "(dev, of_int st, put_head (int n) bl h)"
  let ?w3 = "map (\<lambda>i. (dev, bl ! i, V i)) [0..<n]" and ?h2 = "(dev, of_int st, put_head 0 bl (put_head (int n) bl h))"
  let ?j = "k - n - 1"
  have t: "take k (commit_writes dev st n bl V h) = ?w1 @ [?h1] @ take ?j ?w3 @ take (?j - n) [?h2]"
    using k by (simp add: commit_writes_def take_Cons' diff_diff_left)
  let ?d1 = "appl ?w1 d0"
  define d2 where "d2 = appl [?h1] ?d1"
  define d3 where "d3 = appl (take ?j ?w3) d2"
  have D': "D = appl (take (?j - n) [?h2]) d3" unfolding D t d3_def d2_def by simp
  have inj: "inj_on (lblk st) (set [0..<n])"
    using log_geo_blocks(4) [OF g] nl by (auto intro!: inj_onI)
  have d1: "?d1 dev (lblk st i) = V i" if "i < n" for i
    unfolding appl_map [OF distinct_upt inj] using that inj by (simp add: the_inv_into_f_f)
  have w3: "take ?j ?w3 = map (\<lambda>i. (dev, bl ! i, V i)) [0..<min ?j n]"
    by (simp add: take_map take_upt min_def)
  have not3: "d3 dev b = d2 dev b" if "\<forall>i<n. bl ! i \<noteq> b" for b
    unfolding d3_def w3 by (rule appl_map_other) (use that in simp)
  have hD: "D dev b = d3 dev b" if "b \<noteq> of_int st" for b
    unfolding D' by (rule appl_other) (use that in \<open>auto dest: in_set_takeD\<close>)
  have nh: "lblk st i \<noteq> of_int st" "\<forall>j<n. bl ! j \<noteq> lblk st i" if "i < n" for i
    using log_geo_blocks(3) [OF g, of i] log_geo_home(2) [OF g, of _ i] nl that by auto
  show "\<forall>i<n. D dev (lblk st i) = V i"
    using hD nh not3 d1 by (simp add: d2_def)
  show "D dev b = d0 dev b" if b: "b \<notin> log_area st" "b \<notin> set (take n bl)"
  proof -
    have ni: "\<forall>i<n. bl ! i \<noteq> b" using b(2) nl by (metis in_set_conv_nth length_take min.absorb2 nth_take)
    have bh: "b \<noteq> of_int st" using b(1) by (auto simp: log_area_def)
    have "?d1 dev b = d0 dev b" by (rule appl_map_other) (use b nl in \<open>auto simp: log_area_def\<close>)
    then show ?thesis using hD [OF bh] not3 [OF ni] bh by (simp add: d2_def)
  qed
  have h3: "d3 dev (of_int st) = put_head (int n) bl h"
    using not3 [of "of_int st"] log_geo_home(3) [OF g] by (simp add: d2_def)
  show "if k \<le> 2 * n + 1 then D dev (of_int st) = put_head (int n) bl h
         else D dev (of_int st) = put_head 0 bl (put_head (int n) bl h) \<and> (\<forall>i<n. D dev (bl ! i) = V i)"
  proof (cases "k \<le> 2 * n + 1")
    case True
    then have "?j - n = 0" by simp
    then show ?thesis using True h3 by (simp add: D')
  next
    case False
    then have j: "take (?j - n) [?h2] = [?h2]" "take ?j ?w3 = ?w3" by (simp_all add: take_Cons')
    have injb: "inj_on (\<lambda>i. bl ! i) (set [0..<n])"
      using log_geo_home(5) [OF g] by (auto intro!: inj_onI)
    have "D dev (bl ! i) = V i" if "i < n" for i
    proof -
      have "d3 dev (bl ! i) = V i" unfolding d3_def j(2) appl_map [OF distinct_upt injb]
        using that injb by (simp add: the_inv_into_f_f)
      then show ?thesis using hD log_geo_home(3) [OF g that] by simp
    qed
    then show ?thesis using False by (simp add: D' j)
  qed
qed

text \<open>What the home blocks hold once a transaction has been installed.\<close>

definition committed :: "u32 \<Rightarrow> nat \<Rightarrow> u32 list \<Rightarrow> 'a bio_scheme \<Rightarrow> u32 \<Rightarrow> block" where
  "committed dev n bl s b = (if b \<in> set (take n bl) then view s dev b else disk s dev b)"

lemma install_appl:
  assumes g: "log_geo dev st n bl" and V: "\<forall>i<n. V i = view s dev (bl ! i)" and d: "\<And>b. b \<notin> set (take n bl) \<Longrightarrow> b \<notin> log_area st \<Longrightarrow> d dev b = disk s dev b"
    and b: "b \<notin> log_area st"
  shows "appl (map (\<lambda>i. (dev, bl ! i, V i)) [0..<n]) d dev b = committed dev n bl s b"
proof -
  have injb: "inj_on (\<lambda>i. bl ! i) (set [0..<n])"
    using log_geo_home(5) [OF g] by (auto intro!: inj_onI)
  have nl: "n \<le> length bl" using g by (simp add: log_geo_def)
  have im: "(!) bl ` set [0..<n] = set (take n bl)" using nth_image [OF nl] by (simp add: atLeast0LessThan)
  show ?thesis
  proof (cases "b \<in> set (take n bl)")
    case True
    then obtain i where i: "i < n" "b = bl ! i" using nl by (auto simp: in_set_conv_nth)
    then have "the_inv_into (set [0..<n]) (\<lambda>i. bl ! i) b = i" using injb by (simp add: the_inv_into_f_f)
    then show ?thesis using True i V unfolding appl_map [OF distinct_upt injb] im by (simp add: committed_def)
  next
    case False
    then show ?thesis using d [OF False b] unfolding appl_map [OF distinct_upt injb] im by (simp add: committed_def)
  qed
qed

definition crashed :: "u32 \<Rightarrow> int \<Rightarrow> (u32 \<Rightarrow> u32 \<Rightarrow> block) \<Rightarrow> 'a logst_scheme \<Rightarrow> bool" where
  "crashed dev st D r \<longleftrightarrow> qbio r \<and> dirties r = {} \<and> of_int (l_dev r) = dev \<and> l_start r = st \<and>
     length (lh_block r) = LOGSIZE \<and> disk r = D"

lemma recover_after_crash:
  assumes g: "log_geo dev st n bl" and V: "\<And>i. V i = view s dev (bl ! i)"
    and h: "length h = BSIZE" "h = disk s dev (of_int st)" "get32 h 0 = 0"
    and r: "crashed dev st (appl (take k (commit_writes dev st n bl V h)) (disk s)) r"
  shows "\<exists>r'. recover_from_log r = Ok r' \<and> get32 (disk r' dev (of_int st)) 0 = 0 \<and>
    (\<forall>b. b \<notin> log_area st \<longrightarrow> disk r' dev b = (if k \<le> n then disk s dev b else committed dev n bl s b))"
proof -
  let ?D = "appl (take k (commit_writes dev st n bl V h)) (disk s)"
  have r': "qbio r" "dirties r = {}" "log_at dev st (lh_block r) r" "length (lh_block r) = LOGSIZE" "disk r = ?D"
    using r by (auto simp: crashed_def log_at_def)
  have nl: "n \<le> LOGSIZE" "length bl = LOGSIZE" using g by (simp_all add: log_geo_def)
  have g0: "log_geo dev st 0 bl" using g by (simp add: log_geo_def)
  show ?thesis
  proof (cases "k \<le> n")
    case True
    have cb: "?D dev (of_int st) = disk s dev (of_int st)" "\<And>b. b \<notin> log_area st \<Longrightarrow> ?D dev b = disk s dev b"
      using crash_before [OF g True refl] by blast+
    have H: "?D dev (of_int st) = h" using cb(1) h by simp
    obtain r2 where r2: "recover_from_log r = Ok r2" "get32 (disk r2 dev (of_int st)) 0 = 0"
      "\<forall>b. b \<notin> log_area st \<longrightarrow> disk r2 dev b = disk r dev b"
      using recover_effect [OF r'(1-4) refl, of 0 bl] H h g0 r'(5) by auto
    then show ?thesis using True r'(5) cb(2) by auto
  next
    case False
    then have kn: "n < k" by simp
    have ca: "\<forall>i<n. ?D dev (lblk st i) = V i"
      "\<And>b. b \<notin> log_area st \<Longrightarrow> b \<notin> set (take n bl) \<Longrightarrow> ?D dev b = disk s dev b"
      "if k \<le> 2 * n + 1 then ?D dev (of_int st) = put_head (int n) bl h
         else ?D dev (of_int st) = put_head 0 bl (put_head (int n) bl h) \<and> (\<forall>i<n. ?D dev (bl ! i) = V i)"
      using crash_after [OF g kn refl] by blast+
    show ?thesis
    proof (cases "k \<le> 2 * n + 1")
      case mid: True
      then have H: "disk r dev (of_int st) = put_head (int n) bl h" using ca(3) r'(5) by simp
      have hd: "length (put_head (int n) bl h) = BSIZE" "sint (get32 (put_head (int n) bl h) 0) = int n"
        "\<forall>i<n. get32 (put_head (int n) bl h) (4 + 4 * i) = bl ! i"
        using put_head_get [OF nl h(1)] sint_small [OF nl(1)] by simp_all
      obtain r2 where r2: "recover_from_log r = Ok r2" "get32 (disk r2 dev (of_int st)) 0 = 0"
        "\<forall>b. b \<notin> log_area st \<longrightarrow> disk r2 dev b = appl (map (\<lambda>i. (dev, bl ! i, disk r dev (lblk st i))) [0..<n]) (disk r) dev b"
        using recover_effect [OF r'(1-4) H [symmetric] hd(1,2) g hd(3)] by blast
      have "\<forall>i<n. disk r dev (lblk st i) = view s dev (bl ! i)" using ca(1) r'(5) V by simp
      from install_appl [OF g this, of "disk r"] r2(3) ca(2) r'(5)
      have "\<forall>b. b \<notin> log_area st \<longrightarrow> disk r2 dev b = committed dev n bl s b" by auto
      then show ?thesis using r2 False by auto
    next
      case late: False
      let ?h2 = "put_head 0 bl (put_head (int n) bl h)"
      have H: "disk r dev (of_int st) = ?h2" and inst: "\<forall>i<n. disk r dev (bl ! i) = V i" using ca(3) late r'(5) by auto
      have lh: "length ?h2 = BSIZE" "sint (get32 ?h2 0) = int 0"
        using put_head_get(1) [OF nl h(1)] put_head_get(1,2) [of 0 bl "put_head (int n) bl h"] nl(2) by simp_all
      obtain r2 where r2: "recover_from_log r = Ok r2" "get32 (disk r2 dev (of_int st)) 0 = 0"
        "\<forall>b. b \<notin> log_area st \<longrightarrow> disk r2 dev b = disk r dev b"
        using recover_effect [OF r'(1-4) H [symmetric] lh g0] by auto
      have "disk r dev b = committed dev n bl s b" if "b \<notin> log_area st" for b
      proof (cases "b \<in> set (take n bl)")
        case True
        then obtain i where "i < n" "b = bl ! i" using nl by (auto simp: in_set_conv_nth)
        then show ?thesis using True inst V by (simp add: committed_def)
      next
        case nb: False
        then show ?thesis using ca(2) [OF that nb] r'(5) by (simp add: committed_def)
      qed
      then show ?thesis using r2 False by auto
    qed
  qed
qed

section \<open>Properties\<close>

text \<open>C1: a commit is atomic with respect to crashes. The commit of the transaction in \<open>s\<close>
  succeeds and makes the writes \<open>ws\<close>; whatever prefix of them reaches the disk before a
  crash, \<^verbatim>\<open>recover_from_log\<close> on the next boot succeeds, empties the log, and leaves every
  block outside the log either as it was before the transaction (crash before the header
  write) or with every update of the transaction (crash after it).\<close>

theorem commit_atomic:
  assumes "qbio s" "log_geo dev st n bl" "of_int (l_dev s) = dev" "l_start s = st" "lh_block s = bl"
    and "lh_n s = int n" "0 < n" "card (dirties s) < NBUF" "\<forall>i<n. bl ! i \<in> dblk s dev"
    and "of_int st \<notin> dblk s dev" "length (disk s dev (of_int st)) = BSIZE" "get32 (disk s dev (of_int st)) 0 = 0"
  shows "\<exists>s' ws. commit s = Ok s' \<and> dwrites s' = dwrites s @ ws \<and> lh_n s' = 0 \<and>
    (\<forall>b. b \<notin> log_area st \<longrightarrow> disk s' dev b = committed dev n bl s b) \<and>
    (\<forall>k (r :: 'b logst_scheme). crashed dev st (appl (take k ws) (disk s)) r \<longrightarrow>
       (\<exists>r'. recover_from_log r = Ok r' \<and> get32 (disk r' dev (of_int st)) 0 = 0 \<and>
          (\<forall>b. b \<notin> log_area st \<longrightarrow>
             disk r' dev b = (if k \<le> n then disk s dev b else committed dev n bl s b))))"
proof -
  let ?V = "\<lambda>i. view s dev (bl ! i)" and ?h = "disk s dev (of_int st)"
  let ?ws = "commit_writes dev st n bl ?V ?h"
  have a: "log_at dev st bl s" using assms(3-5) by (simp add: log_at_def)
  have dev: "dev \<noteq> 0" using assms(2) by (simp add: log_geo_def)
  have hv: "?h = view s dev (of_int st)" using quiet_view [OF assms(1) dev assms(10)] by simp
  obtain s' where s': "commit s = Ok s'" "wrote ?ws s s'" "lh_n s' = 0"
    using commit_wrote [OF assms(1,2) a assms(6-9) refl hv] by blast
  have "disk s' dev b = committed dev n bl s b" if "b \<notin> log_area st" for b
  proof -
    have w: "take (Suc (2 * n) + 1) ?ws = ?ws" by (rule take_all) (simp add: commit_writes_def)
    have D: "disk s' = appl (take (Suc (2 * n) + 1) ?ws) (disk s)" using s'(2) unfolding w by (simp add: wrote_def)
    have k: "n < Suc (2 * n) + 1" by simp
    note ca = crash_after [OF assms(2) k D]
    show ?thesis
    proof (cases "b \<in> set (take n bl)")
      case True
      then obtain i where "i < n" "b = bl ! i" using assms(2) by (auto simp: in_set_conv_nth log_geo_def)
      then show ?thesis using True ca(3) by (simp add: committed_def)
    next
      case False
      then show ?thesis using ca(2) [OF that False] by (simp add: committed_def)
    qed
  qed
  moreover have "\<exists>r'. recover_from_log r = Ok r' \<and> get32 (disk r' dev (of_int st)) 0 = 0 \<and>
          (\<forall>b. b \<notin> log_area st \<longrightarrow> disk r' dev b = (if k \<le> n then disk s dev b else committed dev n bl s b))"
    if "crashed dev st (appl (take k ?ws) (disk s)) r" for k and r :: "'b logst_scheme"
    by (rule recover_after_crash [OF assms(2) refl assms(11) refl assms(12) that])
  moreover have "dwrites s' = dwrites s @ ?ws" using s'(2) by (simp add: wrote_def)
  ultimately show ?thesis using s' by blast
qed

definition zero_buf :: buf where
  "zero_buf = \<lparr>b_valid = False, b_dirty = False, b_dev = 0, b_blockno = 0, b_locked = False, b_refcnt = 0, b_data = replicate 512 0\<rparr>"

definition demo_log :: logst where
  "demo_log = \<lparr>bufs = (\<lambda>_. zero_buf)(0 := zero_buf\<lparr>b_valid := True, b_dirty := True, b_dev := 1, b_blockno := 40, b_data := replicate 512 7\<rparr>),
     lru = [0..<30], disk = (\<lambda>_ _. replicate 512 0), havedisk1 = True, dwrites = [], woken = [],
     l_start = 2, l_size = 30, l_outstanding = 0, l_committing = True, l_dev = 1, lh_n = 1, lh_block = 40 # replicate 29 0\<rparr>"

lemma demo_log_binv: "binv demo_log"
  by (auto simp: binv_def demo_log_def zero_buf_def)

lemma demo_log_qbio: "qbio demo_log"
  using demo_log_binv by (auto simp: qbio_def demo_log_def zero_buf_def)

lemma demo_log_dirties: "dirties demo_log = {0}"
  by (auto simp: dirties_def demo_log_def zero_buf_def)

lemma demo_log_dblk: "dblk demo_log 1 = {40}"
  by (auto simp: dblk_def cached_def demo_log_def zero_buf_def)

lemma demo_log_geo: "log_geo 1 2 1 (40 # replicate 29 0)"
proof -
  have "lblk 2 i \<noteq> 40" if "i < 30" for i
  proof
    assume "lblk 2 i = 40"
    then have "unat (lblk 2 i) = 40" by simp
    moreover have "unat (lblk 2 i) = nat (2 + int i + 1)"
      unfolding lblk_def using that by (intro unat_of_int_small) auto
    ultimately show False using that by simp
  qed
  then show ?thesis by (auto simp: log_geo_def log_area_def)
qed

lemma demo_log_view: "view demo_log 1 40 = replicate 512 7"
proof -
  have "cached demo_log 1 40 0" by (simp add: cached_def demo_log_def zero_buf_def)
  from view_cached [OF demo_log_binv _ this] show ?thesis by (simp add: demo_log_def zero_buf_def)
qed

theorem commit_atomic_witness:
  "\<exists>s' ws. commit demo_log = Ok s' \<and> disk s' 1 40 = replicate 512 7 \<and>
    (\<forall>k (r :: logst). crashed 1 2 (appl (take k ws) (disk demo_log)) r \<longrightarrow>
       (\<exists>r'. recover_from_log r = Ok r' \<and> disk r' 1 40 = (if k \<le> 1 then replicate 512 0 else replicate 512 7)))"
proof -
  have na: "40 \<notin> log_area 2" using demo_log_geo by (simp add: log_geo_def)
  have c: "committed 1 1 (40 # replicate 29 0) demo_log 40 = replicate 512 7"
    using demo_log_view by (simp add: committed_def)
  have d: "disk demo_log 1 b = replicate 512 0" for b by (simp add: demo_log_def)
  have pin: "\<forall>i<1. (40 # replicate 29 0) ! i \<in> dblk demo_log 1" by (simp add: demo_log_dblk)
  have "\<exists>s' ws. commit demo_log = Ok s' \<and> dwrites s' = dwrites demo_log @ ws \<and> lh_n s' = 0 \<and>
    (\<forall>b. b \<notin> log_area 2 \<longrightarrow> disk s' 1 b = committed 1 1 (40 # replicate 29 0) demo_log b) \<and>
    (\<forall>k (r :: logst). crashed 1 2 (appl (take k ws) (disk demo_log)) r \<longrightarrow>
       (\<exists>r'. recover_from_log r = Ok r' \<and> get32 (disk r' 1 (of_int 2)) 0 = 0 \<and>
          (\<forall>b. b \<notin> log_area 2 \<longrightarrow>
             disk r' 1 b = (if k \<le> 1 then disk demo_log 1 b else committed 1 1 (40 # replicate 29 0) demo_log b))))"
    by (rule commit_atomic [OF demo_log_qbio demo_log_geo _ _ _ _ _ _ pin])
       (simp_all add: demo_log_dirties demo_log_dblk d get32_def, simp_all add: demo_log_def)
  then show ?thesis using na c d by metis
qed

section \<open>Space in the log\<close>

text \<open>Runs of the log by the system calls in progress: \<open>us\<close> lists, for each of them, how many
  blocks it has passed to \<^verbatim>\<open>log_write\<close>, at most \<open>MAXOPBLOCKS\<close>.\<close>

inductive log_ops :: "nat list \<Rightarrow> 'a logst_scheme \<Rightarrow> bool" where
  start: "lh_n s = 0 \<Longrightarrow> l_outstanding s = 0 \<Longrightarrow> \<not> l_committing s \<Longrightarrow> length (lh_block s) = LOGSIZE \<Longrightarrow> log_ops [] s"
| op_begin: "log_ops us s \<Longrightarrow> begin_op s = Ok s' \<Longrightarrow> log_ops (0 # us) s'"
| op_write: "log_ops us s \<Longrightarrow> i < length us \<Longrightarrow> us ! i < MAXOPBLOCKS \<Longrightarrow> log_write b s = Ok s' \<Longrightarrow>
    log_ops (us[i := Suc (us ! i)]) s'"
| op_end: "log_ops (us @ u # vs) s \<Longrightarrow> end_op s = Ok s' \<Longrightarrow> log_ops (us @ vs) s'"

lemma bread_more: "bread dev b s = Ok (i, s') \<Longrightarrow> bio.more s' = bio.more s"
  by (auto simp: bread_def bget_def acquiresleep_buf_def iderw_def Let_def outcome_simps split: option.splits if_splits)

lemma bwrite_more: "bwrite i s = Ok s' \<Longrightarrow> bio.more s' = bio.more s"
  by (auto simp: bwrite_def iderw_def Let_def split: if_splits)

lemma brelse_more: "brelse i s = Ok s' \<Longrightarrow> bio.more s' = bio.more s"
  by (auto simp: brelse_def releasesleep_buf_def Let_def split: if_splits)

lemma write_head_more: "write_head s = Ok s' \<Longrightarrow> bio.more s' = bio.more s"
  by (auto simp: write_head_def outcome_simps upd_data_def dest!: bread_more bwrite_more brelse_more split: if_splits prod.splits)

lemma write_log_loop_more: "write_log_loop ts s = Ok s' \<Longrightarrow> bio.more s' = bio.more s"
  by (induction ts arbitrary: s)
     (auto simp: outcome_simps upd_data_def Let_def dest!: bread_more bwrite_more brelse_more split: if_splits prod.splits)

lemma install_trans_loop_more: "install_trans_loop ts s = Ok s' \<Longrightarrow> bio.more s' = bio.more s"
  by (induction ts arbitrary: s)
     (auto simp: outcome_simps upd_data_def Let_def dest!: bread_more bwrite_more brelse_more split: if_splits prod.splits)

lemma commit_fields:
  assumes "commit s = Ok s'"
  shows "lh_n s' = (if lh_n s > 0 then 0 else lh_n s)" "l_outstanding s' = l_outstanding s" "l_committing s' = l_committing s"
    "lh_block s' = lh_block s" "l_size s' = l_size s"
proof -
  have "lh_n s' = (if lh_n s > 0 then 0 else lh_n s) \<and> l_outstanding s' = l_outstanding s \<and> l_committing s' = l_committing s \<and>
    lh_block s' = lh_block s \<and> l_size s' = l_size s"
  proof (cases "lh_n s > 0")
    case True
    then obtain s1 s2 s3 where "write_log s = Ok s1" "write_head s1 = Ok s2" "install_trans s2 = Ok s3" "write_head (s3\<lparr>lh_n := 0\<rparr>) = Ok s'"
      using assms by (auto simp: commit_def outcome_simps)
    then have "bio.more s3 = bio.more s" "bio.more s' = bio.more (s3\<lparr>lh_n := 0\<rparr>)"
      using write_log_loop_more write_head_more install_trans_loop_more unfolding write_log_def install_trans_def by metis+
    then show ?thesis using True more_fields [of s3 s] more_fields [of s' "s3\<lparr>lh_n := 0\<rparr>"] by simp
  qed (use assms in \<open>simp add: commit_def\<close>)
  then show "lh_n s' = (if lh_n s > 0 then 0 else lh_n s)" "l_outstanding s' = l_outstanding s" "l_committing s' = l_committing s"
    "lh_block s' = lh_block s" "l_size s' = l_size s" by blast+
qed

lemma log_ops_inv:
  assumes "log_ops us s"
  shows "l_outstanding s = int (length us) \<and> 0 \<le> lh_n s \<and> \<not> l_committing s \<and> (\<forall>u\<in>set us. u \<le> MAXOPBLOCKS) \<and>
    lh_n s + int (\<Sum>u\<leftarrow>us. MAXOPBLOCKS - u) \<le> int LOGSIZE \<and> length (lh_block s) = LOGSIZE"
  using assms
proof (induction rule: log_ops.induct)
  case (op_begin us s s')
  have le: "(\<Sum>u\<leftarrow>us. MAXOPBLOCKS - u) \<le> length us * MAXOPBLOCKS" by (induction us) auto
  have s': "s' = s\<lparr>l_outstanding := l_outstanding s + 1\<rparr>" "lh_n s + (l_outstanding s + 1) * int MAXOPBLOCKS \<le> int LOGSIZE"
    using op_begin(2) by (auto simp: begin_op_def split: if_splits)
  then show ?case using op_begin(3) le by auto
next
  case (op_write us s i b s')
  have "(\<Sum>u\<leftarrow>us[i := Suc (us ! i)]. MAXOPBLOCKS - u) + 1 = (\<Sum>u\<leftarrow>us. MAXOPBLOCKS - u)"
    using op_write(2,3)
  proof (induction us arbitrary: i)
    case (Cons u us)
    then show ?case by (cases i) auto
  qed simp
  moreover have "lh_n s' \<le> lh_n s + 1" "lh_n s \<le> lh_n s'" "l_outstanding s' = l_outstanding s" "l_committing s' = l_committing s"
    "length (lh_block s') = length (lh_block s)"
    using op_write(4) by (auto simp: log_write_def Let_def upd_buf_def split: if_splits)
  moreover have "\<forall>u\<in>set (us[i := Suc (us ! i)]). u \<le> MAXOPBLOCKS"
    using op_write(3,5) set_update_subset_insert [of us i "Suc (us ! i)"] by (auto simp: Suc_le_eq)
  ultimately show ?case using op_write(5) by auto
next
  case (op_end us u vs s s')
  show ?case
  proof (cases "us @ vs = []")
    case True
    then have "l_outstanding s = 1" "\<not> l_committing s" using op_end(3) by auto
    then obtain s1 where "commit (s\<lparr>l_outstanding := 0, l_committing := True\<rparr>) = Ok s1" "s' = s1\<lparr>l_committing := False, woken := woken s1 @ [ChLog]\<rparr>"
      using op_end(2) by (auto simp: end_op_def Let_def outcome_simps)
    then show ?thesis using commit_fields [of "s\<lparr>l_outstanding := 0, l_committing := True\<rparr>" s1] op_end(3) True by auto
  next
    case False
    then have "l_outstanding s - 1 \<noteq> 0" using op_end(3) by (cases us; cases vs) auto
    then have "s' = s\<lparr>l_outstanding := l_outstanding s - 1, woken := woken s @ [ChLog]\<rparr>"
      using op_end(2,3) by (auto simp: end_op_def Let_def split: if_splits)
    then show ?thesis using op_end(3) by auto
  qed
qed auto

text \<open>C31: the reservation of \<^verbatim>\<open>begin_op\<close> keeps the log from overflowing its header: in every run in
  which each system call passes at most \<open>MAXOPBLOCKS\<close> blocks to \<^verbatim>\<open>log_write\<close>, a call that still has
  blocks left finds room, provided that the on-disk log has \<open>LOGSIZE\<close> blocks besides its header.\<close>

theorem log_write_has_room:
  assumes "log_ops us s" "i < length us" "us ! i < MAXOPBLOCKS" "l_size s > int LOGSIZE"
  shows "\<exists>s'. log_write b s = Ok s' \<and> lh_n s' \<le> int LOGSIZE"
proof -
  note inv = log_ops_inv [OF assms(1)]
  have "us ! i \<in> set us" using assms(2) by simp
  then have "MAXOPBLOCKS - us ! i \<le> (\<Sum>u\<leftarrow>us. MAXOPBLOCKS - u)"
    using member_le_sum_list [of "MAXOPBLOCKS - us ! i" "map (\<lambda>u. MAXOPBLOCKS - u) us"] by auto
  then have "lh_n s < int LOGSIZE" "l_outstanding s \<ge> 1" using inv assms(2,3) by auto
  then show ?thesis using assms(4) by (auto simp: log_write_def Let_def upd_buf_def)
qed

theorem log_write_has_room_witness:
  "\<exists>s' b. log_write b (demo_log\<lparr>l_size := 31, lh_n := 0, l_committing := False, l_outstanding := 1\<rparr>) = Ok s'"
proof -
  let ?s = "demo_log\<lparr>l_size := 31, lh_n := 0, l_committing := False\<rparr>"
  have "log_ops [] ?s" by (rule log_ops.start) (simp_all add: demo_log_def)
  then have "log_ops [0] (?s\<lparr>l_outstanding := 1\<rparr>)"
    by (rule log_ops.op_begin) (simp add: begin_op_def demo_log_def)
  from log_write_has_room [OF this, of 0 0] show ?thesis by auto
qed

text \<open>Filling the log with distinct blocks.\<close>

lemma absorb_none: "(\<forall>j. i \<le> j \<and> j < i + k \<longrightarrow> bl ! j \<noteq> b) \<Longrightarrow> absorb b bl k i = i + k"
proof (induction k arbitrary: i)
  case (Suc k)
  have "absorb b bl k (Suc i) = Suc i + k" using Suc.prems by (intro Suc.IH) auto
  then show ?case using Suc.prems by auto
qed simp

definition fresh_log :: logst where
  "fresh_log = demo_log\<lparr>bufs := \<lambda>i. zero_buf\<lparr>b_valid := True, b_dev := 1, b_blockno := of_nat (100 + i)\<rparr>,
     lh_n := 0, l_committing := False\<rparr>"

lemma unat_of_nat32: "n < 4294967296 \<Longrightarrow> unat (of_nat n :: u32) = n"
  by (simp add: unsigned_of_nat take_bit_nat_eq_self)

lemma blockno_inj:
  assumes "i < 30" "j < 30" "(of_nat (100 + i) :: u32) = of_nat (100 + j)"
  shows "i = j"
proof -
  have "unat (of_nat (100 + i) :: u32) = 100 + i" "unat (of_nat (100 + j) :: u32) = 100 + j"
    using assms(1,2) by (intro unat_of_nat32; linarith)+
  then show ?thesis unfolding assms(3) by linarith
qed

lemma some_room: "length us = 3 \<Longrightarrow> sum_list us < 30 \<Longrightarrow> \<exists>i<length us. us ! i < (10 :: nat)"
proof (rule ccontr)
  assume a: "length us = 3" "sum_list us < 30" "\<not> (\<exists>i<length us. us ! i < 10)"
  then obtain x y z where "us = [x, y, z]" by (auto simp: length_Suc_conv numeral_3_eq_3)
  moreover have "\<not> us ! 0 < 10" "\<not> us ! 1 < 10" "\<not> us ! 2 < 10" using a(1,3) by auto
  ultimately show False using a(2) by simp
qed

lemma fill_log:
  assumes "k \<le> 29"
  shows "\<exists>us (s :: logst). log_ops us s \<and> length us = 3 \<and> sum_list us = k \<and> lh_n s = int k \<and> l_size s = 30 \<and>
    length (lh_block s) = 30 \<and> l_outstanding s = 3 \<and>
    (\<forall>i<k. lh_block s ! i = of_nat (100 + i)) \<and> (\<forall>i. b_blockno (bufs s i) = of_nat (100 + i))"
  using assms
proof (induction k)
  case 0
  let ?s = "\<lambda>n. fresh_log\<lparr>l_outstanding := n\<rparr>"
  have "log_ops [] (?s 0)" by (rule log_ops.start) (simp_all add: fresh_log_def demo_log_def)
  then have "log_ops [0] (?s 1)" by (rule log_ops.op_begin) (simp add: begin_op_def fresh_log_def demo_log_def)
  then have "log_ops [0, 0] (?s 2)" by (rule log_ops.op_begin) (simp add: begin_op_def fresh_log_def demo_log_def)
  then have "log_ops [0, 0, 0] (?s 3)" by (rule log_ops.op_begin) (simp add: begin_op_def fresh_log_def demo_log_def)
  then show ?case by (intro exI [of _ "[0, 0, 0]"] exI [of _ "?s 3"]) (simp add: fresh_log_def demo_log_def)
next
  case (Suc k)
  then obtain us and s :: logst where s: "log_ops us s" "length us = 3" "sum_list us = k" "lh_n s = int k" "l_size s = 30"
    "length (lh_block s) = 30" "l_outstanding s = 3"
    "\<forall>i<k. lh_block s ! i = of_nat (100 + i)" "\<forall>i. b_blockno (bufs s i) = of_nat (100 + i)"
    using Suc_leD [OF Suc.prems] by blast
  obtain i where i: "i < length us" "us ! i < 10" using some_room [OF s(2)] s(3) Suc.prems by auto
  have "lh_block s ! j \<noteq> of_nat (100 + k)" if "j < k" for j
    using s(8) that blockno_inj [of j k] Suc.prems by auto
  then have ab: "absorb (of_nat (100 + k)) (lh_block s) k 0 = k" using absorb_none [of 0 k] by simp
  let ?s = "upd_buf k (\<lambda>x. x\<lparr>b_dirty := True\<rparr>) (s\<lparr>lh_block := (lh_block s)[k := of_nat (100 + k)], lh_n := lh_n s + 1\<rparr>)"
  have w: "log_write k s = Ok ?s" using s(4,5,7,9) ab Suc.prems by (simp add: log_write_def Let_def)
  have "log_ops (us[i := Suc (us ! i)]) ?s" by (rule log_ops.op_write [OF s(1) i w])
  moreover have "sum_list (us[i := Suc (us ! i)]) = Suc k"
    using s(3) i(1) by (simp add: sum_list_update)
  ultimately show ?case using s Suc.prems
    by (intro exI [of _ "us[i := Suc (us ! i)]"] exI [of _ ?s]) (auto simp: upd_buf_def nth_list_update less_Suc_eq)
qed

text \<open>C32: with the log size that \<^verbatim>\<open>mkfs\<close> writes, \<open>LOGSIZE\<close> blocks including the header, the
  reservation is one block short: three system calls that \<^verbatim>\<open>begin_op\<close> admits together, each within
  its \<open>MAXOPBLOCKS\<close>, reach a state in which any further \<^verbatim>\<open>log_write\<close> panics although one of them still
  has a block left.\<close>

theorem log_reservation_short:
  "\<exists>us (s :: logst) i. log_ops us s \<and> length us = 3 \<and> i < length us \<and> us ! i < MAXOPBLOCKS \<and>
     l_size s = int LOGSIZE \<and> (\<forall>b. log_write b s = Panic ''too big a transaction'')"
proof -
  obtain us and s :: logst where s: "log_ops us s" "length us = 3" "sum_list us = 29" "lh_n s = 29" "l_size s = 30"
    using fill_log [of 29] by auto
  obtain i where "i < length us" "us ! i < 10" using some_room [OF s(2)] s(3) by auto
  then show ?thesis using s by (intro exI [of _ us] exI [of _ s] exI [of _ i]) (auto simp: log_write_def)
qed

end
