(* ===== verification/Fs.thy ===== *)
theory Fs
  imports Log
begin

text \<open>
  The file system, \<^verbatim>\<open>fs.c\<close>: the block bitmap, inodes and their cache, file contents,
  directories and path names. An in-memory inode is its index in \<^verbatim>\<open>icache.inode\<close>, a null
  pointer is \<open>None\<close>. On-disk structures are read from and written to the bytes of a block. The
  bytes that \<^verbatim>\<open>readi\<close> copies out are part of its result and those that \<^verbatim>\<open>writei\<close> copies in
  are an argument, so that the caller says which memory they belong to. Device files go
  through the table \<^verbatim>\<open>devsw\<close>, an argument of the operations that use it. Names are lists
  of bytes without the terminating NUL.
\<close>

section \<open>State\<close>

abbreviation (input) NDIRECT :: nat where "NDIRECT \<equiv> 12"
abbreviation (input) NINDIRECT :: nat where "NINDIRECT \<equiv> 128"
abbreviation (input) MAXFILE :: nat where "MAXFILE \<equiv> 140"
abbreviation (input) IPB :: nat where "IPB \<equiv> 8"
abbreviation (input) BPB :: nat where "BPB \<equiv> 4096"
abbreviation (input) NINODE :: nat where "NINODE \<equiv> 50"
abbreviation (input) NDEV :: int where "NDEV \<equiv> 10"
abbreviation (input) DIRSIZ :: nat where "DIRSIZ \<equiv> 14"
abbreviation (input) T_DIR :: u16 where "T_DIR \<equiv> 1"
abbreviation (input) T_FILE :: u16 where "T_FILE \<equiv> 2"
abbreviation (input) T_DEV :: u16 where "T_DEV \<equiv> 3"
abbreviation (input) ROOTDEV :: u32 where "ROOTDEV \<equiv> 1"
abbreviation (input) ROOTINO :: u32 where "ROOTINO \<equiv> 1"

record inode =
  i_dev :: u32
  i_inum :: u32
  i_ref :: int
  i_locked :: bool
  i_valid :: bool
  i_type :: u16
  i_major :: u16
  i_minor :: u16
  i_nlink :: u16
  i_size :: u32
  i_addrs :: "u32 list"

record fs = logst +
  sb :: superblock
  inodes :: "nat \<Rightarrow> inode"

record dirent =
  d_inum :: u16
  d_name :: "u8 list"

record stat =
  st_type :: u16
  st_dev :: u32
  st_ino :: u32
  st_nlink :: u16
  st_size :: u32

definition upd_inode :: "nat \<Rightarrow> (inode \<Rightarrow> inode) \<Rightarrow> 'a fs_scheme \<Rightarrow> 'a fs_scheme" where
  "upd_inode ip f s = s\<lparr>inodes := (inodes s)(ip := f (inodes s ip))\<rparr>"

definition IBLOCK :: "u32 \<Rightarrow> superblock \<Rightarrow> u32" where
  "IBLOCK i b = i div of_nat IPB + sb_inodestart b"

definition BBLOCK :: "u32 \<Rightarrow> superblock \<Rightarrow> u32" where
  "BBLOCK b s = b div of_nat BPB + sb_bmapstart s"

section \<open>Blocks\<close>

definition bzero :: "u32 \<Rightarrow> u32 \<Rightarrow> 'a fs_scheme \<Rightarrow> 'a fs_scheme outcome" where
  "bzero dev bno s =
     bindo (bread dev bno s) (\<lambda>(bp, s).
     bindo (log_write bp (upd_data bp (\<lambda>_. replicate BSIZE 0) s)) (\<lambda>s.
     brelse bp s))"

definition bit_free :: "block \<Rightarrow> nat \<Rightarrow> bool" where
  "bit_free d bi \<longleftrightarrow> d ! (bi div 8) AND push_bit (bi mod 8) 1 = 0"

definition mark_used :: "nat \<Rightarrow> block \<Rightarrow> block" where
  "mark_used bi d = d[bi div 8 := d ! (bi div 8) OR push_bit (bi mod 8) 1]"

definition mark_free :: "nat \<Rightarrow> block \<Rightarrow> block" where
  "mark_free bi d = d[bi div 8 := d ! (bi div 8) AND NOT (push_bit (bi mod 8) 1)]"

text \<open>The two loops of \<^verbatim>\<open>balloc\<close>: the outer one over the bitmap blocks, from block number \<open>b\<close>; the
  inner one looks for the first clear bit below the size of the file system.\<close>

fun balloc_loop :: "u32 \<Rightarrow> nat list \<Rightarrow> 'a fs_scheme \<Rightarrow> (u32 \<times> 'a fs_scheme) outcome" where
  "balloc_loop dev [] s = Panic ''balloc: out of blocks''"
| "balloc_loop dev (b # bs) s =
     bindo (bread dev (BBLOCK (of_nat b) (sb s)) s) (\<lambda>(bp, s).
       case List.find (bit_free (b_data (bufs s bp))) [0..<min BPB (unat (sb_size (sb s)) - b)] of
         Some bi \<Rightarrow>
           bindo (log_write bp (upd_data bp (mark_used bi) s)) (\<lambda>s.
           bindo (brelse bp s) (\<lambda>s.
           bindo (bzero dev (of_nat (b + bi)) s) (\<lambda>s.
           Ok (of_nat (b + bi), s))))
       | None \<Rightarrow> bindo (brelse bp s) (\<lambda>s. balloc_loop dev bs s))"

definition balloc :: "u32 \<Rightarrow> 'a fs_scheme \<Rightarrow> (u32 \<times> 'a fs_scheme) outcome" where
  "balloc dev s = balloc_loop dev (map (\<lambda>k. k * BPB) [0..<(unat (sb_size (sb s)) + 4095) div BPB]) s"

definition bfree :: "u32 \<Rightarrow> u32 \<Rightarrow> 'a fs_scheme \<Rightarrow> 'a fs_scheme outcome" where
  "bfree dev b s =
     bindo (readsb dev s) (\<lambda>(x, s).
     let s = s\<lparr>sb := x\<rparr> in
     bindo (bread dev (BBLOCK b (sb s)) s) (\<lambda>(bp, s).
     let bi = unat (b mod of_nat BPB) in
     if bit_free (b_data (bufs s bp)) bi then Panic ''freeing free block''
     else bindo (log_write bp (upd_data bp (mark_free bi) s)) (\<lambda>s. brelse bp s)))"

section \<open>Inodes\<close>

text \<open>The fields of \<^verbatim>\<open>struct dinode\<close> at their offsets; an inode takes 64 bytes.\<close>

definition dip_off :: "u32 \<Rightarrow> nat" where
  "dip_off inum = 64 * (unat inum mod IPB)"

definition read_dinode :: "block \<Rightarrow> nat \<Rightarrow> inode \<Rightarrow> inode" where
  "read_dinode d k ip = ip\<lparr>i_type := get16 d k, i_major := get16 d (k + 2), i_minor := get16 d (k + 4),
     i_nlink := get16 d (k + 6), i_size := get32 d (k + 8),
     i_addrs := map (\<lambda>i. get32 d (k + 12 + 4 * i)) [0..<13]\<rparr>"

definition write_dinode :: "inode \<Rightarrow> nat \<Rightarrow> block \<Rightarrow> block" where
  "write_dinode ip k d =
     fold (\<lambda>i d. put32 d (k + 12 + 4 * i) (i_addrs ip ! i)) [0..<13]
       (put32 (put16 (put16 (put16 (put16 d k (i_type ip)) (k + 2) (i_major ip)) (k + 4) (i_minor ip))
          (k + 6) (i_nlink ip)) (k + 8) (i_size ip))"

definition iinit :: "u32 \<Rightarrow> 'a fs_scheme \<Rightarrow> 'a fs_scheme outcome" where
  "iinit dev s =
     bindo (readsb dev (s\<lparr>inodes := \<lambda>i. if i < NINODE then (inodes s i)\<lparr>i_locked := False\<rparr> else inodes s i\<rparr>))
       (\<lambda>(x, s). Ok (s\<lparr>sb := x\<rparr>))"

definition acquiresleep_inode :: "nat \<Rightarrow> 'a fs_scheme \<Rightarrow> 'a fs_scheme outcome" where
  "acquiresleep_inode ip s = (if i_locked (inodes s ip) then Wait
     else Ok (upd_inode ip (\<lambda>x. x\<lparr>i_locked := True\<rparr>) s))"

definition releasesleep_inode :: "nat \<Rightarrow> 'a fs_scheme \<Rightarrow> 'a fs_scheme" where
  "releasesleep_inode ip s =
     (upd_inode ip (\<lambda>x. x\<lparr>i_locked := False\<rparr>) s)\<lparr>woken := woken s @ [ChSleeplock ip]\<rparr>"

definition iget :: "u32 \<Rightarrow> u32 \<Rightarrow> 'a fs_scheme \<Rightarrow> (nat \<times> 'a fs_scheme) outcome" where
  "iget dev inum s =
     (case List.find (\<lambda>i. i_ref (inodes s i) > 0 \<and> i_dev (inodes s i) = dev \<and> i_inum (inodes s i) = inum) [0..<NINODE] of
        Some ip \<Rightarrow> Ok (ip, upd_inode ip (\<lambda>x. x\<lparr>i_ref := i_ref x + 1\<rparr>) s)
      | None \<Rightarrow>
          (case List.find (\<lambda>i. i_ref (inodes s i) = 0) [0..<NINODE] of
             None \<Rightarrow> Panic ''iget: no inodes''
           | Some ip \<Rightarrow> Ok (ip, upd_inode ip (\<lambda>x. x\<lparr>i_dev := dev, i_inum := inum, i_ref := 1, i_valid := False\<rparr>) s)))"

fun ialloc_loop :: "u32 \<Rightarrow> u16 \<Rightarrow> nat list \<Rightarrow> 'a fs_scheme \<Rightarrow> (nat \<times> 'a fs_scheme) outcome" where
  "ialloc_loop dev type [] s = Panic ''ialloc: no inodes''"
| "ialloc_loop dev type (inum # is) s =
     bindo (bread dev (IBLOCK (of_nat inum) (sb s)) s) (\<lambda>(bp, s).
       let k = dip_off (of_nat inum) in
       if get16 (b_data (bufs s bp)) k = 0 then
         bindo (log_write bp (upd_data bp (\<lambda>d. put16 (splice d k (replicate 64 0)) k type) s)) (\<lambda>s.
         bindo (brelse bp s) (\<lambda>s. iget dev (of_nat inum) s))
       else bindo (brelse bp s) (\<lambda>s. ialloc_loop dev type is s))"

definition ialloc :: "u32 \<Rightarrow> u16 \<Rightarrow> 'a fs_scheme \<Rightarrow> (nat \<times> 'a fs_scheme) outcome" where
  "ialloc dev type s = ialloc_loop dev type [1..<unat (sb_ninodes (sb s))] s"

definition iupdate :: "nat \<Rightarrow> 'a fs_scheme \<Rightarrow> 'a fs_scheme outcome" where
  "iupdate ip s =
     bindo (bread (i_dev (inodes s ip)) (IBLOCK (i_inum (inodes s ip)) (sb s)) s) (\<lambda>(bp, s).
     bindo (log_write bp (upd_data bp (write_dinode (inodes s ip) (dip_off (i_inum (inodes s ip)))) s)) (\<lambda>s.
     brelse bp s))"

definition idup :: "nat \<Rightarrow> 'a fs_scheme \<Rightarrow> nat \<times> 'a fs_scheme" where
  "idup ip s = (ip, upd_inode ip (\<lambda>x. x\<lparr>i_ref := i_ref x + 1\<rparr>) s)"

definition ilock :: "nat \<Rightarrow> 'a fs_scheme \<Rightarrow> 'a fs_scheme outcome" where
  "ilock ip s =
     (if i_ref (inodes s ip) < 1 then Panic ''ilock''
      else bindo (acquiresleep_inode ip s) (\<lambda>s.
        if \<not> i_valid (inodes s ip) then
          bindo (bread (i_dev (inodes s ip)) (IBLOCK (i_inum (inodes s ip)) (sb s)) s) (\<lambda>(bp, s).
          let s = upd_inode ip (read_dinode (b_data (bufs s bp)) (dip_off (i_inum (inodes s ip)))) s in
          bindo (brelse bp s) (\<lambda>s.
          let s = upd_inode ip (\<lambda>x. x\<lparr>i_valid := True\<rparr>) s in
          if i_type (inodes s ip) = 0 then Panic ''ilock: no type'' else Ok s))
        else Ok s))"

definition iunlock :: "nat \<Rightarrow> 'a fs_scheme \<Rightarrow> 'a fs_scheme outcome" where
  "iunlock ip s =
     (if \<not> i_locked (inodes s ip) \<or> i_ref (inodes s ip) < 1 then Panic ''iunlock''
      else Ok (releasesleep_inode ip s))"

section \<open>Inode contents\<close>

text \<open>Both tables of block addresses are indexed in range here, by the tests on \<open>bn\<close>.\<close>

definition bmap :: "nat \<Rightarrow> nat \<Rightarrow> 'a fs_scheme \<Rightarrow> (u32 \<times> 'a fs_scheme) outcome" where
  "bmap ip bn s =
     (if bn < NDIRECT then
        let addr = i_addrs (inodes s ip) ! bn in
        if addr = 0 then
          bindo (balloc (i_dev (inodes s ip)) s) (\<lambda>(addr, s).
            Ok (addr, upd_inode ip (\<lambda>x. x\<lparr>i_addrs := (i_addrs x)[bn := addr]\<rparr>) s))
        else Ok (addr, s)
      else let bn = bn - NDIRECT in
        if bn < NINDIRECT then
          bindo
            (let addr = i_addrs (inodes s ip) ! NDIRECT in
             if addr = 0 then
               bindo (balloc (i_dev (inodes s ip)) s) (\<lambda>(addr, s).
                 Ok (addr, upd_inode ip (\<lambda>x. x\<lparr>i_addrs := (i_addrs x)[NDIRECT := addr]\<rparr>) s))
             else Ok (addr, s))
            (\<lambda>(addr, s).
             bindo (bread (i_dev (inodes s ip)) addr s) (\<lambda>(bp, s).
             let a = get32 (b_data (bufs s bp)) (4 * bn) in
             bindo
               (if a = 0 then
                  bindo (balloc (i_dev (inodes s ip)) s) (\<lambda>(a, s).
                  bindo (log_write bp (upd_data bp (\<lambda>d. put32 d (4 * bn) a) s)) (\<lambda>s. Ok (a, s)))
                else Ok (a, s))
               (\<lambda>(a, s). bindo (brelse bp s) (\<lambda>s. Ok (a, s)))))
        else Panic ''bmap: out of range'')"

fun itrunc_direct :: "nat \<Rightarrow> nat list \<Rightarrow> 'a fs_scheme \<Rightarrow> 'a fs_scheme outcome" where
  "itrunc_direct ip [] s = Ok s"
| "itrunc_direct ip (i # is) s =
     (if i_addrs (inodes s ip) ! i \<noteq> 0 then
        bindo (bfree (i_dev (inodes s ip)) (i_addrs (inodes s ip) ! i) s) (\<lambda>s.
        itrunc_direct ip is (upd_inode ip (\<lambda>x. x\<lparr>i_addrs := (i_addrs x)[i := 0]\<rparr>) s))
      else itrunc_direct ip is s)"

fun itrunc_indirect :: "nat \<Rightarrow> nat \<Rightarrow> nat list \<Rightarrow> 'a fs_scheme \<Rightarrow> 'a fs_scheme outcome" where
  "itrunc_indirect ip bp [] s = Ok s"
| "itrunc_indirect ip bp (j # js) s =
     (let a = get32 (b_data (bufs s bp)) (4 * j) in
      if a \<noteq> 0 then bindo (bfree (i_dev (inodes s ip)) a s) (\<lambda>s. itrunc_indirect ip bp js s)
      else itrunc_indirect ip bp js s)"

definition itrunc :: "nat \<Rightarrow> 'a fs_scheme \<Rightarrow> 'a fs_scheme outcome" where
  "itrunc ip s =
     bindo (itrunc_direct ip [0..<NDIRECT] s) (\<lambda>s.
     bindo
       (if i_addrs (inodes s ip) ! NDIRECT \<noteq> 0 then
          bindo (bread (i_dev (inodes s ip)) (i_addrs (inodes s ip) ! NDIRECT) s) (\<lambda>(bp, s).
          bindo (itrunc_indirect ip bp [0..<NINDIRECT] s) (\<lambda>s.
          bindo (brelse bp s) (\<lambda>s.
          bindo (bfree (i_dev (inodes s ip)) (i_addrs (inodes s ip) ! NDIRECT) s) (\<lambda>s.
          Ok (upd_inode ip (\<lambda>x. x\<lparr>i_addrs := (i_addrs x)[NDIRECT := 0]\<rparr>) s)))))
        else Ok s)
       (\<lambda>s. iupdate ip (upd_inode ip (\<lambda>x. x\<lparr>i_size := 0\<rparr>) s)))"

definition iput :: "nat \<Rightarrow> 'a fs_scheme \<Rightarrow> 'a fs_scheme outcome" where
  "iput ip s =
     bindo (acquiresleep_inode ip s) (\<lambda>s.
     bindo
       (if i_valid (inodes s ip) \<and> i_nlink (inodes s ip) = 0 \<and> i_ref (inodes s ip) = 1 then
          bindo (itrunc ip s) (\<lambda>s.
          bindo (iupdate ip (upd_inode ip (\<lambda>x. x\<lparr>i_type := 0\<rparr>) s)) (\<lambda>s.
          Ok (upd_inode ip (\<lambda>x. x\<lparr>i_valid := False\<rparr>) s)))
        else Ok s)
       (\<lambda>s. Ok (upd_inode ip (\<lambda>x. x\<lparr>i_ref := i_ref x - 1\<rparr>) (releasesleep_inode ip s))))"

definition iunlockput :: "nat \<Rightarrow> 'a fs_scheme \<Rightarrow> 'a fs_scheme outcome" where
  "iunlockput ip s = bindo (iunlock ip s) (\<lambda>s. iput ip s)"

definition stati :: "nat \<Rightarrow> 'a fs_scheme \<Rightarrow> stat" where
  "stati ip s = (let x = inodes s ip in
     \<lparr>st_type = i_type x, st_dev = i_dev x, st_ino = i_inum x, st_nlink = i_nlink x, st_size = i_size x\<rparr>)"

text \<open>The device table: \<open>dr major ip n\<close> is \<^verbatim>\<open>devsw[major].read\<close>, \<open>dw major ip bytes\<close> is
  \<^verbatim>\<open>devsw[major].write\<close>, \<open>None\<close> where the entry is null.\<close>

type_synonym 's devread = "int \<Rightarrow> (nat \<Rightarrow> int \<Rightarrow> 's \<Rightarrow> (int \<times> u8 list \<times> 's) outcome) option"
type_synonym 's devwrite = "int \<Rightarrow> (nat \<Rightarrow> u8 list \<Rightarrow> 's \<Rightarrow> (int \<times> 's) outcome) option"

text \<open>The copying loop of \<^verbatim>\<open>readi\<close> with \<open>n\<close> bytes left from offset \<open>off\<close>.\<close>

function readi_loop :: "nat \<Rightarrow> nat \<Rightarrow> nat \<Rightarrow> 'a fs_scheme \<Rightarrow> (u8 list \<times> 'a fs_scheme) outcome" where
  "readi_loop ip off n s =
     (if n = 0 then Ok ([], s)
      else bindo (bmap ip (off div BSIZE) s) (\<lambda>(a, s).
           bindo (bread (i_dev (inodes s ip)) a s) (\<lambda>(bp, s).
           let m = min n (BSIZE - off mod BSIZE);
               xs = take m (drop (off mod BSIZE) (b_data (bufs s bp)))
           in bindo (brelse bp s) (\<lambda>s.
              bindo (readi_loop ip (off + m) (n - m) s) (\<lambda>(ys, s). Ok (xs @ ys, s))))))"
  by pat_completeness auto
termination by (relation "measure (\<lambda>(ip, off, n, s). n)") auto

declare readi_loop.simps [simp del]

definition readi :: "'a fs_scheme devread \<Rightarrow> nat \<Rightarrow> u32 \<Rightarrow> u32 \<Rightarrow> 'a fs_scheme \<Rightarrow>
    (int \<times> u8 list \<times> 'a fs_scheme) outcome" where
  "readi dr ip off n s =
     (let x = inodes s ip in
      if i_type x = T_DEV then
        (if sint (i_major x) < 0 \<or> sint (i_major x) \<ge> NDEV then Ok (-1, [], s)
         else case dr (sint (i_major x)) of None \<Rightarrow> Ok (-1, [], s) | Some f \<Rightarrow> f ip (sint n) s)
      else if off > i_size x \<or> off + n < off then Ok (-1, [], s)
      else let n = (if off + n > i_size x then i_size x - off else n) in
        bindo (readi_loop ip (unat off) (unat n) s) (\<lambda>(xs, s). Ok (sint n, xs, s)))"

function writei_loop :: "nat \<Rightarrow> nat \<Rightarrow> u8 list \<Rightarrow> 'a fs_scheme \<Rightarrow> 'a fs_scheme outcome" where
  "writei_loop ip off src s =
     (if src = [] then Ok s
      else bindo (bmap ip (off div BSIZE) s) (\<lambda>(a, s).
           bindo (bread (i_dev (inodes s ip)) a s) (\<lambda>(bp, s).
           let m = min (length src) (BSIZE - off mod BSIZE) in
           bindo (log_write bp (upd_data bp (\<lambda>d. splice d (off mod BSIZE) (take m src)) s)) (\<lambda>s.
           bindo (brelse bp s) (\<lambda>s. writei_loop ip (off + m) (drop m src) s)))))"
  by pat_completeness auto
termination by (relation "measure (\<lambda>(ip, off, src, s). length src)") auto

declare writei_loop.simps [simp del]

definition writei :: "'a fs_scheme devwrite \<Rightarrow> nat \<Rightarrow> u8 list \<Rightarrow> u32 \<Rightarrow> u32 \<Rightarrow> 'a fs_scheme \<Rightarrow>
    (int \<times> 'a fs_scheme) outcome" where
  "writei dw ip src off n s =
     (let x = inodes s ip in
      if i_type x = T_DEV then
        (if sint (i_major x) < 0 \<or> sint (i_major x) \<ge> NDEV then Ok (-1, s)
         else case dw (sint (i_major x)) of None \<Rightarrow> Ok (-1, s) | Some f \<Rightarrow> f ip (take (unat n) src) s)
      else if off > i_size x \<or> off + n < off then Ok (-1, s)
      else if unat (off + n) > MAXFILE * BSIZE then Ok (-1, s)
      else bindo (writei_loop ip (unat off) (take (unat n) src) s) (\<lambda>s.
        let off = off + n in
        if n > 0 \<and> off > i_size (inodes s ip) then
          bindo (iupdate ip (upd_inode ip (\<lambda>x. x\<lparr>i_size := off\<rparr>) s)) (\<lambda>s. Ok (sint n, s))
        else Ok (sint n, s)))"

section \<open>Directories\<close>

text \<open>Directory entries hold at most \<open>DIRSIZ\<close> bytes of a name; \<^verbatim>\<open>namecmp\<close> is used for equality
  only.\<close>

definition cname :: "u8 list \<Rightarrow> u8 list" where
  "cname xs = takeWhile (\<lambda>c. c \<noteq> 0) (take DIRSIZ xs)"

definition namecmp_eq :: "u8 list \<Rightarrow> u8 list \<Rightarrow> bool" where
  "namecmp_eq s t \<longleftrightarrow> cname s = cname t"

definition dirent_of :: "u8 list \<Rightarrow> dirent" where
  "dirent_of xs = \<lparr>d_inum = get16 xs 0, d_name = drop 2 xs\<rparr>"

definition bytes_of_dirent :: "dirent \<Rightarrow> u8 list" where
  "bytes_of_dirent de = put16 [0, 0] 0 (d_inum de) @ d_name de"

definition strncpy14 :: "u8 list \<Rightarrow> u8 list" where
  "strncpy14 name = cname name @ replicate (DIRSIZ - length (cname name)) 0"

fun dirlookup_loop :: "'a fs_scheme devread \<Rightarrow> nat \<Rightarrow> u8 list \<Rightarrow> nat list \<Rightarrow> 'a fs_scheme \<Rightarrow>
    ((nat \<times> u32) option \<times> 'a fs_scheme) outcome" where
  "dirlookup_loop dr dp name [] s = Ok (None, s)"
| "dirlookup_loop dr dp name (off # offs) s =
     bindo (readi dr dp (of_nat off) 16 s) (\<lambda>(r, xs, s).
       if r \<noteq> 16 then Panic ''dirlookup read''
       else let de = dirent_of xs in
         if d_inum de = 0 then dirlookup_loop dr dp name offs s
         else if namecmp_eq name (d_name de) then
           bindo (iget (i_dev (inodes s dp)) (ucast (d_inum de)) s) (\<lambda>(ip, s). Ok (Some (ip, of_nat off), s))
         else dirlookup_loop dr dp name offs s)"

definition dir_offs :: "nat \<Rightarrow> nat \<Rightarrow> nat list" where
  "dir_offs from sz = map (\<lambda>k. from + 16 * k) [0..<(sz - from + 15) div 16]"

definition dirlookup :: "'a fs_scheme devread \<Rightarrow> nat \<Rightarrow> u8 list \<Rightarrow> 'a fs_scheme \<Rightarrow>
    ((nat \<times> u32) option \<times> 'a fs_scheme) outcome" where
  "dirlookup dr dp name s =
     (if i_type (inodes s dp) \<noteq> T_DIR then Panic ''dirlookup not DIR''
      else dirlookup_loop dr dp name (dir_offs 0 (unat (i_size (inodes s dp)))) s)"

fun dirlink_loop :: "'a fs_scheme devread \<Rightarrow> nat \<Rightarrow> nat list \<Rightarrow> nat \<Rightarrow> 'a fs_scheme \<Rightarrow>
    (nat \<times> 'a fs_scheme) outcome" where
  "dirlink_loop dr dp [] off s = Ok (off, s)"
| "dirlink_loop dr dp (o' # offs) off s =
     bindo (readi dr dp (of_nat o') 16 s) (\<lambda>(r, xs, s).
       if r \<noteq> 16 then Panic ''dirlink read''
       else if d_inum (dirent_of xs) = 0 then Ok (o', s)
       else dirlink_loop dr dp offs (o' + 16) s)"

definition dirlink :: "'a fs_scheme devread \<Rightarrow> 'a fs_scheme devwrite \<Rightarrow> nat \<Rightarrow> u8 list \<Rightarrow> u32 \<Rightarrow>
    'a fs_scheme \<Rightarrow> (int \<times> 'a fs_scheme) outcome" where
  "dirlink dr dw dp name inum s =
     bindo (dirlookup dr dp name s) (\<lambda>(r, s).
       case r of
         Some (ip, _) \<Rightarrow> bindo (iput ip s) (\<lambda>s. Ok (-1, s))
       | None \<Rightarrow>
           bindo (dirlink_loop dr dp (dir_offs 0 (unat (i_size (inodes s dp)))) 0 s) (\<lambda>(off, s).
           bindo (writei dw dp (bytes_of_dirent \<lparr>d_inum = ucast inum, d_name = strncpy14 name\<rparr>)
                    (of_nat off) 16 s) (\<lambda>(r, s).
             if r \<noteq> 16 then Panic ''dirlink'' else Ok (0, s))))"

section \<open>Paths\<close>

abbreviation (input) slash :: u8 where "slash \<equiv> 47"

definition skipelem :: "u8 list \<Rightarrow> (u8 list \<times> u8 list) option" where
  "skipelem path =
     (let p = dropWhile (\<lambda>c. c = slash) path in
      if p = [] then None
      else let e = takeWhile (\<lambda>c. c \<noteq> slash) p; q = dropWhile (\<lambda>c. c \<noteq> slash) p in
        Some (dropWhile (\<lambda>c. c = slash) q, take DIRSIZ e))"

lemma skipelem_shorter:
  assumes "skipelem path = Some (rest, name)"
  shows "length rest < length path"
proof -
  let ?p = "dropWhile (\<lambda>c. c = slash) path"
  have p: "?p \<noteq> []" and r: "rest = dropWhile (\<lambda>c. c = slash) (dropWhile (\<lambda>c. c \<noteq> slash) ?p)"
    using assms by (auto simp: skipelem_def Let_def split: if_splits)
  have "hd ?p \<noteq> slash" using hd_dropWhile [OF p] .
  then have "length (dropWhile (\<lambda>c. c \<noteq> slash) ?p) < length ?p"
    using p by (cases ?p) (auto simp: le_imp_less_Suc length_dropWhile_le)
  moreover have "length rest \<le> length (dropWhile (\<lambda>c. c \<noteq> slash) ?p)" "length ?p \<le> length path"
    unfolding r by (rule length_dropWhile_le)+
  ultimately show ?thesis by linarith
qed

function namex_loop :: "'a fs_scheme devread \<Rightarrow> bool \<Rightarrow> u8 list \<Rightarrow> u8 list \<Rightarrow> nat \<Rightarrow> 'a fs_scheme \<Rightarrow>
    (nat option \<times> u8 list \<times> 'a fs_scheme) outcome" where
  "namex_loop dr parent path name ip s =
     (case skipelem path of
        None \<Rightarrow>
          if parent then bindo (iput ip s) (\<lambda>s. Ok (None, name, s)) else Ok (Some ip, name, s)
      | Some (path', name') \<Rightarrow>
          bindo (ilock ip s) (\<lambda>s.
            if i_type (inodes s ip) \<noteq> T_DIR then bindo (iunlockput ip s) (\<lambda>s. Ok (None, name', s))
            else if parent \<and> path' = [] then bindo (iunlock ip s) (\<lambda>s. Ok (Some ip, name', s))
            else bindo (dirlookup dr ip name' s) (\<lambda>(r, s).
              case r of
                None \<Rightarrow> bindo (iunlockput ip s) (\<lambda>s. Ok (None, name', s))
              | Some (next, _) \<Rightarrow>
                  bindo (iunlockput ip s) (\<lambda>s. namex_loop dr parent path' name' next s))))"
  by pat_completeness auto
termination
  by (relation "measure (\<lambda>(dr, parent, path, name, ip, s). length path)") (auto dest: skipelem_shorter)

declare namex_loop.simps [simp del]

text \<open>\<open>cwd\<close> is the current directory of the process.\<close>

definition namex :: "'a fs_scheme devread \<Rightarrow> nat option \<Rightarrow> u8 list \<Rightarrow> bool \<Rightarrow> 'a fs_scheme \<Rightarrow>
    (nat option \<times> u8 list \<times> 'a fs_scheme) outcome" where
  "namex dr cwd path parent s =
     bindo (if path \<noteq> [] \<and> hd path = slash then iget ROOTDEV ROOTINO s
            else case cwd of None \<Rightarrow> UB | Some c \<Rightarrow> Ok (idup c s)) (\<lambda>(ip, s).
       namex_loop dr parent path [] ip s)"

definition namei :: "'a fs_scheme devread \<Rightarrow> nat option \<Rightarrow> u8 list \<Rightarrow> 'a fs_scheme \<Rightarrow>
    (nat option \<times> 'a fs_scheme) outcome" where
  "namei dr cwd path s = bindo (namex dr cwd path False s) (\<lambda>(ip, _, s). Ok (ip, s))"

definition nameiparent :: "'a fs_scheme devread \<Rightarrow> nat option \<Rightarrow> u8 list \<Rightarrow> 'a fs_scheme \<Rightarrow>
    (nat option \<times> u8 list \<times> 'a fs_scheme) outcome" where
  "nameiparent dr cwd path s = namex dr cwd path True s"

section \<open>Logged updates\<close>

text \<open>The pattern of every change to the file system: read a block, change it, hand it to the
  log, release it. The change is visible to the kernel at once and reaches the disk with the
  commit. \<open>log_room k s\<close>: \<open>k\<close> more blocks fit in the log and in the cache.\<close>

definition log_room :: "nat \<Rightarrow> 'a logst_scheme \<Rightarrow> bool" where
  "log_room k s \<longleftrightarrow> lh_n s + int k \<le> int LOGSIZE \<and> lh_n s + int k \<le> l_size s - 1 \<and>
     1 \<le> l_outstanding s \<and> card (dirties s) + k \<le> NBUF"

definition logged :: "u32 \<Rightarrow> u32 \<Rightarrow> block \<Rightarrow> 'a logst_scheme \<Rightarrow> 'a logst_scheme \<Rightarrow> bool" where
  "logged dev x D s s' \<longleftrightarrow> qbio s' \<and> disk s' = disk s \<and> dwrites s' = dwrites s \<and>
     (\<forall>d c. d \<noteq> 0 \<longrightarrow> view s' d c = (if d = dev \<and> c = x then D else view s d c)) \<and>
     dblk s' dev = insert x (dblk s dev) \<and> logst.more s' = logst.more s \<and>
     (\<forall>k. log_room (Suc k) s \<longrightarrow> log_room k s')"

lemma log_write_effect:
  assumes "lh_n s < int LOGSIZE" "lh_n s < l_size s - 1" "1 \<le> l_outstanding s"
  shows "\<exists>s'. log_write b s = Ok s' \<and> bufs s' = (bufs s)(b := (bufs s b)\<lparr>b_dirty := True\<rparr>) \<and> lru s' = lru s \<and>
    disk s' = disk s \<and> dwrites s' = dwrites s \<and> havedisk1 s' = havedisk1 s \<and> l_size s' = l_size s \<and>
    l_outstanding s' = l_outstanding s \<and> lh_n s' \<le> lh_n s + 1 \<and> logst.more s' = logst.more s"
  using assms by (auto simp: log_write_def Let_def upd_buf_def)

lemma logged_update:
  assumes q: "qbio s" and dev: "dev \<noteq> 0" "unat x < FSSIZE" and room: "log_room (Suc k) s"
  shows "\<exists>i s1 s2 s3. bread dev x s = Ok (i, s1) \<and> logst.more s1 = logst.more s \<and> b_data (bufs s1 i) = view s dev x \<and>
    log_write i (upd_data i f s1) = Ok s2 \<and> logst.more s2 = logst.more s \<and>
    brelse i s2 = Ok s3 \<and> logged dev x (f (view s dev x)) s s3"
proof -
  have cd: "card (dirties s) < NBUF" using room by (simp add: log_room_def)
  obtain i s1 where t: "bread dev x s = Ok (i, s1)" "took s dev x i s1" and i1: "binv s1" and h: "held s s1 dev x i"
    and v1: "\<forall>d c. d \<noteq> 0 \<longrightarrow> view s1 d c = view s d c"
    using one_bread [OF q dev] cd by blast
  note ts = took_simps [OF t(2)] and mf = more_fields [OF took_simps(5) [OF t(2)]]
  have b: "i < NBUF" "b_locked (bufs s1 i)" "b_valid (bufs s1 i)" "b_dev (bufs s1 i) = dev" "b_blockno (bufs s1 i) = x"
    "b_data (bufs s1 i) = view s dev x" "b_refcnt (bufs s1 i) = 1" and bd: "b_dirty (bufs s i) \<longrightarrow> cached s dev x i"
    using h by (auto simp: held_def cached_def)
  let ?D = "f (view s dev x)"
  define sd where "sd = upd_buf i (\<lambda>b. b\<lparr>b_data := ?D\<rparr>) s1"
  have ud: "upd_data i f s1 = sd" using b(6) by (simp add: upd_data_def upd_buf_def sd_def)
  have bn: "b_dev (bufs s1 i) \<noteq> 0" using b dev by simp
  have id: "binv sd" and vd: "d \<noteq> 0 \<Longrightarrow> view sd d c = (if d = dev \<and> c = x then ?D else view s1 d c)" for d c
    using set_data [OF i1 b(1-3) bn sd_def] b by auto
  have mfd: "bio.more sd = bio.more s" using ts(5) by (simp add: sd_def)
  note mf2 = more_fields [OF mfd]
  have fd: "disk sd = disk s" "dwrites sd = dwrites s" "havedisk1 sd" "bufs sd = (bufs s1)(i := (bufs s1 i)\<lparr>b_data := ?D\<rparr>)" "lru sd = lru s1"
    using ts q by (simp_all add: sd_def qbio_def)
  have lw: "lh_n sd < int LOGSIZE" "lh_n sd < l_size sd - 1" "1 \<le> l_outstanding sd"
    using mf2 room by (auto simp: log_room_def)
  obtain s2 where w: "log_write i sd = Ok s2" and b2: "bufs s2 = (bufs sd)(i := (bufs sd i)\<lparr>b_dirty := True\<rparr>)"
    and f2: "lru s2 = lru sd" "disk s2 = disk sd" "dwrites s2 = dwrites sd" "havedisk1 s2 = havedisk1 sd"
      "l_size s2 = l_size sd" "l_outstanding s2 = l_outstanding sd" "lh_n s2 \<le> lh_n sd + 1" "logst.more s2 = logst.more sd"
    using log_write_effect [OF lw, of i] by blast
  have sdi: "bufs sd i = (bufs s1 i)\<lparr>b_data := ?D\<rparr>" by (simp add: fd)
  have r0: "b_refcnt (bufs s1 i) \<noteq> 0" using b(7) by simp
  have i2: "binv s2"
    by (rule upd_binv [OF id, of "\<lambda>b. b\<lparr>b_dirty := True\<rparr>" _ i, OF _ _ _ b2])
       (use b bn f2 fd sdi binv_lru [OF id] r0 in auto)
  have v2: "view s2 d c = view sd d c" if "d \<noteq> 0" for d c
  proof -
    have "b_valid (bufs sd i)" using sdi b by simp
    from upd_view [OF id i2 that b(1), of "\<lambda>b. b\<lparr>b_dirty := True\<rparr>" c, OF _ _ _ b2 this] view_cached [OF id that, of c i]
    show ?thesis using f2(2) sdi b by (auto simp: cached_def)
  qed
  have p2: "bufs s2 i = (bufs s1 i)\<lparr>b_data := ?D, b_dirty := True\<rparr>" using b2 sdi by simp
  have c3: "b_locked (bufs s2 i)" "b_valid (bufs s2 i)" "b_dev (bufs s2 i) \<noteq> 0" "b_refcnt (bufs s2 i) = 1"
    "b_dirty (bufs s2 i) \<or> b_data (bufs s2 i) = disk s2 (b_dev (bufs s2 i)) (b_blockno (bufs s2 i))"
    using p2 b dev by simp_all
  obtain s3 where r: "brelse i s2 = Ok s3" and i3: "binv s3" and b3: "bufs s3 = (bufs s2)(i := (bufs s2 i)\<lparr>b_locked := False, b_refcnt := 0\<rparr>)"
    and f3: "disk s3 = disk s2" "dwrites s3 = dwrites s2" "havedisk1 s3 = havedisk1 s2" "bio.more s3 = bio.more s2"
    and v3: "\<forall>d c. d \<noteq> 0 \<longrightarrow> view s3 d c = view s2 d c"
    using brelse_spec [OF i2 b(1) c3] by blast
  note mf3 = more_fields [OF f3(4)]
  have e: "k \<noteq> i \<Longrightarrow> bufs s3 k = bufs s k" for k using b3 b2 fd ts(11) by simp
  have ei: "b_dirty (bufs s3 i)" "\<not> b_locked (bufs s3 i)" "b_refcnt (bufs s3 i) = 0" "b_dev (bufs s3 i) = dev" "b_blockno (bufs s3 i) = x"
    using b3 p2 b by simp_all
  have "\<not> b_locked (bufs s3 j) \<and> b_refcnt (bufs s3 j) = 0" if "j < NBUF" for j
    using that e [of j] ei q by (cases "j = i") (auto simp: qbio_def)
  then have q3: "qbio s3" using i3 f3 f2 fd by (simp add: qbio_def)
  have "dirties s3 \<subseteq> insert i (dirties s)"
  proof
    fix j assume "j \<in> dirties s3"
    then show "j \<in> insert i (dirties s)" using e [of j] by (cases "j = i") (auto simp: dirties_def)
  qed
  then have "card (dirties s3) \<le> card (dirties s) + 1"
    using card_mono [of "insert i (dirties s)" "dirties s3"] dirties_finite(1) [of s] card_insert_le_m1 card_insert_if
    by (metis finite_insert le_trans Suc_eq_plus1 le_SucI order_refl)
  then have "\<forall>k. log_room (Suc k) s \<longrightarrow> log_room k s3"
    using mf3 f2 mf2 by (auto simp: log_room_def)
  moreover have "c \<in> dblk s3 dev \<longleftrightarrow> c = x \<or> c \<in> dblk s dev" for c
  proof
    assume "c \<in> dblk s3 dev"
    then obtain j where j: "cached s3 dev c j" "b_dirty (bufs s3 j)" by (auto simp: dblk_def)
    show "c = x \<or> c \<in> dblk s dev"
    proof (cases "j = i")
      case True
      then show ?thesis using j ei by (simp add: cached_def)
    next
      case False
      then show ?thesis using j e by (auto simp: dblk_def cached_def)
    qed
  next
    assume "c = x \<or> c \<in> dblk s dev"
    then show "c \<in> dblk s3 dev"
    proof
      assume "c = x"
      then show ?thesis using ei b(1) by (auto simp: dblk_def cached_def)
    next
      assume "c \<in> dblk s dev"
      then obtain j where j: "cached s dev c j" "b_dirty (bufs s j)" by (auto simp: dblk_def)
      show ?thesis
      proof (cases "j = i")
        case True
        then have "c = x" using bd j by (auto simp: cached_def)
        then show ?thesis using ei b(1) by (auto simp: dblk_def cached_def)
      next
        case False
        then show ?thesis using j e [OF False] by (auto simp: dblk_def cached_def)
      qed
    qed
  qed
  then have "dblk s3 dev = insert x (dblk s dev)" by blast
  moreover have "view s3 d c = (if d = dev \<and> c = x then ?D else view s d c)" if "d \<noteq> 0" for d c
    using v1 vd v2 v3 that by simp
  ultimately have "logged dev x ?D s s3"
    using q3 f3 f2 fd mf3(8) mf2(8) by (simp add: logged_def)
  then show ?thesis using t(1) mf(8) b(6) w r f2(8) mf2(8) unfolding ud [symmetric]
    by - (rule exI [of _ i], rule exI [of _ s1], rule exI [of _ s2], rule exI [of _ s3], simp)
qed

lemma fs_fields:
  assumes "logst.more s' = logst.more s"
  shows "sb s' = sb s" "inodes s' = inodes s" "fs.more s' = fs.more s"
  using assms by (cases s; cases s'; simp)+

text \<open>What only reads leaves the blocks as they are and takes no buffer.\<close>

definition read_only :: "'a bio_scheme \<Rightarrow> 'a bio_scheme \<Rightarrow> bool" where
  "read_only s s' \<longleftrightarrow> qbio s' \<and> disk s' = disk s \<and> dwrites s' = dwrites s \<and> dirties s' = dirties s \<and>
     (\<forall>d c. d \<noteq> 0 \<longrightarrow> view s' d c = view s d c)"

lemma read_only_trans: "read_only s s' \<Longrightarrow> read_only s' s'' \<Longrightarrow> read_only s s''"
  by (simp add: read_only_def)

lemma read_only_refl: "qbio s \<Longrightarrow> read_only s s"
  by (simp add: read_only_def)

text \<open>Reading a block and releasing it, with a change to the inode cache in between.\<close>

lemma peek:
  fixes s :: "'a fs_scheme"
  assumes q: "qbio s" and dev: "dev \<noteq> 0" "unat x < FSSIZE" and room: "card (dirties s) < NBUF"
  shows "\<exists>i s1. bread dev x s = Ok (i, s1) \<and> b_data (bufs s1 i) = view s dev x \<and> logst.more s1 = logst.more s \<and>
    (\<forall>g ip. \<exists>s2. brelse i (upd_inode ip g s1) = Ok s2 \<and> inodes s2 = (inodes s)(ip := g (inodes s ip)) \<and>
      sb s2 = sb s \<and> bio.more s2 = bio.more (upd_inode ip g s) \<and> read_only s s2)"
proof -
  obtain i s1 where t: "bread dev x s = Ok (i, s1)" "took s dev x i s1" and i1: "binv s1" and h: "held s s1 dev x i"
    and v1: "\<forall>d c. d \<noteq> 0 \<longrightarrow> view s1 d c = view s d c"
    using one_bread [OF q dev] room by blast
  note ts = took_simps [OF t(2)] and mf = more_fields [OF took_simps(5) [OF t(2)]]
  note ff = fs_fields [OF mf(8)]
  have b: "i < NBUF" "b_locked (bufs s1 i)" "b_valid (bufs s1 i)" "b_dev (bufs s1 i) = dev" "b_blockno (bufs s1 i) = x"
    "b_data (bufs s1 i) = view s dev x" "b_refcnt (bufs s1 i) = 1"
    using h by (auto simp: held_def cached_def)
  have cl: "b_dirty (bufs s1 i) \<or> view s dev x = disk s dev x"
  proof (cases "x \<in> dblk s dev")
    case True
    then obtain j where j: "cached s dev x j" "b_dirty (bufs s j)" by (auto simp: dblk_def)
    have "j = i"
    proof (rule ccontr)
      assume "j \<noteq> i"
      then have "cached s1 dev x j" using j ts(11) [of j] by (simp add: cached_def)
      then show False using binv_uniq [OF i1 _ ts(7) dev(1)] \<open>j \<noteq> i\<close> by blast
    qed
    then show ?thesis using ts(12) j by simp
  qed (simp add: quiet_view [OF q dev(1)])
  have "\<exists>s2. brelse i (upd_inode ip g s1) = Ok s2 \<and> inodes s2 = (inodes s)(ip := g (inodes s ip)) \<and>
      sb s2 = sb s \<and> bio.more s2 = bio.more (upd_inode ip g s) \<and> read_only s s2" for g ip
  proof -
    let ?s = "upd_inode ip g s1"
    have e: "bufs ?s = bufs s1" "lru ?s = lru s1" "disk ?s = disk s1" "havedisk1 ?s = havedisk1 s1" by (simp_all add: upd_inode_def)
    have bi: "binv ?s" using i1 bio_cong(1) [OF e(1-3)] by simp
    have c: "b_locked (bufs ?s i)" "b_valid (bufs ?s i)" "b_dev (bufs ?s i) \<noteq> 0" "b_refcnt (bufs ?s i) = 1"
      "b_dirty (bufs ?s i) \<or> b_data (bufs ?s i) = disk ?s (b_dev (bufs ?s i)) (b_blockno (bufs ?s i))"
      unfolding e using b dev cl ts(2) by auto
    obtain s2 where r: "brelse i ?s = Ok s2" and i3: "binv s2" and b3: "bufs s2 = (bufs ?s)(i := (bufs ?s i)\<lparr>b_locked := False, b_refcnt := 0\<rparr>)"
      and f3: "disk s2 = disk ?s" "dwrites s2 = dwrites ?s" "havedisk1 s2 = havedisk1 ?s" "bio.more s2 = bio.more ?s"
      and v3: "\<forall>d c. d \<noteq> 0 \<longrightarrow> view s2 d c = view ?s d c"
      using brelse_spec [OF bi b(1) c] by blast
    have "\<not> b_locked (bufs s2 j) \<and> b_refcnt (bufs s2 j) = 0" if "j < NBUF" for j
      using that b3 e ts(11) [of j] q by (cases "j = i") (auto simp: qbio_def)
    then have "qbio s2" using i3 f3 e ts(4) q by (simp add: qbio_def)
    moreover have "inodes s2 = (inodes s)(ip := g (inodes s ip))" "sb s2 = sb s"
      using fs_fields [OF more_fields(8) [OF f3(4)]] ff by (simp_all add: upd_inode_def)
    moreover have "view s2 d c = view s d c" if "d \<noteq> 0" for d c
      using v1 v3 that bio_cong(2) [OF e(1-3)] by simp
    moreover have "dirties s2 = dirties s"
    proof -
      have "b_dirty (bufs s2 j) = b_dirty (bufs s j)" for j using b3 e ts(11) [of j] ts(12,15) by (cases "j = i") auto
      then show ?thesis by (simp add: dirties_def)
    qed
    moreover have "bio.more ?s = bio.more (upd_inode ip g s)"
      using ts(5) by (cases s; cases s1) (simp add: upd_inode_def)
    moreover have "dwrites ?s = dwrites s1" by (simp add: upd_inode_def)
    ultimately show ?thesis using r f3 e ts(2,3) by (simp add: read_only_def)
  qed
  then show ?thesis using t(1) b(6) mf(8) by blast
qed

section \<open>On-disk inodes\<close>

lemma get16_put32_other: "j + 2 \<le> k \<or> k + 4 \<le> j \<Longrightarrow> get16 (put32 d k v) j = get16 d j"
  by (auto simp: get16_def put32_def)

lemma get16_put16_other: "j + 2 \<le> k \<or> k + 2 \<le> j \<Longrightarrow> get16 (put16 d k v) j = get16 d j"
  by (auto simp: get16_def put16_def)

lemma get32_put16_other: "j + 4 \<le> k \<or> k + 2 \<le> j \<Longrightarrow> get32 (put16 d k v) j = get32 d j"
  by (auto simp: get32_def put16_def)

lemma put_addrs:
  assumes "k + 12 + 4 * m \<le> length d"
  shows "length (fold (\<lambda>i d. put32 d (k + 12 + 4 * i) (a ! i)) [0..<m] d) = length d \<and>
    (\<forall>j. j + 2 \<le> k + 12 \<longrightarrow> get16 (fold (\<lambda>i d. put32 d (k + 12 + 4 * i) (a ! i)) [0..<m] d) j = get16 d j) \<and>
    (\<forall>j. j + 4 \<le> k + 12 \<longrightarrow> get32 (fold (\<lambda>i d. put32 d (k + 12 + 4 * i) (a ! i)) [0..<m] d) j = get32 d j) \<and>
    (\<forall>i<m. get32 (fold (\<lambda>i d. put32 d (k + 12 + 4 * i) (a ! i)) [0..<m] d) (k + 12 + 4 * i) = a ! i)"
  using assms
proof (induction m)
  case (Suc m)
  let ?f = "fold (\<lambda>i d. put32 d (k + 12 + 4 * i) (a ! i)) [0..<m] d"
  have ih: "length ?f = length d" "\<forall>j. j + 2 \<le> k + 12 \<longrightarrow> get16 ?f j = get16 d j"
    "\<forall>j. j + 4 \<le> k + 12 \<longrightarrow> get32 ?f j = get32 d j" "\<forall>i<m. get32 ?f (k + 12 + 4 * i) = a ! i"
    using Suc by auto
  have "get32 (put32 ?f (k + 12 + 4 * m) (a ! m)) (k + 12 + 4 * i) = a ! i" if "i < Suc m" for i
  proof (cases "i = m")
    case True
    then show ?thesis using Suc.prems ih by simp
  next
    case False
    then have "i < m" using that by simp
    then show ?thesis using ih(4) by (subst get32_put32_other) auto
  qed
  moreover have "get16 (put32 ?f (k + 12 + 4 * m) (a ! m)) j = get16 d j" if "j + 2 \<le> k + 12" for j
    using ih(2) that by (subst get16_put32_other) auto
  moreover have "get32 (put32 ?f (k + 12 + 4 * m) (a ! m)) j = get32 d j" if "j + 4 \<le> k + 12" for j
    using ih(3) that by (subst get32_put32_other) auto
  ultimately show ?case using ih(1) by simp
qed simp

definition same_dinode :: "inode \<Rightarrow> inode \<Rightarrow> bool" where
  "same_dinode x y \<longleftrightarrow> i_type x = i_type y \<and> i_major x = i_major y \<and> i_minor x = i_minor y \<and>
     i_nlink x = i_nlink y \<and> i_size x = i_size y \<and> i_addrs x = i_addrs y"

lemma read_write_dinode:
  assumes "k + 64 \<le> length d" "length (i_addrs x) = 13"
  shows "same_dinode (read_dinode (write_dinode x k d) k y) x"
proof -
  define e where "e = put32 (put16 (put16 (put16 (put16 d k (i_type x)) (k + 2) (i_major x)) (k + 4) (i_minor x))
          (k + 6) (i_nlink x)) (k + 8) (i_size x)"
  have le: "k + 12 + 4 * 13 \<le> length e" using assms by (simp add: e_def)
  note pa = put_addrs [OF le, of "i_addrs x"]
  have w: "write_dinode x k d = fold (\<lambda>i d. put32 d (k + 12 + 4 * i) (i_addrs x ! i)) [0..<13] e"
    by (simp only: write_dinode_def e_def)
  have f: "get16 (write_dinode x k d) k = get16 e k" "get16 (write_dinode x k d) (k + 2) = get16 e (k + 2)"
    "get16 (write_dinode x k d) (k + 4) = get16 e (k + 4)" "get16 (write_dinode x k d) (k + 6) = get16 e (k + 6)"
    "get32 (write_dinode x k d) (k + 8) = get32 e (k + 8)"
    unfolding w using pa by simp_all
  have "map (\<lambda>i. get32 (write_dinode x k d) (k + 12 + 4 * i)) [0..<13] = i_addrs x"
    unfolding w using pa assms(2) by (intro nth_equalityI) auto
  then show ?thesis using f assms
    by (simp add: same_dinode_def read_dinode_def e_def get16_put32_other get16_put16_other get32_put16_other)
qed

lemma put_outside:
  "q < k \<or> k + 4 \<le> q \<Longrightarrow> put32 d k v ! q = d ! q" "q < k \<or> k + 2 \<le> q \<Longrightarrow> put16 d k w ! q = d ! q"
  by (auto simp: put32_def put16_def)

lemma put_addrs_outside:
  "q < k \<or> k + 4 * m \<le> q \<Longrightarrow> fold (\<lambda>i d. put32 d (k + 4 * i) (a ! i)) [0..<m] d ! q = d ! q"
  by (induction m) (auto simp: put_outside)

lemma write_dinode_outside: "q < k \<or> k + 64 \<le> q \<Longrightarrow> write_dinode x k d ! q = d ! q"
  unfolding write_dinode_def by (subst put_addrs_outside) (auto simp: put_outside)

lemma length_write_dinode [simp]: "length (write_dinode x k d) = length d"
proof -
  have "length (fold (\<lambda>i d. put32 d (k + 12 + 4 * i) (a ! i)) xs e) = length e" for a xs e by (induction xs arbitrary: e) auto
  then show ?thesis by (simp add: write_dinode_def)
qed

lemma read_dinode_cong: "(\<And>q. k \<le> q \<Longrightarrow> q < k + 64 \<Longrightarrow> d ! q = d' ! q) \<Longrightarrow> read_dinode d k y = read_dinode d' k y"
  by (simp add: read_dinode_def get16_def get32_def)

lemma iupdate_logged:
  fixes s :: "'a fs_scheme"
  assumes q: "qbio s" and dev: "i_dev (inodes s ip) = dev" "dev \<noteq> 0" and x: "x = IBLOCK (i_inum (inodes s ip)) (sb s)" "unat x < FSSIZE"
    and room: "log_room (Suc k) s"
  shows "\<exists>s'. iupdate ip s = Ok s' \<and>
    logged dev x (write_dinode (inodes s ip) (dip_off (i_inum (inodes s ip))) (view s dev x)) s s'"
proof -
  let ?f = "write_dinode (inodes s ip) (dip_off (i_inum (inodes s ip)))"
  obtain i s1 s2 s3 where b: "bread dev x s = Ok (i, s1)" "logst.more s1 = logst.more s"
    "log_write i (upd_data i ?f s1) = Ok s2" "brelse i s2 = Ok s3" "logged dev x (?f (view s dev x)) s s3"
    using logged_update [OF q dev(2) x(2) room, of ?f] by blast
  have "iupdate ip s = Ok s3" using b fs_fields [OF b(2)] dev(1) x(1) by (simp add: iupdate_def)
  then show ?thesis using b(5) by blast
qed

lemma dip_off_le: "dip_off i + 64 \<le> BSIZE"
proof -
  have "unat i mod IPB \<le> 7" by (simp add: less_Suc_eq_le [symmetric])
  then show ?thesis by (simp add: dip_off_def)
qed

section \<open>The block bitmap\<close>

lemma bit_free_marks:
  assumes "bi div 8 < length d"
  shows "bit_free (mark_used bi d) bj \<longleftrightarrow> bit_free d bj \<and> bj \<noteq> bi"
    and "bit_free (mark_free bi d) bj \<longleftrightarrow> bit_free d bj \<or> bj = bi"
proof -
  have one: "push_bit (m mod 8) 1 AND x = (0 :: u8) \<longleftrightarrow> \<not> bit x (m mod 8)" for m and x :: u8
  proof
    assume a: "push_bit (m mod 8) 1 AND x = (0 :: u8)"
    have "bit (push_bit (m mod 8) 1 AND x :: u8) (m mod 8) = bit x (m mod 8)"
      by (simp add: bit_simps)
    then show "\<not> bit x (m mod 8)" using a by simp
  next
    assume n: "\<not> bit x (m mod 8)"
    show "push_bit (m mod 8) 1 AND x = (0 :: u8)"
    proof (rule bit_word_eqI)
      fix j assume "j < LENGTH(8)"
      show "bit (push_bit (m mod 8) 1 AND x :: u8) j = bit (0 :: u8) j" using n by (auto simp: bit_simps bit_1_iff)
    qed
  qed
  have bf: "bit_free e m \<longleftrightarrow> \<not> bit (e ! (m div 8)) (m mod 8)" for e m
    using one [of m "e ! (m div 8)"] by (simp add: bit_free_def and.commute)
  have eq: "bj div 8 = bi div 8 \<Longrightarrow> bj mod 8 = bi mod 8 \<Longrightarrow> bj = bi" by (metis div_mult_mod_eq)
  have m8: "bi mod 8 < 8" "bj mod 8 < 8" by simp_all
  show "bit_free (mark_used bi d) bj \<longleftrightarrow> bit_free d bj \<and> bj \<noteq> bi"
    unfolding bf mark_used_def using assms eq m8
    by (cases "bj div 8 = bi div 8") (auto simp: bit_simps bit_1_iff)
  show "bit_free (mark_free bi d) bj \<longleftrightarrow> bit_free d bj \<or> bj = bi"
    unfolding bf mark_free_def using assms eq m8
    by (cases "bj div 8 = bi div 8") (auto simp: bit_simps bit_1_iff)
qed

lemma bzero_logged:
  fixes s :: "'a fs_scheme"
  assumes "qbio s" "dev \<noteq> 0" "unat x < FSSIZE" "log_room (Suc k) s"
  shows "\<exists>s'. bzero dev x s = Ok s' \<and> logged dev x (replicate BSIZE 0) s s'"
  using logged_update [OF assms, of "\<lambda>_. replicate BSIZE 0"] by (auto simp: bzero_def)

lemma balloc_result:
  fixes s :: "'a fs_scheme"
  assumes q: "qbio s" and dev: "dev \<noteq> 0" and sz: "0 < unat (sb_size (sb s))" "unat (sb_size (sb s)) \<le> FSSIZE"
    and bm: "bm = sb_bmapstart (sb s)" "unat bm < FSSIZE" and B: "B = view s dev bm" "length B = BSIZE"
    and bi: "bi < unat (sb_size (sb s))" "bit_free B bi" "\<forall>j<bi. \<not> bit_free B j" and own: "bi \<noteq> unat bm"
    and room: "log_room 2 s"
  shows "\<exists>s'. balloc dev s = Ok (of_nat bi, s') \<and> qbio s' \<and> disk s' = disk s \<and> sb s' = sb s \<and> inodes s' = inodes s \<and>
    (\<forall>d c. d \<noteq> 0 \<longrightarrow> view s' d c = (if d = dev \<and> c = bm then mark_used bi B
       else if d = dev \<and> c = of_nat bi then replicate BSIZE 0 else view s d c))"
proof -
  have "(unat (sb_size (sb s)) + 4095) div BPB = 1"
  proof (rule div_nat_eqI)
    show "BPB * 1 \<le> unat (sb_size (sb s)) + 4095" "unat (sb_size (sb s)) + 4095 < BPB * Suc 1" using sz by simp_all
  qed
  then have bs: "map (\<lambda>k. k * BPB) [0..<(unat (sb_size (sb s)) + 4095) div BPB] = [0]" by simp
  have bb: "BBLOCK (of_nat 0) (sb s) = bm" by (simp add: BBLOCK_def bm)
  have r2: "log_room (Suc 1) s" using room by (simp add: numeral_2_eq_2)
  obtain i s1 s2 s3 where b: "bread dev bm s = Ok (i, s1)" "logst.more s1 = logst.more s" "b_data (bufs s1 i) = view s dev bm"
    "log_write i (upd_data i (mark_used bi) s1) = Ok s2" "logst.more s2 = logst.more s" "brelse i s2 = Ok s3" "logged dev bm (mark_used bi (view s dev bm)) s s3"
    using logged_update [OF q dev bm(2) r2, of "mark_used bi"] by blast
  have l3: "qbio s3" "log_room 1 s3" "logst.more s3 = logst.more s" "disk s3 = disk s"
    using b(7) r2 by (auto simp: logged_def)
  have ub: "unat (of_nat bi :: u32) = bi" using bi(1) sz(2) by (intro unat_of_nat32) simp
  have bl: "unat (of_nat bi :: u32) < FSSIZE" unfolding ub using bi(1) sz(2) by simp
  have l3': "log_room (Suc 0) s3" using l3(2) by simp
  obtain s4 where z: "bzero dev (of_nat bi) s3 = Ok s4" "logged dev (of_nat bi) (replicate BSIZE 0) s3 s4"
    using bzero_logged [OF l3(1) dev bl l3'] by blast
  have ne: "(of_nat bi :: u32) \<noteq> bm" using ub own by auto
  have fnd: "List.find (bit_free B) [0..<min BPB (unat (sb_size (sb s)) - 0)] = Some bi"
    unfolding find_Some_iff using bi sz by (intro exI [of _ bi]) auto
  have "balloc dev s = Ok (of_nat bi, s4)"
    using b z(1) fnd fs_fields [OF b(2)] B(1) unfolding balloc_def bs balloc_loop.simps bb by simp
  moreover have "sb s4 = sb s" "inodes s4 = inodes s"
    using z(2) l3(3) fs_fields [of s4 s] by (simp_all add: logged_def)
  moreover have "view s4 d c = (if d = dev \<and> c = bm then mark_used bi B
       else if d = dev \<and> c = of_nat bi then replicate BSIZE 0 else view s d c)" if "d \<noteq> 0" for d c
    using z(2) b(7) that ne B(1) by (auto simp: logged_def)
  moreover have "qbio s4" "disk s4 = disk s" using z(2) l3(4) by (simp_all add: logged_def)
  ultimately show ?thesis by blast
qed

section \<open>The inode cache\<close>

text \<open>At most one cache entry per inode; reference counts are not negative.\<close>

definition icache_inv :: "'a fs_scheme \<Rightarrow> bool" where
  "icache_inv s \<longleftrightarrow> (\<forall>i<NINODE. 0 \<le> i_ref (inodes s i)) \<and>
     (\<forall>i<NINODE. \<forall>j<NINODE. 0 < i_ref (inodes s i) \<longrightarrow> 0 < i_ref (inodes s j) \<longrightarrow>
        i_dev (inodes s i) = i_dev (inodes s j) \<longrightarrow> i_inum (inodes s i) = i_inum (inodes s j) \<longrightarrow> i = j)"

lemma iget_result:
  assumes inv: "icache_inv s" and g: "iget dev inum s = Ok (ip, s')"
  shows "ip < NINODE \<and> icache_inv s' \<and> i_dev (inodes s' ip) = dev \<and> i_inum (inodes s' ip) = inum \<and>
    i_ref (inodes s' ip) = i_ref (inodes s ip) + 1 \<and> (\<forall>j. j \<noteq> ip \<longrightarrow> inodes s' j = inodes s j) \<and>
    (0 < i_ref (inodes s ip) \<longrightarrow> inodes s' ip = (inodes s ip)\<lparr>i_ref := i_ref (inodes s ip) + 1\<rparr>)"
proof (cases "List.find (\<lambda>i. i_ref (inodes s i) > 0 \<and> i_dev (inodes s i) = dev \<and> i_inum (inodes s i) = inum) [0..<NINODE]")
  case (Some k)
  then have k: "ip = k" "s' = upd_inode k (\<lambda>x. x\<lparr>i_ref := i_ref x + 1\<rparr>) s" using g by (auto simp: iget_def)
  have "k < NINODE \<and> i_ref (inodes s k) > 0 \<and> i_dev (inodes s k) = dev \<and> i_inum (inodes s k) = inum"
    using Some by (auto simp: find_Some_iff)
  then show ?thesis using inv k by (auto simp: icache_inv_def upd_inode_def)
next
  case None
  then obtain k where f: "List.find (\<lambda>i. i_ref (inodes s i) = 0) [0..<NINODE] = Some k"
    and k: "ip = k" "s' = upd_inode k (\<lambda>x. x\<lparr>i_dev := dev, i_inum := inum, i_ref := 1, i_valid := False\<rparr>) s"
    using g by (auto simp: iget_def split: option.splits)
  have kk: "k < NINODE" "i_ref (inodes s k) = 0" using f by (auto simp: find_Some_iff)
  have no: "j < NINODE \<Longrightarrow> 0 < i_ref (inodes s j) \<Longrightarrow> \<not> (i_dev (inodes s j) = dev \<and> i_inum (inodes s j) = inum)" for j
    using None by (auto simp: find_None_iff)
  have "icache_inv s'"
    unfolding icache_inv_def k(2) upd_inode_def
    using inv no kk by (auto simp: icache_inv_def)
  then show ?thesis using k kk by (simp add: upd_inode_def)
qed

section \<open>Path names\<close>

text \<open>The elements of a path: the maximal runs of bytes other than slashes.\<close>

fun split_path :: "u8 list \<Rightarrow> u8 list \<Rightarrow> u8 list list" where
  "split_path e [] = (if e = [] then [] else [e])"
| "split_path e (c # cs) = (if c = slash then (if e = [] then [] else [e]) @ split_path [] cs else split_path (e @ [c]) cs)"

text \<open>The names that repeated calls of \<^verbatim>\<open>skipelem\<close> produce.\<close>

function path_elems :: "u8 list \<Rightarrow> u8 list list" where
  "path_elems path = (case skipelem path of None \<Rightarrow> [] | Some (rest, name) \<Rightarrow> name # path_elems rest)"
  by pat_completeness auto
termination by (relation "measure length") (auto dest: skipelem_shorter)

declare path_elems.simps [simp del]

lemma split_path_skip: "split_path [] (dropWhile (\<lambda>c. c = slash) p) = split_path [] p"
  by (induction p) auto

lemma split_path_elem:
  "split_path e p = (let x = e @ takeWhile (\<lambda>c. c \<noteq> slash) p in if x = [] then [] else [x]) @ split_path [] (dropWhile (\<lambda>c. c \<noteq> slash) p)"
  by (induction p arbitrary: e) (auto simp: Let_def)

lemma path_elems_split: "path_elems path = map (take DIRSIZ) (split_path [] path)"
proof (induction path rule: path_elems.induct)
  case (1 path)
  let ?p = "dropWhile (\<lambda>c. c = slash) path"
  show ?case
  proof (cases "?p = []")
    case True
    then have "split_path [] path = split_path [] []" using split_path_skip [of path] by metis
    then show ?thesis using True by (simp add: path_elems.simps skipelem_def)
  next
    case False
    let ?e = "takeWhile (\<lambda>c. c \<noteq> slash) ?p" and ?q = "dropWhile (\<lambda>c. c \<noteq> slash) ?p"
    let ?r = "dropWhile (\<lambda>c. c = slash) ?q"
    have sk: "skipelem path = Some (?r, take DIRSIZ ?e)" using False by (simp add: skipelem_def Let_def)
    have ne: "?e \<noteq> []" using hd_dropWhile [OF False] False by (cases ?p) auto
    have "split_path [] path = ?e # split_path [] ?r"
      using split_path_skip [of path] split_path_elem [of "[]" ?p] ne split_path_skip [of ?q] by (simp add: Let_def)
    then show ?thesis using 1 [OF sk refl] by (simp add: path_elems.simps [of path] sk)
  qed
qed

section \<open>Properties\<close>

text \<open>C22: \<^verbatim>\<open>balloc\<close> on a file system with one bitmap block returns the first block that
  the bitmap has free, marks that block and no other as used, zeroes it, changes no other block, and
  writes nothing to the disk before the commit.\<close>

theorem balloc_correct:
  fixes s :: "'a fs_scheme"
  assumes "qbio s" "dev \<noteq> 0" "0 < unat (sb_size (sb s))" "unat (sb_size (sb s)) \<le> FSSIZE"
    and "bm = sb_bmapstart (sb s)" "unat bm < FSSIZE" "length (view s dev bm) = BSIZE"
    and "bi < unat (sb_size (sb s))" "bit_free (view s dev bm) bi" "\<forall>j<bi. \<not> bit_free (view s dev bm) j"
    and "bi \<noteq> unat bm" "log_room 2 s"
  shows "\<exists>s'. balloc dev s = Ok (of_nat bi, s') \<and> qbio s' \<and> disk s' = disk s \<and>
    (\<forall>j. bit_free (view s' dev bm) j \<longleftrightarrow> bit_free (view s dev bm) j \<and> j \<noteq> bi) \<and>
    view s' dev (of_nat bi) = replicate BSIZE 0 \<and>
    (\<forall>c. c \<noteq> bm \<longrightarrow> c \<noteq> of_nat bi \<longrightarrow> view s' dev c = view s dev c)"
proof -
  obtain s' where s': "balloc dev s = Ok (of_nat bi, s')" "qbio s'" "disk s' = disk s"
    and v: "\<forall>d c. d \<noteq> 0 \<longrightarrow> view s' d c = (if d = dev \<and> c = bm then mark_used bi (view s dev bm)
       else if d = dev \<and> c = of_nat bi then replicate BSIZE 0 else view s d c)"
    using balloc_result [OF assms(1-6) refl assms(7-12)] by blast
  have "unat (of_nat bi :: u32) = bi" using assms(4,8) by (intro unat_of_nat32) simp
  then have ne: "(of_nat bi :: u32) \<noteq> bm" using assms(11) by auto
  have "bi div 8 < length (view s dev bm)" using assms(4,7,8) by simp
  then show ?thesis using s' v assms(2) ne bit_free_marks(1) by auto
qed

definition demo_fs :: fs where
  "demo_fs = \<lparr>bufs = (\<lambda>_. zero_buf), lru = [0..<30],
     disk = (\<lambda>_ b. if b = 58 then replicate 8 255 @ replicate 504 0 else replicate 512 0),
     havedisk1 = True, dwrites = [], woken = [],
     l_start = 2, l_size = 30, l_outstanding = 1, l_committing = False, l_dev = 1, lh_n = 0, lh_block = replicate 30 0,
     sb = \<lparr>sb_size = 1000, sb_nblocks = 941, sb_ninodes = 200, sb_nlog = 30, sb_logstart = 2, sb_inodestart = 32, sb_bmapstart = 58\<rparr>,
     inodes = (\<lambda>i. \<lparr>i_dev = 1, i_inum = if i = 0 then 9 else 0, i_ref = if i = 0 then 1 else 0, i_locked = False,
        i_valid = (i = 0), i_type = 2, i_major = 0, i_minor = 0, i_nlink = 1, i_size = 700, i_addrs = [59, 60] @ replicate 11 0\<rparr>)\<rparr>"

lemma demo_fs_binv: "binv demo_fs"
  by (auto simp: binv_def demo_fs_def zero_buf_def)

lemma demo_fs_qbio: "qbio demo_fs"
  using demo_fs_binv by (auto simp: qbio_def demo_fs_def zero_buf_def)

lemma demo_fs_dirties: "dirties demo_fs = {}"
  by (auto simp: dirties_def demo_fs_def zero_buf_def)

lemma demo_fs_view: "view demo_fs 1 b = disk demo_fs 1 b"
  by (rule view_uncached [OF demo_fs_binv]) (simp add: cached_def demo_fs_def zero_buf_def)

lemma demo_fs_room: "log_room k demo_fs" if "k \<le> 29"
  using that by (simp add: log_room_def demo_fs_dirties) (simp add: demo_fs_def)

theorem balloc_correct_witness:
  "\<exists>s'. balloc 1 demo_fs = Ok (64, s') \<and> view s' 1 64 = replicate 512 0"
proof -
  have v: "view demo_fs 1 58 = replicate 8 255 @ replicate 504 0" by (simp add: demo_fs_view) (simp add: demo_fs_def)
  have sbs: "sb_size (sb demo_fs) = 1000" "sb_bmapstart (sb demo_fs) = 58" by (simp_all add: demo_fs_def)
  have fr: "bit_free (view demo_fs 1 58) 64" unfolding v by (simp add: bit_free_def nth_append)
  have used: "\<forall>j<64. \<not> bit_free (view demo_fs 1 58) j"
  proof (intro allI impI)
    fix j :: nat assume j: "j < 64"
    then have "(replicate 8 255 @ replicate 504 0) ! (j div 8) = (255 :: u8)" by (simp add: nth_append)
    moreover have "j mod 8 = 0 \<or> j mod 8 = 1 \<or> j mod 8 = 2 \<or> j mod 8 = 3 \<or> j mod 8 = 4 \<or> j mod 8 = 5 \<or> j mod 8 = 6 \<or> j mod 8 = 7" by arith
    ultimately show "\<not> bit_free (view demo_fs 1 58) j" unfolding v bit_free_def by (elim disjE) simp_all
  qed
  have "\<exists>s'. balloc 1 demo_fs = Ok (of_nat 64, s') \<and> qbio s' \<and> disk s' = disk demo_fs \<and>
    (\<forall>j. bit_free (view s' 1 58) j \<longleftrightarrow> bit_free (view demo_fs 1 58) j \<and> j \<noteq> 64) \<and>
    view s' 1 (of_nat 64) = replicate BSIZE 0 \<and>
    (\<forall>c. c \<noteq> 58 \<longrightarrow> c \<noteq> of_nat 64 \<longrightarrow> view s' 1 c = view demo_fs 1 c)"
    by (rule balloc_correct [OF demo_fs_qbio _ _ _ _ _ _ _ fr used _ demo_fs_room]) (simp_all add: sbs v)
  then show ?thesis by auto
qed

text \<open>The inode cache never holds an inode twice. \<^verbatim>\<open>iget\<close> keeps this invariant, returns an entry
  for the inode asked for with one more reference, and touches no other entry; an entry that was
  in use keeps everything but its count.\<close>

theorem iget_unique:
  assumes "icache_inv s" "iget dev inum s = Ok (ip, s')"
  shows "icache_inv s' \<and> ip < NINODE \<and> i_dev (inodes s' ip) = dev \<and> i_inum (inodes s' ip) = inum \<and>
    i_ref (inodes s' ip) = i_ref (inodes s ip) + 1 \<and> (\<forall>j. j \<noteq> ip \<longrightarrow> inodes s' j = inodes s j) \<and>
    (0 < i_ref (inodes s ip) \<longrightarrow> inodes s' ip = (inodes s ip)\<lparr>i_ref := i_ref (inodes s ip) + 1\<rparr>)"
  using iget_result [OF assms] by blast

theorem iget_unique_witness:
  "\<exists>s'. iget 1 9 demo_fs = Ok (0, s') \<and> icache_inv s' \<and> i_ref (inodes s' 0) = 2"
proof -
  have inv: "icache_inv demo_fs" by (auto simp: icache_inv_def demo_fs_def)
  have "iget 1 9 demo_fs = Ok (0, upd_inode 0 (\<lambda>x. x\<lparr>i_ref := i_ref x + 1\<rparr>) demo_fs)"
    by (simp add: iget_def demo_fs_def upt_conv_Cons)
  from this iget_unique [OF inv this] show ?thesis by (auto simp: upd_inode_def demo_fs_def)
qed

text \<open>The loop of \<^verbatim>\<open>namex\<close> over \<^verbatim>\<open>skipelem\<close> visits exactly the non-empty components between
  slashes, in order, each cut to \<open>DIRSIZ\<close> bytes.\<close>

theorem skipelem_components: "path_elems path = map (take DIRSIZ) (split_path [] path)"
  by (rule path_elems_split)

end
