(* ===== verification/Mem.thy ===== *)
theory Mem
  imports Xv6_Prelude
begin

text \<open>
  Byte-addressed memory and the routines of \<^verbatim>\<open>string.c\<close> over it. A pointer is a 32-bit
  address; a routine that writes through a pointer returns the new memory (its C result, the
  destination pointer, is the argument it was given). A loop whose bound is a C integer is a
  recursion on that number; \<^verbatim>\<open>strlen\<close>, which has no bound, may fail to return.
\<close>

section \<open>Memory and 32-bit accesses\<close>

type_synonym memory = "u32 \<Rightarrow> u8"

text \<open>A 32-bit load and store at an address, little-endian as on the x86.\<close>

definition load32 :: "memory \<Rightarrow> u32 \<Rightarrow> u32" where
  "load32 m a = ucast (m a) OR push_bit 8 (ucast (m (a + 1))) OR
     push_bit 16 (ucast (m (a + 2))) OR push_bit 24 (ucast (m (a + 3)))"

definition store32 :: "memory \<Rightarrow> u32 \<Rightarrow> u32 \<Rightarrow> memory" where
  "store32 m a v = m(a := ucast v, a + 1 := ucast (drop_bit 8 v),
     a + 2 := ucast (drop_bit 16 v), a + 3 := ucast (drop_bit 24 v))"

text \<open>\<^verbatim>\<open>cld; rep stosb\<close> and \<^verbatim>\<open>cld; rep stosl\<close> (\<^verbatim>\<open>x86.h\<close>): \<open>cnt\<close> bytes or double words
  stored upwards from \<open>a\<close>.\<close>

definition stosb :: "memory \<Rightarrow> u32 \<Rightarrow> u32 \<Rightarrow> u32 \<Rightarrow> memory" where
  "stosb m a d cnt = (\<lambda>x. if x - a < cnt then ucast d else m x)"

definition stosl :: "memory \<Rightarrow> u32 \<Rightarrow> u32 \<Rightarrow> u32 \<Rightarrow> memory" where
  "stosl m a d cnt = (\<lambda>x. if unat (x - a) < 4 * unat cnt
     then ucast (drop_bit (8 * (unat (x - a) mod 4)) d) else m x)"

section \<open>The routines of string.c\<close>

text \<open>The remainder \<^verbatim>\<open>(int)dst%4\<close> of a signed dividend is zero exactly when the unsigned
  remainder is.\<close>

definition memset :: "memory \<Rightarrow> u32 \<Rightarrow> u32 \<Rightarrow> u32 \<Rightarrow> memory" where
  "memset m dst c n =
     (if dst mod 4 = 0 \<and> n mod 4 = 0 then
        let c = c AND 0xFF in
        stosl m dst (push_bit 24 c OR push_bit 16 c OR push_bit 8 c OR c) (n div 4)
      else stosb m dst c n)"

fun memcmp_loop :: "memory \<Rightarrow> u32 \<Rightarrow> u32 \<Rightarrow> nat \<Rightarrow> int" where
  "memcmp_loop m s1 s2 0 = 0"
| "memcmp_loop m s1 s2 (Suc n) =
     (if m s1 \<noteq> m s2 then uint (m s1) - uint (m s2) else memcmp_loop m (s1 + 1) (s2 + 1) n)"

definition memcmp :: "memory \<Rightarrow> u32 \<Rightarrow> u32 \<Rightarrow> u32 \<Rightarrow> int" where
  "memcmp m v1 v2 n = memcmp_loop m v1 v2 (unat n)"

fun memmove_down :: "memory \<Rightarrow> u32 \<Rightarrow> u32 \<Rightarrow> nat \<Rightarrow> memory" where
  "memmove_down m d s 0 = m"
| "memmove_down m d s (Suc n) = memmove_down (m(d - 1 := m (s - 1))) (d - 1) (s - 1) n"

fun memmove_up :: "memory \<Rightarrow> u32 \<Rightarrow> u32 \<Rightarrow> nat \<Rightarrow> memory" where
  "memmove_up m d s 0 = m"
| "memmove_up m d s (Suc n) = memmove_up (m(d := m s)) (d + 1) (s + 1) n"

definition memmove :: "memory \<Rightarrow> u32 \<Rightarrow> u32 \<Rightarrow> u32 \<Rightarrow> memory" where
  "memmove m dst src n =
     (if src < dst \<and> src + n > dst then memmove_down m (dst + n) (src + n) (unat n)
      else memmove_up m dst src (unat n))"

definition memcpy :: "memory \<Rightarrow> u32 \<Rightarrow> u32 \<Rightarrow> u32 \<Rightarrow> memory" where
  "memcpy m dst src n = memmove m dst src n"

fun strncmp_loop :: "memory \<Rightarrow> u32 \<Rightarrow> u32 \<Rightarrow> nat \<Rightarrow> int" where
  "strncmp_loop m p q 0 = 0"
| "strncmp_loop m p q (Suc n) =
     (if m p \<noteq> 0 \<and> m p = m q then strncmp_loop m (p + 1) (q + 1) n
      else uint (m p) - uint (m q))"

definition strncmp :: "memory \<Rightarrow> u32 \<Rightarrow> u32 \<Rightarrow> u32 \<Rightarrow> int" where
  "strncmp m p q n = strncmp_loop m p q (unat n)"

fun zero_loop :: "memory \<Rightarrow> u32 \<Rightarrow> nat \<Rightarrow> memory" where
  "zero_loop m s 0 = m"
| "zero_loop m s (Suc n) = zero_loop (m(s := 0)) (s + 1) n"

fun strncpy_loop :: "memory \<Rightarrow> u32 \<Rightarrow> u32 \<Rightarrow> nat \<Rightarrow> memory" where
  "strncpy_loop m s t 0 = m"
| "strncpy_loop m s t (Suc n) =
     (if m t \<noteq> 0 then strncpy_loop (m(s := m t)) (s + 1) (t + 1) n
      else zero_loop (m(s := m t)) (s + 1) n)"

text \<open>\<^verbatim>\<open>strncpy\<close> and \<^verbatim>\<open>safestrcpy\<close> take a signed count; a count of zero or less copies
  nothing.\<close>

definition strncpy :: "memory \<Rightarrow> u32 \<Rightarrow> u32 \<Rightarrow> int \<Rightarrow> memory" where
  "strncpy m s t n = strncpy_loop m s t (nat n)"

fun safestrcpy_loop :: "memory \<Rightarrow> u32 \<Rightarrow> u32 \<Rightarrow> nat \<Rightarrow> memory" where
  "safestrcpy_loop m s t 0 = m(s := 0)"
| "safestrcpy_loop m s t (Suc n) =
     (if m t \<noteq> 0 then safestrcpy_loop (m(s := m t)) (s + 1) (t + 1) n
      else (m(s := m t))(s + 1 := 0))"

definition safestrcpy :: "memory \<Rightarrow> u32 \<Rightarrow> u32 \<Rightarrow> int \<Rightarrow> memory" where
  "safestrcpy m s t n = (if n \<le> 0 then m else safestrcpy_loop m s t (nat (n - 1)))"

partial_function (option) strlen_loop :: "memory \<Rightarrow> u32 \<Rightarrow> nat \<Rightarrow> nat option" where
  "strlen_loop m s n = (if m (s + of_nat n) = 0 then Some n else strlen_loop m s (Suc n))"

definition strlen :: "memory \<Rightarrow> u32 \<Rightarrow> nat option" where
  "strlen m s = strlen_loop m s 0"

text \<open>The C string at \<open>p\<close>, cut at \<open>n\<close> bytes: what \<^verbatim>\<open>strncmp\<close> compares.\<close>

definition cstr :: "memory \<Rightarrow> u32 \<Rightarrow> nat \<Rightarrow> u8 list" where
  "cstr m p n = takeWhile (\<lambda>c. c \<noteq> 0) (map (\<lambda>i. m (p + of_nat i)) [0..<n])"

section \<open>Lemmas\<close>

lemma memmove_up_eq:
  assumes "unat d + n \<le> 4294967296" "unat s + n \<le> 4294967296"
    and "d \<le> s \<or> unat s + n \<le> unat d"
  shows "memmove_up m d s n = (\<lambda>x. if unat (x - d) < n then m (s + (x - d)) else m x)"
  using assms
proof (induction n arbitrary: m d s)
  case 0
  then show ?case by simp
next
  case (Suc n)
  let ?m = "m(d := m s)"
  have ov: "s + (x - d) \<noteq> d" if "x \<noteq> d" "unat (x - d) < Suc n" for x
  proof
    assume a: "s + (x - d) = d"
    have "unat (s + (x - d)) = unat s + unat (x - d)"
      using that Suc.prems by (intro unat_add_small) simp
    then have "unat d = unat s + unat (x - d)" unfolding a .
    then show False using that Suc.prems(3) unat_diff_pos [OF that(1)]
      by (auto simp: word_le_nat_alt)
  qed
  show ?case
  proof (cases "n = 0")
    case True
    then show ?thesis using unat_diff_pos [of _ d] by (fastforce simp: fun_eq_iff)
  next
    case False
    then have bd: "unat (d + 1) = unat d + 1" "unat (s + 1) = unat s + 1"
      using Suc.prems by (simp_all add: unat_word_ariths)
    have "memmove_up ?m (d + 1) (s + 1) n =
      (\<lambda>x. if unat (x - (d + 1)) < n then ?m (s + 1 + (x - (d + 1))) else ?m x)"
      using Suc.prems bd by (intro Suc.IH) (auto simp: word_le_nat_alt)
    also have "\<dots> = (\<lambda>x. if unat (x - d) < Suc n then m (s + (x - d)) else m x)"
    proof
      fix x
      show "(if unat (x - (d + 1)) < n then ?m (s + 1 + (x - (d + 1))) else ?m x) =
        (if unat (x - d) < Suc n then m (s + (x - d)) else m x)"
        using ov [of x] Suc.prems unat_diff_pos [of x d]
        by (auto simp: unat_diff_Suc)
    qed
    finally show ?thesis by simp
  qed
qed

lemma memmove_down_eq:
  assumes "unat d + n \<le> 4294967296" "unat s + n \<le> 4294967296" and "s \<le> d"
  shows "memmove_down m (d + of_nat n) (s + of_nat n) n =
    (\<lambda>x. if unat (x - d) < n then m (s + (x - d)) else m x)"
  using assms(1,2)
proof (induction n arbitrary: m)
  case 0
  then show ?case by simp
next
  case (Suc n)
  let ?dn = "d + of_nat n" and ?sn = "s + of_nat n"
  let ?m = "m(?dn := m ?sn)"
  have n: "unat (of_nat n :: u32) = n"
    using Suc.prems by (simp add: unat_of_nat)
  have dn: "unat ?dn = unat d + n" and sn: "unat ?sn = unat s + n"
    using Suc.prems n by (simp_all add: unat_add_small)
  have eq: "x = ?dn \<longleftrightarrow> unat (x - d) = n" for x
  proof -
    have "x = ?dn \<longleftrightarrow> x - d = of_nat n" by (simp add: diff_eq_eq add.commute)
    then show ?thesis using n by (metis word_unat_eq_iff)
  qed
  have ov: "s + (x - d) \<noteq> ?dn" if "unat (x - d) < n" for x
  proof
    assume a: "s + (x - d) = ?dn"
    have "unat (s + (x - d)) = unat s + unat (x - d)"
      using that Suc.prems by (intro unat_add_small) simp
    then have "unat ?dn = unat s + unat (x - d)" unfolding a .
    then show False using that dn assms(3) by (simp add: word_le_nat_alt)
  qed
  have "memmove_down ?m ?dn ?sn n = (\<lambda>x. if unat (x - d) < n then ?m (s + (x - d)) else ?m x)"
    using Suc.prems by (intro Suc.IH) simp_all
  also have "\<dots> = (\<lambda>x. if unat (x - d) < Suc n then m (s + (x - d)) else m x)"
  proof
    fix x
    have "unat (x - d) = n \<Longrightarrow> s + (x - d) = ?sn" using eq [of x] by simp
    then show "(if unat (x - d) < n then ?m (s + (x - d)) else ?m x) =
      (if unat (x - d) < Suc n then m (s + (x - d)) else m x)"
      using ov [of x] eq [of x] by auto
  qed
  finally show ?case by (simp add: algebra_simps)
qed

lemma memmove_eq:
  assumes "unat dst + unat n \<le> 4294967296" "unat src + unat n < 4294967296"
  shows "memmove m dst src n = (\<lambda>x. if x - dst < n then m (src + (x - dst)) else m x)"
proof -
  have e: "unat (src + n) = unat src + unat n"
    using assms by (intro unat_add_small)
  show ?thesis
  proof (cases "src < dst \<and> src + n > dst")
    case True
    have "memmove_down m (dst + of_nat (unat n)) (src + of_nat (unat n)) (unat n) =
      (\<lambda>x. if unat (x - dst) < unat n then m (src + (x - dst)) else m x)"
      using assms True by (intro memmove_down_eq) auto
    then show ?thesis using True by (simp add: memmove_def word_less_nat_alt)
  next
    case False
    have "memmove_up m dst src (unat n) =
      (\<lambda>x. if unat (x - dst) < unat n then m (src + (x - dst)) else m x)"
      using assms False e by (intro memmove_up_eq) (auto simp: word_less_nat_alt word_le_nat_alt)
    then show ?thesis using False by (auto simp: memmove_def word_less_nat_alt)
  qed
qed

lemma rep_byte:
  assumes "k < 4"
  shows "ucast (drop_bit (8 * k) (push_bit 24 (c AND 0xFF) OR push_bit 16 (c AND 0xFF) OR
    push_bit 8 (c AND 0xFF) OR ((c :: u32) AND 0xFF))) = (ucast c :: u8)"
proof -
  have m: "(0xFF :: u32) = mask 8" by (simp add: mask_eq_exp_minus_1)
  have "k \<in> {0, 1, 2, 3}" using assms by auto
  then show ?thesis unfolding m
    by (auto intro!: bit_word_eqI simp: bit_simps)
qed

lemma memset_eq: "memset m dst c n = (\<lambda>x. if x - dst < n then ucast c else m x)"
proof (cases "dst mod 4 = 0 \<and> n mod 4 = 0")
  case True
  then have "unat (n mod 4) = 0" by simp
  then have "unat n mod 4 = 0" by (simp add: unat_mod_distrib)
  then have "4 * (unat n div 4) = unat n" by presburger
  then have "4 * unat (n div 4) = unat n" by (simp add: unat_div_distrib)
  moreover have "unat x mod 4 < 4" for x :: u32 by simp
  ultimately show ?thesis using True
    by (simp only: memset_def stosl_def Let_def rep_byte word_less_nat_alt if_True simp_thms)
next
  case False
  then show ?thesis by (auto simp: memset_def stosb_def)
qed

lemma memcmp_loop_zero:
  "memcmp_loop m s1 s2 n = 0 \<longleftrightarrow> (\<forall>i<n. m (s1 + of_nat i) = m (s2 + of_nat i))"
proof (induction n arbitrary: s1 s2)
  case (Suc n)
  have "(\<forall>i<Suc n. m (s1 + of_nat i) = m (s2 + of_nat i)) \<longleftrightarrow>
    m s1 = m s2 \<and> (\<forall>i<n. m (s1 + 1 + of_nat i) = m (s2 + 1 + of_nat i))"
    by (simp add: All_less_Suc2 add.assoc)
  then show ?case by (auto simp: Suc.IH word_uint_eq_iff)
qed simp

lemma cstr_0 [simp]: "cstr m p 0 = []"
  by (simp add: cstr_def)

lemma cstr_Suc: "cstr m p (Suc n) = (if m p \<noteq> 0 then m p # cstr m (p + 1) n else [])"
  by (simp add: cstr_def upt_conv_Cons map_Suc_upt [symmetric] comp_def add.assoc del: upt_Suc)

lemma strncmp_loop_zero: "strncmp_loop m p q n = 0 \<longleftrightarrow> cstr m p n = cstr m q n"
  by (induction n arbitrary: p q) (auto simp: cstr_Suc word_uint_eq_iff)


lemma strlen_loop_found:
  assumes "m (s + of_nat (n + k)) = 0" "\<forall>i<k. m (s + of_nat (n + i)) \<noteq> 0"
  shows "strlen_loop m s n = Some (n + k)"
  using assms
proof (induction k arbitrary: n)
  case 0
  then show ?case by (simp add: strlen_loop.simps)
next
  case (Suc k)
  from Suc.prems(2) have "m (s + of_nat n) \<noteq> 0" by force
  moreover have "strlen_loop m s (Suc n) = Some (Suc n + k)"
  proof (rule Suc.IH)
    show "m (s + of_nat (Suc n + k)) = 0" using Suc.prems(1) by simp
    show "\<forall>i<k. m (s + of_nat (Suc n + i)) \<noteq> 0"
      using Suc.prems(2) by (metis Suc_less_eq add_Suc add_Suc_right)
  qed
  ultimately show ?case by (simp add: strlen_loop.simps [of m s n])
qed

lemma zero_loop_out: "(\<forall>i<n. x \<noteq> s + of_nat i) \<Longrightarrow> zero_loop m s n x = m x"
proof (induction n arbitrary: m s)
  case (Suc n)
  then show ?case by (simp add: All_less_Suc2 add.assoc)
qed simp

lemma strncpy_loop_out: "(\<forall>i<n. x \<noteq> s + of_nat i) \<Longrightarrow> strncpy_loop m s t n x = m x"
proof (induction n arbitrary: m s t)
  case (Suc n)
  then show ?case by (simp add: All_less_Suc2 add.assoc zero_loop_out)
qed simp

lemma safestrcpy_loop_out: "(\<forall>i<Suc n. x \<noteq> s + of_nat i) \<Longrightarrow> safestrcpy_loop m s t n x = m x"
proof (induction n arbitrary: m s t)
  case (Suc n)
  then show ?case by (simp add: All_less_Suc2 add.assoc)
qed simp

lemma safestrcpy_loop_nul: "\<exists>i<Suc n. safestrcpy_loop m s t n (s + of_nat i) = 0"
proof (induction n arbitrary: m s t)
  case 0
  then show ?case by simp
next
  case (Suc n)
  show ?case
  proof (cases "m t = 0")
    case True
    then show ?thesis by (intro exI [of _ 0]) simp
  next
    case False
    obtain i where "i < Suc n" "safestrcpy_loop (m(s := m t)) (s + 1) (t + 1) n (s + 1 + of_nat i) = 0"
      using Suc.IH by blast
    then show ?thesis using False by (intro exI [of _ "Suc i"]) (simp add: add.assoc)
  qed
qed

lemma load32_store32 [simp]: "load32 (store32 m a v) a = v"
proof (rule bit_word_eqI)
  fix n assume "n < LENGTH(32)"
  then show "bit (load32 (store32 m a v) a) n = bit v n"
    unfolding load32_def store32_def
    by (cases "n < 8"; cases "n < 16"; cases "n < 24"; simp add: bit_simps; arith)
qed

lemma aligned_bytes:
  fixes a b :: u32
  assumes "a mod 4 = 0" "b mod 4 = 0" "i < 4" "j < 4" "a + of_nat i = b + of_nat j"
  shows "a = b"
proof -
  have al: "unat (c + of_nat k) = unat c + k" if "c mod 4 = 0" "k < 4" for c :: u32 and k
  proof -
    have "unat (c mod 4) = 0" using that by simp
    then have "unat c mod 4 = 0" by (simp add: unat_mod_distrib)
    moreover have "unat c < 4294967296" by simp
    ultimately have "unat c + k < 4294967296" using that(2) by presburger
    moreover have "unat (of_nat k :: u32) = k" using that by (simp add: unat_of_nat)
    ultimately show ?thesis by (simp add: unat_add_small)
  qed
  have m: "unat c mod 4 = 0" if "c mod 4 = 0" for c :: u32
  proof -
    have "unat (c mod 4) = 0" using that by simp
    then show ?thesis by (simp add: unat_mod_distrib)
  qed
  have "unat a + i = unat b + j" using al [of a i] al [of b j] assms by simp
  then have "unat a = unat b" using m [OF assms(1)] m [OF assms(2)] assms(3,4) by presburger
  then show ?thesis by (simp add: word_unat_eq_iff)
qed

lemma load32_cong:
  assumes "\<And>i. i < 4 \<Longrightarrow> m (a + of_nat i) = m' (a + of_nat i)"
  shows "load32 m a = load32 m' a"
  using assms [of 0] assms [of 1] assms [of 2] assms [of 3] by (simp add: load32_def)

lemma store32_out: "(\<forall>i<4. x \<noteq> a + of_nat i) \<Longrightarrow> store32 m a v x = m x"
  by (auto simp: store32_def dest: spec [of _ "0::nat"] spec [of _ "1::nat"] spec [of _ "2::nat"] spec [of _ "3::nat"])

lemma load32_store32_other:
  assumes "a mod 4 = 0" "b mod 4 = 0" "a \<noteq> b"
  shows "load32 (store32 m a v) b = load32 m b"
  using assms aligned_bytes by (intro load32_cong store32_out) metis

section \<open>Pages\<close>

lemma page_dvd:
  assumes "p mod 4096 = 0"
  obtains k where "unat (p :: u32) = 4096 * k" "k < 1048576"
proof -
  have "unat (p mod 4096) = 0" using assms by simp
  then have "unat p mod 4096 = 0" by (simp add: unat_mod_distrib)
  then obtain k where k: "unat p = 4096 * k" by auto
  have "unat p < 4294967296" by simp
  with k have "k < 1048576" by simp
  with k show ?thesis by (rule that)
qed

lemma unat_page_off:
  assumes "p mod 4096 = 0" "i < (4096 :: u32)"
  shows "unat (p + i) = unat p + unat i"
proof (rule unat_add_small)
  obtain k where "unat p = 4096 * k" "k < 1048576" using page_dvd [OF assms(1)] .
  moreover have "unat i < 4096" using assms(2) by (simp add: word_less_nat_alt)
  ultimately show "unat p + unat i < 4294967296" by linarith
qed

lemma page_off_inj:
  assumes "p mod 4096 = 0" "q mod 4096 = 0" "i < (4096 :: u32)" "j < 4096" "p + i = q + j"
  shows "p = q \<and> i = j"
proof -
  obtain k l where k: "unat p = 4096 * k" and l: "unat q = 4096 * l"
    using page_dvd [OF assms(1)] page_dvd [OF assms(2)] by metis
  have "unat p + unat i = unat q + unat j"
    using assms unat_page_off [of p i] unat_page_off [of q j] by metis
  moreover have "unat i < 4096" "unat j < 4096" using assms by (simp_all add: word_less_nat_alt)
  ultimately have "k = l" using k l by linarith
  then have "p = q" using k l by (simp add: word_unat_eq_iff)
  with assms show ?thesis by simp
qed

lemma in_page_iff:
  assumes "p mod 4096 = 0" "q mod 4096 = 0" "i < (4096 :: u32)"
  shows "q + i - p < 4096 \<longleftrightarrow> p = q"
proof
  assume a: "q + i - p < 4096"
  have "p + (q + i - p) = q + i" by simp
  from page_off_inj [OF assms(1,2) a assms(3) this] show "p = q" by (rule conjunct1)
next
  assume "p = q"
  then have "q + i - p = i" by simp
  with assms(3) show "q + i - p < 4096" by (simp only:)
qed

text \<open>A memory that agrees with another on a page.\<close>

definition same_page :: "memory \<Rightarrow> memory \<Rightarrow> u32 \<Rightarrow> bool" where
  "same_page m m' p \<longleftrightarrow> (\<forall>i<4096. m (p + i) = m' (p + i))"

lemma word4_cases: "(i :: u32) < 4096 \<Longrightarrow> i mod 4 = 0 \<Longrightarrow> k < 4 \<Longrightarrow> i + of_nat k < 4096"
proof -
  assume a: "i < 4096" "i mod 4 = 0" "k < 4"
  have "unat (i mod 4) = 0" using a by simp
  then have "unat i mod 4 = 0" by (simp add: unat_mod_distrib)
  moreover have "unat i < 4096" using a by (simp add: word_less_nat_alt)
  ultimately have l: "unat i + k < 4096" using a(3) by presburger
  have "unat (of_nat k :: u32) = k" using a by (simp add: unat_of_nat)
  then show ?thesis using l by (simp add: word_less_nat_alt unat_add_small)
qed

lemma load32_same_page:
  assumes "same_page m m' p" "i < 4096" "i mod 4 = 0"
  shows "load32 m (p + i) = load32 m' (p + i)"
proof (rule load32_cong)
  fix k :: nat assume "k < 4"
  then show "m (p + i + of_nat k) = m' (p + i + of_nat k)"
    using assms word4_cases [of i k] by (simp add: same_page_def add.assoc)
qed

lemma same_page_store32:
  assumes "p mod 4096 = 0" "q mod 4096 = 0" "p \<noteq> q" "i < 4096" "i mod 4 = 0"
  shows "same_page (store32 m (p + i) v) m q"
  unfolding same_page_def
proof (intro allI impI store32_out notI)
  fix j k assume "j < (4096 :: u32)" "k < (4 :: nat)" "q + j = p + i + of_nat k"
  then show False
    using assms word4_cases [of i k] page_off_inj [of p q "i + of_nat k" j] by (auto simp: add.assoc)
qed

lemma same_page_memset:
  assumes "p mod 4096 = 0" "q mod 4096 = 0" "p \<noteq> q"
  shows "same_page (memset m p c 4096) m q"
  using assms by (auto simp: same_page_def memset_eq in_page_iff)

lemma same_page_trans: "same_page m m' p \<Longrightarrow> same_page m' m'' p \<Longrightarrow> same_page m m'' p"
  by (simp add: same_page_def)

lemma mod4096_mod4: "(p :: u32) mod 4096 = 0 \<Longrightarrow> p mod 4 = 0"
proof -
  assume "p mod 4096 = 0"
  then obtain k where "unat p = 4096 * k" by (rule page_dvd)
  then have "unat (p mod 4) = 0" by (simp add: unat_mod_distrib)
  then show ?thesis by (simp add: unat_eq_zero)
qed

section \<open>Properties\<close>

text \<open>\<^verbatim>\<open>memmove\<close> copies as if the whole source were read before anything is written,
  also where source and destination overlap: the direction of its two loops is right. The
  source must not touch the last byte of the address space, where \<^verbatim>\<open>s + n\<close> wraps to zero.\<close>

theorem memmove_copies:
  assumes "unat dst + unat n \<le> 2 ^ 32" "unat src + unat n < 2 ^ 32"
  shows "memmove m dst src n = (\<lambda>x. if x - dst < n then m (src + (x - dst)) else m x)"
  using assms by (intro memmove_eq) simp_all

theorem memmove_copies_witness:
  "memmove (\<lambda>x. ucast x) 0x1001 0x1000 4 0x1003 = 0x02"
  using memmove_copies [of "0x1001" 4 "0x1000" "\<lambda>x. ucast x"] by simp

text \<open>\<^verbatim>\<open>memset\<close> stores the low byte of \<open>c\<close> in exactly the \<open>n\<close> bytes from \<open>dst\<close>,
  whichever of its two \<^verbatim>\<open>stos\<close> branches runs.\<close>

theorem memset_fills: "memset m dst c n = (\<lambda>x. if x - dst < n then ucast c else m x)"
  by (rule memset_eq)

text \<open>\<^verbatim>\<open>safestrcpy\<close> into a buffer of \<open>n > 0\<close> bytes leaves a NUL inside the buffer and
  changes no byte outside it.\<close>

theorem safestrcpy_safe:
  assumes "0 < n"
  shows "(\<exists>i<nat n. safestrcpy m s t n (s + of_nat i) = 0) \<and>
    (\<forall>x. (\<forall>i<nat n. x \<noteq> s + of_nat i) \<longrightarrow> safestrcpy m s t n x = m x)"
proof -
  from assms have "Suc (nat (n - 1)) = nat n" by simp
  then show ?thesis
    using assms safestrcpy_loop_nul [of "nat (n - 1)" m s t] safestrcpy_loop_out [of "nat (n - 1)" _ s m t]
    by (simp add: safestrcpy_def)
qed

theorem safestrcpy_safe_witness:
  "\<exists>i<nat 3. safestrcpy (\<lambda>x. 7) 0x100 0x200 3 (0x100 + of_nat i) = 0"
  using safestrcpy_safe [of 3 "\<lambda>x. 7" "0x100" "0x200"] by simp

text \<open>\<^verbatim>\<open>strncmp\<close> returns zero exactly when the two C strings agree up to \<open>n\<close> bytes.\<close>

theorem strncmp_zero_iff: "strncmp m p q n = 0 \<longleftrightarrow> cstr m p (unat n) = cstr m q (unat n)"
  by (simp add: strncmp_def strncmp_loop_zero)

end
