(* ===== verification/Kalloc.thy ===== *)
theory Kalloc
  imports Mem
begin

text \<open>
  The physical page allocator, \<^verbatim>\<open>kalloc.c\<close>. Free pages form a list threaded through the
  pages themselves: \<^verbatim>\<open>struct run\<close> is the first word of a free page. The state is the memory the
  kernel addresses, the head of the free list and the \<open>use_lock\<close> flag; \<open>kend\<close> is the linker
  symbol \<^verbatim>\<open>end\<close>, which no operation changes. The list runs under \<^verbatim>\<open>kmem.lock\<close>, so each
  operation is one atomic step here.
\<close>

section \<open>State and operations\<close>

record kmem =
  mem :: memory
  freelist :: u32
  use_lock :: bool
  kend :: u32

definition kfree :: "u32 \<Rightarrow> 'a kmem_scheme \<Rightarrow> 'a kmem_scheme outcome" where
  "kfree v s =
     (if v mod PGSIZE \<noteq> 0 \<or> v < kend s \<or> V2P v \<ge> PHYSTOP then Panic ''kfree''
      else Ok (s\<lparr>mem := store32 (memset (mem s) v 1 PGSIZE) v (freelist s), freelist := v\<rparr>))"

definition kalloc :: "'a kmem_scheme \<Rightarrow> u32 \<times> 'a kmem_scheme" where
  "kalloc s = (let r = freelist s in
     if r \<noteq> 0 then (r, s\<lparr>freelist := load32 (mem s) r\<rparr>) else (r, s))"

lemma kfree_Ok_bound:
  assumes "kfree v s = Ok s'"
  shows "unat v + 4096 < 4294967296"
proof -
  have l: "v - 0x80000000 < 0xE000000" using assms
    by (auto simp: kfree_def V2P_def PHYSTOP_def KERNBASE_def not_le split: if_splits)
  have "v = (v - 0x80000000) + 0x80000000" by simp
  moreover have "unat ((v - 0x80000000) + 0x80000000) = unat (v - 0x80000000) + 2147483648"
    using l by (subst unat_add_small) (simp_all add: word_less_nat_alt)
  ultimately show ?thesis using l by (simp add: word_less_nat_alt)
qed

text \<open>The loop of \<^verbatim>\<open>freerange\<close>; the pointer comparison is unsigned and \<open>p + PGSIZE\<close> may wrap,
  but \<^verbatim>\<open>kfree\<close> panics long before it does.\<close>

function freerange_loop :: "u32 \<Rightarrow> u32 \<Rightarrow> 'a kmem_scheme \<Rightarrow> 'a kmem_scheme outcome" where
  "freerange_loop p vend s =
     (if p + PGSIZE \<le> vend then bindo (kfree p s) (\<lambda>s'. freerange_loop (p + PGSIZE) vend s')
      else Ok s)"
  by pat_completeness auto
termination
proof (relation "measure (\<lambda>(p, vend, s). 4294967296 - unat p)")
  fix p vend :: u32 and s s' :: "'a kmem_scheme"
  assume "kfree p s = Ok s'"
  then have "unat p + 4096 < 4294967296" by (rule kfree_Ok_bound)
  then show "((p + PGSIZE, vend, s'), p, vend, s) \<in> measure (\<lambda>(p, vend, s). 4294967296 - unat p)"
    by (simp add: unat_add_small)
qed simp

declare freerange_loop.simps [simp del]

definition freerange :: "u32 \<Rightarrow> u32 \<Rightarrow> 'a kmem_scheme \<Rightarrow> 'a kmem_scheme outcome" where
  "freerange vstart vend s = freerange_loop (PGROUNDUP vstart) vend s"

definition kinit1 :: "u32 \<Rightarrow> u32 \<Rightarrow> 'a kmem_scheme \<Rightarrow> 'a kmem_scheme outcome" where
  "kinit1 vstart vend s = freerange vstart vend (s\<lparr>use_lock := False\<rparr>)"

definition kinit2 :: "u32 \<Rightarrow> u32 \<Rightarrow> 'a kmem_scheme \<Rightarrow> 'a kmem_scheme outcome" where
  "kinit2 vstart vend s = bindo (freerange vstart vend s) (\<lambda>s. Ok (s\<lparr>use_lock := True\<rparr>))"

section \<open>The free list\<close>

text \<open>\<open>valid_page\<close> is what \<^verbatim>\<open>kfree\<close> accepts; \<open>free_list m r xs\<close> reads the list of pages from
  the head pointer \<open>r\<close>; \<open>kmem_inv xs s\<close> says that the free pages of \<open>s\<close> are \<open>xs\<close>.\<close>

definition valid_page :: "'a kmem_scheme \<Rightarrow> u32 \<Rightarrow> bool" where
  "valid_page s v \<longleftrightarrow> v mod PGSIZE = 0 \<and> kend s \<le> v \<and> V2P v < PHYSTOP"

fun free_list :: "memory \<Rightarrow> u32 \<Rightarrow> u32 list \<Rightarrow> bool" where
  "free_list m r [] \<longleftrightarrow> r = 0"
| "free_list m r (x # xs) \<longleftrightarrow> r = x \<and> x \<noteq> 0 \<and> free_list m (load32 m x) xs"

definition kmem_inv :: "u32 list \<Rightarrow> 'a kmem_scheme \<Rightarrow> bool" where
  "kmem_inv xs s \<longleftrightarrow>
     free_list (mem s) (freelist s) xs \<and> distinct xs \<and> (\<forall>x\<in>set xs. valid_page s x)"

lemma valid_page_nonzero: "valid_page s v \<Longrightarrow> v \<noteq> 0"
  by (auto simp: valid_page_def V2P_def KERNBASE_def PHYSTOP_def)

lemma valid_page_update [simp]:
  "valid_page (s\<lparr>mem := m\<rparr>) v = valid_page s v"
  "valid_page (s\<lparr>freelist := r\<rparr>) v = valid_page s v"
  "valid_page (s\<lparr>use_lock := b\<rparr>) v = valid_page s v"
  by (simp_all add: valid_page_def)

lemma valid_page_aligned: "valid_page s v \<Longrightarrow> v mod 4096 = 0"
  by (simp add: valid_page_def)

lemma kfree_valid:
  "valid_page s v \<Longrightarrow>
   kfree v s = Ok (s\<lparr>mem := store32 (memset (mem s) v 1 4096) v (freelist s), freelist := v\<rparr>)"
  by (simp add: kfree_def valid_page_def not_le not_less)

lemma kfree_Ok_valid: "kfree v s = Ok s' \<Longrightarrow> valid_page s v"
  by (auto simp: kfree_def valid_page_def not_le not_less split: if_splits)

lemma load32_page_head:
  "same_page m m' p \<Longrightarrow> load32 m p = load32 m' p"
  using load32_same_page [of m m' p 0] by simp

lemma free_list_cong:
  "\<forall>x\<in>set xs. load32 m x = load32 m' x \<Longrightarrow> free_list m r xs = free_list m' r xs"
  by (induction xs arbitrary: r) auto

lemma free_list_same_pages:
  "\<forall>x\<in>set xs. same_page m m' x \<Longrightarrow> free_list m r xs = free_list m' r xs"
  by (intro free_list_cong) (auto intro: load32_page_head)

lemma kmem_inv_nonzero: "kmem_inv xs s \<Longrightarrow> x \<in> set xs \<Longrightarrow> x \<noteq> 0"
  using valid_page_nonzero by (auto simp: kmem_inv_def)

lemma kalloc_Nil: "kmem_inv [] s \<Longrightarrow> kalloc s = (0, s)"
  by (simp add: kmem_inv_def kalloc_def)

lemma kalloc_Cons:
  "kmem_inv (x # xs) s \<Longrightarrow>
   kalloc s = (x, s\<lparr>freelist := load32 (mem s) x\<rparr>) \<and> kmem_inv xs (s\<lparr>freelist := load32 (mem s) x\<rparr>)"
  by (auto simp: kmem_inv_def kalloc_def Let_def valid_page_def)

lemma same_page_kfree:
  assumes "p mod 4096 = 0" "q mod 4096 = 0" "p \<noteq> q"
  shows "same_page (store32 (memset m p 1 4096) p w) m q"
  using same_page_trans [OF same_page_store32 [OF assms, of 0] same_page_memset [OF assms]] by simp

lemma kfree_inv:
  assumes inv: "kmem_inv xs s" and v: "valid_page s v" "v \<notin> set xs"
  shows "\<exists>s'. kfree v s = Ok s' \<and> kmem_inv (v # xs) s'"
proof -
  let ?m = "store32 (memset (mem s) v 1 4096) v (freelist s)"
  have "same_page ?m (mem s) x" if "x \<in> set xs" for x
    using inv v that by (intro same_page_kfree) (auto simp: kmem_inv_def valid_page_aligned)
  then have "free_list ?m (freelist s) xs"
    using inv free_list_same_pages [of xs ?m "mem s"] by (simp add: kmem_inv_def)
  then show ?thesis
    using inv v valid_page_nonzero [OF v(1)] by (simp add: kfree_valid kmem_inv_def)
qed

section \<open>The interface of the allocator\<close>

text \<open>
  What the clients of the allocator (page tables, kernel stacks, pipes) rely on: \<open>inv xs s\<close>
  says that the pages \<open>xs\<close> are free. Clients see only these laws.
\<close>

locale page_allocator =
  fixes alloc :: "'s \<Rightarrow> u32 \<times> 's"
    and free :: "u32 \<Rightarrow> 's \<Rightarrow> 's outcome"
    and page :: "'s \<Rightarrow> u32 \<Rightarrow> bool"
    and inv :: "u32 list \<Rightarrow> 's \<Rightarrow> bool"
  assumes alloc_empty: "inv [] s \<Longrightarrow> alloc s = (0, s)"
    and alloc_head: "inv (x # xs) s \<Longrightarrow> fst (alloc s) = x \<and> inv xs (snd (alloc s))"
    and free_cons: "inv xs s \<Longrightarrow> page s v \<Longrightarrow> v \<notin> set xs \<Longrightarrow>
          \<exists>s'. free v s = Ok s' \<and> inv (v # xs) s'"
    and inv_distinct: "inv xs s \<Longrightarrow> distinct xs"
    and inv_pages: "inv xs s \<Longrightarrow> x \<in> set xs \<Longrightarrow> page s x \<and> x \<noteq> 0"
    and page_stable: "page (snd (alloc s)) v = page s v"
begin

lemma alloc_zero_iff: "inv xs s \<Longrightarrow> fst (alloc s) = 0 \<longleftrightarrow> xs = []"
  using alloc_empty alloc_head inv_pages by (cases xs) fastforce+

lemma alloc_fresh: "inv xs s \<Longrightarrow> fst (alloc s) \<noteq> 0 \<Longrightarrow>
  fst (alloc s) \<in> set xs \<and> inv (tl xs) (snd (alloc s)) \<and> fst (alloc s) \<notin> set (tl xs)"
  using alloc_empty alloc_head inv_distinct by (cases xs) force+

lemma alloc_free_restores:
  assumes "inv xs s" "fst (alloc s) \<noteq> 0"
  shows "\<exists>s'. free (fst (alloc s)) (snd (alloc s)) = Ok s' \<and> inv xs s'"
proof -
  obtain x ys where xs: "xs = x # ys" using assms alloc_empty by (cases xs) auto
  then have a: "fst (alloc s) = x" "inv ys (snd (alloc s))" using alloc_head assms(1) by auto
  have "x \<notin> set ys" using inv_distinct [OF assms(1)] xs by simp
  moreover have "page (snd (alloc s)) x" using inv_pages [OF assms(1)] xs page_stable by simp
  ultimately show ?thesis using free_cons [OF a(2)] a(1) xs by simp
qed

lemma free_alloc_same:
  assumes "inv xs s" "page s v" "v \<notin> set xs"
  shows "\<exists>s'. free v s = Ok s' \<and> fst (alloc s') = v \<and> inv xs (snd (alloc s'))"
  using free_cons [OF assms] alloc_head by blast

end

interpretation ka: page_allocator kalloc kfree valid_page kmem_inv
proof
  show "kmem_inv xs s \<Longrightarrow> valid_page s v \<Longrightarrow> v \<notin> set xs \<Longrightarrow>
      \<exists>s'. kfree v s = Ok s' \<and> kmem_inv (v # xs) s'" for xs v and s :: "'a kmem_scheme"
    by (rule kfree_inv)
  show "valid_page (snd (kalloc s)) v = valid_page s v" for v and s :: "'a kmem_scheme"
    by (simp add: kalloc_def Let_def)
  show "kmem_inv xs s \<Longrightarrow> x \<in> set xs \<Longrightarrow> valid_page s x \<and> x \<noteq> 0" for xs x and s :: "'a kmem_scheme"
    using kmem_inv_nonzero by (auto simp: kmem_inv_def)
  show "kmem_inv (x # xs) s \<Longrightarrow> fst (kalloc s) = x \<and> kmem_inv xs (snd (kalloc s))"
    for xs x and s :: "'a kmem_scheme"
    by (drule kalloc_Cons) simp
qed (simp_all add: kalloc_Nil kmem_inv_def)

section \<open>Initialisation\<close>

text \<open>The pages \<open>p\<close>, \<open>p + 4096\<close>, \dots\ that the loop of \<^verbatim>\<open>freerange\<close> frees.\<close>

fun page_range :: "u32 \<Rightarrow> nat \<Rightarrow> u32 list" where
  "page_range p 0 = []"
| "page_range p (Suc n) = p # page_range (p + PGSIZE) n"

lemma freerange_loop_frees:
  assumes "kmem_inv xs s" "\<forall>q\<in>set (page_range p n). valid_page s q"
    and "distinct (page_range p n @ xs)"
    and "unat p + n * 4096 \<le> unat vend" "unat vend < unat p + Suc n * 4096"
    and "vend \<le> P2V PHYSTOP"
  shows "\<exists>s'. freerange_loop p vend s = Ok s' \<and> kmem_inv (rev (page_range p n) @ xs) s'"
  using assms
proof (induction n arbitrary: p xs s)
  case 0
  then have "unat p + 4096 < 4294967296"
    by (simp add: word_le_nat_alt P2V_def PHYSTOP_def KERNBASE_def)
  then have "\<not> p + 4096 \<le> vend" using 0 by (simp add: word_le_nat_alt unat_add_small)
  then show ?case using 0 by (simp add: freerange_loop.simps)
next
  case (Suc n)
  have pb: "unat p + 4096 < 4294967296" using Suc.prems
    by (simp add: word_le_nat_alt P2V_def PHYSTOP_def KERNBASE_def)
  then have le: "p + 4096 \<le> vend" using Suc.prems by (simp add: word_le_nat_alt unat_add_small)
  have pu: "unat (p + 4096) = unat p + 4096" using pb by (simp add: unat_add_small)
  obtain s1 where s1: "kfree p s = Ok s1" "kmem_inv (p # xs) s1"
    using kfree_inv [of xs s p] Suc.prems by auto
  have ke: "valid_page s1 q = valid_page s q" for q
    using s1(1) Suc.prems(2) by (auto simp: kfree_valid)
  have "\<exists>s'. freerange_loop (p + 4096) vend s1 = Ok s' \<and>
      kmem_inv (rev (page_range (p + 4096) n) @ p # xs) s'"
    using Suc.prems s1(2) pu ke by (intro Suc.IH) auto
  then show ?case using le s1(1) by (simp add: freerange_loop.simps [of p])
qed

section \<open>Properties\<close>

text \<open>Freeing a page and allocating again gives that page back and leaves the rest of the
  free list as it was; the page is not on the list that remains.\<close>

theorem kfree_kalloc_roundtrip:
  assumes "kmem_inv xs s" "valid_page s v" "v \<notin> set xs"
  shows "\<exists>s'. kfree v s = Ok s' \<and> fst (kalloc s') = v \<and> kmem_inv xs (snd (kalloc s'))"
  using assms by (rule ka.free_alloc_same)

definition boot_kmem :: kmem where
  "boot_kmem = \<lparr>mem = (\<lambda>_. 0), freelist = 0, use_lock = False, kend = 0x80100000\<rparr>"

lemma boot_kmem_inv: "kmem_inv [] boot_kmem"
  by (simp add: kmem_inv_def boot_kmem_def)

lemma boot_kmem_page:
  "valid_page boot_kmem 0x80200000" "valid_page boot_kmem 0x80201000" "valid_page boot_kmem 0x80202000"
  by (simp_all add: valid_page_def boot_kmem_def V2P_def PHYSTOP_def KERNBASE_def)

theorem kfree_kalloc_roundtrip_witness:
  "\<exists>s'. kfree 0x80200000 boot_kmem = Ok s' \<and> fst (kalloc s') = 0x80200000"
  using kfree_kalloc_roundtrip [OF boot_kmem_inv boot_kmem_page(1)] by auto

text \<open>\<^verbatim>\<open>freerange\<close> puts exactly the whole pages between its bounds on the free list, without
  a panic, when they are pages the kernel may own and are not free already.\<close>

theorem freerange_frees:
  assumes "kmem_inv xs s" "PGROUNDUP vstart = p"
    and "\<forall>q\<in>set (page_range p n). valid_page s q" "distinct (page_range p n @ xs)"
    and "unat p + n * 4096 \<le> unat vend" "unat vend < unat p + Suc n * 4096" "vend \<le> P2V PHYSTOP"
  shows "\<exists>s'. freerange vstart vend s = Ok s' \<and> kmem_inv (rev (page_range p n) @ xs) s'"
  using assms by (simp only: freerange_def) (rule freerange_loop_frees)

theorem freerange_frees_witness:
  "\<exists>s'. freerange 0x801FFABC 0x80202010 boot_kmem = Ok s' \<and>
     kmem_inv [0x80201000, 0x80200000] s'"
  using freerange_frees [OF boot_kmem_inv, of "0x801FFABC" "0x80200000" "Suc (Suc 0)" "0x80202010"] boot_kmem_page
  by (simp add: PGROUNDUP_def P2V_def PHYSTOP_def KERNBASE_def)

text \<open>\<^verbatim>\<open>kalloc\<close> fails exactly when the free list is empty, and a page it returns is a valid
  page that leaves the list.\<close>

theorem kalloc_correct:
  assumes "kmem_inv xs s"
  shows "(fst (kalloc s) = 0 \<longleftrightarrow> xs = []) \<and>
    (xs \<noteq> [] \<longrightarrow> valid_page s (fst (kalloc s)) \<and> fst (kalloc s) \<notin> set (tl xs) \<and>
       kmem_inv (tl xs) (snd (kalloc s)))"
  using ka.alloc_zero_iff [OF assms] ka.alloc_fresh [OF assms] ka.inv_pages [OF assms] by blast

theorem kalloc_correct_witness: "fst (kalloc boot_kmem) = 0"
  using kalloc_correct [OF boot_kmem_inv] by simp

end
