(* ===== verification/Vm.thy ===== *)
theory Vm
  imports Kalloc
begin

text \<open>
  Page tables, \<^verbatim>\<open>vm.c\<close> with the address macros of \<^verbatim>\<open>mmu.h\<close>. Page directories and page tables
  are words of the kernel's byte memory, reached through their kernel addresses, as in the
  code; the shared-memory pages of \<^verbatim>\<open>sharevm\<close> are the two arrays of \<^verbatim>\<open>struct sharedmemo\<close>.
  Console messages are not part of the state. \<open>pte_of\<close> is the reference definition: the
  two-level walk the hardware makes.
\<close>

section \<open>Addresses and entries\<close>

definition PDX :: "u32 \<Rightarrow> u32" where "PDX va = drop_bit 22 va AND 0x3FF"
definition PTX :: "u32 \<Rightarrow> u32" where "PTX va = drop_bit 12 va AND 0x3FF"
definition PGADDR :: "u32 \<Rightarrow> u32 \<Rightarrow> u32 \<Rightarrow> u32" where
  "PGADDR d t ofs = push_bit 22 d OR push_bit 12 t OR ofs"

definition PTE_P :: u32 where "PTE_P = 0x001"
definition PTE_W :: u32 where "PTE_W = 0x002"
definition PTE_U :: u32 where "PTE_U = 0x004"

definition PTE_ADDR :: "u32 \<Rightarrow> u32" where "PTE_ADDR pte = pte AND NOT 0xFFF"
definition PTE_FLAGS :: "u32 \<Rightarrow> u32" where "PTE_FLAGS pte = pte AND 0xFFF"

abbreviation (input) NPDENTRIES :: nat where "NPDENTRIES \<equiv> 1024"

section \<open>State\<close>

text \<open>\<open>vdata\<close> is the linker symbol \<^verbatim>\<open>data\<close>; \<open>shared\<close> and \<open>recs\<close> have \<open>MAXSHAREDPG\<close> elements.\<close>

record vm = kmem +
  vdata :: u32
  shared :: "u32 list"
  recs :: "u32 list"

section \<open>Walking and mapping\<close>

definition walkpgdir :: "u32 \<Rightarrow> u32 \<Rightarrow> bool \<Rightarrow> 'a kmem_scheme \<Rightarrow> u32 \<times> 'a kmem_scheme" where
  "walkpgdir pgdir va alloc s =
     (let pde = pgdir + 4 * PDX va; e = load32 (mem s) pde in
      if e AND PTE_P \<noteq> 0 then (P2V (PTE_ADDR e) + 4 * PTX va, s)
      else if \<not> alloc then (0, s)
      else let (pgtab, s1) = kalloc s in
        if pgtab = 0 then (0, s1)
        else let m1 = memset (mem s1) pgtab 0 PGSIZE;
                 m2 = store32 m1 pde (V2P pgtab OR PTE_P OR PTE_W OR PTE_U)
             in (pgtab + 4 * PTX va, s1\<lparr>mem := m2\<rparr>))"

text \<open>The \<^verbatim>\<open>for(;;)\<close> of \<^verbatim>\<open>mappages\<close> with a bound on its rounds. Both ends are page aligned, so
  the distance to \<open>lst\<close> in pages is the number of rounds left, and the bound is never hit.\<close>

fun mappages_loop :: "nat \<Rightarrow> u32 \<Rightarrow> u32 \<Rightarrow> u32 \<Rightarrow> u32 \<Rightarrow> u32 \<Rightarrow> 'a kmem_scheme \<Rightarrow>
    (int \<times> 'a kmem_scheme) outcome" where
  "mappages_loop 0 pgdir a lst pa perm s = Wait"
| "mappages_loop (Suc n) pgdir a lst pa perm s =
     (let (pte, s1) = walkpgdir pgdir a True s in
      if pte = 0 then Ok (-1, s1)
      else if load32 (mem s1) pte AND PTE_P \<noteq> 0 then Panic ''remap''
      else let s2 = s1\<lparr>mem := store32 (mem s1) pte (pa OR perm OR PTE_P)\<rparr> in
        if a = lst then Ok (0, s2)
        else mappages_loop n pgdir (a + PGSIZE) lst (pa + PGSIZE) perm s2)"

definition mappages :: "u32 \<Rightarrow> u32 \<Rightarrow> u32 \<Rightarrow> u32 \<Rightarrow> u32 \<Rightarrow> 'a kmem_scheme \<Rightarrow>
    (int \<times> 'a kmem_scheme) outcome" where
  "mappages pgdir va sz pa perm s =
     (let a = PGROUNDDOWN va; lst = PGROUNDDOWN (va + sz - 1) in
      mappages_loop (Suc (unat (lst - a) div 4096)) pgdir a lst pa perm s)"

section \<open>Freeing address spaces\<close>

text \<open>The loop of \<^verbatim>\<open>deallocuvm\<close>, again with a bound on its rounds; it is enough unless the
  address wraps around, where the code starts again from address zero.\<close>

fun deallocuvm_loop :: "nat \<Rightarrow> u32 \<Rightarrow> u32 \<Rightarrow> u32 \<Rightarrow> 'a kmem_scheme \<Rightarrow> 'a kmem_scheme outcome" where
  "deallocuvm_loop 0 pgdir a oldsz s = Wait"
| "deallocuvm_loop (Suc n) pgdir a oldsz s =
     (if a < oldsz then
        let (pte, s) = walkpgdir pgdir a False s in
        if pte = 0 then
          let a = PGADDR (PDX a + 1) 0 0 - PGSIZE in deallocuvm_loop n pgdir (a + PGSIZE) oldsz s
        else if load32 (mem s) pte AND PTE_P \<noteq> 0 then
          let pa = PTE_ADDR (load32 (mem s) pte) in
          if pa = 0 then Panic ''kfree''
          else bindo (kfree (P2V pa) s) (\<lambda>s.
                 deallocuvm_loop n pgdir (a + PGSIZE) oldsz (s\<lparr>mem := store32 (mem s) pte 0\<rparr>))
        else deallocuvm_loop n pgdir (a + PGSIZE) oldsz s
      else Ok s)"

definition deallocuvm :: "u32 \<Rightarrow> u32 \<Rightarrow> u32 \<Rightarrow> 'a kmem_scheme \<Rightarrow> (u32 \<times> 'a kmem_scheme) outcome" where
  "deallocuvm pgdir oldsz newsz s =
     (if newsz \<ge> oldsz then Ok (oldsz, s)
      else bindo (deallocuvm_loop (unat oldsz div 4096 + 2) pgdir (PGROUNDUP newsz) oldsz s)
             (\<lambda>s. Ok (newsz, s)))"

fun freevm_loop :: "u32 \<Rightarrow> u32 list \<Rightarrow> 'a kmem_scheme \<Rightarrow> 'a kmem_scheme outcome" where
  "freevm_loop pgdir [] s = Ok s"
| "freevm_loop pgdir (i # is) s =
     (if load32 (mem s) (pgdir + 4 * i) AND PTE_P \<noteq> 0 then
        bindo (kfree (P2V (PTE_ADDR (load32 (mem s) (pgdir + 4 * i)))) s) (\<lambda>s. freevm_loop pgdir is s)
      else freevm_loop pgdir is s)"

definition freevm :: "u32 \<Rightarrow> 'a kmem_scheme \<Rightarrow> 'a kmem_scheme outcome" where
  "freevm pgdir s =
     (if pgdir = 0 then Panic ''freevm: no pgdir''
      else bindo (deallocuvm pgdir (KERNBASE - of_nat MAXSHAREDPG * PGSIZE) 0 s) (\<lambda>(_, s).
           bindo (freevm_loop pgdir (map of_nat [0..<NPDENTRIES]) s) (\<lambda>s.
           kfree pgdir s)))"

section \<open>Kernel page tables\<close>

record kmap_entry =
  k_virt :: u32
  k_phys_start :: u32
  k_phys_end :: u32
  k_perm :: u32

definition kmap :: "u32 \<Rightarrow> kmap_entry list" where
  "kmap d =
    [\<lparr>k_virt = KERNBASE, k_phys_start = 0, k_phys_end = EXTMEM, k_perm = PTE_W\<rparr>,
     \<lparr>k_virt = KERNLINK, k_phys_start = V2P KERNLINK, k_phys_end = V2P d, k_perm = 0\<rparr>,
     \<lparr>k_virt = d, k_phys_start = V2P d, k_phys_end = PHYSTOP, k_perm = PTE_W\<rparr>,
     \<lparr>k_virt = DEVSPACE, k_phys_start = DEVSPACE, k_phys_end = 0, k_perm = PTE_W\<rparr>]"

fun setupkvm_loop :: "u32 \<Rightarrow> kmap_entry list \<Rightarrow> 'a kmem_scheme \<Rightarrow> (u32 \<times> 'a kmem_scheme) outcome" where
  "setupkvm_loop pgdir [] s = Ok (pgdir, s)"
| "setupkvm_loop pgdir (k # ks) s =
     bindo (mappages pgdir (k_virt k) (k_phys_end k - k_phys_start k) (k_phys_start k) (k_perm k) s) (\<lambda>(r, s).
       if r < 0 then bindo (freevm pgdir s) (\<lambda>s. Ok (0, s))
       else setupkvm_loop pgdir ks s)"

definition setupkvm :: "'a vm_scheme \<Rightarrow> (u32 \<times> 'a vm_scheme) outcome" where
  "setupkvm s =
     (let (pgdir, s) = kalloc s in
      if pgdir = 0 then Ok (0, s)
      else let s = s\<lparr>mem := memset (mem s) pgdir 0 PGSIZE\<rparr> in
        if P2V PHYSTOP > DEVSPACE then Panic ''PHYSTOP too high''
        else setupkvm_loop pgdir (kmap (vdata s)) s)"

section \<open>User memory\<close>

text \<open>\<open>init\<close> is the address of the initial code in kernel memory. The result of \<^verbatim>\<open>kalloc\<close> is
  not checked by the code: a null page is written to.\<close>

definition inituvm :: "u32 \<Rightarrow> u32 \<Rightarrow> u32 \<Rightarrow> 'a kmem_scheme \<Rightarrow> 'a kmem_scheme outcome" where
  "inituvm pgdir init sz s =
     (if sz \<ge> PGSIZE then Panic ''inituvm: more than a page''
      else let (pg, s) = kalloc s in
        if pg = 0 then UB
        else bindo (mappages pgdir 0 PGSIZE (V2P pg) (PTE_W OR PTE_U)
                      (s\<lparr>mem := memset (mem s) pg 0 PGSIZE\<rparr>)) (\<lambda>(_, s).
               Ok (s\<lparr>mem := memmove (mem s) pg init sz\<rparr>)))"

text \<open>\<open>rd dst off n\<close> is \<^verbatim>\<open>readi\<close> on the program's inode.\<close>

fun loaduvm_loop :: "nat \<Rightarrow> (u32 \<Rightarrow> u32 \<Rightarrow> u32 \<Rightarrow> 'a kmem_scheme \<Rightarrow> (int \<times> 'a kmem_scheme) outcome) \<Rightarrow>
    u32 \<Rightarrow> u32 \<Rightarrow> u32 \<Rightarrow> u32 \<Rightarrow> u32 \<Rightarrow> 'a kmem_scheme \<Rightarrow> (int \<times> 'a kmem_scheme) outcome" where
  "loaduvm_loop 0 rd pgdir addr offset sz i s = Wait"
| "loaduvm_loop (Suc k) rd pgdir addr offset sz i s =
     (if i < sz then
        let (pte, s) = walkpgdir pgdir (addr + i) False s in
        if pte = 0 then Panic ''loaduvm: address should exist''
        else let pa = PTE_ADDR (load32 (mem s) pte);
                 n = (if sz - i < PGSIZE then sz - i else PGSIZE)
             in bindo (rd (P2V pa) (offset + i) n s) (\<lambda>(r, s).
                  if r \<noteq> uint n then Ok (-1, s)
                  else loaduvm_loop k rd pgdir addr offset sz (i + PGSIZE) s)
      else Ok (0, s))"

definition loaduvm :: "(u32 \<Rightarrow> u32 \<Rightarrow> u32 \<Rightarrow> 'a kmem_scheme \<Rightarrow> (int \<times> 'a kmem_scheme) outcome) \<Rightarrow>
    u32 \<Rightarrow> u32 \<Rightarrow> u32 \<Rightarrow> u32 \<Rightarrow> 'a kmem_scheme \<Rightarrow> (int \<times> 'a kmem_scheme) outcome" where
  "loaduvm rd pgdir addr offset sz s =
     (if addr mod PGSIZE \<noteq> 0 then Panic ''loaduvm: addr must be page aligned''
      else loaduvm_loop (unat sz div 4096 + 2) rd pgdir addr offset sz 0 s)"

text \<open>\<^verbatim>\<open>sharevm\<close>: an index outside the two arrays is an access C gives no meaning.\<close>

definition sharevm :: "u32 \<Rightarrow> int \<Rightarrow> 'a vm_scheme \<Rightarrow> 'a vm_scheme outcome" where
  "sharevm pgdir idx s =
     (if idx < 0 \<or> idx \<ge> int (length (recs s)) \<or> idx \<ge> int (length (shared s)) then UB
      else let i = nat idx;
               (pg, s) = (if recs s ! i > 0 then (shared s ! i, s)
                else let (pg, s) = kalloc s in
                  if pg = 0 then (0, s)
                  else (pg, s\<lparr>mem := memset (mem s) pg 0 PGSIZE, shared := (shared s)[i := pg]\<rparr>))
           in if recs s ! i = 0 \<and> pg = 0 then Ok s
              else bindo (mappages pgdir (KERNBASE - of_int (idx + 1) * PGSIZE) PGSIZE (V2P pg)
                            (PTE_W OR PTE_U) s) (\<lambda>(r, s).
                     if r < 0 then kfree pg s
                     else Ok (s\<lparr>recs := (recs s)[i := recs s ! i + 1]\<rparr>)))"

definition desharevm :: "int \<Rightarrow> 'a vm_scheme \<Rightarrow> 'a vm_scheme outcome" where
  "desharevm idx s =
     (if idx < 0 \<or> idx \<ge> int (length (recs s)) \<or> idx \<ge> int (length (shared s)) then UB
      else let i = nat idx in
        if recs s ! i \<le> 0 then Ok s
        else let s = s\<lparr>recs := (recs s)[i := recs s ! i - 1]\<rparr> in
          if recs s ! i \<le> 0 then kfree (shared s ! i) s else Ok s)"

fun allocuvm_loop :: "nat \<Rightarrow> u32 \<Rightarrow> u32 \<Rightarrow> u32 \<Rightarrow> u32 \<Rightarrow> 'a kmem_scheme \<Rightarrow>
    (u32 \<times> 'a kmem_scheme) outcome" where
  "allocuvm_loop 0 pgdir oldsz newsz a s = Wait"
| "allocuvm_loop (Suc n) pgdir oldsz newsz a s =
     (if a < newsz then
        let (pg, s) = kalloc s in
        if pg = 0 then bindo (deallocuvm pgdir newsz oldsz s) (\<lambda>(_, s). Ok (0, s))
        else bindo (mappages pgdir a PGSIZE (V2P pg) (PTE_W OR PTE_U)
                      (s\<lparr>mem := memset (mem s) pg 0 PGSIZE\<rparr>)) (\<lambda>(r, s).
               if r < 0 then
                 bindo (deallocuvm pgdir newsz oldsz s) (\<lambda>(_, s).
                 bindo (kfree pg s) (\<lambda>s. Ok (0, s)))
               else allocuvm_loop n pgdir oldsz newsz (a + PGSIZE) s)
      else Ok (newsz, s))"

definition allocuvm :: "u32 \<Rightarrow> u32 \<Rightarrow> u32 \<Rightarrow> 'a kmem_scheme \<Rightarrow> (u32 \<times> 'a kmem_scheme) outcome" where
  "allocuvm pgdir oldsz newsz s =
     (if newsz \<ge> KERNBASE - of_nat MAXSHAREDPG * PGSIZE then Ok (0, s)
      else if newsz < oldsz then Ok (oldsz, s)
      else allocuvm_loop (unat newsz div 4096 + 2) pgdir oldsz newsz (PGROUNDUP oldsz) s)"

definition clearpteu :: "u32 \<Rightarrow> u32 \<Rightarrow> 'a kmem_scheme \<Rightarrow> 'a kmem_scheme outcome" where
  "clearpteu pgdir uva s =
     (let (pte, s) = walkpgdir pgdir uva False s in
      if pte = 0 then Panic ''clearpteu''
      else Ok (s\<lparr>mem := store32 (mem s) pte (load32 (mem s) pte AND NOT PTE_U)\<rparr>))"

text \<open>\<^verbatim>\<open>copyuvm\<close>; at \<^verbatim>\<open>bad\<close> the partly built copy is freed.\<close>

fun copyuvm_loop :: "nat \<Rightarrow> u32 \<Rightarrow> u32 \<Rightarrow> u32 \<Rightarrow> u32 \<Rightarrow> 'a kmem_scheme \<Rightarrow>
    (u32 \<times> 'a kmem_scheme) outcome" where
  "copyuvm_loop 0 pgdir d sz i s = Wait"
| "copyuvm_loop (Suc n) pgdir d sz i s =
     (if i < sz then
        let (pte, s) = walkpgdir pgdir i False s in
        if pte = 0 then Panic ''copyuvm: pte should exist''
        else let e = load32 (mem s) pte in
          if e AND PTE_P = 0 then Panic ''copyuvm: page not present''
          else let pa = PTE_ADDR e; flags = PTE_FLAGS e; (pg, s) = kalloc s in
            if pg = 0 then bindo (freevm d s) (\<lambda>s. Ok (0, s))
            else bindo (mappages d i PGSIZE (V2P pg) flags
                          (s\<lparr>mem := memmove (mem s) pg (P2V pa) PGSIZE\<rparr>)) (\<lambda>(r, s).
                   if r < 0 then bindo (freevm d s) (\<lambda>s. Ok (0, s))
                   else copyuvm_loop n pgdir d sz (i + PGSIZE) s)
      else Ok (d, s))"

definition copyuvm :: "u32 \<Rightarrow> u32 \<Rightarrow> 'a vm_scheme \<Rightarrow> (u32 \<times> 'a vm_scheme) outcome" where
  "copyuvm pgdir sz s =
     bindo (setupkvm s) (\<lambda>(d, s).
       if d = 0 then Ok (0, s)
       else copyuvm_loop (unat sz div 4096 + 2) pgdir d sz 0 s)"

text \<open>\<^verbatim>\<open>uva2ka\<close> reads through the result of \<^verbatim>\<open>walkpgdir\<close> without testing it.\<close>

definition uva2ka :: "u32 \<Rightarrow> u32 \<Rightarrow> 'a kmem_scheme \<Rightarrow> u32 outcome" where
  "uva2ka pgdir uva s =
     (let (pte, s) = walkpgdir pgdir uva False s in
      if pte = 0 then UB
      else let e = load32 (mem s) pte in
        if e AND PTE_P = 0 then Ok 0
        else if e AND PTE_U = 0 then Ok 0
        else Ok (P2V (PTE_ADDR e)))"

lemma copyout_step_pos: "0 < PGSIZE - (va - PGROUNDDOWN va)"
proof -
  have u: "unat va = unat (PGROUNDDOWN va) + unat va mod 4096"
    by (simp add: unat_PGROUNDDOWN)
  then have "unat (va - PGROUNDDOWN va) = unat va mod 4096"
    by (subst unat_sub) (auto simp: word_le_nat_alt)
  then have "va - PGROUNDDOWN va < 4096" by (simp add: word_less_nat_alt)
  then show ?thesis by (simp add: word_neq_0_conv [symmetric])
qed

function copyout :: "u32 \<Rightarrow> u32 \<Rightarrow> u32 \<Rightarrow> u32 \<Rightarrow> 'a kmem_scheme \<Rightarrow> (int \<times> 'a kmem_scheme) outcome" where
  "copyout pgdir va buf len s =
     (if len > 0 then
        let va0 = PGROUNDDOWN va in
        bindo (uva2ka pgdir va0 s) (\<lambda>pa0.
          if pa0 = 0 then Ok (-1, s)
          else let n = PGSIZE - (va - va0); n = (if n > len then len else n);
                   s = s\<lparr>mem := memmove (mem s) (pa0 + (va - va0)) buf n\<rparr>
               in copyout pgdir (va0 + PGSIZE) (buf + n) (len - n) s)
      else Ok (0, s))"
  by pat_completeness auto
termination
proof (relation "measure (\<lambda>(pgdir, va, buf, len, s). unat len)")
  fix pgdir va buf len va0 pa0 n n' :: u32 and s s' :: "'a kmem_scheme"
  assume a: "0 < len" "va0 = PGROUNDDOWN va" "n = 4096 - (va - va0)" "n' = (if len < n then len else n)"
  have "0 < n" using a(3) copyout_step_pos [of va] a(2) by simp
  then have "0 < unat n'" "unat n' \<le> unat len" using a(1,4)
    by (auto simp: word_less_nat_alt not_less)
  then show "((pgdir, va0 + 4096, buf + n', len - n', s'), pgdir, va, buf, len, s)
      \<in> measure (\<lambda>(pgdir, va, buf, len, s). unat len)"
    by (simp add: unat_sub word_le_nat_alt)
qed simp

declare copyout.simps [simp del]

section \<open>Page walks\<close>

definition pgtab_at :: "memory \<Rightarrow> u32 \<Rightarrow> u32 \<Rightarrow> u32" where
  "pgtab_at m pd i = P2V (PTE_ADDR (load32 m (pd + 4 * i)))"

definition pde_present :: "memory \<Rightarrow> u32 \<Rightarrow> u32 \<Rightarrow> bool" where
  "pde_present m pd i \<longleftrightarrow> load32 m (pd + 4 * i) AND PTE_P \<noteq> 0"

definition pte_of :: "memory \<Rightarrow> u32 \<Rightarrow> u32 \<Rightarrow> u32" where
  "pte_of m pd va = (if pde_present m pd (PDX va) then load32 m (pgtab_at m pd (PDX va) + 4 * PTX va) else 0)"

definition pd_wf :: "u32 list \<Rightarrow> 'a kmem_scheme \<Rightarrow> u32 \<Rightarrow> bool" where
  "pd_wf xs s pd \<longleftrightarrow> valid_page s pd \<and> pd \<notin> set xs \<and>
     (\<forall>i<1024. pde_present (mem s) pd i \<longrightarrow>
        valid_page s (pgtab_at (mem s) pd i) \<and> pgtab_at (mem s) pd i \<notin> set xs \<and>
        pgtab_at (mem s) pd i \<noteq> pd \<and>
        (\<forall>j<1024. pde_present (mem s) pd j \<longrightarrow> pgtab_at (mem s) pd i = pgtab_at (mem s) pd j \<longrightarrow> i = j))"

definition pt_pages :: "memory \<Rightarrow> u32 \<Rightarrow> u32 set" where
  "pt_pages m pd = insert pd {pgtab_at m pd i |i. i < 1024 \<and> pde_present m pd i}"

lemma PDX_lt: "PDX va < 1024" "PTX va < 1024"
proof -
  have "(w AND 0x3FF :: u32) < 1024" for w
  proof -
    have "w AND 0x3FF = take_bit 10 w" by (simp add: take_bit_eq_mask mask_eq_exp_minus_1)
    then show ?thesis by (simp add: take_bit_eq_mod word_less_nat_alt unat_mod_distrib)
  qed
  then show "PDX va < 1024" "PTX va < 1024" by (simp_all add: PDX_def PTX_def)
qed

lemma unat_PDX: "unat (PDX va) = unat va div 4194304" "unat (PTX va) = unat va div 4096 mod 1024"
proof -
  have t: "w AND 0x3FF = take_bit 10 w" for w :: u32 by (simp add: take_bit_eq_mask mask_eq_exp_minus_1)
  have "unat va div 4194304 < 1024" using unat32_lt [of va] by (simp add: less_mult_imp_div_less)
  then show "unat (PDX va) = unat va div 4194304"
    by (simp add: PDX_def t take_bit_eq_mod unat_mod_distrib unat_drop_bit_eq drop_bit_eq_div unat_div_distrib)
  show "unat (PTX va) = unat va div 4096 mod 1024"
    by (simp add: PTX_def t take_bit_eq_mod unat_mod_distrib unat_drop_bit_eq drop_bit_eq_div unat_div_distrib)
qed

lemma same_entry_iff: "PDX v = PDX w \<and> PTX v = PTX w \<longleftrightarrow> unat v div 4096 = unat w div 4096"
proof -
  have e: "unat a div 4194304 = unat a div 4096 div 1024" for a :: u32 by (simp add: div_mult2_eq [symmetric])
  have "unat v div 4096 = unat w div 4096 \<longleftrightarrow>
    unat v div 4096 div 1024 = unat w div 4096 div 1024 \<and> unat v div 4096 mod 1024 = unat w div 4096 mod 1024"
    by (metis div_mult_mod_eq)
  then show ?thesis by (simp add: word_unat_eq_iff unat_PDX e)
qed

lemma idx4: "i < 1024 \<Longrightarrow> 4 * i < 4096 \<and> (4 * i) mod 4 = 0" for i :: u32
proof -
  assume "i < 1024"
  then have "unat i < 1024" by (simp add: word_less_nat_alt)
  then have "unat (4 * i) = 4 * unat i" by (simp add: unat_word_ariths)
  then show ?thesis using \<open>unat i < 1024\<close> by (simp add: word_less_nat_alt word_unat_eq_iff unat_mod_distrib)
qed

lemma idx4_inj: "i < 1024 \<Longrightarrow> j < 1024 \<Longrightarrow> 4 * i = 4 * j \<Longrightarrow> i = j" for i j :: u32
proof -
  assume "i < 1024" "j < 1024" "4 * i = 4 * j"
  then have "unat i < 1024" "unat j < 1024" "unat (4 * i) = unat (4 * j)" by (simp_all add: word_less_nat_alt)
  then show ?thesis by (simp add: unat_word_ariths word_unat_eq_iff)
qed

lemma PTE_ADDR_eq: "PTE_ADDR e = PGROUNDDOWN e"
  by (simp add: PTE_ADDR_def PGROUNDDOWN_def)

lemma PGROUNDDOWN_aligned: "p mod 4096 = 0 \<Longrightarrow> PGROUNDDOWN p = p"
  by (elim page_dvd) (simp add: word_unat_eq_iff unat_PGROUNDDOWN)

lemma PGROUNDDOWN_mod [simp]: "PGROUNDDOWN a mod 4096 = 0"
  by (simp add: word_unat_eq_iff unat_mod_distrib unat_PGROUNDDOWN)

lemma take_bit_12: "f < 4096 \<Longrightarrow> take_bit 12 f = (f :: u32)"
  by (simp add: take_bit_eq_mod word_unat_eq_iff unat_mod_distrib word_less_nat_alt)

lemma PGROUNDDOWN_or:
  assumes "p mod 4096 = 0" "f < 4096"
  shows "PGROUNDDOWN (p OR f) = p"
proof -
  have "drop_bit 12 (take_bit 12 f) = 0" by (rule bit_word_eqI) (simp add: bit_simps)
  then have "drop_bit 12 f = 0" using take_bit_12 [OF assms(2)] by simp
  then have "PGROUNDDOWN (p OR f) = PGROUNDDOWN p"
    unfolding PGROUNDDOWN_def not_low_mask by simp
  then show ?thesis using PGROUNDDOWN_aligned [OF assms(1)] by simp
qed

lemma P2V_mod [simp]: "P2V a mod 4096 = 0 \<longleftrightarrow> a mod 4096 = 0"
  and V2P_mod [simp]: "V2P a mod 4096 = 0 \<longleftrightarrow> a mod 4096 = 0"
proof -
  have 1: "P2V a mod 4096 = 0 \<longleftrightarrow> a mod 4096 = 0" for a
    unfolding P2V_def KERNBASE_def word_unat_eq_iff
    by (simp add: unat_mod_distrib unat_word_ariths mod_mod_cancel) (subst mod_add_right_eq [symmetric], simp)
  show "P2V a mod 4096 = 0 \<longleftrightarrow> a mod 4096 = 0" by (rule 1)
  show "V2P a mod 4096 = 0 \<longleftrightarrow> a mod 4096 = 0" using 1 [of "V2P a"] by simp
qed

lemma mk_pte:
  assumes "pg mod 4096 = 0" "f < 4096"
  shows "PTE_ADDR (V2P pg OR f) = V2P pg"
  using assms by (simp add: PTE_ADDR_eq PGROUNDDOWN_or)

lemma PTE_P_or: "(e OR PTE_P) AND PTE_P = PTE_P" "(PTE_P OR e) AND PTE_P = PTE_P"
  by (simp_all add: bit_eq_iff bit_simps) 

text \<open>What a page directory reads depends only on its own pages.\<close>

lemma load32_in_page:
  assumes "same_page m m' p" "i < 1024"
  shows "load32 m (p + 4 * i) = load32 m' (p + 4 * i)"
  by (rule load32_same_page [OF assms(1) conjunct1 [OF idx4] conjunct2 [OF idx4], OF assms(2,2)])

lemma pd_same:
  assumes "same_page m m' pd" "i < 1024"
  shows "pde_present m pd i = pde_present m' pd i" "pgtab_at m pd i = pgtab_at m' pd i"
  using load32_in_page [OF assms] by (simp_all add: pde_present_def pgtab_at_def)

lemma pte_of_frame:
  assumes "\<forall>q\<in>pt_pages m pd. same_page m' m q"
  shows "pte_of m' pd v = pte_of m pd v"
proof -
  have s: "same_page m' m pd" using assms by (simp add: pt_pages_def)
  show ?thesis
  proof (cases "pde_present m pd (PDX v)")
    case True
    then have "same_page m' m (pgtab_at m pd (PDX v))"
      using assms PDX_lt(1) [of v] by (auto simp: pt_pages_def)
    then show ?thesis using pd_same [OF s PDX_lt(1)] load32_in_page PDX_lt(2)
      by (simp add: pte_of_def)
  qed (simp add: pte_of_def pd_same [OF s PDX_lt(1)])
qed

lemma pd_wf_tab:
  assumes "pd_wf xs s pd" "i < 1024" "pde_present (mem s) pd i"
  shows "valid_page s (pgtab_at (mem s) pd i)" "pgtab_at (mem s) pd i \<notin> set xs"
    "pgtab_at (mem s) pd i \<noteq> pd" "pgtab_at (mem s) pd i mod 4096 = 0"
  using assms by (auto simp: pd_wf_def valid_page_aligned)

lemma pd_wf_inj:
  assumes "pd_wf xs s pd" "i < 1024" "j < 1024" "pde_present (mem s) pd i" "pde_present (mem s) pd j"
    "pgtab_at (mem s) pd i = pgtab_at (mem s) pd j"
  shows "i = j"
  using assms by (auto simp: pd_wf_def)

lemma pd_wf_pd: "pd_wf xs s pd \<Longrightarrow> valid_page s pd \<and> pd \<notin> set xs \<and> pd mod 4096 = 0"
  using valid_page_aligned by (auto simp: pd_wf_def)

lemma pt_pages_cong:
  assumes "same_page m' m pd"
  shows "pt_pages m' pd = pt_pages m pd"
proof -
  have "(\<exists>i. q = pgtab_at m' pd i \<and> i < 1024 \<and> pde_present m' pd i) \<longleftrightarrow>
    (\<exists>i. q = pgtab_at m pd i \<and> i < 1024 \<and> pde_present m pd i)" for q
    using pd_same [OF assms] by metis
  then show ?thesis by (simp add: pt_pages_def)
qed

lemma pt_pages_wf:
  assumes "pd_wf xs s pd" "q \<in> pt_pages (mem s) pd"
  shows "valid_page s q \<and> q \<notin> set xs \<and> q mod 4096 = 0"
proof (cases "q = pd")
  case False
  then obtain i where "q = pgtab_at (mem s) pd i" "i < 1024" "pde_present (mem s) pd i"
    using assms(2) by (auto simp: pt_pages_def)
  then show ?thesis using pd_wf_tab [OF assms(1)] by simp
qed (simp add: pd_wf_pd [OF assms(1)])

text \<open>Memory that agrees on the pages of a directory leaves it well formed, also over a
  different set of free pages that avoids them.\<close>

lemma pd_wf_frame:
  assumes "pd_wf xs s pd" "\<forall>q\<in>pt_pages (mem s) pd. same_page (mem s') (mem s) q"
    and "kend s' = kend s" "set xs' \<inter> pt_pages (mem s) pd = {}"
  shows "pd_wf xs' s' pd" "pt_pages (mem s') pd = pt_pages (mem s) pd"
proof -
  have s: "same_page (mem s') (mem s) pd" using assms by (simp add: pt_pages_def)
  have v: "valid_page s' q = valid_page s q" for q using assms(3) by (simp add: valid_page_def)
  have d: "q \<in> pt_pages (mem s) pd \<Longrightarrow> q \<notin> set xs'" for q using assms(4) by blast
  show "pd_wf xs' s' pd"
    using assms(1) d pd_same [OF s] by (auto simp: pd_wf_def v pt_pages_def)
  show "pt_pages (mem s') pd = pt_pages (mem s) pd"
    by (rule pt_pages_cong [OF s])
qed

lemma page_word_mod4: "p mod 4096 = 0 \<Longrightarrow> i < 1024 \<Longrightarrow> (p + 4 * i) mod 4 = 0" for p i :: u32
proof -
  assume a: "p mod 4096 = 0" "i < 1024"
  obtain k where k: "unat p = 4096 * k" using page_dvd [OF a(1)] by blast
  have l: "unat i < 1024" using a(2) by (simp add: word_less_nat_alt)
  then have "unat (4 * i) = 4 * unat i" by (simp add: unat_word_ariths)
  then have "unat (p + 4 * i) = 4096 * k + 4 * unat i"
    using unat_page_off [OF a(1)] idx4 [OF a(2)] k by simp
  then have "unat ((p + 4 * i) mod 4) = (4 * (1024 * k + unat i)) mod 4" by (simp add: unat_mod_distrib)
  then show ?thesis by (simp add: word_unat_eq_iff)
qed

text \<open>A store into a page table entry.\<close>

lemma pte_store:
  assumes wf: "pd_wf xs s pd" and i: "pde_present (mem s) pd (PDX va)"
    and s': "s' = s\<lparr>mem := store32 (mem s) (pgtab_at (mem s) pd (PDX va) + 4 * PTX va) w\<rparr>"
  shows "pd_wf xs s' pd"
    and "pt_pages (mem s') pd = pt_pages (mem s) pd"
    and "pte_of (mem s') pd v = (if unat v div 4096 = unat va div 4096 then w else pte_of (mem s) pd v)"
    and "\<And>q. q mod 4096 = 0 \<Longrightarrow> q \<noteq> pgtab_at (mem s) pd (PDX va) \<Longrightarrow> same_page (mem s') (mem s) q"
proof -
  let ?t = "pgtab_at (mem s) pd (PDX va)"
  have t: "?t mod 4096 = 0" "?t \<noteq> pd" using pd_wf_tab [OF wf PDX_lt(1) i] by auto
  show fr: "q mod 4096 = 0 \<Longrightarrow> q \<noteq> ?t \<Longrightarrow> same_page (mem s') (mem s) q" for q
    using same_page_store32 [of ?t q "4 * PTX va"] t idx4 [OF PDX_lt(2)] by (simp add: s')
  have sp: "same_page (mem s') (mem s) pd" using fr t pd_wf_pd [OF wf] by auto
  have v: "valid_page s' q = valid_page s q" for q by (simp add: s')
  show "pd_wf xs s' pd"
    using wf pd_same [OF sp] by (auto simp: pd_wf_def v)
  show "pt_pages (mem s') pd = pt_pages (mem s) pd"
    by (rule pt_pages_cong [OF sp])
  show "pte_of (mem s') pd v = (if unat v div 4096 = unat va div 4096 then w else pte_of (mem s) pd v)"
  proof (cases "pde_present (mem s) pd (PDX v)")
    case True
    let ?u = "pgtab_at (mem s) pd (PDX v)"
    have p: "pte_of (mem s') pd v = load32 (mem s') (?u + 4 * PTX v)"
      using True pd_same [OF sp PDX_lt(1)] by (simp add: pte_of_def)
    show ?thesis
    proof (cases "PDX v = PDX va")
      case e: True
      have "load32 (mem s') (?t + 4 * PTX v) = (if PTX v = PTX va then w else load32 (mem s) (?t + 4 * PTX v))"
      proof (cases "PTX v = PTX va")
        case False
        then have "?t + 4 * PTX va \<noteq> ?t + 4 * PTX v" using idx4_inj PDX_lt(2) by (metis add_left_cancel)
        moreover have "(?t + 4 * PTX x) mod 4 = 0" for x
          using page_word_mod4 [OF t(1)] PDX_lt(2) by simp
        ultimately show ?thesis using False by (simp add: s' load32_store32_other)
      qed (simp add: s')
      then show ?thesis using p e True same_entry_iff [of v va] by (simp add: pte_of_def)
    next
      case False
      then have "?u \<noteq> ?t" using pd_wf_inj [OF wf PDX_lt(1) PDX_lt(1) True i] by auto
      then have "same_page (mem s') (mem s) ?u" using fr pd_wf_tab [OF wf PDX_lt(1) True] by simp
      then show ?thesis using p True False same_entry_iff [of v va] load32_in_page PDX_lt(2)
        by (auto simp: pte_of_def)
    qed
  next
    case False
    then show ?thesis using i same_entry_iff [of v va] pd_same [OF sp PDX_lt(1)]
      by (auto simp: pte_of_def)
  qed
qed

text \<open>What mapping operations may change: they take page tables from the free pages and write
  to the pages of this directory only.\<close>

definition pt_step :: "u32 \<Rightarrow> u32 list \<Rightarrow> 'a kmem_scheme \<Rightarrow> u32 list \<Rightarrow> 'a kmem_scheme \<Rightarrow> bool" where
  "pt_step pd xs s xs' s' \<longleftrightarrow> kmem_inv xs' s' \<and> pd_wf xs' s' pd \<and> kend s' = kend s \<and>
     kmem.more s' = kmem.more s \<and> (\<exists>ys. xs = ys @ xs') \<and>
     pt_pages (mem s) pd \<subseteq> pt_pages (mem s') pd \<and>
     pt_pages (mem s') pd \<subseteq> pt_pages (mem s) pd \<union> set xs \<and>
     (\<forall>q. q mod 4096 = 0 \<longrightarrow> q \<notin> set xs \<longrightarrow> q \<notin> pt_pages (mem s) pd \<longrightarrow> same_page (mem s') (mem s) q)"

lemma same_page_refl [simp]: "same_page m m q"
  by (simp add: same_page_def)

lemma pt_step_refl: "kmem_inv xs s \<Longrightarrow> pd_wf xs s pd \<Longrightarrow> pt_step pd xs s xs s"
  by (simp add: pt_step_def)

lemma pt_step_trans:
  assumes "pt_step pd xs s xs' s'" "pt_step pd xs' s' xs'' s''"
  shows "pt_step pd xs s xs'' s''"
proof -
  have sub: "set xs' \<subseteq> set xs" using assms(1) by (auto simp: pt_step_def)
  have "same_page (mem s'') (mem s) q" if q: "q mod 4096 = 0" "q \<notin> set xs" "q \<notin> pt_pages (mem s) pd" for q
  proof (rule same_page_trans)
    have "q \<notin> set xs'" "q \<notin> pt_pages (mem s') pd" using sub q assms(1) by (auto simp: pt_step_def)
    then show "same_page (mem s'') (mem s') q" using q(1) assms(2) by (simp add: pt_step_def)
    show "same_page (mem s') (mem s) q" using q assms(1) by (simp add: pt_step_def)
  qed
  moreover have "pt_pages (mem s'') pd \<subseteq> pt_pages (mem s) pd \<union> set xs"
    using assms sub by (auto simp: pt_step_def)
  moreover have "pt_pages (mem s) pd \<subseteq> pt_pages (mem s'') pd" using assms by (auto simp: pt_step_def)
  moreover have "\<exists>ys. xs = ys @ xs''" using assms by (metis append.assoc pt_step_def)
  ultimately show ?thesis using assms by (auto simp: pt_step_def)
qed

lemma pde_flags: "PTE_P OR PTE_W OR PTE_U = 7" "(V2P x OR 7) AND PTE_P \<noteq> 0"
proof -
  show "PTE_P OR PTE_W OR PTE_U = 7" by (simp add: PTE_P_def PTE_W_def PTE_U_def)
  have "bit ((V2P x OR 7) AND PTE_P) 0" unfolding PTE_P_def by (simp add: bit_simps)
  then show "(V2P x OR 7) AND PTE_P \<noteq> 0" by auto
qed

lemma load32_memset0:
  assumes "p mod 4096 = 0" "i < 1024"
  shows "load32 (memset m p 0 4096) (p + 4 * i) = 0"
proof -
  have "memset m p 0 4096 (p + 4 * i + of_nat k) = 0" if "k < 4" for k
  proof -
    have "4 * i + of_nat k < 4096" 
      by (rule word4_cases [OF conjunct1 [OF idx4] conjunct2 [OF idx4] that, OF assms(2,2)])
    then have "p + (4 * i + of_nat k) - p < 4096" by simp
    then show ?thesis by (simp add: memset_eq add.assoc)
  qed
  from this [of 0] this [of 1] this [of 2] this [of 3] show ?thesis by (simp add: load32_def)
qed

lemma new_pgtab:
  assumes wf: "pd_wf xs s pd" and x: "valid_page s x" "x \<in> set xs"
    and ab: "\<not> pde_present (mem s) pd (PDX va)"
    and m: "m = store32 (memset (mem s) x 0 4096) (pd + 4 * PDX va) (V2P x OR 7)"
  shows "\<And>q. q mod 4096 = 0 \<Longrightarrow> q \<noteq> x \<Longrightarrow> q \<noteq> pd \<Longrightarrow> same_page m (mem s) q"
    and "pde_present m pd (PDX va)" "pgtab_at m pd (PDX va) = x"
    and "\<And>j. j < 1024 \<Longrightarrow> j \<noteq> PDX va \<Longrightarrow> load32 m (pd + 4 * j) = load32 (mem s) (pd + 4 * j)"
    and "\<And>v. pte_of m pd v = pte_of (mem s) pd v"
proof -
  have p: "pd mod 4096 = 0" "x mod 4096 = 0" "x \<noteq> pd"
    using pd_wf_pd [OF wf] x valid_page_aligned by auto
  note i4 = idx4 [OF PDX_lt(1)]
  let ?m1 = "memset (mem s) x 0 4096"
  show fr: "q mod 4096 = 0 \<Longrightarrow> q \<noteq> x \<Longrightarrow> q \<noteq> pd \<Longrightarrow> same_page m (mem s) q" for q
    unfolding m using p i4
    by (intro same_page_trans [OF same_page_store32 same_page_memset]) auto
  have px: "same_page m ?m1 x" unfolding m using p i4 by (intro same_page_store32) auto
  have pm: "same_page ?m1 (mem s) pd" using p by (intro same_page_memset) auto
  have e: "load32 m (pd + 4 * PDX va) = V2P x OR 7" by (simp add: m)
  show pr: "pde_present m pd (PDX va)" using e pde_flags(2) by (simp add: pde_present_def)
  show tab: "pgtab_at m pd (PDX va) = x"
    using e mk_pte [OF p(2), of 7] by (simp add: pgtab_at_def)
  show oth: "load32 m (pd + 4 * j) = load32 (mem s) (pd + 4 * j)" if "j < 1024" "j \<noteq> PDX va" for j
  proof -
    have "pd + 4 * PDX va \<noteq> pd + 4 * j" using idx4_inj [of j "PDX va"] PDX_lt(1) that by auto
    then have "load32 m (pd + 4 * j) = load32 ?m1 (pd + 4 * j)"
      unfolding m using page_word_mod4 [OF p(1)] PDX_lt(1) that by (intro load32_store32_other) auto
    then show ?thesis using load32_in_page [OF pm that(1)] by simp
  qed
  show "pte_of m pd v = pte_of (mem s) pd v" for v
  proof (cases "PDX v = PDX va")
    case True
    have "load32 m (x + 4 * PTX v) = 0"
      using load32_in_page [OF px PDX_lt(2)] load32_memset0 [OF p(2) PDX_lt(2)] by simp
    then show ?thesis using True pr tab ab by (simp add: pte_of_def)
  next
    case False
    then have d: "load32 m (pd + 4 * PDX v) = load32 (mem s) (pd + 4 * PDX v)" using oth PDX_lt(1) by simp
    then have d2: "pde_present m pd (PDX v) = pde_present (mem s) pd (PDX v)"
      "pgtab_at m pd (PDX v) = pgtab_at (mem s) pd (PDX v)" by (simp_all add: pde_present_def pgtab_at_def)
    show ?thesis
    proof (cases "pde_present (mem s) pd (PDX v)")
      case pv: True
      have "same_page m (mem s) (pgtab_at (mem s) pd (PDX v))"
        using pd_wf_tab [OF wf PDX_lt(1) pv] x(2) by (intro fr) auto
      then show ?thesis using d2 pv load32_in_page PDX_lt(2) by (simp add: pte_of_def)
    qed (simp add: pte_of_def d2)
  qed
qed

lemma new_pgtab_pages:
  assumes "pde_present m' pd i" "pgtab_at m' pd i = x" "\<not> pde_present m pd i" "i < 1024"
    and "\<And>j. j < 1024 \<Longrightarrow> j \<noteq> i \<Longrightarrow> load32 m' (pd + 4 * j) = load32 m (pd + 4 * j)"
  shows "pt_pages m' pd = insert x (pt_pages m pd)"
proof -
  have o: "j < 1024 \<Longrightarrow> j \<noteq> i \<Longrightarrow> pde_present m' pd j = pde_present m pd j \<and> pgtab_at m' pd j = pgtab_at m pd j" for j
    using assms(5) by (simp add: pde_present_def pgtab_at_def)
  have "(\<exists>j. q = pgtab_at m' pd j \<and> j < 1024 \<and> pde_present m' pd j) \<longleftrightarrow>
    q = x \<or> (\<exists>j. q = pgtab_at m pd j \<and> j < 1024 \<and> pde_present m pd j)" for q
    using o assms(1-4) by metis
  then show ?thesis by (auto simp: pt_pages_def)
qed

lemma walkpgdir_alloc:
  assumes inv: "kmem_inv xs s" and wf: "pd_wf xs s pd"
  obtains (fail) "walkpgdir pd va True s = (0, s)" "xs = []"
  | (ok) s' xs' where "walkpgdir pd va True s = (pgtab_at (mem s') pd (PDX va) + 4 * PTX va, s')"
      "pde_present (mem s') pd (PDX va)" "pt_step pd xs s xs' s'"
      "\<And>v. pte_of (mem s') pd v = pte_of (mem s) pd v"
proof (cases "pde_present (mem s) pd (PDX va)")
  case True
  then have "walkpgdir pd va True s = (pgtab_at (mem s) pd (PDX va) + 4 * PTX va, s)"
    by (simp add: walkpgdir_def Let_def pgtab_at_def pde_present_def)
  then show ?thesis using ok [of s xs] True pt_step_refl [OF inv wf] by simp
next
  case ab: False
  show ?thesis
  proof (cases xs)
    case Nil
    then have "kalloc s = (0, s)" using kalloc_Nil inv by simp
    then show ?thesis using Nil ab
      by (intro fail) (simp_all add: walkpgdir_def Let_def pde_present_def)
  next
    case (Cons x ys)
    let ?s1 = "s\<lparr>freelist := load32 (mem s) x\<rparr>"
    let ?m = "store32 (memset (mem s) x 0 4096) (pd + 4 * PDX va) (V2P x OR 7)"
    let ?s' = "?s1\<lparr>mem := ?m\<rparr>"
    have k: "kalloc s = (x, ?s1)" "kmem_inv ys ?s1" using kalloc_Cons inv Cons by auto
    have xv: "valid_page s x" "x \<noteq> 0" "x \<in> set xs" "x \<notin> set ys" "x mod 4096 = 0"
      using ka.inv_pages [OF inv, of x] ka.inv_distinct [OF inv] valid_page_aligned Cons by auto
    note nt = new_pgtab [OF wf xv(1,3) ab refl]
    have pg: "pt_pages ?m pd = insert x (pt_pages (mem s) pd)"
      using new_pgtab_pages [OF nt(2,3) ab PDX_lt(1) nt(4)] by simp
    have xp: "x \<notin> pt_pages (mem s) pd" using pt_pages_wf [OF wf] xv(3) by blast
    have w: "walkpgdir pd va True s = (pgtab_at (mem ?s') pd (PDX va) + 4 * PTX va, ?s')"
      using k(1) xv(2) ab nt(3) by (simp add: walkpgdir_def Let_def pde_present_def pde_flags)
    have ys: "\<forall>y\<in>set ys. same_page ?m (mem s) y"
    proof
      fix y assume "y \<in> set ys"
      then show "same_page ?m (mem s) y"
        using pd_wf_pd [OF wf] ka.inv_pages [OF inv, of y] valid_page_aligned xv(4) Cons
        by (intro nt(1)) auto
    qed
    have ki: "kmem_inv ys ?s'"
      using k(2) free_list_same_pages [OF ys] by (simp add: kmem_inv_def)
    have wf': "pd_wf ys ?s' pd"
    proof -
      have "pde_present ?m pd i \<longrightarrow> valid_page s (pgtab_at ?m pd i) \<and> pgtab_at ?m pd i \<notin> set ys \<and>
          pgtab_at ?m pd i \<noteq> pd \<and>
          (\<forall>j<1024. pde_present ?m pd j \<longrightarrow> pgtab_at ?m pd i = pgtab_at ?m pd j \<longrightarrow> i = j)" if i: "i < 1024" for i
      proof (intro impI)
        assume p: "pde_present ?m pd i"
        have o: "j < 1024 \<Longrightarrow> j \<noteq> PDX va \<Longrightarrow> pde_present ?m pd j = pde_present (mem s) pd j \<and>
            pgtab_at ?m pd j = pgtab_at (mem s) pd j" for j
          using nt(4) by (simp add: pde_present_def pgtab_at_def)
        have tn: "j < 1024 \<Longrightarrow> pde_present (mem s) pd j \<Longrightarrow> pgtab_at (mem s) pd j \<noteq> x" for j
          using pd_wf_tab(2) [OF wf] xv(3) by metis
        show "valid_page s (pgtab_at ?m pd i) \<and> pgtab_at ?m pd i \<notin> set ys \<and>
          pgtab_at ?m pd i \<noteq> pd \<and>
          (\<forall>j<1024. pde_present ?m pd j \<longrightarrow> pgtab_at ?m pd i = pgtab_at ?m pd j \<longrightarrow> i = j)"
        proof (cases "i = PDX va")
          case True
          then show ?thesis using nt(3) xv pd_wf_pd [OF wf] o tn by metis
        next
          case False
          then have pi: "pde_present (mem s) pd i" "pgtab_at ?m pd i = pgtab_at (mem s) pd i"
            using o i p by auto
          have "\<forall>j<1024. pde_present ?m pd j \<longrightarrow> pgtab_at (mem s) pd i = pgtab_at ?m pd j \<longrightarrow> i = j"
            using o tn [OF i pi(1)] nt(3) pd_wf_inj [OF wf i _ pi(1)] by metis
          then show ?thesis using pi pd_wf_tab [OF wf i pi(1)] Cons by auto
        qed
      qed
      then show ?thesis using pd_wf_pd [OF wf] Cons by (simp add: pd_wf_def)
    qed
    have "pt_step pd xs s ys ?s'"
      unfolding pt_step_def using ki wf' pg xv(3) nt(1) Cons
      by (auto simp: pt_pages_def)
    then show ?thesis using ok [of ?s' ys] w nt(2,5) by simp
  qed
qed

abbreviation (input) vpn :: "u32 \<Rightarrow> nat" where "vpn v \<equiv> unat v div 4096"

lemma tab_nonzero:
  assumes "pd_wf xs s pd" "pde_present (mem s) pd (PDX va)"
  shows "pgtab_at (mem s) pd (PDX va) + 4 * PTX va \<noteq> 0"
proof -
  let ?t = "pgtab_at (mem s) pd (PDX va)"
  have t: "valid_page s ?t" "?t mod 4096 = 0" using pd_wf_tab [OF assms(1) PDX_lt(1) assms(2)] by auto
  have "unat (?t + 4 * PTX va) = unat ?t + unat (4 * PTX va)"
    using unat_page_off [OF t(2)] idx4 [OF PDX_lt(2)] by simp
  moreover have "0 < unat ?t" using valid_page_nonzero [OF t(1)] by (simp add: unat_gt_0)
  ultimately show ?thesis by auto
qed

lemma pte_store_step:
  assumes inv: "kmem_inv xs s" and wf: "pd_wf xs s pd" and i: "pde_present (mem s) pd (PDX va)"
    and s': "s' = s\<lparr>mem := store32 (mem s) (pgtab_at (mem s) pd (PDX va) + 4 * PTX va) w\<rparr>"
  shows "pt_step pd xs s xs s'"
proof -
  note st = pte_store [OF wf i s']
  let ?t = "pgtab_at (mem s) pd (PDX va)"
  have t: "?t \<in> pt_pages (mem s) pd" using i PDX_lt(1) by (auto simp: pt_pages_def)
  have "\<forall>x\<in>set xs. same_page (mem s') (mem s) x"
    using pd_wf_tab(2) [OF wf PDX_lt(1) i] ka.inv_pages [OF inv] valid_page_aligned
    by (intro ballI st(4)) auto
  from free_list_same_pages [OF this] have "kmem_inv xs s'" using inv by (simp add: kmem_inv_def s')
  moreover have "\<forall>q. q mod 4096 = 0 \<longrightarrow> q \<notin> set xs \<longrightarrow> q \<notin> pt_pages (mem s) pd \<longrightarrow> same_page (mem s') (mem s) q"
    using st(4) t by metis
  moreover have "kend s' = kend s" "kmem.more s' = kmem.more s" by (simp_all add: s')
  ultimately show ?thesis unfolding pt_step_def using st(1,2) by simp
qed

lemma pte_of_load:
  "pde_present m pd (PDX va) \<Longrightarrow> load32 m (pgtab_at m pd (PDX va) + 4 * PTX va) = pte_of m pd va"
  by (simp add: pte_of_def)

definition maps_range :: "u32 \<Rightarrow> memory \<Rightarrow> memory \<Rightarrow> nat \<Rightarrow> nat \<Rightarrow> u32 \<Rightarrow> u32 \<Rightarrow> bool" where
  "maps_range pd m m' b k pa perm \<longleftrightarrow> (\<forall>v. pte_of m' pd v =
     (if b \<le> vpn v \<and> vpn v \<le> b + k then (pa + of_nat (vpn v - b) * 4096) OR perm OR PTE_P
      else pte_of m pd v))"

lemma unat_page_add:
  fixes a :: u32
  assumes "unat a + k * 4096 < 4294967296"
  shows "unat (a + of_nat k * 4096) = unat a + k * 4096"
proof -
  have "k * 4096 < 4294967296" using assms by simp
  then have "unat (of_nat k :: u32) = k" by (simp add: unsigned_of_nat take_bit_nat_eq_self)
  then have "unat (of_nat k * 4096 :: u32) = k * 4096"
    using \<open>k * 4096 < 4294967296\<close> by (simp add: unat_word_ariths)
  then show ?thesis using assms by (subst unat_add_small) simp_all
qed

lemma mappages_loop_maps:
  assumes "kmem_inv xs s" "pd_wf xs s pd" "a mod 4096 = 0" "unat a + k * 4096 < 4294967296"
    and "\<forall>v. vpn a \<le> vpn v \<and> vpn v \<le> vpn a + k \<longrightarrow> pte_of (mem s) pd v AND PTE_P = 0"
  shows "\<exists>r xs' s'. mappages_loop (Suc k) pd a (a + of_nat k * 4096) pa perm s = Ok (r, s') \<and>
    pt_step pd xs s xs' s' \<and>
    (r = 0 \<and> maps_range pd (mem s) (mem s') (vpn a) k pa perm \<or>
     r = -1 \<and> xs' = [] \<and> (\<forall>v. \<not> (vpn a \<le> vpn v \<and> vpn v \<le> vpn a + k) \<longrightarrow> pte_of (mem s') pd v = pte_of (mem s) pd v))"
  using assms
proof (induction k arbitrary: a pa xs s)
  case (0 a pa xs s)
  show ?case
  proof (rule walkpgdir_alloc [OF "0.prems"(1,2), of a])
    assume "walkpgdir pd a True s = (0, s)" "xs = []"
    then show ?thesis using pt_step_refl [OF "0.prems"(1,2)]
      by (intro exI [of _ "-1"] exI [of _ "[]"] exI [of _ s]) simp
  next
    fix s1 xs1
    assume w: "walkpgdir pd a True s = (pgtab_at (mem s1) pd (PDX a) + 4 * PTX a, s1)"
      "pde_present (mem s1) pd (PDX a)" "pt_step pd xs s xs1 s1"
      and pte: "\<And>v. pte_of (mem s1) pd v = pte_of (mem s) pd v"
    let ?r = "pgtab_at (mem s1) pd (PDX a) + 4 * PTX a"
    let ?s2 = "s1\<lparr>mem := store32 (mem s1) ?r (pa OR perm OR PTE_P)\<rparr>"
    have wf1: "kmem_inv xs1 s1" "pd_wf xs1 s1 pd" using w(3) by (simp_all add: pt_step_def)
    have "load32 (mem s1) ?r AND PTE_P = 0" using "0.prems"(5) pte pte_of_load [OF w(2)] by simp
    then have "mappages_loop (Suc 0) pd a (a + of_nat 0 * 4096) pa perm s = Ok (0, ?s2)"
      using w(1) tab_nonzero [OF wf1(2) w(2)] by simp
    moreover have "pt_step pd xs s xs1 ?s2"
      by (rule pt_step_trans [OF w(3) pte_store_step [OF wf1 w(2) refl]])
    moreover have "maps_range pd (mem s) (mem ?s2) (vpn a) 0 pa perm"
      using pte_store(3) [OF wf1(2) w(2) refl] pte by (auto simp: maps_range_def)
    ultimately show ?thesis by blast
  qed
next
  case (Suc k a pa xs s)
  show ?case
  proof (rule walkpgdir_alloc [OF Suc.prems(1,2), of a])
    assume "walkpgdir pd a True s = (0, s)" "xs = []"
    then show ?thesis using pt_step_refl [OF Suc.prems(1,2)]
      by (intro exI [of _ "-1"] exI [of _ "[]"] exI [of _ s]) simp
  next
    fix s1 xs1
    assume w: "walkpgdir pd a True s = (pgtab_at (mem s1) pd (PDX a) + 4 * PTX a, s1)"
      "pde_present (mem s1) pd (PDX a)" "pt_step pd xs s xs1 s1"
      and pte: "\<And>v. pte_of (mem s1) pd v = pte_of (mem s) pd v"
    let ?r = "pgtab_at (mem s1) pd (PDX a) + 4 * PTX a"
    let ?s2 = "s1\<lparr>mem := store32 (mem s1) ?r (pa OR perm OR PTE_P)\<rparr>"
    have wf1: "kmem_inv xs1 s1" "pd_wf xs1 s1 pd" using w(3) by (simp_all add: pt_step_def)
    have st2: "pt_step pd xs s xs1 ?s2"
      by (rule pt_step_trans [OF w(3) pte_store_step [OF wf1 w(2) refl]])
    then have wf2: "kmem_inv xs1 ?s2" "pd_wf xs1 ?s2 pd" by (simp_all add: pt_step_def)
    have pte2: "pte_of (mem ?s2) pd v = (if vpn v = vpn a then pa OR perm OR PTE_P else pte_of (mem s) pd v)" for v
      using pte_store(3) [OF wf1(2) w(2) refl] pte by auto
    have np: "load32 (mem s1) ?r AND PTE_P = 0" using Suc.prems(5) pte pte_of_load [OF w(2)] by simp
    have ua: "unat (a + 4096) = unat a + 4096" using Suc.prems(4) by (subst unat_add_small) simp_all
    have am: "(a + 4096) mod 4096 = 0"
      using Suc.prems(3) ua by (simp add: word_unat_eq_iff unat_mod_distrib)
    have ne: "a \<noteq> a + of_nat (Suc k) * 4096"
      using unat_page_add [OF Suc.prems(4)] by (metis add_eq_self_zero mult_is_0 nat.simps(3) zero_neq_numeral)
    have va: "vpn (a + 4096) = Suc (vpn a)" unfolding ua by simp
    have pre: "\<forall>v. vpn (a + 4096) \<le> vpn v \<and> vpn v \<le> vpn (a + 4096) + k \<longrightarrow> pte_of (mem ?s2) pd v AND PTE_P = 0"
    proof (intro allI impI)
      fix v assume "vpn (a + 4096) \<le> vpn v \<and> vpn v \<le> vpn (a + 4096) + k"
      then show "pte_of (mem ?s2) pd v AND PTE_P = 0" using pte2 [of v] Suc.prems(5) unfolding va by auto
    qed
    have "\<exists>r xs' s'. mappages_loop (Suc k) pd (a + 4096) (a + 4096 + of_nat k * 4096) (pa + 4096) perm ?s2 = Ok (r, s') \<and>
      pt_step pd xs1 ?s2 xs' s' \<and>
      (r = 0 \<and> maps_range pd (mem ?s2) (mem s') (vpn (a + 4096)) k (pa + 4096) perm \<or>
       r = -1 \<and> xs' = [] \<and> (\<forall>v. \<not> (vpn (a + 4096) \<le> vpn v \<and> vpn v \<le> vpn (a + 4096) + k) \<longrightarrow> pte_of (mem s') pd v = pte_of (mem ?s2) pd v))"
      using Suc.prems(4) ua by (intro Suc.IH wf2 am pre) simp
    then obtain r xs' s' where l: "mappages_loop (Suc k) pd (a + 4096) (a + 4096 + of_nat k * 4096) (pa + 4096) perm ?s2 = Ok (r, s')"
      and st: "pt_step pd xs1 ?s2 xs' s'"
      and res: "r = 0 \<and> maps_range pd (mem ?s2) (mem s') (Suc (vpn a)) k (pa + 4096) perm \<or>
       r = -1 \<and> xs' = [] \<and> (\<forall>v. \<not> (Suc (vpn a) \<le> vpn v \<and> vpn v \<le> Suc (vpn a) + k) \<longrightarrow> pte_of (mem s') pd v = pte_of (mem ?s2) pd v)"
      unfolding va by auto
    have ml: "mappages_loop (Suc (Suc k)) pd a (a + of_nat (Suc k) * 4096) pa perm s = Ok (r, s')"
      using l w(1) tab_nonzero [OF wf1(2) w(2)] np ne
      by (simp add: mappages_loop.simps(2) [of "Suc k"] algebra_simps del: mappages_loop.simps)
    have "r = 0 \<and> maps_range pd (mem s) (mem s') (vpn a) (Suc k) pa perm \<or>
     r = -1 \<and> xs' = [] \<and> (\<forall>v. \<not> (vpn a \<le> vpn v \<and> vpn v \<le> vpn a + Suc k) \<longrightarrow> pte_of (mem s') pd v = pte_of (mem s) pd v)"
      using res
    proof (elim disjE conjE)
      assume r: "r = 0" "maps_range pd (mem ?s2) (mem s') (Suc (vpn a)) k (pa + 4096) perm"
      have "pte_of (mem s') pd v = (if vpn a \<le> vpn v \<and> vpn v \<le> vpn a + Suc k then
          (pa + of_nat (vpn v - vpn a) * 4096) OR perm OR PTE_P else pte_of (mem s) pd v)" for v
      proof -
        have "pte_of (mem s') pd v = (if Suc (vpn a) \<le> vpn v \<and> vpn v \<le> Suc (vpn a) + k then
          (pa + 4096 + of_nat (vpn v - Suc (vpn a)) * 4096) OR perm OR PTE_P else pte_of (mem ?s2) pd v)"
          using r(2) by (simp add: maps_range_def)
        moreover have "Suc (vpn a) \<le> vpn v \<Longrightarrow> pa + 4096 + of_nat (vpn v - Suc (vpn a)) * 4096 = pa + of_nat (vpn v - vpn a) * 4096"
          by (subst Suc_diff_Suc [symmetric]) (simp_all add: algebra_simps)
        ultimately show ?thesis using pte2 [of v] by auto
      qed
      then show ?thesis using r(1) by (simp add: maps_range_def)
    next
      assume r: "r = -1" "xs' = []" "\<forall>v. \<not> (Suc (vpn a) \<le> vpn v \<and> vpn v \<le> Suc (vpn a) + k) \<longrightarrow> pte_of (mem s') pd v = pte_of (mem ?s2) pd v"
      then show ?thesis using pte2 by auto
    qed
    then show ?thesis using ml pt_step_trans [OF st2 st] by blast
  qed
qed

lemma mappages_result:
  assumes "kmem_inv xs s" "pd_wf xs s pd" "0 < sz" "unat va + unat sz \<le> 2 ^ 32"
    and b: "b = unat va div 4096" and e: "e = (unat va + unat sz - 1) div 4096"
    and "\<forall>v. b \<le> vpn v \<and> vpn v \<le> e \<longrightarrow> pte_of (mem s) pd v AND PTE_P = 0"
  shows "\<exists>r xs' s'. mappages pd va sz pa perm s = Ok (r, s') \<and> pt_step pd xs s xs' s' \<and>
    (r = 0 \<and> maps_range pd (mem s) (mem s') b (e - b) pa perm \<or>
     r = -1 \<and> xs' = [] \<and> (\<forall>v. \<not> (b \<le> vpn v \<and> vpn v \<le> e) \<longrightarrow> pte_of (mem s') pd v = pte_of (mem s) pd v))"
proof -
  have sz0: "0 < unat sz" using assms(3) by (simp add: word_less_nat_alt)
  have u1: "unat (va + sz - 1) = unat va + unat sz - 1"
  proof -
    have "unat (sz - 1) = unat sz - 1" using unat_minus_1_less [OF sz0] .
    moreover have "unat (va + (sz - 1)) = unat va + unat (sz - 1)"
      using assms(4) sz0 calculation by (intro unat_add_small) simp
    ultimately show ?thesis using sz0 by (simp add: algebra_simps)
  qed
  let ?a = "PGROUNDDOWN va" and ?l = "PGROUNDDOWN (va + sz - 1)"
  have ua: "unat ?a = b * 4096" "unat ?l = e * 4096"
    unfolding unat_PGROUNDDOWN u1 b e by auto
  have be: "b \<le> e" unfolding b e using sz0 by (intro div_le_mono) simp
  have va: "vpn ?a = b" using ua by simp
  have el: "e * 4096 < 4294967296" using ua(2) unat32_lt [of ?l] by simp
  have lst: "?l = ?a + of_nat (e - b) * 4096"
  proof -
    have "unat ?a + (e - b) * 4096 < 4294967296" using ua el be by (simp add: diff_mult_distrib)
    then have "unat (?a + of_nat (e - b) * 4096) = e * 4096"
      using unat_page_add [of ?a "e - b"] ua be by (simp only: add_mult_distrib [symmetric] le_add_diff_inverse)
    then show ?thesis using ua by (simp only: word_unat_eq_iff)
  qed
  have n: "unat (?l - ?a) div 4096 = e - b"
    using ua be by (simp add: unat_sub word_le_nat_alt diff_mult_distrib [symmetric])
  have "\<exists>r xs' s'. mappages_loop (Suc (e - b)) pd ?a (?a + of_nat (e - b) * 4096) pa perm s = Ok (r, s') \<and>
    pt_step pd xs s xs' s' \<and>
    (r = 0 \<and> maps_range pd (mem s) (mem s') (vpn ?a) (e - b) pa perm \<or>
     r = -1 \<and> xs' = [] \<and> (\<forall>v. \<not> (vpn ?a \<le> vpn v \<and> vpn v \<le> vpn ?a + (e - b)) \<longrightarrow> pte_of (mem s') pd v = pte_of (mem s) pd v))"
    using ua el be assms(1,2,7) by (intro mappages_loop_maps) (auto simp: diff_mult_distrib)
  then show ?thesis using be n lst unfolding va mappages_def Let_def by simp
qed

section \<open>User pages\<close>

definition upresent :: "memory \<Rightarrow> u32 \<Rightarrow> u32 \<Rightarrow> bool" where
  "upresent m pd v \<longleftrightarrow> pte_of m pd v AND PTE_P \<noteq> 0"

definition upage :: "memory \<Rightarrow> u32 \<Rightarrow> u32 \<Rightarrow> u32" where
  "upage m pd v = P2V (PTE_ADDR (pte_of m pd v))"

text \<open>The pages mapped below page number \<open>n\<close> are private to this address space: pages the
  kernel may own, not free, not page tables, and mapped once.\<close>

definition uvm_wf :: "nat \<Rightarrow> u32 list \<Rightarrow> 'a kmem_scheme \<Rightarrow> u32 \<Rightarrow> bool" where
  "uvm_wf n xs s pd \<longleftrightarrow> KERNBASE < kend s \<and> (\<forall>v. vpn v < n \<longrightarrow> upresent (mem s) pd v \<longrightarrow>
     valid_page s (upage (mem s) pd v) \<and> upage (mem s) pd v \<notin> set xs \<and>
     upage (mem s) pd v \<notin> pt_pages (mem s) pd \<and>
     (\<forall>w. vpn w < n \<longrightarrow> upresent (mem s) pd w \<longrightarrow> upage (mem s) pd w = upage (mem s) pd v \<longrightarrow>
        vpn w = vpn v))"

definition upages :: "memory \<Rightarrow> u32 \<Rightarrow> nat \<Rightarrow> nat \<Rightarrow> u32 set" where
  "upages m pd b n = {upage m pd v |v. b \<le> vpn v \<and> vpn v < n \<and> upresent m pd v}"

text \<open>The effect of unmapping the pages numbered from \<open>b\<close> to below \<open>n\<close>.\<close>

definition unmaps :: "u32 \<Rightarrow> nat \<Rightarrow> nat \<Rightarrow> u32 list \<Rightarrow> 'a kmem_scheme \<Rightarrow> u32 list \<Rightarrow> 'a kmem_scheme \<Rightarrow> bool" where
  "unmaps pd b n xs s ys s' \<longleftrightarrow> kmem_inv (ys @ xs) s' \<and> pd_wf (ys @ xs) s' pd \<and> kend s' = kend s \<and>
     kmem.more s' = kmem.more s \<and> pt_pages (mem s') pd = pt_pages (mem s) pd \<and>
     set ys = upages (mem s) pd b n \<and>
     (\<forall>v. pte_of (mem s') pd v = (if b \<le> vpn v \<and> vpn v < n \<and> upresent (mem s) pd v then 0 else pte_of (mem s) pd v)) \<and>
     (\<forall>q. q mod 4096 = 0 \<longrightarrow> q \<notin> set ys \<longrightarrow> q \<notin> pt_pages (mem s) pd \<longrightarrow> same_page (mem s') (mem s) q)"

lemma pte_of_absent: "\<not> pde_present m pd (PDX v) \<Longrightarrow> pte_of m pd v = 0"
  by (simp add: pte_of_def)

lemma walkpgdir_no: "walkpgdir pd va False s =
  (if pde_present (mem s) pd (PDX va) then pgtab_at (mem s) pd (PDX va) + 4 * PTX va else 0, s)"
  by (simp add: walkpgdir_def Let_def pgtab_at_def pde_present_def)

lemma pages_cong: "vpn v = vpn w \<Longrightarrow> pte_of m pd v = pte_of m pd w"
  using same_entry_iff [of v w] by (simp add: pte_of_def)

lemma upage_cong: "vpn v = vpn w \<Longrightarrow> upresent m pd v = upresent m pd w \<and> upage m pd v = upage m pd w"
  using pages_cong [of v w] by (simp add: upresent_def upage_def)

text \<open>Freeing one user page and clearing its entry.\<close>

lemma unmap_one:
  assumes inv: "kmem_inv xs s" and wf: "pd_wf xs s pd" and uw: "uvm_wf n xs s pd"
    and a: "vpn a < n" "upresent (mem s) pd a" and b: "b = vpn a"
  shows "\<exists>s1. kfree (upage (mem s) pd a) s = Ok s1 \<and> pde_present (mem s) pd (PDX a) \<and>
    (let s2 = s1\<lparr>mem := store32 (mem s1) (pgtab_at (mem s) pd (PDX a) + 4 * PTX a) 0\<rparr> in
     unmaps pd b (Suc b) xs s [upage (mem s) pd a] s2 \<and> uvm_wf n (upage (mem s) pd a # xs) s2 pd)"
proof -
  let ?x = "upage (mem s) pd a"
  have pp: "pde_present (mem s) pd (PDX a)" using a(2) by (auto simp: upresent_def pte_of_def split: if_splits)
  have x: "valid_page s ?x" "?x \<notin> set xs" "?x \<notin> pt_pages (mem s) pd" "?x mod 4096 = 0"
    using uw a valid_page_aligned by (auto simp: uvm_wf_def)
  obtain s1 where s1: "kfree ?x s = Ok s1" "kmem_inv (?x # xs) s1" using kfree_inv [OF inv x(1,2)] by blast
  have m1: "s1 = s\<lparr>mem := store32 (memset (mem s) ?x 1 4096) ?x (freelist s), freelist := ?x\<rparr>"
    using s1(1) kfree_valid [OF x(1)] by simp
  have f1: "same_page (mem s1) (mem s) q" if "q mod 4096 = 0" "q \<noteq> ?x" for q
    using same_page_kfree [OF x(4) that(1)] that(2) by (simp add: m1)
  have fp: "\<forall>q\<in>pt_pages (mem s) pd. same_page (mem s1) (mem s) q"
    using pt_pages_wf [OF wf] x(3) f1 by blast
  have wf1: "pd_wf (?x # xs) s1 pd" and pg1: "pt_pages (mem s1) pd = pt_pages (mem s) pd"
    using pd_wf_frame [OF wf fp, of "?x # xs"] x(3) pt_pages_wf [OF wf] by (auto simp: m1)
  have pt1: "pte_of (mem s1) pd v = pte_of (mem s) pd v" for v by (rule pte_of_frame [OF fp])
  have sp: "same_page (mem s1) (mem s) pd" using fp by (simp add: pt_pages_def)
  have tab: "pgtab_at (mem s1) pd (PDX a) = pgtab_at (mem s) pd (PDX a)" "pde_present (mem s1) pd (PDX a)"
    using pd_same [OF sp PDX_lt(1)] pp by auto
  let ?s2 = "s1\<lparr>mem := store32 (mem s1) (pgtab_at (mem s) pd (PDX a) + 4 * PTX a) 0\<rparr>"
  have st: "pt_step pd (?x # xs) s1 (?x # xs) ?s2"
    using pte_store_step [OF s1(2) wf1 tab(2) refl, of 0] tab(1) by simp
  have pg2: "pt_pages (mem ?s2) pd = pt_pages (mem s) pd"
    using pte_store(2) [OF wf1 tab(2) refl, of 0] pg1 tab(1) by simp
  have pt2: "pte_of (mem ?s2) pd v = (if vpn v = b then 0 else pte_of (mem s) pd v)" for v
    using pte_store(3) [OF wf1 tab(2) refl, of 0 v] pt1 tab(1) b by simp
  have fr: "same_page (mem ?s2) (mem s) q" if q: "q mod 4096 = 0" "q \<noteq> ?x" "q \<notin> pt_pages (mem s) pd" for q
  proof (rule same_page_trans [OF _ f1 [OF q(1,2)]])
    have "q \<noteq> pgtab_at (mem s1) pd (PDX a)" using q(3) tab(1) pp PDX_lt(1) [of a] by (auto simp: pt_pages_def)
    then show "same_page (mem ?s2) (mem s1) q" using pte_store(4) [OF wf1 tab(2) refl, of q 0] q(1) tab(1) by simp
  qed
  have up: "upages (mem s) pd b (Suc b) = {?x}"
  proof -
    have "(b \<le> vpn v \<and> vpn v < Suc b \<and> upresent (mem s) pd v) \<longleftrightarrow> vpn v = vpn a" for v
      using upage_cong [of v a] a(2) b by (metis le_antisym less_Suc_eq_le order_refl)
    moreover have "{upage (mem s) pd v |v. vpn v = vpn a} = {?x}"
      using upage_cong by blast
    ultimately show ?thesis by (simp only: upages_def)
  qed
  have eq: "pte_of (mem ?s2) pd v = (if b \<le> vpn v \<and> vpn v < Suc b \<and> upresent (mem s) pd v then 0 else pte_of (mem s) pd v)" for v
  proof -
    have "vpn v = b \<Longrightarrow> upresent (mem s) pd v" using upage_cong [of v a] b a(2) by simp
    moreover have "(b \<le> vpn v \<and> vpn v < Suc b) = (vpn v = b)" by linarith
    ultimately show ?thesis using pt2 [of v] by metis
  qed
  have un: "unmaps pd b (Suc b) xs s [?x] ?s2"
    unfolding unmaps_def using st pg2 up eq fr by (simp add: pt_step_def m1)
  have "uvm_wf n (?x # xs) ?s2 pd"
    unfolding uvm_wf_def
  proof (intro conjI allI impI)
    show "KERNBASE < kend ?s2" using uw by (simp add: uvm_wf_def m1)
  next
    fix v assume v: "vpn v < n" "upresent (mem ?s2) pd v"
    have nb: "vpn w \<noteq> b \<and> upresent (mem s) pd w \<and> upage (mem ?s2) pd w = upage (mem s) pd w"
      if "upresent (mem ?s2) pd w" for w using that pt2 [of w] by (auto simp: upresent_def upage_def split: if_splits)
    have o: "valid_page s (upage (mem s) pd v) \<and> upage (mem s) pd v \<notin> set xs \<and> upage (mem s) pd v \<notin> pt_pages (mem s) pd \<and>
      (\<forall>w. vpn w < n \<longrightarrow> upresent (mem s) pd w \<longrightarrow> upage (mem s) pd w = upage (mem s) pd v \<longrightarrow> vpn w = vpn v)"
      using uw v(1) nb [OF v(2)] by (simp add: uvm_wf_def)
    have "upage (mem s) pd v \<noteq> ?x" using o a nb [OF v(2)] b by metis
    moreover have "valid_page ?s2 = valid_page s" by (simp add: fun_eq_iff m1)
    ultimately have "valid_page ?s2 (upage (mem ?s2) pd v) \<and> upage (mem ?s2) pd v \<notin> set (?x # xs) \<and>
      upage (mem ?s2) pd v \<notin> pt_pages (mem ?s2) pd \<and>
      (\<forall>w. vpn w < n \<longrightarrow> upresent (mem ?s2) pd w \<longrightarrow> upage (mem ?s2) pd w = upage (mem ?s2) pd v \<longrightarrow> vpn w = vpn v)"
      unfolding pg2 using o nb [OF v(2)] nb by (metis set_ConsD)
    then show "valid_page ?s2 (upage (mem ?s2) pd v)" "upage (mem ?s2) pd v \<notin> set (?x # xs)"
      "upage (mem ?s2) pd v \<notin> pt_pages (mem ?s2) pd"
      "\<And>w. vpn w < n \<Longrightarrow> upresent (mem ?s2) pd w \<Longrightarrow> upage (mem ?s2) pd w = upage (mem ?s2) pd v \<Longrightarrow> vpn w = vpn v"
      by blast+
  qed
  then show ?thesis using s1(1) pp un by (simp add: Let_def)
qed

lemma upages_split:
  assumes "b \<le> b'" "b' \<le> n"
  shows "upages m pd b n = upages m pd b b' \<union> upages m pd b' n"
proof -
  have "(b \<le> vpn v \<and> vpn v < n \<and> P) \<longleftrightarrow> (b \<le> vpn v \<and> vpn v < b' \<and> P) \<or> (b' \<le> vpn v \<and> vpn v < n \<and> P)" for v P
    using assms by linarith
  then have "upages m pd b n = {upage m pd v |v. (b \<le> vpn v \<and> vpn v < b' \<and> upresent m pd v) \<or> (b' \<le> vpn v \<and> vpn v < n \<and> upresent m pd v)}"
    by (simp only: upages_def)
  then show ?thesis unfolding upages_def by blast
qed

lemma upages_cong:
  assumes "\<And>v. b \<le> vpn v \<Longrightarrow> vpn v < n \<Longrightarrow> pte_of m' pd v = pte_of m pd v"
  shows "upages m' pd b n = upages m pd b n"
proof -
  have "(x = upage m' pd v \<and> b \<le> vpn v \<and> vpn v < n \<and> upresent m' pd v) \<longleftrightarrow>
    (x = upage m pd v \<and> b \<le> vpn v \<and> vpn v < n \<and> upresent m pd v)" for x v
    using assms [of v] by (auto simp: upage_def upresent_def)
  then show ?thesis by (simp only: upages_def)
qed

lemma unmaps_trans:
  assumes 1: "unmaps pd b b' xs s ys s1" and 2: "unmaps pd b' n (ys @ xs) s1 zs s2" and b: "b \<le> b'" "b' \<le> n"
  shows "unmaps pd b n xs s (zs @ ys) s2"
proof -
  have p1: "pte_of (mem s1) pd v = (if b \<le> vpn v \<and> vpn v < b' \<and> upresent (mem s) pd v then 0 else pte_of (mem s) pd v)" for v
    using 1 by (simp add: unmaps_def)
  have p2: "pte_of (mem s2) pd v = (if b' \<le> vpn v \<and> vpn v < n \<and> upresent (mem s1) pd v then 0 else pte_of (mem s1) pd v)" for v
    using 2 by (simp add: unmaps_def)
  have up: "upages (mem s1) pd b' n = upages (mem s) pd b' n" by (rule upages_cong) (simp add: p1)
  have "pte_of (mem s2) pd v = (if b \<le> vpn v \<and> vpn v < n \<and> upresent (mem s) pd v then 0 else pte_of (mem s) pd v)" for v
    using p1 [of v] p2 [of v] b by (auto simp: upresent_def)
  moreover have "set (zs @ ys) = upages (mem s) pd b n"
    using 1 2 up upages_split [OF b] by (auto simp: unmaps_def)
  moreover have "same_page (mem s2) (mem s) q"
    if q: "q mod 4096 = 0" "q \<notin> set (zs @ ys)" "q \<notin> pt_pages (mem s) pd" for q
  proof (rule same_page_trans)
    show "same_page (mem s2) (mem s1) q" using 1 2 q by (simp add: unmaps_def)
    show "same_page (mem s1) (mem s) q" using 1 q by (simp add: unmaps_def)
  qed
  ultimately show ?thesis using 1 2 by (simp add: unmaps_def)
qed

lemma unmaps_none:
  assumes "kmem_inv xs s" "pd_wf xs s pd" "\<forall>v. b \<le> vpn v \<and> vpn v < n \<longrightarrow> \<not> upresent (mem s) pd v"
  shows "unmaps pd b n xs s [] s"
  using assms by (auto simp: unmaps_def upages_def)

lemma aligned_less_iff:
  assumes "(a :: u32) mod 4096 = 0"
  shows "a < z \<longleftrightarrow> unat a div 4096 < (unat z + 4095) div 4096"
proof -
  obtain k where k: "unat a = 4096 * k" using page_dvd [OF assms] by blast
  have "4096 * k < unat z \<longleftrightarrow> k < (unat z + 4095) div 4096"
  proof
    assume "4096 * k < unat z"
    then have "4096 * (Suc k) \<le> unat z + 4095" by simp
    then have "(4096 * Suc k) div 4096 \<le> (unat z + 4095) div 4096" by (rule div_le_mono)
    then show "k < (unat z + 4095) div 4096" by simp
  next
    assume "k < (unat z + 4095) div 4096"
    then have "Suc k * 4096 \<le> (unat z + 4095) div 4096 * 4096" by simp
    also have "\<dots> \<le> unat z + 4095" by (rule div_times_less_eq_dividend)
    finally show "4096 * k < unat z" by simp
  qed
  then show ?thesis using k by (simp add: word_less_nat_alt)
qed

lemma next_pgdir:
  assumes "unat a < 2147483648"
  shows "unat (PGADDR (PDX a + 1) 0 0) = (unat a div 4194304 + 1) * 4194304"
proof -
  have p: "unat (PDX a) < 512" using assms unat_PDX(1) [of a] by (simp add: less_mult_imp_div_less)
  then have "unat (PDX a + 1) = unat a div 4194304 + 1"
    using unat_PDX(1) [of a] by (subst unat_add_small) simp_all
  moreover have "PGADDR (PDX a + 1) 0 0 = (PDX a + 1) * 4194304"
    by (simp add: PGADDR_def push_bit_eq_mult)
  ultimately show ?thesis using p unat_PDX(1) [of a]
    by (simp add: unat_word_ariths)
qed

lemma pa_nonzero:
  assumes "uvm_wf n xs s pd" "vpn a < n" "upresent (mem s) pd a"
  shows "PTE_ADDR (pte_of (mem s) pd a) \<noteq> 0"
proof
  assume "PTE_ADDR (pte_of (mem s) pd a) = 0"
  then have "upage (mem s) pd a = KERNBASE" by (simp add: upage_def P2V_def)
  then have "kend s \<le> KERNBASE" using assms by (auto simp: uvm_wf_def valid_page_def)
  then show False using assms(1) by (auto simp: uvm_wf_def)
qed

lemma deallocuvm_loop_frees:
  assumes "kmem_inv xs s" "pd_wf xs s pd" "uvm_wf n xs s pd" "a mod 4096 = 0" "oldsz \<le> KERNBASE"
    and n: "n = (unat oldsz + 4095) div 4096" and "n - vpn a < k" "vpn a \<le> n + 1024"
  shows "\<exists>ys s'. deallocuvm_loop k pd a oldsz s = Ok s' \<and> unmaps pd (min (vpn a) n) n xs s ys s'"
  using assms(1-4,7,8)
proof (induction k arbitrary: a xs s)
  case (Suc k a xs s)
  have oz: "unat oldsz \<le> 2147483648" using assms(5) by (simp add: word_le_nat_alt KERNBASE_def)
  show ?case
  proof (cases "a < oldsz")
    case False
    then have "n \<le> vpn a" using aligned_less_iff [OF Suc.prems(4)] n by simp
    moreover have "unmaps pd n n xs s [] s" by (intro unmaps_none Suc.prems(1,2)) auto
    ultimately show ?thesis using False by (intro exI [of _ "[]"] exI [of _ s]) (simp add: min_def)
  next
    case lt: True
    then have vn: "vpn a < n" using aligned_less_iff [OF Suc.prems(4)] n by simp
    have la: "unat a < 2147483648" using lt oz by (simp add: word_less_nat_alt)
    obtain j where j: "unat a = 4096 * j" using page_dvd [OF Suc.prems(4)] by blast
    have u1: "unat (a + 4096) = unat a + 4096" using la by (subst unat_add_small) simp_all
    have va: "vpn (a + 4096) = Suc (vpn a)" unfolding u1 by simp
    have am: "(a + 4096) mod 4096 = 0" using u1 j by (simp add: word_unat_eq_iff unat_mod_distrib)
    show ?thesis
    proof (cases "pde_present (mem s) pd (PDX a)")
      case ab: False
      let ?a' = "PGADDR (PDX a + 1) 0 0"
      have ua': "unat ?a' = (unat a div 4194304 + 1) * 4194304" by (rule next_pgdir [OF la])
      have va': "vpn ?a' = (unat a div 4194304 + 1) * 1024" unfolding ua' by simp
      have dv': "unat w div 4194304 = vpn w div 1024" for w :: u32 by (simp add: div_mult2_eq [symmetric])
      note dv = dv' [of a]
      have gt: "vpn a < vpn ?a'" unfolding va' dv using div_less_iff_less_mult [of 1024 "vpn a" "vpn a div 1024 + 1"] by simp
      have le: "vpn ?a' \<le> vpn a + 1024" unfolding va' dv using div_times_less_eq_dividend [of "vpn a" 1024] by simp
      have pq: "vpn v div 1024 = vpn a div 1024" if "vpn a \<le> vpn v" "vpn v < vpn ?a'" for v
      proof -
        have "vpn a div 1024 \<le> vpn v div 1024" using that(1) by (rule div_le_mono)
        moreover have "vpn v div 1024 < vpn a div 1024 + 1"
          using that(2) unfolding va' dv by (rule less_mult_imp_div_less)
        ultimately show ?thesis by simp
      qed
      have px: "PDX v = PDX a" if "vpn a \<le> vpn v" "vpn v < vpn ?a'" for v
        unfolding word_unat_eq_iff unat_PDX dv' by (rule pq [OF that])
      have none: "\<not> upresent (mem s) pd v" if "vpn a \<le> vpn v" "vpn v < vpn ?a'" for v
        using px [OF that] pte_of_absent [of "mem s" pd v] ab by (simp add: upresent_def)
      have am': "?a' mod 4096 = 0" using ua' by (simp add: word_unat_eq_iff unat_mod_distrib)
      have d: "n - vpn ?a' < k" using Suc.prems(5) gt vn by linarith
      obtain ys s' where l: "deallocuvm_loop k pd ?a' oldsz s = Ok s'" "unmaps pd (min (vpn ?a') n) n xs s ys s'"
        using Suc.IH [OF Suc.prems(1-3) am' d] le vn by (auto dest: less_imp_le)
      have "unmaps pd (vpn a) (min (vpn ?a') n) xs s [] s"
        using none by (intro unmaps_none Suc.prems(1,2)) auto
      from unmaps_trans [OF this, of n ys s'] have "unmaps pd (vpn a) n xs s ys s'" using l(2) gt vn by simp
      then show ?thesis using lt ab l(1) vn by (auto simp: walkpgdir_no Let_def min_def)
    next
      case pp: True
      have d1: "n - vpn (a + 4096) < k" and d2: "vpn (a + 4096) \<le> n + 1024"
        unfolding va using Suc.prems(5) vn by linarith+
      let ?t = "pgtab_at (mem s) pd (PDX a) + 4 * PTX a"
      have nz: "?t \<noteq> 0" by (rule tab_nonzero [OF Suc.prems(2) pp])
      have e: "load32 (mem s) ?t = pte_of (mem s) pd a" using pte_of_load [OF pp] .
      show ?thesis
      proof (cases "upresent (mem s) pd a")
        case up: True
        obtain s1 where s1: "kfree (upage (mem s) pd a) s = Ok s1"
          and un: "unmaps pd (vpn a) (Suc (vpn a)) xs s [upage (mem s) pd a] (s1\<lparr>mem := store32 (mem s1) ?t 0\<rparr>)"
          and uw: "uvm_wf n (upage (mem s) pd a # xs) (s1\<lparr>mem := store32 (mem s1) ?t 0\<rparr>) pd"
          using unmap_one [OF Suc.prems(1-3) vn up refl] by (auto simp: Let_def)
        let ?s2 = "s1\<lparr>mem := store32 (mem s1) ?t 0\<rparr>"
        have i2: "kmem_inv (upage (mem s) pd a # xs) ?s2" "pd_wf (upage (mem s) pd a # xs) ?s2 pd"
          using un by (simp_all add: unmaps_def)
        have pnz: "PTE_ADDR (pte_of (mem s) pd a) \<noteq> 0"
          using pa_nonzero [OF Suc.prems(3) vn up] .
        obtain ys s' where l: "deallocuvm_loop k pd (a + 4096) oldsz ?s2 = Ok s'"
          "unmaps pd (min (vpn (a + 4096)) n) n (upage (mem s) pd a # xs) ?s2 ys s'"
          using Suc.IH [OF i2 uw am d1 d2] by blast
        have "unmaps pd (vpn a) n xs s (ys @ [upage (mem s) pd a]) s'"
          using unmaps_trans [OF un, of n ys s'] l(2) vn unfolding va by simp
        moreover have "deallocuvm_loop (Suc k) pd a oldsz s = Ok s'"
          using lt pp nz e up pnz s1 l(1) by (simp add: walkpgdir_no Let_def upresent_def upage_def)
        ultimately show ?thesis using vn by (auto simp: min_def)
      next
        case np: False
        obtain ys s' where l: "deallocuvm_loop k pd (a + 4096) oldsz s = Ok s'"
          "unmaps pd (min (vpn (a + 4096)) n) n xs s ys s'"
          using Suc.IH [OF Suc.prems(1-3) am d1 d2] by blast
        have "\<not> upresent (mem s) pd v" if "vpn a \<le> vpn v \<and> vpn v < Suc (vpn a)" for v
        proof -
          have "vpn v = vpn a" using that by linarith
          then show ?thesis using np upage_cong [of v a] by simp
        qed
        then have "unmaps pd (vpn a) (Suc (vpn a)) xs s [] s"
          by (intro unmaps_none Suc.prems(1,2)) auto
        then have "unmaps pd (vpn a) n xs s ys s'"
          using unmaps_trans [of pd "vpn a" "Suc (vpn a)" xs s "[]" s n ys s'] l(2) vn unfolding va by simp
        moreover have "deallocuvm_loop (Suc k) pd a oldsz s = Ok s'"
          using lt pp nz e np l(1) by (simp add: walkpgdir_no Let_def upresent_def)
        ultimately show ?thesis using vn by (auto simp: min_def)
      qed
    qed
  qed
qed simp

lemma unat_PGROUNDUP:
  assumes "unat z \<le> 4294963200"
  shows "unat (PGROUNDUP z) = (unat z + 4095) div 4096 * 4096"
proof -
  have "unat (z + 4095) = unat z + 4095" using assms by (subst unat_add_small) simp_all
  moreover have "PGROUNDUP z = PGROUNDDOWN (z + 4095)" by (simp add: PGROUNDUP_def PGROUNDDOWN_def add.commute)
  ultimately show ?thesis by (simp add: unat_PGROUNDDOWN)
qed

lemma deallocuvm_result:
  assumes "kmem_inv xs s" "pd_wf xs s pd" "uvm_wf n xs s pd" "oldsz \<le> KERNBASE" "newsz < oldsz"
    and n: "n = (unat oldsz + 4095) div 4096" and b: "b = (unat newsz + 4095) div 4096"
  shows "\<exists>ys s'. deallocuvm pd oldsz newsz s = Ok (newsz, s') \<and> unmaps pd b n xs s ys s'"
proof -
  have oz: "unat oldsz \<le> 2147483648" "unat newsz < unat oldsz"
    using assms(4,5) by (simp_all add: word_le_nat_alt word_less_nat_alt KERNBASE_def)
  have u: "unat (PGROUNDUP newsz) = b * 4096" using oz unfolding b by (intro unat_PGROUNDUP) simp
  have al: "PGROUNDUP newsz mod 4096 = 0" using u by (simp add: word_unat_eq_iff unat_mod_distrib)
  have v: "vpn (PGROUNDUP newsz) = b" unfolding u by simp
  have bn: "b \<le> n" unfolding b n using oz(2) by (intro div_le_mono) simp
  have "n \<le> (unat oldsz + 4096) div 4096" unfolding n by (intro div_le_mono) simp
  moreover have "(unat oldsz + 4096) div 4096 = unat oldsz div 4096 + 1" by simp
  ultimately have d: "n - vpn (PGROUNDUP newsz) < unat oldsz div 4096 + 2" by linarith
  have d2: "vpn (PGROUNDUP newsz) \<le> n + 1024" using bn v by simp
  obtain ys s' where "deallocuvm_loop (unat oldsz div 4096 + 2) pd (PGROUNDUP newsz) oldsz s = Ok s'"
    "unmaps pd (min (vpn (PGROUNDUP newsz)) n) n xs s ys s'"
    using deallocuvm_loop_frees [OF assms(1-3) al assms(4) n d d2] by blast
  then show ?thesis using assms(5) bn unfolding v deallocuvm_def
    by (auto simp: min_def not_le simp del: deallocuvm_loop.simps add_2_eq_Suc')
qed

section \<open>Shared pages\<close>

lemma desharevm_last:
  assumes inv: "kmem_inv xs s" and i: "0 \<le> idx" "nat idx < length (recs s)" "nat idx < length (shared s)"
    and r: "recs s ! nat idx = 1" and pg: "shared s ! nat idx = pg" "valid_page s pg" "pg \<notin> set xs"
  shows "\<exists>s'. desharevm idx s = Ok s' \<and> kmem_inv (pg # xs) s' \<and> recs s' ! nat idx = 0 \<and>
    (\<forall>q. q mod 4096 = 0 \<longrightarrow> q \<noteq> pg \<longrightarrow> same_page (mem s') (mem s) q)"
proof -
  let ?s = "s\<lparr>recs := (recs s)[nat idx := 0]\<rparr>"
  have "idx < int (length (recs s))" "idx < int (length (shared s))" using i by linarith+
  then have d: "desharevm idx s = kfree pg ?s" using i r pg by (simp add: desharevm_def Let_def)
  have "kmem_inv xs ?s" "valid_page ?s pg" using inv pg by (simp_all add: kmem_inv_def valid_page_def)
  from kfree_inv [OF this pg(3)] obtain s' where s': "kfree pg ?s = Ok s'" "kmem_inv (pg # xs) s'" by blast
  have "valid_page ?s pg" using pg by (simp add: valid_page_def)
  from kfree_valid [OF this] s'(1)
  have m: "s' = ?s\<lparr>mem := store32 (memset (mem s) pg 1 4096) pg (freelist s), freelist := pg\<rparr>" by simp
  have "\<forall>q. q mod 4096 = 0 \<longrightarrow> q \<noteq> pg \<longrightarrow> same_page (mem s') (mem s) q"
    unfolding m using same_page_kfree [of pg] valid_page_aligned [OF pg(2)] by simp
  then show ?thesis using d s' i by (auto simp: m)
qed

lemma desharevm_dangling:
  assumes inv: "kmem_inv xs s" and wf: "pd_wf xs s pd"
    and i: "0 \<le> idx" "nat idx < length (recs s)" "nat idx < length (shared s)"
    and r: "recs s ! nat idx = 1" and pg: "shared s ! nat idx = pg" "valid_page s pg" "pg \<notin> set xs" "pg \<notin> pt_pages (mem s) pd"
    and v: "upresent (mem s) pd v" "upage (mem s) pd v = pg"
  shows "\<exists>s'. desharevm idx s = Ok s' \<and> kmem_inv (pg # xs) s' \<and>
    pte_of (mem s') pd v = pte_of (mem s) pd v \<and> fst (kalloc s') = pg"
proof -
  obtain s' where s': "desharevm idx s = Ok s'" "kmem_inv (pg # xs) s'"
    and fr: "\<forall>q. q mod 4096 = 0 \<longrightarrow> q \<noteq> pg \<longrightarrow> same_page (mem s') (mem s) q"
    using desharevm_last [OF inv i r pg(1-3)] by blast
  have "\<forall>q\<in>pt_pages (mem s) pd. same_page (mem s') (mem s) q"
    using fr pt_pages_wf [OF wf] pg(4) by metis
  then have "pte_of (mem s') pd v = pte_of (mem s) pd v" by (rule pte_of_frame)
  then show ?thesis using s' ka.alloc_head [OF s'(2)] by blast
qed

section \<open>Properties\<close>

text \<open>A small address space for the witnesses: a page directory, one page table and one user
  page at address zero.\<close>

definition demo_mem :: memory where
  "demo_mem = store32 (store32 (\<lambda>_. 0) 0x80200000 0x201007) 0x80201000 0x202007"

definition demo_vm :: vm where
  "demo_vm = \<lparr>mem = demo_mem, freelist = 0, use_lock = True, kend = 0x80110000,
     vdata = 0x80108000, shared = replicate 10 0x80202000, recs = replicate 10 1\<rparr>"

lemma load32_zero [simp]: "load32 (\<lambda>_. 0) a = 0"
  by (simp add: load32_def)

lemma demo_word:
  assumes "p mod 4096 = 0" "i < 1024" 
  shows "load32 demo_mem (p + 4 * i) =
    (if p = 0x80200000 \<and> i = 0 then 0x201007 else if p = 0x80201000 \<and> i = 0 then 0x202007 else 0)"
proof -
  have w: "(p + 4 * i) mod 4 = 0" by (rule page_word_mod4 [OF assms])
  have eq: "q mod 4096 = 0 \<Longrightarrow> (p + 4 * i = q) \<longleftrightarrow> p = q \<and> i = 0" for q :: u32
    using page_off_inj [OF assms(1) _ conjunct1 [OF idx4 [OF assms(2)]], of q 0] idx4_inj [OF assms(2), of 0] by auto
  have "load32 (store32 m a v) (p + 4 * i) = (if p = a \<and> i = 0 then v else load32 m (p + 4 * i))"
    if "a mod 4096 = 0" for m a v
    using load32_store32_other [OF _ w] eq [OF that] mod4096_mod4 [OF that] by (cases "p + 4 * i = a") auto
  then show ?thesis by (simp add: demo_mem_def)
qed

lemma demo_pde:
  "pde_present demo_mem 0x80200000 i \<longleftrightarrow> i = 0" if "i < 1024"
  using demo_word [of "0x80200000" i] that by (simp add: pde_present_def PTE_P_def)

lemma demo_tab: "pgtab_at demo_mem 0x80200000 0 = 0x80201000"
  using demo_word [of "0x80200000" 0] by (simp add: pgtab_at_def PTE_ADDR_def P2V_def KERNBASE_def)

lemma demo_pages: "pt_pages demo_mem 0x80200000 = {0x80200000, 0x80201000}"
  using demo_pde demo_tab by (auto simp: pt_pages_def)

lemma demo_valid: "valid_page demo_vm 0x80200000" "valid_page demo_vm 0x80201000" "valid_page demo_vm 0x80202000"
  by (simp_all add: valid_page_def demo_vm_def V2P_def KERNBASE_def PHYSTOP_def)

lemma demo_inv: "kmem_inv [] demo_vm"
  by (simp add: kmem_inv_def demo_vm_def)

lemma demo_mem_simps [simp]: "mem demo_vm = demo_mem" "kend demo_vm = 0x80110000"
  by (simp_all add: demo_vm_def)

lemma demo_wf: "pd_wf [] demo_vm 0x80200000"
  using demo_pde demo_tab demo_valid by (auto simp: pd_wf_def)

lemma demo_pte: "pte_of demo_mem 0x80200000 v = (if vpn v = 0 then 0x202007 else 0)"
proof -
  have "vpn v = 0 \<longleftrightarrow> PDX v = 0 \<and> PTX v = 0" using same_entry_iff [of v 0] by (simp add: PDX_def PTX_def)
  then show ?thesis using demo_pde [OF PDX_lt(1)] demo_tab demo_word [of "0x80201000" "PTX v"] PDX_lt(2) [of v]
    by (auto simp: pte_of_def)
qed

lemma demo_uvm: "uvm_wf (Suc 0) [] demo_vm 0x80200000"
  using demo_valid demo_pages
  by (auto simp: uvm_wf_def upresent_def upage_def demo_pte PTE_P_def PTE_ADDR_def P2V_def KERNBASE_def)

text \<open>C13: on a well-formed page directory whose entries for the range are free, \<^verbatim>\<open>mappages\<close>
  never panics. If it returns 0, walking the directory as the hardware does gives, for each
  page of the range, the matching physical page with the permissions asked for, and every
  other address translates as before. If it returns -1, the allocator is out of pages and
  addresses outside the range are untouched. In both cases only free pages and pages of this
  directory are written, so no other address space changes.\<close>

theorem mappages_maps:
  assumes "kmem_inv xs s" "pd_wf xs s pd" "0 < sz" "unat va + unat sz \<le> 2 ^ 32"
    and "b = unat va div 4096" "e = (unat va + unat sz - 1) div 4096"
    and "\<forall>v. b \<le> unat v div 4096 \<and> unat v div 4096 \<le> e \<longrightarrow> pte_of (mem s) pd v AND PTE_P = 0"
  shows "\<exists>r xs' s'. mappages pd va sz pa prm s = Ok (r, s') \<and> kmem_inv xs' s' \<and> pd_wf xs' s' pd \<and>
    (r = 0 \<and> (\<forall>v. pte_of (mem s') pd v =
        (if b \<le> unat v div 4096 \<and> unat v div 4096 \<le> e
         then (pa + of_nat (unat v div 4096 - b) * 4096) OR prm OR PTE_P else pte_of (mem s) pd v)) \<or>
     r = -1 \<and> xs' = [] \<and> (\<forall>v. \<not> (b \<le> unat v div 4096 \<and> unat v div 4096 \<le> e) \<longrightarrow>
        pte_of (mem s') pd v = pte_of (mem s) pd v)) \<and>
    (\<forall>q. q mod 4096 = 0 \<longrightarrow> q \<notin> set xs \<longrightarrow> q \<notin> pt_pages (mem s) pd \<longrightarrow> same_page (mem s') (mem s) q)"
proof -
  have be: "b \<le> e" using assms(3) unfolding assms(5,6)
    by (intro div_le_mono) (simp add: word_less_nat_alt)
  obtain r xs' s' where m: "mappages pd va sz pa prm s = Ok (r, s')" and st: "pt_step pd xs s xs' s'"
    and res: "r = 0 \<and> maps_range pd (mem s) (mem s') b (e - b) pa prm \<or>
     r = -1 \<and> xs' = [] \<and> (\<forall>v. \<not> (b \<le> vpn v \<and> vpn v \<le> e) \<longrightarrow> pte_of (mem s') pd v = pte_of (mem s) pd v)"
    using mappages_result [OF assms, of pa prm] by blast
  have "b + (e - b) = e" using be by simp
  then show ?thesis using m st res unfolding pt_step_def maps_range_def by metis
qed

theorem mappages_maps_witness:
  "\<exists>r xs' s'. mappages 0x80200000 0x1000 4096 0x300000 6 demo_vm = Ok (r, s') \<and> kmem_inv xs' s' \<and>
    (r = 0 \<and> pte_of (mem s') 0x80200000 0x1abc = 0x300007 \<or> r = -1 \<and> xs' = [])"
proof -
  have "\<forall>v. 1 \<le> unat v div 4096 \<and> unat v div 4096 \<le> 1 \<longrightarrow> pte_of (mem demo_vm) 0x80200000 v AND PTE_P = 0"
    by (simp add: demo_pte)
  from mappages_maps [OF demo_inv demo_wf, of 4096 "0x1000" 1 1 "0x300000" 6, OF _ _ _ _ this]
  obtain r xs' s' where m: "mappages 0x80200000 0x1000 4096 0x300000 6 demo_vm = Ok (r, s')" "kmem_inv xs' s'"
    and c: "r = 0 \<and> (\<forall>v. pte_of (mem s') 0x80200000 v = (if 1 \<le> unat v div 4096 \<and> unat v div 4096 \<le> 1
         then (0x300000 + of_nat (unat v div 4096 - 1) * 4096) OR 6 OR PTE_P else pte_of demo_mem 0x80200000 v)) \<or> r = -1 \<and> xs' = []"
    by auto
  have "r = 0 \<and> pte_of (mem s') 0x80200000 0x1abc = 0x300007 \<or> r = -1 \<and> xs' = []"
    using c by (auto simp: PTE_P_def)
  then show ?thesis using m by blast
qed

text \<open>C11: \<^verbatim>\<open>deallocuvm\<close> on a private user space never panics and never frees a page twice: it
  unmaps exactly the present pages at or above the new size, puts exactly their frames on the free
  list, keeps the directory well formed and leaves all other memory as it was.\<close>

theorem deallocuvm_frees:
  assumes "kmem_inv xs s" "pd_wf xs s pd" "uvm_wf n xs s pd" "oldsz \<le> KERNBASE" "newsz < oldsz"
    and "n = (unat oldsz + 4095) div 4096" "b = (unat newsz + 4095) div 4096"
  shows "\<exists>ys s'. deallocuvm pd oldsz newsz s = Ok (newsz, s') \<and>
    kmem_inv (ys @ xs) s' \<and> pd_wf (ys @ xs) s' pd \<and> set ys = upages (mem s) pd b n \<and>
    (\<forall>v. pte_of (mem s') pd v = (if b \<le> unat v div 4096 \<and> unat v div 4096 < n \<and> upresent (mem s) pd v
        then 0 else pte_of (mem s) pd v)) \<and>
    (\<forall>q. q mod 4096 = 0 \<longrightarrow> q \<notin> set ys \<longrightarrow> q \<notin> pt_pages (mem s) pd \<longrightarrow> same_page (mem s') (mem s) q)"
  using deallocuvm_result [OF assms] unfolding unmaps_def by metis

theorem deallocuvm_frees_witness:
  "\<exists>ys s'. deallocuvm 0x80200000 4096 0 demo_vm = Ok (0, s') \<and> kmem_inv ys s' \<and> set ys = {0x80202000} \<and>
     pte_of (mem s') 0x80200000 0x10 = 0"
proof -
  have u: "upages (mem demo_vm) 0x80200000 0 1 = {0x80202000}"
  proof -
    have "(x = upage demo_mem 0x80200000 v \<and> 0 \<le> vpn v \<and> vpn v < 1 \<and> upresent demo_mem 0x80200000 v) \<longleftrightarrow>
      (x = 0x80202000 \<and> vpn v = 0)" for x v
      by (auto simp: upage_def upresent_def demo_pte PTE_P_def PTE_ADDR_def P2V_def KERNBASE_def)
    then show ?thesis unfolding upages_def demo_mem_simps by (auto intro: exI [of _ 0])
  qed
  have n: "(unat (4096 :: u32) + 4095) div 4096 = Suc 0" "(unat (0 :: u32) + 4095) div 4096 = 0" by simp_all
  have pr: "upresent demo_mem 0x80200000 0x10" by (simp add: upresent_def demo_pte PTE_P_def)
  have p: "(4096 :: u32) \<le> KERNBASE" "(0 :: u32) < 4096" by (simp_all add: KERNBASE_def)
  obtain ys s' where "deallocuvm 0x80200000 4096 0 demo_vm = Ok (0, s')" "kmem_inv (ys @ []) s'"
    "set ys = upages (mem demo_vm) 0x80200000 0 (Suc 0)"
    "\<forall>v. pte_of (mem s') 0x80200000 v = (if 0 \<le> unat v div 4096 \<and> unat v div 4096 < Suc 0 \<and>
        upresent (mem demo_vm) 0x80200000 v then 0 else pte_of (mem demo_vm) 0x80200000 v)"
    using deallocuvm_frees [OF demo_inv demo_wf demo_uvm p n(1) [symmetric] n(2) [symmetric]] by blast
  then show ?thesis using u pr by auto
qed

end
