(* ===== verification/Sched_Steps.thy ===== *)
theory Sched_Steps
  imports Sched
begin

text \<open>
  The scheduler as a transition system: one rule per critical section of \<^verbatim>\<open>ptable.lock\<close>, the
  states reachable from boot, and the properties of \<^verbatim>\<open>proc.c\<close>'s scheduling that hold in all
  of them: the run queues are what they should be, the scheduler never faults, time slices do
  not wrap, and which processes can be forgotten.
\<close>


section \<open>The steps of the system\<close>

text \<open>
  One step is one critical section of \<^verbatim>\<open>ptable.lock\<close> on some CPU. \<open>Local\<close> stands for the code
  that changes a process outside the scheduler (its memory, files, name, trap frame): it does
  not touch the scheduling fields, and a process that may run keeps a kernel stack and a page
  directory.
\<close>

datatype step =
    Alloc | Init nat | Userinit nat | Abandon nat | Start nat | Local nat
  | Pick nat "nat option" | Yield nat | Sleep nat chan | Resume nat | Wakeup chan
  | Exit nat | Reap nat | Tick nat | Kill int

inductive sched_step :: "step \<Rightarrow> ptable \<Rightarrow> ptable \<Rightarrow> bool" where
  alloc: "allocproc_slot s = (r, s') \<Longrightarrow> sched_step Alloc s s'"
| init: "p_state (procs s p) = EMBRYO \<Longrightarrow> sched_step (Init p) s (allocproc_init p s)"
| userinit: "p_state (procs s p) = EMBRYO \<Longrightarrow> initproc s = None \<Longrightarrow>
    sched_step (Userinit p) s (s\<lparr>initproc := Some p\<rparr>)"
| abandon: "p_state (procs s p) = EMBRYO \<Longrightarrow>
    sched_step (Abandon p) s (upd_proc p (\<lambda>x. x\<lparr>p_state := UNUSED\<rparr>) s)"
| start: "p < NPROC \<Longrightarrow> p_state (procs s p) = EMBRYO \<Longrightarrow> p_kstack (procs s p) \<noteq> 0 \<Longrightarrow>
    p_pgdir (procs s p) \<noteq> 0 \<Longrightarrow> make_runnable p s = Ok s' \<Longrightarrow> sched_step (Start p) s s'"
| local: "keeps_sched (procs s p) (f (procs s p)) \<Longrightarrow> proc_ok (f (procs s p)) \<Longrightarrow>
    sched_step (Local p) s (upd_proc p f s)"
| pick: "myproc c s = None \<Longrightarrow> scheduler c s = Ok (r, s') \<Longrightarrow> sched_step (Pick c r) s s'"
| yield: "myproc c s = Some p \<Longrightarrow> yield c s = Ok s' \<Longrightarrow> sched_step (Yield c) s s'"
| sleep: "myproc c s = Some p \<Longrightarrow> sleep c ch lk s = Ok s' \<Longrightarrow> sched_step (Sleep c ch) s s'"
| resume: "myproc c s = Some p \<Longrightarrow> sleep_resume c s = Ok s' \<Longrightarrow> sched_step (Resume c) s s'"
| wakeup: "wakeup ch s = Ok s' \<Longrightarrow> sched_step (Wakeup ch) s s'"
| exit: "myproc c s = Some p \<Longrightarrow> exit_locked c s = Ok s' \<Longrightarrow> sched_step (Exit c) s s'"
| reap: "p_state (procs s p) = ZOMBIE \<Longrightarrow> sched_step (Reap p) s (reap p s)"
| tick: "timer_tick c s = Ok s' \<Longrightarrow> sched_step (Tick c) s s'"
| kill: "sched_step (Kill pid) s (snd (kill pid s))"

lemma sched_step_inv:
  assumes "sched_step l s s'" "sched_inv s"
  shows "sched_inv s'"
  using assms
proof (induction rule: sched_step.induct)
  case (alloc s r s')
  then show ?case by (rule allocproc_slot_inv(1) [rotated])
next
  case (init s p)
  then show ?case unfolding allocproc_init_def
    using sched_inv_ok [OF init(2), of p] by (intro sched_inv_upd) (auto simp: proc_ok_def)
next
  case (userinit s p)
  then show ?case by simp
next
  case (abandon s p)
  then show ?case using sched_inv_ok [OF abandon(2), of p] by (intro sched_inv_upd) (auto simp: proc_ok_def)
next
  case (start p s s')
  then show ?case using make_runnable_correct [of s p] by auto
next
  case (local s p f)
  then show ?case by (intro sched_inv_upd) (auto simp: keeps_sched_def)
next
  case (pick c s r s')
  then have "sched_loop c NPROCQ s = Ok (r, s')" by (simp add: scheduler_def)
  moreover have "runq_inv s" "procs_ok s" using pick by (auto simp: sched_inv_def)
  ultimately show ?case
    using pick pick_inv [of s c] top_queue_Some [of "qabs s" NPROCQ]
    by (auto simp: sched_loop_correct myproc_def split: option.splits)
next
  case (yield c s p s')
  then show ?case using yield_correct by fastforce
next
  case (sleep c s p ch lk s')
  then have "lk \<noteq> 0" by (auto simp: sleep_def)
  then show ?case using sleep sleep_correct [of s c p lk ch] by auto
next
  case (resume c s p s')
  then have "p < NPROC" "p_state (procs s p) = RUNNING" using cpu_invD by (auto simp: sched_inv_def)
  then show ?case using resume sched_inv_ok [of s p]
    by (auto simp: sleep_resume_def proc_ok_def intro!: sched_inv_upd)
next
  case (wakeup ch s s')
  then show ?case using wakeup1_wakes [of s "Some ch"] by (auto simp: wakeup_def wakes_def)
next
  case (exit c s p s')
  then show ?case using exit_locked_correct by fastforce
next
  case (reap s p)
  then show ?case unfolding reap_def
    using sched_inv_ok [OF reap(2), of p] by (intro sched_inv_upd) (auto simp: proc_ok_def)
next
  case (tick c s s')
  show ?case
  proof (cases "myproc c s")
    case None
    then show ?thesis using tick by (auto simp: timer_tick_idle sched_inv_upd_cpu)
  next
    case (Some p)
    then have "p_state (procs s p) = RUNNING" using tick(2) cpu_invD by (auto simp: sched_inv_def)
    then show ?thesis using tick Some tick_state_inv(1) [OF tick(2) Some] yield_correct [of "tick_state c p s" c p]
      by (auto simp: timer_tick_running split: if_splits)
  qed
next
  case (kill pid s)
  then show ?case by (rule kill_inv(1))
qed

definition boot :: ptable where
  "boot = \<lparr>procs = (\<lambda>_. \<lparr>p_sz = 0, p_pgdir = 0, p_kstack = 0, p_state = UNUSED, p_pid = 0, p_parent = None,
      p_tf = \<lparr>tf_edi = 0, tf_esi = 0, tf_ebp = 0, tf_oesp = 0, tf_ebx = 0, tf_edx = 0, tf_ecx = 0, tf_eax = 0,
        tf_gs = 0, tf_fs = 0, tf_es = 0, tf_ds = 0, tf_trapno = 0, tf_err = 0, tf_eip = 0, tf_cs = 0,
        tf_eflags = 0, tf_esp = 0, tf_ss = 0\<rparr>,
      p_eip = 0, p_chan = None, p_killed = False, p_ofile = (\<lambda>_. None), p_cwd = None, p_name = replicate 16 0,
      p_next = None, p_priority = 0, p_timepiece = 0, p_sharedrec = (\<lambda>_. 0), p_widx = 0\<rparr>),
    pqueue = (\<lambda>_. \<lparr>q_head = None, q_last = None\<rparr>), count = (\<lambda>_. 0), nextpid = 1, initproc = None,
    cpus = (\<lambda>_. \<lparr>c_proc = None, c_rtime = 0, c_consflag = 0, c_cr3 = 0, c_esp0 = 0, c_ss0 = 0, c_iomb = 0, c_apicid = 0\<rparr>),
    kpgdir = 0x803FF000\<rparr>"

lemma boot_inv: "sched_inv boot"
  by (simp add: boot_def sched_inv_def runq_inv_def qrep_def qabs_def procs_ok_def proc_ok_def cpu_inv_def)

inductive reachable :: "ptable \<Rightarrow> bool" where
  start: "reachable boot"
| step: "reachable s \<Longrightarrow> sched_step l s s' \<Longrightarrow> reachable s'"

lemma reachable_inv: "reachable s \<Longrightarrow> sched_inv s"
  by (induction rule: reachable.induct) (auto intro: boot_inv sched_step_inv)


section \<open>Processes that are runnable but in no queue\<close>

definition lost :: "'a ptable_scheme \<Rightarrow> nat \<Rightarrow> bool" where
  "lost s p \<longleftrightarrow> p_state (procs s p) = RUNNABLE \<and> \<not> queued s p"

lemma queued_cong_less: "(\<And>q. q < NPROCQ \<Longrightarrow> qabs s' q = qabs s q) \<Longrightarrow> queued s' x = queued s x"
  by (auto simp: queued_def)

lemma queued_snoc:
  assumes "\<forall>q<NPROCQ. qabs s' q = (if q = pr then qabs s q @ [p] else qabs s q)" "pr < NPROCQ"
  shows "queued s' x \<longleftrightarrow> queued s x \<or> x = p"
proof -
  have "x \<in> set (qabs s' q) \<longleftrightarrow> x \<in> set (qabs s q) \<or> q = pr \<and> x = p" if "q < NPROCQ" for q
    using assms(1) that by auto
  then show ?thesis using assms(2) unfolding queued_def by blast
qed

lemma queued_pick:
  assumes i: "runq_inv s" and q: "q < NPROCQ" "qabs s q \<noteq> []"
  shows "queued (pick c q s) x \<longleftrightarrow> queued s x \<and> x \<noteq> hd (qabs s q)"
proof -
  let ?p = "hd (qabs s q)"
  obtain xs where xs: "qabs s q = ?p # xs" using q(2) by (cases "qabs s q") auto
  have pq: "unat (p_priority (procs s ?p)) = q" using runq_invD(3) [OF i q(1), of ?p] q(2) by simp
  have "x \<in> set (qabs (pick c q s) r) \<longleftrightarrow> x \<in> set (qabs s r) \<and> x \<noteq> ?p" if r: "r < NPROCQ" for r
  proof (cases "r = q")
    case True
    have "distinct (?p # xs)" using runq_invD(2) [OF i q(1)] xs by metis
    then have "x \<in> set xs \<longleftrightarrow> x \<in> set (?p # xs) \<and> x \<noteq> ?p" by auto
    then show ?thesis using True pick_qabs(2) [OF i q r, of c] xs by (metis list.sel(3))
  next
    case False
    then show ?thesis using pick_qabs(2) [OF i q r, of c] runq_invD(3) [OF i r, of ?p] pq by auto
  qed
  then show ?thesis by (auto simp: queued_def)
qed

lemma lost_upd:
  assumes "sched_inv s" "p_state (procs s p) \<noteq> RUNNABLE \<or> keeps_sched (procs s p) (f (procs s p))"
    and "p_state (f (procs s p)) = RUNNABLE \<longleftrightarrow> p_state (procs s p) = RUNNABLE"
  shows "lost (upd_proc p f s) x = lost s x"
proof -
  have "queued (upd_proc p f s) x = queued s x"
    using assms by (intro queued_cong_less runq_upd(2)) (auto simp: sched_inv_def)
  then show ?thesis using assms(3) by (simp add: lost_def)
qed

lemma lost_wakes: "sched_inv s \<Longrightarrow> wakes s s' \<Longrightarrow> lost s' x = lost s x"
  unfolding lost_def wakes_def by (metis procstate.distinct)

lemma lost_yield:
  assumes "sched_inv s" "myproc c s = Some p" "yield c s = Ok s'"
  shows "lost s' x = lost s x"
proof -
  have run: "p < NPROC" "p_state (procs s p) = RUNNING" using assms cpu_invD by (auto simp: sched_inv_def)
  then have pr: "unat (p_priority (procs s p)) - 1 < NPROCQ"
    using sched_inv_ok [OF assms(1) run(1)] by (auto simp: proc_ok_def)
  have y: "\<forall>q<NPROCQ. qabs s' q = (if q = unat (p_priority (procs s p)) - 1 then qabs s q @ [p] else qabs s q)"
    "\<forall>x. p_state (procs s' x) = (if x = p then RUNNABLE else p_state (procs s x))"
    using yield_correct [OF assms(1,2)] assms(3) by (auto simp: Let_def)
  show ?thesis using queued_snoc [OF y(1) pr] y(2) run by (auto simp: lost_def)
qed

lemma lost_step_iff:
  assumes "sched_step l s s'" "sched_inv s" "\<forall>pid. l \<noteq> Kill pid"
  shows "lost s' x = lost s x"
  using assms
proof (induction rule: sched_step.induct)
  case (alloc s r s')
  note a = allocproc_slot_inv [OF alloc(2,1)]
  have "r = Some x \<Longrightarrow> p_state (procs s x) = UNUSED"
    using alloc(1) find_unused_Some [of s x] by (auto simp: allocproc_slot_def split: option.splits)
  then show ?case using queued_cong_less [OF a(2), of x] a(3) [of x] by (auto simp: lost_def)
next
  case (init s p)
  then show ?case unfolding allocproc_init_def by (intro lost_upd) auto
next
  case (userinit s p)
  then show ?case by (simp add: lost_def queued_def)
next
  case (abandon s p)
  then show ?case by (intro lost_upd) auto
next
  case (start p s s')
  have pr: "unat (p_priority (procs s p)) < NPROCQ"
    using sched_inv_ok [OF start(6,1)] by (auto simp: proc_ok_def)
  have y: "\<forall>q<NPROCQ. qabs s' q = (if q = unat (p_priority (procs s p)) then qabs s q @ [p] else qabs s q)"
    "\<forall>x. p_state (procs s' x) = (if x = p then RUNNABLE else p_state (procs s x))"
    using make_runnable_correct [OF start(6,1,2,3,4)] start(5) by auto
  then show ?case using queued_snoc [OF y(1) pr, of x] start(2) by (auto simp: lost_def)
next
  case (local s p f)
  then show ?case by (intro lost_upd) (auto simp: keeps_sched_def)
next
  case (pick c s r s')
  then have i: "runq_inv s" "procs_ok s" by (auto simp: sched_inv_def)
  have e: "sched_loop c NPROCQ s = Ok (r, s')" using pick(2) by (simp add: scheduler_def)
  show ?case
  proof (cases "top_queue (qabs s) NPROCQ")
    case None
    then show ?thesis using e i by (simp add: sched_loop_correct)
  next
    case (Some q)
    then have s': "s' = pick c q s" using e i by (simp add: sched_loop_correct)
    have q: "q < NPROCQ" "qabs s q \<noteq> []" using top_queue_Some [OF Some] by auto
    have p: "queued s (hd (qabs s q))" using q by (auto simp: queued_def)
    have "queued s' x \<longleftrightarrow> queued s x \<and> x \<noteq> hd (qabs s q)"
      unfolding s' by (rule queued_pick [OF i(1) q])
    then show ?thesis using s' p queued_runnable [OF i(1) p] by (auto simp: lost_def pick_simps)
  qed
next
  case (yield c s p s')
  then show ?case by (intro lost_yield)
next
  case (sleep c s p ch lk s')
  then have "lk \<noteq> 0" by (auto simp: sleep_def)
  then have y: "\<forall>q<NPROCQ. qabs s' q = qabs s q"
    "\<forall>x. p_state (procs s' x) = (if x = p then SLEEPING else p_state (procs s x))"
    using sleep sleep_correct [of s c p lk ch] by auto
  moreover have "p_state (procs s p) = RUNNING" using sleep cpu_invD by (auto simp: sched_inv_def)
  ultimately show ?case using queued_cong_less [of s' s x] by (auto simp: lost_def)
next
  case (resume c s p s')
  then have "p_state (procs s p) = RUNNING" using cpu_invD by (auto simp: sched_inv_def)
  moreover have "s' = upd_proc p (\<lambda>x. x\<lparr>p_chan := None\<rparr>) s" using resume by (simp add: sleep_resume_def)
  ultimately show ?case using resume lost_upd [of s p "\<lambda>x. x\<lparr>p_chan := None\<rparr>" x] by simp
next
  case (wakeup ch s s')
  then show ?case using wakeup1_wakes [of s "Some ch"] lost_wakes by (auto simp: wakeup_def)
next
  case (exit c s p s')
  obtain s1 where s1: "wakes s s1" "\<forall>q<NPROCQ. qabs s' q = qabs s1 q"
      "\<forall>x. p_state (procs s' x) = (if x = p then ZOMBIE else p_state (procs s1 x))"
    using exit_locked_correct [OF exit(3,1)] exit(2) by auto
  have "p_state (procs s p) = RUNNING" using exit cpu_invD by (auto simp: sched_inv_def)
  then have "p_state (procs s1 p) = RUNNING" using s1(1) unfolding wakes_def by (metis procstate.distinct)
  then have "lost s' x = lost s1 x" using s1 queued_cong_less [of s' s1 x] by (auto simp: lost_def)
  then show ?case using lost_wakes [OF exit(3) s1(1)] by simp
next
  case (reap s p)
  then show ?case unfolding reap_def by (intro lost_upd) auto
next
  case (tick c s s')
  show ?case
  proof (cases "myproc c s")
    case None
    then show ?thesis using tick by (auto simp: timer_tick_idle lost_def queued_def)
  next
    case (Some p)
    then have r: "p_state (procs s p) = RUNNING" using tick(2) cpu_invD by (auto simp: sched_inv_def)
    have l: "lost (tick_state c p s) x = lost s x"
      using queued_cong_less [OF tick_state_inv(2) [OF tick(2) Some], of x] by (simp add: lost_def)
    show ?thesis
      using tick Some r l tick_state_inv(1) [OF tick(2) Some] lost_yield [of "tick_state c p s" c p s' x]
      by (auto simp: timer_tick_running split: if_splits)
  qed
next
  case (kill pid s)
  then show ?case by simp
qed


lemma lost_kill:
  assumes "sched_inv s" "lost s x"
  shows "lost (snd (kill pid s)) x"
proof -
  have "p_state (procs (snd (kill pid s)) x) = RUNNABLE"
    using assms(2) by (auto simp: lost_def kill_def kill_loop_eq split: option.splits)
  then show ?thesis using assms(2) queued_cong_less [OF kill_inv(2) [OF assms(1)], of pid x]
    by (simp add: lost_def)
qed

lemma lost_step: "sched_step l s s' \<Longrightarrow> sched_inv s \<Longrightarrow> lost s x \<Longrightarrow> lost s' x"
proof (cases "\<exists>pid. l = Kill pid")
  case True
  then obtain pid where l: "l = Kill pid" by blast
  assume "sched_step l s s'" "sched_inv s" "lost s x"
  then show ?thesis unfolding l by (auto elim: sched_step.cases intro: lost_kill)
qed (use lost_step_iff in blast)

inductive run :: "ptable \<Rightarrow> step list \<Rightarrow> ptable \<Rightarrow> bool" where
  stop: "run s [] s"
| more: "sched_step l s s1 \<Longrightarrow> run s1 ls s' \<Longrightarrow> run s (l # ls) s'"

lemma run_inv: "run s ls s' \<Longrightarrow> sched_inv s \<Longrightarrow> sched_inv s'"
  by (induction rule: run.induct) (auto intro: sched_step_inv)

lemma pick_not_lost:
  assumes "sched_step (Pick c (Some p)) s s'" "sched_inv s"
  shows "\<not> lost s p"
  using assms(1)
proof (cases rule: sched_step.cases)
  case pick
  have i: "runq_inv s" "procs_ok s" using assms(2) by (auto simp: sched_inv_def)
  from pick obtain q where "top_queue (qabs s) NPROCQ = Some q" "p = hd (qabs s q)"
    using i by (auto simp: scheduler_def sched_loop_correct split: option.splits)
  then show ?thesis using top_queue_Some [of "qabs s" NPROCQ q] by (auto simp: lost_def queued_def)
qed

lemma lost_run:
  "run s ls s' \<Longrightarrow> sched_inv s \<Longrightarrow> lost s p \<Longrightarrow> lost s' p \<and> (\<forall>c. Pick c (Some p) \<notin> set ls)"
proof (induction rule: run.induct)
  case (more l s s1 ls s')
  have "sched_inv s1" "lost s1 p" using more sched_step_inv lost_step by blast+
  then show ?case using more pick_not_lost by auto
qed simp

lemma run_no_kill_lost:
  "run s ls s' \<Longrightarrow> sched_inv s \<Longrightarrow> \<forall>pid. Kill pid \<notin> set ls \<Longrightarrow> lost s' p = lost s p"
proof (induction rule: run.induct)
  case (more l s s1 ls s')
  then have "lost s1 p = lost s p" using lost_step_iff [OF more(1)] by auto
  then show ?case using more sched_step_inv by auto
qed simp

section \<open>Time slices\<close>

lemma slice_values: "unat (slice 0) = 4" "unat (slice 1) = 2" "unat (slice 2) = 1"
  by (simp_all add: slice_def)

lemma slice_bounds: "q < NPROCQ \<Longrightarrow> 1 \<le> unat (slice q) \<and> unat (slice q) \<le> 4"
proof -
  assume "q < NPROCQ"
  then have "q = 0 \<or> q = 1 \<or> q = 2" by auto
  then show ?thesis using slice_values by auto
qed

definition ticking :: "'a ptable_scheme \<Rightarrow> bool" where
  "ticking s \<longleftrightarrow> (\<forall>p. p_state (procs s p) = RUNNING \<longrightarrow>
     1 \<le> unat (p_timepiece (procs s p)) \<and> unat (p_timepiece (procs s p)) \<le> 4)"

text \<open>A process that runs after a step ran before it, with the same slice left.\<close>

definition run_frame :: "'a ptable_scheme \<Rightarrow> 'a ptable_scheme \<Rightarrow> bool" where
  "run_frame s s' \<longleftrightarrow> (\<forall>p. p_state (procs s' p) = RUNNING \<longrightarrow>
     p_state (procs s p) = RUNNING \<and> p_timepiece (procs s' p) = p_timepiece (procs s p))"

lemma run_frame_refl [simp]: "run_frame s s"
  by (simp add: run_frame_def)

lemma run_frame_trans: "run_frame s s1 \<Longrightarrow> run_frame s1 s2 \<Longrightarrow> run_frame s s2"
  by (simp add: run_frame_def)

lemma run_frame_ticking: "run_frame s s' \<Longrightarrow> ticking s \<Longrightarrow> ticking s'"
  by (simp add: run_frame_def ticking_def)

lemma run_frame_upd:
  "(p_state (f (procs s p)) = RUNNING \<Longrightarrow>
     p_state (procs s p) = RUNNING \<and> p_timepiece (f (procs s p)) = p_timepiece (procs s p)) \<Longrightarrow>
   run_frame s (upd_proc p f s)"
  by (simp add: run_frame_def)

lemma run_frame_qpush:
  assumes "qpush p s = Ok s'" "p_state (procs s p) \<noteq> RUNNING"
  shows "run_frame s s'"
  unfolding run_frame_def
proof (intro allI impI)
  fix x assume "p_state (procs s' x) = RUNNING"
  then have r: "p_state (procs s x) = RUNNING" by (simp add: qpush_frame(1) [OF assms(1)])
  then have "x \<noteq> p" using assms(2) by auto
  with r show "p_state (procs s x) = RUNNING \<and> p_timepiece (procs s' x) = p_timepiece (procs s x)"
    by (simp add: qpush_frame(13) [OF assms(1)])
qed

lemma run_frame_sched: "sched c s = Ok s' \<Longrightarrow> run_frame s s'"
  by (auto simp: run_frame_def sched_def split: option.splits if_splits)

lemma run_frame_enqueue:
  assumes "qpush p (upd_proc p f s) = Ok s'" "p_state (f (procs s p)) \<noteq> RUNNING"
  shows "run_frame s s'"
proof -
  have "run_frame s (upd_proc p f s)" by (rule run_frame_upd) (use assms(2) in simp)
  moreover have "run_frame (upd_proc p f s) s'" by (rule run_frame_qpush [OF assms(1)]) (use assms(2) in simp)
  ultimately show ?thesis by (rule run_frame_trans)
qed

lemma run_frame_yield:
  assumes "yield c s = Ok s'"
  shows "run_frame s s'"
proof (cases "myproc c s")
  case None
  then show ?thesis using assms by (simp add: yield_def)
next
  case (Some p)
  then obtain s1 where s1: "qpush p (upd_proc p (\<lambda>x. x\<lparr>p_state := RUNNABLE, p_priority := demote (p_priority x)\<rparr>) s) = Ok s1"
      "sched c s1 = Ok s'"
    using assms by (auto simp: yield_eq outcome_simps)
  have "run_frame s s1" by (rule run_frame_enqueue [OF s1(1)]) simp
  then show ?thesis using run_frame_sched [OF s1(2)] by (rule run_frame_trans)
qed

lemma run_frame_wakeup1_at:
  assumes "wakeup1_at ch p s = Ok s'"
  shows "run_frame s s'"
proof (cases "p_state (procs s p) = SLEEPING \<and> p_chan (procs s p) = ch")
  case True
  then have "qpush p (upd_proc p (\<lambda>x. x\<lparr>p_state := RUNNABLE, p_priority := promote (p_priority x)\<rparr>) s) = Ok s'"
    using assms by (simp add: wakeup1_at_eq)
  then show ?thesis by (rule run_frame_enqueue) simp
next
  case False
  then have "s' = s" using assms by (auto simp: wakeup1_at_def)
  then show ?thesis by simp
qed

lemma run_frame_wakeup1_loop: "wakeup1_loop ch ps s = Ok s' \<Longrightarrow> run_frame s s'"
  by (induction ps arbitrary: s)
     (auto simp: outcome_simps dest!: run_frame_wakeup1_at intro: run_frame_trans)

lemma run_frame_wakeup1: "wakeup1 ch s = Ok s' \<Longrightarrow> run_frame s s'"
  unfolding wakeup1_def by (rule run_frame_wakeup1_loop)

lemma run_frame_reparent_at:
  assumes "reparent_at cur p s = Ok s'"
  shows "run_frame s s'"
proof -
  have u: "run_frame s (upd_proc p (\<lambda>x. x\<lparr>p_parent := initproc s\<rparr>) s)"
    by (rule run_frame_upd) simp
  show ?thesis
  proof (cases "p_parent (procs s p) = Some cur")
    case False
    then show ?thesis using assms by (simp add: reparent_at_def)
  next
    case par: True
    show ?thesis
    proof (cases "p_state (procs s p) = ZOMBIE")
      case True
      then have "wakeup1 (map_option ChProc (initproc s)) (upd_proc p (\<lambda>x. x\<lparr>p_parent := initproc s\<rparr>) s) = Ok s'"
        using assms par by (simp add: reparent_at_def)
      then show ?thesis using run_frame_trans [OF u run_frame_wakeup1] by blast
    next
      case False
      then have "s' = upd_proc p (\<lambda>x. x\<lparr>p_parent := initproc s\<rparr>) s"
        using assms par by (simp add: reparent_at_def)
      then show ?thesis using u by simp
    qed
  qed
qed

lemma run_frame_reparent_loop: "reparent_loop cur ps s = Ok s' \<Longrightarrow> run_frame s s'"
  by (induction ps arbitrary: s)
     (auto simp: outcome_simps dest!: run_frame_reparent_at intro: run_frame_trans)

lemma run_frame_exit:
  assumes "exit_locked c s = Ok s'"
  shows "run_frame s s'"
proof -
  obtain p s1 s2 where "myproc c s = Some p" and s1: "wakeup1 (map_option ChProc (p_parent (procs s p))) s = Ok s1"
    and s2: "reparent_loop p [0..<NPROC] s1 = Ok s2"
    and s3: "sched c (upd_proc p (\<lambda>x. x\<lparr>p_state := ZOMBIE\<rparr>) s2) = Ok s'"
    using assms by (auto simp: exit_locked_def outcome_simps split: option.splits)
  have "run_frame s2 (upd_proc p (\<lambda>x. x\<lparr>p_state := ZOMBIE\<rparr>) s2)" by (rule run_frame_upd) simp
  then show ?thesis
    using run_frame_wakeup1 [OF s1] run_frame_reparent_loop [OF s2] run_frame_sched [OF s3] run_frame_trans by blast
qed

lemma ticking_step:
  assumes "sched_step l s s'" "sched_inv s" "ticking s"
  shows "ticking s'"
  using assms
proof (induction rule: sched_step.induct)
  case (alloc s r s')
  then have "run_frame s s'" by (auto simp: run_frame_def allocproc_slot_def split: option.splits if_splits)
  then show ?case using alloc run_frame_ticking by blast
next
  case (init s p)
  then show ?case unfolding allocproc_init_def by (intro run_frame_ticking [OF run_frame_upd]) simp_all
next
  case (userinit s p)
  then show ?case by (simp add: ticking_def)
next
  case (abandon s p)
  then show ?case by (intro run_frame_ticking [OF run_frame_upd]) simp_all
next
  case (start p s s')
  then have "run_frame s s'" by (auto simp: make_runnable_def intro: run_frame_enqueue)
  then show ?case using start run_frame_ticking by blast
next
  case (local s p f)
  then show ?case by (intro run_frame_ticking [OF run_frame_upd]) (simp_all add: keeps_sched_def)
next
  case (pick c s r s')
  then have i: "runq_inv s" "procs_ok s" by (auto simp: sched_inv_def)
  have e: "sched_loop c NPROCQ s = Ok (r, s')" using pick(2) by (simp add: scheduler_def)
  show ?case
  proof (cases "top_queue (qabs s) NPROCQ")
    case None
    then show ?thesis using e i pick by (simp add: sched_loop_correct)
  next
    case (Some q)
    then have s': "s' = pick c q s" using e i by (simp add: sched_loop_correct)
    have q: "q < NPROCQ" "qabs s q \<noteq> []" using top_queue_Some [OF Some] by auto
    have "p_timepiece (procs s (hd (qabs s q))) = slice q"
      using runq_invD(3) [OF i(1) q(1), of "hd (qabs s q)"] q(2) by simp
    moreover have "1 \<le> unat (slice q) \<and> unat (slice q) \<le> 4" using q(1) slice_bounds by blast
    ultimately show ?thesis using pick(4) unfolding s' ticking_def pick_simps by auto
  qed
next
  case (tick c s s')
  show ?case
  proof (cases "myproc c s")
    case None
    then show ?thesis using tick by (auto simp: timer_tick_idle ticking_def)
  next
    case (Some p)
    then have r: "p_state (procs s p) = RUNNING" using tick(2) cpu_invD by (auto simp: sched_inv_def)
    show ?thesis
    proof (cases "p_timepiece (procs s p) = 1")
      case True
      then have y: "yield c (tick_state c p s) = Ok s'" using tick Some r by (simp add: timer_tick_running)
      have "p_state (procs s' p) \<noteq> RUNNING"
        using yield_correct [OF tick_state_inv(1) [OF tick(2) Some], of c p] Some y by auto
      then show ?thesis using run_frame_yield [OF y] tick(3)
        by (auto simp: run_frame_def ticking_def split: if_splits)
    next
      case False
      have "1 \<le> unat (p_timepiece (procs s p)) \<and> unat (p_timepiece (procs s p)) \<le> 4"
        using tick(3) r by (simp add: ticking_def)
      moreover have "unat (p_timepiece (procs s p)) \<noteq> 1" using False by (simp add: word_unat_eq_iff)
      ultimately have "1 \<le> unat (p_timepiece (procs s p) - 1) \<and> unat (p_timepiece (procs s p) - 1) \<le> 4"
        by (auto simp: unat_minus_1_less)
      then show ?thesis using tick Some r False by (auto simp: timer_tick_running ticking_def)
    qed
  qed
next
  case (resume c s p s')
  then show ?case by (auto simp: sleep_resume_def ticking_def)
next
  case (sleep c s p ch lk s')
  then have "sched c (upd_proc p (\<lambda>x. x\<lparr>p_chan := Some ch, p_state := SLEEPING\<rparr>) s) = Ok s'"
    by (auto simp: sleep_def split: if_splits)
  then have "run_frame (upd_proc p (\<lambda>x. x\<lparr>p_chan := Some ch, p_state := SLEEPING\<rparr>) s) s'" by (rule run_frame_sched)
  moreover have "run_frame s (upd_proc p (\<lambda>x. x\<lparr>p_chan := Some ch, p_state := SLEEPING\<rparr>) s)" by (rule run_frame_upd) simp
  ultimately show ?case using sleep run_frame_ticking run_frame_trans by blast
next
  case (kill pid s)
  have "run_frame s (snd (kill pid s))"
    by (auto simp: kill_def kill_loop_eq run_frame_def split: option.splits if_splits)
  then show ?case using kill run_frame_ticking by blast
next
  case (reap s p)
  then show ?case by (auto simp: reap_def ticking_def)
qed (auto simp: wakeup_def intro: run_frame_ticking run_frame_yield run_frame_wakeup1 run_frame_exit)

fun ticks :: "nat \<Rightarrow> nat \<Rightarrow> 'a ptable_scheme \<Rightarrow> 'a ptable_scheme outcome" where
  "ticks c 0 s = Ok s"
| "ticks c (Suc n) s = bindo (timer_tick c s) (ticks c n)"

lemma ticks_running:
  assumes "sched_inv s" "myproc c s = Some p" "n < unat (p_timepiece (procs s p))"
  shows "\<exists>s'. ticks c n s = Ok s' \<and> sched_inv s' \<and> myproc c s' = Some p \<and>
    unat (p_timepiece (procs s' p)) = unat (p_timepiece (procs s p)) - n \<and>
    p_priority (procs s' p) = p_priority (procs s p) \<and> (\<forall>q<NPROCQ. qabs s' q = qabs s q)"
  using assms
proof (induction n arbitrary: s)
  case (Suc n)
  have r: "p_state (procs s p) = RUNNING" using Suc.prems cpu_invD by (auto simp: sched_inv_def)
  have t: "p_timepiece (procs s p) \<noteq> 1" using Suc.prems(3) by auto
  let ?s = "tick_state c p s"
  have i: "sched_inv ?s" and q: "\<And>q. q < NPROCQ \<Longrightarrow> qabs ?s q = qabs s q"
    using tick_state_inv [OF Suc.prems(1,2)] by auto
  have tp: "unat (p_timepiece (procs ?s p)) = unat (p_timepiece (procs s p)) - 1"
    using Suc.prems(3) by (simp add: unat_minus_1_less)
  have "timer_tick c s = Ok ?s" using Suc.prems(2) r t by (simp add: timer_tick_running)
  then show ?case using Suc.IH [OF i] Suc.prems(2,3) tp q by auto
qed simp

lemma ticks_snoc:
  fixes s :: "'a ptable_scheme"
  shows "ticks c (Suc n) s = bindo (ticks c n s) (timer_tick c)"
proof (induction n arbitrary: s)
  case 0
  show ?case by (cases "timer_tick c s") auto
next
  case (Suc n)
  have e: "ticks c (Suc n) = (\<lambda>s :: 'a ptable_scheme. bindo (ticks c n s) (timer_tick c))" by (intro ext Suc.IH)
  have "ticks c (Suc (Suc n)) s = bindo (timer_tick c s) (\<lambda>s. bindo (ticks c n s) (timer_tick c))"
    unfolding ticks.simps(2) [of c "Suc n"] e ..
  then show ?case by (simp add: bindo_assoc)
qed

lemma ticks_yield:
  assumes "sched_inv s" "myproc c s = Some p" "unat (p_timepiece (procs s p)) = Suc n"
  shows "\<exists>s'. ticks c (Suc n) s = Ok s' \<and> myproc c s' = None \<and> p_state (procs s' p) = RUNNABLE \<and>
    (let q = unat (p_priority (procs s p)) - 1 in qabs s' q = qabs s q @ [p])"
proof -
  obtain s1 where s1: "ticks c n s = Ok s1" "sched_inv s1" "myproc c s1 = Some p"
     "unat (p_timepiece (procs s1 p)) = 1" "p_priority (procs s1 p) = p_priority (procs s p)"
     "\<forall>q<NPROCQ. qabs s1 q = qabs s q"
    using ticks_running [OF assms(1,2), of n] assms(3) by auto
  have r: "p < NPROC" "p_state (procs s1 p) = RUNNING" using s1(2,3) cpu_invD by (auto simp: sched_inv_def)
  have pr: "unat (p_priority (procs s1 p)) - 1 < NPROCQ" using sched_inv_ok [OF s1(2) r(1)] by (auto simp: proc_ok_def)
  have "p_timepiece (procs s1 p) = 1" using s1(4) by (simp add: word_unat_eq_iff)
  then have "ticks c (Suc n) s = yield c (tick_state c p s1)"
    using s1(1,3) r(2) by (simp add: ticks_snoc timer_tick_running del: ticks.simps)
  then show ?thesis
    using yield_correct [OF tick_state_inv(1) [OF s1(2,3)], of c p] tick_state_inv(2) [OF s1(2,3) pr] s1(3,5,6) pr
    by (auto simp: Let_def myproc_def)
qed

section \<open>The queues as an interface\<close>

text \<open>What \<^verbatim>\<open>fork\<close>, \<^verbatim>\<open>yield\<close> and \<^verbatim>\<open>wakeup1\<close> rely on when they push a process: it goes to the
  end of the queue of its level and no other queue changes.\<close>

locale run_queue =
  fixes push :: "nat \<Rightarrow> 's \<Rightarrow> 's outcome"
    and queues :: "'s \<Rightarrow> nat \<Rightarrow> nat list"
    and level :: "'s \<Rightarrow> nat \<Rightarrow> nat"
    and ready :: "'s \<Rightarrow> nat \<Rightarrow> bool"
    and inv :: "'s \<Rightarrow> bool"
    and N :: nat
  assumes push_end: "inv s \<Longrightarrow> ready s p \<Longrightarrow> \<exists>s'. push p s = Ok s' \<and> inv s' \<and>
       (\<forall>q<N. queues s' q = (if q = level s p then queues s q @ [p] else queues s q)) \<and>
       level s' = level s \<and> (\<forall>x. x \<noteq> p \<longrightarrow> ready s x \<longrightarrow> ready s' x)"
begin

fun push_all :: "nat list \<Rightarrow> 's \<Rightarrow> 's outcome" where
  "push_all [] s = Ok s"
| "push_all (p # ps) s = bindo (push p s) (push_all ps)"

lemma push_all_order:
  assumes "inv s" "distinct ps" "\<forall>p\<in>set ps. ready s p"
  shows "\<exists>s'. push_all ps s = Ok s' \<and> inv s' \<and>
    (\<forall>q<N. queues s' q = queues s q @ filter (\<lambda>p. level s p = q) ps)"
  using assms
proof (induction ps arbitrary: s)
  case (Cons p ps)
  obtain s1 where s1: "push p s = Ok s1" "inv s1" "level s1 = level s"
      "\<forall>q<N. queues s1 q = (if q = level s p then queues s q @ [p] else queues s q)"
      "\<forall>x. x \<noteq> p \<longrightarrow> ready s x \<longrightarrow> ready s1 x"
    using push_end [OF Cons.prems(1), of p] Cons.prems(3) by auto
  have "\<forall>x\<in>set ps. ready s1 x" using Cons.prems s1(5) by auto
  then obtain s' where "push_all ps s1 = Ok s'" "inv s'"
      "\<forall>q<N. queues s' q = queues s1 q @ filter (\<lambda>p. level s1 p = q) ps"
    using Cons.IH [OF s1(2)] Cons.prems(2) by auto
  then show ?case using s1 by auto
qed simp

end

definition can_push :: "'a ptable_scheme \<Rightarrow> nat \<Rightarrow> bool" where
  "can_push s p \<longleftrightarrow> p < NPROC \<and> p_state (procs s p) = RUNNABLE \<and>
     unat (p_priority (procs s p)) < NPROCQ \<and> \<not> queued s p"

interpretation rq: run_queue qpush qabs "\<lambda>s p. unat (p_priority (procs s p))" can_push runq_inv NPROCQ
proof
  fix s :: "'a ptable_scheme" and p
  assume a: "runq_inv s" "can_push s p"
  let ?pr = "unat (p_priority (procs s p))"
  obtain s' where s': "qpush p s = Ok s'" "runq_inv s'"
      "\<forall>q<NPROCQ. qabs s' q = (if q = ?pr then qabs s q @ [p] else qabs s q)"
    using qpush_correct [OF a(1), of p ?pr] a(2) by (auto simp: can_push_def)
  have "queued s' x \<longleftrightarrow> queued s x \<or> x = p" for x
    using queued_snoc [OF s'(3)] a(2) by (simp add: can_push_def)
  then show "\<exists>s'. qpush p s = Ok s' \<and> runq_inv s' \<and>
      (\<forall>q<NPROCQ. qabs s' q = (if q = ?pr then qabs s q @ [p] else qabs s q)) \<and>
      (\<lambda>p. unat (p_priority (procs s' p))) = (\<lambda>p. unat (p_priority (procs s p))) \<and>
      (\<forall>x. x \<noteq> p \<longrightarrow> can_push s x \<longrightarrow> can_push s' x)"
    using s' by (intro exI [of _ s']) (auto simp: can_push_def qpush_frame [OF s'(1)])
qed

section \<open>A run\<close>

text \<open>From boot: a first process is created, scheduled on CPU 0 and goes to sleep.\<close>

definition run_a :: ptable where "run_a = snd (allocproc_slot boot)"
definition run_b :: ptable where
  "run_b = upd_proc 0 (\<lambda>x. x\<lparr>p_kstack := 0x80400000, p_pgdir := 0x80401000\<rparr>) run_a"
definition run_c :: ptable where "run_c = allocproc_init 0 run_b"
definition run_d :: ptable where
  "run_d = run_c\<lparr>procs := (procs run_c)(0 := (procs run_c 0)\<lparr>p_state := RUNNABLE, p_next := Some 0, p_timepiece := 1\<rparr>),
     pqueue := (pqueue run_c)(2 := \<lparr>q_head = Some 0, q_last = Some 0\<rparr>), count := (count run_c)(2 := 1)\<rparr>"
definition run_e :: ptable where "run_e = pick 0 2 run_d"
definition run_f :: ptable where
  "run_f = sched_resume 0 (upd_proc 0 (\<lambda>x. x\<lparr>p_chan := Some ChTicks, p_state := SLEEPING\<rparr>) run_e)"

lemma find_unused_boot: "find_unused boot = Some 0"
  by (simp add: find_unused_def boot_def upt_conv_Cons)

lemma run_procs:
  "procs run_a 0 = (procs boot 0)\<lparr>p_state := EMBRYO, p_pid := 1\<rparr>"
  "procs run_b 0 = (procs run_a 0)\<lparr>p_kstack := 0x80400000, p_pgdir := 0x80401000\<rparr>"
  "procs run_c 0 = (procs run_b 0)\<lparr>p_priority := 2, p_widx := 0\<rparr>"
  "pqueue run_c = pqueue boot" "count run_c = count boot" "cpus run_c = cpus boot"
  by (simp_all add: run_a_def run_b_def run_c_def allocproc_slot_def find_unused_boot allocproc_init_def
      boot_def [THEN arg_cong [where f = nextpid]])

lemma run_start: "make_runnable 0 run_c = Ok run_d"
  by (simp add: make_runnable_def qpush_def Let_def run_procs run_d_def)
     (simp add: upd_proc_def run_procs boot_def)

lemma run_d_queue: "qabs run_d 2 = [0]"
  by (simp add: qabs_def run_d_def)

lemma run_boot_d: "run boot [Alloc, Local 0, Init 0, Start 0] run_d"
proof -
  have "sched_step Alloc boot run_a"
    unfolding run_a_def by (rule sched_step.alloc) (rule prod.collapse [symmetric])
  moreover have "sched_step (Local 0) run_a run_b" unfolding run_b_def
    by (rule sched_step.local) (simp_all add: keeps_sched_def proc_ok_def run_procs boot_def)
  moreover have "sched_step (Init 0) run_b run_c" unfolding run_c_def
    by (rule sched_step.init) (simp add: run_procs)
  moreover have "sched_step (Start 0) run_c run_d"
    by (rule sched_step.start [OF _ _ _ _ run_start]) (simp_all add: run_procs)
  ultimately show ?thesis by (blast intro: run.intros)
qed

lemma run_reachable: "run s ls s' \<Longrightarrow> reachable s \<Longrightarrow> reachable s'"
  by (induction rule: run.induct) (auto intro: reachable.step)

lemma run_d_reachable: "reachable run_d"
  by (rule run_reachable [OF run_boot_d reachable.start])

lemma run_d_myproc: "myproc 0 run_d = None"
  by (simp add: myproc_def run_d_def run_procs boot_def)

lemma run_d_qabs: "qabs run_d q = (if q = 2 then [0] else [])"
  by (simp add: qabs_def run_d_def run_procs boot_def)

lemma run_pick: "scheduler 0 run_d = Ok (Some 0, run_e)"
proof -
  have i: "runq_inv run_d" "procs_ok run_d"
    using reachable_inv [OF run_d_reachable] by (auto simp: sched_inv_def)
  have "top_queue (qabs run_d) NPROCQ = Some 2" by (simp add: numeral_3_eq_3 run_d_qabs)
  then show ?thesis using i by (simp add: scheduler_def sched_loop_correct run_d_qabs run_e_def)
qed

lemma run_e_simps: "myproc 0 run_e = Some 0" "p_state (procs run_e 0) = RUNNING" "p_pid (procs run_e 0) = 1"
  by (simp_all add: run_e_def pick_simps run_d_qabs myproc_def, simp add: run_d_def run_procs)

lemma run_e_reachable: "reachable run_e"
  using reachable.step [OF run_d_reachable sched_step.pick [OF run_d_myproc run_pick]] .

lemma run_sleep: "sleep 0 ChTicks 1 run_e = Ok run_f"
proof -
  have "c_proc (cpus run_e 0) = Some 0" using run_e_simps(1) by (simp add: myproc_def)
  then show ?thesis by (simp add: sleep_def sched_def myproc_def run_f_def)
qed

lemma run_f_reachable: "reachable run_f"
  using reachable.step [OF run_e_reachable sched_step.sleep [OF run_e_simps(1) run_sleep]] .

lemma run_f_simps: "p_state (procs run_f 0) = SLEEPING" "p_pid (procs run_f 0) = 1"
  by (simp_all add: run_f_def run_e_simps)

section \<open>Properties\<close>

text \<open>C2: in every reachable state each run queue is a duplicate-free linked list, with the right
  length and last element, of processes that are runnable and have that queue's priority; the
  three queues are disjoint; and a process runs on at most one CPU.\<close>

theorem reachable_queues:
  assumes "reachable s"
  shows "(\<forall>q<NPROCQ. qrep s q (qabs s q) \<and> distinct (qabs s q) \<and>
      (\<forall>p\<in>set (qabs s q). p < NPROC \<and> p_state (procs s p) = RUNNABLE \<and> unat (p_priority (procs s p)) = q)) \<and>
    (\<forall>c c' p. myproc c s = Some p \<and> myproc c' s = Some p \<longrightarrow> c = c' \<and> p_state (procs s p) = RUNNING)"
  using reachable_inv [OF assms] unfolding sched_inv_def runq_inv_def cpu_inv_def myproc_def by blast

theorem reachable_queues_witness: "qrep run_d 2 (qabs run_d 2)"
  using reachable_queues [OF run_d_reachable] by simp

text \<open>C12: in every reachable state the scheduler of an idle CPU neither panics nor follows a null
  pointer nor loops, and it runs the head of the highest-priority queue that is not empty.\<close>

theorem scheduler_picks_top:
  assumes "reachable s" "myproc c s = None"
  shows "case top_queue (qabs s) NPROCQ of
      None \<Rightarrow> scheduler c s = Ok (None, s)
    | Some q \<Rightarrow> \<exists>s'. scheduler c s = Ok (Some (hd (qabs s q)), s') \<and>
        p_state (procs s' (hd (qabs s q))) = RUNNING \<and> myproc c s' = Some (hd (qabs s q)) \<and>
        (\<forall>r<NPROCQ. qabs s' r = (if r = q then tl (qabs s r) else qabs s r))"
proof -
  have i: "runq_inv s" "procs_ok s" using reachable_inv [OF assms(1)] by (auto simp: sched_inv_def)
  show ?thesis
  proof (cases "top_queue (qabs s) NPROCQ")
    case None
    then show ?thesis using i by (simp add: scheduler_def sched_loop_correct)
  next
    case (Some q)
    then have "q < NPROCQ" "qabs s q \<noteq> []" using top_queue_Some [OF Some] by auto
    then show ?thesis using i Some pick_qabs(2) [OF i(1)]
      by (simp add: scheduler_def sched_loop_correct pick_simps myproc_def)
  qed
qed

theorem scheduler_picks_top_witness: "\<exists>s'. scheduler 0 run_d = Ok (Some 0, s')"
proof -
  have "top_queue (qabs run_d) NPROCQ = Some 2" by (simp add: numeral_3_eq_3 run_d_qabs)
  then show ?thesis using scheduler_picks_top [OF run_d_reachable run_d_myproc] by (auto simp: run_d_qabs)
qed

text \<open>Pushing several processes appends each to the queue of its priority, in the order of the
  pushes: the linked queues behave as FIFO lists.\<close>

theorem qpush_fifo:
  assumes "runq_inv s" "distinct ps" "\<forall>p\<in>set ps. can_push s p"
  shows "\<exists>s'. rq.push_all ps s = Ok s' \<and> runq_inv s' \<and>
    (\<forall>q<NPROCQ. qabs s' q = qabs s q @ filter (\<lambda>p. unat (p_priority (procs s p)) = q) ps)"
  using assms by (rule rq.push_all_order)

definition two_ready :: ptable where
  "two_ready = boot\<lparr>procs := (\<lambda>p. (procs boot p)\<lparr>p_state := RUNNABLE, p_priority := (if p = 5 then 0 else 2)\<rparr>)\<rparr>"

theorem qpush_fifo_witness:
  "\<exists>s'. rq.push_all [7, 5, 3] two_ready = Ok s' \<and> qabs s' 2 = [7, 3] \<and> qabs s' 0 = [5]"
proof -
  have q: "qabs two_ready q = []" for q by (simp add: qabs_def two_ready_def boot_def)
  have "runq_inv two_ready" by (simp add: runq_inv_def q) (simp add: qrep_def two_ready_def boot_def)
  moreover have "\<forall>p\<in>set [7, 5, 3]. can_push two_ready p"
    by (simp add: can_push_def queued_def q) (simp add: two_ready_def)
  ultimately show ?thesis using qpush_fifo [of two_ready "[7, 5, 3]"]
    by (auto simp: q) (auto simp: two_ready_def)
qed

text \<open>C28: a process killed while it sleeps is lost. \<^verbatim>\<open>kill\<close> makes it runnable without pushing it
  on a run queue, so whatever the system does afterwards no CPU ever picks it and it stays
  runnable for ever: it never gets to exit.\<close>

theorem kill_loses_sleeper:
  assumes "reachable s" "p < NPROC" "p_state (procs s p) = SLEEPING" "p_pid (procs s p) = pid"
    and "\<forall>x<p. p_pid (procs s x) \<noteq> pid" and "run (snd (kill pid s)) ls s'"
  shows "p_state (procs s' p) = RUNNABLE \<and> \<not> queued s' p \<and> (\<forall>c. Pick c (Some p) \<notin> set ls)"
proof -
  have i: "sched_inv s" using assms(1) by (rule reachable_inv)
  then have nq: "\<not> queued s p" using assms(3) queued_runnable [of s p] by (auto simp: sched_inv_def)
  have "List.find (\<lambda>x. p_pid (procs s x) = pid) [0..<NPROC] = Some p"
    using assms(2,4,5) by (auto simp: find_Some_iff intro!: exI [of _ p])
  then have "p_state (procs (snd (kill pid s)) p) = RUNNABLE"
    using assms(3) by (simp add: kill_def kill_loop_eq)
  moreover have "\<not> queued (snd (kill pid s)) p"
    using nq queued_cong_less [OF kill_inv(2) [OF i], of pid p] by simp
  ultimately have "lost (snd (kill pid s)) p" by (simp add: lost_def)
  then have "lost s' p \<and> (\<forall>c. Pick c (Some p) \<notin> set ls)"
    using lost_run [OF assms(6) kill_inv(1) [OF i]] by blast
  then show ?thesis by (auto simp: lost_def)
qed

theorem kill_loses_sleeper_witness:
  "p_state (procs (snd (kill 1 run_f)) 0) = RUNNABLE \<and> \<not> queued (snd (kill 1 run_f)) 0"
  using kill_loses_sleeper [OF run_f_reachable _ run_f_simps(1,2) _ run.stop] by simp

text \<open>C27: without calls of \<^verbatim>\<open>kill\<close> no process is forgotten: in every run from boot each runnable
  process is in the run queue of its priority.\<close>

theorem runnable_is_queued:
  assumes "run boot ls s" "\<forall>pid. Kill pid \<notin> set ls" "p_state (procs s p) = RUNNABLE"
  shows "p \<in> set (qabs s (unat (p_priority (procs s p))))"
proof -
  have i: "sched_inv s" using run_inv [OF assms(1) boot_inv] .
  have "\<not> lost boot p" by (simp add: lost_def boot_def)
  then have "queued s p" using run_no_kill_lost [OF assms(1) boot_inv assms(2)] assms(3) by (auto simp: lost_def)
  then obtain q where "q < NPROCQ" "p \<in> set (qabs s q)" by (auto simp: queued_def)
  then show ?thesis using runq_invD(3) [of s q p] i by (auto simp: sched_inv_def)
qed

theorem runnable_is_queued_witness: "0 \<in> set (qabs run_d (unat (p_priority (procs run_d 0))))"
  by (rule runnable_is_queued [OF run_boot_d]) (simp_all add: run_d_def)

text \<open>The time slice of a running process is between 1 and 4 ticks in every reachable state, so
  the unsigned decrement of the clock interrupt never wraps.\<close>

theorem timepiece_bounds:
  assumes "reachable s" "p_state (procs s p) = RUNNING"
  shows "1 \<le> unat (p_timepiece (procs s p)) \<and> unat (p_timepiece (procs s p)) \<le> 4"
proof -
  have "ticking s" using assms(1)
  proof (induction rule: reachable.induct)
    case start
    show ?case by (simp add: ticking_def boot_def)
  next
    case (step s l s')
    then show ?case using ticking_step reachable_inv by blast
  qed
  then show ?thesis using assms(2) by (simp add: ticking_def)
qed

theorem timepiece_bounds_witness: "1 \<le> unat (p_timepiece (procs run_e 0))"
  using timepiece_bounds [OF run_e_reachable run_e_simps(2)] by simp

text \<open>C29: a process picked from queue \<open>q\<close> runs for exactly \<open>2 ^ (2 - q)\<close> clock ticks of its CPU if
  it does not block: one tick less leaves it running, the last one puts it at the end of the
  next lower queue.\<close>

theorem quantum:
  assumes "reachable s" "myproc c s = None" "scheduler c s = Ok (Some p, s1)"
    and "unat (p_priority (procs s1 p)) = q"
  shows "(\<forall>n<2 ^ (2 - q). \<exists>s'. ticks c n s1 = Ok s' \<and> myproc c s' = Some p) \<and>
    (\<exists>s'. ticks c (2 ^ (2 - q)) s1 = Ok s' \<and> myproc c s' = None \<and> p_state (procs s' p) = RUNNABLE \<and>
      qabs s' (q - 1) = qabs s1 (q - 1) @ [p])"
proof -
  have i: "runq_inv s" "procs_ok s" "sched_inv s" using reachable_inv [OF assms(1)] by (auto simp: sched_inv_def)
  obtain r where r: "top_queue (qabs s) NPROCQ = Some r" "p = hd (qabs s r)" "s1 = pick c r s"
    using assms(3) i by (auto simp: scheduler_def sched_loop_correct split: option.splits)
  have rq: "r < NPROCQ" "qabs s r \<noteq> []" using top_queue_Some [OF r(1)] by auto
  have p: "unat (p_priority (procs s p)) = r" "p_timepiece (procs s p) = slice r"
    using runq_invD(3) [OF i(1) rq(1), of p] rq(2) r(2) by auto
  have qr: "q = r" using assms(4) p(1) r by (simp add: pick_simps)
  have s1: "sched_inv s1" "myproc c s1 = Some p"
    using pick_inv [OF i(3), of c r] assms(2) rq r by (auto simp: myproc_def pick_simps)
  have "q = 0 \<or> q = 1 \<or> q = 2" using qr rq(1) by auto
  then have t: "unat (p_timepiece (procs s1 p)) = 2 ^ (2 - q)"
    using p(2) slice_values r qr by (auto simp: pick_simps)
  then obtain k where k: "2 ^ (2 - q) = Suc k" by (metis not0_implies_Suc power_not_zero zero_neq_numeral)
  show ?thesis using ticks_running [OF s1] ticks_yield [OF s1, of k] assms(4) t k
    by (auto simp: Let_def simp del: ticks.simps)
qed

theorem quantum_witness: "\<exists>s'. ticks 0 1 run_e = Ok s' \<and> myproc 0 s' = None"
proof -
  have "unat (p_priority (procs run_e 0)) = 2"
    by (simp add: run_e_def pick_simps run_d_qabs run_d_def run_procs)
  then show ?thesis using quantum [OF run_d_reachable run_d_myproc run_pick, of 2] by auto
qed

text \<open>\<^verbatim>\<open>wakeup\<close> misses nobody: afterwards no process sleeps on the channel, every process that
  did is runnable and at a run queue, and nobody else is woken.\<close>

theorem wakeup_complete:
  assumes "reachable s"
  shows "\<exists>s'. wakeup ch s = Ok s' \<and>
    (\<forall>p<NPROC. p_state (procs s p) = SLEEPING \<and> p_chan (procs s p) = Some ch \<longrightarrow>
       p_state (procs s' p) = RUNNABLE \<and> queued s' p) \<and>
    (\<forall>p<NPROC. \<not> (p_state (procs s p) = SLEEPING \<and> p_chan (procs s p) = Some ch) \<longrightarrow>
       p_state (procs s' p) = p_state (procs s p) \<and> (queued s' p \<longleftrightarrow> queued s p))"
proof -
  have i: "sched_inv s" using assms by (rule reachable_inv)
  obtain s' where s': "wakeup1 (Some ch) s = Ok s'" "\<forall>x. p_state (procs s' x) = woken_state s (Some ch) [0..<NPROC] x"
    using wakeup1_correct [OF i, of "Some ch"] by blast
  then show ?thesis using queued_wakeup [OF i s'(1)]
    by (intro exI [of _ s']) (auto simp: wakeup_def woken_state_def sleepers_def)
qed

theorem wakeup_complete_witness:
  "\<exists>s'. wakeup ChTicks run_f = Ok s' \<and> p_state (procs s' 0) = RUNNABLE \<and> queued s' 0"
proof -
  have "p_chan (procs run_f 0) = Some ChTicks" by (simp add: run_f_def)
  then show ?thesis using wakeup_complete [OF run_f_reachable, of ChTicks] run_f_simps(1) by auto
qed

text \<open>\<^verbatim>\<open>kill(0)\<close> does not fail while an unused slot has pid 0: it marks the first such slot as
  killed, and the next process created there, which \<^verbatim>\<open>allocproc\<close> does not unmark, is born
  killed.\<close>

theorem kill_zero_dooms_next:
  assumes "find_unused s = Some p" "p_pid (procs s p) = 0" "\<forall>x<p. p_pid (procs s x) \<noteq> 0"
  shows "fst (kill 0 s) = 0 \<and> (\<exists>s'. allocproc_slot (snd (kill 0 s)) = (Some p, s') \<and>
    p_killed (procs s' p) \<and> p_state (procs s' p) = EMBRYO)"
proof -
  have p: "p < NPROC" "p_state (procs s p) = UNUSED" using find_unused_Some [OF assms(1)] by auto
  have k: "kill 0 s = (0, upd_proc p (\<lambda>x. if p_state x = SLEEPING then x\<lparr>p_killed := True, p_state := RUNNABLE\<rparr>
      else x\<lparr>p_killed := True\<rparr>) s)"
  proof -
    have "List.find (\<lambda>x. p_pid (procs s x) = 0) [0..<NPROC] = Some p"
      using assms(2,3) p(1) by (auto simp: find_Some_iff intro!: exI [of _ p])
    then show ?thesis by (simp add: kill_def kill_loop_eq)
  qed
  have "(\<lambda>x. p_state (procs (snd (kill 0 s)) x) = UNUSED) = (\<lambda>x. p_state (procs s x) = UNUSED)"
    using p(2) k by (auto simp: fun_eq_iff)
  then have "find_unused (snd (kill 0 s)) = Some p" using assms(1) by (simp add: find_unused_def)
  then show ?thesis using k p(2) by (simp add: allocproc_slot_def)
qed

theorem kill_zero_dooms_next_witness: "\<exists>s'. allocproc_slot (snd (kill 0 boot)) = (Some 0, s') \<and> p_killed (procs s' 0)"
proof -
  have "p_pid (procs boot 0) = 0" by (simp add: boot_def)
  then show ?thesis using kill_zero_dooms_next [OF find_unused_boot] by auto
qed

end
