(* ===== verification/Ring.thy ===== *)
theory Ring
  imports Xv6_Prelude
begin

text \<open>
  Ring buffers with free-running 32-bit counters, the representation \<^verbatim>\<open>pipe.c\<close> uses for pipes and
  \<^verbatim>\<open>console.c\<close> for typed input: byte number \<open>i\<close> is in slot \<open>i mod N\<close>, and the counters wrap. The
  content is a list; the capacity divides \<open>2 ^ 32\<close>, so wrapping does not disturb the slots.
\<close>

section \<open>The interface: a bounded queue\<close>

text \<open>What a reader and a writer rely on: a buffer with a capacity whose content is a
  list, extended at the end and consumed at the front.\<close>

locale bounded_fifo =
  fixes wf :: "'b \<Rightarrow> bool" and content :: "'b \<Rightarrow> 'e list" and cap :: nat
    and put :: "'e \<Rightarrow> 'b \<Rightarrow> 'b" and get :: "'b \<Rightarrow> 'e \<times> 'b"
  assumes put_ok: "wf x \<Longrightarrow> length (content x) < cap \<Longrightarrow> wf (put e x) \<and> content (put e x) = content x @ [e]"
    and get_ok: "wf x \<Longrightarrow> content x \<noteq> [] \<Longrightarrow>
      wf (snd (get x)) \<and> content x = fst (get x) # content (snd (get x))"
    and bounded: "wf x \<Longrightarrow> length (content x) \<le> cap"
begin

lemma put_many:
  "wf x \<Longrightarrow> length (content x) + length es \<le> cap \<Longrightarrow>
     wf (fold put es x) \<and> content (fold put es x) = content x @ es"
  by (induction es arbitrary: x) (auto simp: put_ok)

lemma get_many:
  "wf x \<Longrightarrow> n \<le> length (content x) \<Longrightarrow>
     wf (((\<lambda>y. snd (get y)) ^^ n) x) \<and> content (((\<lambda>y. snd (get y)) ^^ n) x) = drop n (content x)"
proof (induction n)
  case (Suc n)
  let ?y = "((\<lambda>y. snd (get y)) ^^ n) x"
  have y: "wf ?y" "content ?y = drop n (content x)" using Suc by simp_all
  then have "content ?y \<noteq> []" using Suc.prems(2) by simp
  then have g: "wf (snd (get ?y))" "content ?y = fst (get ?y) # content (snd (get ?y))"
    using get_ok [OF y(1)] by auto
  then have "content (snd (get ?y)) = tl (drop n (content x))" using y(2) by (metis list.sel(3))
  then show ?case using g(1) by (simp add: drop_Suc tl_drop)
qed simp

lemma get_hd: "wf x \<Longrightarrow> content x \<noteq> [] \<Longrightarrow> fst (get x) = hd (content x) \<and> content (snd (get x)) = tl (content x)"
  using get_ok [of x] by (metis list.sel(1,3))

text \<open>What is put in comes out, in order, behind what was there.\<close>

lemma put_get:
  assumes "wf x" "length (content x) + length es \<le> cap" "es \<noteq> []"
  shows "fst (get (((\<lambda>y. snd (get y)) ^^ length (content x)) (fold put es x))) = hd es"
  using put_many [OF assms(1,2)] get_many [of "fold put es x" "length (content x)"] assms(3)
  by (auto simp: get_hd)

end

section \<open>Ring buffers\<close>

definition ring_used :: "u32 \<Rightarrow> u32 \<Rightarrow> nat" where
  "ring_used r w = unat (w - r)"

definition ring_list :: "nat \<Rightarrow> 'e list \<Rightarrow> u32 \<Rightarrow> u32 \<Rightarrow> 'e list" where
  "ring_list N d r w = map (\<lambda>i. d ! unat ((r + of_nat i) mod of_nat N)) [0..<ring_used r w]"

definition ring_cap :: "nat \<Rightarrow> bool" where
  "ring_cap N \<longleftrightarrow> 0 < N \<and> N < 2 ^ 32 \<and> N dvd 2 ^ 32"

lemma ring_slot: "ring_cap N \<Longrightarrow> unat (a mod of_nat N :: u32) = unat a mod N"
  by (simp add: unat_mod unat_of_nat ring_cap_def)

lemma ring_slot_add: "ring_cap N \<Longrightarrow> unat ((a + of_nat i) mod of_nat N :: u32) = (unat a + i) mod N"
proof -
  assume N: "ring_cap N"
  have "unat (a + of_nat i) = (unat a + i) mod 2 ^ 32"
    by (simp add: unat_word_ariths unat_of_nat mod_add_right_eq)
  moreover have "(n mod 2 ^ 32) mod N = n mod N" for n :: nat
    using N by (intro mod_mod_cancel) (simp add: ring_cap_def)
  ultimately show ?thesis using N by (simp add: ring_slot)
qed

lemma length_ring_list [simp]: "length (ring_list N d r w) = ring_used r w"
  by (simp add: ring_list_def)

lemma ring_list_eq: "ring_cap N \<Longrightarrow> ring_list N d r w = map (\<lambda>i. d ! ((unat r + i) mod N)) [0..<ring_used r w]"
  by (simp add: ring_list_def ring_slot_add)

lemma ring_wpos: "ring_cap N \<Longrightarrow> unat w mod N = (unat r + ring_used r w) mod N"
  using ring_slot_add [of N r "ring_used r w"] by (simp add: ring_used_def ring_slot)

lemma ring_full_iff: "ring_cap N \<Longrightarrow> w = r + of_nat N \<longleftrightarrow> ring_used r w = N"
proof -
  assume N: "ring_cap N"
  have "w = r + of_nat N \<longleftrightarrow> w - r = of_nat N" by (auto simp: algebra_simps)
  also have "\<dots> \<longleftrightarrow> unat (w - r) = unat (of_nat N :: u32)" by (simp only: word_unat_eq_iff)
  finally show ?thesis using N by (simp add: ring_used_def unat_of_nat ring_cap_def)
qed

lemma ring_empty_iff: "r = w \<longleftrightarrow> ring_list N d r w = []"
  by (auto simp: ring_list_def ring_used_def unat_eq_0)

lemma ring_used_put: "ring_cap N \<Longrightarrow> ring_used r w < N \<Longrightarrow> ring_used r (w + 1) = Suc (ring_used r w)"
proof -
  assume N: "ring_cap N" and a: "ring_used r w < N"
  have "ring_used r (w + 1) = unat ((w - r) + 1)"
    by (simp add: ring_used_def algebra_simps)
  then show ?thesis using a N by (simp add: ring_used_def unat_word_ariths ring_cap_def)
qed

lemma ring_used_get: "ring_used r w \<noteq> 0 \<Longrightarrow> ring_used (r + 1) w = ring_used r w - 1"
proof -
  assume "ring_used r w \<noteq> 0"
  then have "unat (w - r - 1) = unat (w - r) - 1"
    by (subst unat_minus_one) (auto simp: ring_used_def)
  then show ?thesis by (simp add: ring_used_def diff_diff_eq)
qed

lemma ring_used_unput: "ring_used r w \<noteq> 0 \<Longrightarrow> ring_used r (w - 1) = ring_used r w - 1"
  using ring_used_get [of r w] by (simp add: ring_used_def algebra_simps)

lemma ring_put:
  assumes N: "ring_cap N" and l: "length d = N" and u: "ring_used r w < N"
  shows "ring_list N (d[unat (w mod of_nat N) := b]) r (w + 1) = ring_list N d r w @ [b]"
proof -
  let ?n = "unat r" let ?u = "ring_used r w"
  have d: "d[unat (w mod of_nat N) := b] = d[(?n + ?u) mod N := b]"
    using ring_wpos [OF N, of w r] by (simp add: ring_slot [OF N])
  have ne: "(?n + i) mod N \<noteq> (?n + ?u) mod N" if "i < ?u" for i
  proof
    assume "(?n + i) mod N = (?n + ?u) mod N"
    then have "N dvd (?n + ?u) - (?n + i)" by (metis mod_eq_dvd_iff_nat add_le_cancel_left less_imp_le that)
    then have "N dvd ?u - i" by simp
    then show False using that u by (auto dest: dvd_imp_le)
  qed
  have "(?n + ?u) mod N < N" using N by (simp add: ring_cap_def)
  then show ?thesis unfolding d
    using N by (simp add: ring_list_eq ring_used_put [OF N u] l not_sym [OF ne])
qed

lemma ring_get:
  assumes N: "ring_cap N" and ne: "r \<noteq> w"
  shows "ring_list N d r w = d ! unat (r mod of_nat N) # ring_list N d (r + 1) w"
proof -
  have u: "ring_used r w \<noteq> 0" using ne by (auto simp: ring_used_def unat_eq_0)
  obtain n where n: "ring_used r w = Suc n" using u by (cases "ring_used r w") auto
  have s: "unat ((r + 1 + of_nat i) mod of_nat N) = (unat r + Suc i) mod N" for i
    using ring_slot_add [OF N, of r "Suc i"] by (simp add: ac_simps)
  have "ring_list N d (r + 1) w = map (\<lambda>i. d ! ((unat r + Suc i) mod N)) [0..<n]"
    unfolding ring_list_def ring_used_get [OF u] using n s by simp
  then show ?thesis
    by (simp add: ring_list_eq [OF N, of d r] ring_slot [OF N] n upt_conv_Cons map_Suc_upt [symmetric] comp_def del: upt_Suc)
qed

lemma ring_unput: "r \<noteq> w \<Longrightarrow> ring_list N d r (w - 1) = butlast (ring_list N d r w)"
proof -
  assume "r \<noteq> w"
  then have u: "ring_used r w \<noteq> 0" by (auto simp: ring_used_def unat_eq_0)
  then obtain n where n: "ring_used r w = Suc n" by (cases "ring_used r w") auto
  then show ?thesis by (simp add: ring_list_def ring_used_unput [OF u])
qed

end
