(* ===== verification/Console.thy ===== *)
theory Console
  imports Ring
begin

text \<open>
  The console, \<^verbatim>\<open>console.c\<close>, with \<^verbatim>\<open>uartputc\<close>: what is written to the screen and the serial line, the
  windows of \<^verbatim>\<open>splitw\<close>, and the line buffer the keyboard fills. The screen is the text memory at
  \<^verbatim>\<open>0xb8000\<close>, 16 bits a cell; the cursor is the 16-bit register of the display controller. The
  operations that also touch processes or inodes are in \<open>Device\<close>. \<open>cf\<close> is \<^verbatim>\<open>mycpu()->consflag\<close>.
\<close>

abbreviation (input) MAXWINDOWS :: nat where "MAXWINDOWS \<equiv> 10"
abbreviation (input) INPUT_BUF :: nat where "INPUT_BUF \<equiv> 128"

record console =
  crt :: "nat \<Rightarrow> u16"
  cursor :: u16
  uart :: bool
  uart_out :: "u8 list"
  panicked :: bool
  cgaflag :: bool
  curidx :: nat
  crtflags :: "nat \<Rightarrow> bool"
  crtbufs :: "nat \<Rightarrow> nat \<Rightarrow> u16"
  poss :: "nat \<Rightarrow> u16"
  in_buf :: "u8 list"
  in_r :: u32
  in_w :: u32
  in_e :: u32

section \<open>Output\<close>

abbreviation (input) BACKSPACE :: nat where "BACKSPACE \<equiv> 256"

text \<open>Moving the cursor, then scrolling the 23 text rows when it has left them.\<close>

definition advance :: "nat \<Rightarrow> (nat \<Rightarrow> u16) \<times> nat \<Rightarrow> (nat \<Rightarrow> u16) \<times> nat" where
  "advance c = (\<lambda>(m, pos).
     if c = 10 then (m, pos + (80 - pos mod 80))
     else if c = BACKSPACE then (m, pos - 1)
     else (m(pos := (of_nat c AND 0xFF) OR 0x0B00), pos + 1))"

definition scroll :: "(nat \<Rightarrow> u16) \<times> nat \<Rightarrow> (nat \<Rightarrow> u16) \<times> nat" where
  "scroll = (\<lambda>(m, pos).
     if pos div 80 \<ge> 23 then
       ((\<lambda>i. if pos - 80 \<le> i \<and> i < 23 * 80 then 0 else if i < 22 * 80 then m (i + 80) else m i), pos - 80)
     else (m, pos))"

definition cgaputc :: "nat \<Rightarrow> console \<Rightarrow> console outcome" where
  "cgaputc c s =
     (let (m, pos) = advance c (crt s, unat (cursor s)) in
      if pos > 24 * 80 then Panic ''pos under/overflow''
      else let (m, pos) = scroll (m, pos) in
        Ok (s\<lparr>crt := m(pos := 0x0720), cursor := of_nat pos\<rparr>))"

definition uartputc :: "nat \<Rightarrow> console \<Rightarrow> console" where
  "uartputc c s = (if uart s then s\<lparr>uart_out := uart_out s @ [of_nat c]\<rparr> else s)"

text \<open>After a panic the other CPUs spin here.\<close>

definition consputc :: "u8 \<Rightarrow> nat \<Rightarrow> console \<Rightarrow> console outcome" where
  "consputc cf c s =
     (if panicked s then Wait
      else if cf \<noteq> 0 then Ok s
      else cgaputc c
        (if c = BACKSPACE then uartputc 8 (uartputc 32 (uartputc 8 s)) else uartputc c s))"

fun consputs :: "u8 \<Rightarrow> u8 list \<Rightarrow> console \<Rightarrow> console outcome" where
  "consputs cf [] s = Ok s"
| "consputs cf (c # cs) s = bindo (consputc cf (unat c) s) (\<lambda>s. consputs cf cs s)"

section \<open>Formatted output\<close>

definition digits :: "u8 list" where
  "digits = [48, 49, 50, 51, 52, 53, 54, 55, 56, 57, 97, 98, 99, 100, 101, 102]"

text \<open>The digits of \<open>x\<close>, least significant first; called with base 10 and 16 only.\<close>

function digits_of :: "u32 \<Rightarrow> u32 \<Rightarrow> u8 list" where
  "digits_of base x =
     (if base < 2 then []
      else digits ! unat (x mod base) # (if x div base = 0 then [] else digits_of base (x div base)))"
  by pat_completeness auto
termination
proof (relation "measure (\<lambda>(base, x). unat x)", goal_cases)
  case (2 base x)
  then have "x \<noteq> 0" "2 \<le> unat base" by (auto simp: word_le_nat_alt not_less)
  then have "unat x div unat base < unat x" by (intro div_less_dividend) (auto simp: unat_gt_0)
  then show ?case by (simp add: unat_div)
qed simp

declare digits_of.simps [simp del]

definition printint :: "u32 \<Rightarrow> u32 \<Rightarrow> bool \<Rightarrow> u8 list" where
  "printint xx base neg_ok =
     (let neg = (neg_ok \<and> sint xx < 0); x = (if neg then - xx else xx) in
      rev (digits_of base x @ (if neg then [45] else [])))"

text \<open>An argument of \<^verbatim>\<open>cprintf\<close>: a word, or the string a pointer stands for (\<open>None\<close> for null).\<close>

datatype cparg = CInt u32 | CStr "u8 list option"

fun cprintf_chars :: "u8 list \<Rightarrow> cparg list \<Rightarrow> u8 list option" where
  "cprintf_chars [] args = Some []"
| "cprintf_chars [c] args = Some (if c = 37 then [] else [c])"
| "cprintf_chars (c # d # fmt) args =
     (if c \<noteq> 37 then map_option ((#) c) (cprintf_chars (d # fmt) args)
      else if d = 100 then
        (case args of CInt x # rest \<Rightarrow> map_option ((@) (printint x 10 True)) (cprintf_chars fmt rest) | _ \<Rightarrow> None)
      else if d = 120 \<or> d = 112 then
        (case args of CInt x # rest \<Rightarrow> map_option ((@) (printint x 16 False)) (cprintf_chars fmt rest) | _ \<Rightarrow> None)
      else if d = 115 then
        (case args of
           CStr None # rest \<Rightarrow> map_option ((@) [40, 110, 117, 108, 108, 41]) (cprintf_chars fmt rest)
         | CStr (Some xs) # rest \<Rightarrow> map_option ((@) xs) (cprintf_chars fmt rest)
         | _ \<Rightarrow> None)
      else if d = 37 then map_option ((#) 37) (cprintf_chars fmt args)
      else map_option (\<lambda>out. 37 # d # out) (cprintf_chars fmt args))"

definition cprintf :: "u8 \<Rightarrow> u8 list option \<Rightarrow> cparg list \<Rightarrow> console \<Rightarrow> console outcome" where
  "cprintf cf fmt args s = (case fmt of
     None \<Rightarrow> Panic ''null fmt''
   | Some f \<Rightarrow> (case cprintf_chars f args of None \<Rightarrow> UB | Some cs \<Rightarrow> consputs cf cs s))"

section \<open>Status line and windows\<close>

definition show_at :: "nat \<Rightarrow> u8 list \<Rightarrow> u16 \<Rightarrow> (nat \<Rightarrow> u16) \<Rightarrow> nat \<Rightarrow> u16" where
  "show_at off str cl m = (\<lambda>i. if off \<le> i \<and> i < off + length str then ucast (str ! (i - off)) OR cl else m i)"

text \<open>\<^verbatim>\<open>tostring\<close>: the decimal digits of a positive number, nothing otherwise.\<close>

fun tostring_rev :: "nat \<Rightarrow> u8 list" where
  "tostring_rev n = (if n = 0 then [] else of_nat (n mod 10 + 48) # tostring_rev (n div 10))"

declare tostring_rev.simps [simp del]

definition tostring :: "int \<Rightarrow> u8 list" where
  "tostring n = rev (tostring_rev (nat n))"

definition asc :: "string \<Rightarrow> u8 list" where
  "asc = map (of_nat \<circ> of_char)"

text \<open>\<^verbatim>\<open>title\<close>, with the priority and the size of the running process and the number of the CPU.\<close>

definition title :: "u32 \<Rightarrow> u32 \<Rightarrow> u8 \<Rightarrow> console \<Rightarrow> console" where
  "title prio sz apicid s =
     (let m = (\<lambda>i. if 23 * 80 \<le> i \<and> i < 24 * 80 then 0x0F2D else crt s i);
          m = show_at (24 * 80 + 3) (asc ''window: '') 0x0F00 m;
          m = m(24 * 80 + 11 := (of_nat (curidx s) + 48) OR 0x0B00);
          m = show_at (24 * 80 + 14) (asc ''proc_priority: '') 0x0F00 m;
          m = m(24 * 80 + 29 := ucast (prio + 48) OR 0x0B00);
          m = show_at (24 * 80 + 32) (asc ''cpu: '') 0x0F00 m;
          m = m(24 * 80 + 37 := (ucast apicid + 48) OR 0x0B00);
          buf = tostring (sint sz); n = length buf;
          m = show_at (24 * 80 + 40) (asc ''user_memo: '') 0x0F00 m;
          m = show_at (24 * 80 + 51) buf 0x0B00 m;
          m = m(24 * 80 + 51 + n := 0x0B20);
          m = m(24 * 80 + 51 + n + 1 := 0x0F42)
      in s\<lparr>crt := m\<rparr>)"

definition crtcpy :: "(nat \<Rightarrow> u16) \<Rightarrow> (nat \<Rightarrow> u16) \<Rightarrow> nat \<Rightarrow> u16" where
  "crtcpy tg ss = (\<lambda>i. if i < 80 * 23 then ss i else tg i)"

text \<open>The two halves of \<^verbatim>\<open>splitw\<close>: leaving the current window, and showing another. The index the
  user passes is not compared with \<open>MAXWINDOWS\<close>.\<close>

definition save_window :: "console \<Rightarrow> console" where
  "save_window s = s\<lparr>crtbufs := (crtbufs s)(curidx s := crtcpy (crtbufs s (curidx s)) (crt s)),
     poss := (poss s)(curidx s := cursor s)\<rparr>"

definition new_window :: "nat \<Rightarrow> console \<Rightarrow> console" where
  "new_window i s = (let s = save_window s in
     s\<lparr>curidx := i, crt := (\<lambda>j. if j < 23 * 80 then 0 else crt s j), cursor := 0, crtflags := (crtflags s)(i := True)\<rparr>)"

definition switch_window :: "nat \<Rightarrow> console \<Rightarrow> console" where
  "switch_window n s = (let s = save_window s in
     s\<lparr>curidx := n, crt := crtcpy (crt s) (crtbufs s n), cursor := poss s n\<rparr>)"

section \<open>Input\<close>

text \<open>The reaction to one character from the keyboard or the serial line; the flag says whether
  readers are woken. 8 is backspace, 21 is control-U, 16 is control-P, 4 is control-D.\<close>

definition in_last :: "console \<Rightarrow> u8" where
  "in_last s = in_buf s ! unat ((in_e s - 1) mod of_nat INPUT_BUF)"

text \<open>Control-U: \<open>k\<close> bounds the number of characters that can be taken back.\<close>

fun kill_line :: "nat \<Rightarrow> u8 \<Rightarrow> console \<Rightarrow> console outcome" where
  "kill_line 0 cf s = Ok s"
| "kill_line (Suc k) cf s =
     (if in_e s \<noteq> in_w s \<and> in_last s \<noteq> 10 then
        bindo (consputc cf BACKSPACE (s\<lparr>in_e := in_e s - 1\<rparr>)) (\<lambda>s. kill_line k cf s)
      else Ok s)"

definition input_char :: "u8 \<Rightarrow> nat \<Rightarrow> console \<Rightarrow> (bool \<times> console) outcome" where
  "input_char cf c s =
     (if c = 16 then Ok (False, s)
      else if c = 21 then bindo (kill_line (unat (in_e s - in_w s)) cf s) (\<lambda>s. Ok (False, s))
      else if c = 8 \<or> c = 127 then
        (if in_e s \<noteq> in_w s
         then bindo (consputc cf BACKSPACE (s\<lparr>in_e := in_e s - 1\<rparr>)) (\<lambda>s. Ok (False, s))
         else Ok (False, s))
      else if c \<noteq> 0 \<and> in_e s - in_r s < of_nat INPUT_BUF then
        let c = (if c = 13 then 10 else c);
            s = s\<lparr>in_buf := (in_buf s)[unat (in_e s mod of_nat INPUT_BUF) := of_nat c], in_e := in_e s + 1\<rparr>
        in bindo (consputc cf c s) (\<lambda>s.
             if c = 10 \<or> c = 4 \<or> in_e s = in_r s + of_nat INPUT_BUF then Ok (True, s\<lparr>in_w := in_e s\<rparr>)
             else Ok (False, s))
      else Ok (False, s))"

section \<open>The screen\<close>

definition screen_ok :: "console \<Rightarrow> bool" where
  "screen_ok s \<longleftrightarrow> unat (cursor s) < 23 * 80"

definition in_same :: "console \<Rightarrow> console \<Rightarrow> bool" where
  "in_same s s' \<longleftrightarrow> in_buf s' = in_buf s \<and> in_r s' = in_r s \<and> in_w s' = in_w s \<and> in_e s' = in_e s"

lemma advance_bound: "pos < 1840 \<Longrightarrow> snd (advance c (m, pos)) \<le> 1840"
proof -
  assume a: "pos < 1840"
  then have "pos div 80 < 23" by (simp add: div_less_iff_less_mult)
  moreover have "pos mod 80 < 80" by simp
  then have "pos + (80 - pos mod 80) = pos div 80 * 80 + 80" using div_mult_mod_eq [of pos 80] by linarith
  ultimately show ?thesis using a by (auto simp: advance_def)
qed

lemma advance_status: "pos < 1840 \<Longrightarrow> 1840 \<le> i \<Longrightarrow> fst (advance c (m, pos)) i = m i"
  by (simp add: advance_def)

lemma scroll_bound: "pos \<le> 1840 \<Longrightarrow> snd (scroll (m, pos)) < 1840"
  by (auto simp: scroll_def div_le_mono not_le div_less_iff_less_mult)

lemma scroll_status: "1840 \<le> i \<Longrightarrow> fst (scroll (m, pos)) i = m i"
  by (simp add: scroll_def)

text \<open>Text output stays in the 23 text rows and leaves the status line alone.\<close>

lemma cgaputc_ok:
  assumes "screen_ok s"
  shows "\<exists>s'. cgaputc c s = Ok s' \<and> screen_ok s' \<and> in_same s s' \<and> (\<forall>i\<ge>23 * 80. crt s' i = crt s i)"
proof -
  obtain m pos where a: "advance c (crt s, unat (cursor s)) = (m, pos)" by fastforce
  obtain m' pos' where b: "scroll (m, pos) = (m', pos')" by fastforce
  have p: "pos \<le> 1840" "pos' < 1840"
    using advance_bound [of "unat (cursor s)" c "crt s"] scroll_bound [of pos m] assms a b
    by (simp_all add: screen_ok_def)
  have st: "m' i = crt s i" if "1840 \<le> i" for i
    using advance_status [OF _ that, of "unat (cursor s)" c "crt s"] scroll_status [OF that, of m pos] assms a b
    by (simp add: screen_ok_def)
  let ?s = "s\<lparr>crt := m'(pos' := 0x0720), cursor := of_nat pos'\<rparr>"
  have "cgaputc c s = Ok ?s" using a b p by (simp add: cgaputc_def)
  moreover have "screen_ok ?s" using p by (simp add: screen_ok_def unat_of_nat)
  ultimately show ?thesis using st p by (intro exI [of _ ?s]) (auto simp: in_same_def)
qed

lemma uartputc_simps [simp]:
  "crt (uartputc c s) = crt s" "cursor (uartputc c s) = cursor s" "panicked (uartputc c s) = panicked s"
  "in_buf (uartputc c s) = in_buf s" "in_r (uartputc c s) = in_r s" "in_w (uartputc c s) = in_w s" "in_e (uartputc c s) = in_e s"
  by (simp_all add: uartputc_def)

lemma cgaputc_panicked: "cgaputc c s = Ok s' \<Longrightarrow> panicked s' = panicked s"
  by (auto simp: cgaputc_def Let_def split: prod.splits if_splits)

lemma consputc_ok:
  assumes "screen_ok s" "\<not> panicked s"
  shows "\<exists>s'. consputc cf c s = Ok s' \<and> screen_ok s' \<and> \<not> panicked s' \<and> in_same s s' \<and> (\<forall>i\<ge>23 * 80. crt s' i = crt s i)"
proof (cases "cf = 0")
  case False
  then show ?thesis using assms by (simp add: consputc_def in_same_def)
next
  case True
  let ?s = "if c = BACKSPACE then uartputc 8 (uartputc 32 (uartputc 8 s)) else uartputc c s"
  have "screen_ok ?s" "in_same s ?s" "crt ?s = crt s" "panicked ?s = panicked s"
    using assms by (simp_all add: screen_ok_def in_same_def)
  then show ?thesis using True assms(2) cgaputc_ok [of ?s c] cgaputc_panicked [of c ?s]
    by (auto simp: consputc_def in_same_def)
qed

lemma consputs_ok:
  assumes "screen_ok s" "\<not> panicked s"
  shows "\<exists>s'. consputs cf cs s = Ok s' \<and> screen_ok s' \<and> \<not> panicked s' \<and> in_same s s' \<and> (\<forall>i\<ge>23 * 80. crt s' i = crt s i)"
  using assms
proof (induction cs arbitrary: s)
  case (Cons c cs)
  obtain s1 where s1: "consputc cf (unat c) s = Ok s1" "screen_ok s1" "\<not> panicked s1" "in_same s s1"
      "\<forall>i\<ge>23 * 80. crt s1 i = crt s i"
    using consputc_ok [OF Cons.prems] by blast
  then show ?case using Cons.IH [OF s1(2,3)] by (auto simp: in_same_def)
qed (simp add: in_same_def)

section \<open>Numbers\<close>

text \<open>The value of a list of digit characters, least significant first.\<close>

fun digit_val :: "u8 \<Rightarrow> nat" where
  "digit_val c = (if 48 \<le> unat c \<and> unat c \<le> 57 then unat c - 48 else unat c - 87)"

fun value_of :: "nat \<Rightarrow> u8 list \<Rightarrow> nat" where
  "value_of b [] = 0"
| "value_of b (c # cs) = digit_val c + b * value_of b cs"

lemma digit_val_digits: "d < 16 \<Longrightarrow> digit_val (digits ! d) = d"
proof -
  have "\<forall>d \<in> set [0..<16]. digit_val (digits ! d) = d" by code_simp
  then show "d < 16 \<Longrightarrow> digit_val (digits ! d) = d" by auto
qed

lemma value_digits_of:
  "2 \<le> unat base \<Longrightarrow> unat base \<le> 16 \<Longrightarrow> value_of (unat base) (digits_of base x) = unat x"
proof (induction base x rule: digits_of.induct)
  case (1 base x)
  have nb: "\<not> base < 2" using "1.prems" by (simp add: word_less_nat_alt)
  have m: "unat (x mod base) < 16"
  proof -
    have "unat x mod unat base < unat base" using "1.prems" by (intro mod_less_divisor) linarith
    then show ?thesis using "1.prems" unat_mod [of x base] by linarith
  qed
  have v: "digit_val (digits ! unat (x mod base)) = unat x mod unat base"
    using digit_val_digits [OF m] by (simp add: unat_mod)
  show ?case
  proof (cases "x div base = 0")
    case True
    then have "unat x div unat base = 0" by (metis unat_div unat_0)
    then have "unat x mod unat base = unat x" using "1.prems" by (metis div_eq_0_iff mod_less not_numeral_le_zero)
    then show ?thesis using nb True v by (subst digits_of.simps) simp
  next
    case False
    then have "value_of (unat base) (digits_of base (x div base)) = unat (x div base)"
      using 1 nb by blast
    then show ?thesis using nb False v
      by (subst digits_of.simps) (simp add: unat_div)
  qed
qed

lemma length_digits_of:
  "2 \<le> unat base \<Longrightarrow> unat x < unat base ^ n \<Longrightarrow> 0 < n \<Longrightarrow> length (digits_of base x) \<le> n"
proof (induction base x arbitrary: n rule: digits_of.induct)
  case (1 base x)
  have nb: "\<not> base < 2" using "1.prems" by (simp add: word_less_nat_alt)
  obtain k where n: "n = Suc k" using "1.prems"(3) by (cases n) auto
  show ?case
  proof (cases "x div base = 0")
    case True
    then show ?thesis using nb n by (subst digits_of.simps) simp
  next
    case False
    have u: "unat (x div base) < unat base ^ k"
      using "1.prems"(1,2) n by (simp add: unat_div less_mult_imp_div_less mult.commute)
    moreover have "0 < k" using u False by (cases k) (auto simp: unat_eq_0)
    ultimately have "length (digits_of base (x div base)) \<le> k" using 1 nb False by blast
    then show ?thesis using nb n False by (subst digits_of.simps) simp
  qed
qed

lemma unat_neg:
  assumes "sint xx < 0"
  shows "int (unat (- xx :: u32)) = - sint xx"
proof -
  have "- xx = word_of_int (- sint xx)" by (simp add: word_of_int_minus)
  then have "uint (- xx) = (- sint xx) mod 2 ^ 32" by (simp only: uint_word_of_int) simp
  moreover have "- (2 ^ 31) \<le> sint xx" using sint_ge [of xx] by simp
  then have "0 \<le> - sint xx" "- sint xx < 2 ^ 32" using assms by simp_all
  then have "(- sint xx) mod 2 ^ 32 = - sint xx" by (rule mod_pos_pos_trivial)
  ultimately show ?thesis by (metis uint_nat)
qed

text \<open>\<^verbatim>\<open>printint\<close> fits its 16-byte buffer and prints the number: a minus sign exactly for a negative
  number printed with sign, then digits whose value is its magnitude, for every 32-bit argument,
  \<^verbatim>\<open>INT_MIN\<close> included.\<close>

theorem printint_correct:
  assumes "base \<in> {10, 16}"
  shows "length (printint xx base sig) \<le> 16 \<and>
    (if sig \<and> sint xx < 0
     then \<exists>ds. printint xx base sig = 45 # ds \<and> int (value_of (unat base) (rev ds)) = - sint xx
     else value_of (unat base) (rev (printint xx base sig)) = unat xx)"
proof -
  have b: "2 \<le> unat base" "unat base \<le> 16" "2 ^ 32 \<le> unat base ^ 10" using assms by auto
  have "unat x < 2 ^ 32" for x :: u32 using unsigned_less [of x] by simp
  then have "unat x < unat base ^ 10" for x :: u32 using b(3) by (rule order_less_le_trans)
  then have l: "length (digits_of base x) \<le> 10" for x using length_digits_of [OF b(1), of x 10] by simp
  note v = value_digits_of [OF b(1,2)]
  show ?thesis
  proof (cases "sig \<and> sint xx < 0")
    case True
    then have "printint xx base sig = 45 # rev (digits_of base (- xx))" by (simp add: printint_def)
    then show ?thesis using True l [of "- xx"] v [of "- xx"] unat_neg by simp
  next
    case False
    then have "printint xx base sig = rev (digits_of base xx)" by (auto simp: printint_def)
    then show ?thesis using False l [of xx] v [of xx] by auto
  qed
qed

theorem printint_correct_witness:
  "length (printint 0x80000000 10 True) \<le> 16 \<and>
    (if True \<and> sint (0x80000000 :: u32) < 0
     then \<exists>ds. printint 0x80000000 10 True = 45 # ds \<and> int (value_of (unat (10 :: u32)) (rev ds)) = - sint (0x80000000 :: u32)
     else value_of (unat (10 :: u32)) (rev (printint 0x80000000 10 True)) = unat (0x80000000 :: u32))"
  by (rule printint_correct) simp

section \<open>The line discipline\<close>

text \<open>Two lemmas on rings with three counters: a byte put at the end does not disturb an earlier
  part, and adjacent parts concatenate.\<close>

lemma map_shift_upt: "map (\<lambda>i. f (k + i)) [0..<n] = map f [k..<k + n]"
  by (induction n) auto

lemma ring_split:
  assumes N: "ring_cap N" and u: "ring_used r e = ring_used r w + ring_used w e"
  shows "ring_list N d r e = ring_list N d r w @ ring_list N d w e"
proof -
  have w: "(unat w + i) mod N = (unat r + (ring_used r w + i)) mod N" for i
    using ring_wpos [OF N, of w r] by (metis add.assoc mod_add_left_eq)
  have "ring_list N d w e = map (\<lambda>i. d ! ((unat r + i) mod N)) [ring_used r w..<ring_used r w + ring_used w e]"
    unfolding ring_list_eq [OF N] w by (rule map_shift_upt)
  then show ?thesis unfolding ring_list_eq [OF N, of d r] u
    by (simp add: upt_add_eq_append [of 0 "ring_used r w" "ring_used w e"])
qed

lemma ring_other:
  assumes N: "ring_cap N" and u: "ring_used r w \<le> ring_used r e" "ring_used r e < N"
  shows "ring_list N (d[unat (e mod of_nat N) := b]) r w = ring_list N d r w"
proof -
  have ne: "(unat r + i) mod N \<noteq> unat e mod N" if "i < ring_used r w" for i
  proof
    assume "(unat r + i) mod N = unat e mod N"
    then have "(unat r + i) mod N = (unat r + ring_used r e) mod N" using ring_wpos [OF N, of e r] by simp
    then have "N dvd (unat r + ring_used r e) - (unat r + i)"
      by (metis mod_eq_dvd_iff_nat add_le_cancel_left less_imp_le order_less_le_trans that u(1))
    then have "N dvd ring_used r e - i" by simp
    then show False using that u by (auto dest: dvd_imp_le)
  qed
  show ?thesis using N by (simp add: ring_list_eq ring_slot not_sym [OF ne])
qed

definition in_wf :: "console \<Rightarrow> bool" where
  "in_wf s \<longleftrightarrow> length (in_buf s) = INPUT_BUF \<and> ring_used (in_r s) (in_e s) \<le> INPUT_BUF \<and>
     ring_used (in_r s) (in_e s) = ring_used (in_r s) (in_w s) + ring_used (in_w s) (in_e s)"

text \<open>What readers may take, and the line being edited.\<close>

definition in_ready :: "console \<Rightarrow> u8 list" where
  "in_ready s = ring_list INPUT_BUF (in_buf s) (in_r s) (in_w s)"

definition in_line :: "console \<Rightarrow> u8 list" where
  "in_line s = ring_list INPUT_BUF (in_buf s) (in_w s) (in_e s)"

lemma input_cap: "ring_cap INPUT_BUF"
  by (simp add: ring_cap_def)

lemma in_same_simps:
  "in_same s s' \<Longrightarrow> in_wf s' = in_wf s \<and> in_ready s' = in_ready s \<and> in_line s' = in_line s \<and> in_last s' = in_last s"
  by (simp add: in_same_def in_wf_def in_ready_def in_line_def in_last_def)

lemma length_in [simp]: "length (in_ready s) = ring_used (in_r s) (in_w s)" "length (in_line s) = ring_used (in_w s) (in_e s)"
  by (simp_all add: in_ready_def in_line_def)

lemma in_line_empty: "in_e s = in_w s \<longleftrightarrow> in_line s = []"
  unfolding in_line_def using ring_empty_iff by metis

lemma in_line_used: "in_line s = [] \<longleftrightarrow> ring_used (in_w s) (in_e s) = 0"
  by (simp add: in_line_def ring_list_def)

lemma erase_last:
  assumes "in_wf s" "in_line s \<noteq> []"
  shows "in_wf (s\<lparr>in_e := in_e s - 1\<rparr>)" "in_ready (s\<lparr>in_e := in_e s - 1\<rparr>) = in_ready s"
    "in_line (s\<lparr>in_e := in_e s - 1\<rparr>) = butlast (in_line s)"
proof -
  have ne: "in_w s \<noteq> in_e s" using assms(2) in_line_empty [of s] by auto
  have u: "ring_used (in_w s) (in_e s) \<noteq> 0" using assms(2) by (simp add: in_line_used)
  then have "ring_used (in_r s) (in_e s) \<noteq> 0" using assms(1) by (simp add: in_wf_def)
  then show "in_wf (s\<lparr>in_e := in_e s - 1\<rparr>)" using assms(1) u by (auto simp: in_wf_def ring_used_unput)
  show "in_line (s\<lparr>in_e := in_e s - 1\<rparr>) = butlast (in_line s)"
    using ring_unput [OF ne] by (simp add: in_line_def)
qed (simp add: in_ready_def)

lemma in_last_last: "in_line s \<noteq> [] \<Longrightarrow> in_last s = last (in_line s)"
proof -
  assume a: "in_line s \<noteq> []"
  then obtain n where n: "ring_used (in_w s) (in_e s) = Suc n" by (cases "ring_used (in_w s) (in_e s)") (auto simp: in_line_used)
  have "ring_used (in_w s) (in_e s - 1) = n" using n ring_used_unput [of "in_w s" "in_e s"] by simp
  then have "unat (in_e s - 1) mod INPUT_BUF = (unat (in_w s) + n) mod INPUT_BUF"
    using ring_wpos [OF input_cap, of "in_e s - 1" "in_w s"] by simp
  then show ?thesis
    unfolding in_last_def in_line_def ring_slot [OF input_cap] ring_list_eq [OF input_cap] n by simp
qed

lemma type_char:
  fixes b :: u8
  assumes wf: "in_wf s" and u: "in_e s - in_r s < of_nat INPUT_BUF"
  defines "s1 \<equiv> s\<lparr>in_buf := (in_buf s)[unat (in_e s mod of_nat INPUT_BUF) := b], in_e := in_e s + 1\<rparr>"
  shows "in_wf s1" "in_ready s1 = in_ready s" "in_line s1 = in_line s @ [b]"
proof -
  have l: "ring_used (in_r s) (in_e s) < INPUT_BUF" using u by (simp add: ring_used_def word_less_nat_alt)
  then have l': "ring_used (in_w s) (in_e s) < INPUT_BUF" "ring_used (in_r s) (in_w s) \<le> ring_used (in_r s) (in_e s)"
    using wf by (simp_all add: in_wf_def)
  show "in_wf s1" using wf l l' ring_used_put [OF input_cap l] ring_used_put [OF input_cap l'(1)]
    by (simp add: in_wf_def s1_def)
  show "in_ready s1 = in_ready s" using ring_other [OF input_cap l'(2) l] by (simp add: in_ready_def s1_def)
  show "in_line s1 = in_line s @ [b]"
    using ring_put [OF input_cap _ l'(1), of "in_buf s"] wf by (simp add: in_line_def s1_def in_wf_def)
qed

lemma commit_line:
  "in_wf s \<Longrightarrow> in_wf (s\<lparr>in_w := in_e s\<rparr>) \<and> in_ready (s\<lparr>in_w := in_e s\<rparr>) = in_ready s @ in_line s \<and>
     in_line (s\<lparr>in_w := in_e s\<rparr>) = []"
  using ring_split [OF input_cap, of "in_r s" "in_e s" "in_w s" "in_buf s"]
  by (simp add: in_wf_def in_ready_def in_line_def ring_used_def ring_list_def)

lemma kill_line_ok:
  assumes "in_wf s" "screen_ok s" "\<not> panicked s" "10 \<notin> set (in_line s)" "k = length (in_line s)"
  shows "\<exists>s'. kill_line k cf s = Ok s' \<and> in_wf s' \<and> screen_ok s' \<and> \<not> panicked s' \<and> in_ready s' = in_ready s \<and> in_line s' = []"
  using assms
proof (induction k arbitrary: s)
  case (Suc k)
  then have ne: "in_line s \<noteq> []" by (auto simp: in_line_used)
  let ?s = "s\<lparr>in_e := in_e s - 1\<rparr>"
  note e = erase_last [OF Suc.prems(1) ne]
  have g: "in_e s \<noteq> in_w s" "in_last s \<noteq> 10"
    using ne in_line_empty [of s] in_last_last [OF ne] Suc.prems(4) last_in_set [OF ne] by metis+
  have sc: "screen_ok ?s" "\<not> panicked ?s" using Suc.prems(2,3) by (simp_all add: screen_ok_def)
  obtain s1 where s1: "consputc cf BACKSPACE ?s = Ok s1" "screen_ok s1" "\<not> panicked s1" "in_same ?s s1"
    using consputc_ok [OF sc] by blast
  note i = in_same_simps [OF s1(4)]
  have "\<exists>s'. kill_line k cf s1 = Ok s' \<and> in_wf s' \<and> screen_ok s' \<and> \<not> panicked s' \<and> in_ready s' = in_ready s1 \<and> in_line s' = []"
    using Suc.prems(4,5) e i s1 by (intro Suc.IH) (auto dest: in_set_butlastD)
  then show ?case using g s1(1) i e by simp
qed (auto simp: in_line_used)

text \<open>The line discipline as a function on the two lists: a character that does not fit is dropped,
  backspace and control-U edit the line, and a newline, control-D or a full buffer hand it over.\<close>

definition edit :: "nat \<Rightarrow> u8 list \<times> u8 list \<Rightarrow> bool \<times> u8 list \<times> u8 list" where
  "edit c = (\<lambda>(ready, line).
     if c = 16 then (False, ready, line)
     else if c = 21 then (False, ready, [])
     else if c = 8 \<or> c = 127 then (False, ready, butlast line)
     else if c \<noteq> 0 \<and> length ready + length line < INPUT_BUF then
       (let c = (if c = 13 then 10 else c); line = line @ [of_nat c] in
        if c = 10 \<or> c = 4 \<or> length ready + length line = INPUT_BUF then (True, ready @ line, [])
        else (False, ready, line))
     else (False, ready, line))"

text \<open>C37: the keyboard interrupt implements the line discipline \<open>edit\<close>. For every character, on a
  well-formed input buffer, \<^verbatim>\<open>consoleintr\<close> never panics, changes the characters ready for readers and
  the line being edited exactly as \<open>edit\<close> says, wakes the readers exactly when a line was handed
  over, and leaves a well-formed buffer, no newline in the line and the cursor on the screen.\<close>

theorem input_char_edits:
  assumes wf: "in_wf s" and sc: "screen_ok s" "\<not> panicked s" and nl: "10 \<notin> set (in_line s)" and c: "c < 256"
  shows "\<exists>w s'. input_char cf c s = Ok (w, s') \<and> (w, in_ready s', in_line s') = edit c (in_ready s, in_line s) \<and>
    in_wf s' \<and> screen_ok s' \<and> \<not> panicked s' \<and> 10 \<notin> set (in_line s')"
proof -
  have room: "in_e s - in_r s < 128 \<longleftrightarrow> length (in_ready s) + length (in_line s) < 128"
    using wf by (simp add: in_wf_def ring_used_def word_less_nat_alt)
  consider "c = 16" | "c = 21" | "c = 8 \<or> c = 127" "in_line s = []" | "c = 8 \<or> c = 127" "in_line s \<noteq> []"
    | "c \<notin> {16, 21, 8, 127}" "c = 0 \<or> \<not> in_e s - in_r s < 128"
    | "c \<notin> {16, 21, 8, 127}" "c \<noteq> 0" "in_e s - in_r s < 128" by blast
  then show ?thesis
  proof cases
    case 2
    obtain s' where "kill_line (unat (in_e s - in_w s)) cf s = Ok s'" "in_wf s'" "screen_ok s'" "\<not> panicked s'"
        "in_ready s' = in_ready s" "in_line s' = []"
      using kill_line_ok [OF wf sc nl, of "unat (in_e s - in_w s)" cf] by (auto simp: ring_used_def)
    then show ?thesis using 2 by (auto simp: input_char_def edit_def)
  next
    case 4
    let ?s = "s\<lparr>in_e := in_e s - 1\<rparr>"
    have sc': "screen_ok ?s" "\<not> panicked ?s" using sc by (simp_all add: screen_ok_def)
    obtain s1 where s1: "consputc cf BACKSPACE ?s = Ok s1" "screen_ok s1" "\<not> panicked s1" "in_same ?s s1"
      using consputc_ok [OF sc'] by blast
    then show ?thesis using 4 erase_last [OF wf 4(2)] in_same_simps [OF s1(4)] in_line_empty [of s] nl
      by (auto simp: input_char_def edit_def dest: in_set_butlastD)
  next
    case 6
    let ?c = "if c = 13 then 10 else c"
    let ?s = "s\<lparr>in_buf := (in_buf s)[unat (in_e s mod of_nat INPUT_BUF) := of_nat ?c], in_e := in_e s + 1\<rparr>"
    have u: "in_e s - in_r s < of_nat INPUT_BUF" using 6 by simp
    note t = type_char [OF wf u, of "of_nat ?c"]
    have sc': "screen_ok ?s" "\<not> panicked ?s" using sc by (simp_all add: screen_ok_def)
    obtain s1 where s1: "consputc cf ?c ?s = Ok s1" "screen_ok s1" "\<not> panicked s1" "in_same ?s s1"
      using consputc_ok [OF sc'] by blast
    note i = in_same_simps [OF s1(4)]
    have w1: "in_wf s1" using t i by simp
    have ch: "(of_nat ?c :: u8) = 10 \<longleftrightarrow> ?c = 10"
      using c by (auto simp: word_unat_eq_iff unat_of_nat)
    have full: "in_e s1 = in_r s1 + 128 \<longleftrightarrow> length (in_ready s) + length (in_line s @ [of_nat ?c]) = 128"
      using ring_full_iff [OF input_cap, of "in_e s1" "in_r s1"] w1 i t length_in [of s1] by (simp add: in_wf_def)
    have e: "input_char cf c s = Ok (if ?c = 10 \<or> ?c = 4 \<or> in_e s1 = in_r s1 + 128 then (True, s1\<lparr>in_w := in_e s1\<rparr>) else (False, s1))"
      using 6 s1(1) by (auto simp: input_char_def Let_def)
    show ?thesis
    proof (cases "?c = 10 \<or> ?c = 4 \<or> in_e s1 = in_r s1 + 128")
      case True
      then show ?thesis using e 6 room commit_line [OF w1] i t s1 full
        by (auto simp: edit_def Let_def screen_ok_def split: if_splits)
    next
      case False
      then show ?thesis using e 6 room i t s1 full nl ch
        by (auto simp: edit_def Let_def split: if_splits)
    qed
  qed (use assms room in_line_empty [of s] in \<open>auto simp: input_char_def edit_def\<close>)
qed

definition demo_con :: console where
  "demo_con = \<lparr>crt = (\<lambda>_. 0), cursor = 0, uart = True, uart_out = [], panicked = False, cgaflag = False, curidx = 0,
     crtflags = (\<lambda>i. i = 0), crtbufs = (\<lambda>_ _. 0), poss = (\<lambda>_. 0), in_buf = replicate INPUT_BUF 0, in_r = 0, in_w = 0, in_e = 0\<rparr>"

lemma demo_con_ok: "in_wf demo_con" "screen_ok demo_con" "\<not> panicked demo_con" "in_line demo_con = []" "in_ready demo_con = []"
  by (simp_all add: demo_con_def in_wf_def screen_ok_def in_line_def in_ready_def ring_used_def ring_list_def)

theorem input_char_edits_witness: "\<exists>s'. input_char 0 13 demo_con = Ok (True, s') \<and> in_ready s' = [10]"
  using input_char_edits [OF demo_con_ok(1-3), of 13 0] demo_con_ok(4,5) by (auto simp: edit_def)

text \<open>Text output never leaves the 23 text rows: whatever is printed with the cursor in them, the
  kernel does not panic, the cursor stays in them and the status line below is not touched.\<close>

theorem cprintf_stays_on_screen:
  assumes "screen_ok s" "\<not> panicked s" "cprintf_chars fmt args = Some out"
  shows "\<exists>s'. cprintf cf (Some fmt) args s = Ok s' \<and> screen_ok s' \<and> (\<forall>i. 23 * 80 \<le> i \<longrightarrow> crt s' i = crt s i)"
  using consputs_ok [OF assms(1,2), of cf out] assms(3) by (auto simp: cprintf_def)

theorem cprintf_stays_on_screen_witness:
  "\<exists>s'. cprintf 0 (Some [37, 100, 10]) [CInt 7] demo_con = Ok s' \<and> screen_ok s'"
proof -
  have "cprintf_chars [37, 100, 10] [CInt 7] = Some (printint 7 10 True @ [10])" by simp
  then show ?thesis using cprintf_stays_on_screen [OF demo_con_ok(2,3)] by blast
qed

end
