(* ===== verification/Kernel.thy ===== *)
theory Kernel
  imports Fs Vm Sched_Steps Console
begin

text \<open>
  The state of the whole kernel, for the components that work on several parts of it:
  file system, open files, pipes, memory and process table. With it, the accesses the
  kernel makes to user memory through the page table of the running process, and the
  operations of \<^verbatim>\<open>proc.c\<close> on its memory: \<^verbatim>\<open>getshared\<close>, \<^verbatim>\<open>releaseshared\<close> and \<^verbatim>\<open>growproc\<close>.
  \<open>c\<close> is the CPU the code runs on.
\<close>

section \<open>State\<close>

datatype ftype = FD_NONE | FD_PIPE | FD_MEMO | FD_INODE

record fileobj =
  f_type :: ftype
  f_ref :: int
  f_readable :: bool
  f_writable :: bool
  f_pipe :: u32
  f_ip :: "nat option"
  f_off :: u32

text \<open>A pipe lives in a page of its own; \<open>pipes\<close> is indexed by the address of that page.\<close>

abbreviation (input) PIPESIZE :: nat where "PIPESIZE \<equiv> 512"

record pipe =
  p_data :: "u8 list"
  p_nread :: u32
  p_nwrite :: u32
  p_readopen :: bool
  p_writeopen :: bool

text \<open>\<open>a_forkret\<close> is the address the linker gives \<^verbatim>\<open>forkret\<close>, \<open>first\<close> its static flag.\<close>

record kernel = fs +
  ftable :: "nat \<Rightarrow> fileobj"
  pipes :: "u32 \<Rightarrow> pipe"
  kvm :: vm
  pt :: ptable
  ticks :: u32
  con :: console
  a_forkret :: u32
  first :: bool

definition upd_file :: "nat \<Rightarrow> (fileobj \<Rightarrow> fileobj) \<Rightarrow> kernel \<Rightarrow> kernel" where
  "upd_file f g s = s\<lparr>ftable := (ftable s)(f := g (ftable s f))\<rparr>"

definition upd_pipe :: "u32 \<Rightarrow> (pipe \<Rightarrow> pipe) \<Rightarrow> kernel \<Rightarrow> kernel" where
  "upd_pipe p g s = s\<lparr>pipes := (pipes s)(p := g (pipes s p))\<rparr>"

definition upd_cur :: "nat \<Rightarrow> (proc \<Rightarrow> proc) \<Rightarrow> kernel \<Rightarrow> kernel" where
  "upd_cur p g s = s\<lparr>pt := upd_proc p g (pt s)\<rparr>"

text \<open>Running an operation on one part of the state.\<close>

definition on_pt :: "(ptable \<Rightarrow> ptable outcome) \<Rightarrow> kernel \<Rightarrow> kernel outcome" where
  "on_pt f s = bindo (f (pt s)) (\<lambda>t. Ok (s\<lparr>pt := t\<rparr>))"

definition on_vm :: "(vm \<Rightarrow> vm outcome) \<Rightarrow> kernel \<Rightarrow> kernel outcome" where
  "on_vm f s = bindo (f (kvm s)) (\<lambda>v. Ok (s\<lparr>kvm := v\<rparr>))"

definition on_vmr :: "(vm \<Rightarrow> ('r \<times> vm) outcome) \<Rightarrow> kernel \<Rightarrow> ('r \<times> kernel) outcome" where
  "on_vmr f s = bindo (f (kvm s)) (\<lambda>(r, v). Ok (r, s\<lparr>kvm := v\<rparr>))"

section \<open>User memory\<close>

text \<open>The address translation of the hardware for a load or store made by the kernel; a missing
  page traps in kernel mode, where \<^verbatim>\<open>trap\<close> panics.\<close>

definition translate :: "memory \<Rightarrow> u32 \<Rightarrow> u32 \<Rightarrow> u32 outcome" where
  "translate m pd va =
     (if pte_of m pd va AND PTE_P = 0 then Panic ''trap''
      else Ok (P2V (PTE_ADDR (pte_of m pd va)) + (va AND 0xFFF)))"

definition uload8 :: "u32 \<Rightarrow> u32 \<Rightarrow> vm \<Rightarrow> u8 outcome" where
  "uload8 pd va v = bindo (translate (mem v) pd va) (\<lambda>a. Ok (mem v a))"

definition ustore8 :: "u32 \<Rightarrow> u32 \<Rightarrow> u8 \<Rightarrow> vm \<Rightarrow> vm outcome" where
  "ustore8 pd va x v = bindo (translate (mem v) pd va) (\<lambda>a. Ok (v\<lparr>mem := (mem v)(a := x)\<rparr>))"

fun uread :: "u32 \<Rightarrow> u32 \<Rightarrow> nat \<Rightarrow> vm \<Rightarrow> u8 list outcome" where
  "uread pd va 0 v = Ok []"
| "uread pd va (Suc n) v =
     bindo (uload8 pd va v) (\<lambda>x. bindo (uread pd (va + 1) n v) (\<lambda>xs. Ok (x # xs)))"

fun uwrite :: "u32 \<Rightarrow> u32 \<Rightarrow> u8 list \<Rightarrow> vm \<Rightarrow> vm outcome" where
  "uwrite pd va [] v = Ok v"
| "uwrite pd va (x # xs) v = bindo (ustore8 pd va x v) (\<lambda>v. uwrite pd (va + 1) xs v)"

definition uload32 :: "u32 \<Rightarrow> u32 \<Rightarrow> vm \<Rightarrow> u32 outcome" where
  "uload32 pd va v = bindo (uread pd va 4 v) (\<lambda>xs. Ok (get32 xs 0))"

definition ustore32 :: "u32 \<Rightarrow> u32 \<Rightarrow> u32 \<Rightarrow> vm \<Rightarrow> vm outcome" where
  "ustore32 pd va x v = uwrite pd va (put32 [0, 0, 0, 0] 0 x) v"

text \<open>\<^verbatim>\<open>strncpy\<close> between user addresses.\<close>

fun ustrncpy :: "u32 \<Rightarrow> u32 \<Rightarrow> u32 \<Rightarrow> nat \<Rightarrow> vm \<Rightarrow> vm outcome" where
  "ustrncpy pd d a 0 v = Ok v"
| "ustrncpy pd d a (Suc n) v =
     bindo (uload8 pd a v) (\<lambda>x.
     bindo (ustore8 pd d x v) (\<lambda>v.
       if x \<noteq> 0 then ustrncpy pd (d + 1) (a + 1) n v else uwrite pd (d + 1) (replicate n 0) v))"

section \<open>Memory of the running process\<close>

definition with_cur :: "nat \<Rightarrow> (nat \<Rightarrow> proc \<Rightarrow> kernel \<Rightarrow> 'r outcome) \<Rightarrow> kernel \<Rightarrow> 'r outcome" where
  "with_cur c f s = (case myproc c (pt s) of None \<Rightarrow> UB | Some p \<Rightarrow> f p (procs (pt s) p) s)"

definition shared_va :: "u32 \<Rightarrow> u32" where
  "shared_va idx = KERNBASE - (idx + 1) * PGSIZE"

text \<open>The index is the user's and is not checked: outside \<^verbatim>\<open>sharedrec\<close> the access has no meaning.
  115 is the character \<^verbatim>\<open>s\<close>.\<close>

definition releaseshared :: "nat \<Rightarrow> u32 \<Rightarrow> kernel \<Rightarrow> (int \<times> kernel) outcome" where
  "releaseshared c idx s = with_cur c (\<lambda>p x s.
     if unat idx \<ge> MAXSHAREDPG then UB
     else if p_sharedrec x (unat idx) \<noteq> 115 then Ok (0, s)
     else let s = upd_cur p (\<lambda>x. x\<lparr>p_sharedrec := (p_sharedrec x)(unat idx := 0)\<rparr>) s in
       bindo (on_vm (desharevm (sint idx)) s) (\<lambda>s. Ok (0, s))) s"

definition getshared :: "nat \<Rightarrow> u32 \<Rightarrow> kernel \<Rightarrow> (u32 \<times> kernel) outcome" where
  "getshared c idx s = with_cur c (\<lambda>p x s.
     if unat idx \<ge> MAXSHAREDPG then UB
     else if p_sharedrec x (unat idx) = 115 then Ok (shared_va idx, s)
     else bindo (on_vm (sharevm (p_pgdir x) (sint idx)) s) (\<lambda>s.
       let s = upd_cur p (\<lambda>x. x\<lparr>p_sharedrec := (p_sharedrec x)(unat idx := 115)\<rparr>) s in
       bindo (on_pt (switchuvm c (Some p)) s) (\<lambda>s. Ok (shared_va idx, s)))) s"

text \<open>The results of \<^verbatim>\<open>allocuvm\<close> and \<^verbatim>\<open>deallocuvm\<close> are new sizes; zero is taken as failure.\<close>

definition growproc :: "nat \<Rightarrow> int \<Rightarrow> kernel \<Rightarrow> (int \<times> kernel) outcome" where
  "growproc c n s = with_cur c (\<lambda>p x s.
     let sz = p_sz x in
     bindo (if n > 0 then on_vmr (allocuvm (p_pgdir x) sz (sz + of_int n)) s
            else if n < 0 then on_vmr (deallocuvm (p_pgdir x) sz (sz + of_int n)) s
            else Ok (sz, s)) (\<lambda>(sz', s).
       if n \<noteq> 0 \<and> sz' = 0 then Ok (-1, s)
       else bindo (on_pt (switchuvm c (Some p)) (upd_cur p (\<lambda>x. x\<lparr>p_sz := sz'\<rparr>) s)) (\<lambda>s. Ok (0, s)))) s"

text \<open>\<^verbatim>\<open>kvmalloc\<close>: the kernel's own page table, at boot.\<close>

definition kvmalloc :: "nat \<Rightarrow> kernel \<Rightarrow> kernel outcome" where
  "kvmalloc c s =
     bindo (on_vmr setupkvm s) (\<lambda>(pd, s). Ok (s\<lparr>pt := switchkvm c ((pt s)\<lparr>kpgdir := pd\<rparr>)\<rparr>))"

section \<open>What the kernel reads and writes in user memory\<close>

text \<open>The kernel address a user address stands for, and a user buffer: every byte of it is mapped,
  and never onto a page of the page directory itself.\<close>

definition upa :: "memory \<Rightarrow> u32 \<Rightarrow> u32 \<Rightarrow> u32" where
  "upa m pd v = upage m pd v + (v AND 0xFFF)"

definition ubuf :: "memory \<Rightarrow> u32 \<Rightarrow> u32 \<Rightarrow> nat \<Rightarrow> bool" where
  "ubuf m pd va n \<longleftrightarrow> (\<forall>q\<in>pt_pages m pd. q mod 4096 = 0) \<and>
     (\<forall>i<n. upresent m pd (va + of_nat i) \<and> upage m pd (va + of_nat i) \<notin> pt_pages m pd)"

definition ubytes :: "memory \<Rightarrow> u32 \<Rightarrow> u32 \<Rightarrow> nat \<Rightarrow> u8 list" where
  "ubytes m pd va n = map (\<lambda>i. m (upa m pd (va + of_nat i))) [0..<n]"

definition udistinct :: "memory \<Rightarrow> u32 \<Rightarrow> u32 \<Rightarrow> nat \<Rightarrow> bool" where
  "udistinct m pd va n \<longleftrightarrow> distinct (map (\<lambda>i. upa m pd (va + of_nat i)) [0..<n])"

lemma upt_Suc_map: "map f [0..<Suc n] = f 0 # map (\<lambda>i. f (Suc i)) [0..<n]"
  by (simp add: upt_conv_Cons map_Suc_upt [symmetric] comp_def del: upt_Suc)

lemma ubytes_Suc: "ubytes m pd va (Suc n) = m (upa m pd va) # ubytes m pd (va + 1) n"
  unfolding ubytes_def upt_Suc_map by (simp add: add.assoc)

lemma length_ubytes [simp]: "length (ubytes m pd va n) = n"
  by (simp add: ubytes_def)

lemma ubuf_Suc:
  "ubuf m pd va (Suc n) \<longleftrightarrow> upresent m pd va \<and> upage m pd va \<notin> pt_pages m pd \<and> ubuf m pd (va + 1) n"
  unfolding ubuf_def by (simp add: All_less_Suc2 add.assoc) blast

lemma udistinct_Suc:
  "udistinct m pd va (Suc n) \<longleftrightarrow> (\<forall>i<n. upa m pd va \<noteq> upa m pd (va + 1 + of_nat i)) \<and> udistinct m pd (va + 1) n"
  unfolding udistinct_def upt_Suc_map by (auto simp: add.assoc)

lemma translate_ok: "upresent (mem v) pd va \<Longrightarrow> translate (mem v) pd va = Ok (upa (mem v) pd va)"
  by (simp add: translate_def upresent_def upa_def upage_def)

lemma upage_aligned: "upage m pd v mod 4096 = 0"
proof -
  have "PGROUNDDOWN (pte_of m pd v) mod 4096 = 0" by (rule PGROUNDDOWN_mod)
  then have "P2V (PGROUNDDOWN (pte_of m pd v)) mod 4096 = 0" by (rule iffD2 [OF P2V_mod])
  then show ?thesis by (simp only: upage_def PTE_ADDR_eq)
qed

lemma and_low_lt: "(v AND 0xFFF :: u32) < 4096"
proof -
  have "v AND 0xFFF \<le> 0xFFF" by (rule word_and_le1)
  then show ?thesis by (rule order_le_less_trans) simp
qed

lemma same_page_byte:
  assumes "q mod 4096 = 0" "q \<noteq> upage m pd v"
  shows "same_page (m'(upa m pd v := x)) m' q"
proof -
  have "upa m pd v \<noteq> q + i" if "i < 4096" for i
    using page_off_inj [OF upage_aligned assms(1) and_low_lt that] assms(2) unfolding upa_def by blast
  then show ?thesis by (metis same_page_def fun_upd_other)
qed

lemma pte_of_poke:
  assumes "\<forall>q\<in>pt_pages m pd. q mod 4096 = 0" "upage m pd v \<notin> pt_pages m pd"
  shows "pte_of (m(upa m pd v := x)) pd w = pte_of m pd w"
    "pt_pages (m(upa m pd v := x)) pd = pt_pages m pd"
proof -
  have s: "\<forall>q\<in>pt_pages m pd. same_page (m(upa m pd v := x)) m q"
    using same_page_byte [of _ m pd v m x] assms by metis
  then show "pte_of (m(upa m pd v := x)) pd w = pte_of m pd w" by (rule pte_of_frame)
  show "pt_pages (m(upa m pd v := x)) pd = pt_pages m pd"
    using s by (intro pt_pages_cong) (simp add: pt_pages_def)
qed

lemma umap_cong:
  assumes "\<forall>w. pte_of m' pd w = pte_of m pd w" "pt_pages m' pd = pt_pages m pd"
  shows "upa m' pd = upa m pd" "upresent m' pd = upresent m pd" "ubuf m' pd = ubuf m pd"
    "udistinct m' pd = udistinct m pd"
proof -
  show a: "upa m' pd = upa m pd" and "upresent m' pd = upresent m pd"
    using assms(1) by (auto simp: fun_eq_iff upa_def upage_def upresent_def)
  show "ubuf m' pd = ubuf m pd" using assms by (auto simp: fun_eq_iff ubuf_def upage_def upresent_def)
  show "udistinct m' pd = udistinct m pd" using a by (simp add: fun_eq_iff udistinct_def)
qed

lemma uread_ok: "ubuf (mem v) pd va n \<Longrightarrow> uread pd va n v = Ok (ubytes (mem v) pd va n)"
  by (induction n arbitrary: va) (auto simp: ubuf_Suc ubytes_Suc uload8_def translate_ok ubytes_def [of _ _ _ 0])

definition upoked :: "u32 \<Rightarrow> u32 \<Rightarrow> u8 list \<Rightarrow> memory \<Rightarrow> memory \<Rightarrow> bool" where
  "upoked pd va xs m m' \<longleftrightarrow>
     (\<forall>w. pte_of m' pd w = pte_of m pd w) \<and> pt_pages m' pd = pt_pages m pd \<and>
     (udistinct m pd va (length xs) \<longrightarrow> ubytes m' pd va (length xs) = xs) \<and>
     (\<forall>a. (\<forall>i<length xs. a \<noteq> upa m pd (va + of_nat i)) \<longrightarrow> m' a = m a)"

lemma upoked_Cons:
  assumes b: "\<forall>q\<in>pt_pages m pd. q mod 4096 = 0" "upage m pd va \<notin> pt_pages m pd"
    and s: "upoked pd (va + 1) xs (m(upa m pd va := x)) m'"
  shows "upoked pd va (x # xs) m m'"
proof -
  let ?m = "m(upa m pd va := x)"
  note p = pte_of_poke [OF b]
  have u: "upa ?m pd = upa m pd" "udistinct ?m pd = udistinct m pd" using umap_cong [of ?m pd m] p by auto
  have "upa m' pd = upa m pd" using s p by (intro umap_cong(1)) (auto simp: upoked_def)
  then have "ubytes m' pd va (Suc (length xs)) = m' (upa m pd va) # ubytes m' pd (va + 1) (length xs)"
    by (simp add: ubytes_Suc)
  moreover have "m' (upa m pd va) = x" if "\<forall>i<length xs. upa m pd va \<noteq> upa m pd (va + 1 + of_nat i)"
    using s that u by (auto simp: upoked_def)
  ultimately show ?thesis using s p u
    by (auto simp: upoked_def udistinct_Suc All_less_Suc2 add.assoc)
qed

lemma uwrite_ok:
  "ubuf (mem v) pd va (length xs) \<Longrightarrow> \<exists>m'. uwrite pd va xs v = Ok (v\<lparr>mem := m'\<rparr>) \<and> upoked pd va xs (mem v) m'"
proof (induction xs arbitrary: va v)
  case Nil
  then show ?case by (intro exI [of _ "mem v"]) (simp add: upoked_def ubytes_def)
next
  case (Cons x xs)
  let ?v = "v\<lparr>mem := (mem v)(upa (mem v) pd va := x)\<rparr>"
  have b: "upresent (mem v) pd va" "upage (mem v) pd va \<notin> pt_pages (mem v) pd"
      "\<forall>q\<in>pt_pages (mem v) pd. q mod 4096 = 0" "ubuf (mem v) pd (va + 1) (length xs)"
    using Cons.prems by (simp_all add: ubuf_Suc) (simp add: ubuf_def)
  have "ubuf (mem ?v) pd (va + 1) (length xs)"
    using umap_cong(3) [of "mem ?v" pd "mem v"] pte_of_poke [OF b(3,2)] b(4) by simp
  from Cons.IH [OF this] obtain m' where
    m': "uwrite pd (va + 1) xs ?v = Ok (?v\<lparr>mem := m'\<rparr>)" "upoked pd (va + 1) xs (mem ?v) m'" by blast
  then have "uwrite pd va (x # xs) v = Ok (v\<lparr>mem := m'\<rparr>)"
    using b(1) by (simp add: ustore8_def translate_ok)
  then show ?case using upoked_Cons [OF b(3,2)] m'(2) by auto
qed

lemma uwrite_uread:
  assumes "ubuf (mem v) pd va (length xs)" "udistinct (mem v) pd va (length xs)"
  shows "\<exists>v'. uwrite pd va xs v = Ok v' \<and> uread pd va (length xs) v' = Ok xs"
proof -
  obtain m' where m': "uwrite pd va xs v = Ok (v\<lparr>mem := m'\<rparr>)" "upoked pd va xs (mem v) m'"
    using uwrite_ok [OF assms(1)] by blast
  then have "ubuf m' pd va (length xs)" using assms(1) umap_cong(3) [of m' pd "mem v"] by (simp add: upoked_def)
  then show ?thesis using m' assms(2) uread_ok [of "v\<lparr>mem := m'\<rparr>"] by (auto simp: upoked_def)
qed

section \<open>A small machine\<close>

text \<open>For the witnesses: process 0 runs on CPU 0 in the address space of \<open>demo_vm\<close>, whose one page is
  at address 0; no file is open.\<close>

definition demo_pt :: ptable where
  "demo_pt = upd_cpu 0 (\<lambda>r. r\<lparr>c_proc := Some 0\<rparr>)
     (upd_proc 0 (\<lambda>x. x\<lparr>p_state := RUNNING, p_pid := 1, p_kstack := 0x80300000, p_pgdir := 0x80200000, p_sz := 4096\<rparr>) boot)"

definition demo_kernel :: kernel where
  "demo_kernel = fs.extend demo_fs (kernel.fields
     (\<lambda>_. \<lparr>f_type = FD_NONE, f_ref = 0, f_readable = False, f_writable = False, f_pipe = 0, f_ip = None, f_off = 0\<rparr>)
     (\<lambda>_. \<lparr>p_data = replicate PIPESIZE 0, p_nread = 0, p_nwrite = 0, p_readopen = True, p_writeopen = True\<rparr>)
     demo_vm demo_pt 0 demo_con 0x80103000 False)"

lemma demo_kernel_simps [simp]:
  "kvm demo_kernel = demo_vm" "pt demo_kernel = demo_pt" "f_ref (ftable demo_kernel f) = 0"
  "f_type (ftable demo_kernel f) = FD_NONE"
  "pipes demo_kernel p = \<lparr>p_data = replicate PIPESIZE 0, p_nread = 0, p_nwrite = 0, p_readopen = True, p_writeopen = True\<rparr>"
  by (simp_all add: demo_kernel_def fs.defs kernel.defs)

lemma demo_pt_simps [simp]:
  "myproc 0 demo_pt = Some 0" "p_pgdir (procs demo_pt 0) = 0x80200000" "p_killed (procs demo_pt 0) = False"
  "p_sharedrec (procs demo_pt 0) i = 0" "p_kstack (procs demo_pt 0) = 0x80300000" "p_sz (procs demo_pt 0) = 4096"
  by (simp_all add: demo_pt_def myproc_def boot_def)

lemma demo_pt_inv: "sched_inv demo_pt"
proof -
  have "qabs demo_pt q = []" for q by (simp add: qabs_def demo_pt_def boot_def)
  then have "runq_inv demo_pt" by (simp add: runq_inv_def qrep_def) (simp add: demo_pt_def boot_def)
  moreover have "procs_ok demo_pt" by (simp add: procs_ok_def proc_ok_def demo_pt_def boot_def)
  moreover have "cpu_inv demo_pt" by (simp add: cpu_inv_def demo_pt_def boot_def)
  ultimately show ?thesis by (simp add: sched_inv_def)
qed

lemma demo_vpn: "i < 4096 \<Longrightarrow> vpn (of_nat i) = 0"
  by (simp add: unat_of_nat)

lemma demo_upage:
  assumes "i < 4096"
  shows "upresent demo_mem 0x80200000 (of_nat i)" "upage demo_mem 0x80200000 (of_nat i) = 0x80202000"
    "upa demo_mem 0x80200000 (of_nat i) = 0x80202000 + of_nat i"
proof -
  show "upresent demo_mem 0x80200000 (of_nat i)" and u: "upage demo_mem 0x80200000 (of_nat i) = 0x80202000"
    using demo_vpn [OF assms]
    by (simp_all add: upresent_def upage_def demo_pte PTE_P_def PTE_ADDR_def P2V_def KERNBASE_def)
  have "(of_nat i :: u32) AND 0xFFF = take_bit 12 (of_nat i)" by (simp add: take_bit_eq_mask mask_eq_exp_minus_1)
  also have "\<dots> = of_nat i" using assms by (intro take_bit_12) (simp add: word_less_nat_alt unat_of_nat)
  finally show "upa demo_mem 0x80200000 (of_nat i) = 0x80202000 + of_nat i" by (simp add: upa_def u)
qed

lemma demo_ubuf: "n \<le> 4096 \<Longrightarrow> ubuf demo_mem 0x80200000 0 n"
  using demo_upage by (auto simp: ubuf_def demo_pages)

section \<open>Releasing a shared page\<close>

lemma sint_below_10: "unat (i :: u32) < 10 \<Longrightarrow> sint i = int (unat i)"
proof -
  assume a: "unat i < 10"
  have n: "uint i = int (unat i)" by (rule uint_nat)
  then have u: "0 \<le> uint i" "uint i < 10" using a by linarith+
  have "signed_take_bit 31 (uint i) = uint i"
    using u order_trans [OF _ u(1), of "- (2 ^ 31)"] by (intro signed_take_bit_int_eq_self) simp_all
  then have "sint i = uint i" by (simp add: sint_uint)
  then show ?thesis using n by (rule trans)
qed

text \<open>C39: when the last user of a shared page releases it with \<^verbatim>\<open>releaseshared\<close>, the page goes back to
  the allocator, and is what the next \<^verbatim>\<open>kalloc\<close> returns, although the page table of the process still
  maps every address it had mapped to it: nothing in \<^verbatim>\<open>desharevm\<close> removes the mapping.\<close>

theorem releaseshared_dangling:
  assumes me: "myproc c (pt s) = Some me" and i: "unat idx < MAXSHAREDPG" and rec: "p_sharedrec (procs (pt s) me) (unat idx) = 115"
    and inv: "kmem_inv xs (kvm s)" and wf: "pd_wf xs (kvm s) (p_pgdir (procs (pt s) me))"
    and l: "length (recs (kvm s)) = MAXSHAREDPG" "length (shared (kvm s)) = MAXSHAREDPG" "recs (kvm s) ! unat idx = 1"
    and pg: "valid_page (kvm s) (shared (kvm s) ! unat idx)" "shared (kvm s) ! unat idx \<notin> set xs"
      "shared (kvm s) ! unat idx \<notin> pt_pages (mem (kvm s)) (p_pgdir (procs (pt s) me))"
    and v: "upresent (mem (kvm s)) (p_pgdir (procs (pt s) me)) v"
      "upage (mem (kvm s)) (p_pgdir (procs (pt s) me)) v = shared (kvm s) ! unat idx"
  shows "\<exists>s'. releaseshared c idx s = Ok (0, s') \<and> fst (kalloc (kvm s')) = shared (kvm s) ! unat idx \<and>
    upresent (mem (kvm s')) (p_pgdir (procs (pt s') me)) v \<and>
    upage (mem (kvm s')) (p_pgdir (procs (pt s') me)) v = shared (kvm s) ! unat idx"
proof -
  let ?pd = "p_pgdir (procs (pt s) me)"
  note si = sint_below_10 [OF i]
  obtain v' where v': "desharevm (sint idx) (kvm s) = Ok v'" "fst (kalloc v') = shared (kvm s) ! unat idx"
      "pte_of (mem v') ?pd v = pte_of (mem (kvm s)) ?pd v"
    using desharevm_dangling [OF inv wf, of "sint idx"] i l pg v unfolding si by auto
  let ?s = "(upd_cur me (\<lambda>x. x\<lparr>p_sharedrec := (p_sharedrec x)(unat idx := 0)\<rparr>) s)\<lparr>kvm := v'\<rparr>"
  have "releaseshared c idx s = Ok (0, ?s)"
    using me i rec v'(1) by (simp add: releaseshared_def with_cur_def on_vm_def upd_cur_def)
  moreover have "p_pgdir (procs (pt ?s) me) = ?pd" by (simp add: upd_cur_def)
  ultimately show ?thesis using v' v by (intro exI [of _ ?s]) (simp add: upresent_def upage_def)
qed

theorem releaseshared_dangling_witness:
  "\<exists>s'. releaseshared 0 3 (upd_cur 0 (\<lambda>x. x\<lparr>p_sharedrec := (p_sharedrec x)(3 := 115)\<rparr>) demo_kernel) = Ok (0, s') \<and>
     fst (kalloc (kvm s')) = 0x80202000 \<and> upage (mem (kvm s')) (p_pgdir (procs (pt s') 0)) 0 = 0x80202000"
proof -
  let ?s = "upd_cur 0 (\<lambda>x. x\<lparr>p_sharedrec := (p_sharedrec x)(3 := 115)\<rparr>) demo_kernel"
  have s: "kvm ?s = demo_vm" "myproc 0 (pt ?s) = Some 0" "p_sharedrec (procs (pt ?s) 0) 3 = 115"
      "p_pgdir (procs (pt ?s) 0) = 0x80200000"
    by (simp_all add: upd_cur_def) (simp add: demo_pt_def myproc_def)
  have "recs demo_vm = replicate 10 1" "shared demo_vm = replicate 10 0x80202000" by (simp_all add: demo_vm_def)
  then show ?thesis
    using releaseshared_dangling [of 0 ?s 0 3 "[]" 0] demo_inv demo_wf demo_valid demo_pages demo_upage [of 0] s
    by (simp add: nth_replicate) blast
qed

end
