(* ===== verification/File.thy ===== *)
theory File
  imports Kernel Ring
begin

text \<open>
  Pipes, \<^verbatim>\<open>pipe.c\<close>, and open files, \<^verbatim>\<open>file.c\<close>. A call that goes to sleep inside a pipe gives
  \<open>Blocked i\<close>: \<open>i\<close> bytes have been transferred, the process sleeps, and the same loop goes on from
  \<open>i\<close> when it is scheduled again; \<open>Exited\<close> is for a system call that does not return. \<open>dr\<close> and \<open>dw\<close> are the device table.
\<close>

datatype progress = Done int | Blocked nat | Exited

section \<open>Pipes\<close>

definition pipeclose :: "u32 \<Rightarrow> bool \<Rightarrow> kernel \<Rightarrow> kernel outcome" where
  "pipeclose p writable s =
     bindo (if writable
            then on_pt (wakeup (ChPipeRead p)) (upd_pipe p (\<lambda>x. x\<lparr>p_writeopen := False\<rparr>) s)
            else on_pt (wakeup (ChPipeWrite p)) (upd_pipe p (\<lambda>x. x\<lparr>p_readopen := False\<rparr>) s)) (\<lambda>s.
       if \<not> p_readopen (pipes s p) \<and> \<not> p_writeopen (pipes s p) then on_vm (kfree p) s else Ok s)"

definition pipe_full :: "pipe \<Rightarrow> bool" where
  "pipe_full x \<longleftrightarrow> p_nwrite x = p_nread x + of_nat PIPESIZE"

definition pipe_put :: "u8 \<Rightarrow> pipe \<Rightarrow> pipe" where
  "pipe_put b x = x\<lparr>p_data := (p_data x)[unat (p_nwrite x mod of_nat PIPESIZE) := b], p_nwrite := p_nwrite x + 1\<rparr>"

definition pipe_get :: "pipe \<Rightarrow> u8 \<times> pipe" where
  "pipe_get x = (p_data x ! unat (p_nread x mod of_nat PIPESIZE), x\<lparr>p_nread := p_nread x + 1\<rparr>)"

text \<open>\<open>k\<close> bytes are left to write, \<open>i\<close> have been written.\<close>

fun pipewrite_loop :: "nat \<Rightarrow> u32 \<Rightarrow> u32 \<Rightarrow> int \<Rightarrow> nat \<Rightarrow> nat \<Rightarrow> kernel \<Rightarrow> (progress \<times> kernel) outcome" where
  "pipewrite_loop c p addr n 0 i s =
     bindo (on_pt (wakeup (ChPipeRead p)) s) (\<lambda>s. Ok (Done n, s))"
| "pipewrite_loop c p addr n (Suc k) i s = with_cur c (\<lambda>me x s.
     if pipe_full (pipes s p) then
       (if \<not> p_readopen (pipes s p) \<or> p_killed x then Ok (Done (-1), s)
        else bindo (on_pt (wakeup (ChPipeRead p)) s) (\<lambda>s.
             bindo (on_pt (sleep c (ChPipeWrite p) p) s) (\<lambda>s. Ok (Blocked i, s))))
     else bindo (uload8 (p_pgdir x) (addr + of_nat i) (kvm s)) (\<lambda>b.
            pipewrite_loop c p addr n k (Suc i) (upd_pipe p (pipe_put b) s))) s"

definition pipewrite :: "nat \<Rightarrow> u32 \<Rightarrow> u32 \<Rightarrow> int \<Rightarrow> kernel \<Rightarrow> (progress \<times> kernel) outcome" where
  "pipewrite c p addr n s = pipewrite_loop c p addr n (nat n) 0 s"

fun piperead_loop :: "nat \<Rightarrow> u32 \<Rightarrow> u32 \<Rightarrow> nat \<Rightarrow> nat \<Rightarrow> kernel \<Rightarrow> (progress \<times> kernel) outcome" where
  "piperead_loop c p addr 0 i s =
     bindo (on_pt (wakeup (ChPipeWrite p)) s) (\<lambda>s. Ok (Done (int i), s))"
| "piperead_loop c p addr (Suc k) i s = with_cur c (\<lambda>me x s.
     if p_nread (pipes s p) = p_nwrite (pipes s p) then
       bindo (on_pt (wakeup (ChPipeWrite p)) s) (\<lambda>s. Ok (Done (int i), s))
     else let (b, q) = pipe_get (pipes s p); s = upd_pipe p (\<lambda>_. q) s in
       bindo (on_vm (ustore8 (p_pgdir x) (addr + of_nat i) b) s) (\<lambda>s.
         piperead_loop c p addr k (Suc i) s)) s"

definition piperead :: "nat \<Rightarrow> u32 \<Rightarrow> u32 \<Rightarrow> int \<Rightarrow> kernel \<Rightarrow> (progress \<times> kernel) outcome" where
  "piperead c p addr n s = with_cur c (\<lambda>me x s.
     if p_nread (pipes s p) = p_nwrite (pipes s p) \<and> p_writeopen (pipes s p) then
       (if p_killed x then Ok (Done (-1), s)
        else bindo (on_pt (sleep c (ChPipeRead p) p) s) (\<lambda>s. Ok (Blocked 0, s)))
     else piperead_loop c p addr (nat n) 0 s) s"

text \<open>The text window shared by all processes, page 2 of the shared memory: the length is at offset
  52 of \<^verbatim>\<open>struct memo\<close>, after the lock, and the text at offset 56. Nothing compares the
  length with \<^verbatim>\<open>MEMOSIZE\<close>.\<close>

definition memowrite :: "nat \<Rightarrow> u32 \<Rightarrow> int \<Rightarrow> kernel \<Rightarrow> (int \<times> kernel) outcome" where
  "memowrite c addr n s =
     bindo (getshared c 2 s) (\<lambda>(ch, s).
     with_cur c (\<lambda>me x s.
       bindo (uload32 (p_pgdir x) (ch + 52) (kvm s)) (\<lambda>lmemo.
       bindo (on_vm (ustrncpy (p_pgdir x) (ch + 56 + lmemo) addr (nat n)) s) (\<lambda>s.
       bindo (on_vm (ustore32 (p_pgdir x) (ch + 52) (lmemo + of_int n)) s) (\<lambda>s.
       bindo (on_vm (ustore8 (p_pgdir x) (ch + 56 + (lmemo + of_int n)) 0) s) (\<lambda>s. Ok (0, s)))))) s)"

section \<open>Open files\<close>

definition filealloc :: "kernel \<Rightarrow> nat option \<times> kernel" where
  "filealloc s = (case List.find (\<lambda>f. f_ref (ftable s f) = 0) [0..<NFILE] of
     None \<Rightarrow> (None, s)
   | Some f \<Rightarrow> (Some f, upd_file f (\<lambda>x. x\<lparr>f_ref := 1\<rparr>) s))"

definition filedup :: "nat \<Rightarrow> kernel \<Rightarrow> kernel outcome" where
  "filedup f s =
     (if f_ref (ftable s f) < 1 then Panic ''filedup'' else Ok (upd_file f (\<lambda>x. x\<lparr>f_ref := f_ref x + 1\<rparr>) s))"

definition fileclose :: "nat \<Rightarrow> kernel \<Rightarrow> kernel outcome" where
  "fileclose f s =
     (if f_ref (ftable s f) < 1 then Panic ''fileclose''
      else let s = upd_file f (\<lambda>x. x\<lparr>f_ref := f_ref x - 1\<rparr>) s in
        if f_ref (ftable s f) > 0 then Ok s
        else let ff = ftable s f; s = upd_file f (\<lambda>x. x\<lparr>f_ref := 0, f_type := FD_NONE\<rparr>) s in
          if f_type ff = FD_PIPE then pipeclose (f_pipe ff) (f_writable ff) s
          else if f_type ff = FD_INODE then
            (case f_ip ff of
               None \<Rightarrow> UB
             | Some ip \<Rightarrow> bindo (begin_op s) (\<lambda>s. bindo (iput ip s) (\<lambda>s. end_op s)))
          else Ok s)"

definition pipealloc :: "kernel \<Rightarrow> ((nat \<times> nat) option \<times> kernel) outcome" where
  "pipealloc s =
     (let (f0, s) = filealloc s in
      case f0 of
        None \<Rightarrow> Ok (None, s)
      | Some f0 \<Rightarrow>
          let (f1, s) = filealloc s in
          (case f1 of
             None \<Rightarrow> bindo (fileclose f0 s) (\<lambda>s. Ok (None, s))
           | Some f1 \<Rightarrow>
               let (p, v) = kalloc (kvm s); s = s\<lparr>kvm := v\<rparr> in
               if p = 0 then
                 bindo (fileclose f0 s) (\<lambda>s. bindo (fileclose f1 s) (\<lambda>s. Ok (None, s)))
               else
                 let s = upd_pipe p (\<lambda>x. x\<lparr>p_readopen := True, p_writeopen := True, p_nwrite := 0, p_nread := 0\<rparr>) s;
                     s = upd_file f0 (\<lambda>x. x\<lparr>f_type := FD_PIPE, f_readable := True, f_writable := False, f_pipe := p\<rparr>) s;
                     s = upd_file f1 (\<lambda>x. x\<lparr>f_type := FD_PIPE, f_readable := False, f_writable := True, f_pipe := p\<rparr>) s
                 in Ok (Some (f0, f1), s)))"

definition filestat :: "nat \<Rightarrow> kernel \<Rightarrow> (stat option \<times> kernel) outcome" where
  "filestat f s =
     (if f_type (ftable s f) = FD_INODE then
        (case f_ip (ftable s f) of
           None \<Rightarrow> Panic ''ilock''
         | Some ip \<Rightarrow>
             bindo (ilock ip s) (\<lambda>s. let st = stati ip s in bindo (iunlock ip s) (\<lambda>s. Ok (Some st, s))))
      else Ok (None, s))"

definition fileread :: "kernel devread \<Rightarrow> nat \<Rightarrow> nat \<Rightarrow> u32 \<Rightarrow> int \<Rightarrow> kernel \<Rightarrow> (progress \<times> kernel) outcome" where
  "fileread dr c f addr n s =
     (if \<not> f_readable (ftable s f) then Ok (Done (-1), s)
      else if f_type (ftable s f) = FD_PIPE then piperead c (f_pipe (ftable s f)) addr n s
      else if f_type (ftable s f) = FD_INODE then
        (case f_ip (ftable s f) of
           None \<Rightarrow> Panic ''ilock''
         | Some ip \<Rightarrow>
             bindo (ilock ip s) (\<lambda>s.
             bindo (readi dr ip (f_off (ftable s f)) (of_int n) s) (\<lambda>(r, xs, s).
             bindo (with_cur c (\<lambda>me x s. on_vm (uwrite (p_pgdir x) addr xs) s) s) (\<lambda>s.
             let s = (if r > 0 then upd_file f (\<lambda>x. x\<lparr>f_off := f_off x + of_int r\<rparr>) s else s) in
             bindo (iunlock ip s) (\<lambda>s. Ok (Done r, s))))))
      else Panic ''fileread'')"

text \<open>The loop of \<^verbatim>\<open>filewrite\<close> on an inode: \<open>k\<close> bytes are left, \<open>i\<close> have been written; the chunk size
  is \<open>((MAXOPBLOCKS - 1 - 1 - 2) div 2) * 512\<close>.\<close>

abbreviation (input) WCHUNK :: nat where "WCHUNK \<equiv> 1536"

function filewrite_loop :: "kernel devwrite \<Rightarrow> nat \<Rightarrow> nat \<Rightarrow> nat \<Rightarrow> u32 \<Rightarrow> nat \<Rightarrow> nat \<Rightarrow> kernel \<Rightarrow>
    (bool \<times> kernel) outcome" where
  "filewrite_loop dw c f ip addr k i s =
     (if k = 0 then Ok (True, s)
      else let n1 = min k WCHUNK in
        bindo (begin_op s) (\<lambda>s.
        bindo (ilock ip s) (\<lambda>s.
        bindo (with_cur c (\<lambda>me x s. uread (p_pgdir x) (addr + of_nat i) n1 (kvm s)) s) (\<lambda>xs.
        bindo (writei dw ip xs (f_off (ftable s f)) (of_nat n1) s) (\<lambda>(r, s).
        let s = (if r > 0 then upd_file f (\<lambda>x. x\<lparr>f_off := f_off x + of_int r\<rparr>) s else s) in
        bindo (iunlock ip s) (\<lambda>s.
        bindo (end_op s) (\<lambda>s.
          if r < 0 then Ok (False, s)
          else if r \<noteq> int n1 then Panic ''short filewrite''
          else filewrite_loop dw c f ip addr (k - n1) (i + n1) s)))))))"
  by pat_completeness auto
termination by (relation "measure (\<lambda>(dw, c, f, ip, addr, k, i, s). k)") auto

declare filewrite_loop.simps [simp del]

definition filewrite :: "kernel devwrite \<Rightarrow> nat \<Rightarrow> nat \<Rightarrow> u32 \<Rightarrow> int \<Rightarrow> kernel \<Rightarrow> (progress \<times> kernel) outcome" where
  "filewrite dw c f addr n s =
     (if \<not> f_writable (ftable s f) then Ok (Done (-1), s)
      else if f_type (ftable s f) = FD_PIPE then pipewrite c (f_pipe (ftable s f)) addr n s
      else if f_type (ftable s f) = FD_MEMO then bindo (memowrite c addr n s) (\<lambda>(_, s). Ok (Done n, s))
      else if f_type (ftable s f) = FD_INODE then
        (case f_ip (ftable s f) of
           None \<Rightarrow> Panic ''ilock''
         | Some ip \<Rightarrow>
             bindo (filewrite_loop dw c f ip addr (nat n) 0 s) (\<lambda>(ok, s).
               Ok (Done (if ok \<and> n \<ge> 0 then n else -1), s)))
      else Panic ''filewrite'')"

section \<open>A pipe is a bounded first-in first-out queue\<close>

definition pipe_used :: "pipe \<Rightarrow> nat" where
  "pipe_used x = ring_used (p_nread x) (p_nwrite x)"

definition pipe_wf :: "pipe \<Rightarrow> bool" where
  "pipe_wf x \<longleftrightarrow> length (p_data x) = PIPESIZE \<and> pipe_used x \<le> PIPESIZE"

definition pipe_abs :: "pipe \<Rightarrow> u8 list" where
  "pipe_abs x = ring_list PIPESIZE (p_data x) (p_nread x) (p_nwrite x)"

lemma pipe_cap: "ring_cap PIPESIZE"
  by (simp add: ring_cap_def)

lemma length_pipe_abs [simp]: "length (pipe_abs x) = pipe_used x"
  by (simp add: pipe_abs_def pipe_used_def)

lemma pipe_full_iff: "pipe_full x \<longleftrightarrow> pipe_used x = 512"
  unfolding pipe_full_def pipe_used_def by (rule ring_full_iff [OF pipe_cap])

lemma pipe_empty_iff: "p_nread x = p_nwrite x \<longleftrightarrow> pipe_abs x = []"
  unfolding pipe_abs_def by (rule ring_empty_iff)

lemma pipe_used_put: "pipe_used x < 512 \<Longrightarrow> pipe_used (pipe_put b x) = Suc (pipe_used x)"
  using ring_used_put [OF pipe_cap] by (simp add: pipe_used_def pipe_put_def)

lemma pipe_put_abs:
  assumes "pipe_wf x" "pipe_used x < 512"
  shows "pipe_wf (pipe_put b x) \<and> pipe_abs (pipe_put b x) = pipe_abs x @ [b]"
  using assms ring_put [OF pipe_cap, of "p_data x"] pipe_used_put [OF assms(2)]
  by (simp add: pipe_wf_def pipe_abs_def pipe_used_def) (simp add: pipe_put_def)

lemma pipe_get_abs:
  assumes "pipe_wf x" "pipe_abs x \<noteq> []"
  shows "pipe_wf (snd (pipe_get x)) \<and> pipe_abs x = fst (pipe_get x) # pipe_abs (snd (pipe_get x))"
proof -
  have ne: "p_nread x \<noteq> p_nwrite x" using assms(2) by (simp add: pipe_empty_iff)
  then have "ring_used (p_nread x) (p_nwrite x) \<noteq> 0" by (auto simp: ring_used_def unat_eq_0)
  then show ?thesis using assms(1) ring_get [OF pipe_cap ne, of "p_data x"] ring_used_get
    by (auto simp: pipe_wf_def pipe_abs_def pipe_used_def pipe_get_def)
qed

interpretation pipe_fifo: bounded_fifo pipe_wf pipe_abs PIPESIZE pipe_put pipe_get
proof
  show "length (pipe_abs x) < PIPESIZE \<Longrightarrow> pipe_wf (pipe_put e x) \<and> pipe_abs (pipe_put e x) = pipe_abs x @ [e]"
    if "pipe_wf x" for e x using pipe_put_abs [OF that] by simp
  show "length (pipe_abs x) \<le> PIPESIZE" if "pipe_wf x" for x using that by (simp add: pipe_wf_def)
qed (rule pipe_get_abs)

section \<open>Writing to and reading from a pipe\<close>

lemma upd_pipe_simps [simp]:
  "pipes (upd_pipe p f s) = (pipes s)(p := f (pipes s p))" "pt (upd_pipe p f s) = pt s"
  "kvm (upd_pipe p f s) = kvm s" "upd_pipe p f (upd_pipe p g s) = upd_pipe p (\<lambda>x. f (g x)) s"
  by (simp_all add: upd_pipe_def)

lemma upd_pipe_id: "f (pipes s p) = pipes s p \<Longrightarrow> upd_pipe p f s = s"
  by (simp add: upd_pipe_def)

lemma pipe_put_simps [simp]: "p_readopen (pipe_put b x) = p_readopen x" "p_writeopen (pipe_put b x) = p_writeopen x"
  by (simp_all add: pipe_put_def)

lemma pipe_puts_simps [simp]:
  "p_readopen (fold pipe_put bs x) = p_readopen x" "p_writeopen (fold pipe_put bs x) = p_writeopen x"
  by (induction bs arbitrary: x) auto

definition pipe_room :: "pipe \<Rightarrow> nat" where
  "pipe_room x = PIPESIZE - pipe_used x"

text \<open>How the write ends, once as many bytes as there is room for are in the buffer.\<close>

definition pipewrite_end :: "nat \<Rightarrow> u32 \<Rightarrow> int \<Rightarrow> nat \<Rightarrow> nat \<Rightarrow> nat \<Rightarrow> kernel \<Rightarrow> (progress \<times> kernel) outcome" where
  "pipewrite_end c p n k room i s = with_cur c (\<lambda>me x s.
     if k \<le> room then bindo (on_pt (wakeup (ChPipeRead p)) s) (\<lambda>s. Ok (Done n, s))
     else if \<not> p_readopen (pipes s p) \<or> p_killed x then Ok (Done (-1), s)
     else bindo (on_pt (wakeup (ChPipeRead p)) s) (\<lambda>s.
          bindo (on_pt (sleep c (ChPipeWrite p) p) s) (\<lambda>s. Ok (Blocked (i + room), s)))) s"

lemma pipewrite_loop_eq:
  assumes "pipe_wf (pipes s p)" "myproc c (pt s) = Some me"
    "ubuf (mem (kvm s)) (p_pgdir (procs (pt s) me)) (addr + of_nat i) k"
  shows "pipewrite_loop c p addr n k i s =
    pipewrite_end c p n k (pipe_room (pipes s p)) i
      (upd_pipe p (fold pipe_put (take (pipe_room (pipes s p)) (ubytes (mem (kvm s)) (p_pgdir (procs (pt s) me)) (addr + of_nat i) k))) s)"
  using assms
proof (induction k arbitrary: i s)
  case 0
  then show ?case by (simp add: pipewrite_end_def with_cur_def upd_pipe_id ubytes_def)
next
  case (Suc k)
  let ?pd = "p_pgdir (procs (pt s) me)"
  show ?case
  proof (cases "pipe_full (pipes s p)")
    case True
    then have "pipe_room (pipes s p) = 0" by (simp add: pipe_full_iff pipe_room_def)
    then show ?thesis using True Suc.prems(2) by (simp add: pipewrite_end_def with_cur_def upd_pipe_id)
  next
    case False
    then have r: "pipe_used (pipes s p) < 512" using Suc.prems(1) by (auto simp: pipe_full_iff pipe_wf_def)
    let ?b = "mem (kvm s) (upa (mem (kvm s)) ?pd (addr + of_nat i))"
    let ?s = "upd_pipe p (pipe_put ?b) s"
    have a: "addr + of_nat i + 1 = addr + of_nat (Suc i)" by (simp add: ac_simps)
    have u: "upresent (mem (kvm s)) ?pd (addr + of_nat i)" "ubuf (mem (kvm s)) ?pd (addr + of_nat (Suc i)) k"
      using Suc.prems(3) unfolding ubuf_Suc a by blast+
    have st: "pipewrite_loop c p addr n (Suc k) i s = pipewrite_loop c p addr n k (Suc i) ?s"
      using False u(1) Suc.prems(2) by (simp add: with_cur_def uload8_def translate_ok)
    have rm: "pipe_room (pipes s p) = Suc (pipe_room (pipes ?s p))"
      using r pipe_used_put [OF r] by (simp add: pipe_room_def)
    have "pipe_wf (pipes ?s p)" using pipe_put_abs [OF Suc.prems(1) r] by simp
    from Suc.IH [OF this, of "Suc i"] show ?thesis unfolding st rm ubytes_Suc a using u(2) Suc.prems(2)
      by (simp add: pipewrite_end_def with_cur_def del: of_nat_Suc)
  qed
qed

lemma pipe_puts_abs:
  assumes "pipe_wf x"
  shows "pipe_wf (fold pipe_put (take (pipe_room x) bs) x) \<and>
    pipe_abs (fold pipe_put (take (pipe_room x) bs) x) = pipe_abs x @ take (pipe_room x) bs"
  by (rule pipe_fifo.put_many [OF assms]) (use assms in \<open>auto simp: pipe_room_def pipe_wf_def\<close>)

text \<open>wakeup touches neither a running process nor the fields the pipe code reads.\<close>

lemma wakeup_ok:
  assumes "sched_inv t"
  shows "\<exists>t'. wakeup ch t = Ok t' \<and> sched_inv t' \<and> cpus t' = cpus t \<and>
    (\<forall>x. p_state (procs t' x) = (if p_state (procs t x) = SLEEPING \<and> p_chan (procs t x) = Some ch \<and> x < NPROC
       then RUNNABLE else p_state (procs t x)))"
  using wakeup1_correct [OF assms, of "Some ch"]
  by (fastforce simp: wakeup_def woken_state_def sleepers_def)

text \<open>C23: \<^verbatim>\<open>pipewrite\<close> never faults on a mapped buffer. It appends to the pipe, in order, as many of the
  caller's bytes as there is room for, and leaves memory alone. If all fit it returns their number;
  otherwise it returns -1 when no reader is left or the caller was killed, and else wakes the
  readers and sleeps on the write channel, with the rest still to write. The counters
  are 32-bit and wrap: nothing is assumed of their values.\<close>

theorem pipewrite_fifo:
  assumes wf: "pipe_wf (pipes s p)" and inv: "sched_inv (pt s)" and me: "myproc c (pt s) = Some me"
    and p: "p \<noteq> 0" and n: "0 \<le> n"
    and buf: "ubuf (mem (kvm s)) (p_pgdir (procs (pt s) me)) addr (nat n)"
  defines "bs \<equiv> ubytes (mem (kvm s)) (p_pgdir (procs (pt s) me)) addr (nat n)"
    and "room \<equiv> pipe_room (pipes s p)"
  shows "\<exists>r s'. pipewrite c p addr n s = Ok (r, s') \<and> pipe_wf (pipes s' p) \<and>
    pipe_abs (pipes s' p) = pipe_abs (pipes s p) @ take room bs \<and> sched_inv (pt s') \<and> kvm s' = kvm s \<and>
    r = (if nat n \<le> room then Done n
         else if \<not> p_readopen (pipes s p) \<or> p_killed (procs (pt s) me) then Done (-1) else Blocked room) \<and>
    (\<forall>x < NPROC. x \<noteq> me \<and> p_state (procs (pt s) x) = SLEEPING \<and> p_chan (procs (pt s) x) = Some (ChPipeRead p) \<and>
       r \<noteq> Done (-1) \<longrightarrow> p_state (procs (pt s') x) = RUNNABLE) \<and>
    (r = Blocked room \<longrightarrow> p_state (procs (pt s') me) = SLEEPING \<and> p_chan (procs (pt s') me) = Some (ChPipeWrite p))"
proof -
  let ?s = "upd_pipe p (fold pipe_put (take room bs)) s"
  have e: "pipewrite c p addr n s = pipewrite_end c p n (nat n) room 0 ?s"
    using pipewrite_loop_eq [OF wf me, of addr 0 "nat n" n] buf by (simp add: pipewrite_def bs_def room_def)
  note ab = pipe_puts_abs [OF wf, of bs, folded room_def]
  obtain t where t: "wakeup (ChPipeRead p) (pt s) = Ok t" "sched_inv t" "cpus t = cpus (pt s)"
      "\<forall>x. p_state (procs t x) = (if p_state (procs (pt s) x) = SLEEPING \<and> p_chan (procs (pt s) x) = Some (ChPipeRead p) \<and> x < NPROC
       then RUNNABLE else p_state (procs (pt s) x))"
    using wakeup_ok [OF inv] by blast
  have me': "myproc c t = Some me" using me t(3) by (simp add: myproc_def)
  obtain t' where t': "sleep c (ChPipeWrite p) p t = Ok t'" "sched_inv t'"
      "\<forall>x. p_state (procs t' x) = (if x = me then SLEEPING else p_state (procs t x))"
      "p_chan (procs t' me) = Some (ChPipeWrite p)"
    using sleep_correct [OF t(2) me' p, of "ChPipeWrite p"] by blast
  consider "nat n \<le> room" | "\<not> nat n \<le> room" "\<not> p_readopen (pipes s p) \<or> p_killed (procs (pt s) me)"
    | "\<not> nat n \<le> room" "p_readopen (pipes s p)" "\<not> p_killed (procs (pt s) me)" by blast
  then show ?thesis
  proof cases
    case 1
    then have "pipewrite c p addr n s = Ok (Done n, ?s\<lparr>pt := t\<rparr>)"
      unfolding e using me t(1) by (simp add: pipewrite_end_def with_cur_def on_pt_def)
    then show ?thesis using 1 ab t n by (auto simp: myproc_def)
  next
    case 2
    then have "pipewrite c p addr n s = Ok (Done (-1), ?s)"
      unfolding e using me by (simp add: pipewrite_end_def with_cur_def)
    then show ?thesis using 2 ab inv by auto
  next
    case 3
    then have "pipewrite c p addr n s = Ok (Blocked room, ?s\<lparr>pt := t'\<rparr>)"
      unfolding e using me t(1) t'(1) by (simp add: pipewrite_end_def with_cur_def on_pt_def)
    then show ?thesis using 3 ab t t' by auto
  qed
qed

abbreviation (input) pipe_gets :: "nat \<Rightarrow> pipe \<Rightarrow> pipe" where
  "pipe_gets j \<equiv> (\<lambda>y. snd (pipe_get y)) ^^ j"

definition piperead_end :: "u32 \<Rightarrow> nat \<Rightarrow> kernel \<Rightarrow> (progress \<times> kernel) outcome" where
  "piperead_end p j s = bindo (on_pt (wakeup (ChPipeWrite p)) s) (\<lambda>s. Ok (Done (int j), s))"

lemma kvm_pipes: "s\<lparr>pipes := a, kvm := b\<rparr> = s\<lparr>kvm := b, pipes := a\<rparr>" for s :: kernel
  by simp

lemma on_vm_upd_pipe: "bindo (on_vm f (upd_pipe p g s)) h = bindo (f (kvm s)) (\<lambda>v. h (upd_pipe p g (s\<lparr>kvm := v\<rparr>)))"
  by (cases "f (kvm s)") (simp_all add: on_vm_def upd_pipe_def kvm_pipes)

lemma on_vm_bind: "bindo (on_vm f s) h = bindo (f (kvm s)) (\<lambda>v. h (s\<lparr>kvm := v\<rparr>))"
  by (cases "f (kvm s)") (simp_all add: on_vm_def)

lemma piperead_loop_eq:
  assumes "pipe_wf (pipes s p)" "myproc c (pt s) = Some me"
  shows "piperead_loop c p addr k i s =
    bindo (uwrite (p_pgdir (procs (pt s) me)) (addr + of_nat i) (take k (pipe_abs (pipes s p))) (kvm s)) (\<lambda>v.
      piperead_end p (i + min k (pipe_used (pipes s p)))
        (upd_pipe p (pipe_gets (min k (pipe_used (pipes s p)))) (s\<lparr>kvm := v\<rparr>)))"
  using assms
proof (induction k arbitrary: i s)
  case 0
  then show ?case by (simp add: piperead_end_def upd_pipe_id)
next
  case (Suc k)
  let ?pd = "p_pgdir (procs (pt s) me)"
  show ?case
  proof (cases "pipe_abs (pipes s p) = []")
    case True
    then have "pipe_used (pipes s p) = 0" using length_pipe_abs [of "pipes s p"] by simp
    then show ?thesis using True Suc.prems(2)
      by (simp add: with_cur_def pipe_empty_iff piperead_end_def upd_pipe_id)
  next
    case False
    let ?q = "pipe_get (pipes s p)"
    have g: "pipe_wf (snd ?q)" "pipe_abs (pipes s p) = fst ?q # pipe_abs (snd ?q)"
      using pipe_get_abs [OF Suc.prems(1) False] by auto
    have u: "pipe_used (pipes s p) = Suc (pipe_used (snd ?q))"
      using arg_cong [OF g(2), of length] by simp
    have a: "addr + of_nat i + 1 = addr + of_nat (Suc i)" by (simp add: ac_simps)
    have it: "pipe_gets (Suc j) x = pipe_gets j (snd (pipe_get x))" for j x
      by (simp add: funpow_Suc_right del: funpow.simps)
    have "piperead_loop c p addr (Suc k) i s =
        bindo (ustore8 ?pd (addr + of_nat i) (fst ?q) (kvm s)) (\<lambda>v.
          piperead_loop c p addr k (Suc i) (upd_pipe p (\<lambda>_. snd ?q) (s\<lparr>kvm := v\<rparr>)))"
      using False Suc.prems(2)
      by (simp add: with_cur_def pipe_empty_iff case_prod_unfold Let_def on_vm_upd_pipe)
    also have "\<dots> = bindo (ustore8 ?pd (addr + of_nat i) (fst ?q) (kvm s)) (\<lambda>v.
        bindo (uwrite ?pd (addr + of_nat (Suc i)) (take k (pipe_abs (snd ?q))) v) (\<lambda>v.
          piperead_end p (Suc i + min k (pipe_used (snd ?q)))
            (upd_pipe p (\<lambda>x. pipe_gets (min k (pipe_used (snd ?q))) (snd ?q)) (s\<lparr>kvm := v\<rparr>))))"
      using Suc.IH [of "upd_pipe p (\<lambda>_. snd ?q) (s\<lparr>kvm := _\<rparr>)" "Suc i"] g(1) Suc.prems(2)
      by (simp del: of_nat_Suc add: upd_pipe_def)
    finally show ?thesis
      by (simp add: g(2) u a it bindo_assoc upd_pipe_def del: of_nat_Suc funpow.simps)
  qed
qed

text \<open>C24: \<^verbatim>\<open>piperead\<close>, when there is data or no writer is left, never faults on a mapped buffer. It
  takes the first bytes off the pipe, as many as asked for or all there are, stores them in order in
  the caller's buffer and nowhere else, returns their number and makes every writer that
  sleeps on the pipe runnable.\<close>

theorem piperead_fifo:
  assumes wf: "pipe_wf (pipes s p)" and inv: "sched_inv (pt s)" and me: "myproc c (pt s) = Some me"
    and p: "p \<noteq> 0" and n: "0 \<le> n"
    and data: "pipe_abs (pipes s p) \<noteq> [] \<or> \<not> p_writeopen (pipes s p)"
    and buf: "ubuf (mem (kvm s)) (p_pgdir (procs (pt s) me)) addr (nat n)"
  defines "bs \<equiv> take (nat n) (pipe_abs (pipes s p))"
  shows "\<exists>s' m'. piperead c p addr n s = Ok (Done (int (length bs)), s') \<and> pipe_wf (pipes s' p) \<and>
    pipe_abs (pipes s p) = bs @ pipe_abs (pipes s' p) \<and> sched_inv (pt s') \<and>
    kvm s' = (kvm s)\<lparr>mem := m'\<rparr> \<and> upoked (p_pgdir (procs (pt s) me)) addr bs (mem (kvm s)) m' \<and>
    (\<forall>x < NPROC. p_state (procs (pt s) x) = SLEEPING \<and> p_chan (procs (pt s) x) = Some (ChPipeWrite p)
       \<longrightarrow> p_state (procs (pt s') x) = RUNNABLE)"
proof -
  let ?pd = "p_pgdir (procs (pt s) me)" let ?j = "min (nat n) (pipe_used (pipes s p))"
  have l: "length bs = ?j" by (simp add: bs_def min.commute)
  have "ubuf (mem (kvm s)) ?pd addr (length bs)" using buf l by (auto simp: ubuf_def)
  from uwrite_ok [OF this] obtain m' where
    m': "uwrite ?pd addr bs (kvm s) = Ok ((kvm s)\<lparr>mem := m'\<rparr>)" "upoked ?pd addr bs (mem (kvm s)) m'" by blast
  obtain t where t: "wakeup (ChPipeWrite p) (pt s) = Ok t" "sched_inv t"
      "\<forall>x. p_state (procs t x) = (if p_state (procs (pt s) x) = SLEEPING \<and> p_chan (procs (pt s) x) = Some (ChPipeWrite p) \<and> x < NPROC
       then RUNNABLE else p_state (procs (pt s) x))"
    using wakeup_ok [OF inv] by blast
  let ?s = "(upd_pipe p (pipe_gets ?j) (s\<lparr>kvm := (kvm s)\<lparr>mem := m'\<rparr>\<rparr>))\<lparr>pt := t\<rparr>"
  have "piperead c p addr n s = piperead_loop c p addr (nat n) 0 s"
    using data me by (auto simp: piperead_def with_cur_def pipe_empty_iff)
  also have "\<dots> = Ok (Done (int (length bs)), ?s)"
    using piperead_loop_eq [OF wf me, of addr "nat n" 0] m'(1) t(1)
    by (simp add: piperead_end_def on_pt_def bs_def [symmetric] l upd_pipe_def)
  finally have r: "piperead c p addr n s = Ok (Done (int (length bs)), ?s)" .
  have "pipe_wf (pipe_gets ?j (pipes s p)) \<and> pipe_abs (pipe_gets ?j (pipes s p)) = drop ?j (pipe_abs (pipes s p))"
    by (rule pipe_fifo.get_many [OF wf]) simp
  moreover have "pipe_abs (pipes s p) = bs @ drop ?j (pipe_abs (pipes s p))"
    unfolding bs_def by (simp add: min_def)
  ultimately show ?thesis using r t m'
    by - (rule exI [of _ ?s], rule exI [of _ m'], simp)
qed

lemma demo_pipe: "pipe_wf (pipes demo_kernel p)" "pipe_abs (pipes demo_kernel p) = []"
  "pipe_room (pipes demo_kernel p) = 512"
  by (simp_all add: pipe_wf_def pipe_abs_def pipe_used_def pipe_room_def ring_list_def ring_used_def)

theorem pipewrite_fifo_witness:
  "\<exists>s'. pipewrite 0 0x80400000 0 600 demo_kernel = Ok (Blocked 512, s') \<and>
     pipe_abs (pipes s' 0x80400000) = take 512 (ubytes demo_mem 0x80200000 0 600) \<and>
     p_state (procs (pt s') 0) = SLEEPING"
  using pipewrite_fifo [of demo_kernel "0x80400000" 0 0 600 0] demo_pt_inv demo_pipe demo_ubuf [of 600] by fastforce

theorem piperead_fifo_witness:
  "\<exists>s'. piperead 0 0x80400000 0 5 (upd_pipe 0x80400000 (pipe_put 7) demo_kernel) = Ok (Done 1, s') \<and>
     pipe_abs (pipes s' 0x80400000) = []"
proof -
  let ?p = "0x80400000" let ?s = "upd_pipe ?p (pipe_put 7) demo_kernel"
  have a: "pipe_wf (pipes ?s ?p)" "pipe_abs (pipes ?s ?p) = [7]"
    using pipe_put_abs [of "pipes demo_kernel ?p" 7] demo_pipe [of ?p] length_pipe_abs [of "pipes demo_kernel ?p"]
    by (simp_all del: demo_kernel_simps length_pipe_abs)
  then show ?thesis using piperead_fifo [of ?s ?p 0 0 5 0] demo_pt_inv demo_ubuf [of 5] by auto
qed

end
