(* ===== verification/Device.thy ===== *)
theory Device
  imports File
begin

text \<open>
  The console as a device: the operations of \<^verbatim>\<open>console.c\<close> that touch processes and inodes, and the
  device table \<^verbatim>\<open>devsw\<close>, whose only entries \<^verbatim>\<open>consoleinit\<close> installs.
\<close>

definition on_con :: "(console \<Rightarrow> console outcome) \<Rightarrow> kernel \<Rightarrow> kernel outcome" where
  "on_con f s = bindo (f (con s)) (\<lambda>t. Ok (s\<lparr>con := t\<rparr>))"

definition consflag :: "nat \<Rightarrow> kernel \<Rightarrow> u8" where
  "consflag c s = c_consflag (cpus (pt s) c)"

section \<open>Interrupts and reading\<close>

text \<open>\<^verbatim>\<open>consoleintr\<close> on the characters \<^verbatim>\<open>getc\<close> returns before its first negative result.\<close>

fun consoleintr :: "nat \<Rightarrow> nat list \<Rightarrow> kernel \<Rightarrow> kernel outcome" where
  "consoleintr c [] s = Ok s"
| "consoleintr c (ch # chs) s =
     bindo (input_char (consflag c s) ch (con s)) (\<lambda>(w, t).
       bindo (if w then on_pt (wakeup ChInput) (s\<lparr>con := t\<rparr>) else Ok (s\<lparr>con := t\<rparr>)) (\<lambda>s.
         consoleintr c chs s))"

text \<open>The loop of \<^verbatim>\<open>consoleread\<close>: \<open>n\<close> bytes are still wanted, \<open>got\<close> have been stored.\<close>

fun consoleread_loop :: "nat \<Rightarrow> nat \<Rightarrow> u8 list \<Rightarrow> kernel \<Rightarrow> ((progress \<times> u8 list) \<times> kernel) outcome" where
  "consoleread_loop c 0 got s = Ok ((Done (int (length got)), got), s)"
| "consoleread_loop c (Suc n) got s =
     (let t = con s in
      if in_r t = in_w t then
        with_cur c (\<lambda>me x s.
          if p_killed x then Ok ((Done (-1), got), s)
          else bindo (on_pt (sleep c ChInput 1) s) (\<lambda>s. Ok ((Blocked (length got), got), s))) s
      else let b = in_buf t ! unat (in_r t mod of_nat INPUT_BUF);
               s' = s\<lparr>con := t\<lparr>in_r := in_r t + 1\<rparr>\<rparr> in
        if b = 4 then Ok ((Done (int (length got)), got), if got \<noteq> [] then s else s')
        else if b = 10 then Ok ((Done (int (length got) + 1), got @ [b]), s')
        else consoleread_loop c n (got @ [b]) s')"

definition consoleread :: "nat \<Rightarrow> nat \<Rightarrow> int \<Rightarrow> kernel \<Rightarrow> ((progress \<times> u8 list) \<times> kernel) outcome" where
  "consoleread c ip n s =
     bindo (iunlock ip s) (\<lambda>s.
     bindo (consoleread_loop c (nat n) [] s) (\<lambda>(r, s).
       case fst r of
         Blocked _ \<Rightarrow> Ok (r, s)
       | _ \<Rightarrow> bindo (ilock ip s) (\<lambda>s. Ok (r, s))))"

definition consolewrite :: "nat \<Rightarrow> nat \<Rightarrow> u8 list \<Rightarrow> kernel \<Rightarrow> (int \<times> kernel) outcome" where
  "consolewrite c ip buf s =
     bindo (iunlock ip s) (\<lambda>s.
     bindo (on_con (consputs (consflag c s) buf) s) (\<lambda>s.
     bindo (ilock ip s) (\<lambda>s. Ok (int (length buf), s))))"

text \<open>The table, for code that runs on CPU \<open>c\<close>; a reader that goes to sleep waits.\<close>

definition devsw_read :: "nat \<Rightarrow> kernel devread" where
  "devsw_read c major =
     (if major = 1 then
        Some (\<lambda>ip n s. bindo (consoleread c ip n s) (\<lambda>((r, xs), s).
          case r of Done k \<Rightarrow> Ok (k, xs, s) | _ \<Rightarrow> Wait))
      else None)"

definition devsw_write :: "nat \<Rightarrow> kernel devwrite" where
  "devsw_write c major = (if major = 1 then Some (consolewrite c) else None)"

section \<open>Windows\<close>

definition show_title :: "nat \<Rightarrow> kernel \<Rightarrow> kernel outcome" where
  "show_title c s = with_cur c (\<lambda>me x s.
     Ok (s\<lparr>con := title (p_priority x) (p_sz x) (c_apicid (cpus (pt s) c)) (con s)\<rparr>)) s"

text \<open>The number of the window is the user's; beyond the array the access has no meaning.\<close>

definition splitw :: "nat \<Rightarrow> int \<Rightarrow> kernel \<Rightarrow> kernel outcome" where
  "splitw c n s =
     (let s = s\<lparr>con := (con s)\<lparr>cgaflag := True\<rparr>\<rparr> in
      if n = -1 then
        (case List.find (\<lambda>i. \<not> crtflags (con s) i) [0..<MAXWINDOWS] of
           None \<Rightarrow> Ok s
         | Some i \<Rightarrow> with_cur c (\<lambda>me x s.
             show_title c ((upd_cur me (\<lambda>x. x\<lparr>p_widx := int i\<rparr>) s)\<lparr>con := new_window i (con s)\<rparr>)) s)
      else if n \<ge> 0 then
        (if nat n \<ge> MAXWINDOWS then UB
         else if crtflags (con s) (nat n) then show_title c (s\<lparr>con := switch_window (nat n) (con s)\<rparr>)
         else Ok s)
      else Ok s)"

definition consoleinit :: "kernel \<Rightarrow> kernel" where
  "consoleinit s = s\<lparr>con := (con s)\<lparr>crtflags := (crtflags (con s))(0 := True)\<rparr>\<rparr>"

section \<open>Lemmas\<close>

text \<open>Switching away from a window and back shows the same text and the same cursor.\<close>

definition text_rows :: "console \<Rightarrow> u16 list" where
  "text_rows t = map (crt t) [0..<23 * 80]"

lemma switch_window_simps:
  "curidx (switch_window n t) = n" "crtflags (switch_window n t) = crtflags t"
  "n \<noteq> curidx t \<Longrightarrow> i < 23 * 80 \<Longrightarrow> crt (switch_window n t) i = crtbufs t n i"
  "n \<noteq> curidx t \<Longrightarrow> cursor (switch_window n t) = poss t n"
  "i < 23 * 80 \<Longrightarrow> crtbufs (switch_window n t) (curidx t) i = crt t i"
  "poss (switch_window n t) (curidx t) = cursor t"
  by (simp_all add: switch_window_def save_window_def Let_def crtcpy_def)

lemma title_simps [simp]:
  "curidx (title p z a t) = curidx t" "crtflags (title p z a t) = crtflags t" "crtbufs (title p z a t) = crtbufs t"
  "poss (title p z a t) = poss t" "cursor (title p z a t) = cursor t" "in_buf (title p z a t) = in_buf t"
  by (simp_all add: title_def Let_def)

lemma title_text: "i < 23 * 80 \<Longrightarrow> crt (title p z a t) i = crt t i"
  by (simp add: title_def Let_def show_at_def)

lemma splitw_switch:
  assumes "myproc c (pt s) = Some me" "n < MAXWINDOWS" "crtflags (con s) n"
  shows "\<exists>p z a. splitw c (int n) s = Ok (s\<lparr>con := title p z a (switch_window n ((con s)\<lparr>cgaflag := True\<rparr>))\<rparr>)"
  using assms by (auto simp: splitw_def show_title_def with_cur_def Let_def)

text \<open>Leaving a window with \<^verbatim>\<open>splitw\<close> and coming back to it restores its 23 rows of text and its
  cursor.\<close>

theorem splitw_roundtrip:
  assumes me: "myproc c (pt s) = Some me" and n: "n < MAXWINDOWS" "crtflags (con s) n" "n \<noteq> curidx (con s)"
    and k: "curidx (con s) < MAXWINDOWS" "crtflags (con s) (curidx (con s))"
  shows "\<exists>s1 s2. splitw c (int n) s = Ok s1 \<and> splitw c (int (curidx (con s))) s1 = Ok s2 \<and> curidx (con s1) = n \<and>
    curidx (con s2) = curidx (con s) \<and> text_rows (con s2) = text_rows (con s) \<and> cursor (con s2) = cursor (con s)"
proof -
  let ?t = "(con s)\<lparr>cgaflag := True\<rparr>"
  obtain p z a where a: "splitw c (int n) s = Ok (s\<lparr>con := title p z a (switch_window n ?t)\<rparr>)" (is "_ = Ok ?s1")
    using splitw_switch [OF me n(1,2)] by blast
  have c1: "crtflags (con ?s1) (curidx (con s))" "myproc c (pt ?s1) = Some me"
    using k me by (simp_all add: switch_window_simps)
  let ?t1 = "(con ?s1)\<lparr>cgaflag := True\<rparr>"
  obtain p' z' a' where b: "splitw c (int (curidx (con s))) ?s1 = Ok (?s1\<lparr>con := title p' z' a' (switch_window (curidx (con s)) ?t1)\<rparr>)"
    using splitw_switch [OF c1(2) k(1) c1(1)] by blast
  have "curidx ?t1 = n" by (simp add: switch_window_simps)
  then have r: "crt (switch_window (curidx (con s)) ?t1) i = crt (con s) i" if "i < 23 * 80" for i
    using that n(3) switch_window_simps(5) [OF that, of n ?t] by (simp add: switch_window_simps)
  have "cursor (switch_window (curidx (con s)) ?t1) = cursor (con s)"
    using n(3) switch_window_simps(6) [of n ?t] by (simp add: switch_window_simps)
  then show ?thesis using a b r
    by (auto simp: text_rows_def title_text switch_window_simps intro!: exI)
qed

text \<open>What \<^verbatim>\<open>consoleread\<close> takes from the characters that are ready.\<close>

fun take_line :: "nat \<Rightarrow> u8 list \<Rightarrow> u8 list" where
  "take_line 0 xs = []"
| "take_line (Suc n) [] = []"
| "take_line (Suc n) (x # xs) = (if x = 4 then [] else if x = 10 then [x] else x # take_line n xs)"

definition line_ready :: "nat \<Rightarrow> u8 list \<Rightarrow> bool" where
  "line_ready n xs \<longleftrightarrow> n \<le> length xs \<or> 10 \<in> set (take n xs) \<or> 4 \<in> set (take n xs)"

definition in_next :: "console \<Rightarrow> u8" where
  "in_next t = in_buf t ! unat (in_r t mod of_nat INPUT_BUF)"

lemma read_char:
  assumes wf: "in_wf t" and ne: "in_ready t \<noteq> []"
  defines "t' \<equiv> t\<lparr>in_r := in_r t + 1\<rparr>"
  shows "in_r t \<noteq> in_w t" "in_wf t'" "in_ready t = in_next t # in_ready t'"
proof -
  show n: "in_r t \<noteq> in_w t" using ne ring_empty_iff [of "in_r t" "in_w t" INPUT_BUF "in_buf t"] by (simp add: in_ready_def)
  have "ring_used (in_r t) (in_w t) \<noteq> 0" using n by (auto simp: ring_used_def unat_eq_0)
  then show "in_wf t'" using wf ring_used_get [of "in_r t"] by (auto simp: in_wf_def t'_def)
  show "in_ready t = in_next t # in_ready t'"
    using ring_get [OF input_cap n] by (simp add: in_ready_def in_next_def t'_def)
qed

lemma consoleread_line_gen:
  assumes "in_wf (con s)" "line_ready n (in_ready (con s))" "n = 0 \<longrightarrow> got \<noteq> []"
  defines "L \<equiv> take_line n (in_ready (con s))"
  shows "\<exists>s'. consoleread_loop c n got s = Ok ((Done (int (length (got @ L))), got @ L), s') \<and> in_wf (con s') \<and> pt s' = pt s \<and>
    in_ready (con s) = L @ (if got @ L = [] then [4] else []) @ in_ready (con s')"
  using assms(1-3) unfolding L_def
proof (induction n arbitrary: s got)
  case (Suc n)
  let ?t = "con s" let ?s = "s\<lparr>con := ?t\<lparr>in_r := in_r ?t + 1\<rparr>\<rparr>"
  have ne: "in_ready ?t \<noteq> []" using Suc.prems(2) by (auto simp: line_ready_def simp del: length_in)
  note r = read_char [OF Suc.prems(1) ne]
  show ?case
  proof (cases "in_next ?t = 4 \<or> in_next ?t = 10")
    case True
    then show ?thesis using r Suc.prems(1) by (auto simp: in_next_def Let_def)
  next
    case False
    have w: "in_wf (con ?s)" "line_ready n (in_ready (con ?s))"
      using r Suc.prems(2) False by (auto simp: line_ready_def)
    have "consoleread_loop c (Suc n) got s = consoleread_loop c n (got @ [in_next ?t]) ?s"
      using r(1) False by (simp add: in_next_def Let_def)
    then show ?thesis using Suc.IH [OF w, of "got @ [in_next ?t]"] r(3) False by auto
  qed
qed auto

text \<open>C38: \<^verbatim>\<open>consoleread\<close>, when a whole line or enough characters are ready, never sleeps: it returns the
  characters up to and including the first newline, before the first control-D, or as many as
  asked for, in the order typed, and takes exactly these off the input; a control-D is only taken
  when it ends an empty read.\<close>

theorem consoleread_line:
  assumes "in_wf (con s)" "0 < n" "line_ready n (in_ready (con s))"
  shows "\<exists>s'. consoleread_loop c n [] s =
      Ok ((Done (int (length (take_line n (in_ready (con s))))), take_line n (in_ready (con s))), s') \<and>
    in_wf (con s') \<and> pt s' = pt s \<and>
    in_ready (con s) = take_line n (in_ready (con s)) @
      (if take_line n (in_ready (con s)) = [] then [4] else []) @ in_ready (con s')"
  using consoleread_line_gen [of s n "[]" c] assms by simp

theorem consoleread_line_witness:
  "\<exists>s'. consoleread_loop 0 5 [] (demo_kernel\<lparr>con := demo_con\<lparr>in_buf := [104, 10] @ replicate 126 0, in_w := 2, in_e := 2\<rparr>\<rparr>) =
     Ok ((Done 2, [104, 10]), s')"
proof -
  let ?t = "demo_con\<lparr>in_buf := [104, 10] @ replicate 126 0, in_w := 2, in_e := 2\<rparr>"
  have "in_wf ?t" "in_ready ?t = [104, 10]"
    by (simp_all add: demo_con_def in_wf_def in_ready_def ring_used_def ring_list_def upt_conv_Cons)
  moreover have "take_line 5 [104, 10] = [104, 10]" "line_ready 5 [104, 10]" by code_simp+
  ultimately show ?thesis using consoleread_line [of "demo_kernel\<lparr>con := ?t\<rparr>" 5 0] by fastforce
qed

theorem splitw_roundtrip_witness:
  "\<exists>s1 s2. splitw 0 3 (demo_kernel\<lparr>con := demo_con\<lparr>crtflags := \<lambda>i. i = 0 \<or> i = 3\<rparr>\<rparr>) = Ok s1 \<and> splitw 0 0 s1 = Ok s2 \<and>
     curidx (con s1) = 3 \<and> curidx (con s2) = 0"
  using splitw_roundtrip [of 0 "demo_kernel\<lparr>con := demo_con\<lparr>crtflags := \<lambda>i. i = 0 \<or> i = 3\<rparr>\<rparr>" 0 3]
  by (auto simp: demo_con_def)

end
