(* ===== verification/Proc.thy ===== *)
theory Proc
  imports Device
begin

text \<open>
  Creating, ending and collecting processes: \<^verbatim>\<open>allocproc\<close>, \<^verbatim>\<open>userinit\<close>, \<^verbatim>\<open>fork\<close>, \<^verbatim>\<open>exit\<close>, \<^verbatim>\<open>wait\<close> and
  \<^verbatim>\<open>forkret\<close> of \<^verbatim>\<open>proc.c\<close> on the whole kernel state, over the parts of them that \<open>Sched\<close> has
  for the process table. The trap frame and the saved context at the top of a kernel stack are
  fields of the process; of the context only the instruction pointer is kept.
\<close>

section \<open>Creating processes\<close>

text \<open>\<^verbatim>\<open>safestrcpy\<close> into a field of the process: \<open>old\<close> is its present content. When the terminator was
  copied, the byte behind it is zeroed as well.\<close>

definition safestrcpy_field :: "u8 list \<Rightarrow> u8 list \<Rightarrow> u8 list" where
  "safestrcpy_field old src =
     (let k = take (length old - 1) (takeWhile (\<lambda>b. b \<noteq> 0) src) in
      if length k < length old - 1 then k @ [0, 0] @ drop (length k + 2) old else k @ [0])"

definition allocproc :: "kernel \<Rightarrow> nat option \<times> kernel" where
  "allocproc s =
     (let (po, t) = allocproc_slot (pt s); s = s\<lparr>pt := t\<rparr> in
      case po of
        None \<Rightarrow> (None, s)
      | Some p \<Rightarrow>
          let (k, v) = kalloc (kvm s); s = s\<lparr>kvm := v\<rparr>; s = upd_cur p (\<lambda>x. x\<lparr>p_kstack := k\<rparr>) s in
          if k = 0 then (None, upd_cur p (\<lambda>x. x\<lparr>p_state := UNUSED\<rparr>) s)
          else (Some p, s\<lparr>pt := allocproc_init p (upd_proc p (\<lambda>x. x\<lparr>p_eip := a_forkret s\<rparr>) (pt s))\<rparr>))"

definition zero_tf :: trapframe where
  "zero_tf = \<lparr>tf_edi = 0, tf_esi = 0, tf_ebp = 0, tf_oesp = 0, tf_ebx = 0, tf_edx = 0, tf_ecx = 0, tf_eax = 0,
     tf_gs = 0, tf_fs = 0, tf_es = 0, tf_ds = 0, tf_trapno = 0, tf_err = 0, tf_eip = 0, tf_cs = 0, tf_eflags = 0,
     tf_esp = 0, tf_ss = 0\<rparr>"

text \<open>The first process. \<open>a\<close> and \<open>n\<close> are the address and the size of the linked-in \<^verbatim>\<open>initcode\<close>.\<close>

definition userinit :: "nat \<Rightarrow> u32 \<Rightarrow> u32 \<Rightarrow> kernel \<Rightarrow> kernel outcome" where
  "userinit c a n s =
     (let (po, s) = allocproc s in
      case po of
        None \<Rightarrow> UB
      | Some p \<Rightarrow>
          let s = s\<lparr>pt := (pt s)\<lparr>initproc := Some p\<rparr>\<rparr> in
          bindo (on_vmr setupkvm s) (\<lambda>(pd, s).
          let s = upd_cur p (\<lambda>x. x\<lparr>p_pgdir := pd\<rparr>) s in
          if pd = 0 then Panic ''userinit: out of memory?''
          else bindo (on_vm (inituvm pd a n) s) (\<lambda>s.
            let s = upd_cur p (\<lambda>x. x\<lparr>p_sz := PGSIZE,
                  p_tf := zero_tf\<lparr>tf_cs := 0x1B, tf_ds := 0x23, tf_es := 0x23, tf_ss := 0x23, tf_eflags := 0x200,
                    tf_esp := PGSIZE, tf_eip := 0\<rparr>,
                  p_name := safestrcpy_field (p_name x) (asc ''initcode'')\<rparr>) s in
            bindo (namei (devsw_read c) None [47] s) (\<lambda>(ip, s).
              on_pt (make_runnable p) (upd_cur p (\<lambda>x. x\<lparr>p_cwd := ip\<rparr>) s)))))"

fun dup_files :: "nat \<Rightarrow> (nat \<Rightarrow> nat option) \<Rightarrow> nat list \<Rightarrow> kernel \<Rightarrow> kernel outcome" where
  "dup_files np ofile [] s = Ok s"
| "dup_files np ofile (i # is) s = (case ofile i of
     None \<Rightarrow> dup_files np ofile is s
   | Some f \<Rightarrow> bindo (filedup f s) (\<lambda>s.
       dup_files np ofile is (upd_cur np (\<lambda>x. x\<lparr>p_ofile := (p_ofile x)(i := Some f)\<rparr>) s)))"

text \<open>\<^verbatim>\<open>fork\<close>; its last loop starts at 1, so entry 0 of the child's \<^verbatim>\<open>sharedrec\<close> keeps what the slot had.\<close>

definition fork :: "nat \<Rightarrow> kernel \<Rightarrow> (int \<times> kernel) outcome" where
  "fork c s = with_cur c (\<lambda>cur x s.
     let (po, s) = allocproc s in
     case po of
       None \<Rightarrow> Ok (-1, s)
     | Some np \<Rightarrow>
         bindo (on_vmr (copyuvm (p_pgdir x) (p_sz x)) s) (\<lambda>(pd, s).
         let s = upd_cur np (\<lambda>y. y\<lparr>p_pgdir := pd\<rparr>) s in
         if pd = 0 then
           bindo (on_vm (kfree (p_kstack (procs (pt s) np))) s) (\<lambda>s.
             Ok (-1, upd_cur np (\<lambda>y. y\<lparr>p_kstack := 0, p_state := UNUSED\<rparr>) s))
         else
           let s = upd_cur np (\<lambda>y. y\<lparr>p_sz := p_sz x, p_parent := Some cur, p_tf := (p_tf x)\<lparr>tf_eax := 0\<rparr>\<rparr>) s in
           bindo (dup_files np (p_ofile x) [0..<NOFILE] s) (\<lambda>s.
           case p_cwd x of
             None \<Rightarrow> UB
           | Some d \<Rightarrow>
               let (d, s) = idup d s;
                   s = upd_cur np (\<lambda>y. y\<lparr>p_cwd := Some d, p_name := safestrcpy_field (p_name y) (p_name x)\<rparr>) s;
                   pid = p_pid (procs (pt s) np) in
               bindo (on_pt (make_runnable np) s) (\<lambda>s.
                 Ok (pid, upd_cur np (\<lambda>y. y\<lparr>p_sharedrec :=
                   (\<lambda>i. if 1 \<le> i \<and> i < MAXSHAREDPG then 0 else p_sharedrec y i)\<rparr>) s))))) s"

section \<open>Ending and collecting\<close>

fun close_files :: "nat \<Rightarrow> nat list \<Rightarrow> kernel \<Rightarrow> kernel outcome" where
  "close_files p [] s = Ok s"
| "close_files p (fd # fds) s = (case p_ofile (procs (pt s) p) fd of
     None \<Rightarrow> close_files p fds s
   | Some f \<Rightarrow> bindo (fileclose f s) (\<lambda>s.
       close_files p fds (upd_cur p (\<lambda>x. x\<lparr>p_ofile := (p_ofile x)(fd := None)\<rparr>) s)))"

definition exit :: "nat \<Rightarrow> kernel \<Rightarrow> kernel outcome" where
  "exit c s = with_cur c (\<lambda>cur x s.
     if initproc (pt s) = Some cur then Panic ''init exiting''
     else
       bindo (close_files cur [0..<NOFILE] s) (\<lambda>s.
       bindo (begin_op s) (\<lambda>s.
       case p_cwd (procs (pt s) cur) of
         None \<Rightarrow> UB
       | Some d \<Rightarrow>
           bindo (iput d s) (\<lambda>s.
           bindo (end_op s) (\<lambda>s.
             on_pt (exit_locked c) (upd_cur cur (\<lambda>x. x\<lparr>p_cwd := None\<rparr>) s)))))) s"

text \<open>The scan of \<^verbatim>\<open>wait\<close>: the pid of an exited child that has been collected, and whether a child was
  seen.\<close>

fun wait_scan :: "nat \<Rightarrow> nat list \<Rightarrow> bool \<Rightarrow> kernel \<Rightarrow> (int option \<times> bool \<times> kernel) outcome" where
  "wait_scan cur [] havekids s = Ok (None, havekids, s)"
| "wait_scan cur (p # ps) havekids s =
     (let y = procs (pt s) p in
      if p_parent y \<noteq> Some cur then wait_scan cur ps havekids s
      else if p_state y = ZOMBIE then
        bindo (on_vm (kfree (p_kstack y)) s) (\<lambda>s.
        bindo (on_vm (freevm (p_pgdir y)) s) (\<lambda>s.
          Ok (Some (p_pid y), True, s\<lparr>pt := reap p (pt s)\<rparr>)))
      else wait_scan cur ps True s)"

definition wait :: "nat \<Rightarrow> kernel \<Rightarrow> (progress \<times> kernel) outcome" where
  "wait c s = with_cur c (\<lambda>cur x s.
     bindo (wait_scan cur [0..<NPROC] False s) (\<lambda>(pid, havekids, s).
       case pid of
         Some pid \<Rightarrow> Ok (Done pid, s)
       | None \<Rightarrow>
           if \<not> havekids \<or> p_killed x then Ok (Done (-1), s)
           else bindo (on_pt (sleep c (ChProc cur) 1) s) (\<lambda>s. Ok (Blocked 0, s)))) s"

text \<open>Where a new process starts; the first one also recovers the log.\<close>

definition forkret :: "kernel \<Rightarrow> kernel outcome" where
  "forkret s =
     (if first s then bindo (iinit ROOTDEV (s\<lparr>first := False\<rparr>)) (\<lambda>s. initlog (sint ROOTDEV) s) else Ok s)"

end
