(* ===== verification/Syscall.thy ===== *)
theory Syscall
  imports Proc
begin

text \<open>
  Fetching system-call arguments from user memory, \<^verbatim>\<open>syscall.c\<close>, and the process-related system
  calls, \<^verbatim>\<open>sysproc.c\<close>. A failed fetch is \<open>None\<close>. A handler returns \<open>Done r\<close>, goes to sleep with
  \<open>Blocked\<close>, or does not return.
\<close>

section \<open>Arguments\<close>

definition fetchint :: "nat \<Rightarrow> u32 \<Rightarrow> kernel \<Rightarrow> u32 option outcome" where
  "fetchint c addr s = with_cur c (\<lambda>me x s.
     if addr \<ge> p_sz x \<or> addr + 4 > p_sz x then Ok None
     else bindo (uload32 (p_pgdir x) addr (kvm s)) (\<lambda>v. Ok (Some v))) s"

text \<open>The scan of \<^verbatim>\<open>fetchstr\<close> from \<open>a\<close>, with \<open>k\<close> bytes left below the size of the process; the result is the
  length.\<close>

fun fetchstr_loop :: "u32 \<Rightarrow> u32 \<Rightarrow> nat \<Rightarrow> nat \<Rightarrow> vm \<Rightarrow> nat option outcome" where
  "fetchstr_loop pd a 0 n v = Ok None"
| "fetchstr_loop pd a (Suc k) n v =
     bindo (uload8 pd a v) (\<lambda>b. if b = 0 then Ok (Some n) else fetchstr_loop pd (a + 1) k (Suc n) v)"

definition fetchstr :: "nat \<Rightarrow> u32 \<Rightarrow> kernel \<Rightarrow> nat option outcome" where
  "fetchstr c addr s = with_cur c (\<lambda>me x s.
     if addr \<ge> p_sz x then Ok None
     else fetchstr_loop (p_pgdir x) addr (unat (p_sz x - addr)) 0 (kvm s)) s"

definition argint :: "nat \<Rightarrow> nat \<Rightarrow> kernel \<Rightarrow> u32 option outcome" where
  "argint c n s = with_cur c (\<lambda>me x s. fetchint c (tf_esp (p_tf x) + 4 + 4 * of_nat n) s) s"

definition argptr :: "nat \<Rightarrow> nat \<Rightarrow> int \<Rightarrow> kernel \<Rightarrow> u32 option outcome" where
  "argptr c n sz s = with_cur c (\<lambda>me x s.
     bindo (argint c n s) (\<lambda>r. case r of
       None \<Rightarrow> Ok None
     | Some i \<Rightarrow>
         if sz < 0 \<or> i \<ge> p_sz x \<or> i + of_int sz > p_sz x then Ok None else Ok (Some i))) s"

text \<open>The string at a checked pointer, without its terminator.\<close>

definition ustring :: "nat \<Rightarrow> u32 \<Rightarrow> nat \<Rightarrow> kernel \<Rightarrow> u8 list outcome" where
  "ustring c addr n s = with_cur c (\<lambda>me x s. uread (p_pgdir x) addr n (kvm s)) s"

text \<open>\<^verbatim>\<open>argstr\<close>: the pointer and the string it points to.\<close>

definition argstr :: "nat \<Rightarrow> nat \<Rightarrow> kernel \<Rightarrow> (u32 \<times> u8 list) option outcome" where
  "argstr c n s =
     bindo (argint c n s) (\<lambda>r. case r of
       None \<Rightarrow> Ok None
     | Some addr \<Rightarrow>
         bindo (fetchstr c addr s) (\<lambda>r. case r of
           None \<Rightarrow> Ok None
         | Some k \<Rightarrow> bindo (ustring c addr k s) (\<lambda>xs. Ok (Some (addr, xs)))))"

text \<open>Handlers return -1 when an argument cannot be fetched.\<close>

definition or_fail :: "kernel \<Rightarrow> 'r option outcome \<Rightarrow> ('r \<Rightarrow> (progress \<times> kernel) outcome) \<Rightarrow> (progress \<times> kernel) outcome" where
  "or_fail s m f = bindo m (\<lambda>r. case r of None \<Rightarrow> Ok (Done (-1), s) | Some x \<Rightarrow> f x)"

definition ret :: "(int \<times> kernel) outcome \<Rightarrow> (progress \<times> kernel) outcome" where
  "ret m = bindo m (\<lambda>(r, s). Ok (Done r, s))"

section \<open>System calls on processes\<close>

definition sys_fork :: "nat \<Rightarrow> kernel \<Rightarrow> (progress \<times> kernel) outcome" where
  "sys_fork c s = ret (fork c s)"

definition sys_exit :: "nat \<Rightarrow> kernel \<Rightarrow> (progress \<times> kernel) outcome" where
  "sys_exit c s = bindo (exit c s) (\<lambda>s. Ok (Exited, s))"

definition sys_split :: "nat \<Rightarrow> kernel \<Rightarrow> (progress \<times> kernel) outcome" where
  "sys_split c s = or_fail s (argint c 0 s) (\<lambda>op. bindo (splitw c (sint op) s) (\<lambda>s. Ok (Done 0, s)))"

definition sys_wait :: "nat \<Rightarrow> kernel \<Rightarrow> (progress \<times> kernel) outcome" where
  "sys_wait c s = wait c s"

definition sys_kill :: "nat \<Rightarrow> kernel \<Rightarrow> (progress \<times> kernel) outcome" where
  "sys_kill c s = or_fail s (argint c 0 s) (\<lambda>pid.
     let (r, t) = kill (sint pid) (pt s) in Ok (Done r, s\<lparr>pt := t\<rparr>))"

definition sys_getpid :: "nat \<Rightarrow> kernel \<Rightarrow> (progress \<times> kernel) outcome" where
  "sys_getpid c s = with_cur c (\<lambda>me x s. Ok (Done (p_pid x), s)) s"

definition sys_sbrk :: "nat \<Rightarrow> kernel \<Rightarrow> (progress \<times> kernel) outcome" where
  "sys_sbrk c s = or_fail s (argint c 0 s) (\<lambda>n. with_cur c (\<lambda>me x s.
     bindo (growproc c (sint n) s) (\<lambda>(r, s). Ok (Done (if r < 0 then -1 else sint (p_sz x)), s))) s)"

text \<open>The loop of \<^verbatim>\<open>sys_sleep\<close>, entered again with the same \<open>ticks0\<close> after each sleep; \<open>n\<close> is compared
  as an unsigned number.\<close>

definition sleep_loop :: "nat \<Rightarrow> u32 \<Rightarrow> u32 \<Rightarrow> kernel \<Rightarrow> (progress \<times> kernel) outcome" where
  "sleep_loop c n ticks0 s =
     (if ticks s - ticks0 < n then
        with_cur c (\<lambda>me x s.
          if p_killed x then Ok (Done (-1), s)
          else bindo (on_pt (sleep c ChTicks 1) s) (\<lambda>s. Ok (Blocked (unat ticks0), s))) s
      else Ok (Done 0, s))"

definition sys_sleep :: "nat \<Rightarrow> kernel \<Rightarrow> (progress \<times> kernel) outcome" where
  "sys_sleep c s = or_fail s (argint c 0 s) (\<lambda>n. sleep_loop c n (ticks s) s)"

definition sys_uptime :: "nat \<Rightarrow> kernel \<Rightarrow> (progress \<times> kernel) outcome" where
  "sys_uptime c s = Ok (Done (sint (ticks s)), s)"

definition sys_trace :: "nat \<Rightarrow> kernel \<Rightarrow> (progress \<times> kernel) outcome" where
  "sys_trace c s = with_cur c (\<lambda>me x s. Ok (Done (sint (p_timepiece x)), s)) s"

definition sys_releasesharem :: "nat \<Rightarrow> kernel \<Rightarrow> (progress \<times> kernel) outcome" where
  "sys_releasesharem c s = or_fail s (argint c 0 s) (\<lambda>idx.
     bindo (releaseshared c idx s) (\<lambda>(_, s). Ok (Done 0, s)))"

definition sys_getsharem :: "nat \<Rightarrow> kernel \<Rightarrow> (progress \<times> kernel) outcome" where
  "sys_getsharem c s = or_fail s (argint c 0 s) (\<lambda>idx.
     bindo (if sint idx = 1 then bindo (getshared c 0 s) (\<lambda>(_, s). Ok s) else Ok s) (\<lambda>s.
     bindo (getshared c idx s) (\<lambda>(a, s). Ok (Done (sint a), s))))"

definition sys_att :: "nat \<Rightarrow> kernel \<Rightarrow> (progress \<times> kernel) outcome" where
  "sys_att c s = or_fail s (argint c 0 s) (\<lambda>cmd.
     let s = s\<lparr>pt := upd_cpu 0 (\<lambda>r. r\<lparr>c_consflag := ucast cmd\<rparr>) (pt s)\<rparr>;
         s = s\<lparr>pt := upd_cpu 1 (\<lambda>r. r\<lparr>c_consflag := ucast cmd\<rparr>) (pt s)\<rparr>
     in Ok (Done (sint (c_rtime (cpus (pt s) 0) + c_rtime (cpus (pt s) 1))), s))"

section \<open>Arguments are checked exactly\<close>

text \<open>C33: \<^verbatim>\<open>argptr\<close> accepts a pointer exactly when the whole block of the given size lies below the size of
  the process: for every argument word and every 31-bit size, no wrap-around lets a block
  through that ends outside.\<close>

theorem argptr_exact:
  assumes me: "myproc c (pt s) = Some me" and i: "argint c n s = Ok (Some i)"
    and sz: "p_sz (procs (pt s) me) \<le> KERNBASE" and k: "-(2 ^ 31) \<le> k" "k < 2 ^ 31"
  shows "argptr c n k s =
    Ok (if 0 \<le> k \<and> unat i < unat (p_sz (procs (pt s) me)) \<and> unat i + nat k \<le> unat (p_sz (procs (pt s) me))
        then Some i else None)"
proof (cases "0 \<le> k \<and> i < p_sz (procs (pt s) me)")
  case False
  then show ?thesis using me i by (auto simp: argptr_def with_cur_def word_less_nat_alt not_less word_le_nat_alt)
next
  case True
  let ?sz = "p_sz (procs (pt s) me)"
  have z: "unat ?sz \<le> 2147483648" using sz by (simp add: word_le_nat_alt KERNBASE_def)
  have u: "unat (of_int k :: u32) = nat k" using True k
    by (simp add: unat_eq_nat_uint uint_word_of_int)
  have "unat i + nat k < 2 ^ 32" using True z k by (auto simp: word_less_nat_alt)
  then have "unat (i + of_int k) = unat i + nat k" using u by (simp add: unat_word_ariths)
  then show ?thesis using me i True
    by (auto simp: argptr_def with_cur_def word_less_nat_alt not_less word_le_nat_alt)
qed

lemma fetchstr_loop_eq:
  "ubuf (mem v) pd a k \<Longrightarrow>
     fetchstr_loop pd a k n v =
       Ok (if 0 \<in> set (ubytes (mem v) pd a k)
           then Some (n + length (takeWhile (\<lambda>b. b \<noteq> 0) (ubytes (mem v) pd a k))) else None)"
proof (induction k arbitrary: a n)
  case 0
  then show ?case by (simp add: ubytes_def)
next
  case (Suc k)
  then have u: "upresent (mem v) pd a" "ubuf (mem v) pd (a + 1) k" by (simp_all add: ubuf_Suc)
  show ?case using Suc.IH [OF u(2), of "Suc n"] u(1)
    by (simp add: ubytes_Suc uload8_def translate_ok)
qed

text \<open>C34: \<^verbatim>\<open>fetchstr\<close> ends, and accepts a string exactly when it starts and is terminated below the size
  of the process; the length it returns is that of the string up to its first null byte.\<close>

theorem fetchstr_exact:
  assumes me: "myproc c (pt s) = Some me"
    and buf: "ubuf (mem (kvm s)) (p_pgdir (procs (pt s) me)) addr (unat (p_sz (procs (pt s) me) - addr))"
  defines "bs \<equiv> ubytes (mem (kvm s)) (p_pgdir (procs (pt s) me)) addr (unat (p_sz (procs (pt s) me) - addr))"
  shows "fetchstr c addr s =
    Ok (if addr < p_sz (procs (pt s) me) \<and> 0 \<in> set bs then Some (length (takeWhile (\<lambda>b. b \<noteq> 0) bs)) else None)"
proof (cases "addr < p_sz (procs (pt s) me)")
  case True
  then have "\<not> p_sz (procs (pt s) me) \<le> addr" by simp
  then show ?thesis using True me fetchstr_loop_eq [OF buf, of 0] by (simp add: fetchstr_def with_cur_def bs_def)
qed (use me in \<open>simp add: fetchstr_def with_cur_def not_less\<close>)

lemma demo_zero: "i < 4096 \<Longrightarrow> demo_mem (0x80202000 + of_nat i) = 0"
proof -
  assume i: "i < 4096"
  have "same_page demo_mem (store32 (\<lambda>_. 0) 0x80200000 0x201007) 0x80202000"
    using same_page_store32 [of "0x80201000" "0x80202000" 0] by (simp add: demo_mem_def)
  moreover have "same_page (store32 (\<lambda>_. 0) 0x80200000 0x201007) (\<lambda>_. 0) 0x80202000"
    using same_page_store32 [of "0x80200000" "0x80202000" 0] by simp
  ultimately have "same_page demo_mem (\<lambda>_. 0) 0x80202000" by (rule same_page_trans)
  moreover have "(of_nat i :: u32) < 4096" using i by (simp add: word_less_nat_alt unat_of_nat)
  ultimately show ?thesis by (simp add: same_page_def)
qed

lemma demo_ubytes: "a + n \<le> 4096 \<Longrightarrow> ubuf demo_mem 0x80200000 (of_nat a) n \<and> ubytes demo_mem 0x80200000 (of_nat a) n = replicate n 0"
proof -
  assume a: "a + n \<le> 4096"
  have e: "(of_nat a + of_nat i :: u32) = of_nat (a + i)" for i by simp
  have "map (\<lambda>i. demo_mem (upa demo_mem 0x80200000 (of_nat (a + i)))) [0..<n] = replicate n 0"
    by (rule nth_equalityI) (use a in \<open>simp_all add: demo_upage demo_zero del: of_nat_add\<close>)
  then show ?thesis unfolding ubuf_def ubytes_def e using a demo_upage
    by (auto simp: demo_pages simp del: of_nat_add)
qed

lemma demo_arg0:
  assumes p: "kvm s = demo_vm" "myproc 0 (pt s) = Some 0" "p_pgdir (procs (pt s) 0) = 0x80200000"
      "tf_esp (p_tf (procs (pt s) 0)) = 0" and z: "8 < p_sz (procs (pt s) 0)"
  shows "argint 0 0 s = Ok (Some 0)"
proof -
  let ?z = "p_sz (procs (pt s) 0)"
  have "ubuf demo_mem 0x80200000 4 4" "ubytes demo_mem 0x80200000 4 4 = replicate 4 0"
    using demo_ubytes [of 4 4] by simp_all
  then have "uread 0x80200000 4 4 demo_vm = Ok [0, 0, 0, 0]"
    using uread_ok [of demo_vm "0x80200000" 4 4] by (simp add: numeral_eq_Suc del: uread.simps)
  moreover have "4 < ?z" "\<not> ?z < 8" using z order_less_trans [of 4 8 ?z] less_asym [of 8 ?z] by auto
  ultimately show ?thesis using p
    by (simp add: argint_def fetchint_def with_cur_def uload32_def get32_def not_le)
qed

theorem argptr_exact_witness:
  "argptr 0 0 8 (upd_cur 0 (\<lambda>x. x\<lparr>p_sz := 0x80000000\<rparr>) demo_kernel) = Ok (Some 0)"
proof -
  let ?s = "upd_cur 0 (\<lambda>x. x\<lparr>p_sz := 0x80000000\<rparr>) demo_kernel"
  have s: "myproc 0 (pt ?s) = Some 0" "p_sz (procs (pt ?s) 0) = 0x80000000" "p_pgdir (procs (pt ?s) 0) = 0x80200000"
      "kvm ?s = demo_vm" "tf_esp (p_tf (procs (pt ?s) 0)) = 0"
    by (simp_all add: upd_cur_def) (simp_all add: demo_pt_def myproc_def boot_def)
  moreover have "argint 0 0 ?s = Ok (Some 0)" by (rule demo_arg0) (simp_all add: s)
  ultimately show ?thesis using argptr_exact [of 0 ?s 0 0 0 8] by (simp add: KERNBASE_def)
qed

theorem fetchstr_exact_witness: "fetchstr 0 100 demo_kernel = Ok (Some 0)"
proof -
  have "ubuf demo_mem 0x80200000 100 3996" "ubytes demo_mem 0x80200000 100 3996 = replicate 3996 0"
    using demo_ubytes [of 100 3996] by simp_all
  then show ?thesis using fetchstr_exact [of 0 demo_kernel 0 100] by simp
qed

end
