(* ===== verification/Exec.thy ===== *)
theory Exec
  imports Syscall
begin

text \<open>
  Loading a program, \<^verbatim>\<open>exec.c\<close>. The path and the argument strings are given as byte lists, read from
  the old address space.
\<close>

section \<open>ELF headers\<close>

record elfhdr =
  e_magic :: u32
  e_entry :: u32
  e_phoff :: u32
  e_phnum :: u16

record proghdr =
  ph_type :: u32
  ph_off :: u32
  ph_vaddr :: u32
  ph_filesz :: u32
  ph_memsz :: u32

definition elfhdr_of :: "u8 list \<Rightarrow> elfhdr" where
  "elfhdr_of d = \<lparr>e_magic = get32 d 0, e_entry = get32 d 24, e_phoff = get32 d 28, e_phnum = get16 d 44\<rparr>"

definition proghdr_of :: "u8 list \<Rightarrow> proghdr" where
  "proghdr_of d = \<lparr>ph_type = get32 d 0, ph_off = get32 d 4, ph_vaddr = get32 d 8, ph_filesz = get32 d 16, ph_memsz = get32 d 20\<rparr>"

definition ELF_MAGIC :: u32 where "ELF_MAGIC = 0x464C457F"

section \<open>Memory\<close>

text \<open>\<^verbatim>\<open>copyout\<close> for bytes that are not in kernel memory.\<close>

fun poke_bytes :: "u32 \<Rightarrow> u8 list \<Rightarrow> memory \<Rightarrow> memory" where
  "poke_bytes a [] m = m"
| "poke_bytes a (x # xs) m = poke_bytes (a + 1) xs (m(a := x))"

function copyout_bytes :: "u32 \<Rightarrow> u32 \<Rightarrow> u8 list \<Rightarrow> 'a kmem_scheme \<Rightarrow> (int \<times> 'a kmem_scheme) outcome" where
  "copyout_bytes pgdir va xs s =
     (if xs \<noteq> [] then
        let va0 = PGROUNDDOWN va in
        bindo (uva2ka pgdir va0 s) (\<lambda>pa0.
          if pa0 = 0 then Ok (-1, s)
          else let n = min (unat (PGSIZE - (va - va0))) (length xs);
                   s = s\<lparr>mem := poke_bytes (pa0 + (va - va0)) (take n xs) (mem s)\<rparr>
               in copyout_bytes pgdir (va0 + PGSIZE) (drop n xs) s)
      else Ok (0, s))"
  by pat_completeness auto
termination
proof (relation "measure (\<lambda>(pgdir, va, xs, s). length xs)", goal_cases)
  case (2 pgdir va xs s va0 pa0 n s')
  have "0 < unat (PGSIZE - (va - PGROUNDDOWN va))" using copyout_step_pos [of va] by (simp add: word_less_nat_alt)
  then show ?case using 2 by auto
qed simp

declare copyout_bytes.simps [simp del]

text \<open>\<^verbatim>\<open>loaduvm\<close> reads the program's inode, so it runs on memory with the rest of the kernel beside it.\<close>

definition load_segment :: "nat \<Rightarrow> nat \<Rightarrow> u32 \<Rightarrow> u32 \<Rightarrow> u32 \<Rightarrow> u32 \<Rightarrow> kernel \<Rightarrow> (int \<times> kernel) outcome" where
  "load_segment c ip pd addr off n s =
     bindo (loaduvm (\<lambda>dst off n w.
         bindo (readi (devsw_read c) ip off n (vm.more w)) (\<lambda>(r, xs, s).
           Ok (r, vm.extend (vm.truncate (w\<lparr>mem := poke_bytes dst xs (mem w)\<rparr>)) s)))
       pd addr off n (vm.extend (kvm s) s)) (\<lambda>(r, w). Ok (r, (vm.more w)\<lparr>kvm := vm.truncate w\<rparr>))"

section \<open>exec\<close>

text \<open>The loop over the program headers: \<open>k\<close> are left, the next is at \<open>off\<close>; \<open>None\<close> is the jump to
  \<^verbatim>\<open>bad\<close>.\<close>

fun load_program :: "nat \<Rightarrow> nat \<Rightarrow> u32 \<Rightarrow> nat \<Rightarrow> u32 \<Rightarrow> u32 \<Rightarrow> kernel \<Rightarrow> (u32 option \<times> kernel) outcome" where
  "load_program c ip pd 0 off sz s = Ok (Some sz, s)"
| "load_program c ip pd (Suc k) off sz s =
     bindo (readi (devsw_read c) ip off 32 s) (\<lambda>(r, d, s).
       if r \<noteq> 32 then Ok (None, s)
       else let ph = proghdr_of d in
         if ph_type ph \<noteq> 1 then load_program c ip pd k (off + 32) sz s
         else if ph_memsz ph < ph_filesz ph then Ok (None, s)
         else if ph_vaddr ph + ph_memsz ph < ph_vaddr ph then Ok (None, s)
         else bindo (on_vmr (allocuvm pd sz (ph_vaddr ph + ph_memsz ph)) s) (\<lambda>(sz, s).
           if sz = 0 then Ok (None, s)
           else if ph_vaddr ph mod PGSIZE \<noteq> 0 then Ok (None, s)
           else bindo (load_segment c ip pd (ph_vaddr ph) (ph_off ph) (ph_filesz ph) s) (\<lambda>(r, s).
             if r < 0 then Ok (None, s) else load_program c ip pd k (off + 32) sz s)))"

text \<open>Pushing the argument strings: the addresses of those pushed so far are \<open>ust\<close>.\<close>

abbreviation (input) MAXARG :: nat where "MAXARG \<equiv> 32"

fun push_args :: "u32 \<Rightarrow> u8 list list \<Rightarrow> u32 \<Rightarrow> u32 list \<Rightarrow> kernel \<Rightarrow> ((u32 \<times> u32 list) option \<times> kernel) outcome" where
  "push_args pd [] sp ust s = Ok (Some (sp, ust), s)"
| "push_args pd (a # as) sp ust s =
     (if length ust \<ge> MAXARG then Ok (None, s)
      else let sp = (sp - (of_nat (length a) + 1)) AND NOT 3 in
        bindo (on_vmr (copyout_bytes pd sp (a @ [0])) s) (\<lambda>(r, s).
          if r < 0 then Ok (None, s) else push_args pd as sp (ust @ [sp]) s))"

definition word_bytes :: "u32 \<Rightarrow> u8 list" where
  "word_bytes w = put32 [0, 0, 0, 0] 0 w"

text \<open>The stack frame of \<^verbatim>\<open>main\<close>: a return address, \<^verbatim>\<open>argc\<close>, \<^verbatim>\<open>argv\<close>, and the array of argument pointers.\<close>

definition stack_frame :: "u32 \<Rightarrow> u32 list \<Rightarrow> u32 list" where
  "stack_frame sp ust = [0xFFFFFFFF, of_nat (length ust), sp - (of_nat (length ust) + 1) * 4] @ ust @ [0]"

definition exec_stack :: "u32 \<Rightarrow> u8 list list \<Rightarrow> u32 \<Rightarrow> kernel \<Rightarrow> (u32 option \<times> kernel) outcome" where
  "exec_stack pd argv sz s =
     bindo (push_args pd argv sz [] s) (\<lambda>(r, s).
       case r of
         None \<Rightarrow> Ok (None, s)
       | Some (sp, ust) \<Rightarrow>
           let frame = stack_frame sp ust; sp = sp - 4 * of_nat (length frame) in
           bindo (on_vmr (copyout_bytes pd sp (concat (map word_bytes frame))) s) (\<lambda>(r, s).
             Ok (if r < 0 then None else Some sp, s)))"

definition basename :: "u8 list \<Rightarrow> u8 list" where
  "basename path = rev (takeWhile (\<lambda>b. b \<noteq> 47) (rev path))"

text \<open>The two halves of \<^verbatim>\<open>bad\<close>.\<close>

definition bad_pgdir :: "u32 \<Rightarrow> kernel \<Rightarrow> kernel outcome" where
  "bad_pgdir pd s = (if pd \<noteq> 0 then on_vm (freevm pd) s else Ok s)"

definition bad_ip :: "nat \<Rightarrow> kernel \<Rightarrow> kernel outcome" where
  "bad_ip ip s = bindo (iunlockput ip s) (\<lambda>s. end_op s)"

definition exec :: "nat \<Rightarrow> u8 list \<Rightarrow> u8 list list \<Rightarrow> kernel \<Rightarrow> (int \<times> kernel) outcome" where
  "exec c path argv s = with_cur c (\<lambda>me x s.
     bindo (begin_op s) (\<lambda>s.
     bindo (namei (devsw_read c) (p_cwd x) path s) (\<lambda>(ipo, s).
     case ipo of
       None \<Rightarrow> bindo (end_op s) (\<lambda>s. Ok (-1, s))
     | Some ip \<Rightarrow>
         bindo (ilock ip s) (\<lambda>s.
         bindo (readi (devsw_read c) ip 0 52 s) (\<lambda>(r, d, s).
         let elf = elfhdr_of d in
         if r \<noteq> 52 \<or> e_magic elf \<noteq> ELF_MAGIC then bindo (bad_ip ip s) (\<lambda>s. Ok (-1, s))
         else bindo (on_vmr setupkvm s) (\<lambda>(pd, s).
         if pd = 0 then bindo (bad_ip ip s) (\<lambda>s. Ok (-1, s))
         else bindo (load_program c ip pd (unat (e_phnum elf)) (e_phoff elf) 0 s) (\<lambda>(szo, s).
         case szo of
           None \<Rightarrow> bindo (bad_pgdir pd s) (\<lambda>s. bindo (bad_ip ip s) (\<lambda>s. Ok (-1, s)))
         | Some sz \<Rightarrow>
             bindo (iunlockput ip s) (\<lambda>s.
             bindo (end_op s) (\<lambda>s.
             let sz = PGROUNDUP sz in
             bindo (on_vmr (allocuvm pd sz (sz + 2 * PGSIZE)) s) (\<lambda>(sz, s).
             if sz = 0 then bindo (bad_pgdir pd s) (\<lambda>s. Ok (-1, s))
             else bindo (on_vm (clearpteu pd (sz - 2 * PGSIZE)) s) (\<lambda>s.
             bindo (exec_stack pd argv sz s) (\<lambda>(spo, s).
             case spo of
               None \<Rightarrow> bindo (bad_pgdir pd s) (\<lambda>s. Ok (-1, s))
             | Some sp \<Rightarrow>
                 let s = upd_cur me (\<lambda>y. y\<lparr>p_name := safestrcpy_field (p_name y) (basename path), p_pgdir := pd,
                       p_sz := sz, p_tf := (p_tf y)\<lparr>tf_eip := e_entry elf, tf_esp := sp\<rparr>\<rparr>) s in
                 bindo (on_pt (switchuvm c (Some me)) s) (\<lambda>s.
                 bindo (on_vm (freevm (p_pgdir x)) s) (\<lambda>s. Ok (0, s))))))))))))))) s"

end
