(* ===== verification/Sysfile.thy ===== *)
theory Sysfile
  imports Exec
begin

text \<open>
  The file-system calls, \<^verbatim>\<open>sysfile.c\<close>.
\<close>

section \<open>File descriptors\<close>

definition argfd :: "nat \<Rightarrow> nat \<Rightarrow> kernel \<Rightarrow> (nat \<times> nat) option outcome" where
  "argfd c n s =
     bindo (argint c n s) (\<lambda>r. case r of
       None \<Rightarrow> Ok None
     | Some w \<Rightarrow>
         let fd = sint w in
         if fd < 0 \<or> fd \<ge> int NOFILE then Ok None
         else with_cur c (\<lambda>me x s. case p_ofile x (nat fd) of
           None \<Rightarrow> Ok None
         | Some f \<Rightarrow> Ok (Some (nat fd, f))) s)"

definition set_fd :: "nat \<Rightarrow> nat \<Rightarrow> nat option \<Rightarrow> kernel \<Rightarrow> kernel" where
  "set_fd me fd fo s = upd_cur me (\<lambda>x. x\<lparr>p_ofile := (p_ofile x)(fd := fo)\<rparr>) s"

definition fdalloc :: "nat \<Rightarrow> nat \<Rightarrow> kernel \<Rightarrow> (nat option \<times> kernel) outcome" where
  "fdalloc c f s = with_cur c (\<lambda>me x s.
     case List.find (\<lambda>fd. p_ofile x fd = None) [0..<NOFILE] of
       None \<Rightarrow> Ok (None, s)
     | Some fd \<Rightarrow> Ok (Some fd, set_fd me fd (Some f) s)) s"

definition sys_dup :: "nat \<Rightarrow> kernel \<Rightarrow> (progress \<times> kernel) outcome" where
  "sys_dup c s = or_fail s (argfd c 0 s) (\<lambda>(_, f).
     bindo (fdalloc c f s) (\<lambda>(fd, s). case fd of
       None \<Rightarrow> Ok (Done (-1), s)
     | Some fd \<Rightarrow> bindo (filedup f s) (\<lambda>s. Ok (Done (int fd), s))))"

definition sys_read :: "nat \<Rightarrow> kernel \<Rightarrow> (progress \<times> kernel) outcome" where
  "sys_read c s = or_fail s (argfd c 0 s) (\<lambda>(_, f).
     or_fail s (argint c 2 s) (\<lambda>n.
     or_fail s (argptr c 1 (sint n) s) (\<lambda>p. fileread (devsw_read c) c f p (sint n) s)))"

definition sys_write :: "nat \<Rightarrow> kernel \<Rightarrow> (progress \<times> kernel) outcome" where
  "sys_write c s = or_fail s (argfd c 0 s) (\<lambda>(_, f).
     or_fail s (argint c 2 s) (\<lambda>n.
     or_fail s (argptr c 1 (sint n) s) (\<lambda>p. filewrite (devsw_write c) c f p (sint n) s)))"

definition sys_close :: "nat \<Rightarrow> kernel \<Rightarrow> (progress \<times> kernel) outcome" where
  "sys_close c s = or_fail s (argfd c 0 s) (\<lambda>(fd, f). with_cur c (\<lambda>me x s.
     bindo (fileclose f (set_fd me fd None s)) (\<lambda>s. Ok (Done 0, s))) s)"

text \<open>The fields of \<^verbatim>\<open>struct stat\<close> in user memory.\<close>

definition ustat :: "u32 \<Rightarrow> u32 \<Rightarrow> stat \<Rightarrow> vm \<Rightarrow> vm outcome" where
  "ustat pd a st v =
     bindo (uwrite pd a (put16 [0, 0] 0 (st_type st)) v) (\<lambda>v.
     bindo (ustore32 pd (a + 4) (st_dev st) v) (\<lambda>v.
     bindo (ustore32 pd (a + 8) (st_ino st) v) (\<lambda>v.
     bindo (uwrite pd (a + 12) (put16 [0, 0] 0 (st_nlink st)) v) (\<lambda>v.
       ustore32 pd (a + 16) (st_size st) v))))"

definition sys_fstat :: "nat \<Rightarrow> kernel \<Rightarrow> (progress \<times> kernel) outcome" where
  "sys_fstat c s = or_fail s (argfd c 0 s) (\<lambda>(_, f).
     or_fail s (argptr c 1 20 s) (\<lambda>a.
     bindo (filestat f s) (\<lambda>(st, s). case st of
       None \<Rightarrow> Ok (Done (-1), s)
     | Some st \<Rightarrow> with_cur c (\<lambda>me x s. bindo (on_vm (ustat (p_pgdir x) a st) s) (\<lambda>s. Ok (Done 0, s))) s)))"

section \<open>Names\<close>

definition cwd_of :: "nat \<Rightarrow> kernel \<Rightarrow> nat option" where
  "cwd_of c s = (case myproc c (pt s) of None \<Rightarrow> None | Some p \<Rightarrow> p_cwd (procs (pt s) p))"

text \<open>The jump to \<^verbatim>\<open>bad\<close> in \<^verbatim>\<open>sys_link\<close>.\<close>

definition link_bad :: "nat \<Rightarrow> kernel \<Rightarrow> (progress \<times> kernel) outcome" where
  "link_bad ip s =
     bindo (ilock ip s) (\<lambda>s.
     bindo (iupdate ip (upd_inode ip (\<lambda>x. x\<lparr>i_nlink := i_nlink x - 1\<rparr>) s)) (\<lambda>s.
     bindo (iunlockput ip s) (\<lambda>s.
     bindo (end_op s) (\<lambda>s. Ok (Done (-1), s)))))"

definition sys_link :: "nat \<Rightarrow> kernel \<Rightarrow> (progress \<times> kernel) outcome" where
  "sys_link c s = or_fail s (argstr c 0 s) (\<lambda>(_, old). or_fail s (argstr c 1 s) (\<lambda>(_, new).
     bindo (begin_op s) (\<lambda>s.
     bindo (namei (devsw_read c) (cwd_of c s) old s) (\<lambda>(ipo, s).
     case ipo of
       None \<Rightarrow> bindo (end_op s) (\<lambda>s. Ok (Done (-1), s))
     | Some ip \<Rightarrow>
         bindo (ilock ip s) (\<lambda>s.
         if i_type (inodes s ip) = T_DIR then
           bindo (iunlockput ip s) (\<lambda>s. bindo (end_op s) (\<lambda>s. Ok (Done (-1), s)))
         else
           bindo (iupdate ip (upd_inode ip (\<lambda>x. x\<lparr>i_nlink := i_nlink x + 1\<rparr>) s)) (\<lambda>s.
           bindo (iunlock ip s) (\<lambda>s.
           bindo (nameiparent (devsw_read c) (cwd_of c s) new s) (\<lambda>(dpo, name, s).
           case dpo of
             None \<Rightarrow> link_bad ip s
           | Some dp \<Rightarrow>
               bindo (ilock dp s) (\<lambda>s.
               bindo (if i_dev (inodes s dp) \<noteq> i_dev (inodes s ip) then Ok (-1, s)
                      else dirlink (devsw_read c) (devsw_write c) dp name (i_inum (inodes s ip)) s) (\<lambda>(r, s).
               bindo (iunlockput dp s) (\<lambda>s.
               if r < 0 then link_bad ip s
               else bindo (iput ip s) (\<lambda>s. bindo (end_op s) (\<lambda>s. Ok (Done 0, s))))))))))))))"

fun isdirempty_loop :: "nat \<Rightarrow> nat \<Rightarrow> nat list \<Rightarrow> kernel \<Rightarrow> (bool \<times> kernel) outcome" where
  "isdirempty_loop c dp [] s = Ok (True, s)"
| "isdirempty_loop c dp (off # offs) s =
     bindo (readi (devsw_read c) dp (of_nat off) 16 s) (\<lambda>(r, d, s).
       if r \<noteq> 16 then Panic ''isdirempty: readi''
       else if d_inum (dirent_of d) \<noteq> 0 then Ok (False, s)
       else isdirempty_loop c dp offs s)"

definition isdirempty :: "nat \<Rightarrow> nat \<Rightarrow> kernel \<Rightarrow> (bool \<times> kernel) outcome" where
  "isdirempty c dp s = isdirempty_loop c dp (dir_offs 32 (unat (i_size (inodes s dp)))) s"

text \<open>The jump to \<^verbatim>\<open>bad\<close> in \<^verbatim>\<open>sys_unlink\<close>.\<close>

definition unlink_bad :: "nat \<Rightarrow> kernel \<Rightarrow> (progress \<times> kernel) outcome" where
  "unlink_bad dp s = bindo (iunlockput dp s) (\<lambda>s. bindo (end_op s) (\<lambda>s. Ok (Done (-1), s)))"

text \<open>\<^verbatim>\<open>sys_unlink\<close> from the test of the link count on, with both inodes locked.\<close>

definition unlink_entry :: "nat \<Rightarrow> nat \<Rightarrow> nat \<Rightarrow> u32 \<Rightarrow> kernel \<Rightarrow> (progress \<times> kernel) outcome" where
  "unlink_entry c dp ip off s =
     (if sint (i_nlink (inodes s ip)) < 1 then Panic ''unlink: nlink < 1''
      else bindo (if i_type (inodes s ip) = T_DIR then isdirempty c ip s else Ok (True, s)) (\<lambda>(ok, s).
        if \<not> ok then bindo (iunlockput ip s) (\<lambda>s. unlink_bad dp s)
        else
          bindo (writei (devsw_write c) dp (replicate 16 0) off 16 s) (\<lambda>(r, s).
          if r \<noteq> 16 then Panic ''unlink: writei''
          else
            bindo (if i_type (inodes s ip) = T_DIR
                   then iupdate dp (upd_inode dp (\<lambda>x. x\<lparr>i_nlink := i_nlink x - 1\<rparr>) s) else Ok s) (\<lambda>s.
            bindo (iunlockput dp s) (\<lambda>s.
            bindo (iupdate ip (upd_inode ip (\<lambda>x. x\<lparr>i_nlink := i_nlink x - 1\<rparr>) s)) (\<lambda>s.
            bindo (iunlockput ip s) (\<lambda>s.
            bindo (end_op s) (\<lambda>s. Ok (Done 0, s)))))))))"

definition sys_unlink :: "nat \<Rightarrow> kernel \<Rightarrow> (progress \<times> kernel) outcome" where
  "sys_unlink c s = or_fail s (argstr c 0 s) (\<lambda>(_, path).
     bindo (begin_op s) (\<lambda>s.
     bindo (nameiparent (devsw_read c) (cwd_of c s) path s) (\<lambda>(dpo, name, s).
     case dpo of
       None \<Rightarrow> bindo (end_op s) (\<lambda>s. Ok (Done (-1), s))
     | Some dp \<Rightarrow>
         bindo (ilock dp s) (\<lambda>s.
         if namecmp_eq name [46] \<or> namecmp_eq name [46, 46] then unlink_bad dp s
         else bindo (dirlookup (devsw_read c) dp name s) (\<lambda>(r, s).
           case r of
             None \<Rightarrow> unlink_bad dp s
           | Some (ip, off) \<Rightarrow> bindo (ilock ip s) (\<lambda>s. unlink_entry c dp ip off s))))))"

definition create :: "nat \<Rightarrow> u8 list \<Rightarrow> u16 \<Rightarrow> u16 \<Rightarrow> u16 \<Rightarrow> kernel \<Rightarrow> (nat option \<times> kernel) outcome" where
  "create c path type major minor s =
     bindo (nameiparent (devsw_read c) (cwd_of c s) path s) (\<lambda>(dpo, name, s).
     case dpo of
       None \<Rightarrow> Ok (None, s)
     | Some dp \<Rightarrow>
         bindo (ilock dp s) (\<lambda>s.
         bindo (dirlookup (devsw_read c) dp name s) (\<lambda>(r, s).
         case r of
           Some (ip, _) \<Rightarrow>
             bindo (iunlockput dp s) (\<lambda>s.
             bindo (ilock ip s) (\<lambda>s.
               if type = T_FILE \<and> i_type (inodes s ip) = T_FILE then Ok (Some ip, s)
               else bindo (iunlockput ip s) (\<lambda>s. Ok (None, s))))
         | None \<Rightarrow>
             bindo (ialloc (i_dev (inodes s dp)) type s) (\<lambda>(ip, s).
             bindo (ilock ip s) (\<lambda>s.
             bindo (iupdate ip (upd_inode ip (\<lambda>x. x\<lparr>i_major := major, i_minor := minor, i_nlink := 1\<rparr>) s)) (\<lambda>s.
             bindo (if type = T_DIR then
                      bindo (iupdate dp (upd_inode dp (\<lambda>x. x\<lparr>i_nlink := i_nlink x + 1\<rparr>) s)) (\<lambda>s.
                      bindo (dirlink (devsw_read c) (devsw_write c) ip [46] (i_inum (inodes s ip)) s) (\<lambda>(r, s).
                      if r < 0 then Panic ''create dots''
                      else bindo (dirlink (devsw_read c) (devsw_write c) ip [46, 46] (i_inum (inodes s dp)) s) (\<lambda>(r, s).
                      if r < 0 then Panic ''create dots'' else Ok s)))
                    else Ok s) (\<lambda>s.
             bindo (dirlink (devsw_read c) (devsw_write c) dp name (i_inum (inodes s ip)) s) (\<lambda>(r, s).
             if r < 0 then Panic ''create: dirlink''
             else bindo (iunlockput dp s) (\<lambda>s. Ok (Some ip, s))))))))))"

section \<open>The shared text window\<close>

fun setmemo_loop :: "nat \<Rightarrow> nat list \<Rightarrow> kernel \<Rightarrow> kernel outcome" where
  "setmemo_loop c [] s = Ok s"
| "setmemo_loop c (i # is) s = with_cur c (\<lambda>me x s.
     bindo (if p_sharedrec x i \<noteq> 0 then bindo (getshared c (of_nat i) s) (\<lambda>(_, s). Ok s) else Ok s) (\<lambda>s.
       setmemo_loop c is s)) s"

definition sys_setmemo :: "nat \<Rightarrow> kernel \<Rightarrow> (progress \<times> kernel) outcome" where
  "sys_setmemo c s = bindo (setmemo_loop c [1..<MAXSHAREDPG] s) (\<lambda>s. Ok (Done 0, s))"

text \<open>The text is copied to the pointer of the string argument, however long that string is.\<close>

definition sys_getmemo :: "nat \<Rightarrow> kernel \<Rightarrow> (progress \<times> kernel) outcome" where
  "sys_getmemo c s = or_fail s (argstr c 0 s) (\<lambda>(path, _).
     bindo (getshared c 2 s) (\<lambda>(ch, s).
     with_cur c (\<lambda>me x s.
       bindo (uload32 (p_pgdir x) (ch + 52) (kvm s)) (\<lambda>lmemo.
       bindo (on_vm (ustrncpy (p_pgdir x) path (ch + 56) (nat (sint lmemo))) s) (\<lambda>s.
       bindo (uload32 (p_pgdir x) (ch + 52) (kvm s)) (\<lambda>n.
       bindo (on_vm (ustore8 (p_pgdir x) (path + n) 0) s) (\<lambda>s. Ok (Done (sint n), s)))))) s))"

text \<open>Allocating an open file and a descriptor for it, as \<^verbatim>\<open>sys_memo\<close> and \<^verbatim>\<open>sys_open\<close> do.\<close>

definition file_and_fd :: "nat \<Rightarrow> kernel \<Rightarrow> ((nat \<times> nat) option \<times> kernel) outcome" where
  "file_and_fd c s =
     (let (fo, s) = filealloc s in
      case fo of
        None \<Rightarrow> Ok (None, s)
      | Some f \<Rightarrow>
          bindo (fdalloc c f s) (\<lambda>(fd, s). case fd of
            None \<Rightarrow> bindo (fileclose f s) (\<lambda>s. Ok (None, s))
          | Some fd \<Rightarrow> Ok (Some (f, fd), s)))"

text \<open>\<^verbatim>\<open>sys_memo\<close>; the spin lock at the start of the shared page is left out, like all spin locks.\<close>

definition sys_memo :: "nat \<Rightarrow> kernel \<Rightarrow> (progress \<times> kernel) outcome" where
  "sys_memo c s =
     bindo (file_and_fd c s) (\<lambda>(r, s). case r of
       None \<Rightarrow> Ok (Done (-1), s)
     | Some (f, fd) \<Rightarrow>
         let s = upd_file f (\<lambda>x. x\<lparr>f_type := FD_MEMO, f_off := 0, f_readable := True, f_writable := True\<rparr>) s in
         bindo (getshared c 2 s) (\<lambda>(ch, s).
         with_cur c (\<lambda>me x s.
           bindo (on_vm (ustore32 (p_pgdir x) (ch + 52) 0) s) (\<lambda>s. Ok (Done (int fd), s))) s))"

section \<open>Opening and creating\<close>

abbreviation (input) O_WRONLY :: u32 where "O_WRONLY \<equiv> 1"
abbreviation (input) O_RDWR :: u32 where "O_RDWR \<equiv> 2"
abbreviation (input) O_CREATE :: u32 where "O_CREATE \<equiv> 0x200"

text \<open>The inode \<^verbatim>\<open>sys_open\<close> works on, locked; \<open>None\<close> when the call fails with nothing held.\<close>

definition open_inode :: "nat \<Rightarrow> u8 list \<Rightarrow> u32 \<Rightarrow> kernel \<Rightarrow> (nat option \<times> kernel) outcome" where
  "open_inode c path omode s =
     (if omode AND O_CREATE \<noteq> 0 then create c path T_FILE 0 0 s
      else bindo (namei (devsw_read c) (cwd_of c s) path s) (\<lambda>(ipo, s). case ipo of
        None \<Rightarrow> Ok (None, s)
      | Some ip \<Rightarrow>
          bindo (ilock ip s) (\<lambda>s.
            if i_type (inodes s ip) = T_DIR \<and> omode \<noteq> 0 then bindo (iunlockput ip s) (\<lambda>s. Ok (None, s))
            else Ok (Some ip, s))))"

definition sys_open :: "nat \<Rightarrow> kernel \<Rightarrow> (progress \<times> kernel) outcome" where
  "sys_open c s = or_fail s (argstr c 0 s) (\<lambda>(_, path). or_fail s (argint c 1 s) (\<lambda>omode.
     bindo (begin_op s) (\<lambda>s.
     bindo (open_inode c path omode s) (\<lambda>(ipo, s). case ipo of
       None \<Rightarrow> bindo (end_op s) (\<lambda>s. Ok (Done (-1), s))
     | Some ip \<Rightarrow>
         bindo (file_and_fd c s) (\<lambda>(r, s). case r of
           None \<Rightarrow> bindo (iunlockput ip s) (\<lambda>s. bindo (end_op s) (\<lambda>s. Ok (Done (-1), s)))
         | Some (f, fd) \<Rightarrow>
             bindo (iunlock ip s) (\<lambda>s.
             bindo (end_op s) (\<lambda>s.
               Ok (Done (int fd), upd_file f (\<lambda>x. x\<lparr>f_type := FD_INODE, f_ip := Some ip, f_off := 0,
                 f_readable := (omode AND O_WRONLY = 0),
                 f_writable := (omode AND O_WRONLY \<noteq> 0 \<or> omode AND O_RDWR \<noteq> 0)\<rparr>) s))))))))"

text \<open>\<^verbatim>\<open>sys_mkdir\<close> and \<^verbatim>\<open>sys_mknod\<close> fetch their arguments inside the transaction.\<close>

definition make_node :: "nat \<Rightarrow> (u8 list \<times> u16 \<times> u16 \<times> u16) option outcome \<Rightarrow> kernel \<Rightarrow> (progress \<times> kernel) outcome" where
  "make_node c args s =
     bindo args (\<lambda>a. case a of
       None \<Rightarrow> bindo (end_op s) (\<lambda>s. Ok (Done (-1), s))
     | Some (path, type, major, minor) \<Rightarrow>
         bindo (create c path type major minor s) (\<lambda>(ipo, s). case ipo of
           None \<Rightarrow> bindo (end_op s) (\<lambda>s. Ok (Done (-1), s))
         | Some ip \<Rightarrow> bindo (iunlockput ip s) (\<lambda>s. bindo (end_op s) (\<lambda>s. Ok (Done 0, s)))))"

definition sys_mkdir :: "nat \<Rightarrow> kernel \<Rightarrow> (progress \<times> kernel) outcome" where
  "sys_mkdir c s = bindo (begin_op s) (\<lambda>s.
     make_node c (bindo (argstr c 0 s) (\<lambda>r. Ok (map_option (\<lambda>(_, path). (path, T_DIR, 0, 0)) r))) s)"

definition sys_mknod :: "nat \<Rightarrow> kernel \<Rightarrow> (progress \<times> kernel) outcome" where
  "sys_mknod c s = bindo (begin_op s) (\<lambda>s.
     make_node c
       (bindo (argstr c 0 s) (\<lambda>r. case r of None \<Rightarrow> Ok None | Some (_, path) \<Rightarrow>
        bindo (argint c 1 s) (\<lambda>r. case r of None \<Rightarrow> Ok None | Some major \<Rightarrow>
        bindo (argint c 2 s) (\<lambda>r. case r of None \<Rightarrow> Ok None | Some minor \<Rightarrow>
          Ok (Some (path, T_DEV, ucast major, ucast minor)))))) s)"

definition sys_chdir :: "nat \<Rightarrow> kernel \<Rightarrow> (progress \<times> kernel) outcome" where
  "sys_chdir c s = bindo (begin_op s) (\<lambda>s.
     bindo (argstr c 0 s) (\<lambda>r. case r of
       None \<Rightarrow> bindo (end_op s) (\<lambda>s. Ok (Done (-1), s))
     | Some (_, path) \<Rightarrow>
         bindo (namei (devsw_read c) (cwd_of c s) path s) (\<lambda>(ipo, s). case ipo of
           None \<Rightarrow> bindo (end_op s) (\<lambda>s. Ok (Done (-1), s))
         | Some ip \<Rightarrow>
             bindo (ilock ip s) (\<lambda>s.
             if i_type (inodes s ip) \<noteq> T_DIR then
               bindo (iunlockput ip s) (\<lambda>s. bindo (end_op s) (\<lambda>s. Ok (Done (-1), s)))
             else
               bindo (iunlock ip s) (\<lambda>s.
               case cwd_of c s of
                 None \<Rightarrow> UB
               | Some d \<Rightarrow>
                   bindo (iput d s) (\<lambda>s.
                   bindo (end_op s) (\<lambda>s.
                   with_cur c (\<lambda>me x s. Ok (Done 0, upd_cur me (\<lambda>x. x\<lparr>p_cwd := Some ip\<rparr>) s)) s)))))))"

section \<open>exec and pipe\<close>

text \<open>The argument vector: entry \<open>i\<close> is next; 32 entries at most, the terminating null included.\<close>

fun fetch_argv :: "nat \<Rightarrow> u32 \<Rightarrow> nat \<Rightarrow> nat \<Rightarrow> kernel \<Rightarrow> u8 list list option outcome" where
  "fetch_argv c uargv 0 i s = Ok None"
| "fetch_argv c uargv (Suc k) i s =
     bindo (fetchint c (uargv + 4 * of_nat i) s) (\<lambda>r. case r of
       None \<Rightarrow> Ok None
     | Some uarg \<Rightarrow>
         if uarg = 0 then Ok (Some [])
         else bindo (fetchstr c uarg s) (\<lambda>r. case r of
           None \<Rightarrow> Ok None
         | Some n \<Rightarrow>
             bindo (ustring c uarg n s) (\<lambda>a.
             bindo (fetch_argv c uargv k (Suc i) s) (\<lambda>r. Ok (map_option ((#) a) r)))))"

definition sys_exec :: "nat \<Rightarrow> kernel \<Rightarrow> (progress \<times> kernel) outcome" where
  "sys_exec c s = or_fail s (argstr c 0 s) (\<lambda>(_, path). or_fail s (argint c 1 s) (\<lambda>uargv.
     or_fail s (fetch_argv c uargv MAXARG 0 s) (\<lambda>argv. ret (exec c path argv s))))"

definition sys_pipe :: "nat \<Rightarrow> kernel \<Rightarrow> (progress \<times> kernel) outcome" where
  "sys_pipe c s = or_fail s (argptr c 0 8 s) (\<lambda>fd.
     bindo (pipealloc s) (\<lambda>(r, s). case r of
       None \<Rightarrow> Ok (Done (-1), s)
     | Some (rf, w) \<Rightarrow>
         bindo (fdalloc c rf s) (\<lambda>(fd0, s). case fd0 of
           None \<Rightarrow> bindo (fileclose rf s) (\<lambda>s. bindo (fileclose w s) (\<lambda>s. Ok (Done (-1), s)))
         | Some fd0 \<Rightarrow>
             bindo (fdalloc c w s) (\<lambda>(fd1, s). with_cur c (\<lambda>me x s. case fd1 of
               None \<Rightarrow>
                 bindo (fileclose rf (set_fd me fd0 None s)) (\<lambda>s.
                 bindo (fileclose w s) (\<lambda>s. Ok (Done (-1), s)))
             | Some fd1 \<Rightarrow>
                 bindo (on_vm (ustore32 (p_pgdir x) fd (of_nat fd0)) s) (\<lambda>s.
                 bindo (on_vm (ustore32 (p_pgdir x) (fd + 4) (of_nat fd1)) s) (\<lambda>s.
                   Ok (Done 0, s)))) s))))"

end
