(* ===== verification/Trap.thy ===== *)
theory Trap
  imports Sysfile
begin

text \<open>
  The way into the kernel: the table and the dispatch of system calls, \<^verbatim>\<open>syscall.c\<close>, and traps and
  interrupts, \<^verbatim>\<open>trap.c\<close>.
\<close>

definition syscalls :: "(nat \<Rightarrow> kernel \<Rightarrow> (progress \<times> kernel) outcome) list" where
  "syscalls = [sys_fork, sys_exit, sys_wait, sys_pipe, sys_read, sys_kill, sys_exec, sys_fstat, sys_chdir, sys_dup,
     sys_getpid, sys_sbrk, sys_sleep, sys_uptime, sys_open, sys_write, sys_mknod, sys_unlink, sys_link, sys_mkdir,
     sys_close, sys_trace, sys_getsharem, sys_releasesharem, sys_split, sys_memo, sys_getmemo, sys_setmemo, sys_att]"

definition set_eax :: "nat \<Rightarrow> u32 \<Rightarrow> kernel \<Rightarrow> kernel" where
  "set_eax me v s = upd_cur me (\<lambda>x. x\<lparr>p_tf := (p_tf x)\<lparr>tf_eax := v\<rparr>\<rparr>) s"

text \<open>System calls are numbered from 1; every number up to 29 has a handler.\<close>

definition syscall :: "nat \<Rightarrow> kernel \<Rightarrow> (progress \<times> kernel) outcome" where
  "syscall c s = with_cur c (\<lambda>me x s.
     let num = sint (tf_eax (p_tf x)) in
     if num > 0 \<and> num < 30 then
       bindo ((syscalls ! (nat num - 1)) c s) (\<lambda>(r, s). case r of
         Done v \<Rightarrow> Ok (r, set_eax me (of_int v) s)
       | _ \<Rightarrow> Ok (r, s))
     else Ok (Done (-1), set_eax me (-1) s)) s"

definition killed :: "nat \<Rightarrow> kernel \<Rightarrow> bool" where
  "killed c s = (case myproc c (pt s) of None \<Rightarrow> False | Some p \<Rightarrow> p_killed (procs (pt s) p))"

definition exit_if :: "bool \<Rightarrow> nat \<Rightarrow> kernel \<Rightarrow> (progress \<times> kernel) outcome" where
  "exit_if b c s = (if b then bindo (exit c s) (\<lambda>s. Ok (Exited, s)) else Ok (Done 0, s))"

text \<open>The interrupt proper: \<open>inp\<close> are the characters the keyboard or the serial line delivers. The disk
  interrupt has nothing left to do, since \<^verbatim>\<open>iderw\<close> includes the completion of the request.\<close>

definition interrupt :: "nat \<Rightarrow> trapframe \<Rightarrow> nat list \<Rightarrow> kernel \<Rightarrow> kernel outcome" where
  "interrupt c tf inp s =
     (let n = unat (tf_trapno tf) in
      if n = 32 then (if c = 0 then on_pt (wakeup ChTicks) (s\<lparr>ticks := ticks s + 1\<rparr>) else Ok s)
      else if n = 46 \<or> n = 47 then Ok s
      else if n = 33 \<or> n = 36 then consoleintr c inp s
      else if n = 39 \<or> n = 63 then Ok s
      else case myproc c (pt s) of
          None \<Rightarrow> Panic ''trap''
        | Some me \<Rightarrow>
            if tf_cs tf AND 3 = 0 then Panic ''trap'' else Ok (upd_cur me (\<lambda>x. x\<lparr>p_killed := True\<rparr>) s))"

text \<open>The end of \<^verbatim>\<open>trap\<close>. A process that gives up the CPU goes on in \<open>trap_resume\<close> when it runs again.\<close>

definition trap_end :: "nat \<Rightarrow> trapframe \<Rightarrow> kernel \<Rightarrow> (progress \<times> kernel) outcome" where
  "trap_end c tf s = exit_if (killed c s \<and> tf_cs tf AND 3 = 3) c s"

definition trap_resume :: "nat \<Rightarrow> trapframe \<Rightarrow> kernel \<Rightarrow> (progress \<times> kernel) outcome" where
  "trap_resume c tf s = bindo (show_title c s) (\<lambda>s. trap_end c tf s)"

definition trap :: "nat \<Rightarrow> trapframe \<Rightarrow> nat list \<Rightarrow> kernel \<Rightarrow> (progress \<times> kernel) outcome" where
  "trap c tf inp s =
     (if unat (tf_trapno tf) = 64 then
        with_cur c (\<lambda>me x s.
          if p_killed x then exit_if True c s
          else bindo (syscall c (upd_cur me (\<lambda>x. x\<lparr>p_tf := tf\<rparr>) s)) (\<lambda>(r, s). case r of
            Done v \<Rightarrow> exit_if (killed c s) c s
          | _ \<Rightarrow> Ok (r, s))) s
      else
        bindo (interrupt c tf inp s) (\<lambda>s.
        if killed c s \<and> tf_cs tf AND 3 = 3 then exit_if True c s
        else if unat (tf_trapno tf) = 32 then
          bindo (on_pt (timer_tick c) s) (\<lambda>s'.
            if myproc c (pt s) \<noteq> None \<and> myproc c (pt s') = None then Ok (Blocked 0, s') else trap_end c tf s')
        else trap_end c tf s))"

end
