(* ===== verification/Fs_Frame.thy ===== *)
theory Fs_Frame
  imports Fs
begin

text \<open>
  What the file system leaves alone. The operations of \<open>Bio\<close>, \<open>Log\<close> and \<open>Fs\<close> change only their own
  part of the state; the operations that may read or write a device change the rest only the
  way the device does. The interface is a relation between states that holds of every
  file-system step and of every device access.
\<close>

named_theorems frames \<open>operations that keep the state outside the file system\<close>

lemma fs_more_bio: "bio.more s' = bio.more s \<Longrightarrow> fs.more s' = fs.more s" for s s' :: "'a fs_scheme"
  by (cases s; cases s'; simp)

lemma fs_more_upd [simp]:
  "fs.more (upd_inode ip f s) = fs.more s" "fs.more (upd_data i g s) = fs.more s" "fs.more (releasesleep_inode ip s) = fs.more s"
  for s :: "'a fs_scheme"
  by (simp_all add: upd_inode_def upd_data_def upd_buf_def releasesleep_inode_def)

lemma bread_frame [frames]: "bread d b s = Ok (i, s') \<Longrightarrow> fs.more s' = fs.more s" for s :: "'a fs_scheme"
  by (rule fs_more_bio [OF bread_more])

lemma brelse_frame [frames]: "brelse i s = Ok s' \<Longrightarrow> fs.more s' = fs.more s" for s :: "'a fs_scheme"
  by (rule fs_more_bio [OF brelse_more])

lemma log_write_frame [frames]: "log_write i s = Ok s' \<Longrightarrow> fs.more s' = fs.more s" for s :: "'a fs_scheme"
  by (auto simp: log_write_def Let_def upd_buf_def split: if_splits)

lemma readsb_frame [frames]: "readsb d s = Ok (x, s') \<Longrightarrow> fs.more s' = fs.more s" for s :: "'a fs_scheme"
  by (auto simp: readsb_def outcome_simps dest!: bread_frame brelse_frame log_write_frame)

lemma begin_op_frame [frames]: "begin_op s = Ok s' \<Longrightarrow> fs.more s' = fs.more s" for s :: "'a fs_scheme"
  by (auto simp: begin_op_def split: if_splits)

lemma commit_frame [frames]: "commit s = Ok s' \<Longrightarrow> fs.more s' = fs.more s" for s :: "'a fs_scheme"
  by (auto simp: commit_def write_log_def install_trans_def outcome_simps
      dest!: write_log_loop_more write_head_more install_trans_loop_more fs_more_bio split: if_splits)

lemma end_op_frame [frames]: "end_op s = Ok s' \<Longrightarrow> fs.more s' = fs.more s" for s :: "'a fs_scheme"
  by (auto simp: end_op_def Let_def outcome_simps dest!: commit_frame split: if_splits)

lemma bzero_frame [frames]: "bzero d b s = Ok s' \<Longrightarrow> fs.more s' = fs.more s"
  by (auto simp: bzero_def outcome_simps dest!: bread_frame brelse_frame log_write_frame)

lemma balloc_loop_frame [frames]: "balloc_loop d bs s = Ok (b, s') \<Longrightarrow> fs.more s' = fs.more s"
  by (induction bs arbitrary: s) (auto simp: outcome_simps dest!: bread_frame brelse_frame log_write_frame bzero_frame split: option.splits)

lemma balloc_frame [frames]: "balloc d s = Ok (b, s') \<Longrightarrow> fs.more s' = fs.more s"
  by (auto simp: balloc_def dest!: balloc_loop_frame)

lemma bfree_frame [frames]: "bfree d b s = Ok s' \<Longrightarrow> fs.more s' = fs.more s"
  by (auto simp: bfree_def Let_def outcome_simps dest!: bread_frame brelse_frame log_write_frame readsb_frame split: if_splits)

lemma iget_frame [frames]: "iget d n s = Ok (i, s') \<Longrightarrow> fs.more s' = fs.more s"
  by (auto simp: iget_def split: option.splits)

lemma ialloc_loop_frame [frames]: "ialloc_loop d t ns s = Ok (i, s') \<Longrightarrow> fs.more s' = fs.more s"
proof (induction ns arbitrary: s)
  case (Cons n ns)
  obtain bp s1 where b: "bread d (IBLOCK (of_nat n) (sb s)) s = Ok (bp, s1)"
    using Cons.prems by (auto simp only: ialloc_loop.simps outcome_simps)
  show ?case
  proof (cases "get16 (b_data (bufs s1 bp)) (dip_off (of_nat n)) = 0")
    case True
    then obtain s2 s3 where "log_write bp (upd_data bp (\<lambda>x. put16 (splice x (dip_off (of_nat n)) (replicate 64 0)) (dip_off (of_nat n)) t) s1) = Ok s2"
        "brelse bp s2 = Ok s3" "iget d (of_nat n) s3 = Ok (i, s')"
      using Cons.prems b
      by (auto simp only: ialloc_loop.simps Let_def bindo.simps case_prod_conv simp_thms if_True outcome_simps)
    then show ?thesis using b by (auto dest!: bread_frame brelse_frame log_write_frame iget_frame)
  next
    case False
    then show ?thesis using Cons.prems Cons.IH b
      by (simp only: ialloc_loop.simps Let_def bindo.simps case_prod_conv if_False outcome_simps)
         (auto dest!: bread_frame brelse_frame)
  qed
qed simp

lemma ialloc_frame [frames]: "ialloc d t s = Ok (i, s') \<Longrightarrow> fs.more s' = fs.more s"
  by (auto simp: ialloc_def dest!: ialloc_loop_frame)

lemma iupdate_frame [frames]: "iupdate i s = Ok s' \<Longrightarrow> fs.more s' = fs.more s"
  by (auto simp: iupdate_def outcome_simps dest!: bread_frame brelse_frame log_write_frame)

lemma idup_frame [frames]: "idup i s = (j, s') \<Longrightarrow> fs.more s' = fs.more s"
  by (auto simp: idup_def)

lemma ilock_frame [frames]: "ilock i s = Ok s' \<Longrightarrow> fs.more s' = fs.more s"
  by (auto simp: ilock_def acquiresleep_inode_def Let_def outcome_simps dest!: bread_frame brelse_frame log_write_frame split: if_splits)

lemma iunlock_frame [frames]: "iunlock i s = Ok s' \<Longrightarrow> fs.more s' = fs.more s"
  by (auto simp: iunlock_def split: if_splits)

lemma bmap_frame [frames]: "bmap i n s = Ok (a, s') \<Longrightarrow> fs.more s' = fs.more s"
  by (auto simp: bmap_def Let_def outcome_simps dest!: bread_frame brelse_frame log_write_frame balloc_frame split: if_splits)

lemma itrunc_direct_frame [frames]: "itrunc_direct i ns s = Ok s' \<Longrightarrow> fs.more s' = fs.more s"
  by (induction ns arbitrary: s) (auto simp: outcome_simps dest!: bfree_frame split: if_splits)

lemma itrunc_indirect_frame [frames]: "itrunc_indirect i b ns s = Ok s' \<Longrightarrow> fs.more s' = fs.more s"
  by (induction ns arbitrary: s) (auto simp: Let_def outcome_simps dest!: bfree_frame split: if_splits)

lemma itrunc_frame [frames]: "itrunc i s = Ok s' \<Longrightarrow> fs.more s' = fs.more s"
  by (auto simp: itrunc_def outcome_simps dest!: bread_frame brelse_frame log_write_frame bfree_frame itrunc_direct_frame itrunc_indirect_frame iupdate_frame split: if_splits)

lemma iput_frame [frames]: "iput i s = Ok s' \<Longrightarrow> fs.more s' = fs.more s"
  by (auto simp: iput_def acquiresleep_inode_def outcome_simps dest!: itrunc_frame iupdate_frame split: if_splits)

lemma iunlockput_frame [frames]: "iunlockput i s = Ok s' \<Longrightarrow> fs.more s' = fs.more s"
  by (auto simp: iunlockput_def outcome_simps dest!: iunlock_frame iput_frame)

lemma readi_loop_frame [frames]: "readi_loop i off n s = Ok (xs, s') \<Longrightarrow> fs.more s' = fs.more s"
proof (induction n arbitrary: off s xs s' rule: less_induct)
  case (less n)
  have "n - min n (512 - off mod 512) < n" if "n \<noteq> 0" using that by (auto simp: min_def)
  note IH = less.IH [OF this, rotated]
  from less.prems show ?case
    by (subst (asm) readi_loop.simps) (auto simp: Let_def outcome_simps dest!: bread_frame brelse_frame log_write_frame bmap_frame IH split: if_splits)
qed

lemma writei_loop_frame [frames]: "writei_loop i off src s = Ok s' \<Longrightarrow> fs.more s' = fs.more s"
proof (induction src arbitrary: off s s' rule: measure_induct_rule [of length])
  case (less src)
  have "length (drop (min (length src) (512 - off mod 512)) src) < length src" if "src \<noteq> []" using that by (auto simp: min_def)
  note IH = less.IH [OF this, rotated]
  from less.prems show ?case
    by (subst (asm) writei_loop.simps) (auto simp: Let_def outcome_simps dest!: bread_frame brelse_frame log_write_frame bmap_frame IH split: if_splits)
qed

section \<open>Operations that may reach a device\<close>

locale fs_frame =
  fixes R :: "'a fs_scheme \<Rightarrow> 'a fs_scheme \<Rightarrow> bool" and dr :: "'a fs_scheme devread" and dw :: "'a fs_scheme devwrite"
  assumes fs_step: "fs.more s' = fs.more s \<Longrightarrow> R s s'"
    and trans: "R s s1 \<Longrightarrow> R s1 s2 \<Longrightarrow> R s s2"
    and dev_read: "dr k = Some f \<Longrightarrow> f ip n s = Ok (r, xs, s') \<Longrightarrow> R s s'"
    and dev_write: "dw k = Some g \<Longrightarrow> g ip ys s = Ok (r, s') \<Longrightarrow> R s s'"
begin

lemma refl: "R s s"
  by (rule fs_step) simp

lemma readi_keeps: "readi dr ip off n s = Ok (r, xs, s') \<Longrightarrow> R s s'"
  by (auto simp: readi_def Let_def outcome_simps refl dest!: readi_loop_frame
      intro: fs_step dev_read split: if_splits option.splits)

lemma writei_keeps: "writei dw ip src off n s = Ok (r, s') \<Longrightarrow> R s s'"
  by (auto simp: writei_def Let_def outcome_simps refl dest!: writei_loop_frame iupdate_frame
      intro: fs_step dev_write split: if_splits option.splits)

lemma fs_steps [frames]:
  "iput ip s = Ok s' \<Longrightarrow> R s s'" "ilock ip s = Ok s' \<Longrightarrow> R s s'" "iunlock ip s = Ok s' \<Longrightarrow> R s s'"
  "iunlockput ip s = Ok s' \<Longrightarrow> R s s'" "iget d m s = Ok (i, s') \<Longrightarrow> R s s'" "iupdate ip s = Ok s' \<Longrightarrow> R s s'"
  "ialloc d t s = Ok (i, s') \<Longrightarrow> R s s'" "begin_op s = Ok s' \<Longrightarrow> R s s'" "end_op s = Ok s' \<Longrightarrow> R s s'"
  by (auto intro!: fs_step dest: frames)

lemma dirlookup_loop_keeps: "dirlookup_loop dr dp name offs s = Ok (r, s') \<Longrightarrow> R s s'"
proof (induction offs arbitrary: s)
  case (Cons off offs)
  then show ?case
    by (auto simp: Let_def outcome_simps refl dest!: readi_keeps intro: trans fs_steps split: if_splits)
qed (simp add: refl)

lemma dirlookup_keeps: "dirlookup dr dp name s = Ok (r, s') \<Longrightarrow> R s s'"
  by (auto simp: dirlookup_def dest!: dirlookup_loop_keeps split: if_splits)

lemma dirlink_loop_keeps: "dirlink_loop dr dp offs off s = Ok (r, s') \<Longrightarrow> R s s'"
proof (induction offs arbitrary: s off)
  case (Cons o' offs)
  then show ?case
    by (auto simp: outcome_simps refl dest!: readi_keeps intro: trans split: if_splits)
qed (simp add: refl)

lemma dirlink_keeps: "dirlink dr dw dp name inum s = Ok (r, s') \<Longrightarrow> R s s'"
  by (auto simp: dirlink_def outcome_simps dest!: dirlookup_keeps dirlink_loop_keeps writei_keeps fs_steps
      intro: trans split: option.splits if_splits)

lemma namex_loop_keeps: "namex_loop dr parent path name ip s = Ok (r, nm, s') \<Longrightarrow> R s s'"
proof (induction path arbitrary: parent name ip s rule: measure_induct_rule [of length])
  case (less path)
  show ?case
  proof (cases "skipelem path")
    case None
    then show ?thesis using less.prems
      by (subst (asm) namex_loop.simps) (auto simp: outcome_simps refl intro: fs_steps split: if_splits)
  next
    case (Some q)
    obtain path' name' where q: "skipelem path = Some (path', name')" using Some by (cases q) auto
    note IH = less.IH [OF skipelem_shorter [OF q]]
    show ?thesis using less.prems
      by (subst (asm) namex_loop.simps)
         (auto simp: q outcome_simps dest!: dirlookup_keeps fs_steps IH intro: trans split: if_split_asm option.split_asm)
  qed
qed

lemma idup_keeps: "R s (snd (idup ip s))"
  by (rule fs_step) (simp add: idup_def)

lemma namex_keeps:
  assumes "namex dr cwd path parent s = Ok (r, nm, s')"
  shows "R s s'"
proof -
  obtain ip s1 where i: "(if path \<noteq> [] \<and> hd path = slash then iget ROOTDEV ROOTINO s
      else case cwd of None \<Rightarrow> UB | Some c \<Rightarrow> Ok (idup c s)) = Ok (ip, s1)"
    and l: "namex_loop dr parent path [] ip s1 = Ok (r, nm, s')"
    using assms by (auto simp: namex_def outcome_simps)
  have "R s s1" using i idup_keeps [of s] by (auto dest!: fs_steps split: if_split_asm option.split_asm) (metis snd_conv)+
  then show ?thesis using namex_loop_keeps [OF l] by (rule trans)
qed

lemma namei_keeps: "namei dr cwd path s = Ok (r, s') \<Longrightarrow> R s s'"
  by (auto simp: namei_def outcome_simps dest!: namex_keeps)

lemma nameiparent_keeps: "nameiparent dr cwd path s = Ok (r, nm, s') \<Longrightarrow> R s s'"
  unfolding nameiparent_def by (rule namex_keeps)

end

end
