(* ===== verification/Descriptors.thy ===== *)
theory Descriptors
  imports Trap Fs_Frame
begin

text \<open>
  The reference counts of open files: in every state the system calls produce, the count of an
  open file is the number of descriptors of processes that refer to it. References
  that kernel code holds in a local variable between two steps are counted in \<open>e\<close>.
\<close>

section \<open>The invariant\<close>

definition live :: "procstate \<Rightarrow> bool" where
  "live st \<longleftrightarrow> st \<noteq> UNUSED \<and> st \<noteq> ZOMBIE"

definition ofiles :: "kernel \<Rightarrow> nat \<Rightarrow> nat \<Rightarrow> nat option" where
  "ofiles s p = p_ofile (procs (pt s) p)"

definition refs :: "(nat \<Rightarrow> nat \<Rightarrow> nat option) \<Rightarrow> nat \<Rightarrow> int" where
  "refs t f = (\<Sum>(p, fd)\<in>{..<NPROC} \<times> {..<NOFILE}. if t p fd = Some f then 1 else 0)"

definition fds_ok :: "ptable \<Rightarrow> bool" where
  "fds_ok t \<longleftrightarrow>
     (\<forall>p<NPROC. \<forall>fd<NOFILE. \<forall>f. p_ofile (procs t p) fd = Some f \<longrightarrow> f < NFILE \<and> live (p_state (procs t p))) \<and>
     (\<forall>c p. myproc c t = Some p \<longrightarrow> p < NPROC \<and> live (p_state (procs t p)) \<and> (\<forall>d. myproc d t = Some p \<longrightarrow> d = c))"

definition files_ext :: "(nat \<Rightarrow> int) \<Rightarrow> kernel \<Rightarrow> bool" where
  "files_ext e s \<longleftrightarrow> fds_ok (pt s) \<and> (\<forall>f<NFILE. f_ref (ftable s f) = refs (ofiles s) f + e f)"

abbreviation (input) files_inv :: "kernel \<Rightarrow> bool" where
  "files_inv \<equiv> files_ext (\<lambda>_. 0)"

text \<open>Steps that touch neither the file table nor the descriptors.\<close>

definition pkeep :: "ptable \<Rightarrow> ptable \<Rightarrow> bool" where
  "pkeep t t' \<longleftrightarrow> (\<forall>p. p_ofile (procs t' p) = p_ofile (procs t p)) \<and>
     (\<forall>p. live (p_state (procs t' p)) = live (p_state (procs t p))) \<and> (\<forall>c. myproc c t' = myproc c t)"

definition fkeep :: "kernel \<Rightarrow> kernel \<Rightarrow> bool" where
  "fkeep s s' \<longleftrightarrow> ftable s' = ftable s \<and> pkeep (pt s) (pt s')"

lemma pkeep_refl [simp]: "pkeep t t"
  by (simp add: pkeep_def)

lemma pkeep_trans: "pkeep t t1 \<Longrightarrow> pkeep t1 t2 \<Longrightarrow> pkeep t t2"
  by (simp add: pkeep_def)

lemma fkeep_refl [simp]: "fkeep s s"
  by (simp add: fkeep_def)

lemma fkeep_trans: "fkeep s s1 \<Longrightarrow> fkeep s1 s2 \<Longrightarrow> fkeep s s2"
  by (auto simp: fkeep_def intro: pkeep_trans)

lemma kernel_fields:
  assumes "fs.more s' = fs.more s"
  shows "ftable s' = ftable s" "pt s' = pt s" "kvm s' = kvm s" "con s' = con s"
proof -
  have "(ftable s', pt s', kvm s', con s') = (ftable s, pt s, kvm s, con s)"
    using assms by (cases s; cases s') (simp only: fs.select_convs kernel.ext_inject kernel.select_convs)
  then show "ftable s' = ftable s" "pt s' = pt s" "kvm s' = kvm s" "con s' = con s" by simp_all
qed

lemma fkeep_fs: "fs.more s' = fs.more s \<Longrightarrow> fkeep s s'"
  using kernel_fields [of s' s] by (simp add: fkeep_def)

lemma files_ext_keep: "fkeep s s' \<Longrightarrow> files_ext e s \<Longrightarrow> files_ext e s'"
proof -
  assume k: "fkeep s s'" and f: "files_ext e s"
  have "ofiles s' = ofiles s" using k by (auto simp: ofiles_def fkeep_def pkeep_def fun_eq_iff)
  moreover have "fds_ok (pt s')" using k f by (auto simp: files_ext_def fds_ok_def fkeep_def pkeep_def)
  ultimately show ?thesis using k f by (simp add: files_ext_def fkeep_def)
qed

section \<open>Wakeups and devices\<close>

lemma qpush_keep: "qpush p t = Ok t' \<Longrightarrow> pkeep t t'"
  by (auto simp: qpush_def Let_def outcome_simps pkeep_def myproc_def upd_proc_def split: if_splits option.splits)

lemma wakeup1_at_keep: "wakeup1_at ch p t = Ok t' \<Longrightarrow> pkeep t t'"
proof -
  assume a: "wakeup1_at ch p t = Ok t'"
  have "pkeep t (upd_proc p (\<lambda>x. x\<lparr>p_state := RUNNABLE, p_priority := promote (p_priority x)\<rparr>) t)"
    if "p_state (procs t p) = SLEEPING" using that by (auto simp: pkeep_def live_def myproc_def upd_proc_def)
  then show ?thesis using a wakeup1_at_eq [of t p ch] qpush_keep pkeep_trans
    by (cases "p_state (procs t p) = SLEEPING \<and> p_chan (procs t p) = ch") (auto simp: wakeup1_at_def [of ch p t] split: if_splits)
qed

lemma wakeup_keep: "wakeup ch t = Ok t' \<Longrightarrow> pkeep t t'"
proof -
  have "wakeup1_loop c ps t = Ok t' \<Longrightarrow> pkeep t t'" for c ps t
    by (induction ps arbitrary: t) (auto simp: outcome_simps dest!: wakeup1_at_keep intro: pkeep_trans)
  then show "wakeup ch t = Ok t' \<Longrightarrow> pkeep t t'" by (auto simp: wakeup_def wakeup1_def)
qed

lemma on_pt_wakeup_keep: "on_pt (wakeup ch) s = Ok s' \<Longrightarrow> fkeep s s'"
  by (auto simp: on_pt_def outcome_simps fkeep_def dest!: wakeup_keep)

lemma on_vm_keep: "on_vm f s = Ok s' \<Longrightarrow> fkeep s s'"
  by (auto simp: on_vm_def outcome_simps fkeep_def)

lemma on_con_keep: "on_con f s = Ok s' \<Longrightarrow> fkeep s s'"
  by (auto simp: on_con_def outcome_simps fkeep_def)

lemma consoleread_loop_keep:
  "consoleread_loop c n got s = Ok ((Done k, xs), s') \<Longrightarrow> fkeep s s'"
proof (induction n arbitrary: got s)
  case (Suc n)
  let ?s = "s\<lparr>con := (con s)\<lparr>in_r := in_r (con s) + 1\<rparr>\<rparr>"
  have k: "fkeep s ?s" by (simp add: fkeep_def)
  show ?case using Suc.prems Suc.IH [of _ ?s] fkeep_trans [OF k] k
    by (auto simp: Let_def with_cur_def outcome_simps split: if_splits option.splits)
qed auto

lemma lock_keep: "ilock ip s = Ok s' \<Longrightarrow> fkeep s s'" "iunlock ip s = Ok s' \<Longrightarrow> fkeep s s'"
  by (auto dest!: ilock_frame iunlock_frame intro: fkeep_fs)

lemma consoleread_keep:
  assumes "consoleread c ip n s = Ok ((Done k, xs), s')"
  shows "fkeep s s'"
proof -
  obtain s1 x where u: "iunlock ip s = Ok s1" "consoleread_loop c (nat n) [] s1 = Ok x"
    and x: "(case x of (r, s) \<Rightarrow> case fst r of Blocked _ \<Rightarrow> Ok (r, s) | _ \<Rightarrow> bindo (ilock ip s) (\<lambda>s. Ok (r, s))) = Ok ((Done k, xs), s')"
    using assms unfolding consoleread_def bindo_Ok_iff by blast
  obtain r s2 where rs: "x = (r, s2)" by (cases x)
  have e: "(case fst r of Blocked _ \<Rightarrow> Ok (r, s2) | _ \<Rightarrow> bindo (ilock ip s2) (\<lambda>s. Ok (r, s))) = Ok ((Done k, xs), s')"
    using x rs by simp
  have r: "r = (Done k, xs)" "ilock ip s2 = Ok s'"
    using e by (cases r; cases "fst r"; auto simp: outcome_simps)+
  then show ?thesis using u rs lock_keep consoleread_loop_keep [of c "nat n" "[]" s1 k xs s2] by (metis fkeep_trans)
qed

lemma devsw_keep:
  "devsw_read c m = Some f \<Longrightarrow> f ip n s = Ok (r, xs, s') \<Longrightarrow> fkeep s s'"
  "devsw_write c m = Some g \<Longrightarrow> g ip ys s = Ok (r, s') \<Longrightarrow> fkeep s s'"
proof -
  show "devsw_write c m = Some g \<Longrightarrow> g ip ys s = Ok (r, s') \<Longrightarrow> fkeep s s'"
    by (auto simp: devsw_write_def consolewrite_def outcome_simps dest!: lock_keep on_con_keep split: if_splits)
       (meson fkeep_trans)
  assume a: "devsw_read c m = Some f" "f ip n s = Ok (r, xs, s')"
  then obtain q ys s1 where "consoleread c ip n s = Ok ((q, ys), s1)" "(case q of Done k \<Rightarrow> Ok (k, ys, s1) | _ \<Rightarrow> Wait) = Ok (r, xs, s')"
    by (auto simp: devsw_read_def outcome_simps split: if_split_asm)
  then show "fkeep s s'" by (cases q) (auto intro: consoleread_keep)
qed

interpretation fsk: fs_frame fkeep "devsw_read c" "devsw_write c" for c
  by unfold_locales (auto intro: fkeep_fs fkeep_trans devsw_keep)

section \<open>Counting\<close>

lemma refs_update:
  assumes "p < NPROC" "fd < NOFILE"
  shows "refs (t(p := (t p)(fd := v))) f =
    refs t f + (if v = Some f then 1 else 0) - (if t p fd = Some f then 1 else 0)"
proof -
  let ?A = "{..<NPROC} \<times> {..<NOFILE}" let ?t = "t(p := (t p)(fd := v))"
  let ?g = "\<lambda>(t :: nat \<Rightarrow> nat \<Rightarrow> nat option) (q, d). if t q d = Some f then 1 else 0 :: int"
  have m: "(p, fd) \<in> ?A" using assms by simp
  have "sum (?g ?t) (?A - {(p, fd)}) = sum (?g t) (?A - {(p, fd)})" by (rule sum.cong) (auto split: if_splits)
  then show ?thesis unfolding refs_def using sum.remove [OF _ m, of "?g ?t"] sum.remove [OF _ m, of "?g t"] by simp
qed

lemma refs_nonneg: "0 \<le> refs t f"
  unfolding refs_def by (rule sum_nonneg) auto

lemma ofiles_set_fd: "ofiles (set_fd p fd v s) = (ofiles s)(p := (ofiles s p)(fd := v))"
  by (auto simp: ofiles_def set_fd_def upd_cur_def fun_eq_iff)

lemma set_fd_ext:
  assumes inv: "files_ext e s" and p: "p < NPROC" "fd < NOFILE" "v = Some f \<or> v = None"
    and f: "v = Some f \<Longrightarrow> f < NFILE \<and> live (p_state (procs (pt s) p))"
  shows "files_ext (\<lambda>g. e g - (if v = Some g then 1 else 0) + (if ofiles s p fd = Some g then 1 else 0)) (set_fd p fd v s)"
proof -
  have "fds_ok (pt (set_fd p fd v s))"
    using inv f p(3) by (auto simp: files_ext_def fds_ok_def set_fd_def upd_cur_def upd_proc_def myproc_def split: if_splits)
  moreover have "ftable (set_fd p fd v s) = ftable s" by (simp add: set_fd_def upd_cur_def)
  ultimately show ?thesis using inv by (auto simp: files_ext_def ofiles_set_fd refs_update [OF p(1,2)])
qed

lemma upd_file_simps [simp]: "ofiles (upd_file f h s) = ofiles s" "pt (upd_file f h s) = pt s"
  "ftable (upd_file f h s) = (ftable s)(f := h (ftable s f))"
  by (simp_all add: upd_file_def ofiles_def fun_eq_iff)

lemma upd_file_ext:
  assumes "files_ext e s" "f < NFILE"
    and "d = e f + f_ref (h (ftable s f)) - f_ref (ftable s f)"
  shows "files_ext (e(f := d)) (upd_file f h s)"
  using assms by (auto simp: files_ext_def)

lemma upd_file_same: "files_ext e s \<Longrightarrow> f_ref (h (ftable s f)) = f_ref (ftable s f) \<Longrightarrow> files_ext e (upd_file f h s)"
  by (auto simp: files_ext_def)

lemma filedup_ext: "filedup f s = Ok s' \<Longrightarrow> f < NFILE \<Longrightarrow> files_ext e s \<Longrightarrow> files_ext (e(f := e f + 1)) s'"
  using upd_file_ext [of e s f "e f + 1" "\<lambda>x. x\<lparr>f_ref := f_ref x + 1\<rparr>"] by (auto simp: filedup_def split: if_splits)

lemma filealloc_ext:
  "filealloc s = (Some f, s') \<Longrightarrow> files_ext e s \<Longrightarrow> f < NFILE \<and> files_ext (e(f := e f + 1)) s' \<and> pt s' = pt s"
  using upd_file_ext [of e s f "e f + 1" "\<lambda>x. x\<lparr>f_ref := 1\<rparr>"]
  by (auto simp: filealloc_def find_Some_iff split: option.splits)

lemma filealloc_none: "filealloc s = (None, s') \<Longrightarrow> s' = s"
  by (auto simp: filealloc_def split: option.splits)

lemma pipeclose_keep: "pipeclose p w s = Ok s' \<Longrightarrow> fkeep s s'"
proof -
  assume a: "pipeclose p w s = Ok s'"
  have u: "fkeep s (upd_pipe p g s)" for g by (simp add: fkeep_def upd_pipe_def)
  obtain s1 where "fkeep s s1" "s' = s1 \<or> on_vm (kfree p) s1 = Ok s'"
    using a u by (auto simp: pipeclose_def outcome_simps dest!: on_pt_wakeup_keep intro: fkeep_trans split: if_splits)
  then show ?thesis using on_vm_keep fkeep_trans by blast
qed

lemma fileclose_ext:
  assumes "fileclose f s = Ok s'" "f < NFILE" "files_ext e s"
  shows "files_ext (e(f := e f - 1)) s'"
proof -
  let ?s = "upd_file f (\<lambda>x. x\<lparr>f_ref := f_ref x - 1\<rparr>) s"
  let ?z = "upd_file f (\<lambda>x. x\<lparr>f_ref := 0, f_type := FD_NONE\<rparr>) ?s"
  have e1: "files_ext (e(f := e f - 1)) ?s" by (rule upd_file_ext [OF assms(3,2)]) simp
  show ?thesis
  proof (cases "0 < f_ref (ftable ?s f)")
    case True
    then show ?thesis using assms(1) e1 by (auto simp: fileclose_def Let_def split: if_splits)
  next
    case False
    then have z: "f_ref (ftable ?s f) = 0" using assms(1) by (auto simp: fileclose_def split: if_splits)
    have e0: "files_ext (e(f := e f - 1)) ?z"
      using upd_file_same [OF e1, of "\<lambda>x. x\<lparr>f_ref := 0, f_type := FD_NONE\<rparr>" f] z by simp
    have "fkeep ?z s'" using assms(1) False
      by (auto simp: fileclose_def Let_def outcome_simps dest!: pipeclose_keep fsk.fs_steps
          intro: fkeep_trans split: if_splits option.splits)
    then show ?thesis using e0 by (rule files_ext_keep)
  qed
qed

lemma fdalloc_ext:
  assumes "fdalloc c f s = Ok (Some fd, s')" "f < NFILE" "files_ext e s"
  shows "files_ext (e(f := e f - 1)) s'" "ftable s' = ftable s"
proof -
  obtain me where me: "myproc c (pt s) = Some me" and l: "ofiles s me fd = None" "fd < NOFILE" "s' = set_fd me fd (Some f) s"
    using assms(1) by (auto simp: fdalloc_def with_cur_def find_Some_iff ofiles_def split: option.splits)
  have "me < NPROC" "live (p_state (procs (pt s) me))" using me assms(3) by (auto simp: files_ext_def fds_ok_def)
  then have "files_ext (\<lambda>g. e g - (if Some f = Some g then 1 else 0) + (if ofiles s me fd = Some g then 1 else 0)) s'"
    using set_fd_ext [OF assms(3) _ l(2), of me "Some f" f] assms(2) l(3) by simp
  moreover have "(\<lambda>g. e g - (if Some f = Some g then 1 else 0) + (if ofiles s me fd = Some g then 1 else 0)) = e(f := e f - 1)"
    using l(1) by auto
  ultimately show "files_ext (e(f := e f - 1)) s'" by simp
  show "ftable s' = ftable s" using l(3) by (simp add: set_fd_def upd_cur_def)
qed

lemma fdalloc_none: "fdalloc c f s = Ok (None, s') \<Longrightarrow> s' = s"
  by (auto simp: fdalloc_def with_cur_def split: option.splits)

lemma argfd_open:
  assumes "argfd c n s = Ok (Some (fd, f))" "files_ext e s"
  shows "\<exists>me. myproc c (pt s) = Some me \<and> me < NPROC \<and> fd < NOFILE \<and> ofiles s me fd = Some f \<and> f < NFILE"
proof -
  obtain w where w: "argint c n s = Ok (Some w)" "\<not> (sint w < 0 \<or> sint w \<ge> int NOFILE)"
    "with_cur c (\<lambda>me x s. case p_ofile x (nat (sint w)) of None \<Rightarrow> Ok None | Some f \<Rightarrow> Ok (Some (nat (sint w), f))) s = Ok (Some (fd, f))"
  proof -
    obtain r where r: "argint c n s = Ok r" "(case r of None \<Rightarrow> Ok None | Some w \<Rightarrow>
         let fd = sint w in if fd < 0 \<or> fd \<ge> int NOFILE then Ok None
         else with_cur c (\<lambda>me x s. case p_ofile x (nat fd) of None \<Rightarrow> Ok None | Some f \<Rightarrow> Ok (Some (nat fd, f))) s) = Ok (Some (fd, f))"
      using assms(1) unfolding argfd_def bindo_Ok_iff by blast
    then show ?thesis using that by (cases r) (simp_all add: Let_def split: if_split_asm)
  qed
  then obtain me where me: "myproc c (pt s) = Some me" "ofiles s me (nat (sint w)) = Some f" "fd = nat (sint w)"
    by (auto simp: with_cur_def ofiles_def split: option.split_asm)
  moreover have "fd < NOFILE" using w(2) me(3) by auto
  ultimately show ?thesis using assms(2) by (auto simp: ofiles_def files_ext_def fds_ok_def)
qed

section \<open>System calls\<close>

lemma or_fail_Ok:
  "or_fail s m f = Ok r \<longleftrightarrow> (m = Ok None \<and> r = (Done (-1), s)) \<or> (\<exists>x. m = Ok (Some x) \<and> f x = Ok r)"
  by (auto simp: or_fail_def bindo_Ok_iff split: option.splits)

lemma files_ext_cong: "files_ext e s \<Longrightarrow> e = d \<Longrightarrow> files_ext d s"
  by simp

lemma sys_dup_ext:
  assumes "sys_dup c s = Ok (r, s')" "files_ext e s"
  shows "files_ext e s'"
proof (cases "argfd c 0 s = Ok None")
  case True then show ?thesis using assms by (simp add: sys_dup_def or_fail_def)
next
  case False
  then obtain fd f where a: "argfd c 0 s = Ok (Some (fd, f))" and
    b: "bindo (fdalloc c f s) (\<lambda>(fd, s). case fd of None \<Rightarrow> Ok (Done (-1), s)
       | Some fd \<Rightarrow> bindo (filedup f s) (\<lambda>s. Ok (Done (int fd), s))) = Ok (r, s')"
    using assms(1) unfolding sys_dup_def or_fail_Ok by auto
  have f: "f < NFILE" using argfd_open [OF a assms(2)] by blast
  obtain fo s1 where s1: "fdalloc c f s = Ok (fo, s1)" using b by (auto simp: bindo_Ok_iff)
  show ?thesis
  proof (cases fo)
    case None then show ?thesis using b s1 fdalloc_none assms(2) by auto
  next
    case (Some fd')
    then have "files_ext (e(f := e f - 1)) s1" "filedup f s1 = Ok s'"
      using b s1 fdalloc_ext [OF _ f assms(2)] by (auto simp: bindo_Ok_iff)
    then show ?thesis using filedup_ext [OF _ f] files_ext_cong by fastforce
  qed
qed

lemma sys_close_ext:
  assumes "sys_close c s = Ok (r, s')" "files_ext e s"
  shows "files_ext e s'"
proof (cases "argfd c 0 s = Ok None")
  case True then show ?thesis using assms by (simp add: sys_close_def or_fail_def)
next
  case False
  then obtain fd f where a: "argfd c 0 s = Ok (Some (fd, f))" and
    b: "with_cur c (\<lambda>me x s. bindo (fileclose f (set_fd me fd None s)) (\<lambda>s. Ok (Done 0, s))) s = Ok (r, s')"
    using assms(1) unfolding sys_close_def or_fail_Ok by auto
  obtain me where me: "myproc c (pt s) = Some me" "me < NPROC" "fd < NOFILE" "ofiles s me fd = Some f" "f < NFILE"
    using argfd_open [OF a assms(2)] by blast
  have "files_ext (e(f := e f + 1)) (set_fd me fd None s)"
    by (rule files_ext_cong [OF set_fd_ext [OF assms(2) me(2,3), of None f]]) (use me in auto)
  moreover have "fileclose f (set_fd me fd None s) = Ok s'" using b me(1) by (auto simp: with_cur_def bindo_Ok_iff)
  ultimately show ?thesis using fileclose_ext [OF _ me(5)] files_ext_cong by fastforce
qed

lemma file_and_fd_ext:
  assumes "file_and_fd c s = Ok (r, s')" "files_ext e s"
  shows "files_ext e s'"
proof (cases "filealloc s")
  case (Pair fo s1)
  show ?thesis
  proof (cases fo)
    case None then show ?thesis using assms Pair filealloc_none by (auto simp: file_and_fd_def)
  next
    case (Some f)
    then have f: "f < NFILE" "files_ext (e(f := e f + 1)) s1" using filealloc_ext assms(2) Pair by auto
    obtain fd s2 where s2: "fdalloc c f s1 = Ok (fd, s2)" "(case fd of None \<Rightarrow> bindo (fileclose f s2) (\<lambda>s. Ok (None, s))
        | Some fd \<Rightarrow> Ok (Some (f, fd), s2)) = Ok (r, s')"
      using assms(1) Pair Some by (auto simp: file_and_fd_def bindo_Ok_iff)
    show ?thesis
    proof (cases fd)
      case None
      then have "fileclose f s1 = Ok s'" using s2 fdalloc_none by (auto simp: bindo_Ok_iff)
      from fileclose_ext [OF this f] show ?thesis by (rule files_ext_cong) auto
    next
      case (Some d)
      then have "fdalloc c f s1 = Ok (Some d, s')" using s2 by auto
      from fdalloc_ext(1) [OF this f] show ?thesis by (rule files_ext_cong) auto
    qed
  qed
qed

lemma dirs_keep:
  "namei (devsw_read c) cwd pth s = Ok (r, s') \<Longrightarrow> fkeep s s'"
  "nameiparent (devsw_read c) cwd pth s = Ok (r1, nm, s') \<Longrightarrow> fkeep s s'"
  "dirlookup (devsw_read c) dp nm s = Ok (r2, s') \<Longrightarrow> fkeep s s'"
  "dirlink (devsw_read c) (devsw_write c) dp nm i s = Ok (r3, s') \<Longrightarrow> fkeep s s'"
  by (auto intro: fsk.namei_keeps fsk.nameiparent_keeps fsk.dirlookup_keeps fsk.dirlink_keeps)

lemma fs_keep:
  "iupdate i s = Ok s' \<Longrightarrow> fkeep s s'" "ialloc d t s = Ok (j, s') \<Longrightarrow> fkeep s s'"
  "iunlockput i s = Ok s' \<Longrightarrow> fkeep s s'" "begin_op s = Ok s' \<Longrightarrow> fkeep s s'" "end_op s = Ok s' \<Longrightarrow> fkeep s s'"
  "iput i s = Ok s' \<Longrightarrow> fkeep s s'"
  by (auto intro: fkeep_fs frames)

lemma upd_inode_keep: "fkeep (upd_inode i g s) s' = fkeep s s'"
  by (simp add: fkeep_def upd_inode_def)

section \<open>Postconditions of kernel code\<close>

text \<open>The state after a computation that ends normally, read off by \<open>g\<close>, satisfies \<open>P\<close>.\<close>

definition post :: "('r \<Rightarrow> kernel) \<Rightarrow> (kernel \<Rightarrow> bool) \<Rightarrow> 'r outcome \<Rightarrow> bool" where
  "post g P m \<longleftrightarrow> (\<forall>x. m = Ok x \<longrightarrow> P (g x))"

named_theorems posts \<open>structural rules of postconditions\<close>

lemma post_bind: "post g P m \<Longrightarrow> (\<And>x. P (g x) \<Longrightarrow> post h P (k x)) \<Longrightarrow> post h P (bindo m k)"
  by (auto simp: post_def bindo_Ok_iff)

lemma post_Ok [posts]: "P (g x) \<Longrightarrow> post g P (Ok x)" "post g P (Panic m)" "post g P UB" "post g P Wait"
  by (auto simp: post_def)

lemma post_if [posts]: "(b \<Longrightarrow> post g P m) \<Longrightarrow> (\<not> b \<Longrightarrow> post g P n) \<Longrightarrow> post g P (if b then m else n)"
  by simp

lemma post_prod [posts]: "post g P (f (fst p) (snd p)) \<Longrightarrow> post g P (case p of (x, y) \<Rightarrow> f x y)"
  by (simp add: split_beta)

lemma post_option [posts]: "(p = None \<Longrightarrow> post g P m) \<Longrightarrow> (\<And>x. p = Some x \<Longrightarrow> post g P (f x)) \<Longrightarrow>
  post g P (case p of None \<Rightarrow> m | Some x \<Rightarrow> f x)"
  by (cases p) auto

lemma post_with_cur [posts]: "(\<And>p x. post g P (f p x s)) \<Longrightarrow> post g P (with_cur c f s)"
  by (auto simp: with_cur_def post_def split: option.splits)

lemma post_or_fail [posts]: "P s \<Longrightarrow> (\<And>x. post snd P (f x)) \<Longrightarrow> post snd P (or_fail s m f)"
  by (auto simp: or_fail_Ok post_def)

lemmas post_binds [posts] = post_bind [where g = "\<lambda>x. x"] post_bind [where g = snd] post_bind [where g = "\<lambda>x. snd (snd x)"]

text \<open>Conditions that depend on the file table and the descriptors only.\<close>

locale fd_closed =
  fixes P :: "kernel \<Rightarrow> bool"
  assumes closed: "fkeep s s' \<Longrightarrow> P s \<Longrightarrow> P s'"
begin

lemma prims:
  assumes "P s"
  shows "post (\<lambda>x. x) P (ilock i s)" "post (\<lambda>x. x) P (iunlock i s)" "post (\<lambda>x. x) P (iupdate i s)"
    "post snd P (ialloc d t s)" "post (\<lambda>x. x) P (iunlockput i s)" "post (\<lambda>x. x) P (begin_op s)"
    "post (\<lambda>x. x) P (end_op s)" "post (\<lambda>x. x) P (iput i s)" "post snd P (namei (devsw_read c) cwd pth s)"
    "post (\<lambda>x. snd (snd x)) P (nameiparent (devsw_read c) cwd pth s)"
    "post snd P (dirlookup (devsw_read c) dp nm s)" "post snd P (dirlink (devsw_read c) (devsw_write c) dp nm n s)"
    "post (\<lambda>x. x) P (on_vm f s)"
  using closed [OF _ assms] by (auto simp: post_def dest: fs_keep lock_keep dirs_keep on_vm_keep)

lemma upds:
  assumes "P s"
  shows "P (upd_inode i g s)" "(\<And>x. p_ofile (h x) = p_ofile x \<and> p_state (h x) = p_state x) \<Longrightarrow> P (upd_cur p h s)"
  using closed [OF _ assms] by (auto simp: fkeep_def upd_inode_def upd_cur_def pkeep_def upd_proc_def myproc_def)

lemma create_post: "P s \<Longrightarrow> post snd P (create c pth type major minor s)"
  unfolding create_def by (intro posts prims upds; simp)

lemma open_inode_post: "P s \<Longrightarrow> post snd P (open_inode c pth m s)"
  unfolding open_inode_def by (intro posts prims create_post; simp)

lemma switchuvm_post: "P s \<Longrightarrow> post (\<lambda>x. x) P (on_pt (switchuvm c p) s)"
  unfolding post_def by (intro allI impI, rule closed)
    (auto simp: on_pt_def outcome_simps fkeep_def pkeep_def switchuvm_def upd_cpu_def myproc_def split: option.splits if_splits)

lemma getshared_post: "P s \<Longrightarrow> post snd P (getshared c i s)"
  unfolding getshared_def Let_def by (intro posts prims upds switchuvm_post; simp)

lemmas fd_posts = prims create_post open_inode_post getshared_post

end

interpretation ext: fd_closed "files_ext e" for e
  by unfold_locales (rule files_ext_keep)

lemma sys_open_post: "files_ext e s \<Longrightarrow> post snd (files_ext e) (sys_open c s)"
  unfolding sys_open_def
  by (intro posts ext.fd_posts) (auto simp: post_def intro: file_and_fd_ext upd_file_same)

lemma sys_memo_post: "files_ext e s \<Longrightarrow> post snd (files_ext e) (sys_memo c s)"
  unfolding sys_memo_def Let_def
  by (intro posts ext.fd_posts) (auto simp: post_def intro: file_and_fd_ext upd_file_same)

section \<open>Pipes\<close>

lemma pipealloc_ext:
  assumes "pipealloc s = Ok (r, s')" "files_ext e s"
  shows "case r of None \<Rightarrow> files_ext e s'
    | Some (f0, f1) \<Rightarrow> f0 < NFILE \<and> f1 < NFILE \<and> files_ext ((e(f0 := e f0 + 1))(f1 := (e(f0 := e f0 + 1)) f1 + 1)) s'"
proof (cases "filealloc s")
  case (Pair fo s1)
  show ?thesis
  proof (cases fo)
    case None then show ?thesis using assms Pair filealloc_none by (auto simp: pipealloc_def)
  next
    case (Some f0)
    let ?e = "e(f0 := e f0 + 1)"
    have f0: "f0 < NFILE" "files_ext ?e s1" using filealloc_ext assms(2) Pair Some by auto
    obtain go s2 where s2: "filealloc s1 = (go, s2)" by (cases "filealloc s1")
    show ?thesis
    proof (cases go)
      case None
      then have "r = None" "fileclose f0 s1 = Ok s'"
        using assms(1) Pair Some s2 filealloc_none by (auto simp: pipealloc_def bindo_Ok_iff)
      then show ?thesis using files_ext_cong [OF fileclose_ext [OF _ f0]] by simp
    next
      case (Some f1)
      let ?d = "?e(f1 := ?e f1 + 1)"
      have f1: "f1 < NFILE" "files_ext ?d s2" using filealloc_ext [OF _ f0(2), of f1 s2] s2 Some by blast+
      obtain p v where pv: "kalloc (kvm s2) = (p, v)" by (cases "kalloc (kvm s2)")
      have k: "files_ext ?d (s2\<lparr>kvm := v\<rparr>)" by (rule files_ext_keep [OF _ f1(2)]) (simp add: fkeep_def)
      show ?thesis
      proof (cases "p = 0")
        case True
        then obtain s3 where s3: "r = None" "fileclose f0 (s2\<lparr>kvm := v\<rparr>) = Ok s3" "fileclose f1 s3 = Ok s'"
          using assms(1) Pair \<open>fo = Some f0\<close> s2 Some pv by (auto simp: pipealloc_def bindo_Ok_iff)
        from files_ext_cong [OF fileclose_ext [OF s3(3) f1(1) fileclose_ext [OF s3(2) f0(1) k]], of e] s3(1)
        show ?thesis by (auto simp: fun_eq_iff)
      next
        case False
        have u: "files_ext ?d (upd_pipe p g (s2\<lparr>kvm := v\<rparr>))" for g
          by (rule files_ext_keep [OF _ k]) (simp add: fkeep_def upd_pipe_def)
        have "r = Some (f0, f1)" "\<exists>g h i. s' = upd_file f1 g (upd_file f0 h (upd_pipe p i (s2\<lparr>kvm := v\<rparr>))) \<and>
            (\<forall>x. f_ref (g x) = f_ref x) \<and> (\<forall>x. f_ref (h x) = f_ref x)"
          using assms(1) Pair \<open>fo = Some f0\<close> s2 Some pv False by (auto simp: pipealloc_def Let_def intro!: exI)
        then show ?thesis using f0(1) f1(1) by (auto simp del: fun_upd_apply simp: fun_upd_def [symmetric] intro!: upd_file_same u)
      qed
    qed
  qed
qed

lemma fdalloc_slot:
  assumes "fdalloc c f s = Ok (Some fd, s')" "files_ext e s" "f < NFILE"
  shows "\<exists>me. myproc c (pt s') = Some me \<and> me < NPROC \<and> fd < NOFILE \<and> ofiles s' me fd = Some f"
proof -
  obtain me where me: "myproc c (pt s) = Some me" "fd < NOFILE" "s' = set_fd me fd (Some f) s"
    using assms(1) by (auto simp: fdalloc_def with_cur_def find_Some_iff split: option.splits)
  have "me < NPROC" using me(1) assms(2) by (auto simp: files_ext_def fds_ok_def)
  then show ?thesis using me by (auto simp: ofiles_set_fd) (simp add: set_fd_def upd_cur_def upd_proc_def myproc_def)
qed

text \<open>The descriptors of a new pipe, or none when the process has no two free ones.\<close>

lemma pipe_fds_ext:
  assumes a: "bindo (fdalloc c rf s) (\<lambda>(fd0, s). case fd0 of
           None \<Rightarrow> bindo (fileclose rf s) (\<lambda>s. bindo (fileclose w s) (\<lambda>s. Ok (Done (-1), s)))
         | Some fd0 \<Rightarrow>
             bindo (fdalloc c w s) (\<lambda>(fd1, s). with_cur c (\<lambda>me x s. case fd1 of
               None \<Rightarrow>
                 bindo (fileclose rf (set_fd me fd0 None s)) (\<lambda>s.
                 bindo (fileclose w s) (\<lambda>s. Ok (Done (-1), s)))
             | Some fd1 \<Rightarrow>
                 bindo (on_vm (ustore32 (p_pgdir x) fd (of_nat fd0)) s) (\<lambda>s.
                 bindo (on_vm (ustore32 (p_pgdir x) (fd + 4) (of_nat fd1)) s) (\<lambda>s.
                   Ok (Done 0, s)))) s)) = Ok (r, s')"
    and f: "rf < NFILE" "w < NFILE" and e: "files_ext ((e(rf := e rf + 1))(w := (e(rf := e rf + 1)) w + 1)) s"
  shows "files_ext e s'"
proof -
  let ?e = "(e(rf := e rf + 1))(w := (e(rf := e rf + 1)) w + 1)"
  obtain fd0 s1 where s1: "fdalloc c rf s = Ok (fd0, s1)" using a by (auto simp: bindo_Ok_iff)
  show ?thesis
  proof (cases fd0)
    case None
    then have "s1 = s" using s1 fdalloc_none by blast
    then obtain s2 where s2: "fileclose rf s = Ok s2" "fileclose w s2 = Ok s'"
      using a s1 None by (auto simp: bindo_Ok_iff)
    show ?thesis by (rule files_ext_cong [OF fileclose_ext [OF s2(2) f(2) fileclose_ext [OF s2(1) f(1) e]]]) (auto simp: fun_eq_iff)
  next
    case (Some d)
    note e1 = fdalloc_ext(1) [OF s1 [unfolded Some] f(1) e]
    obtain fd1 s2 where s2: "fdalloc c w s1 = Ok (fd1, s2)" using a s1 Some by (auto simp: bindo_Ok_iff)
    show ?thesis
    proof (cases fd1)
      case (Some d1)
      have "post snd (files_ext e) (Ok (r, s'))"
        unfolding a [symmetric] using fdalloc_ext(1) [OF s2 [unfolded Some] f(2) e1] s1 \<open>fd0 = Some d\<close> s2 Some
        apply simp
        by (intro posts ext.fd_posts) (auto simp: fun_eq_iff elim: files_ext_cong)
      then show ?thesis by (simp add: post_def)
    next
      case None
      then have s21: "s2 = s1" using s2 fdalloc_none by blast
      obtain me where me: "myproc c (pt s1) = Some me" "me < NPROC" "d < NOFILE" "ofiles s1 me d = Some rf"
        using fdalloc_slot [OF s1 [unfolded Some] e f(1)] by blast
      obtain s3 where s3: "fileclose rf (set_fd me d None s1) = Ok s3" "fileclose w s3 = Ok s'"
        using a s1 Some s2 None s21 me(1) by (auto simp: bindo_Ok_iff with_cur_def)
      have e2: "files_ext ?e (set_fd me d None s1)"
        by (rule files_ext_cong [OF set_fd_ext [OF e1 me(2,3), of None rf]]) (use me(4) in \<open>auto simp: fun_eq_iff\<close>)
      show ?thesis by (rule files_ext_cong [OF fileclose_ext [OF s3(2) f(2) fileclose_ext [OF s3(1) f(1) e2]]]) (auto simp: fun_eq_iff)
    qed
  qed
qed

lemma sys_pipe_ext:
  assumes "sys_pipe c s = Ok (r, s')" "files_ext e s"
  shows "files_ext e s'"
proof (cases "argptr c 0 8 s = Ok None")
  case True then show ?thesis using assms by (simp add: sys_pipe_def or_fail_def)
next
  case False
  then obtain fd q s1 where a: "argptr c 0 8 s = Ok (Some fd)" "pipealloc s = Ok (q, s1)"
    using assms(1) unfolding sys_pipe_def or_fail_Ok by (auto simp: bindo_Ok_iff)
  note pa = pipealloc_ext [OF a(2) assms(2)]
  show ?thesis
  proof (cases q)
    case None then show ?thesis using assms(1) a pa by (simp add: sys_pipe_def or_fail_def)
  next
    case (Some fw)
    then obtain rf w where fw: "q = Some (rf, w)" by (cases fw) simp
    have b: "rf < NFILE" "w < NFILE" "files_ext ((e(rf := e rf + 1))(w := (e(rf := e rf + 1)) w + 1)) s1" using pa fw by simp_all
    show ?thesis using assms(1) a fw by (intro pipe_fds_ext [OF _ b]) (simp add: sys_pipe_def or_fail_def)
  qed
qed

section \<open>Processes\<close>

lemma files_ext_upd_cur:
  assumes "files_ext e s" "\<And>x. p_ofile (g x) = p_ofile x"
    and "live (p_state (g (procs (pt s) p))) = live (p_state (procs (pt s) p)) \<or>
      (\<forall>fd<NOFILE. ofiles s p fd = None) \<and> (\<forall>c. myproc c (pt s) \<noteq> Some p)"
  shows "files_ext e (upd_cur p g s)"
proof -
  have "ofiles (upd_cur p g s) = ofiles s" using assms(2) by (auto simp: ofiles_def upd_cur_def fun_eq_iff)
  then show ?thesis using assms by (auto simp: files_ext_def fds_ok_def upd_cur_def upd_proc_def myproc_def ofiles_def)
qed

lemma files_ext_pt: "files_ext e s \<Longrightarrow> pt s' = pt s \<Longrightarrow> ftable s' = ftable s \<Longrightarrow> files_ext e s'"
  by (simp add: files_ext_def ofiles_def [abs_def])

lemma unused_free: "files_ext e s \<Longrightarrow> \<not> live (p_state (procs (pt s) p)) \<Longrightarrow> p < NPROC \<Longrightarrow>
  (\<forall>fd<NOFILE. ofiles s p fd = None) \<and> (\<forall>c. myproc c (pt s) \<noteq> Some p)"
  by (auto simp: files_ext_def fds_ok_def ofiles_def)

definition fresh :: "nat \<Rightarrow> kernel \<Rightarrow> bool" where
  "fresh p s \<longleftrightarrow> p < NPROC \<and> live (p_state (procs (pt s) p)) \<and> (\<forall>fd<NOFILE. ofiles s p fd = None) \<and> (\<forall>c. myproc c (pt s) \<noteq> Some p)"

lemma allocproc_ext:
  assumes "allocproc s = (po, s')" "files_ext e s"
  shows "files_ext e s' \<and> (\<forall>p. po = Some p \<longrightarrow> fresh p s')"
proof (cases "find_unused (pt s)")
  case None then show ?thesis using assms by (simp add: allocproc_def allocproc_slot_def)
next
  case (Some p)
  note u = find_unused_Some [OF Some]
  have fr: "(\<forall>fd<NOFILE. ofiles s p fd = None) \<and> (\<forall>c. myproc c (pt s) \<noteq> Some p)"
    by (rule unused_free [OF assms(2)]) (use u in \<open>simp_all add: live_def\<close>)
  obtain k v where k: "kalloc (kvm s) = (k, v)" by (cases "kalloc (kvm s)")
  define g where "g = (\<lambda>x :: proc. x\<lparr>p_state := EMBRYO, p_pid := nextpid (pt s), p_kstack := k\<rparr>)"
  define h where "h = (if k = 0 then (\<lambda>x :: proc. x\<lparr>p_state := UNUSED\<rparr>) else
     (\<lambda>x. x\<lparr>p_eip := a_forkret s, p_priority := of_nat NPROCQ - 1, p_widx := 0\<rparr>))"
  have s': "s' = (upd_cur p h (upd_cur p g (s\<lparr>kvm := v\<rparr>)))\<lparr>pt := (pt (upd_cur p h (upd_cur p g (s\<lparr>kvm := v\<rparr>))))\<lparr>nextpid := nextpid (pt s) + 1\<rparr>\<rparr>"
    and po: "po = (if k = 0 then None else Some p)"
    using assms(1) Some k by (auto simp: allocproc_def allocproc_slot_def Let_def upd_cur_def upd_proc_def g_def h_def
        allocproc_init_def split: if_splits)
  have e1: "files_ext e (upd_cur p g (s\<lparr>kvm := v\<rparr>))"
    by (rule files_ext_upd_cur) (use fr assms(2) in \<open>auto simp: g_def ofiles_def [abs_def] files_ext_def\<close>)
  have e2: "files_ext e (upd_cur p h (upd_cur p g (s\<lparr>kvm := v\<rparr>)))"
    by (rule files_ext_upd_cur [OF e1]) (use fr in \<open>auto simp: g_def h_def live_def ofiles_def upd_cur_def upd_proc_def myproc_def\<close>)
  have "files_ext e s'"
    using e2 unfolding s' by (simp add: files_ext_def fds_ok_def ofiles_def [abs_def] myproc_def)
  moreover have "fresh p s'" if "k \<noteq> 0"
    using that fr u by (auto simp: s' g_def h_def fresh_def live_def ofiles_def upd_cur_def upd_proc_def myproc_def)
  ultimately show ?thesis using po by auto
qed

lemma upd_cur_fd: "upd_cur p (\<lambda>x. x\<lparr>p_ofile := (p_ofile x)(fd := v)\<rparr>) s = set_fd p fd v s"
  by (simp add: set_fd_def)

lemma filedup_pt: "filedup f s = Ok s' \<Longrightarrow> pt s' = pt s"
  by (auto simp: filedup_def split: if_splits)

lemma set_fd_state: "p_state (procs (pt (set_fd p fd v s)) q) = p_state (procs (pt s) q)"
  by (simp add: set_fd_def upd_cur_def upd_proc_def)

lemma dup_files_ext:
  assumes "dup_files np ofile is s = Ok s'" "files_ext e s" "np < NPROC" "live (p_state (procs (pt s) np))"
    "distinct is" "\<forall>i\<in>set is. i < NOFILE \<and> ofiles s np i = None \<and> (\<forall>f. ofile i = Some f \<longrightarrow> f < NFILE)"
  shows "files_ext e s' \<and> live (p_state (procs (pt s') np))"
  using assms
proof (induction "is" arbitrary: s)
  case (Cons i "is")
  show ?case
  proof (cases "ofile i")
    case None then show ?thesis using Cons by auto
  next
    case (Some f)
    obtain s1 where s1: "filedup f s = Ok s1" "dup_files np ofile is (set_fd np i (Some f) s1) = Ok s'"
      using Cons.prems(1) Some by (auto simp: bindo_Ok_iff upd_cur_fd)
    have f: "f < NFILE" "i < NOFILE" using Cons.prems(6) Some by auto
    note pt1 = filedup_pt [OF s1(1)]
    have of1: "ofiles s1 = ofiles s" using pt1 by (simp add: ofiles_def fun_eq_iff)
    have e2: "files_ext e (set_fd np i (Some f) s1)"
      by (rule files_ext_cong [OF set_fd_ext [OF filedup_ext [OF s1(1) f(1) Cons.prems(2)] Cons.prems(3) f(2), of "Some f" f]])
         (use Cons.prems(4,6) f pt1 of1 in \<open>auto simp: fun_eq_iff\<close>)
    show ?thesis
      by (rule Cons.IH [OF s1(2) e2 Cons.prems(3)]) (use Cons.prems(4-6) pt1 of1 in \<open>auto simp: set_fd_state ofiles_set_fd\<close>)
  qed
qed simp

lemma make_runnable_ext:
  assumes "on_pt (make_runnable p) s = Ok s'" "files_ext e s" "live (p_state (procs (pt s) p))"
  shows "files_ext e s'"
proof -
  obtain t where t: "qpush p (upd_proc p (\<lambda>x. x\<lparr>p_state := RUNNABLE\<rparr>) (pt s)) = Ok t" "s' = s\<lparr>pt := t\<rparr>"
    using assms(1) by (auto simp: on_pt_def make_runnable_def bindo_Ok_iff)
  have "fkeep s s'" using t qpush_keep [OF t(1)] assms(3)
    by (auto simp: fkeep_def intro!: pkeep_trans [of "pt s" "upd_proc p (\<lambda>x. x\<lparr>p_state := RUNNABLE\<rparr>) (pt s)" t])
       (auto simp: pkeep_def upd_proc_def myproc_def live_def)
  then show ?thesis using assms(2) by (rule files_ext_keep)
qed

lemma on_vmr_keep: "on_vmr f s = Ok (r, s') \<Longrightarrow> fkeep s s' \<and> pt s' = pt s"
  by (auto simp: on_vmr_def outcome_simps fkeep_def)

lemma fresh_upd: "fresh p s \<Longrightarrow> (\<And>x. p_ofile (g x) = p_ofile x \<and> p_state (g x) = p_state x) \<Longrightarrow> fresh p (upd_cur q g s)"
  by (auto simp: fresh_def ofiles_def upd_cur_def upd_proc_def myproc_def)

lemma fork_ext:
  assumes fk: "fork c s = Ok (r, s')" and inv: "files_ext e s"
  shows "files_ext e s'"
proof -
  obtain cur where cur: "myproc c (pt s) = Some cur" using fk by (auto simp: fork_def with_cur_def split: option.splits)
  let ?x = "procs (pt s) cur"
  obtain po s1 where a: "allocproc s = (po, s1)" by (cases "allocproc s")
  note al = allocproc_ext [OF a inv]
  have of: "\<forall>i<NOFILE. \<forall>f. p_ofile ?x i = Some f \<longrightarrow> f < NFILE" using inv cur by (auto simp: files_ext_def fds_ok_def)
  show ?thesis
  proof (cases po)
    case None then show ?thesis using fk cur a al by (simp add: fork_def with_cur_def)
  next
    case (Some np)
    have fr: "fresh np s1" using al Some by simp
    obtain pd s2 where s2: "on_vmr (copyuvm (p_pgdir ?x) (p_sz ?x)) s1 = Ok (pd, s2)"
      using fk cur a Some by (auto simp: fork_def with_cur_def bindo_Ok_iff)
    note k2 = on_vmr_keep [OF s2]
    have e2: "files_ext e s2" "fresh np s2" using k2 al fr files_ext_keep by (auto simp: fresh_def ofiles_def)
    let ?s3 = "upd_cur np (\<lambda>y. y\<lparr>p_pgdir := pd\<rparr>) s2"
    have e3: "files_ext e ?s3" "fresh np ?s3" using e2 ext.upds(2) fresh_upd by auto
    show ?thesis
    proof (cases "pd = 0")
      case True
      then obtain s4 where s4: "on_vm (kfree (p_kstack (procs (pt ?s3) np))) ?s3 = Ok s4"
        "s' = upd_cur np (\<lambda>y. y\<lparr>p_kstack := 0, p_state := UNUSED\<rparr>) s4"
        using fk cur a Some s2 by (auto simp: fork_def with_cur_def bindo_Ok_iff Let_def)
      have "files_ext e s4" using s4(1) e3(1) on_vm_keep files_ext_keep by blast
      moreover have "pt s4 = pt ?s3" using s4(1) by (auto simp: on_vm_def outcome_simps)
      ultimately show ?thesis unfolding s4(2) using e3(2)
        by (intro files_ext_upd_cur) (auto simp: fresh_def ofiles_def)
    next
      case False
      let ?s4 = "upd_cur np (\<lambda>y. y\<lparr>p_sz := p_sz ?x, p_parent := Some cur, p_tf := (p_tf ?x)\<lparr>tf_eax := 0\<rparr>\<rparr>) ?s3"
      have e4: "files_ext e ?s4" "fresh np ?s4" using e3 ext.upds(2) fresh_upd by auto
      obtain s5 d where s5: "dup_files np (p_ofile ?x) [0..<NOFILE] ?s4 = Ok s5" "p_cwd ?x = Some d"
        and rest: "(let (d, s) = idup d s5;
                   s = upd_cur np (\<lambda>y. y\<lparr>p_cwd := Some d, p_name := safestrcpy_field (p_name y) (p_name ?x)\<rparr>) s;
                   pid = p_pid (procs (pt s) np) in
               bindo (on_pt (make_runnable np) s) (\<lambda>s.
                 Ok (pid, upd_cur np (\<lambda>y. y\<lparr>p_sharedrec :=
                   (\<lambda>i. if 1 \<le> i \<and> i < MAXSHAREDPG then 0 else p_sharedrec y i)\<rparr>) s))) = Ok (r, s')"
        using fk cur a Some s2 False by (auto simp: fork_def with_cur_def bindo_Ok_iff Let_def split: option.splits)
      have e5: "files_ext e s5" "live (p_state (procs (pt s5) np))"
        using dup_files_ext [OF s5(1) e4(1)] e4(2) of by (auto simp: fresh_def)
      obtain j s6 where s6: "idup d s5 = (j, s6)" by (cases "idup d s5")
      have k6: "fkeep s5 s6" using idup_frame [OF s6] by (rule fkeep_fs)
      let ?s7 = "upd_cur np (\<lambda>y. y\<lparr>p_cwd := Some j, p_name := safestrcpy_field (p_name y) (p_name ?x)\<rparr>) s6"
      have e7: "files_ext e ?s7" by (rule ext.upds(2) [OF files_ext_keep [OF k6 e5(1)]]) simp
      have l7: "live (p_state (procs (pt ?s7) np))" using e5(2) k6 by (auto simp: fkeep_def pkeep_def upd_cur_def upd_proc_def)
      obtain s8 where s8: "on_pt (make_runnable np) ?s7 = Ok s8" 
          "s' = upd_cur np (\<lambda>y. y\<lparr>p_sharedrec := (\<lambda>i. if 1 \<le> i \<and> i < MAXSHAREDPG then 0 else p_sharedrec y i)\<rparr>) s8"
        using rest s6 by (auto simp: bindo_Ok_iff Let_def)
      show ?thesis unfolding s8(2) by (rule ext.upds(2) [OF make_runnable_ext [OF s8(1) e7 l7]]) simp
    qed
  qed
qed

lemma fileclose_pkeep:
  assumes "fileclose f s = Ok s'"
  shows "pkeep (pt s) (pt s')"
proof -
  let ?s = "upd_file f (\<lambda>x. x\<lparr>f_ref := f_ref x - 1\<rparr>) s"
  let ?z = "upd_file f (\<lambda>x. x\<lparr>f_ref := 0, f_type := FD_NONE\<rparr>) ?s"
  have "s' = ?s \<or> fkeep ?z s'" using assms
    by (auto simp: fileclose_def Let_def outcome_simps dest!: pipeclose_keep fsk.fs_steps
          intro: fkeep_trans split: if_splits option.splits)
  then show ?thesis by (auto simp: fkeep_def)
qed

lemma fileclose_ofiles: "fileclose f s = Ok s' \<Longrightarrow> ofiles s' = ofiles s"
  using fileclose_pkeep [of f s s'] by (auto simp: pkeep_def ofiles_def fun_eq_iff)

lemma close_files_ext:
  assumes "close_files p fds s = Ok s'" "files_ext e s" "p < NPROC" "set fds \<subseteq> {..<NOFILE}" "\<forall>fd<NOFILE. fd \<notin> set fds \<longrightarrow> ofiles s p fd = None"
  shows "files_ext e s' \<and> (\<forall>fd<NOFILE. ofiles s' p fd = None)"
  using assms
proof (induction fds arbitrary: s)
  case (Cons fd fds)
  show ?case
  proof (cases "ofiles s p fd")
    case None then show ?thesis using Cons by (auto simp: ofiles_def)
  next
    case (Some f)
    obtain s1 where s1: "fileclose f s = Ok s1" "close_files p fds (set_fd p fd None s1) = Ok s'"
      using Cons.prems(1) Some by (auto simp: bindo_Ok_iff upd_cur_fd ofiles_def)
    have f: "f < NFILE" "fd < NOFILE" using Cons.prems(2,3,4) Some by (auto simp: files_ext_def fds_ok_def ofiles_def)
    have of1: "ofiles s1 = ofiles s" using fileclose_ofiles [OF s1(1)] .
    have e2: "files_ext e (set_fd p fd None s1)"
      by (rule files_ext_cong [OF set_fd_ext [OF fileclose_ext [OF s1(1) f(1) Cons.prems(2)] Cons.prems(3) f(2), of None f]])
         (use Some of1 in \<open>auto simp: fun_eq_iff\<close>)
    show ?thesis
      by (rule Cons.IH [OF s1(2) e2 Cons.prems(3)]) (use Cons.prems(4,5) of1 in \<open>auto simp: ofiles_set_fd\<close>)
  qed
qed auto

lemma close_files_keep: "close_files p fds s = Ok s' \<Longrightarrow> \<forall>c. myproc c (pt s') = myproc c (pt s)"
proof (induction fds arbitrary: s)
  case (Cons fd fds)
  then show ?case using fileclose_pkeep
    by (auto simp: bindo_Ok_iff upd_cur_def pkeep_def myproc_def upd_proc_def split: option.splits)
qed simp

lemma wakeup1_keep: "wakeup1 ch t = Ok t' \<Longrightarrow> pkeep t t'"
proof -
  have "wakeup1_loop c ps t = Ok t' \<Longrightarrow> pkeep t t'" for c ps t
    by (induction ps arbitrary: t) (auto simp: outcome_simps dest!: wakeup1_at_keep intro: pkeep_trans)
  then show "wakeup1 ch t = Ok t' \<Longrightarrow> pkeep t t'" by (auto simp: wakeup1_def)
qed

lemma reparent_at_keep: "reparent_at cur p t = Ok t' \<Longrightarrow> pkeep t t'"
proof -
  assume r: "reparent_at cur p t = Ok t'"
  have "pkeep t (upd_proc p (\<lambda>x. x\<lparr>p_parent := q\<rparr>) t)" for q by (auto simp: pkeep_def upd_proc_def myproc_def)
  then show ?thesis using r
    by (auto simp: reparent_at_def Let_def dest!: wakeup1_keep intro: pkeep_trans split: if_splits)
qed

lemma reparent_keep: "reparent_loop cur ps t = Ok t' \<Longrightarrow> pkeep t t'"
  by (induction ps arbitrary: t) (auto simp: outcome_simps dest!: reparent_at_keep intro: pkeep_trans)

lemma sched_cases: "sched c t = Ok t' \<Longrightarrow> t' = sched_resume c t"
  by (auto simp: sched_def split: option.splits if_splits)

lemma exit_ext:
  assumes ex: "exit c s = Ok s'" and inv: "files_ext e s"
  shows "files_ext e s'"
proof -
  obtain cur where cur: "myproc c (pt s) = Some cur" using ex by (auto simp: exit_def with_cur_def split: option.splits)
  have n: "cur < NPROC" "\<forall>d. myproc d (pt s) = Some cur \<longrightarrow> d = c" using inv cur by (auto simp: files_ext_def fds_ok_def)
  obtain s1 s2 d s3 s4 where st: "close_files cur [0..<NOFILE] s = Ok s1" "begin_op s1 = Ok s2" "iput d s2 = Ok s3"
    "end_op s3 = Ok s4" "on_pt (exit_locked c) (upd_cur cur (\<lambda>x. x\<lparr>p_cwd := None\<rparr>) s4) = Ok s'"
    using ex cur by (auto simp: exit_def with_cur_def bindo_Ok_iff split: if_splits option.splits)
  let ?s5 = "upd_cur cur (\<lambda>x. x\<lparr>p_cwd := None\<rparr>) s4"
  have e1: "files_ext e s1 \<and> (\<forall>fd<NOFILE. ofiles s1 cur fd = None)"
    by (rule close_files_ext [OF st(1) inv n(1)]) auto
  have pk: "\<forall>c. myproc c (pt s1) = myproc c (pt s)" by (rule close_files_keep [OF st(1)])
  have "fkeep s4 ?s5" by (simp add: fkeep_def upd_cur_def pkeep_def upd_proc_def myproc_def)
  then have k5: "fkeep s1 ?s5" using st(2-4) fs_keep fkeep_trans by meson
  obtain t1 t2 where t: "pkeep (pt ?s5) t1" "pkeep t1 t2" "s' = ?s5\<lparr>pt := sched_resume c (upd_proc cur (\<lambda>x. x\<lparr>p_state := ZOMBIE\<rparr>) t2)\<rparr>"
    using st(5) cur pk k5
    by (auto simp: on_pt_def exit_locked_def bindo_Ok_iff fkeep_def pkeep_def [of "pt s1"]
        dest!: wakeup1_keep reparent_keep sched_cases)
  let ?s6 = "?s5\<lparr>pt := t2\<rparr>"
  have k6: "fkeep s1 ?s6" using k5 t(1,2) by (auto simp: fkeep_def intro: pkeep_trans)
  have e6: "files_ext e ?s6" using files_ext_keep [OF k6] e1 by blast
  have z: "\<forall>fd<NOFILE. p_ofile (procs t2 cur) fd = None" "\<forall>d. myproc d t2 = Some cur \<longrightarrow> d = c"
    using e1 k6 n(2) pk by (auto simp: fkeep_def pkeep_def ofiles_def)
  have "ofiles s' = ofiles ?s6" by (auto simp: t(3) ofiles_def sched_resume_def switchkvm_def upd_cpu_def upd_proc_def fun_eq_iff)
  then show ?thesis using e6 z
    by (auto simp: files_ext_def fds_ok_def t(3) sched_resume_def switchkvm_def upd_cpu_def upd_proc_def myproc_def
        upd_cur_def split: if_splits)
qed

section \<open>Sequences of calls\<close>

lemma post_pure: "(\<And>x. post h P (k x)) \<Longrightarrow> post h P (bindo m k)"
  by (auto simp: post_def bindo_Ok_iff)

lemma make_node_post: "files_ext e s \<Longrightarrow> post snd (files_ext e) (make_node c a s)"
  unfolding make_node_def by (rule post_pure) (intro posts ext.fd_posts; simp)

lemma names_post:
  assumes "files_ext e s"
  shows "post snd (files_ext e) (sys_mkdir c s)" "post snd (files_ext e) (sys_mknod c s)"
    "post snd (files_ext e) (sys_chdir c s)" "post snd (files_ext e) (sys_link c s)"
proof -
  show "post snd (files_ext e) (sys_mkdir c s)" "post snd (files_ext e) (sys_mknod c s)"
    unfolding sys_mkdir_def sys_mknod_def using assms by (intro posts ext.fd_posts make_node_post; simp)+
  show "post snd (files_ext e) (sys_chdir c s)"
    unfolding sys_chdir_def using assms by (intro posts ext.fd_posts post_pure [of _ _ _ "argstr c 0 _"]; simp add: ext.upds)
  show "post snd (files_ext e) (sys_link c s)"
    unfolding sys_link_def link_bad_def using assms by (intro posts ext.fd_posts ext.upds; simp)
qed

lemma readi_post: "files_ext e s \<Longrightarrow> post (\<lambda>x. snd (snd x)) (files_ext e) (readi (devsw_read c) ip off n s)"
  "files_ext e s \<Longrightarrow> post snd (files_ext e) (writei (devsw_write c) ip xs off n s)"
  by (auto simp: post_def dest!: fsk.readi_keeps fsk.writei_keeps elim: files_ext_keep)

lemma isdirempty_post: "files_ext e s \<Longrightarrow> post snd (files_ext e) (isdirempty c dp s)"
proof -
  have "files_ext e s \<Longrightarrow> post snd (files_ext e) (isdirempty_loop c dp offs s)" for offs s
  proof (induction offs arbitrary: s)
    case (Cons off offs)
    show ?case unfolding isdirempty_loop.simps using Cons by (intro posts readi_post; simp)
  qed (simp add: post_def)
  then show "files_ext e s \<Longrightarrow> post snd (files_ext e) (isdirempty c dp s)" by (simp add: isdirempty_def)
qed

lemma sys_unlink_post: "files_ext e s \<Longrightarrow> post snd (files_ext e) (sys_unlink c s)"
  unfolding sys_unlink_def unlink_entry_def unlink_bad_def
  by (intro posts ext.fd_posts ext.upds readi_post isdirempty_post; simp)

text \<open>The steps of the scheduler, of the clock, of sleeping, waking and killing come in between: they move processes from CPU to CPU.\<close>

fun switching :: "step \<Rightarrow> bool" where
  "switching (Pick c r) = True"
| "switching (Yield c) = True"
| "switching (Sleep c ch) = True"
| "switching (Resume c) = True"
| "switching (Wakeup ch) = True"
| "switching (Tick c) = True"
| "switching (Kill pid) = True"
| "switching _ = False"

definition same_files :: "ptable \<Rightarrow> ptable \<Rightarrow> bool" where
  "same_files t t' \<longleftrightarrow> (\<forall>p. p_ofile (procs t' p) = p_ofile (procs t p) \<and> (live (p_state (procs t p)) \<longrightarrow> live (p_state (procs t' p))))"

lemma same_files_trans: "same_files t t1 \<Longrightarrow> same_files t1 t2 \<Longrightarrow> same_files t t2"
  by (simp add: same_files_def)

lemma same_files_pkeep: "pkeep t t' \<Longrightarrow> same_files t t'"
  by (simp add: same_files_def pkeep_def)

lemma same_files_upd:
  "p_ofile (f (procs t p)) = p_ofile (procs t p) \<Longrightarrow> live (p_state (f (procs t p))) \<Longrightarrow> same_files t (upd_proc p f t)"
  by (simp add: same_files_def)

lemma same_files_sched: "sched c t = Ok t' \<Longrightarrow> same_files t t'"
  by (auto simp: same_files_def dest!: sched_cases)

lemma same_files_yield: "myproc c t = Some p \<Longrightarrow> yield c t = Ok t' \<Longrightarrow> same_files t t'"
proof -
  assume a: "myproc c t = Some p" "yield c t = Ok t'"
  let ?f = "\<lambda>x. x\<lparr>p_state := RUNNABLE, p_priority := demote (p_priority x)\<rparr>"
  obtain t1 where t1: "qpush p (upd_proc p ?f t) = Ok t1" "sched c t1 = Ok t'" using a by (auto simp: yield_eq bindo_Ok_iff)
  have "same_files t (upd_proc p ?f t)" by (rule same_files_upd) (simp_all add: live_def)
  then show ?thesis using same_files_pkeep [OF qpush_keep [OF t1(1)]] same_files_sched [OF t1(2)] same_files_trans by blast
qed

lemma switching_files:
  assumes "sched_step l t t'" "sched_inv t" "switching l"
  shows "same_files t t'"
  using assms
proof (induction rule: sched_step.induct)
  case (pick c s r s')
  then have i: "runq_inv s" "procs_ok s" by (auto simp: sched_inv_def)
  show ?case using pick(2) i
    by (auto simp: scheduler_def sched_loop_correct same_files_def pick_simps live_def split: option.splits if_splits)
next
  case (yield c s p s')
  then show ?case by (intro same_files_yield)
next
  case (sleep c s p ch lk s')
  then have "sched c (upd_proc p (\<lambda>x. x\<lparr>p_chan := Some ch, p_state := SLEEPING\<rparr>) s) = Ok s'"
    by (auto simp: sleep_def split: if_splits)
  then have "same_files (upd_proc p (\<lambda>x. x\<lparr>p_chan := Some ch, p_state := SLEEPING\<rparr>) s) s'" by (rule same_files_sched)
  moreover have "same_files s (upd_proc p (\<lambda>x. x\<lparr>p_chan := Some ch, p_state := SLEEPING\<rparr>) s)"
    by (rule same_files_upd) (simp_all add: live_def)
  ultimately show ?case using same_files_trans by blast
next
  case (resume c s p s')
  then show ?case by (auto simp: sleep_resume_def same_files_def)
next
  case (wakeup ch s s')
  then show ?case using same_files_pkeep wakeup1_keep by (auto simp: wakeup_def)
next
  case (tick c s s')
  show ?case
  proof (cases "myproc c s")
    case None
    then show ?thesis using tick by (auto simp: timer_tick_idle same_files_def)
  next
    case (Some p)
    then have r: "p_state (procs s p) = RUNNING" using tick(2) cpu_invD by (auto simp: sched_inv_def)
    have k: "same_files s (tick_state c p s)" by (simp add: same_files_def tick_state_def)
    show ?thesis using tick Some r k same_files_trans [OF k] same_files_yield [of c "tick_state c p s" p s']
      by (auto simp: timer_tick_running split: if_splits)
  qed
next
  case (kill pid s)
  show ?case by (auto simp: kill_def kill_loop_eq same_files_def live_def split: option.splits)
qed simp_all

lemma switching_ext:
  assumes "files_ext e s" "sched_inv (pt s)" "sched_step l (pt s) t" "switching l"
  shows "files_ext e (s\<lparr>pt := t\<rparr>)"
proof -
  have f: "same_files (pt s) t" by (rule switching_files [OF assms(3,2,4)])
  have c: "cpu_inv t" using sched_step_inv [OF assms(3,2)] by (simp add: sched_inv_def)
  have "ofiles (s\<lparr>pt := t\<rparr>) = ofiles s" using f by (simp add: ofiles_def same_files_def fun_eq_iff)
  moreover have "fds_ok t" using assms(1) f c by (auto simp: files_ext_def fds_ok_def same_files_def cpu_inv_def myproc_def live_def)
  ultimately show ?thesis using assms(1) by (simp add: files_ext_def)
qed

inductive fd_call :: "kernel \<Rightarrow> kernel \<Rightarrow> bool" where
  fd_dup: "sys_dup c s = Ok (r, s') \<Longrightarrow> fd_call s s'"
| fd_close: "sys_close c s = Ok (r, s') \<Longrightarrow> fd_call s s'"
| fd_open: "sys_open c s = Ok (r, s') \<Longrightarrow> fd_call s s'"
| fd_memo: "sys_memo c s = Ok (r, s') \<Longrightarrow> fd_call s s'"
| fd_pipe: "sys_pipe c s = Ok (r, s') \<Longrightarrow> fd_call s s'"
| fd_fork: "fork c s = Ok (pid, s') \<Longrightarrow> fd_call s s'"
| fd_exit: "exit c s = Ok s' \<Longrightarrow> fd_call s s'"
| fd_link: "sys_link c s = Ok (r, s') \<Longrightarrow> fd_call s s'"
| fd_unlink: "sys_unlink c s = Ok (r, s') \<Longrightarrow> fd_call s s'"
| fd_mkdir: "sys_mkdir c s = Ok (r, s') \<Longrightarrow> fd_call s s'"
| fd_mknod: "sys_mknod c s = Ok (r, s') \<Longrightarrow> fd_call s s'"
| fd_chdir: "sys_chdir c s = Ok (r, s') \<Longrightarrow> fd_call s s'"
| fd_sched: "sched_inv (pt s) \<Longrightarrow> sched_step l (pt s) t \<Longrightarrow> switching l \<Longrightarrow> fd_call s (s\<lparr>pt := t\<rparr>)"

lemma postD: "post snd P m \<Longrightarrow> m = Ok (r, s') \<Longrightarrow> P s'"
  by (auto simp: post_def)

lemma fd_call_inv: "fd_call s s' \<Longrightarrow> files_ext e s \<Longrightarrow> files_ext e s'"
  by (induction rule: fd_call.induct)
     (auto elim: sys_dup_ext sys_close_ext sys_pipe_ext fork_ext exit_ext intro: switching_ext
       dest: postD [OF sys_open_post] postD [OF sys_memo_post] postD [OF sys_unlink_post]
         names_post [THEN postD])

lemma refs_pos: "p < NPROC \<Longrightarrow> fd < NOFILE \<Longrightarrow> t p fd = Some f \<Longrightarrow> 1 \<le> refs t f"
proof -
  assume a: "p < NPROC" "fd < NOFILE" "t p fd = Some f"
  let ?A = "{..<NPROC} \<times> {..<NOFILE}" let ?g = "\<lambda>(q, d). if t q d = Some f then 1 else 0 :: int"
  have "sum ?g {(p, fd)} \<le> sum ?g ?A" by (rule sum_mono2) (use a in \<open>auto split: if_splits\<close>)
  then show ?thesis using a(3) by (simp add: refs_def)
qed

text \<open>C3: however many calls that open, duplicate, share, rename or close files are made, by however many
  processes, with the steps of the scheduler in between, the reference count of every open file is exactly the number of descriptors that refer to
  it; so a file that a descriptor refers to has a positive count, and \<^verbatim>\<open>filealloc\<close> never hands
  it out a second time.\<close>

theorem ref_counts_exact:
  assumes "files_inv s" "fd_call\<^sup>*\<^sup>* s s'"
  shows "files_inv s' \<and> (\<forall>f<NFILE. f_ref (ftable s' f) = refs (ofiles s') f) \<and>
    (\<forall>p<NPROC. \<forall>fd<NOFILE. \<forall>f. ofiles s' p fd = Some f \<longrightarrow> f_ref (ftable s' f) \<ge> 1 \<and> fst (filealloc s') \<noteq> Some f)"
proof -
  have inv: "files_inv s'" using assms(2,1) by (induction rule: rtranclp_induct) (auto intro: fd_call_inv)
  moreover have c: "\<forall>f<NFILE. f_ref (ftable s' f) = refs (ofiles s') f" using inv by (simp add: files_ext_def)
  moreover have "f_ref (ftable s' f) \<ge> 1 \<and> fst (filealloc s') \<noteq> Some f"
    if "p < NPROC" "fd < NOFILE" "ofiles s' p fd = Some f" for p fd f
  proof -
    have "f < NFILE" using inv that by (auto simp: files_ext_def fds_ok_def ofiles_def)
    then have "f_ref (ftable s' f) \<ge> 1" using c refs_pos [of p fd "ofiles s'" f] that by simp
    then show ?thesis by (auto simp: filealloc_def find_Some_iff split: option.splits)
  qed
  ultimately show ?thesis by blast
qed

text \<open>Process 0 with one open file, on descriptor 0; the argument word on its stack is 0.\<close>

definition demo_open :: kernel where
  "demo_open = upd_file 0 (\<lambda>x. x\<lparr>f_type := FD_MEMO, f_ref := 1, f_readable := True\<rparr>) (set_fd 0 0 (Some 0) demo_kernel)"

lemma demo_open_simps:
  "myproc 0 (pt demo_open) = Some 0" "p_sz (procs (pt demo_open) 0) = 4096" "p_pgdir (procs (pt demo_open) 0) = 0x80200000"
  "kvm demo_open = demo_vm" "tf_esp (p_tf (procs (pt demo_open) 0)) = 0"
  "ofiles demo_open = (\<lambda>p fd. if p = 0 \<and> fd = 0 then Some 0 else None)"
  "ftable demo_open = (ftable demo_kernel)(0 := (ftable demo_kernel 0)\<lparr>f_type := FD_MEMO, f_ref := 1, f_readable := True\<rparr>)"
  "p_ofile (procs (pt demo_open) 0) = (\<lambda>fd. if fd = 0 then Some 0 else None)"
  by (auto simp: demo_open_def set_fd_def upd_cur_def upd_file_def ofiles_def demo_pt_def boot_def myproc_def upd_proc_def upd_cpu_def fun_eq_iff)

lemma demo_open_inv: "files_inv demo_open"
proof -
  have "refs (ofiles demo_open) f = (if f = 0 then 1 else 0)" for f
  proof -
    have "ofiles demo_open = (\<lambda>_ _. None)(0 := ((\<lambda>_ _. None) (0 :: nat))(0 := Some 0))"
      by (auto simp: demo_open_simps fun_eq_iff)
    then show ?thesis by (simp only: refs_update [of 0 0 "\<lambda>_ _. None" "Some 0" f]) (simp add: refs_def)
  qed
  moreover have "fds_ok (pt demo_open)"
    by (auto simp: fds_ok_def live_def demo_open_def set_fd_def upd_cur_def upd_file_def demo_pt_def boot_def myproc_def upd_proc_def
        upd_cpu_def split: if_splits)
  ultimately show ?thesis by (auto simp: files_ext_def demo_open_simps)
qed

lemma demo_open_dup: "\<exists>s'. sys_dup 0 demo_open = Ok (Done 1, s') \<and> f_ref (ftable s' 0) = 2"
proof -
  have a: "argint 0 0 demo_open = Ok (Some 0)" by (rule demo_arg0) (simp_all add: demo_open_simps)
  have "argfd 0 0 demo_open = Ok (Some (0, 0))" using a by (simp add: argfd_def with_cur_def demo_open_simps)
  moreover have "fdalloc 0 0 demo_open = Ok (Some 1, set_fd 0 1 (Some 0) demo_open)"
    by (simp add: fdalloc_def with_cur_def demo_open_simps upt_rec)
  ultimately show ?thesis
    by (simp add: sys_dup_def or_fail_def filedup_def set_fd_def upd_cur_def demo_open_simps)
qed

theorem ref_counts_exact_witness:
  "\<exists>s'. fd_call\<^sup>*\<^sup>* demo_open s' \<and> refs (ofiles s') 0 = 2"
proof -
  obtain s' where s': "sys_dup 0 demo_open = Ok (Done 1, s')" "f_ref (ftable s' 0) = 2" using demo_open_dup by blast
  then have "fd_call\<^sup>*\<^sup>* demo_open s'" using fd_dup by blast
  then show ?thesis using ref_counts_exact [OF demo_open_inv, of s'] s'(2) by auto
qed

section \<open>Memo files cannot be read\<close>

lemma file_and_fd_slot:
  assumes "file_and_fd c s = Ok (Some (f, fd), s')" "myproc c (pt s') = Some me"
  shows "ofiles s' me fd = Some f"
proof -
  obtain s1 where s1: "filealloc s = (Some f, s1)" "fdalloc c f s1 = Ok (Some fd, s')"
    using assms(1) by (auto simp: file_and_fd_def bindo_Ok_iff Let_def split: option.splits prod.splits)
  obtain q where "myproc c (pt s1) = Some q" "s' = set_fd q fd (Some f) s1"
    using s1(2) by (auto simp: fdalloc_def with_cur_def split: option.splits)
  then show ?thesis using assms(2) by (simp add: ofiles_set_fd) (simp add: set_fd_def upd_cur_def upd_proc_def myproc_def)
qed

interpretation fk: fd_closed "fkeep s" for s
  by unfold_locales (rule fkeep_trans)

lemma memo_file:
  assumes "sys_memo c s = Ok (Done fd, s')" "0 \<le> fd" "myproc c (pt s') = Some me"
  shows "\<exists>f. ofiles s' me (nat fd) = Some f \<and> f_type (ftable s' f) = FD_MEMO \<and> f_readable (ftable s' f)"
proof -
  obtain r s1 where r: "file_and_fd c s = Ok (r, s1)" using assms(1) by (auto simp: sys_memo_def bindo_Ok_iff)
  have "r \<noteq> None" using assms(1,2) r by (cases r) (auto simp: sys_memo_def)
  then obtain f d where fd: "r = Some (f, d)" by auto
  let ?s = "upd_file f (\<lambda>x. x\<lparr>f_type := FD_MEMO, f_off := 0, f_readable := True, f_writable := True\<rparr>) s1"
  have "post snd (fkeep ?s) (bindo (getshared c 2 ?s) (\<lambda>(ch, s).
         with_cur c (\<lambda>me x s. bindo (on_vm (ustore32 (p_pgdir x) (ch + 52) 0) s) (\<lambda>s. Ok (Done (int d), s))) s))"
    by (intro posts fk.fd_posts; simp)
  then have k: "fkeep ?s s'" "fd = int d"
    using assms(1) r fd by (auto simp: sys_memo_def Let_def post_def bindo_Ok_iff with_cur_def split: option.splits)
  have "myproc c (pt s1) = Some me" using k(1) assms(3) by (simp add: fkeep_def pkeep_def)
  then have "ofiles s1 me d = Some f" using file_and_fd_slot r fd by blast
  then show ?thesis using k by (auto simp: fkeep_def pkeep_def ofiles_def)
qed

theorem memo_read_panics:
  assumes memo: "sys_memo c s = Ok (Done fd, s1)" "0 \<le> fd" and user: "fkeep s1 s2"
    and args: "argfd c 0 s2 = Ok (Some (nat fd, f))" "argint c 2 s2 = Ok (Some n)" "argptr c 1 (sint n) s2 = Ok (Some p)"
    and inv: "files_ext e s2"
  shows "sys_read c s2 = Panic ''fileread''"
proof -
  obtain me where me: "myproc c (pt s2) = Some me" "ofiles s2 me (nat fd) = Some f" using argfd_open [OF args(1) inv] by blast
  then have "f_type (ftable s2 f) = FD_MEMO" "f_readable (ftable s2 f)"
    using memo_file [OF memo, of me] user by (auto simp: fkeep_def pkeep_def ofiles_def)
  then show ?thesis using args by (simp add: sys_read_def or_fail_def fileread_def)
qed

end
