(* ===== verification/Sh.thy ===== *)
theory Sh
  imports Xv6_Prelude "HOL-Library.Sublist"
begin

text \<open>
  The shell, \<^verbatim>\<open>sh.c\<close>: its parser and the runner of command trees. A pointer into the line is
  the list of the bytes from there to the end of the line; where the C code keeps a pointer in a command, the
  command has its distance from the end. The line holds no null byte before its terminator. The
  nodes of a command tree are allocated with \<^verbatim>\<open>malloc\<close>, which is taken to succeed.
\<close>

section \<open>Tokens\<close>

definition whitespace :: "u8 list" where
  "whitespace = [32, 9, 13, 10, 11]"

definition symbols :: "u8 list" where
  "symbols = [60, 124, 62, 38, 59, 40, 41]"

abbreviation (input) ch_word :: u8 where "ch_word \<equiv> 97"
abbreviation (input) ch_lt :: u8 where "ch_lt \<equiv> 60"
abbreviation (input) ch_gt :: u8 where "ch_gt \<equiv> 62"
abbreviation (input) ch_plus :: u8 where "ch_plus \<equiv> 43"
abbreviation (input) ch_bar :: u8 where "ch_bar \<equiv> 124"
abbreviation (input) ch_amp :: u8 where "ch_amp \<equiv> 38"
abbreviation (input) ch_semi :: u8 where "ch_semi \<equiv> 59"
abbreviation (input) ch_open :: u8 where "ch_open \<equiv> 40"
abbreviation (input) ch_close :: u8 where "ch_close \<equiv> 41"

text \<open>The byte a pointer points to; at the end of the line it is the terminator.\<close>

definition deref :: "u8 list \<Rightarrow> u8" where
  "deref s = (case s of [] \<Rightarrow> 0 | c # _ \<Rightarrow> c)"

definition skip_ws :: "u8 list \<Rightarrow> u8 list" where
  "skip_ws s = dropWhile (\<lambda>c. c \<in> set whitespace) s"

definition plain :: "u8 \<Rightarrow> bool" where
  "plain c \<longleftrightarrow> c \<notin> set whitespace \<and> c \<notin> set symbols"

text \<open>\<^verbatim>\<open>gettoken\<close>: the token, its beginning, its end, and where parsing goes on.\<close>

definition gettoken :: "u8 list \<Rightarrow> u8 \<times> nat \<times> nat \<times> u8 list" where
  "gettoken s =
     (let s = skip_ws s; q = length s; c = deref s;
          (ret, s) =
            (if c = 0 then (c, s)
             else if c \<in> {ch_bar, ch_open, ch_close, ch_semi, ch_amp, ch_lt} then (c, tl s)
             else if c = ch_gt then (if deref (tl s) = ch_gt then (ch_plus, tl (tl s)) else (c, tl s))
             else (ch_word, dropWhile plain s))
      in (ret, q, length s, skip_ws s))"

definition peek :: "u8 list \<Rightarrow> u8 list \<Rightarrow> bool \<times> u8 list" where
  "peek s toks = (let s = skip_ws s in (deref s \<noteq> 0 \<and> deref s \<in> set toks, s))"

section \<open>Commands\<close>

type_synonym span = "nat \<times> nat"

text \<open>A command tree over the words \<open>'w\<close>, which for the parser are spans: the distances of the beginning and of the end of a
  word from the end of the line.\<close>

datatype (words: 'w) cmd = EXEC "'w list" | REDIR "'w cmd" 'w u32 int | PIPE "'w cmd" "'w cmd" | LIST "'w cmd" "'w cmd" | BACK "'w cmd"

abbreviation (input) MAXARGS :: nat where "MAXARGS \<equiv> 10"
abbreviation (input) O_RDONLY :: u32 where "O_RDONLY \<equiv> 0"
abbreviation (input) O_WRCREATE :: u32 where "O_WRCREATE \<equiv> 0x201"

section \<open>The parser\<close>

lemma length_skip_ws: "length (skip_ws s) \<le> length s"
  by (simp add: skip_ws_def length_dropWhile_le)

lemma skip_ws_Nil [simp]: "skip_ws [] = []"
  by (simp add: skip_ws_def)

lemma skip_ws_idem [simp]: "skip_ws (skip_ws s) = skip_ws s"
  by (simp add: skip_ws_def dropWhile_idem)

lemma gettoken_zero: "fst (gettoken s) = 0 \<longleftrightarrow> deref (skip_ws s) = 0"
  by (simp add: gettoken_def Let_def split_beta)

lemma gettoken_le: "gettoken s = (t, q, e, r) \<Longrightarrow> length r \<le> length s \<and> (t \<noteq> 0 \<longrightarrow> length r < length s)"
proof -
  assume g: "gettoken s = (t, q, e, r)"
  let ?s = "skip_ws s"
  have w: "?s = c # cs \<Longrightarrow> c \<notin> set whitespace" for c cs using hd_dropWhile [of "\<lambda>c. c \<in> set whitespace" s] by (simp add: skip_ws_def)
  have d: "length (dropWhile plain ?s) < length ?s" if "deref ?s \<noteq> 0" "deref ?s \<notin> set symbols"
    using that w length_dropWhile_le [of plain "tl ?s"] by (cases ?s) (auto simp: deref_def plain_def)
  have "length r \<le> length ?s \<and> (t \<noteq> 0 \<longrightarrow> length r < length ?s)"
    using g d by (cases ?s; cases "tl ?s")
      (auto simp: gettoken_def Let_def deref_def symbols_def split: if_splits intro: order.strict_trans1 [OF length_skip_ws] order_trans [OF length_skip_ws])
  then show ?thesis using length_skip_ws [of s] by linarith
qed

lemma peek_le: "peek s ts = (b, r) \<Longrightarrow> length r \<le> length s"
  by (auto simp: peek_def Let_def length_skip_ws)

lemma peek_token: "peek s ts = (True, r) \<Longrightarrow> gettoken r = (t, q, e, r') \<Longrightarrow> length r' < length s"
  using gettoken_le [of r t q e r'] gettoken_zero [of r] length_skip_ws [of s] by (auto simp: peek_def Let_def)

text \<open>The loop of \<^verbatim>\<open>parseredirs\<close>; the redirections found, in their order.\<close>

function parseredirs :: "u8 list \<Rightarrow> ((span \<times> u32 \<times> int) list \<times> u8 list) outcome" where
  "parseredirs s =
     (let (b, s) = peek s [ch_lt, ch_gt] in
      if \<not> b then Ok ([], s)
      else
        let (tok, _, _, s) = gettoken s; (a, q, eq, s) = gettoken s in
        if a \<noteq> ch_word then Panic ''missing file for redirection''
        else bindo (parseredirs s) (\<lambda>(rs, s).
          if tok = ch_lt then Ok (((q, eq), O_RDONLY, 0) # rs, s)
          else Ok (((q, eq), O_WRCREATE, 1) # rs, s)))"
  by pat_completeness auto
termination
proof (relation "measure length")
  fix s x b s1 y tok y1 q1 y2 e1 s2 z a z1 q z2 eq s3
  assume "x = peek s [ch_lt, ch_gt]" "(b, s1) = x" "y = gettoken s1" "(tok, y1) = y" "(q1, y2) = y1" "(e1, s2) = y2"
    "z = gettoken s2" "(a, z1) = z" "(q, z2) = z1" "(eq, s3) = z2" "\<not> a \<noteq> ch_word"
  then show "(s3, s) \<in> measure length"
    using gettoken_le [of s1 tok q1 e1 s2] gettoken_le [of s2 a q eq s3] length_skip_ws [of s] by (auto simp: peek_def Let_def)
qed simp

declare parseredirs.simps [simp del]

definition redircmds :: "'w cmd \<Rightarrow> ('w \<times> u32 \<times> int) list \<Rightarrow> 'w cmd" where
  "redircmds c rs = foldl (\<lambda>c (f, mode, fd). REDIR c f mode fd) c rs"

text \<open>\<^verbatim>\<open>parseblock\<close> and \<^verbatim>\<open>parseexec\<close> are given the recursive call of \<^verbatim>\<open>parseline\<close>.\<close>

type_synonym parser = "u8 list \<Rightarrow> (span cmd \<times> u8 list) outcome"

definition parseblock :: "parser \<Rightarrow> parser" where
  "parseblock pl s =
     (let (b, s) = peek s [ch_open] in
      if \<not> b then Panic ''parseblock''
      else let (_, _, _, s) = gettoken s in
        bindo (pl s) (\<lambda>(c, s).
        let (b, s) = peek s [ch_close] in
        if \<not> b then Panic ''syntax - missing )''
        else let (_, _, _, s) = gettoken s in
          bindo (parseredirs s) (\<lambda>(rs, s). Ok (redircmds c rs, s))))"

text \<open>The loop of \<^verbatim>\<open>parseexec\<close>: the arguments and the redirections so far. It has one turn per argument, so
  \<^verbatim>\<open>MAXARGS\<close> turns at most.\<close>

fun parseexec_loop :: "nat \<Rightarrow> span list \<Rightarrow> (span \<times> u32 \<times> int) list \<Rightarrow> parser" where
  "parseexec_loop 0 argv rs s = Panic ''too many args''"
| "parseexec_loop (Suc k) argv rs s =
     (let (b, s) = peek s [ch_bar, ch_close, ch_amp, ch_semi] in
      if b then Ok (redircmds (EXEC argv) rs, s)
      else let (tok, q, eq, s) = gettoken s in
        if tok = 0 then Ok (redircmds (EXEC argv) rs, s)
        else if tok \<noteq> ch_word then Panic ''syntax''
        else if k = 0 then Panic ''too many args''
        else bindo (parseredirs s) (\<lambda>(rs', s). parseexec_loop k (argv @ [(q, eq)]) (rs @ rs') s))"

definition parseexec :: "parser \<Rightarrow> parser" where
  "parseexec pl s =
     (let (b, s) = peek s [ch_open] in
      if b then parseblock pl s
      else bindo (parseredirs s) (\<lambda>(rs, s). parseexec_loop MAXARGS [] rs s))"

text \<open>\<^verbatim>\<open>parsepipe\<close> and \<^verbatim>\<open>parseline\<close>, with a bound on the depth of their recursion; \<open>Wait\<close> would mean that it is not
  enough.\<close>

fun parsepipe :: "nat \<Rightarrow> parser \<Rightarrow> parser" where
  "parsepipe 0 pl s = Wait"
| "parsepipe (Suc n) pl s =
     bindo (parseexec pl s) (\<lambda>(c, s).
     let (b, s) = peek s [ch_bar] in
     if b then
       let (_, _, _, s) = gettoken s in
       bindo (parsepipe n pl s) (\<lambda>(r, s). Ok (PIPE c r, s))
     else Ok (c, s))"

function back_loop :: "span cmd \<Rightarrow> u8 list \<Rightarrow> span cmd \<times> u8 list" where
  "back_loop c s =
     (let (b, s) = peek s [ch_amp] in
      if b then let (_, _, _, s) = gettoken s in back_loop (BACK c) s else (c, s))"
  by pat_completeness auto
termination
proof (relation "measure (\<lambda>(c, s). length s)")
  fix c :: "span cmd" and s x b s1 y tok y1 q y2 e s2
  assume "x = peek s [ch_amp]" "(b, s1) = x" "b" "y = gettoken s1" "(tok, y1) = y" "(q, y2) = y1" "(e, s2) = y2"
  then show "((BACK c, s2), c, s) \<in> measure (\<lambda>(c, s). length s)"
    using peek_token [of s "[ch_amp]" s1 tok q e s2] by auto
qed simp

declare back_loop.simps [simp del]

fun parseline :: "nat \<Rightarrow> parser" where
  "parseline 0 s = Wait"
| "parseline (Suc n) s =
     bindo (parsepipe (Suc n) (parseline n) s) (\<lambda>(c, s).
     let (c, s) = back_loop c s; (b, s) = peek s [ch_semi] in
     if b then
       let (_, _, _, s) = gettoken s in
       bindo (parseline n s) (\<lambda>(r, s). Ok (LIST c r, s))
     else Ok (c, s))"

text \<open>\<^verbatim>\<open>nulterminate\<close>, on a line of \<open>n\<close> bytes with its terminator.\<close>

fun nulterminate :: "nat \<Rightarrow> span cmd \<Rightarrow> u8 list \<Rightarrow> u8 list" where
  "nulterminate n (EXEC argv) b = foldl (\<lambda>b (q, e). b[n - e := 0]) b argv"
| "nulterminate n (REDIR c f mode fd) b = (nulterminate n c b)[n - snd f := 0]"
| "nulterminate n (PIPE l r) b = nulterminate n r (nulterminate n l b)"
| "nulterminate n (LIST l r) b = nulterminate n r (nulterminate n l b)"
| "nulterminate n (BACK c) b = nulterminate n c b"

text \<open>\<^verbatim>\<open>parsecmd\<close>: the tree and the line its spans point into.\<close>

definition parsecmd :: "u8 list \<Rightarrow> (span cmd \<times> u8 list) outcome" where
  "parsecmd line =
     bindo (parseline (Suc (length line)) line) (\<lambda>(c, s).
     let (_, s) = peek s [] in
     if s \<noteq> [] then Panic ''syntax'' else Ok (c, nulterminate (length line) c (line @ [0])))"

section \<open>Parsing ends, and finds words\<close>

text \<open>A maximal run of bytes that are neither white space nor symbols.\<close>

definition byte_at :: "u8 list \<Rightarrow> nat \<Rightarrow> u8" where
  "byte_at line d = deref (drop (length line - d) line)"

definition word_at :: "u8 list \<Rightarrow> span \<Rightarrow> u8 list" where
  "word_at line sp = take (fst sp - snd sp) (drop (length line - fst sp) line)"

definition good :: "u8 list \<Rightarrow> span \<Rightarrow> bool" where
  "good line sp \<longleftrightarrow> snd sp < fst sp \<and> fst sp \<le> length line \<and> list_all plain (word_at line sp) \<and>
     (snd sp = 0 \<or> \<not> plain (line ! (length line - snd sp)))"

lemma suffix_skip_ws: "suffix s line \<Longrightarrow> suffix (skip_ws s) line"
  unfolding skip_ws_def by (metis suffix_dropWhile suffix_order.trans)

lemma suffix_tl': "suffix s line \<Longrightarrow> suffix (tl s) line"
  by (metis suffix_tl suffix_order.trans)

lemma peek_suffix: "peek s ts = (b, r) \<Longrightarrow> suffix s line \<Longrightarrow> suffix r line"
  by (auto simp: peek_def Let_def suffix_skip_ws)

lemma gettoken_suffix: "gettoken s = (t, q, e, r) \<Longrightarrow> suffix s line \<Longrightarrow> suffix r line"
proof -
  assume g: "gettoken s = (t, q, e, r)" and s: "suffix s line"
  have "suffix (dropWhile plain (skip_ws s)) line" using suffix_dropWhile suffix_skip_ws [OF s] suffix_order.trans by blast
  then show ?thesis using g suffix_skip_ws [OF s] by (auto simp: gettoken_def Let_def suffix_tl' suffix_skip_ws split: if_splits)
qed

lemma word_at_suffix: "suffix (w @ r) line \<Longrightarrow> word_at line (length (w @ r), length r) = w"
  by (auto simp: suffix_def word_at_def)

lemma suffix_nth: "suffix r line \<Longrightarrow> r \<noteq> [] \<Longrightarrow> line ! (length line - length r) = hd r"
  by (auto simp: suffix_def nth_append hd_conv_nth)

lemma gettoken_word:
  assumes g: "gettoken s = (ch_word, q, e, r)" and s: "suffix s line"
  shows "good line (q, e)"
proof -
  let ?s = "skip_ws s" let ?w = "takeWhile plain ?s" let ?r = "dropWhile plain ?s"
  have c: "deref ?s \<noteq> 0" "deref ?s \<notin> set symbols" "q = length ?s" "e = length ?r"
    using g by (auto simp: gettoken_def Let_def symbols_def split: if_splits)
  have w: "?s = ?w @ ?r" by simp
  have ws: "deref ?s \<notin> set whitespace"
  proof -
    obtain d ds where d: "?s = d # ds" using c(1) by (cases ?s) (auto simp: deref_def)
    then have "d \<notin> set whitespace" using hd_dropWhile [of "\<lambda>c. c \<in> set whitespace" s] by (simp add: skip_ws_def)
    then show ?thesis using d by (simp add: deref_def)
  qed
  have ne: "?w \<noteq> []" using c(1,2) ws by (cases ?s) (auto simp: deref_def plain_def)
  have su: "suffix (?w @ ?r) line" using suffix_skip_ws [OF s] by simp
  have wa: "word_at line (q, e) = ?w" using word_at_suffix [OF su] w c(3,4) by (metis)
  have "?r = [] \<or> \<not> plain (hd ?r)" using hd_dropWhile [of plain ?s] by blast
  moreover have "line ! (length line - e) = hd ?r" if "?r \<noteq> []"
    unfolding c(4) using suffix_nth [of ?r line] suffix_appendD [OF su] that by blast
  ultimately have ed: "e = 0 \<or> \<not> plain (line ! (length line - e))" using c(4) by (metis list.size(3))
  have "length ?w + length ?r = q" unfolding c(3) by (metis length_append w)
  moreover have "0 < length ?w" using ne by (rule length_greater_0_conv [THEN iffD2])
  ultimately have "e < q" unfolding c(4) by linarith
  moreover have "q \<le> length line" using suffix_length_le [OF suffix_skip_ws [OF s]] by (simp add: c(3))
  moreover have "list_all plain (word_at line (q, e))" unfolding wa list_all_iff by (auto dest: set_takeWhileD)
  ultimately show ?thesis using ed by (simp add: good_def)
qed

text \<open>A parse that ends, with at most \<open>n\<close> bytes of the line left, in something that satisfies \<open>G\<close>.\<close>

definition lands :: "u8 list \<Rightarrow> nat \<Rightarrow> ('r \<Rightarrow> bool) \<Rightarrow> ('r \<times> u8 list) outcome \<Rightarrow> bool" where
  "lands line n G m \<longleftrightarrow> m \<noteq> Wait \<and> (\<forall>c r. m = Ok (c, r) \<longrightarrow> length r \<le> n \<and> suffix r line \<and> G c)"

lemma lands_simps [simp]: "lands line n G (Ok (c, r)) \<longleftrightarrow> length r \<le> n \<and> suffix r line \<and> G c" "lands line n G (Panic e)"
  "\<not> lands line n G Wait" "lands line n G UB"
  by (auto simp: lands_def)

lemma lands_bind:
  "lands line k G m \<Longrightarrow> (\<And>c r. length r \<le> k \<Longrightarrow> suffix r line \<Longrightarrow> G c \<Longrightarrow> lands line n H (f (c, r))) \<Longrightarrow> lands line n H (bindo m f)"
  by (cases m) (auto simp: lands_def)

lemma lands_mono: "lands line m G x \<Longrightarrow> m \<le> n \<Longrightarrow> lands line n G x"
  by (auto simp: lands_def)


abbreviation std_redir :: "u32 \<Rightarrow> int \<Rightarrow> bool" where
  "std_redir mode fd \<equiv> mode = O_RDONLY \<and> fd = 0 \<or> mode = O_WRCREATE \<and> fd = 1"

primrec std_redirs :: "'w cmd \<Rightarrow> bool" where
  "std_redirs (EXEC argv) \<longleftrightarrow> True"
| "std_redirs (REDIR c f mode fd) \<longleftrightarrow> std_redirs c \<and> std_redir mode fd"
| "std_redirs (PIPE l r) \<longleftrightarrow> std_redirs l \<and> std_redirs r"
| "std_redirs (LIST l r) \<longleftrightarrow> std_redirs l \<and> std_redirs r"
| "std_redirs (BACK c) \<longleftrightarrow> std_redirs c"

abbreviation good_redirs :: "u8 list \<Rightarrow> (span \<times> u32 \<times> int) list \<Rightarrow> bool" where
  "good_redirs line rs \<equiv> \<forall>(f, mode, fd) \<in> set rs. good line f \<and> std_redir mode fd"

abbreviation good_cmd :: "u8 list \<Rightarrow> span cmd \<Rightarrow> bool" where
  "good_cmd line c \<equiv> (\<forall>w \<in> words c. good line w) \<and> std_redirs c"

lemma words_redircmds [simp]: "words (redircmds c rs) = words c \<union> fst ` set rs"
  unfolding redircmds_def by (induction rs arbitrary: c) auto

lemma std_redirs_redircmds [simp]: "std_redirs (redircmds c rs) \<longleftrightarrow> std_redirs c \<and> (\<forall>(f, mode, fd) \<in> set rs. std_redir mode fd)"
  unfolding redircmds_def by (induction rs arbitrary: c) auto

lemma good_redircmds: "good_cmd line c \<Longrightarrow> good_redirs line rs \<Longrightarrow> good_cmd line (redircmds c rs)"
  by auto

lemma parseredirs_lands: "suffix s line \<Longrightarrow> lands line (length s) (good_redirs line) (parseredirs s)"
proof (induction s rule: parseredirs.induct)
  case (1 s)
  obtain b s1 where b: "peek s [ch_lt, ch_gt] = (b, s1)" by (cases "peek s [ch_lt, ch_gt]")
  obtain tok q1 e1 s2 where t: "gettoken s1 = (tok, q1, e1, s2)" by (cases "gettoken s1") auto
  obtain a q eq s3 where a: "gettoken s2 = (a, q, eq, s3)" by (cases "gettoken s2") auto
  have le: "length s1 \<le> length s" "length s3 \<le> length s"
    using gettoken_le [OF t] gettoken_le [OF a] peek_le [OF b] by linarith+
  have su: "suffix s1 line" "suffix s2 line" "suffix s3 line"
    using peek_suffix [OF b 1(2)] gettoken_suffix [OF t] gettoken_suffix [OF a] by blast+
  show ?case
  proof (cases "b \<and> a = ch_word")
    case False then show ?thesis using b t a le su by (simp add: parseredirs.simps [of s])
  next
    case True
    then have "lands line (length s3) (good_redirs line) (parseredirs s3)"
      using 1(1) [OF b [symmetric] refl _ t [symmetric] refl refl refl a [symmetric] refl refl refl] b su by auto
    then have "lands line (length s) (good_redirs line) (bindo (parseredirs s3) (\<lambda>(rs, s).
          if tok = ch_lt then Ok (((q, eq), O_RDONLY, 0) # rs, s) else Ok (((q, eq), O_WRCREATE, 1) # rs, s)))"
      by (rule lands_bind) (use le gettoken_word [of s2 q eq s3 line] a True su in auto)
    then show ?thesis using b t a True by (simp add: parseredirs.simps [of s])
  qed
qed

lemma parseexec_loop_lands:
  "suffix s line \<Longrightarrow> \<forall>w \<in> set argv. good line w \<Longrightarrow> good_redirs line rs \<Longrightarrow>
   lands line (length s) (good_cmd line) (parseexec_loop k argv rs s)"
proof (induction k arbitrary: argv rs s)
  case (Suc k)
  obtain b s1 where b: "peek s [ch_bar, ch_close, ch_amp, ch_semi] = (b, s1)" by (cases "peek s [ch_bar, ch_close, ch_amp, ch_semi]")
  obtain t q e s2 where t: "gettoken s1 = (t, q, e, s2)" by (cases "gettoken s1") auto
  have le: "length s1 \<le> length s" "length s2 \<le> length s" using peek_le [OF b] gettoken_le [OF t] by auto
  have su: "suffix s1 line" "suffix s2 line" using peek_suffix [OF b Suc.prems(1)] gettoken_suffix [OF t] by blast+
  have fin: "good_cmd line (redircmds (EXEC argv) rs)" by (rule good_redircmds) (use Suc.prems in auto)
  show ?case
  proof (cases "b \<or> t \<noteq> ch_word \<or> k = 0")
    case True
    then show ?thesis using b t le su fin by auto
  next
    case False
    then have "\<forall>w \<in> set (argv @ [(q, e)]). good line w" using gettoken_word [of s1 q e s2 line] su t Suc.prems(2) by simp
    then have "lands line (length s) (good_cmd line) (parseexec_loop k (argv @ [(q, e)]) (rs @ rs') r)"
      if "length r \<le> length s2" "suffix r line" "good_redirs line rs'" for rs' r
      using that Suc.prems(3) le by (intro lands_mono [OF Suc.IH]) auto
    then have "lands line (length s) (good_cmd line) (bindo (parseredirs s2) (\<lambda>(rs', s). parseexec_loop k (argv @ [(q, e)]) (rs @ rs') s))"
      by (intro lands_bind [OF parseredirs_lands [OF su(2)]]) simp
    then show ?thesis using b t False by simp
  qed
qed simp

lemma parseblock_lands:
  assumes "\<And>r. length r < length s \<Longrightarrow> suffix r line \<Longrightarrow> lands line (length r) (good_cmd line) (pl r)" and "suffix s line"
  shows "lands line (length s) (good_cmd line) (parseblock pl s)"
proof -
  obtain b s1 where b: "peek s [ch_open] = (b, s1)" by (cases "peek s [ch_open]")
  obtain t q e s2 where t: "gettoken s1 = (t, q, e, s2)" by (cases "gettoken s1") auto
  show ?thesis
  proof (cases b)
    case False then show ?thesis using b by (simp add: parseblock_def)
  next
    case True
    have le: "length s2 < length s" using peek_token [of s "[ch_open]" s1 t q e s2] b True t by simp
    have su: "suffix s2 line" using peek_suffix [OF b assms(2)] gettoken_suffix [OF t] by blast
    have step: "lands line (length s) (good_cmd line) (let (b, s) = peek r [ch_close] in if \<not> b then Panic ''syntax - missing )''
        else let (_, _, _, s) = gettoken s in bindo (parseredirs s) (\<lambda>(rs, s). Ok (redircmds c rs, s)))"
      if "length r \<le> length s2" "suffix r line" "good_cmd line c" for c r
    proof -
      obtain b' r1 where b': "peek r [ch_close] = (b', r1)" by (cases "peek r [ch_close]")
      obtain t' q' e' r2 where t': "gettoken r1 = (t', q', e', r2)" by (cases "gettoken r1") auto
      have "length r2 \<le> length s" using peek_le [OF b'] gettoken_le [OF t'] that le by linarith
      moreover have "suffix r2 line" using peek_suffix [OF b' that(2)] gettoken_suffix [OF t'] by blast
      ultimately have "lands line (length s) (good_cmd line) (bindo (parseredirs r2) (\<lambda>(rs, s). Ok (redircmds c rs, s)))"
        using good_redircmds [OF that(3)] by (intro lands_bind [OF parseredirs_lands]) auto
      then show ?thesis using b' t' by simp
    qed
    show ?thesis using b t True by (simp add: parseblock_def) (rule lands_bind [OF assms(1) [OF le su]], use step in simp)
  qed
qed

lemma parseexec_lands:
  assumes "\<And>r. length r < length s \<Longrightarrow> suffix r line \<Longrightarrow> lands line (length r) (good_cmd line) (pl r)" and "suffix s line"
  shows "lands line (length s) (good_cmd line) (parseexec pl s)"
proof -
  obtain b s1 where b: "peek s [ch_open] = (b, s1)" by (cases "peek s [ch_open]")
  have le: "length s1 \<le> length s" using peek_le [OF b] .
  have su: "suffix s1 line" using peek_suffix [OF b assms(2)] .
  have "lands line (length s) (good_cmd line) (parseblock pl s1)"
    using lands_mono [OF parseblock_lands [of s1 line pl]] assms(1) le su by auto
  moreover have "lands line (length s) (good_cmd line) (bindo (parseredirs s1) (\<lambda>(rs, s). parseexec_loop MAXARGS [] rs s))"
    by (rule lands_bind [OF parseredirs_lands [OF su]]) (use lands_mono [OF parseexec_loop_lands] le in auto)
  ultimately show ?thesis using b by (simp add: parseexec_def)
qed

lemma parsepipe_lands:
  "length s < n \<Longrightarrow> (\<And>r. length r < length s \<Longrightarrow> suffix r line \<Longrightarrow> lands line (length r) (good_cmd line) (pl r)) \<Longrightarrow> suffix s line \<Longrightarrow>
   lands line (length s) (good_cmd line) (parsepipe n pl s)"
proof (induction n arbitrary: s)
  case (Suc n)
  have step: "lands line (length s) (good_cmd line) (let (b, s) = peek r [ch_bar] in if b then let (_, _, _, s) = gettoken s in
       bindo (parsepipe n pl s) (\<lambda>(r, s). Ok (PIPE c r, s)) else Ok (c, s))"
    if r: "length r \<le> length s" "suffix r line" "good_cmd line c" for c r
  proof -
    obtain b r1 where b: "peek r [ch_bar] = (b, r1)" by (cases "peek r [ch_bar]")
    obtain t q e r2 where t: "gettoken r1 = (t, q, e, r2)" by (cases "gettoken r1") auto
    have su: "suffix r1 line" "suffix r2 line" using peek_suffix [OF b r(2)] gettoken_suffix [OF t] by blast+
    show ?thesis
    proof (cases b)
      case False then show ?thesis using b peek_le [OF b] r su by simp
    next
      case True
      then have "length r2 < length s" using peek_token b t r(1) by fastforce
      then have "lands line (length s) (good_cmd line) (bindo (parsepipe n pl r2) (\<lambda>(r, s). Ok (PIPE c r, s)))"
        using Suc.prems su r(3) by (intro lands_bind [OF Suc.IH]) auto
      then show ?thesis using b t True by simp
    qed
  qed
  have "lands line (length s) (good_cmd line) (parseexec pl s)" by (rule parseexec_lands) (use Suc.prems(2,3) in auto)
  then show ?case unfolding parsepipe.simps by (rule lands_bind) (use step in simp)
qed simp

lemma back_loop_lands: "back_loop c s = (c', r) \<Longrightarrow> suffix s line \<Longrightarrow> good_cmd line c \<Longrightarrow>
  length r \<le> length s \<and> suffix r line \<and> good_cmd line c'"
proof (induction c s rule: back_loop.induct)
  case (1 c s)
  obtain b s1 where b: "peek s [ch_amp] = (b, s1)" by (cases "peek s [ch_amp]")
  obtain t q e s2 where t: "gettoken s1 = (t, q, e, s2)" by (cases "gettoken s1") auto
  have su: "suffix s1 line" "suffix s2 line" using peek_suffix [OF b 1(3)] gettoken_suffix [OF t] by blast+
  show ?case
  proof (cases b)
    case False then show ?thesis using 1(2-) b su peek_le [OF b] by (simp add: back_loop.simps [of c s])
  next
    case True
    then have "length r \<le> length s2 \<and> suffix r line \<and> good_cmd line c'" using 1 b t su by (simp add: back_loop.simps [of c s])
    then show ?thesis using peek_le [OF b] gettoken_le [OF t] by auto
  qed
qed

lemma parseline_lands: "length s < n \<Longrightarrow> suffix s line \<Longrightarrow> lands line (length s) (good_cmd line) (parseline n s)"
proof (induction n arbitrary: s)
  case (Suc n)
  have step: "lands line (length s) (good_cmd line) (let (c, s) = back_loop c r; (b, s) = peek s [ch_semi] in
     if b then let (_, _, _, s) = gettoken s in bindo (parseline n s) (\<lambda>(r, s). Ok (LIST c r, s)) else Ok (c, s))"
    if r: "length r \<le> length s" "suffix r line" "good_cmd line c" for c r
  proof -
    obtain c' r1 where k: "back_loop c r = (c', r1)" by (cases "back_loop c r")
    obtain b r2 where b: "peek r1 [ch_semi] = (b, r2)" by (cases "peek r1 [ch_semi]")
    obtain t q e r3 where t: "gettoken r2 = (t, q, e, r3)" by (cases "gettoken r2") auto
    have k': "length r1 \<le> length r" "suffix r1 line" "good_cmd line c'" using back_loop_lands [OF k r(2,3)] by auto
    have su: "suffix r2 line" "suffix r3 line" using peek_suffix [OF b k'(2)] gettoken_suffix [OF t] by blast+
    show ?thesis
    proof (cases b)
      case False then show ?thesis using k b peek_le [OF b] k' r su by simp
    next
      case True
      then have "length r3 < length s" using peek_token b t r(1) k'(1) by fastforce
      then have "lands line (length s) (good_cmd line) (bindo (parseline n r3) (\<lambda>(r, s). Ok (LIST c' r, s)))"
        using Suc.prems su k'(3) by (intro lands_bind [OF Suc.IH]) auto
      then show ?thesis using k b t True by simp
    qed
  qed
  have "lands line (length s) (good_cmd line) (parsepipe (Suc n) (parseline n) s)"
    by (rule parsepipe_lands) (use Suc in auto)
  then show ?case unfolding parseline.simps by (rule lands_bind) (use step in simp)
qed simp


section \<open>Strings\<close>

text \<open>The C string at a distance from the end of the line.\<close>

definition cstr :: "nat \<Rightarrow> u8 list \<Rightarrow> span \<Rightarrow> u8 list" where
  "cstr n b sp = takeWhile (\<lambda>c. c \<noteq> 0) (drop (n - fst sp) b)"

lemma nulterminate_length [simp]: "length (nulterminate n c b) = length b"
proof (induction c arbitrary: b)
  case (EXEC argv)
  have "length (foldl (\<lambda>b (q, e). b[n - e := 0]) b argv) = length b" by (induction argv arbitrary: b) auto
  then show ?case by simp
qed auto

lemma nulterminate_nth:
  "i < length b \<Longrightarrow> nulterminate n c b ! i = (if \<exists>w \<in> words c. i = n - snd w then 0 else b ! i)"
proof (induction c arbitrary: b)
  case (EXEC argv)
  have "i < length b \<Longrightarrow> foldl (\<lambda>b (q, e). b[n - e := 0]) b argv ! i = (if \<exists>w \<in> set argv. i = n - snd w then 0 else b ! i)" for b
  proof (induction argv arbitrary: b)
    case (Cons w argv)
    show ?case using Cons.prems by (cases w) (auto simp: Cons.IH nth_list_update)
  qed simp
  then show ?case unfolding nulterminate.simps cmd.set using EXEC by blast
next
  case (REDIR c f mode fd)
  then show ?case by (cases "i = n - snd f") auto
qed auto


lemma takeWhile_drop:
  "i \<le> j \<Longrightarrow> j < length b \<Longrightarrow> (\<And>k. i \<le> k \<Longrightarrow> k < j \<Longrightarrow> P (b ! k)) \<Longrightarrow> \<not> P (b ! j) \<Longrightarrow>
   takeWhile P (drop i b) = take (j - i) (drop i b)"
  by (rule takeWhile_eq_take_P_nth) auto

lemma word_at_nth: "good line (q, e) \<Longrightarrow> length line - q \<le> i \<Longrightarrow> i < length line - e \<Longrightarrow> plain (line ! i)"
proof -
  assume g: "good line (q, e)" and i: "length line - q \<le> i" "i < length line - e"
  have "word_at line (q, e) ! (i - (length line - q)) = line ! i" using g i by (simp add: word_at_def good_def)
  moreover have "i - (length line - q) < length (word_at line (q, e))" using g i by (auto simp: word_at_def good_def)
  ultimately show ?thesis using g unfolding good_def list_all_length by metis
qed

lemma nulterminate_cstr:
  assumes c: "good_cmd line c" "sp \<in> words c" and nz: "0 \<notin> set line"
  shows "cstr (length line) (nulterminate (length line) c (line @ [0])) sp = word_at line sp"
proof (cases sp)
  case (Pair q e)
  let ?n = "length line" let ?b = "nulterminate ?n c (line @ [0])"
  have g: "good line (q, e)" using c Pair by auto
  then have qe: "e < q" "q \<le> ?n" by (auto simp: good_def)
  have in_word: "?b ! i = line ! i" if i: "?n - q \<le> i" "i < ?n - e" for i
  proof -
    have "i \<noteq> ?n - snd w" if "w \<in> words c" for w
      using c(1) that word_at_nth [OF g i] i by (auto simp: good_def)
    then show ?thesis using i by (auto simp: nulterminate_nth nth_append)
  qed
  have end0: "?b ! (?n - e) = 0" using c(2) Pair by (force simp: nulterminate_nth)
  have nz': "?b ! i \<noteq> 0" if "?n - q \<le> i" "i < ?n - e" for i 
  proof -
    have "i < ?n" using that by linarith
    then show ?thesis using in_word [OF that] nz nth_mem [of i line] by metis
  qed
  have "takeWhile (\<lambda>c. c \<noteq> 0) (drop (?n - q) ?b) = take (?n - e - (?n - q)) (drop (?n - q) ?b)"
    by (rule takeWhile_drop) (use qe end0 nz' in auto)
  also have "\<dots> = take (q - e) (drop (?n - q) line)"
    by (rule nth_equalityI) (use qe in_word in auto)
  finally show ?thesis by (simp add: cstr_def word_at_def Pair)
qed

text \<open>C19: parsing a command line always ends, whatever the line holds. When it succeeds, every word of the tree that
  is run - the arguments of a command and the file names of its redirections - is, as the C string left in the line by
  \<^verbatim>\<open>nulterminate\<close>, a nonempty run of bytes of the line without white space and without shell symbols, and
  the run is the one the parser found: no terminator written for another word cuts it.\<close>

theorem parsecmd_words:
  assumes "0 \<notin> set line"
  shows "parsecmd line \<noteq> Wait \<and>
    (\<forall>c b sp. parsecmd line = Ok (c, b) \<longrightarrow> sp \<in> words c \<longrightarrow>
       cstr (length line) b sp = word_at line sp \<and> word_at line sp \<noteq> [] \<and> list_all plain (word_at line sp))"
proof -
  have l: "lands line (length line) (good_cmd line) (parseline (Suc (length line)) line)" by (rule parseline_lands) auto
  then have "parsecmd line \<noteq> Wait"
    by (cases "parseline (Suc (length line)) line") (auto simp: parsecmd_def split: prod.splits)
  moreover have "cstr (length line) b sp = word_at line sp \<and> good line sp" if p: "parsecmd line = Ok (c, b)" "sp \<in> words c" for c b sp
  proof -
    obtain s where "parseline (Suc (length line)) line = Ok (c, s)" "b = nulterminate (length line) c (line @ [0])"
      using p(1) by (cases "parseline (Suc (length line)) line") (auto simp: parsecmd_def simp del: parseline.simps split: prod.splits if_splits)
    then show ?thesis using l p(2) nulterminate_cstr [OF _ p(2) assms] by auto
  qed
  moreover have "word_at line sp \<noteq> []" if "good line sp" for sp using that by (cases sp) (auto simp: good_def word_at_def)
  ultimately show ?thesis by (auto simp: good_def)
qed

section \<open>Every command can be written\<close>

definition word_ok :: "u8 list \<Rightarrow> bool" where
  "word_ok w \<longleftrightarrow> w \<noteq> [] \<and> list_all plain w \<and> 0 \<notin> set w"

fun valid_cmd :: "u8 list cmd \<Rightarrow> bool" where
  "valid_cmd (EXEC ws) \<longleftrightarrow> length ws < MAXARGS \<and> list_all word_ok ws"
| "valid_cmd (REDIR c f mode fd) \<longleftrightarrow> valid_cmd c \<and> word_ok f \<and> (mode, fd) \<in> {(O_RDONLY, 0), (O_WRCREATE, 1)}"
| "valid_cmd (PIPE l r) \<longleftrightarrow> valid_cmd l \<and> valid_cmd r"
| "valid_cmd (LIST l r) \<longleftrightarrow> valid_cmd l \<and> valid_cmd r"
| "valid_cmd (BACK c) \<longleftrightarrow> valid_cmd c"

text \<open>A command as a line: the words of a simple command are each followed by a space, and every part of a
  compound command is in parentheses.\<close>

fun print_cmd :: "u8 list cmd \<Rightarrow> u8 list" where
  "print_cmd (EXEC ws) = concat (map (\<lambda>w. w @ [32]) ws)"
| "print_cmd (REDIR c f mode fd) = ch_open # print_cmd c @ ch_close # (if fd = 0 then ch_lt else ch_gt) # f @ [32]"
| "print_cmd (PIPE l r) = ch_open # print_cmd l @ ch_close # ch_bar # ch_open # print_cmd r @ [ch_close]"
| "print_cmd (LIST l r) = ch_open # print_cmd l @ ch_close # ch_semi # ch_open # print_cmd r @ [ch_close]"
| "print_cmd (BACK c) = ch_open # print_cmd c @ [ch_close, ch_amp]"

lemma print_cmd_nonzero: "valid_cmd c \<Longrightarrow> 0 \<notin> set (print_cmd c)"
  by (induction c) (auto simp: word_ok_def list_all_iff)

text \<open>What may follow a command, and a pointer that does not point to white space.\<close>

definition closed :: "u8 list \<Rightarrow> bool" where
  "closed s \<longleftrightarrow> s = [] \<or> hd s = ch_close"

lemma skip_ws_id: "s = [] \<or> hd s \<notin> set whitespace \<Longrightarrow> skip_ws s = s"
  by (cases s) (auto simp: skip_ws_def)

lemma skip_ws_space [simp]: "skip_ws (32 # s) = skip_ws s"
  by (simp add: skip_ws_def whitespace_def)

lemma closed_skip [simp]: "closed s \<Longrightarrow> skip_ws s = s"
  by (rule skip_ws_id) (auto simp: closed_def whitespace_def)

lemma skip_ws_symbol [simp]: "c \<in> set symbols \<Longrightarrow> skip_ws (c # s) = c # s"
  by (auto simp: skip_ws_def whitespace_def symbols_def)

lemma skip_ws_word: "word_ok w \<Longrightarrow> skip_ws (w @ s) = w @ s"
  by (rule skip_ws_id) (cases w, auto simp: word_ok_def plain_def)

abbreviation print_words :: "u8 list list \<Rightarrow> u8 list" where
  "print_words ws \<equiv> concat (map (\<lambda>w. w @ [32]) ws)"

lemma print_words_skip: "list_all word_ok ws \<Longrightarrow> closed s \<Longrightarrow> skip_ws (print_words ws @ s) = print_words ws @ s"
  using skip_ws_word [of "hd ws"] by (cases ws) auto

lemma print_cmd_skip: "valid_cmd c \<Longrightarrow> closed s \<Longrightarrow> skip_ws (print_cmd c @ s) = print_cmd c @ s"
  by (cases c) (auto simp: symbols_def print_words_skip)

lemma peek_Nil [simp]: "peek [] ts = (False, [])"
  by (simp add: peek_def deref_def)

lemma peek_symbol [simp]: "c \<in> set symbols \<Longrightarrow> peek (c # s) ts = (c \<in> set ts, c # s)"
  by (auto simp: peek_def Let_def deref_def symbols_def)

lemma gettoken_Nil [simp]: "gettoken [] = (0, 0, 0, [])"
  by (simp add: gettoken_def deref_def)

lemma gettoken_symbol: "c \<in> set symbols \<Longrightarrow> c \<noteq> ch_gt \<Longrightarrow> gettoken (c # s) = (c, Suc (length s), length s, skip_ws s)"
  by (auto simp: gettoken_def Let_def deref_def symbols_def)

lemma gettoken_gt: "deref s \<noteq> ch_gt \<Longrightarrow> gettoken (ch_gt # s) = (ch_gt, Suc (length s), length s, skip_ws s)"
  by (simp add: gettoken_def Let_def deref_def symbols_def)

lemma peek_word: "word_ok w \<Longrightarrow> set ts \<subseteq> set symbols \<Longrightarrow> peek (w @ s) ts = (False, w @ s)"
  using skip_ws_word [of w s] by (cases w) (auto simp: peek_def deref_def word_ok_def plain_def)

lemma gettoken_word_space:
  assumes "word_ok w"
  shows "gettoken (w @ 32 # s) = (ch_word, length (w @ 32 # s), length (32 # s), skip_ws s)"
proof -
  have "dropWhile plain (w @ 32 # s) = 32 # s" using assms by (simp add: word_ok_def list_all_iff dropWhile_append3 plain_def whitespace_def)
  moreover have "deref (w @ 32 # s) \<noteq> 0" "deref (w @ 32 # s) \<notin> set symbols" using assms by (cases w; auto simp: word_ok_def deref_def plain_def)+
  ultimately show ?thesis using skip_ws_word [OF assms, of "32 # s"] by (auto simp: gettoken_def Let_def symbols_def)
qed

lemma parseredirs_none: "peek s [ch_lt, ch_gt] = (False, s) \<Longrightarrow> parseredirs s = Ok ([], s)"
  by (simp add: parseredirs.simps [of s])


lemma closed_peek: "closed s \<Longrightarrow> set ts \<subseteq> set symbols \<Longrightarrow> peek s ts = (s \<noteq> [] \<and> ch_close \<in> set ts, s)"
  by (cases s) (auto simp: closed_def symbols_def)

lemma suffix_word: "suffix (w @ 32 # s) line \<Longrightarrow> suffix s line"
  by (metis append_Cons append_Nil append_assoc suffix_appendD)

lemma parseredirs_word_list: "list_all word_ok ws \<Longrightarrow> closed s \<Longrightarrow>
  parseredirs (print_words ws @ s) = Ok ([], print_words ws @ s)"
  by (rule parseredirs_none) (cases ws, auto simp: closed_peek peek_word symbols_def)

lemma parseexec_loop_words:
  "list_all word_ok ws \<Longrightarrow> length ws < k \<Longrightarrow> closed s \<Longrightarrow> suffix (print_words ws @ s) line \<Longrightarrow>
   \<exists>sps. parseexec_loop k argv [] (print_words ws @ s) = Ok (EXEC (argv @ sps), s) \<and> map (word_at line) sps = ws"
proof (induction ws arbitrary: k argv)
  case Nil
  then obtain k' where k: "k = Suc k'" by (cases k) auto
  show ?case using Nil by (auto simp: k redircmds_def closed_peek symbols_def)
next
  case (Cons w ws)
  let ?s = "print_words ws @ s"
  let ?sp = "(length (w @ 32 # ?s), length (32 # ?s))"
  obtain k' where k: "k = Suc k'" "k' \<noteq> 0" "length ws < k'" using Cons.prems(2) by (cases k) auto
  have su: "suffix (w @ 32 # ?s) line" using Cons.prems(4) by simp
  have g: "gettoken (w @ 32 # ?s) = (ch_word, length (w @ 32 # ?s), length (32 # ?s), ?s)"
    using gettoken_word_space [of w ?s] print_words_skip [of ws s] Cons.prems by simp
  obtain sps where ih: "parseexec_loop k' (argv @ [?sp]) [] ?s = Ok (EXEC ((argv @ [?sp]) @ sps), s)" "map (word_at line) sps = ws"
    using Cons.IH [of k' "argv @ [?sp]"] Cons.prems suffix_word [OF su] k by auto
  have "parseexec_loop k argv [] (w @ 32 # ?s) = Ok (EXEC (argv @ (?sp # sps)), s)"
    using ih(1) g k parseredirs_word_list [of ws s] Cons.prems peek_word [of w "[ch_bar, ch_close, ch_amp, ch_semi]" "32 # ?s"]
    by (simp add: symbols_def)
  moreover have "map (word_at line) (?sp # sps) = w # ws" using word_at_suffix [OF su] ih(2) by simp
  ultimately show ?case by auto
qed


text \<open>What the induction shows of a command: it is read back wherever it stands, when \<open>n\<close> is enough.\<close>

definition reads :: "u8 list \<Rightarrow> (u8 list \<Rightarrow> (span cmd \<times> u8 list) outcome) \<Rightarrow> u8 list \<Rightarrow> u8 list \<Rightarrow> u8 list cmd \<Rightarrow> bool" where
  "reads line p w s c \<longleftrightarrow> (\<exists>t. p (w @ s) = Ok (t, s) \<and> map_cmd (word_at line) t = c)"

lemma parseline_words:
  assumes "list_all word_ok ws" "length ws < MAXARGS" "closed s" "suffix (print_words ws @ s) line" "0 < n"
  shows "reads line (parseline n) (print_words ws) s (EXEC ws)"
proof -
  let ?s = "print_words ws @ s"
  obtain m where n: "n = Suc m" using assms(5) by (cases n) auto
  have pk: "peek ?s ts = (False, ?s)" if "set ts \<subseteq> set symbols" "ch_close \<notin> set ts" for ts
    using assms(1,3) that by (cases ws) (auto simp: closed_peek peek_word)
  have pe: "parseexec (parseline m) ?s = parseexec_loop MAXARGS [] [] ?s"
    using pk [of "[ch_open]"] parseredirs_word_list [OF assms(1,3)] by (simp add: parseexec_def symbols_def)
  obtain sps where l: "parseexec_loop MAXARGS [] [] ?s = Ok (EXEC sps, s)" "map (word_at line) sps = ws"
    using parseexec_loop_words [OF assms(1,2,3,4), of "[]"] by auto
  have cp: "peek s [t] = (False, s)" if "t \<in> set symbols" "t \<noteq> ch_close" for t using assms(3) that by (simp add: closed_peek)
  have "parseline n ?s = Ok (EXEC sps, s)"
    using cp [of ch_bar] cp [of ch_amp] cp [of ch_semi] unfolding n by (simp add: pe l(1) back_loop.simps symbols_def)
  then show ?thesis using l(2) by (auto simp: reads_def)
qed

text \<open>A command in parentheses, followed by redirections.\<close>

lemma parseexec_block:
  assumes r: "reads line pl (print_cmd c) (ch_close # s) c" and v: "valid_cmd c"
  shows "\<exists>t. parseexec pl (ch_open # print_cmd c @ ch_close # s) = bindo (parseredirs (skip_ws s)) (\<lambda>(rs, s). Ok (redircmds t rs, s)) \<and>
    map_cmd (word_at line) t = c"
proof -
  obtain t where t: "pl (print_cmd c @ ch_close # s) = Ok (t, ch_close # s)" "map_cmd (word_at line) t = c" using r by (auto simp: reads_def)
  have "skip_ws (print_cmd c @ ch_close # s) = print_cmd c @ ch_close # s" by (rule print_cmd_skip [OF v]) (simp add: closed_def)
  then show ?thesis using t by (auto simp: parseexec_def parseblock_def symbols_def gettoken_symbol)
qed


lemma parseredirs_symbol: "s = [] \<or> hd s \<in> {ch_bar, ch_semi, ch_amp, ch_close} \<Longrightarrow> parseredirs (skip_ws s) = Ok ([], s)"
  by (cases s) (auto simp: symbols_def intro!: parseredirs_none)

lemma parseredirs_print:
  assumes f: "word_ok f" and m: "(mode, fd) \<in> {(O_RDONLY, 0), (O_WRCREATE, 1)}" and s: "closed s" and su: "suffix (f @ 32 # s) line"
  shows "\<exists>sp. parseredirs (skip_ws ((if fd = 0 then ch_lt else ch_gt) # f @ 32 # s)) = Ok ([(sp, mode, fd)], s) \<and> word_at line sp = f"
proof -
  let ?s = "f @ 32 # s" let ?o = "if fd = 0 then ch_lt else ch_gt" let ?sp = "(length (f @ 32 # s), length (32 # s))"
  have d: "deref ?s \<noteq> ch_gt" using f by (cases f) (auto simp: word_ok_def deref_def plain_def symbols_def)
  have "gettoken (?o # ?s) = (?o, Suc (length ?s), length ?s, ?s)"
    using gettoken_symbol [of ch_lt ?s] gettoken_gt [OF d] skip_ws_word [OF f, of "32 # s"] by (simp add: symbols_def)
  moreover have "peek (?o # ?s) [ch_lt, ch_gt] = (True, ?o # ?s)" "skip_ws (?o # ?s) = ?o # ?s" by (simp_all add: symbols_def)
  moreover have "parseredirs s = Ok ([], s)" using parseredirs_symbol [of s] s by (auto simp: closed_def)
  moreover have "gettoken ?s = (ch_word, length ?s, length (32 # s), s)" using gettoken_word_space [OF f, of s] s by simp
  ultimately have "parseredirs (skip_ws (?o # ?s)) = Ok ([(?sp, mode, fd)], s)"
    using m by (auto simp: parseredirs.simps [of "?o # ?s"])
  then show ?thesis using word_at_suffix [OF su] by blast
qed

lemma parsepipe_closed:
  assumes "parseexec pl w = Ok (t, s)" "s = [] \<or> hd s \<in> {ch_semi, ch_amp, ch_close}"
  shows "parsepipe (Suc n) pl w = Ok (t, s)"
  using assms by (cases s) (auto simp: symbols_def)

lemma parseline_closed:
  assumes "parsepipe (Suc n) (parseline n) w = Ok (t, s)" "closed s"
  shows "parseline (Suc n) w = Ok (t, s)"
  using assms by (cases s) (auto simp: symbols_def closed_def back_loop.simps simp del: parsepipe.simps)

lemma parseexec_paren:
  assumes "reads line pl (print_cmd c) (ch_close # s) c" "valid_cmd c" "s = [] \<or> hd s \<in> {ch_bar, ch_semi, ch_amp, ch_close}"
  obtains t where "parseexec pl (ch_open # print_cmd c @ ch_close # s) = Ok (t, s)" "map_cmd (word_at line) t = c"
  using parseexec_block [OF assms(1,2)] parseredirs_symbol [OF assms(3)] by (auto simp: redircmds_def)

lemma parseline_print:
  "valid_cmd c \<Longrightarrow> closed s \<Longrightarrow> suffix (print_cmd c @ s) line \<Longrightarrow> length (print_cmd c @ s) < n \<Longrightarrow>
   reads line (parseline n) (print_cmd c) s c"
proof (induction c arbitrary: s n)
  case (EXEC ws)
  then show ?case using parseline_words [of ws s line n] by simp
next
  case (REDIR c f mode fd)
  obtain m where n: "n = Suc m" using REDIR.prems(4) by (cases n) auto
  let ?o = "if fd = 0 then ch_lt else ch_gt" let ?s = "?o # f @ 32 # s"
  have su: "suffix (print_cmd c @ ch_close # ?s) line" "suffix (f @ 32 # s) line"
    using REDIR.prems(3) suffix_appendD [of "ch_open # print_cmd c @ [ch_close, ?o]" "f @ 32 # s" line] by (auto intro: suffix_ConsD)
  have "reads line (parseline m) (print_cmd c) (ch_close # ?s) c"
    using REDIR.IH [of "ch_close # ?s" m] REDIR.prems su n by (simp add: closed_def)
  then obtain t where t: "parseexec (parseline m) (ch_open # print_cmd c @ ch_close # ?s) =
      bindo (parseredirs (skip_ws ?s)) (\<lambda>(rs, s). Ok (redircmds t rs, s))" "map_cmd (word_at line) t = c"
    using parseexec_block [of line "parseline m" c ?s] REDIR.prems(1) by auto
  obtain sp where sp: "parseredirs (skip_ws ?s) = Ok ([(sp, mode, fd)], s)" "word_at line sp = f"
    using parseredirs_print [of f mode fd s line] REDIR.prems su(2) by auto
  have "parseexec (parseline m) (print_cmd (REDIR c f mode fd) @ s) = Ok (REDIR t sp mode fd, s)"
    using t(1) sp(1) by (simp add: redircmds_def)
  then have "parseline n (print_cmd (REDIR c f mode fd) @ s) = Ok (REDIR t sp mode fd, s)"
    unfolding n using REDIR.prems(2) by (intro parseline_closed parsepipe_closed) (auto simp: closed_def)
  then show ?case using t(2) sp(2) by (auto simp: reads_def)
next
  case (BACK c)
  obtain m where n: "n = Suc m" using BACK.prems(4) by (cases n) auto
  have "reads line (parseline m) (print_cmd c) (ch_close # ch_amp # s) c"
    using BACK.IH [of "ch_close # ch_amp # s" m] BACK.prems n by (auto simp: closed_def intro: suffix_ConsD)
  then obtain t where t: "parseexec (parseline m) (ch_open # print_cmd c @ ch_close # ch_amp # s) = Ok (t, ch_amp # s)"
      "map_cmd (word_at line) t = c"
    by (rule parseexec_paren) (use BACK.prems in auto)
  then have "parsepipe (Suc m) (parseline m) (print_cmd (BACK c) @ s) = Ok (t, ch_amp # s)"
    using parsepipe_closed [OF t(1), of m] by simp
  moreover have "back_loop t (ch_amp # s) = (BACK t, s)" using BACK.prems(2)
    by (simp add: back_loop.simps [of t] back_loop.simps [of "BACK t"] symbols_def gettoken_symbol closed_peek)
  moreover have "peek s [ch_semi] = (False, s)" using BACK.prems(2) by (simp add: closed_peek symbols_def)
  ultimately have "parseline n (print_cmd (BACK c) @ s) = Ok (BACK t, s)" unfolding n by (simp del: parsepipe.simps print_cmd.simps)
  then show ?case using t(2) by (auto simp: reads_def)
next
  case (PIPE l r)
  obtain m where n: "n = Suc (Suc m)" using PIPE.prems(4) by (cases n; cases "n - 1") auto
  let ?r = "ch_open # print_cmd r @ ch_close # s"
  have su: "suffix (print_cmd l @ ch_close # ch_bar # ?r) line" "suffix (print_cmd r @ ch_close # s) line"
    using PIPE.prems(3) suffix_appendD [of "ch_open # print_cmd l @ [ch_close, ch_bar, ch_open]" "print_cmd r @ ch_close # s" line]
    by (auto intro: suffix_ConsD)
  have "reads line (parseline (Suc m)) (print_cmd l) (ch_close # ch_bar # ?r) l"
    using PIPE.IH(1) [of "ch_close # ch_bar # ?r" "Suc m"] PIPE.prems su n by (simp add: closed_def del: parseline.simps)
  then obtain t where t: "parseexec (parseline (Suc m)) (ch_open # print_cmd l @ ch_close # ch_bar # ?r) = Ok (t, ch_bar # ?r)"
      "map_cmd (word_at line) t = l"
    by (rule parseexec_paren) (use PIPE.prems in auto)
  have "reads line (parseline (Suc m)) (print_cmd r) (ch_close # s) r"
    using PIPE.IH(2) [of "ch_close # s" "Suc m"] PIPE.prems su n by (simp add: closed_def del: parseline.simps)
  then obtain u where u: "parseexec (parseline (Suc m)) ?r = Ok (u, s)" "map_cmd (word_at line) u = r"
    by (rule parseexec_paren) (use PIPE.prems in \<open>auto simp: closed_def\<close>)
  have "parsepipe (Suc m) (parseline (Suc m)) ?r = Ok (u, s)"
    using PIPE.prems(2) by (intro parsepipe_closed [OF u(1)]) (auto simp: closed_def)
  then have "parsepipe (Suc (Suc m)) (parseline (Suc m)) (print_cmd (PIPE l r) @ s) = Ok (PIPE t u, s)"
    using t(1) by (simp add: parsepipe.simps(2) [of "Suc m"] symbols_def gettoken_symbol del: parsepipe.simps parseline.simps)
  then have "parseline n (print_cmd (PIPE l r) @ s) = Ok (PIPE t u, s)" unfolding n by (rule parseline_closed) (rule PIPE.prems(2))
  then show ?case using t(2) u(2) by (auto simp: reads_def)
next
  case (LIST l r)
  obtain m where n: "n = Suc (Suc m)" using LIST.prems(4) by (cases n; cases "n - 1") auto
  let ?r = "ch_open # print_cmd r @ ch_close # s"
  have su: "suffix (print_cmd l @ ch_close # ch_semi # ?r) line" "suffix (print_cmd r @ ch_close # s) line"
    using LIST.prems(3) suffix_appendD [of "ch_open # print_cmd l @ [ch_close, ch_semi, ch_open]" "print_cmd r @ ch_close # s" line]
    by (auto intro: suffix_ConsD)
  have "reads line (parseline (Suc m)) (print_cmd l) (ch_close # ch_semi # ?r) l"
    using LIST.IH(1) [of "ch_close # ch_semi # ?r" "Suc m"] LIST.prems su n by (simp add: closed_def del: parseline.simps)
  then obtain t where t: "parseexec (parseline (Suc m)) (ch_open # print_cmd l @ ch_close # ch_semi # ?r) = Ok (t, ch_semi # ?r)"
      "map_cmd (word_at line) t = l"
    by (rule parseexec_paren) (use LIST.prems in auto)
  have "reads line (parseline m) (print_cmd r) (ch_close # s) r"
    using LIST.IH(2) [of "ch_close # s" m] LIST.prems su n by (simp add: closed_def del: parseline.simps)
  then obtain u where u: "parseexec (parseline m) ?r = Ok (u, s)" "map_cmd (word_at line) u = r"
    by (rule parseexec_paren) (use LIST.prems in \<open>auto simp: closed_def\<close>)
  have ru: "parseline (Suc m) ?r = Ok (u, s)"
    using LIST.prems(2) by (intro parseline_closed [OF parsepipe_closed [OF u(1)]]) (auto simp: closed_def)
  have "parsepipe (Suc (Suc m)) (parseline (Suc m)) (print_cmd (LIST l r) @ s) = Ok (t, ch_semi # ?r)"
    using parsepipe_closed [OF t(1)] by simp
  then have "parseline n (print_cmd (LIST l r) @ s) = Ok (LIST t u, s)" unfolding n
    using ru by (simp add: parseline.simps(2) [of "Suc m"] back_loop.simps [of t] symbols_def gettoken_symbol
        del: parsepipe.simps parseline.simps print_cmd.simps)
  then show ?case using t(2) u(2) by (auto simp: reads_def)
qed

text \<open>C18: the shell reads back every command it could have parsed: a command tree whose words are
  nonempty and have no white space, no symbols and no null bytes, with at most nine words in a simple command, printed as a line,
  is parsed - whatever its depth - to that very tree, the strings being those \<^verbatim>\<open>nulterminate\<close> has left in the line.\<close>

theorem parse_print:
  assumes "valid_cmd c"
  shows "\<exists>t b. parsecmd (print_cmd c) = Ok (t, b) \<and> map_cmd (cstr (length (print_cmd c)) b) t = c"
proof -
  let ?line = "print_cmd c"
  obtain t where t: "parseline (Suc (length ?line)) ?line = Ok (t, [])" "map_cmd (word_at ?line) t = c"
    using parseline_print [of c "[]" ?line "Suc (length ?line)"] assms by (auto simp: reads_def closed_def simp del: parseline.simps)
  have g: "good_cmd ?line t"
    using parseline_lands [of ?line "Suc (length ?line)" ?line] unfolding t(1) by simp
  have "parsecmd ?line = Ok (t, nulterminate (length ?line) t (?line @ [0]))" using t(1) by (simp add: parsecmd_def del: parseline.simps)
  moreover have "map_cmd (cstr (length ?line) (nulterminate (length ?line) t (?line @ [0]))) t = map_cmd (word_at ?line) t"
    by (rule cmd.map_cong0) (erule nulterminate_cstr [OF g _ print_cmd_nonzero [OF assms]])
  ultimately show ?thesis unfolding t(2) by blast
qed

text \<open>\<open>ls | (grep x)>out\<close>.\<close>

definition sample_cmd :: "u8 list cmd" where
  "sample_cmd = PIPE (EXEC [[108, 115]]) (REDIR (EXEC [[103, 114, 101, 112], [120]]) [111, 117, 116] O_WRCREATE 1)"

theorem parse_print_witness:
  "valid_cmd sample_cmd \<and> (\<exists>t b. parsecmd (print_cmd sample_cmd) = Ok (t, b) \<and> map_cmd (cstr (length (print_cmd sample_cmd)) b) t = sample_cmd)"
proof -
  have "valid_cmd sample_cmd" by (simp add: sample_cmd_def word_ok_def plain_def whitespace_def symbols_def)
  then show ?thesis using parse_print [of sample_cmd] by blast
qed

text \<open>\<open>ab>c\<close>.\<close>

theorem parsecmd_words_witness:
  "parsecmd [97, 98, 62, 99] = Ok (REDIR (EXEC [(4, 2)]) (1, 0) O_WRCREATE 1, [97, 98, 0, 99, 0]) \<and>
   cstr 4 [97, 98, 0, 99, 0] (4, 2) = word_at [97, 98, 62, 99] (4, 2) \<and> word_at [97, 98, 62, 99] (4, 2) \<noteq> [] \<and>
   list_all plain (word_at [97, 98, 62, 99] (4, 2))"
proof -
  have p: "parsecmd [97, 98, 62, 99] = Ok (REDIR (EXEC [(4, 2)]) (1, 0) O_WRCREATE 1, [97, 98, 0, 99, 0])" by code_simp
  have "0 \<notin> set [97, 98, 62, 99 :: u8]" by simp
  from parsecmd_words [OF this, THEN conjunct2, rule_format, OF p, of "(4, 2)"] p show ?thesis by (simp add: numeral_eq_Suc)
qed

end
