(* ===== verification/Sh_Run.thy ===== *)
theory Sh_Run
  imports Sh
begin

text \<open>
  Running the command lines of the shell, \<^verbatim>\<open>sh.c\<close>: a program is the tree of the system calls it makes, each with what it goes
  on with for every answer of the kernel. The descriptor tables are those of the user: \<^verbatim>\<open>dup\<close>, \<^verbatim>\<open>open\<close> and \<^verbatim>\<open>pipe\<close> take the lowest
  free descriptors.
\<close>

section \<open>Programs\<close>

datatype prog =
    Exit
  | Exec "u8 list list" prog
  | Open "u8 list" u32 "int \<Rightarrow> prog"
  | Close int prog
  | Dup int prog
  | Pipe "(int \<times> int) option \<Rightarrow> prog"
  | Fork "int \<Rightarrow> prog"
  | Wait_child prog
  | Chdir "u8 list" "int \<Rightarrow> prog"
  | Printf int "u8 list" prog

definition panic :: "string \<Rightarrow> prog" where
  "panic s = Printf 2 (bytes s @ [10]) Exit"

definition fork1 :: "(int \<Rightarrow> prog) \<Rightarrow> prog" where
  "fork1 k = Fork (\<lambda>pid. if pid = -1 then panic ''fork'' else k pid)"

primrec runcmd :: "u8 list cmd \<Rightarrow> prog" where
  "runcmd (EXEC argv) =
     (case argv of [] \<Rightarrow> Exit
      | a # _ \<Rightarrow> Exec argv (Printf 2 (bytes ''exec '' @ a @ bytes '' failed'' @ [10]) Exit))"
| "runcmd (REDIR c f mode fd) =
     Close fd (Open f mode (\<lambda>r. if r < 0 then Printf 2 (bytes ''open '' @ f @ bytes '' failed'' @ [10]) Exit else runcmd c))"
| "runcmd (LIST l r) = fork1 (\<lambda>pid. if pid = 0 then runcmd l else Wait_child (runcmd r))"
| "runcmd (PIPE l r) =
     Pipe (\<lambda>p. case p of None \<Rightarrow> panic ''pipe''
       | Some (p0, p1) \<Rightarrow>
         fork1 (\<lambda>pid. if pid = 0 then Close 1 (Dup p1 (Close p0 (Close p1 (runcmd l))))
           else fork1 (\<lambda>pid. if pid = 0 then Close 0 (Dup p0 (Close p0 (Close p1 (runcmd r))))
             else Close p0 (Close p1 (Wait_child (Wait_child Exit))))))"
| "runcmd (BACK c) = fork1 (\<lambda>pid. if pid = 0 then runcmd c else Exit)"

text \<open>What the child of the shell runs: the line is parsed there, and a syntax error ends the child.\<close>

definition run_line :: "u8 list \<Rightarrow> prog" where
  "run_line line =
     (case parsecmd line of
        Ok (c, b) \<Rightarrow> runcmd (map_cmd (cstr (length line) b) c)
      | Panic s \<Rightarrow> panic s
      | _ \<Rightarrow> Exit)"

text \<open>\<^verbatim>\<open>gets\<close> on the results of the calls of \<^verbatim>\<open>read\<close> to come, each a byte or, for a result below 1, \<open>None\<close>; after the last
  of them \<^verbatim>\<open>read\<close> returns nothing more. The value is what \<^verbatim>\<open>gets\<close> stores before the terminator, and the results that are left.\<close>

fun gets :: "nat \<Rightarrow> u8 option list \<Rightarrow> u8 list \<times> u8 option list" where
  "gets nbuf [] = ([], [])"
| "gets nbuf (cc # inp) =
     (if nbuf \<le> 1 then ([], cc # inp)
      else case cc of
          None \<Rightarrow> ([], inp)
        | Some c \<Rightarrow>
            if c = 10 \<or> c = 13 then ([c], inp)
            else let (b, r) = gets (nbuf - 1) inp in (c # b, r))"

definition getcmd :: "u8 option list \<Rightarrow> u8 list \<times> u8 option list" where
  "getcmd inp = (let (b, r) = gets 100 inp in (takeWhile (\<lambda>c. c \<noteq> 0) b, r))"

lemma gets_length: "gets nbuf inp = (b, r) \<Longrightarrow> length b + length r \<le> length inp"
  by (induction nbuf inp arbitrary: b r rule: gets.induct) (fastforce split: if_splits prod.splits option.splits)+

lemma getcmd_less: "getcmd inp = (buf, rest) \<Longrightarrow> buf \<noteq> [] \<Longrightarrow> length rest < length inp"
proof -
  assume g: "getcmd inp = (buf, rest)" and b: "buf \<noteq> []"
  obtain x where x: "gets 100 inp = (x, rest)" "buf = takeWhile (\<lambda>c. c \<noteq> 0) x"
    using g by (cases "gets 100 inp") (auto simp: getcmd_def)
  then have "x \<noteq> []" using b by auto
  then show ?thesis using gets_length [OF x(1)] by (cases x) auto
qed

text \<open>The loop of \<^verbatim>\<open>main\<close> over the results of \<^verbatim>\<open>read\<close>.\<close>

function main_loop :: "u8 option list \<Rightarrow> prog" where
  "main_loop inp =
     Printf 2 (bytes ''$ '')
       (let (buf, rest) = getcmd inp in
        if buf = [] then Exit
        else if take 3 buf = bytes ''cd '' then
          let dir = drop 3 (butlast buf) in
          Chdir dir (\<lambda>r. if r < 0 then Printf 2 (bytes ''cannot cd '' @ dir @ [10]) (main_loop rest) else main_loop rest)
        else fork1 (\<lambda>pid. if pid = 0 then run_line buf else Wait_child (main_loop rest)))"
  by pat_completeness auto
termination
  by (relation "measure length") (auto dest: getcmd_less [OF sym])

declare main_loop.simps [simp del]

text \<open>\<^verbatim>\<open>main\<close>: the console is opened until a descriptor above 2 comes back, which takes four calls at most.\<close>

fun open_console :: "nat \<Rightarrow> prog \<Rightarrow> prog" where
  "open_console 0 k = k"
| "open_console (Suc n) k =
     Open (bytes ''console'') 2 (\<lambda>fd. if fd < 0 then k else if fd \<ge> 3 then Close fd k else open_console n k)"

definition main :: "u8 option list \<Rightarrow> prog" where
  "main inp = open_console 4 (main_loop inp)"


section \<open>What programs do\<close>

text \<open>Pipes are named after the process that makes them and the number of forks and pipes it has made before.\<close>

datatype obj = File "u8 list" u32 | Pipe_read "nat list" nat | Pipe_write "nat list" nat | Inherited nat

type_synonym fdt = "int \<Rightarrow> obj option"

abbreviation NOFILE :: int where "NOFILE \<equiv> 16"

definition lowest :: "(int \<Rightarrow> 'o option) \<Rightarrow> int option" where
  "lowest t = find (\<lambda>n. t n = None) [0..NOFILE - 1]"

definition dup_fd :: "int \<Rightarrow> (int \<Rightarrow> 'o option) \<Rightarrow> int \<Rightarrow> 'o option" where
  "dup_fd n t = (case t n of None \<Rightarrow> t | Some f \<Rightarrow> (case lowest t of None \<Rightarrow> t | Some m \<Rightarrow> t(m \<mapsto> f)))"

text \<open>The process \<open>\<pi>\<close> with the table \<open>t\<close>, or a descendant of it, may start a program with the arguments and the table \<open>x\<close>; every
  call that can fail may fail.\<close>

inductive starts :: "nat list \<Rightarrow> nat \<Rightarrow> fdt \<Rightarrow> prog \<Rightarrow> u8 list list \<times> fdt \<Rightarrow> bool" where
  exec: "starts \<pi> k t (Exec argv p) (argv, t)"
| exec_fails: "starts \<pi> k t p x \<Longrightarrow> starts \<pi> k t (Exec argv p) x"
| open_ok: "lowest t = Some n \<Longrightarrow> starts \<pi> k (t(n \<mapsto> File f m)) (p n) x \<Longrightarrow> starts \<pi> k t (Open f m p) x"
| open_fails: "starts \<pi> k t (p (-1)) x \<Longrightarrow> starts \<pi> k t (Open f m p) x"
| close: "starts \<pi> k (t(n := None)) p x \<Longrightarrow> starts \<pi> k t (Close n p) x"
| dup: "starts \<pi> k (dup_fd n t) p x \<Longrightarrow> starts \<pi> k t (Dup n p) x"
| pipe_ok: "lowest t = Some a \<Longrightarrow> lowest (t(a \<mapsto> Pipe_read \<pi> k)) = Some b \<Longrightarrow>
    starts \<pi> (Suc k) (t(a \<mapsto> Pipe_read \<pi> k, b \<mapsto> Pipe_write \<pi> k)) (p (Some (a, b))) x \<Longrightarrow> starts \<pi> k t (Pipe p) x"
| pipe_fails: "starts \<pi> k t (p None) x \<Longrightarrow> starts \<pi> k t (Pipe p) x"
| child: "starts (k # \<pi>) 0 t (p 0) x \<Longrightarrow> starts \<pi> k t (Fork p) x"
| parent: "0 < pid \<Longrightarrow> starts \<pi> (Suc k) t (p pid) x \<Longrightarrow> starts \<pi> k t (Fork p) x"
| fork_fails: "starts \<pi> k t (p (-1)) x \<Longrightarrow> starts \<pi> k t (Fork p) x"
| wait: "starts \<pi> k t p x \<Longrightarrow> starts \<pi> k t (Wait_child p) x"
| chdir: "starts \<pi> k t (p r) x \<Longrightarrow> starts \<pi> k t (Chdir d p) x"
| printf: "starts \<pi> k t p x \<Longrightarrow> starts \<pi> k t (Printf n s p) x"

inductive_simps starts_simps [simp]:
  "starts \<pi> k t Exit x" "starts \<pi> k t (Exec argv p) x" "starts \<pi> k t (Open f m p) x" "starts \<pi> k t (Close n p) x"
  "starts \<pi> k t (Dup n p) x" "starts \<pi> k t (Pipe p) x" "starts \<pi> k t (Fork p) x" "starts \<pi> k t (Wait_child p) x"
  "starts \<pi> k t (Chdir d p) x" "starts \<pi> k t (Printf n s p) x"

text \<open>What a command means: the programs it is to start, each with its input and its output.\<close>

fun plumb :: "nat list \<Rightarrow> nat \<Rightarrow> u8 list cmd \<Rightarrow> obj \<Rightarrow> obj \<Rightarrow> (u8 list list \<times> obj \<times> obj) set" where
  "plumb \<pi> k (EXEC argv) i out = (if argv = [] then {} else {(argv, i, out)})"
| "plumb \<pi> k (REDIR c f mode fd) i out = (if fd = 0 then plumb \<pi> k c (File f mode) out else plumb \<pi> k c i (File f mode))"
| "plumb \<pi> k (PIPE l r) i out =
     plumb (Suc k # \<pi>) 0 l i (Pipe_write \<pi> k) \<union> plumb (Suc (Suc k) # \<pi>) 0 r (Pipe_read \<pi> k) out"
| "plumb \<pi> k (LIST l r) i out = plumb (k # \<pi>) 0 l i out \<union> plumb \<pi> (Suc k) r i out"
| "plumb \<pi> k (BACK c) i out = plumb (k # \<pi>) 0 c i out"

definition stdio :: "obj \<Rightarrow> obj \<Rightarrow> obj \<Rightarrow> fdt" where
  "stdio i out err = [0 \<mapsto> i, 1 \<mapsto> out, 2 \<mapsto> err]"

lemma lowest_eq: "0 \<le> n \<Longrightarrow> n < NOFILE \<Longrightarrow> t n = None \<Longrightarrow> (\<And>m. 0 \<le> m \<Longrightarrow> m < n \<Longrightarrow> t m \<noteq> None) \<Longrightarrow> lowest t = Some n"
  unfolding lowest_def find_Some_iff by (intro exI [of _ "nat n"]) (auto simp: nth_upto)

lemma below_1: "(0::int) \<le> m \<Longrightarrow> m < 1 \<Longrightarrow> m = 0" by simp

lemma stdio_calls:
  "lowest ((stdio i out err)(0 := None)) = Some 0" "lowest ((stdio i out err)(1 := None)) = Some 1"
  "lowest (stdio i out err) = Some 3" "lowest ((stdio i out err)(3 \<mapsto> f)) = Some 4"
  "(stdio i out err)(0 \<mapsto> f) = stdio f out err" "(stdio i out err)(1 \<mapsto> f) = stdio i f err"
  by (auto intro!: lowest_eq simp: stdio_def)


lemma pipe_tables:
  "(dup_fd 4 ((stdio i out err)(3 \<mapsto> a, 4 \<mapsto> b, 1 := None)))(3 := None, 4 := None) = stdio i b err"
  "(dup_fd 3 ((stdio i out err)(3 \<mapsto> a, 4 \<mapsto> b, 0 := None)))(3 := None, 4 := None) = stdio a out err"
proof -
  have "lowest ((stdio i out err)(3 \<mapsto> a, 4 \<mapsto> b, 1 := None)) = Some 1" "lowest ((stdio i out err)(3 \<mapsto> a, 4 \<mapsto> b, 0 := None)) = Some 0"
    by (auto intro!: lowest_eq simp: stdio_def)
  then show "(dup_fd 4 ((stdio i out err)(3 \<mapsto> a, 4 \<mapsto> b, 1 := None)))(3 := None, 4 := None) = stdio i b err"
    "(dup_fd 3 ((stdio i out err)(3 \<mapsto> a, 4 \<mapsto> b, 0 := None)))(3 := None, 4 := None) = stdio a out err"
    by (auto simp: dup_fd_def stdio_def)
qed

lemma starts_panic [simp]: "\<not> starts \<pi> k t (panic s) x"
  by (simp add: panic_def)

lemma starts_fork1: "starts \<pi> k t (fork1 p) x \<longleftrightarrow> starts (k # \<pi>) 0 t (p 0) x \<or> (\<exists>pid > 0. starts \<pi> (Suc k) t (p pid) x)"
  by (force simp: fork1_def)

lemma starts_fork1_if: "starts \<pi> k t (fork1 (\<lambda>pid. if pid = 0 then p else q)) x \<longleftrightarrow> starts (k # \<pi>) 0 t p x \<or> starts \<pi> (Suc k) t q x"
  unfolding starts_fork1 by (auto intro: exI [of _ 1])

lemma starts_redir:
  "lowest (t(n := None)) = Some n \<Longrightarrow> 0 \<le> n \<Longrightarrow>
   starts \<pi> k t (Close n (Open f m (\<lambda>r. if r < 0 then Printf e s Exit else p))) x \<longleftrightarrow> starts \<pi> k (t(n \<mapsto> File f m)) p x"
  by simp

definition started :: "nat list \<Rightarrow> nat \<Rightarrow> u8 list cmd \<Rightarrow> obj \<Rightarrow> obj \<Rightarrow> obj \<Rightarrow> (u8 list list \<times> fdt) set" where
  "started \<pi> k c i out err = (\<lambda>(argv, i, out). (argv, stdio i out err)) ` plumb \<pi> k c i out"

lemma starts_runcmd: "std_redirs c \<Longrightarrow> starts \<pi> k (stdio i out err) (runcmd c) x \<longleftrightarrow> x \<in> started \<pi> k c i out err"
proof (induction c arbitrary: \<pi> k i out)
  case (EXEC argv)
  then show ?case by (cases argv) (auto simp: started_def)
next
  case (REDIR c f mode fd)
  then have "fd = 0 \<or> fd = 1" by auto
  then show ?case using REDIR by (elim disjE) (simp_all add: starts_redir stdio_calls started_def del: starts_simps)
next
  case (PIPE l r)
  let ?t = "(stdio i out err)(3 \<mapsto> Pipe_read \<pi> k, 4 \<mapsto> Pipe_write \<pi> k)"
  have "starts \<pi> k (stdio i out err) (runcmd (PIPE l r)) x \<longleftrightarrow>
    starts (Suc k # \<pi>) 0 (stdio i (Pipe_write \<pi> k) err) (runcmd l) x \<or> starts (Suc (Suc k) # \<pi>) 0 (stdio (Pipe_read \<pi> k) out err) (runcmd r) x"
    by (simp add: stdio_calls starts_fork1_if pipe_tables)
  then show ?case using PIPE by (simp add: started_def image_Un)
next
  case (LIST l r)
  then show ?case by (simp add: starts_fork1_if started_def image_Un)
next
  case (BACK c)
  then show ?case by (simp add: starts_fork1_if started_def)
qed


text \<open>The lines the shell forks for, in their order.\<close>

function commands :: "u8 option list \<Rightarrow> u8 list list" where
  "commands inp =
     (let (buf, rest) = getcmd inp in
      if buf = [] then [] else if take 3 buf = bytes ''cd '' then commands rest else buf # commands rest)"
  by pat_completeness auto
termination
  by (relation "measure length") (auto dest: getcmd_less [OF sym])

declare commands.simps [simp del]

definition line_starts :: "nat list \<Rightarrow> u8 list \<Rightarrow> obj \<Rightarrow> obj \<Rightarrow> obj \<Rightarrow> (u8 list list \<times> fdt) set" where
  "line_starts \<pi> line i out err =
     (case parsecmd line of Ok (c, b) \<Rightarrow> started \<pi> 0 (map_cmd (cstr (length line) b) c) i out err | _ \<Rightarrow> {})"

lemma std_redirs_map [simp]: "std_redirs (map_cmd f c) = std_redirs c"
  by (induction c) auto

lemma parsecmd_std: "parsecmd line = Ok (c, b) \<Longrightarrow> std_redirs c"
  using parseline_lands [of line "Suc (length line)" line]
  by (cases "parseline (Suc (length line)) line") (auto simp: parsecmd_def simp del: parseline.simps split: prod.splits if_splits)

lemma starts_run_line: "starts \<pi> 0 (stdio i out err) (run_line line) x \<longleftrightarrow> x \<in> line_starts \<pi> line i out err"
  by (auto simp: run_line_def line_starts_def starts_runcmd parsecmd_std split: outcome.splits)

lemma starts_main_loop:
  "starts \<pi> k (stdio i out err) (main_loop inp) x \<longleftrightarrow>
   (\<exists>j < length (commands inp). x \<in> line_starts ((k + j) # \<pi>) (commands inp ! j) i out err)"
proof (induction inp arbitrary: k rule: commands.induct)
  case (1 inp)
  obtain buf rest where g: "getcmd inp = (buf, rest)" by (cases "getcmd inp")
  consider (eof) "buf = []" | (cd) "buf \<noteq> []" "take 3 buf = bytes ''cd ''" | (run) "buf \<noteq> []" "take 3 buf \<noteq> bytes ''cd ''" by blast
  then show ?case
  proof cases
    case eof then show ?thesis by (simp add: main_loop.simps [of inp] commands.simps [of inp] g)
  next
    case cd
    then have "starts \<pi> k (stdio i out err) (main_loop inp) x \<longleftrightarrow> starts \<pi> k (stdio i out err) (main_loop rest) x"
      by (auto simp: main_loop.simps [of inp] g Let_def intro: exI [of _ 0])
    then show ?thesis using 1(1) [OF g [symmetric] refl] cd by (simp add: commands.simps [of inp] g)
  next
    case run
    then show ?thesis using 1(2) [OF g [symmetric] refl]
      by (simp add: main_loop.simps [of inp] commands.simps [of inp] g starts_fork1_if starts_run_line Ex_less_Suc2)
  qed
qed


lemma starts_open_console_full:
  "starts \<pi> k (stdio i out err) (open_console (Suc n) p) x \<longleftrightarrow> starts \<pi> k (stdio i out err) p x"
proof -
  have "(stdio i out err)(3 := None) = stdio i out err" by (auto simp: stdio_def)
  then show ?thesis by (simp add: stdio_calls)
qed

text \<open>The bound on the loop of \<^verbatim>\<open>main\<close> is enough: more turns change nothing, because each turn that goes on fills a
  descriptor below 3.\<close>

lemma lowest_Some: "lowest t = Some n \<Longrightarrow> 0 \<le> n \<and> t n = None"
  by (auto simp: lowest_def find_Some_iff)

lemma open_console_enough:
  "card {m :: int. 0 \<le> m \<and> m < 3 \<and> t m = None} < n \<Longrightarrow>
   starts \<pi> k t (open_console (Suc n) p) x \<longleftrightarrow> starts \<pi> k t (open_console n p) x"
proof (induction n arbitrary: t)
  case (Suc n)
  let ?free = "\<lambda>t :: fdt. {m :: int. 0 \<le> m \<and> m < 3 \<and> t m = None}"
  have fin: "finite (?free t)" by (rule finite_subset [of _ "{0..3}"]) auto
  have "starts \<pi> k (t(m \<mapsto> f)) (open_console (Suc n) p) x \<longleftrightarrow> starts \<pi> k (t(m \<mapsto> f)) (open_console n p) x"
    if m: "lowest t = Some m" "m < 3" for m f
  proof (rule Suc.IH)
    have eq: "?free (t(m \<mapsto> f)) = ?free t - {m}" and mem: "m \<in> ?free t" using lowest_Some [OF m(1)] m(2) by auto
    have "card (?free t - {m}) < card (?free t)" by (rule card_Diff1_less [OF fin mem])
    then show "card (?free (t(m \<mapsto> f))) < n" using Suc.prems unfolding eq by linarith
  qed
  then show ?case unfolding open_console.simps(2) [of "Suc n"] open_console.simps(2) [of n]
    by (cases "lowest t"; cases "the (lowest t) < 3") (simp_all del: open_console.simps)
qed simp

text \<open>C14: whatever the shell's calls of \<^verbatim>\<open>read\<close> return and whichever of its calls fail, a program that it starts, in whatever process, is a simple command of
  a line it has read - one that is no \<open>cd\<close> and that parses - with the command's arguments and exactly three open descriptors:
  its input and output are those of the shell, unless the nearest redirection of the line or the nearest pipe around the command replaces them, and no
  end of a pipe stays open by mistake. Conversely each of these programs can be started.\<close>

theorem shell_plumbing:
  "starts \<pi> k (stdio i out err) (main inp) x \<longleftrightarrow>
   (\<exists>j < length (commands inp). x \<in> line_starts ((k + j) # \<pi>) (commands inp ! j) i out err)"
proof -
  have "main inp = open_console (Suc 3) (main_loop inp)" by (simp add: main_def eval_nat_numeral)
  then show ?thesis by (simp only: starts_open_console_full starts_main_loop)
qed

text \<open>\<^verbatim>\<open>main\<close> cuts the last byte of a \<open>cd\<close> line as its newline even when the line has none.\<close>

lemma cd_without_newline: "\<exists>p. main_loop (map Some (bytes ''cd x'')) = Printf 2 (bytes ''$ '') (Chdir [] p)"
proof -
  have "getcmd (map Some (bytes ''cd x'')) = (bytes ''cd x'', [])" by (simp add: getcmd_def bytes_def of_char_def)
  then show ?thesis by (simp add: main_loop.simps [of "map Some (bytes ''cd x'')"]) (simp add: bytes_def of_char_def)
qed

end
