(* ===== verification/Fd_Calls.thy ===== *)
theory Fd_Calls
  imports Descriptors Sh_Run
begin

text \<open>
  The descriptor calls of the kernel as the shell uses them. The shell's programs are run on tables in which \<^verbatim>\<open>dup\<close> and \<^verbatim>\<open>open\<close> take the lowest
  free descriptor and \<^verbatim>\<open>close\<close> frees one; here \<^verbatim>\<open>sys_dup\<close>, \<^verbatim>\<open>sys_close\<close> and \<^verbatim>\<open>fdalloc\<close> of the kernel are shown to work like this on the
  table of the calling process.
\<close>

section \<open>The contract\<close>

text \<open>Calls give the result and the new state, or nothing when they do not return.\<close>

locale fd_table =
  fixes tab :: "'s \<Rightarrow> int \<Rightarrow> 'o option"
    and dup :: "int \<Rightarrow> 's \<Rightarrow> (int \<times> 's) option"
    and close :: "int \<Rightarrow> 's \<Rightarrow> (int \<times> 's) option"
    and alloc :: "'o \<Rightarrow> 's \<Rightarrow> (int \<times> 's) option"
  assumes dup_tab: "dup n s = Some (r, s') \<Longrightarrow> tab s' = dup_fd n (tab s) \<and>
      r = (if tab s n = None then -1 else case lowest (tab s) of None \<Rightarrow> -1 | Some m \<Rightarrow> m)"
    and close_tab: "close n s = Some (r, s') \<Longrightarrow> tab s' = (tab s)(n := None) \<and> r = (if tab s n = None then -1 else 0)"
    and alloc_tab: "alloc f s = Some (r, s') \<Longrightarrow>
      (case lowest (tab s) of None \<Rightarrow> r = -1 \<and> tab s' = tab s | Some m \<Rightarrow> r = m \<and> tab s' = (tab s)(m \<mapsto> f))"
begin

lemma lowest_freed:
  assumes "0 \<le> n" "n < NOFILE" "\<And>m. 0 \<le> m \<Longrightarrow> m < n \<Longrightarrow> t m \<noteq> None"
  shows "lowest (t(n := None)) = Some n"
  using assms by (intro lowest_eq) auto

text \<open>Closing a descriptor and filling it again: the state between the two calls may differ in anything but the table.\<close>

lemma redirect_dup:
  assumes "close n s = Some (r0, s1)" "tab s1' = tab s1" "dup k s1' = Some (r, s2)"
    and "0 \<le> n" "n < NOFILE" "\<And>m. 0 \<le> m \<Longrightarrow> m < n \<Longrightarrow> tab s m \<noteq> None" "k \<noteq> n" "tab s k = Some f"
  shows "r = n \<and> tab s2 = (tab s)(n \<mapsto> f)"
  using dup_tab [OF assms(3)] close_tab [OF assms(1)] assms(2,7,8) lowest_freed [OF assms(4-6)] by (simp add: dup_fd_def)

lemma redirect_open:
  assumes "close n s = Some (r0, s1)" "tab s1' = tab s1" "alloc f s1' = Some (r, s2)"
    and "0 \<le> n" "n < NOFILE" "\<And>m. 0 \<le> m \<Longrightarrow> m < n \<Longrightarrow> tab s m \<noteq> None"
  shows "r = n \<and> tab s2 = (tab s)(n \<mapsto> f)"
  using alloc_tab [OF assms(3)] close_tab [OF assms(1)] assms(2) lowest_freed [OF assms(4-6)] by simp

end

section \<open>The kernel\<close>

text \<open>The descriptors of the process on the CPU \<open>c\<close>, as indices into the file table.\<close>

definition ktable :: "nat \<Rightarrow> kernel \<Rightarrow> int \<Rightarrow> nat option" where
  "ktable c s n = (case myproc c (pt s) of None \<Rightarrow> None | Some p \<Rightarrow> if 0 \<le> n \<and> n < NOFILE then p_ofile (procs (pt s) p) (nat n) else None)"

text \<open>A call with the argument \<open>n\<close> on the user stack that returned to the process.\<close>

definition returned :: "nat \<Rightarrow> int \<Rightarrow> (progress \<times> kernel) outcome \<Rightarrow> kernel \<Rightarrow> (int \<times> kernel) option" where
  "returned c n m s =
     (if map_option sint (case argint c 0 s of Ok w \<Rightarrow> w | _ \<Rightarrow> None) = Some n
      then (case m of Ok (Done r, s') \<Rightarrow> Some (r, s') | _ \<Rightarrow> None) else None)"

definition kdup :: "nat \<Rightarrow> int \<Rightarrow> kernel \<Rightarrow> (int \<times> kernel) option" where
  "kdup c n s = returned c n (sys_dup c s) s"

definition kclose :: "nat \<Rightarrow> int \<Rightarrow> kernel \<Rightarrow> (int \<times> kernel) option" where
  "kclose c n s = returned c n (sys_close c s) s"

definition kfdalloc :: "nat \<Rightarrow> nat \<Rightarrow> kernel \<Rightarrow> (int \<times> kernel) option" where
  "kfdalloc c f s = (case fdalloc c f s of Ok (fd, s') \<Rightarrow> Some (case fd of None \<Rightarrow> -1 | Some n \<Rightarrow> int n, s') | _ \<Rightarrow> None)"

lemma find_map: "find P (map f xs) = map_option f (find (\<lambda>x. P (f x)) xs)"
  by (induction xs) auto

lemma lowest_ktable:
  assumes "myproc c (pt s) = Some p"
  shows "lowest (ktable c s) = map_option int (find (\<lambda>fd. p_ofile (procs (pt s) p) fd = None) [0..<16])"
proof -
  have "[0..NOFILE - 1] = map int [0..<16]" by (simp add: upto_rec1 upt_rec)
  then have "lowest (ktable c s) = map_option int (find (\<lambda>k. ktable c s (int k) = None) [0..<16])" by (simp add: lowest_def find_map)
  also have "find (\<lambda>k. ktable c s (int k) = None) [0..<16] = find (\<lambda>fd. p_ofile (procs (pt s) p) fd = None) [0..<16]"
    by (rule find_cong) (use assms in \<open>auto simp: ktable_def\<close>)
  finally show ?thesis .
qed

lemma ktable_set_fd:
  assumes "myproc c (pt s) = Some p" "fd < 16"
  shows "ktable c (set_fd p fd v s) = (ktable c s)(int fd := v)"
  using assms by (auto simp: ktable_def set_fd_def upd_cur_def upd_proc_def myproc_def fun_eq_iff)

lemma ktable_pkeep: "pkeep (pt s) (pt s') \<Longrightarrow> ktable c s' = ktable c s"
  by (auto simp: ktable_def pkeep_def fun_eq_iff split: option.splits)

lemma ktable_pt: "pt s' = pt s \<Longrightarrow> ktable c s' = ktable c s"
  using ktable_pkeep [of s s' c] by simp

lemma argfd_arg:
  assumes "argint c 0 s = Ok (Some w)" "myproc c (pt s) = Some p"
  shows "argfd c 0 s = Ok (map_option (\<lambda>f. (nat (sint w), f)) (ktable c s (sint w)))"
  using assms by (auto simp: argfd_def with_cur_def ktable_def Let_def split: option.splits)

lemma fdalloc_table:
  assumes "myproc c (pt s) = Some p"
  shows "fdalloc c f s = (case lowest (ktable c s) of None \<Rightarrow> Ok (None, s) | Some m \<Rightarrow> Ok (Some (nat m), set_fd p (nat m) (Some f) s))"
    "lowest (ktable c s) = Some m \<Longrightarrow> 0 \<le> m \<and> m < NOFILE"
  unfolding fdalloc_def with_cur_def lowest_ktable [OF assms] using assms by (simp split: option.splits) (auto simp: find_Some_iff)

interpretation kfd: fd_table "ktable c" "kdup c" "kclose c" "kfdalloc c" for c
proof
  fix n r f and s s' :: kernel
  {
    assume a: "kfdalloc c f s = Some (r, s')"
    then obtain p where p: "myproc c (pt s) = Some p" by (auto simp: kfdalloc_def fdalloc_def with_cur_def split: option.splits)
    show "case lowest (ktable c s) of None \<Rightarrow> r = -1 \<and> ktable c s' = ktable c s | Some m \<Rightarrow> r = m \<and> ktable c s' = (ktable c s)(m \<mapsto> f)"
      using a fdalloc_table [OF p] ktable_set_fd [OF p] by (auto simp: kfdalloc_def split: option.splits)
  }
  {
    assume a: "kdup c n s = Some (r, s')"
    obtain w where w: "argint c 0 s = Ok (Some w)" "sint w = n" "sys_dup c s = Ok (Done r, s')"
      using a by (auto simp: kdup_def returned_def split: if_splits outcome.splits prod.splits progress.splits)
    obtain p where p: "myproc c (pt s) = Some p" using w(1) by (auto simp: argint_def with_cur_def split: option.splits)
    show "ktable c s' = dup_fd n (ktable c s) \<and> r = (if ktable c s n = None then -1 else case lowest (ktable c s) of None \<Rightarrow> -1 | Some m \<Rightarrow> m)"
      using w(3) argfd_arg [OF w(1) p] fdalloc_table [OF p] ktable_set_fd [OF p] w(2)
      by (auto simp: sys_dup_def or_fail_Ok bindo_Ok_iff dup_fd_def dest!: filedup_pt ktable_pt [of _ _ c] split: option.splits)
  }
  {
    assume a: "kclose c n s = Some (r, s')"
    obtain w where w: "argint c 0 s = Ok (Some w)" "sint w = n" "sys_close c s = Ok (Done r, s')"
      using a by (auto simp: kclose_def returned_def split: if_splits outcome.splits prod.splits progress.splits)
    obtain p where p: "myproc c (pt s) = Some p" using w(1) by (auto simp: argint_def with_cur_def split: option.splits)
    have n: "0 \<le> n \<and> n < NOFILE" if "ktable c s n = Some f" for f using that by (auto simp: ktable_def split: option.splits if_splits)
    show "ktable c s' = (ktable c s)(n := None) \<and> r = (if ktable c s n = None then -1 else 0)"
      using w(3) argfd_arg [OF w(1) p] ktable_set_fd [OF p, of "nat n" None] w(2) n p
      by (auto simp: sys_close_def or_fail_Ok with_cur_def bindo_Ok_iff dest!: fileclose_pkeep ktable_pkeep [of _ _ c])
  }
qed

text \<open>C15: the descriptor calls of the kernel do to the table of the calling process what the shell counts on: \<^verbatim>\<open>dup\<close> gives the lowest free descriptor the
  file of the old one and changes nothing else, or fails when there is none or the old one is not open, \<^verbatim>\<open>close\<close> frees exactly its descriptor, and
  closing a descriptor and then duplicating another puts the file of that one in its place when no lower descriptor is free.\<close>

theorem kernel_redirects:
  shows "(kdup c n s = Some (r, s') \<longrightarrow> ktable c s' = dup_fd n (ktable c s) \<and> r = (if ktable c s n = None then -1 else case lowest (ktable c s) of None \<Rightarrow> -1 | Some m \<Rightarrow> m)) \<and>
    (kclose c n s = Some (r, s') \<longrightarrow> ktable c s' = (ktable c s)(n := None) \<and> r = (if ktable c s n = None then -1 else 0)) \<and>
    (kclose c n s = Some (r, s') \<longrightarrow> ktable c s1 = ktable c s' \<longrightarrow> kdup c k s1 = Some (r1, s2) \<longrightarrow> 0 \<le> n \<longrightarrow> n < NOFILE \<longrightarrow>
       (\<forall>m. 0 \<le> m \<longrightarrow> m < n \<longrightarrow> ktable c s m \<noteq> None) \<longrightarrow> k \<noteq> n \<longrightarrow> ktable c s k = Some f \<longrightarrow> r1 = n \<and> ktable c s2 = (ktable c s)(n \<mapsto> f))"
  using kfd.dup_tab kfd.close_tab kfd.redirect_dup by (intro conjI impI) blast+

theorem kernel_redirects_witness:
  "\<exists>s'. kdup 0 0 demo_open = Some (1, s') \<and> ktable 0 s' = [0 \<mapsto> 0, 1 \<mapsto> 0]"
proof -
  obtain s' where s': "sys_dup 0 demo_open = Ok (Done 1, s')" using demo_open_dup by blast
  have a: "argint 0 0 demo_open = Ok (Some 0)" by (rule demo_arg0) (simp_all add: demo_open_simps)
  have d: "kdup 0 0 demo_open = Some (1, s')" using s' a by (simp add: kdup_def returned_def)
  have t: "ktable 0 demo_open = [0 \<mapsto> 0]" by (auto simp: ktable_def demo_open_simps fun_eq_iff)
  have "lowest ([0 \<mapsto> 0 :: nat] :: int \<Rightarrow> nat option) = Some 1" by (intro lowest_eq) auto
  then have "ktable 0 s' = [0 \<mapsto> 0, 1 \<mapsto> 0]" using kernel_redirects [of 0 0 demo_open 1 s'] d t by (simp add: dup_fd_def)
  then show ?thesis using d by blast
qed

end
