(* ===== verification/Spinlock.thy ===== *)
theory Spinlock
  imports Mem Sched
begin

text \<open>
  Spin locks, \<^verbatim>\<open>spinlock.c\<close>: the counted disabling of interrupts, and \<^verbatim>\<open>acquire\<close> and \<^verbatim>\<open>release\<close> as the steps
  in which the CPUs interleave. The other theories take a critical section as one atomic
  step; what is shown here is what allows it.
\<close>

section \<open>Interrupts off, counted\<close>

text \<open>Of \<^verbatim>\<open>struct cpu\<close> and the flags register: the two fields of \<^verbatim>\<open>pushcli\<close> and the interrupt flag.\<close>

record lcpu =
  ncli :: int
  intena :: bool
  iflag :: bool

record spinlock =
  lk_locked :: u32
  lk_name :: string
  lk_cpu :: "nat option"
  lk_pcs :: "u32 list"

record lockst =
  locks :: "nat \<Rightarrow> spinlock"
  lcpus :: "nat \<Rightarrow> lcpu"

definition upd_lcpu :: "nat \<Rightarrow> (lcpu \<Rightarrow> lcpu) \<Rightarrow> 'a lockst_scheme \<Rightarrow> 'a lockst_scheme" where
  "upd_lcpu c f s = s\<lparr>lcpus := (lcpus s)(c := f (lcpus s c))\<rparr>"

definition upd_lock :: "nat \<Rightarrow> (spinlock \<Rightarrow> spinlock) \<Rightarrow> 'a lockst_scheme \<Rightarrow> 'a lockst_scheme" where
  "upd_lock l f s = s\<lparr>locks := (locks s)(l := f (locks s l))\<rparr>"

definition pushcli :: "nat \<Rightarrow> 'a lockst_scheme \<Rightarrow> 'a lockst_scheme" where
  "pushcli c s = upd_lcpu c (\<lambda>r.
     let eflags = iflag r; r = r\<lparr>iflag := False\<rparr>;
         r = (if ncli r = 0 then r\<lparr>intena := eflags\<rparr> else r)
     in r\<lparr>ncli := ncli r + 1\<rparr>) s"

definition popcli :: "nat \<Rightarrow> 'a lockst_scheme \<Rightarrow> 'a lockst_scheme outcome" where
  "popcli c s =
     (if iflag (lcpus s c) then Panic ''popcli - interruptible''
      else let s = upd_lcpu c (\<lambda>r. r\<lparr>ncli := ncli r - 1\<rparr>) s in
        if ncli (lcpus s c) < 0 then Panic ''popcli''
        else if ncli (lcpus s c) = 0 \<and> intena (lcpus s c) then Ok (upd_lcpu c (\<lambda>r. r\<lparr>iflag := True\<rparr>) s)
        else Ok s)"

section \<open>The lock\<close>

definition initlock :: "nat \<Rightarrow> string \<Rightarrow> 'a lockst_scheme \<Rightarrow> 'a lockst_scheme" where
  "initlock l name s = upd_lock l (\<lambda>k. k\<lparr>lk_name := name, lk_locked := 0, lk_cpu := None\<rparr>) s"

definition holding :: "nat \<Rightarrow> nat \<Rightarrow> 'a lockst_scheme \<Rightarrow> bool" where
  "holding l c s \<longleftrightarrow> lk_locked (locks s l) \<noteq> 0 \<and> lk_cpu (locks s l) = Some c"

text \<open>The walk of \<^verbatim>\<open>getcallerpcs\<close> along the saved frame pointers: the frames found, ten at most.\<close>

fun callerpcs_loop :: "memory \<Rightarrow> u32 \<Rightarrow> nat \<Rightarrow> u32 list" where
  "callerpcs_loop m ebp 0 = []"
| "callerpcs_loop m ebp (Suc k) =
     (if ebp = 0 \<or> ebp < 0x80000000 \<or> ebp = 0xFFFFFFFF then []
      else load32 m (ebp + 4) # callerpcs_loop m (load32 m ebp) k)"

definition getcallerpcs :: "memory \<Rightarrow> u32 \<Rightarrow> u32 list" where
  "getcallerpcs m v = (let pcs = callerpcs_loop m (v - 8) 10 in pcs @ replicate (10 - length pcs) 0)"

text \<open>\<^verbatim>\<open>acquire\<close> up to its loop, one turn of the loop, and what follows it.\<close>

definition acquire_enter :: "nat \<Rightarrow> nat \<Rightarrow> 'a lockst_scheme \<Rightarrow> 'a lockst_scheme outcome" where
  "acquire_enter c l s = (let s = pushcli c s in if holding l c s then Panic ''acquire'' else Ok s)"

definition xchg :: "nat \<Rightarrow> 'a lockst_scheme \<Rightarrow> u32 \<times> 'a lockst_scheme" where
  "xchg l s = (lk_locked (locks s l), upd_lock l (\<lambda>k. k\<lparr>lk_locked := 1\<rparr>) s)"

definition acquire_record :: "nat \<Rightarrow> nat \<Rightarrow> memory \<Rightarrow> u32 \<Rightarrow> 'a lockst_scheme \<Rightarrow> 'a lockst_scheme" where
  "acquire_record c l m v s = upd_lock l (\<lambda>k. k\<lparr>lk_cpu := Some c, lk_pcs := getcallerpcs m v\<rparr>) s"

text \<open>\<^verbatim>\<open>release\<close> up to the store that frees the lock, and that store; \<^verbatim>\<open>popcli\<close> follows.\<close>

definition release_enter :: "nat \<Rightarrow> nat \<Rightarrow> 'a lockst_scheme \<Rightarrow> 'a lockst_scheme outcome" where
  "release_enter c l s =
     (if \<not> holding l c s then Panic ''release''
      else Ok (upd_lock l (\<lambda>k. k\<lparr>lk_pcs := (lk_pcs k)[0 := 0], lk_cpu := None\<rparr>) s))"

definition release_store :: "nat \<Rightarrow> 'a lockst_scheme \<Rightarrow> 'a lockst_scheme" where
  "release_store l s = upd_lock l (\<lambda>k. k\<lparr>lk_locked := 0\<rparr>) s"

section \<open>The CPUs interleaved\<close>

datatype lpc = Outside | Spinning nat | Taken nat | Freeing nat | Popping

text \<open>Where each CPU is, the locks it has taken with \<^verbatim>\<open>xchg\<close> and not yet stored 0 to, and how many times it
  has called \<^verbatim>\<open>pushcli\<close> on its own.\<close>

record lockrun = lockst +
  at :: "nat \<Rightarrow> lpc"
  taken :: "nat \<Rightarrow> nat set"
  depth :: "nat \<Rightarrow> nat"

inductive lock_step :: "lockrun \<Rightarrow> lockrun \<Rightarrow> bool" where
  ls_enter: "at s c = Outside \<Longrightarrow> acquire_enter c l s = Ok s' \<Longrightarrow> lock_step s (s'\<lparr>at := (at s')(c := Spinning l)\<rparr>)"
| ls_spin: "at s c = Spinning l \<Longrightarrow> xchg l s = (old, s') \<Longrightarrow> old \<noteq> 0 \<Longrightarrow> lock_step s s'"
| ls_take: "at s c = Spinning l \<Longrightarrow> xchg l s = (0, s') \<Longrightarrow>
    lock_step s (s'\<lparr>at := (at s')(c := Taken l), taken := (taken s')(c := insert l (taken s' c))\<rparr>)"
| ls_record: "at s c = Taken l \<Longrightarrow> lock_step s ((acquire_record c l m v s)\<lparr>at := (at s)(c := Outside)\<rparr>)"
| ls_leave: "at s c = Outside \<Longrightarrow> release_enter c l s = Ok s' \<Longrightarrow> lock_step s (s'\<lparr>at := (at s')(c := Freeing l)\<rparr>)"
| ls_store: "at s c = Freeing l \<Longrightarrow>
    lock_step s ((release_store l s)\<lparr>at := (at s)(c := Popping), taken := (taken s)(c := taken s c - {l})\<rparr>)"
| ls_pop: "at s c = Popping \<Longrightarrow> popcli c s = Ok s' \<Longrightarrow> lock_step s (s'\<lparr>at := (at s')(c := Outside)\<rparr>)"
| ls_pushcli: "at s c = Outside \<Longrightarrow> lock_step s ((pushcli c s)\<lparr>depth := (depth s)(c := depth s c + 1)\<rparr>)"
| ls_popcli: "at s c = Outside \<Longrightarrow> 0 < depth s c \<Longrightarrow> popcli c s = Ok s' \<Longrightarrow>
    lock_step s (s'\<lparr>depth := (depth s')(c := depth s' c - 1)\<rparr>)"
| ls_flag: "at s c = Outside \<Longrightarrow> ncli (lcpus s c) = 0 \<Longrightarrow> lock_step s (upd_lcpu c (\<lambda>r. r\<lparr>iflag := b\<rparr>) s)"

definition lock_boot :: lockrun where
  "lock_boot = \<lparr>locks = (\<lambda>_. \<lparr>lk_locked = 0, lk_name = [], lk_cpu = None, lk_pcs = replicate 10 0\<rparr>),
     lcpus = (\<lambda>_. \<lparr>ncli = 0, intena = False, iflag = False\<rparr>), at = (\<lambda>_. Outside), taken = (\<lambda>_. {}), depth = (\<lambda>_. 0)\<rparr>"

section \<open>The invariant\<close>

definition pending :: "lpc \<Rightarrow> int" where
  "pending a = (case a of Spinning _ \<Rightarrow> 1 | Popping \<Rightarrow> 1 | _ \<Rightarrow> 0)"

definition lock_ok :: "lockrun \<Rightarrow> nat \<Rightarrow> bool" where
  "lock_ok s l \<longleftrightarrow>
     (if lk_locked (locks s l) = 0 then lk_cpu (locks s l) = None \<and> (\<forall>c. l \<notin> taken s c)
      else lk_locked (locks s l) = 1 \<and>
        (\<exists>c. (\<forall>d. l \<in> taken s d \<longleftrightarrow> d = c) \<and>
          lk_cpu (locks s l) = (if at s c = Taken l \<or> at s c = Freeing l then None else Some c)))"

definition lcpu_ok :: "lockrun \<Rightarrow> nat \<Rightarrow> bool" where
  "lcpu_ok s c \<longleftrightarrow> finite (taken s c) \<and>
     ncli (lcpus s c) = int (card (taken s c)) + pending (at s c) + int (depth s c) \<and>
     (0 < ncli (lcpus s c) \<longrightarrow> \<not> iflag (lcpus s c)) \<and>
     (\<forall>l. at s c = Taken l \<or> at s c = Freeing l \<longrightarrow> l \<in> taken s c) \<and>
     (\<forall>l. at s c = Spinning l \<longrightarrow> l \<notin> taken s c)"

definition lock_inv :: "lockrun \<Rightarrow> bool" where
  "lock_inv s \<longleftrightarrow> (\<forall>l. lock_ok s l) \<and> (\<forall>c. lcpu_ok s c)"

lemmas lock_ops = acquire_enter_def xchg_def acquire_record_def release_enter_def release_store_def
  pushcli_def popcli_def upd_lcpu_def upd_lock_def Let_def holding_def

lemma lock_okI_other:
  assumes "lock_ok s k" "locks s' k = locks s k" "\<And>d. k \<in> taken s' d \<longleftrightarrow> k \<in> taken s d"
    "\<And>d. (at s' d = Taken k \<or> at s' d = Freeing k) = (at s d = Taken k \<or> at s d = Freeing k)"
  shows "lock_ok s' k"
  using assms by (simp add: lock_ok_def)

text \<open>A step of one CPU on one lock has to be checked at these two only.\<close>

lemma lock_invI:
  assumes inv: "lock_inv s" and c: "lcpu_ok s' c" and l: "lock_ok s' l"
    and d: "\<And>d. d \<noteq> c \<Longrightarrow> lcpus s' d = lcpus s d \<and> taken s' d = taken s d \<and> at s' d = at s d \<and> depth s' d = depth s d"
    and j: "\<And>j. j \<noteq> l \<Longrightarrow> locks s' j = locks s j \<and> (j \<in> taken s' c \<longleftrightarrow> j \<in> taken s c) \<and>
      (at s' c = Taken j \<or> at s' c = Freeing j \<longleftrightarrow> at s c = Taken j \<or> at s c = Freeing j)"
  shows "lock_inv s'"
  unfolding lock_inv_def
proof (intro conjI allI)
  fix d' show "lcpu_ok s' d'" using inv c d [of d'] by (cases "d' = c") (auto simp: lock_inv_def lcpu_ok_def)
next
  fix j' show "lock_ok s' j'"
  proof (cases "j' = l")
    case False
    have "lock_ok s j'" using inv by (simp add: lock_inv_def)
    then show ?thesis
    proof (rule lock_okI_other)
      show "locks s' j' = locks s j'" using j False by blast
      show "j' \<in> taken s' d' \<longleftrightarrow> j' \<in> taken s d'" for d' using j [OF False] d [of d'] by (cases "d' = c") auto
      show "(at s' d' = Taken j' \<or> at s' d' = Freeing j') = (at s d' = Taken j' \<or> at s d' = Freeing j')" for d'
        using j [OF False] d [of d'] by (cases "d' = c") auto
    qed
  qed (use l in simp)
qed

lemma lock_invD: "lock_inv s \<Longrightarrow> lock_ok s l" "lock_inv s \<Longrightarrow> lcpu_ok s c"
  by (simp_all add: lock_inv_def)

lemma lock_ok_held:
  assumes "lock_ok s l" "l \<in> taken s c"
  shows "lk_locked (locks s l) = 1" "\<And>d. l \<in> taken s d \<longleftrightarrow> d = c"
    "lk_cpu (locks s l) = (if at s c = Taken l \<or> at s c = Freeing l then None else Some c)"
proof -
  have n: "lk_locked (locks s l) \<noteq> 0" using assms by (auto simp: lock_ok_def)
  then obtain d where d: "lk_locked (locks s l) = 1" "\<forall>e. l \<in> taken s e \<longleftrightarrow> e = d"
      "lk_cpu (locks s l) = (if at s d = Taken l \<or> at s d = Freeing l then None else Some d)"
    using assms(1) unfolding lock_ok_def by (simp only: if_False) blast
  moreover have "c = d" using assms(2) d(2) by blast
  ultimately show "lk_locked (locks s l) = 1" "\<And>d. l \<in> taken s d \<longleftrightarrow> d = c"
    "lk_cpu (locks s l) = (if at s c = Taken l \<or> at s c = Freeing l then None else Some c)" by simp_all
qed

lemma lock_okI_held:
  assumes "lk_locked (locks s l) = 1" "\<And>d. l \<in> taken s d \<longleftrightarrow> d = c"
    "lk_cpu (locks s l) = (if at s c = Taken l \<or> at s c = Freeing l then None else Some c)"
  shows "lock_ok s l"
  using assms by (auto simp: lock_ok_def intro!: exI [of _ c])

lemma lock_okI_free: "lk_locked (locks s l) = 0 \<Longrightarrow> lk_cpu (locks s l) = None \<Longrightarrow> (\<And>c. l \<notin> taken s c) \<Longrightarrow> lock_ok s l"
  by (simp add: lock_ok_def)

lemma lock_ok_free: "lock_ok s l \<Longrightarrow> lk_locked (locks s l) = 0 \<Longrightarrow> lk_cpu (locks s l) = None \<and> l \<notin> taken s c"
  by (simp add: lock_ok_def)

lemma lock_ok_cpu:
  assumes "lock_ok s l" "lk_locked (locks s l) \<noteq> 0" "lk_cpu (locks s l) = Some c"
  shows "l \<in> taken s c"
proof -
  obtain d where "\<forall>e. l \<in> taken s e \<longleftrightarrow> e = d"
      "lk_cpu (locks s l) = (if at s d = Taken l \<or> at s d = Freeing l then None else Some d)"
    using assms(1,2) unfolding lock_ok_def by (simp only: if_False) blast
  then show ?thesis using assms(3) by (simp split: if_splits)
qed

lemma holding_taken:
  assumes "lock_inv s" "at s c = Outside"
  shows "holding l c s \<longleftrightarrow> l \<in> taken s c"
  using lock_ok_held(1,3) [OF lock_invD(1) [OF assms(1)], of l c] lock_ok_cpu [OF lock_invD(1) [OF assms(1)], of l c] assms(2)
  by (auto simp: holding_def)

text \<open>The CPU alone: counting interrupts.\<close>

lemma pushcli_ok:
  assumes "lock_inv s" "at s c = Outside"
  shows "lock_inv ((pushcli c s)\<lparr>depth := (depth s)(c := depth s c + 1)\<rparr>)"
    "l \<notin> taken s c \<Longrightarrow> lock_inv ((pushcli c s)\<lparr>at := (at s)(c := Spinning l)\<rparr>)"
proof -
  note k = lock_invD [OF assms(1)]
  show "lock_inv ((pushcli c s)\<lparr>depth := (depth s)(c := depth s c + 1)\<rparr>)"
    by (rule lock_invI [OF assms(1), of _ c 0])
       (use k(2) [of c] k(1) [of 0] assms(2) in \<open>auto simp: lcpu_ok_def lock_ok_def lock_ops pending_def\<close>)
  have "lock_ok ((pushcli c s)\<lparr>at := (at s)(c := Spinning l)\<rparr>) l"
    by (rule lock_okI_other [OF k(1) [of l]]) (use assms(2) in \<open>auto simp: lock_ops\<close>)
  then show "lock_inv ((pushcli c s)\<lparr>at := (at s)(c := Spinning l)\<rparr>)" if "l \<notin> taken s c"
    by (intro lock_invI [OF assms(1), of _ c l])
       (use k(2) [of c] assms(2) that in \<open>auto simp: lcpu_ok_def lock_ops pending_def\<close>)
qed

lemma popcli_cases:
  assumes "popcli c s = Ok s'"
  shows "\<exists>b. s' = upd_lcpu c (\<lambda>r. r\<lparr>ncli := ncli r - 1, iflag := b\<rparr>) s \<and> (b \<longrightarrow> ncli (lcpus s c) = 1 \<and> intena (lcpus s c))"
  using assms by (intro exI [of _ "ncli (lcpus s c) = 1 \<and> intena (lcpus s c)"], cases "lcpus s c")
    (auto simp: lock_ops split: if_splits)

lemma lock_step_inv:
  assumes "lock_step s s'" "lock_inv s"
  shows "lock_inv s'"
  using assms
proof (induction rule: lock_step.induct)
  case (ls_enter s c l s')
  then have "s' = pushcli c s" "\<not> holding l c s"
    by (auto simp: acquire_enter_def Let_def holding_def pushcli_def upd_lcpu_def split: if_splits)
  then show ?case using pushcli_ok(2) ls_enter holding_taken by (auto simp: pushcli_def upd_lcpu_def)
next
  case (ls_spin s c l old s')
  then have "lk_locked (locks s l) = 1" using lock_invD(1) [of s l] by (auto simp: lock_ok_def xchg_def split: if_splits)
  then have "locks s' = locks s" "s' = s\<lparr>locks := locks s'\<rparr>" using ls_spin(2) by (auto simp: xchg_def upd_lock_def)
  then show ?case using ls_spin by simp
next
  case (ls_take s c l s')
  note k = lock_invD [OF ls_take(3)]
  have s': "s' = upd_lock l (\<lambda>k. k\<lparr>lk_locked := 1\<rparr>) s" and n: "lk_cpu (locks s l) = None" "\<And>d. l \<notin> taken s d"
    using ls_take(2) lock_ok_free [OF k(1) [of l]] by (auto simp: xchg_def)
  show ?case
    by (rule lock_invI [OF ls_take(3), of _ c l], use s' n ls_take(1) k(2) [of c] in \<open>simp add: lcpu_ok_def upd_lock_def pending_def\<close>,
        rule lock_okI_held [of _ _ c]) (use s' n ls_take(1) in \<open>auto simp: upd_lock_def split: if_splits\<close>)
next
  case (ls_record s c l m v)
  note k = lock_invD [OF ls_record(2)]
  have t: "l \<in> taken s c" using k(2) [of c] ls_record(1) by (simp add: lcpu_ok_def)
  note h = lock_ok_held [OF k(1) t]
  show ?case
    by (rule lock_invI [OF ls_record(2), of _ c l],
        use ls_record(1) k(2) [of c] in \<open>simp add: lcpu_ok_def acquire_record_def upd_lock_def pending_def\<close>,
        rule lock_okI_held [of _ _ c]) (use h t ls_record(1) in \<open>auto simp: acquire_record_def upd_lock_def\<close>)
next
  case (ls_leave s c l s')
  note k = lock_invD [OF ls_leave(3)]
  have s': "s' = upd_lock l (\<lambda>k. k\<lparr>lk_pcs := (lk_pcs k)[0 := 0], lk_cpu := None\<rparr>) s" and t: "l \<in> taken s c"
    using ls_leave holding_taken by (auto simp: release_enter_def split: if_splits)
  note h = lock_ok_held [OF k(1) t]
  show ?case
    by (rule lock_invI [OF ls_leave(3), of _ c l], use t s' ls_leave(1) k(2) [of c] in \<open>simp add: lcpu_ok_def upd_lock_def pending_def\<close>,
        rule lock_okI_held [of _ _ c]) (use s' h t ls_leave(1) in \<open>auto simp: upd_lock_def\<close>)
next
  case (ls_store s c l)
  note k = lock_invD [OF ls_store(2)]
  have t: "finite (taken s c)" "l \<in> taken s c" using k(2) [of c] ls_store(1) by (simp_all add: lcpu_ok_def)
  then have n: "int (card (taken s c - {l})) = int (card (taken s c)) - 1" using card_Suc_Diff1 [of "taken s c" l] by simp
  note h = lock_ok_held [OF k(1) t(2)]
  show ?case
    by (rule lock_invI [OF ls_store(2), of _ c l],
        use n t ls_store(1) k(2) [of c] in \<open>simp add: lcpu_ok_def release_store_def upd_lock_def pending_def\<close>,
        rule lock_okI_free) (use h t ls_store(1) in \<open>auto simp: release_store_def upd_lock_def split: if_splits\<close>)
next
  case (ls_pop s c s')
  note k = lock_invD [OF ls_pop(3)]
  obtain b where "s' = upd_lcpu c (\<lambda>r. r\<lparr>ncli := ncli r - 1, iflag := b\<rparr>) s" "b \<longrightarrow> ncli (lcpus s c) = 1"
    using popcli_cases [OF ls_pop(2)] by blast
  then show ?case by (intro lock_invI [OF ls_pop(3), of _ c 0])
    (use ls_pop(1,2) k(2) [of c] in \<open>auto simp: lcpu_ok_def upd_lcpu_def pending_def popcli_def
        intro: lock_okI_other [OF k(1) [of 0]] split: if_splits\<close>)
next
  case (ls_pushcli s c)
  then show ?case by (intro pushcli_ok)
next
  case (ls_popcli s c s')
  note k = lock_invD [OF ls_popcli(4)]
  obtain b where "s' = upd_lcpu c (\<lambda>r. r\<lparr>ncli := ncli r - 1, iflag := b\<rparr>) s" "b \<longrightarrow> ncli (lcpus s c) = 1"
    using popcli_cases [OF ls_popcli(3)] by blast
  then show ?case by (intro lock_invI [OF ls_popcli(4), of _ c 0])
    (use ls_popcli(1-3) k(2) [of c] in \<open>auto simp: lcpu_ok_def upd_lcpu_def pending_def popcli_def
        intro: lock_okI_other [OF k(1) [of 0]] split: if_splits\<close>)
next
  case (ls_flag s c b)
  note k = lock_invD [OF ls_flag(3)]
  show ?case by (intro lock_invI [OF ls_flag(3), of _ c 0])
    (use ls_flag(1,2) k(2) [of c] in \<open>auto simp: lcpu_ok_def upd_lcpu_def intro: lock_okI_other [OF k(1) [of 0]]\<close>)
qed

lemma lock_reach_inv: "lock_step\<^sup>*\<^sup>* lock_boot s \<Longrightarrow> lock_inv s"
proof (induction rule: rtranclp_induct)
  case base
  show ?case by (simp add: lock_inv_def lock_ok_def lcpu_ok_def lock_boot_def pending_def)
qed (rule lock_step_inv)

lemma popcli_pushcli:
  assumes "0 \<le> ncli (lcpus s c)" "0 < ncli (lcpus s c) \<Longrightarrow> \<not> iflag (lcpus s c)"
  shows "\<exists>s'. popcli c (pushcli c s) = Ok s' \<and> ncli (lcpus s' c) = ncli (lcpus s c) \<and> iflag (lcpus s' c) = iflag (lcpus s c)"
  using assms by (auto simp: lock_ops)

lemma length_getcallerpcs: "length (getcallerpcs m v) = 10"
proof -
  have "length (callerpcs_loop m e k) \<le> k" for e k by (induction m e k rule: callerpcs_loop.induct) auto
  from this [of "v - 8" 10] show ?thesis by (simp add: getcallerpcs_def Let_def)
qed

section \<open>What a spin lock promises\<close>

text \<open>C4: however the CPUs interleave the instructions of \<^verbatim>\<open>acquire\<close>, \<^verbatim>\<open>release\<close>, \<^verbatim>\<open>pushcli\<close> and \<^verbatim>\<open>popcli\<close>, no two
  CPUs are inside the same lock; a CPU that holds or waits for a lock has interrupts off;
  \<^verbatim>\<open>acquire\<close> panics exactly when the CPU already holds the lock and \<^verbatim>\<open>release\<close> exactly when it
  does not; the closing \<^verbatim>\<open>popcli\<close> never panics; and a CPU that waits for a lock nobody is inside
  gets it with its next \<^verbatim>\<open>xchg\<close>.\<close>

theorem spinlock_mutex:
  assumes "lock_step\<^sup>*\<^sup>* lock_boot s"
  shows "(l \<in> taken s c \<and> l \<in> taken s d \<longrightarrow> c = d) \<and>
    (l \<in> taken s c \<or> at s c \<noteq> Outside \<longrightarrow> \<not> iflag (lcpus s c)) \<and>
    (at s c = Outside \<longrightarrow> (acquire_enter c l s = Panic ''acquire'' \<longleftrightarrow> l \<in> taken s c) \<and>
       (release_enter c l s = Panic ''release'' \<longleftrightarrow> l \<notin> taken s c)) \<and>
    (at s c = Popping \<longrightarrow> (\<exists>s'. popcli c s = Ok s')) \<and>
    (at s c = Spinning l \<and> (\<forall>d. l \<notin> taken s d) \<longrightarrow> fst (xchg l s) = 0)"
proof (intro conjI impI)
  have inv: "lock_inv s" using assms by (rule lock_reach_inv)
  note k = lock_invD [OF inv]
  have kc: "finite (taken s c)" "ncli (lcpus s c) = int (card (taken s c)) + pending (at s c) + int (depth s c)"
    "0 < ncli (lcpus s c) \<longrightarrow> \<not> iflag (lcpus s c)" "\<forall>l. at s c = Taken l \<or> at s c = Freeing l \<longrightarrow> l \<in> taken s c"
    using k(2) [of c] by (simp_all add: lcpu_ok_def)
  show "c = d" if "l \<in> taken s c \<and> l \<in> taken s d" using that lock_ok_held(2) [OF k(1), of l c d] by blast
  show "\<not> iflag (lcpus s c)" if "l \<in> taken s c \<or> at s c \<noteq> Outside"
  proof -
    have "taken s c \<noteq> {} \<or> 0 < pending (at s c)" using that kc(4) by (cases "at s c") (auto simp: pending_def)
    then have "0 < ncli (lcpus s c)" using kc(1,2) card_gt_0_iff [of "taken s c"] by (cases "at s c") (auto simp: pending_def)
    then show ?thesis using kc(3) by blast
  qed
  show "acquire_enter c l s = Panic ''acquire'' \<longleftrightarrow> l \<in> taken s c" if "at s c = Outside"
    using holding_taken [OF inv that, of l] by (auto simp: acquire_enter_def Let_def holding_def pushcli_def upd_lcpu_def)
  show "release_enter c l s = Panic ''release'' \<longleftrightarrow> l \<notin> taken s c" if "at s c = Outside"
    using holding_taken [OF inv that, of l] by (auto simp: release_enter_def)
  show "\<exists>s'. popcli c s = Ok s'" if "at s c = Popping" using that kc by (auto simp: lock_ops pending_def)
  show "fst (xchg l s) = 0" if "at s c = Spinning l \<and> (\<forall>d. l \<notin> taken s d)"
    using that k(1) [of l] by (auto simp: xchg_def lock_ok_def split: if_splits)
qed

theorem spinlock_mutex_witness:
  "\<exists>s. lock_step\<^sup>*\<^sup>* lock_boot s \<and> 3 \<in> taken s 0 \<and> 3 \<notin> taken s 1 \<and> acquire_enter 0 3 s = Panic ''acquire''"
proof -
  let ?a = "(pushcli 0 lock_boot)\<lparr>at := (\<lambda>_. Outside)(0 := Spinning 3)\<rparr>"
  let ?b = "(upd_lock 3 (\<lambda>k. k\<lparr>lk_locked := 1\<rparr>) ?a)\<lparr>at := (\<lambda>_. Outside)(0 := Taken 3), taken := (\<lambda>_. {})(0 := {3})\<rparr>"
  let ?c = "(acquire_record 0 3 (\<lambda>_. 0) 0 ?b)\<lparr>at := (at ?b)(0 := Outside)\<rparr>"
  have "lock_step lock_boot ?a"
    using ls_enter [of lock_boot 0 3 "pushcli 0 lock_boot"]
    by (simp add: acquire_enter_def Let_def) (simp add: lock_boot_def pushcli_def upd_lcpu_def holding_def)
  moreover have "lock_step ?a ?b"
    using ls_take [of ?a 0 3 "upd_lock 3 (\<lambda>k. k\<lparr>lk_locked := 1\<rparr>) ?a"]
    by (simp add: xchg_def) (simp add: lock_boot_def pushcli_def upd_lcpu_def upd_lock_def)
  moreover have "lock_step ?b ?c" by (rule ls_record) simp
  ultimately have r: "lock_step\<^sup>*\<^sup>* lock_boot ?c" by (meson converse_rtranclp_into_rtranclp rtranclp.rtrancl_refl)
  moreover have "at ?c 0 = Outside" "3 \<in> taken ?c 0" by (simp_all add: acquire_record_def upd_lock_def)
  ultimately show ?thesis using spinlock_mutex [OF r, of 3 0 1] by (intro exI [of _ ?c]) auto
qed

end
