(* ===== verification/Sleeplock.thy ===== *)
theory Sleeplock
  imports Spinlock Sched_Steps
begin

text \<open>
  Sleeping locks, \<^verbatim>\<open>sleeplock.c\<close>, together with \<^verbatim>\<open>sleep\<close>, \<^verbatim>\<open>wakeup\<close> and \<^verbatim>\<open>sched\<close> of \<^verbatim>\<open>proc.c\<close>, in the
  steps in which the CPUs interleave: each step is the code between two operations on a spin
  lock. A process has a program counter in \<^verbatim>\<open>acquiresleep\<close>, \<^verbatim>\<open>sleep\<close> or \<^verbatim>\<open>releasesleep\<close>, and both spin
  locks, the one inside the sleeping lock and \<^verbatim>\<open>ptable.lock\<close>, are in the state, so the hand-over
  from the first to the second inside \<^verbatim>\<open>sleep\<close> is visible. That a spin lock may itself be taken
  as one step is what \<open>Spinlock\<close> shows.
\<close>

section \<open>The state\<close>

record sleeplock =
  sl_locked :: u32
  sl_name :: string
  sl_pid :: int

text \<open>The spin locks: \<^verbatim>\<open>lk->lk\<close> of each sleeping lock, and \<^verbatim>\<open>ptable.lock\<close>.\<close>

datatype lkid = Inner nat | Ptable

text \<open>Where a process is; the number is the sleeping lock it works on.\<close>

datatype acq_at = AcqEnter | AcqTest | AcqTake | AcqDone
datatype slp_at = SleepLock | SleepUnlock | SleepSched | SleepOut | SleepTidy | SleepUnpt | SleepRelock
datatype rel_at = RelEnter | RelClear | RelWake | RelWaking | RelWoken | RelDone
datatype slpc = Away | Acquiring acq_at nat | Sleeping slp_at nat | Releasing rel_at nat

text \<open>
  Beside the locks and the process table: the CPU that holds each spin lock (\<^verbatim>\<open>lk->cpu\<close> of a taken
  lock), \<^verbatim>\<open>ncli\<close> of each CPU, the program counters, and two histories: the processes that have
  acquired a sleeping lock and not released it, and the locks that were released by another
  process than that.
\<close>

record sleepst =
  slocks :: "nat \<Rightarrow> sleeplock"
  spt :: ptable
  lkh :: "lkid \<Rightarrow> nat option"
  cli :: "nat \<Rightarrow> int"
  pc :: "nat \<Rightarrow> slpc"
  own :: "nat \<Rightarrow> nat set"
  misused :: "nat set"

definition upd_slock :: "nat \<Rightarrow> (sleeplock \<Rightarrow> sleeplock) \<Rightarrow> sleepst \<Rightarrow> sleepst" where
  "upd_slock k f s = s\<lparr>slocks := (slocks s)(k := f (slocks s k))\<rparr>"

definition goto :: "nat \<Rightarrow> slpc \<Rightarrow> sleepst \<Rightarrow> sleepst" where
  "goto p a s = s\<lparr>pc := (pc s)(p := a)\<rparr>"

section \<open>Spin locks in one step\<close>

text \<open>\<^verbatim>\<open>acquire\<close> and \<^verbatim>\<open>release\<close> on CPU \<open>c\<close>; \<open>Wait\<close> is a turn of the \<^verbatim>\<open>xchg\<close> loop that finds the lock taken.\<close>

definition spin_acquire :: "nat \<Rightarrow> lkid \<Rightarrow> sleepst \<Rightarrow> sleepst outcome" where
  "spin_acquire c l s =
     (if lkh s l = Some c then Panic ''acquire''
      else if lkh s l \<noteq> None then Wait
      else Ok (s\<lparr>lkh := (lkh s)(l := Some c), cli := (cli s)(c := cli s c + 1)\<rparr>))"

definition spin_release :: "nat \<Rightarrow> lkid \<Rightarrow> sleepst \<Rightarrow> sleepst outcome" where
  "spin_release c l s =
     (if lkh s l \<noteq> Some c then Panic ''release''
      else if cli s c - 1 < 0 then Panic ''popcli''
      else Ok (s\<lparr>lkh := (lkh s)(l := None), cli := (cli s)(c := cli s c - 1)\<rparr>))"

section \<open>The operations\<close>

definition initsleeplock :: "nat \<Rightarrow> string \<Rightarrow> sleepst \<Rightarrow> sleepst" where
  "initsleeplock k name s = upd_slock k (\<lambda>l. l\<lparr>sl_name := name, sl_locked := 0, sl_pid := 0\<rparr>) s"

text \<open>The checks of \<^verbatim>\<open>sched\<close> on the lock and on \<^verbatim>\<open>ncli\<close>, then the switch.\<close>

definition sched_locked :: "nat \<Rightarrow> sleepst \<Rightarrow> sleepst outcome" where
  "sched_locked c s =
     (if lkh s Ptable \<noteq> Some c then Panic ''sched ptable.lock''
      else if cli s c \<noteq> 1 then Panic ''sched locks''
      else bindo (sched c (spt s)) (\<lambda>t. Ok (s\<lparr>spt := t\<rparr>)))"

text \<open>\<^verbatim>\<open>sleep(lk, &lk->lk)\<close> by process \<open>p\<close> on CPU \<open>c\<close>. At \<open>SleepOut\<close> the process is off the CPU; the
  scheduler moves it on. The call returns to the test of the loop in \<^verbatim>\<open>acquiresleep\<close>.\<close>

fun sleep_at :: "nat \<Rightarrow> nat \<Rightarrow> nat \<Rightarrow> slp_at \<Rightarrow> sleepst \<Rightarrow> sleepst outcome" where
  "sleep_at c p k SleepLock s = bindo (spin_acquire c Ptable s) (\<lambda>s. Ok (goto p (Sleeping SleepUnlock k) s))"
| "sleep_at c p k SleepUnlock s = bindo (spin_release c (Inner k) s) (\<lambda>s. Ok (goto p (Sleeping SleepSched k) s))"
| "sleep_at c p k SleepSched s =
     (let s = s\<lparr>spt := upd_proc p (\<lambda>x. x\<lparr>p_chan := Some (ChSleeplock k), p_state := SLEEPING\<rparr>) (spt s)\<rparr>
      in bindo (sched_locked c s) (\<lambda>s. Ok (goto p (Sleeping SleepOut k) s)))"
| "sleep_at c p k SleepOut s = UB"
| "sleep_at c p k SleepTidy s =
     Ok (goto p (Sleeping SleepUnpt k) (s\<lparr>spt := upd_proc p (\<lambda>x. x\<lparr>p_chan := None\<rparr>) (spt s)\<rparr>))"
| "sleep_at c p k SleepUnpt s = bindo (spin_release c Ptable s) (\<lambda>s. Ok (goto p (Sleeping SleepRelock k) s))"
| "sleep_at c p k SleepRelock s = bindo (spin_acquire c (Inner k) s) (\<lambda>s. Ok (goto p (Acquiring AcqTest k) s))"

fun acquiresleep :: "nat \<Rightarrow> nat \<Rightarrow> nat \<Rightarrow> acq_at \<Rightarrow> sleepst \<Rightarrow> sleepst outcome" where
  "acquiresleep c p k AcqEnter s = bindo (spin_acquire c (Inner k) s) (\<lambda>s. Ok (goto p (Acquiring AcqTest k) s))"
| "acquiresleep c p k AcqTest s =
     (if sl_locked (slocks s k) \<noteq> 0 then Ok (goto p (Sleeping SleepLock k) s)
      else Ok (goto p (Acquiring AcqTake k) s))"
| "acquiresleep c p k AcqTake s =
     Ok (goto p (Acquiring AcqDone k)
       ((upd_slock k (\<lambda>l. l\<lparr>sl_locked := 1, sl_pid := p_pid (procs (spt s) p)\<rparr>) s)
         \<lparr>own := (own s)(k := insert p (own s k))\<rparr>))"
| "acquiresleep c p k AcqDone s = bindo (spin_release c (Inner k) s) (\<lambda>s. Ok (goto p Away s))"

fun releasesleep :: "nat \<Rightarrow> nat \<Rightarrow> nat \<Rightarrow> rel_at \<Rightarrow> sleepst \<Rightarrow> sleepst outcome" where
  "releasesleep c p k RelEnter s = bindo (spin_acquire c (Inner k) s) (\<lambda>s. Ok (goto p (Releasing RelClear k) s))"
| "releasesleep c p k RelClear s =
     Ok (goto p (Releasing RelWake k)
       ((upd_slock k (\<lambda>l. l\<lparr>sl_locked := 0, sl_pid := 0\<rparr>) s)\<lparr>own := (own s)(k := own s k - {p})\<rparr>))"
| "releasesleep c p k RelWake s = bindo (spin_acquire c Ptable s) (\<lambda>s. Ok (goto p (Releasing RelWaking k) s))"
| "releasesleep c p k RelWaking s =
     bindo (wakeup1 (Some (ChSleeplock k)) (spt s)) (\<lambda>t. Ok (goto p (Releasing RelWoken k) (s\<lparr>spt := t\<rparr>)))"
| "releasesleep c p k RelWoken s = bindo (spin_release c Ptable s) (\<lambda>s. Ok (goto p (Releasing RelDone k) s))"
| "releasesleep c p k RelDone s = bindo (spin_release c (Inner k) s) (\<lambda>s. Ok (goto p Away s))"

definition holdingsleep :: "nat \<Rightarrow> sleepst \<Rightarrow> u32" where
  "holdingsleep k s = sl_locked (slocks s k)"

text \<open>The next step of the process that CPU \<open>c\<close> runs.\<close>

definition sl_exec :: "nat \<Rightarrow> nat \<Rightarrow> sleepst \<Rightarrow> sleepst outcome" where
  "sl_exec c p s = (case pc s p of
     Away \<Rightarrow> Ok s
   | Acquiring a k \<Rightarrow> acquiresleep c p k a s
   | Sleeping a k \<Rightarrow> sleep_at c p k a s
   | Releasing a k \<Rightarrow> releasesleep c p k a s)"

section \<open>Interleaved use\<close>

fun switched_out :: "slpc \<Rightarrow> bool" where
  "switched_out (Sleeping SleepOut k) = True"
| "switched_out _ = False"

fun sl_chan :: "chan \<Rightarrow> bool" where
  "sl_chan (ChSleeplock k) = True"
| "sl_chan _ = False"

definition cpu_away :: "nat \<Rightarrow> sleepst \<Rightarrow> bool" where
  "cpu_away c s \<longleftrightarrow> (case myproc c (spt s) of None \<Rightarrow> True | Some p \<Rightarrow> pc s p = Away)"

text \<open>The critical sections of \<^verbatim>\<open>ptable.lock\<close> in the rest of the kernel that may come in between: a clock
  interrupt only while the CPU holds no spin lock, and \<^verbatim>\<open>sleep\<close> on other channels and \<^verbatim>\<open>exit\<close> only in
  processes that are not in the middle of a call.\<close>

fun sl_other :: "sleepst \<Rightarrow> step \<Rightarrow> bool" where
  "sl_other s (Pick c (Some p)) = (\<not> switched_out (pc s p))"
| "sl_other s (Yield c) = (cli s c = 0)"
| "sl_other s (Tick c) = (cli s c = 0)"
| "sl_other s (Sleep c ch) = (\<not> sl_chan ch \<and> cpu_away c s)"
| "sl_other s (Resume c) = cpu_away c s"
| "sl_other s (Exit c) = cpu_away c s"
| "sl_other s (Local p) = False"
| "sl_other s _ = True"

text \<open>
  A running process may call either operation on any lock, and goes on one step at a time. A CPU
  that has left a process in \<^verbatim>\<open>sched\<close> still holds \<^verbatim>\<open>ptable.lock\<close>, and its scheduler releases it; a
  process picked in the middle of \<^verbatim>\<open>sleep\<close> starts with the lock of the scheduler that picked it.
\<close>

inductive sl_step :: "sleepst \<Rightarrow> sleepst \<Rightarrow> bool" where
  sl_run: "myproc c (spt s) = Some p \<Longrightarrow> sl_exec c p s = Ok s' \<Longrightarrow> sl_step s s'"
| sl_acquire: "myproc c (spt s) = Some p \<Longrightarrow> pc s p = Away \<Longrightarrow> sl_step s (goto p (Acquiring AcqEnter k) s)"
| sl_release: "myproc c (spt s) = Some p \<Longrightarrow> pc s p = Away \<Longrightarrow>
    sl_step s ((goto p (Releasing RelEnter k) s)\<lparr>misused := (if p \<in> own s k then misused s else insert k (misused s))\<rparr>)"
| sl_back: "myproc c (spt s) = None \<Longrightarrow> lkh s Ptable = Some c \<Longrightarrow> spin_release c Ptable s = Ok s' \<Longrightarrow> sl_step s s'"
| sl_pick: "spin_acquire c Ptable s = Ok s1 \<Longrightarrow> sched_step (Pick c (Some p)) (spt s) t \<Longrightarrow> pc s p = Sleeping SleepOut k \<Longrightarrow>
    sl_step s (goto p (Sleeping SleepTidy k) (s1\<lparr>spt := t\<rparr>))"
| sl_sched: "lkh s Ptable = None \<Longrightarrow> sched_step l (spt s) t \<Longrightarrow> sl_other s l \<Longrightarrow> sl_step s (s\<lparr>spt := t\<rparr>)"
| sl_local: "keeps_sched (procs (spt s) p) (f (procs (spt s) p)) \<Longrightarrow> proc_ok (f (procs (spt s) p)) \<Longrightarrow>
    p_chan (f (procs (spt s) p)) = p_chan (procs (spt s) p) \<Longrightarrow> sl_step s (s\<lparr>spt := upd_proc p f (spt s)\<rparr>)"

definition waits :: "sleepst \<Rightarrow> nat \<Rightarrow> nat \<Rightarrow> bool" where
  "waits s k p \<longleftrightarrow> p_state (procs (spt s) p) = SLEEPING \<and> p_chan (procs (spt s) p) = Some (ChSleeplock k)"

text \<open>Some process has freed lock \<open>k\<close> and has not called \<^verbatim>\<open>wakeup1\<close> yet.\<close>

definition waking :: "sleepst \<Rightarrow> nat \<Rightarrow> bool" where
  "waking s k \<longleftrightarrow> (\<exists>q. pc s q = Releasing RelWake k \<or> pc s q = Releasing RelWaking k)"

definition sl_boot :: sleepst where
  "sl_boot = \<lparr>slocks = (\<lambda>_. \<lparr>sl_locked = 0, sl_name = [], sl_pid = 0\<rparr>), spt = boot, lkh = (\<lambda>_. None), cli = (\<lambda>_. 0),
     pc = (\<lambda>_. Away), own = (\<lambda>_. {}), misused = {}\<rparr>"

section \<open>Who sleeps\<close>

text \<open>No process starts to sleep, and sleepers stay on their channel.\<close>

definition dozes :: "ptable \<Rightarrow> ptable \<Rightarrow> bool" where
  "dozes t t' \<longleftrightarrow> (\<forall>p. p_state (procs t' p) = SLEEPING \<longrightarrow>
     p_state (procs t p) = SLEEPING \<and> p_chan (procs t' p) = p_chan (procs t p))"

lemma dozes_refl [simp]: "dozes t t"
  by (simp add: dozes_def)

lemma dozes_trans: "dozes t t1 \<Longrightarrow> dozes t1 t2 \<Longrightarrow> dozes t t2"
  by (simp add: dozes_def)

lemma dozes_upd_cpu [simp]: "dozes t (upd_cpu c f t)"
  by (simp add: dozes_def upd_cpu_def)

lemma dozes_initproc [simp]: "dozes t (t\<lparr>initproc := x\<rparr>)"
  by (simp add: dozes_def)

lemma dozes_upd_proc:
  "(p_state (f (procs t p)) = SLEEPING \<Longrightarrow> p_state (procs t p) = SLEEPING \<and> p_chan (f (procs t p)) = p_chan (procs t p)) \<Longrightarrow>
   dozes t (upd_proc p f t)"
  by (auto simp: dozes_def upd_proc_def)

lemma qpush_dozes: "qpush p t = Ok t' \<Longrightarrow> dozes t t'"
  by (auto simp: qpush_def Let_def outcome_simps dozes_def upd_proc_def split: if_splits option.splits)

lemma sched_dozes: "sched c t = Ok t' \<Longrightarrow> dozes t t'"
  by (auto simp: sched_def sched_resume_def switchkvm_def upd_cpu_def dozes_def split: option.splits if_splits)

lemma wakeup1_at_dozes: "wakeup1_at ch p t = Ok t' \<Longrightarrow> dozes t t'"
proof -
  assume a: "wakeup1_at ch p t = Ok t'"
  have "dozes t (upd_proc p (\<lambda>x. x\<lparr>p_state := RUNNABLE, p_priority := promote (p_priority x)\<rparr>) t)"
    by (rule dozes_upd_proc) simp
  then show ?thesis using a wakeup1_at_eq [of t p ch] qpush_dozes dozes_trans
    by (cases "p_state (procs t p) = SLEEPING \<and> p_chan (procs t p) = ch") (auto simp: wakeup1_at_def [of ch p t] split: if_splits)
qed

lemma wakeup1_dozes: "wakeup1 ch t = Ok t' \<Longrightarrow> dozes t t'"
proof -
  have "wakeup1_loop ch ps t = Ok t' \<Longrightarrow> dozes t t'" for ps t
    by (induction ps arbitrary: t) (auto simp: outcome_simps dest!: wakeup1_at_dozes intro: dozes_trans)
  then show "wakeup1 ch t = Ok t' \<Longrightarrow> dozes t t'" by (simp add: wakeup1_def)
qed

lemma reparent_dozes: "reparent_loop cur ps t = Ok t' \<Longrightarrow> dozes t t'"
proof (induction ps arbitrary: t)
  case (Cons p ps)
  have "dozes t (upd_proc p (\<lambda>x. x\<lparr>p_parent := q\<rparr>) t)" for q by (rule dozes_upd_proc) simp
  then have "reparent_at cur p t = Ok t1 \<Longrightarrow> dozes t t1" for t1
    by (auto simp: reparent_at_def Let_def dest!: wakeup1_dozes intro: dozes_trans split: if_splits)
  then show ?case using Cons by (auto simp: outcome_simps intro: dozes_trans)
qed simp

lemma yield_dozes: "yield c t = Ok t' \<Longrightarrow> dozes t t'"
proof -
  assume y: "yield c t = Ok t'"
  then obtain p t1 where p: "qpush p (upd_proc p (\<lambda>x. if p_priority x > 0 then x\<lparr>p_priority := p_priority x - 1\<rparr> else x)
      (upd_proc p (\<lambda>x. x\<lparr>p_state := RUNNABLE\<rparr>) t)) = Ok t1" "sched c t1 = Ok t'"
    by (auto simp: yield_def Let_def bindo_Ok_iff split: option.splits)
  have "dozes t (upd_proc p (\<lambda>x. if p_priority x > 0 then x\<lparr>p_priority := p_priority x - 1\<rparr> else x)
      (upd_proc p (\<lambda>x. x\<lparr>p_state := RUNNABLE\<rparr>) t))" by (auto simp: dozes_def upd_proc_def)
  then show ?thesis using qpush_dozes [OF p(1)] sched_dozes [OF p(2)] dozes_trans by blast
qed

lemma drop_stale_procs: "drop_stale q t = Ok t' \<Longrightarrow> procs t' = procs t"
proof (induction q t rule: drop_stale.induct)
  case (1 q t)
  show ?case using 1(2) 1(1) by (subst (asm) drop_stale.simps) (auto split: if_splits option.splits)
qed

lemma sched_loop_dozes: "sched_loop c q t = Ok (r, t') \<Longrightarrow> dozes t t'"
proof (induction q arbitrary: t)
  case (Suc q)
  obtain t1 where t1: "drop_stale q t = Ok t1" using Suc.prems by (auto simp: bindo_Ok_iff)
  have d: "dozes t t1" using drop_stale_procs [OF t1] by (simp add: dozes_def)
  show ?case
  proof (cases "count t1 q > 0")
    case True
    then show ?thesis using Suc.prems t1 d
      by (auto simp: outcome_simps Let_def switchuvm_def dozes_def upd_cpu_def upd_proc_def split: if_splits option.splits)
  next
    case False
    then show ?thesis using Suc.prems t1 d Suc.IH dozes_trans by (auto simp: word_gt_0)
  qed
qed simp

lemma timer_tick_dozes: "timer_tick c t = Ok t' \<Longrightarrow> dozes t t'"
proof -
  assume a: "timer_tick c t = Ok t'"
  have d: "dozes t (upd_proc p (\<lambda>x. x\<lparr>p_timepiece := p_timepiece x - 1\<rparr>) (upd_cpu c (\<lambda>r. r\<lparr>c_rtime := c_rtime r + 1\<rparr>) t))" for p
    by (auto simp: dozes_def upd_proc_def upd_cpu_def)
  show ?thesis using a dozes_trans [OF d] d
    by (auto simp: timer_tick_def Let_def dest!: yield_dozes split: option.splits if_splits)
qed

lemma kill_dozes: "dozes t (snd (kill pid t))"
proof -
  have "dozes t (snd (kill_loop pid ps t))" for ps
    by (induction ps) (auto simp: dozes_def upd_proc_def)
  then show ?thesis by (simp add: kill_def)
qed

lemma sched_step_dozes:
  assumes "sched_step l t t'" "\<And>c ch. l \<noteq> Sleep c ch" "\<And>p. l \<noteq> Local p" "sched_inv t"
  shows "dozes t t'"
  using assms
proof (induction rule: sched_step.induct)
  case (alloc s r s')
  then show ?case by (auto simp: allocproc_slot_def dozes_def upd_proc_def split: option.splits if_splits)
next
  case (exit c s p s')
  then obtain s1 s2 where s: "wakeup1 (map_option ChProc (p_parent (procs s p))) s = Ok s1" "reparent_loop p [0..<NPROC] s1 = Ok s2"
    "sched c (upd_proc p (\<lambda>x. x\<lparr>p_state := ZOMBIE\<rparr>) s2) = Ok s'"
    by (auto simp: exit_locked_def bindo_Ok_iff)
  have "dozes s2 (upd_proc p (\<lambda>x. x\<lparr>p_state := ZOMBIE\<rparr>) s2)" by (rule dozes_upd_proc) simp
  then show ?case using wakeup1_dozes [OF s(1)] reparent_dozes [OF s(2)] sched_dozes [OF s(3)] by (meson dozes_trans)
next
  case (start p s s')
  have "dozes s (upd_proc p (\<lambda>x. x\<lparr>p_state := RUNNABLE\<rparr>) s)" by (rule dozes_upd_proc) simp
  then show ?case using start(5) by (auto simp: make_runnable_def dest!: qpush_dozes intro: dozes_trans)
next
  case (resume c s p s')
  then have "p_state (procs s p) = RUNNING" using cpu_invD by (auto simp: sched_inv_def)
  then show ?case using resume by (auto simp: sleep_resume_def intro: dozes_upd_proc)
qed (auto simp: scheduler_def wakeup_def reap_def allocproc_init_def dest: sched_loop_dozes yield_dozes wakeup1_dozes timer_tick_dozes
    intro: dozes_upd_proc kill_dozes)


section \<open>The invariant\<close>

text \<open>The spin locks a process holds at each point.\<close>

fun held :: "slpc \<Rightarrow> lkid list" where
  "held Away = []"
| "held (Acquiring a k) = (if a = AcqEnter then [] else [Inner k])"
| "held (Sleeping a k) = (case a of
     SleepLock \<Rightarrow> [Inner k] | SleepUnlock \<Rightarrow> [Inner k, Ptable] | SleepSched \<Rightarrow> [Ptable] | SleepOut \<Rightarrow> []
   | SleepTidy \<Rightarrow> [Ptable] | SleepUnpt \<Rightarrow> [Ptable] | SleepRelock \<Rightarrow> [])"
| "held (Releasing a k) = (case a of
     RelEnter \<Rightarrow> [] | RelClear \<Rightarrow> [Inner k] | RelWake \<Rightarrow> [Inner k] | RelWaking \<Rightarrow> [Inner k, Ptable]
   | RelWoken \<Rightarrow> [Inner k, Ptable] | RelDone \<Rightarrow> [Inner k])"

text \<open>The holder of a spin lock and \<^verbatim>\<open>ncli\<close> agree with the program counter of the running process.\<close>

definition sl_locks :: "sleepst \<Rightarrow> bool" where
  "sl_locks s \<longleftrightarrow>
     (\<forall>p. held (pc s p) \<noteq> [] \<longrightarrow> (\<exists>c. myproc c (spt s) = Some p)) \<and>
     (\<forall>c p. myproc c (spt s) = Some p \<longrightarrow> (\<forall>l. lkh s l = Some c \<longleftrightarrow> l \<in> set (held (pc s p))) \<and>
        cli s c = int (length (held (pc s p))) \<and> \<not> switched_out (pc s p)) \<and>
     (\<forall>c. myproc c (spt s) = None \<longrightarrow> (\<forall>k. lkh s (Inner k) \<noteq> Some c) \<and>
        cli s c = (if lkh s Ptable = Some c then 1 else 0))"

definition sl_own :: "sleepst \<Rightarrow> bool" where
  "sl_own s \<longleftrightarrow> (\<forall>k. k \<notin> misused s \<longrightarrow>
     (\<forall>p\<in>own s k. \<forall>q\<in>own s k. p = q) \<and> (sl_locked (slocks s k) = 0 \<longleftrightarrow> own s k = {}) \<and>
     (\<forall>p. pc s p = Releasing RelEnter k \<or> pc s p = Releasing RelClear k \<longrightarrow> p \<in> own s k))"

text \<open>Who is about to sleep or sleeps has found the lock taken, or will be woken.\<close>

definition sl_wake :: "sleepst \<Rightarrow> bool" where
  "sl_wake s \<longleftrightarrow> (\<forall>k p.
     (pc s p = Acquiring AcqTake k \<longrightarrow> sl_locked (slocks s k) = 0) \<and>
     (pc s p = Sleeping SleepLock k \<or> pc s p = Sleeping SleepUnlock k \<longrightarrow> sl_locked (slocks s k) \<noteq> 0) \<and>
     (pc s p = Sleeping SleepSched k \<or> p < NPROC \<and> waits s k p \<longrightarrow> sl_locked (slocks s k) \<noteq> 0 \<or> waking s k))"

definition sl_inv :: "sleepst \<Rightarrow> bool" where
  "sl_inv s \<longleftrightarrow> sched_inv (spt s) \<and> sl_locks s \<and> sl_own s \<and> sl_wake s"

lemma sl_locksD:
  assumes "sl_locks s"
  shows "held (pc s p) \<noteq> [] \<Longrightarrow> \<exists>c. myproc c (spt s) = Some p"
    "myproc c (spt s) = Some p \<Longrightarrow> lkh s l = Some c \<longleftrightarrow> l \<in> set (held (pc s p))"
    "myproc c (spt s) = Some p \<Longrightarrow> cli s c = int (length (held (pc s p)))"
    "myproc c (spt s) = Some p \<Longrightarrow> \<not> switched_out (pc s p)"
    "myproc c (spt s) = None \<Longrightarrow> lkh s (Inner k) \<noteq> Some c"
    "myproc c (spt s) = None \<Longrightarrow> cli s c = (if lkh s Ptable = Some c then 1 else 0)"
  using assms unfolding sl_locks_def by (blast+)

lemma sched_inv_myproc: "sched_inv t \<Longrightarrow> myproc c t = Some p \<Longrightarrow> myproc d t = Some p \<Longrightarrow> c = d"
  by (auto simp: sched_inv_def cpu_inv_def myproc_def)

text \<open>Two processes never hold the same spin lock.\<close>

lemma held_exclusive:
  assumes "sl_locks s" "l \<in> set (held (pc s p))" "l \<in> set (held (pc s q))"
  shows "p = q"
proof -
  obtain c d where cd: "myproc c (spt s) = Some p" "myproc d (spt s) = Some q"
    using sl_locksD(1) [OF assms(1), of p] sl_locksD(1) [OF assms(1), of q] assms(2,3)
    by (metis empty_iff list.set(1))
  then have "lkh s l = Some c" "lkh s l = Some d" using sl_locksD(2) [OF assms(1)] assms(2,3) by auto
  then show ?thesis using cd by simp
qed

text \<open>One process moves, taking or giving back one spin lock or none.\<close>

lemma sl_locks_move:
  assumes i: "sl_locks s" "sched_inv (spt s)" "myproc c (spt s) = Some p"
    and m: "\<And>d. myproc d (spt s') = myproc d (spt s)" "pc s' = (pc s)(p := a)" "\<not> switched_out a"
    and k: "\<And>l d. lkh s' l = Some d \<longleftrightarrow> (if d = c then l \<in> set (held a) else lkh s l = Some d)"
      "cli s' = (cli s)(c := int (length (held a)))"
  shows "sl_locks s'"
proof -
  have other: "q \<noteq> p \<longleftrightarrow> d \<noteq> c" if "myproc d (spt s) = Some q" for d q
    using that i(3) sched_inv_myproc [OF i(2), of d p c] by auto
  show ?thesis unfolding sl_locks_def
  proof (intro conjI allI impI)
    fix q assume "held (pc s' q) \<noteq> []"
    then show "\<exists>d. myproc d (spt s') = Some q"
      using m i(3) sl_locksD(1) [OF i(1), of q] by (cases "q = p") auto
  next
    fix d q l assume "myproc d (spt s') = Some q"
    then have q: "myproc d (spt s) = Some q" using m(1) by simp
    note D = sl_locksD(2-4) [OF i(1) q]
    show "lkh s' l = Some d \<longleftrightarrow> l \<in> set (held (pc s' q))"
      using k(1) D(1) m(2) other [OF q] by (cases "d = c") simp_all
    show "cli s' d = int (length (held (pc s' q)))" using k(2) D(2) m(2) other [OF q] by (cases "d = c") simp_all
    show "\<not> switched_out (pc s' q)" using D(3) m(2,3) by simp
  next
    fix d k' assume q: "myproc d (spt s') = None"
    then have "d \<noteq> c" using m i(3) by auto
    then show "lkh s' (Inner k') \<noteq> Some d" "cli s' d = (if lkh s' Ptable = Some d then 1 else 0)"
      using q m k sl_locksD(5,6) [OF i(1), of d] by auto
  qed
qed

lemma sl_locks_acquire:
  assumes "sl_locks s" "sched_inv (spt s)" "myproc c (spt s) = Some p" "spin_acquire c l s = Ok s1"
    "\<not> switched_out a" "set (held a) = insert l (set (held (pc s p)))" "length (held a) = Suc (length (held (pc s p)))"
  shows "sl_locks (goto p a s1)"
proof -
  have "lkh s l = None" "s1 = s\<lparr>lkh := (lkh s)(l := Some c), cli := (cli s)(c := cli s c + 1)\<rparr>"
    using assms(4) by (auto simp: spin_acquire_def split: if_splits)
  then show ?thesis using assms(5-) sl_locksD(2,3) [OF assms(1,3)]
    by (intro sl_locks_move [OF assms(1-3)]) (auto simp: goto_def)
qed

lemma sl_locks_release:
  assumes "sl_locks s" "sched_inv (spt s)" "myproc c (spt s) = Some p" "spin_release c l s = Ok s1"
    "\<not> switched_out a" "set (held a) = set (held (pc s p)) - {l}" "Suc (length (held a)) = length (held (pc s p))"
  shows "sl_locks (goto p a s1)"
proof -
  have l: "lkh s l = Some c" and s1: "s1 = s\<lparr>lkh := (lkh s)(l := None), cli := (cli s)(c := cli s c - 1)\<rparr>"
    using assms(4) by (auto simp: spin_release_def split: if_splits)
  have "lkh s1 j = Some d \<longleftrightarrow> (if d = c then j \<in> set (held a) else lkh s j = Some d)" for j d
    using l sl_locksD(2) [OF assms(1,3), of j] unfolding s1 assms(6) by (cases "j = l") auto
  moreover have "cli s c - 1 = int (length (held a))"
    using sl_locksD(3) [OF assms(1,3)] unfolding assms(7) [symmetric] by simp
  ultimately show ?thesis using assms(5) s1 by (intro sl_locks_move [OF assms(1-3)]) (simp_all add: goto_def)
qed

lemma sl_locks_goto:
  assumes "sl_locks s" "sched_inv (spt s)" "myproc c (spt s) = Some p"
    and "\<And>d. myproc d (spt s') = myproc d (spt s)" "pc s' = (pc s)(p := a)" "lkh s' = lkh s" "cli s' = cli s"
    and "\<not> switched_out a" "held a = held (pc s p)"
  shows "sl_locks s'"
  using assms(4-) sl_locksD(2,3) [OF assms(1,3)] by (intro sl_locks_move [OF assms(1-3)]) auto


text \<open>What a move of one process has to keep.\<close>

lemma waking_move:
  assumes "waking s k" "pc s' = (pc s)(p := a)"
    and "pc s p = Releasing RelWake k \<or> pc s p = Releasing RelWaking k \<longrightarrow>
      a = Releasing RelWake k \<or> a = Releasing RelWaking k"
  shows "waking s' k"
proof -
  obtain q where "pc s q = Releasing RelWake k \<or> pc s q = Releasing RelWaking k" using assms(1) by (auto simp: waking_def)
  then show ?thesis using assms(2,3) unfolding waking_def by (intro exI [of _ q]) auto
qed

lemma sl_wakeD:
  assumes "sl_wake s"
  shows "pc s p = Acquiring AcqTake k \<Longrightarrow> sl_locked (slocks s k) = 0"
    "pc s p = Sleeping SleepLock k \<Longrightarrow> sl_locked (slocks s k) \<noteq> 0"
    "pc s p = Sleeping SleepUnlock k \<Longrightarrow> sl_locked (slocks s k) \<noteq> 0"
    "pc s p = Sleeping SleepSched k \<Longrightarrow> sl_locked (slocks s k) \<noteq> 0 \<or> waking s k"
    "p < NPROC \<Longrightarrow> waits s k p \<Longrightarrow> sl_locked (slocks s k) \<noteq> 0 \<or> waking s k"
  using assms unfolding sl_wake_def by blast+

lemma sl_wake_move:
  assumes w: "sl_wake s" and m: "pc s' = (pc s)(p := a)" "slocks s' = slocks s"
    and v: "\<And>k q. q < NPROC \<Longrightarrow> waits s' k q \<Longrightarrow> waits s k q \<or> sl_locked (slocks s k) \<noteq> 0 \<or> waking s k"
    and a: "\<And>k. a = Acquiring AcqTake k \<Longrightarrow> sl_locked (slocks s k) = 0"
      "\<And>k. a = Sleeping SleepLock k \<or> a = Sleeping SleepUnlock k \<or> a = Sleeping SleepSched k \<Longrightarrow> sl_locked (slocks s k) \<noteq> 0"
    and r: "\<And>k. pc s p = Releasing RelWake k \<or> pc s p = Releasing RelWaking k \<Longrightarrow>
      a = Releasing RelWake k \<or> a = Releasing RelWaking k"
  shows "sl_wake s'"
proof -
  have wk: "waking s k \<Longrightarrow> waking s' k" for k using waking_move [of s k s' p a] m(1) r by blast
  show ?thesis unfolding sl_wake_def
  proof (intro allI conjI impI)
    fix k q
    show "sl_locked (slocks s' k) = 0" if "pc s' q = Acquiring AcqTake k"
      using that m a(1) sl_wakeD(1) [OF w, of q k] by (cases "q = p") auto
    show "sl_locked (slocks s' k) \<noteq> 0" if "pc s' q = Sleeping SleepLock k \<or> pc s' q = Sleeping SleepUnlock k"
      using that m a(2) sl_wakeD(2,3) [OF w, of q k] by (cases "q = p") auto
    show "sl_locked (slocks s' k) \<noteq> 0 \<or> waking s' k"
      if "pc s' q = Sleeping SleepSched k \<or> q < NPROC \<and> waits s' k q"
    proof -
      have "sl_locked (slocks s k) \<noteq> 0 \<or> waking s k"
        using that m(1) a(2) v [of q k] sl_wakeD(4,5) [OF w, of q k] by (cases "q = p") auto
      then show ?thesis using wk m(2) by auto
    qed
  qed
qed

lemma sl_own_move:
  assumes w: "sl_own s" and m: "pc s' = (pc s)(p := a)" "slocks s' = slocks s" "own s' = own s" "misused s' = misused s"
    and a: "\<And>k. k \<notin> misused s \<Longrightarrow> a = Releasing RelEnter k \<or> a = Releasing RelClear k \<Longrightarrow> p \<in> own s k"
  shows "sl_own s'"
  using assms unfolding sl_own_def by auto

lemma waits_cong: "spt s' = spt s \<Longrightarrow> waits s' = waits s"
  by (simp add: waits_def fun_eq_iff)

lemma dozes_waits: "dozes (spt s) (spt s') \<Longrightarrow> waits s' k p \<Longrightarrow> waits s k p"
  by (auto simp: dozes_def waits_def)

lemma spin_frame:
  "spin_acquire c l s = Ok s1 \<Longrightarrow> spt s1 = spt s \<and> pc s1 = pc s \<and> slocks s1 = slocks s \<and> own s1 = own s \<and> misused s1 = misused s"
  "spin_release c l s = Ok s1 \<Longrightarrow> spt s1 = spt s \<and> pc s1 = pc s \<and> slocks s1 = slocks s \<and> own s1 = own s \<and> misused s1 = misused s"
  by (auto simp: spin_acquire_def spin_release_def split: if_splits)

lemma goto_simps [simp]:
  "pc (goto p a s) = (pc s)(p := a)" "spt (goto p a s) = spt s" "slocks (goto p a s) = slocks s" "own (goto p a s) = own s"
  "misused (goto p a s) = misused s" "lkh (goto p a s) = lkh s" "cli (goto p a s) = cli s"
  by (simp_all add: goto_def)

lemma upd_slock_simps [simp]:
  "pc (upd_slock k f s) = pc s" "spt (upd_slock k f s) = spt s" "slocks (upd_slock k f s) = (slocks s)(k := f (slocks s k))"
  "own (upd_slock k f s) = own s" "misused (upd_slock k f s) = misused s" "lkh (upd_slock k f s) = lkh s" "cli (upd_slock k f s) = cli s"
  by (simp_all add: upd_slock_def)

text \<open>The steps that take or give back a spin lock.\<close>

lemma sl_inv_acquire:
  assumes i: "sl_inv s" and c: "myproc c (spt s) = Some p" "spin_acquire c l s = Ok s1"
    and h: "\<not> switched_out a" "set (held a) = insert l (set (held (pc s p)))" "length (held a) = Suc (length (held (pc s p)))"
    and a: "\<And>k. a = Acquiring AcqTake k \<Longrightarrow> sl_locked (slocks s k) = 0"
      "\<And>k. a = Sleeping SleepLock k \<or> a = Sleeping SleepUnlock k \<or> a = Sleeping SleepSched k \<Longrightarrow> sl_locked (slocks s k) \<noteq> 0"
      "\<And>k. a = Releasing RelEnter k \<or> a = Releasing RelClear k \<Longrightarrow>
         pc s p = Releasing RelEnter k \<or> pc s p = Releasing RelClear k"
      "\<And>k. pc s p = Releasing RelWake k \<or> pc s p = Releasing RelWaking k \<Longrightarrow>
         a = Releasing RelWake k \<or> a = Releasing RelWaking k"
  shows "sl_inv (goto p a s1)"
proof -
  have i: "sched_inv (spt s)" "sl_locks s" "sl_own s" "sl_wake s" using i by (auto simp: sl_inv_def)
  note f = spin_frame(1) [OF c(2)]
  have "k \<notin> misused s \<Longrightarrow> a = Releasing RelEnter k \<or> a = Releasing RelClear k \<Longrightarrow> p \<in> own s k" for k
    using i(3) a(3) [of k] unfolding sl_own_def by blast
  then have "sl_own (goto p a s1)" using f by (intro sl_own_move [OF i(3), of _ p a]) auto
  moreover have "sl_wake (goto p a s1)" using f a waits_cong [of "goto p a s1" s] by (intro sl_wake_move [OF i(4), of _ p a]) auto
  ultimately show ?thesis using sl_locks_acquire [OF i(2,1) c h] i(1) f by (simp add: sl_inv_def)
qed

lemma sl_inv_release:
  assumes i: "sl_inv s" and c: "myproc c (spt s) = Some p" "spin_release c l s = Ok s1"
    and h: "\<not> switched_out a" "set (held a) = set (held (pc s p)) - {l}" "Suc (length (held a)) = length (held (pc s p))"
    and a: "\<And>k. a = Acquiring AcqTake k \<Longrightarrow> sl_locked (slocks s k) = 0"
      "\<And>k. a = Sleeping SleepLock k \<or> a = Sleeping SleepUnlock k \<or> a = Sleeping SleepSched k \<Longrightarrow> sl_locked (slocks s k) \<noteq> 0"
      "\<And>k. a \<noteq> Releasing RelEnter k \<and> a \<noteq> Releasing RelClear k"
      "\<And>k. pc s p \<noteq> Releasing RelWake k \<and> pc s p \<noteq> Releasing RelWaking k"
  shows "sl_inv (goto p a s1)"
proof -
  have i: "sched_inv (spt s)" "sl_locks s" "sl_own s" "sl_wake s" using i by (auto simp: sl_inv_def)
  note f = spin_frame(2) [OF c(2)]
  have "sl_own (goto p a s1)" using a(3) f by (intro sl_own_move [OF i(3), of _ p a]) auto
  moreover have "sl_wake (goto p a s1)" using f a waits_cong [of "goto p a s1" s] by (intro sl_wake_move [OF i(4), of _ p a]) auto
  ultimately show ?thesis using sl_locks_release [OF i(2,1) c h] i(1) f by (simp add: sl_inv_def)
qed


lemma sleep_at_sched:
  assumes "sleep_at c p k SleepSched s = Ok s'" "myproc c (spt s) = Some p"
  shows "\<exists>t. sleep c (ChSleeplock k) 1 (spt s) = Ok t \<and> s' = goto p (Sleeping SleepOut k) (s\<lparr>spt := t\<rparr>) \<and>
    procs t = (procs (spt s))(p := (procs (spt s) p)\<lparr>p_chan := Some (ChSleeplock k), p_state := SLEEPING\<rparr>) \<and>
    (\<forall>d. myproc d t = (if d = c then None else myproc d (spt s)))"
proof -
  let ?t = "upd_proc p (\<lambda>x. x\<lparr>p_chan := Some (ChSleeplock k), p_state := SLEEPING\<rparr>) (spt s)"
  have m: "myproc c ?t = Some p" using assms(2) by (simp add: myproc_def)
  then have "sched c ?t = Ok (sched_resume c ?t)" by (simp add: sched_def)
  then show ?thesis using assms m
    by (intro exI [of _ "sched_resume c ?t"])
       (auto simp: sleep_def Let_def sched_locked_def goto_def myproc_def split: if_splits)
qed

text \<open>The moves inside one critical section.\<close>

lemma sl_inv_stay:
  assumes i: "sl_inv s" and c: "myproc c (spt s) = Some p" and h: "\<not> switched_out a" "held a = held (pc s p)"
    and t: "sched_inv t" "\<And>d. myproc d t = myproc d (spt s)" "dozes (spt s) t"
    and a: "\<And>k. a = Acquiring AcqTake k \<Longrightarrow> sl_locked (slocks s k) = 0"
      "\<And>k. a = Sleeping SleepLock k \<or> a = Sleeping SleepUnlock k \<or> a = Sleeping SleepSched k \<Longrightarrow> sl_locked (slocks s k) \<noteq> 0"
      "\<And>k. a \<noteq> Releasing RelEnter k \<and> a \<noteq> Releasing RelClear k"
      "\<And>k. pc s p \<noteq> Releasing RelWake k \<and> pc s p \<noteq> Releasing RelWaking k"
  shows "sl_inv (goto p a (s\<lparr>spt := t\<rparr>))"
proof -
  have i: "sched_inv (spt s)" "sl_locks s" "sl_own s" "sl_wake s" using i by (auto simp: sl_inv_def)
  have "sl_own (goto p a (s\<lparr>spt := t\<rparr>))" using a(3) by (intro sl_own_move [OF i(3), of _ p a]) auto
  moreover have "sl_wake (goto p a (s\<lparr>spt := t\<rparr>))"
    using a dozes_waits [of s "goto p a (s\<lparr>spt := t\<rparr>)"] t(3) by (intro sl_wake_move [OF i(4), of _ p a]) auto
  moreover have "sl_locks (goto p a (s\<lparr>spt := t\<rparr>))" using t(2) h by (intro sl_locks_goto [OF i(2,1) c, of _ a]) auto
  ultimately show ?thesis using t(1) by (simp add: sl_inv_def)
qed

lemma acquiresleep_inv:
  assumes i: "sl_inv s" and c: "myproc c (spt s) = Some p" "pc s p = Acquiring a k" "acquiresleep c p k a s = Ok s'"
  shows "sl_inv s'"
proof (cases a)
  case AcqEnter
  then show ?thesis using c by (auto simp: bindo_Ok_iff intro!: sl_inv_acquire [OF i c(1)])
next
  case AcqTest
  have "sl_inv (goto p b (s\<lparr>spt := spt s\<rparr>))"
    if "b = (if sl_locked (slocks s k) = 0 then Acquiring AcqTake k else Sleeping SleepLock k)" for b
    using that c(2) AcqTest i by (intro sl_inv_stay [OF i c(1)]) (auto simp: sl_inv_def split: if_splits)
  then show ?thesis using c(3) AcqTest by (auto split: if_splits)
next
  case AcqTake
  have j: "sched_inv (spt s)" "sl_locks s" "sl_own s" "sl_wake s" using i by (auto simp: sl_inv_def)
  have l: "sl_locked (slocks s k) = 0" using sl_wakeD(1) [OF j(4)] c(2) AcqTake by simp
  have s': "pc s' = (pc s)(p := Acquiring AcqDone k)" "spt s' = spt s" "lkh s' = lkh s" "cli s' = cli s" "misused s' = misused s"
    "slocks s' = (slocks s)(k := (slocks s k)\<lparr>sl_locked := 1, sl_pid := p_pid (procs (spt s) p)\<rparr>)"
    "own s' = (own s)(k := insert p (own s k))"
    using c(3) AcqTake by auto
  have "sl_locks s'" using s' c AcqTake by (intro sl_locks_goto [OF j(2,1) c(1)]) auto
  moreover have "sl_own s'" using j(3) l unfolding sl_own_def s' by auto
  moreover have "sl_wake s'" unfolding sl_wake_def
  proof (intro allI conjI impI)
    fix n q
    have w: "waking s n \<Longrightarrow> waking s' n" using waking_move [OF _ s'(1)] c(2) by auto
    have x: "pc s q = Acquiring AcqTake n \<Longrightarrow> q = p" if "n = k"
      using held_exclusive [OF j(2), of "Inner k" q p] c(2) AcqTake that by simp
    show "sl_locked (slocks s' n) = 0" if "pc s' q = Acquiring AcqTake n"
      using that x sl_wakeD(1) [OF j(4), of q n] unfolding s' by (cases "q = p") auto
    show "sl_locked (slocks s' n) \<noteq> 0" if "pc s' q = Sleeping SleepLock n \<or> pc s' q = Sleeping SleepUnlock n"
      using that sl_wakeD(2,3) [OF j(4), of q n] unfolding s' by (auto split: if_splits)
    show "sl_locked (slocks s' n) \<noteq> 0 \<or> waking s' n" if "pc s' q = Sleeping SleepSched n \<or> q < NPROC \<and> waits s' n q"
      using that w sl_wakeD(4,5) [OF j(4), of q n] waits_cong [OF s'(2)] unfolding s' by (auto split: if_splits)
  qed
  ultimately show ?thesis using j(1) s'(2) by (simp add: sl_inv_def)
next
  case AcqDone
  then show ?thesis using c by (auto simp: bindo_Ok_iff intro!: sl_inv_release [OF i c(1)])
qed


lemma sleep_at_inv:
  assumes i: "sl_inv s" and c: "myproc c (spt s) = Some p" "pc s p = Sleeping a k" "sleep_at c p k a s = Ok s'"
  shows "sl_inv s'"
proof (cases a)
  case SleepLock
  have "sl_locked (slocks s k) \<noteq> 0" using sl_wakeD(2) [of s p k] i c(2) SleepLock by (simp add: sl_inv_def)
  then show ?thesis using SleepLock c by (auto simp: bindo_Ok_iff intro!: sl_inv_acquire [OF i c(1)])
next
  case SleepUnlock
  have "sl_locked (slocks s k) \<noteq> 0" using sl_wakeD(3) [of s p k] i c(2) SleepUnlock by (simp add: sl_inv_def)
  then show ?thesis using SleepUnlock c by (auto simp: bindo_Ok_iff intro!: sl_inv_release [OF i c(1)])
next
  case SleepSched
  have j: "sched_inv (spt s)" "sl_locks s" "sl_own s" "sl_wake s" using i by (auto simp: sl_inv_def)
  obtain t where t: "sleep c (ChSleeplock k) 1 (spt s) = Ok t" and s': "s' = goto p (Sleeping SleepOut k) (s\<lparr>spt := t\<rparr>)"
    and pr: "procs t = (procs (spt s))(p := (procs (spt s) p)\<lparr>p_chan := Some (ChSleeplock k), p_state := SLEEPING\<rparr>)"
    and m: "\<And>d. myproc d t = (if d = c then None else myproc d (spt s))"
    using sleep_at_sched [of c p k s s'] c SleepSched by blast
  have "sched_inv t" using sleep_correct [OF j(1) c(1), of 1 "ChSleeplock k"] t by auto
  moreover have "sl_locks s'" unfolding sl_locks_def
  proof (intro allI conjI impI)
    fix q assume q: "held (pc s' q) \<noteq> []"
    then have "q \<noteq> p" "held (pc s q) \<noteq> []" by (auto simp: s' split: if_splits)
    then obtain d where "myproc d (spt s) = Some q" using sl_locksD(1) [OF j(2), of q] by blast
    moreover from this have "d \<noteq> c" using c(1) \<open>q \<noteq> p\<close> by auto
    ultimately show "\<exists>d. myproc d (spt s') = Some q" using m by (intro exI [of _ d]) (simp add: s')
  next
    fix d q l assume q: "myproc d (spt s') = Some q"
    then have "myproc d (spt s) = Some q" "d \<noteq> c" using m by (auto simp: s' split: if_splits)
    moreover from this have "q \<noteq> p" using sched_inv_myproc [OF j(1) c(1)] by auto
    ultimately show "lkh s' l = Some d \<longleftrightarrow> l \<in> set (held (pc s' q))" "cli s' d = int (length (held (pc s' q)))" "\<not> switched_out (pc s' q)"
      using sl_locksD(2-4) [OF j(2), of d q] by (simp_all add: s')
  next
    fix d n assume d: "myproc d (spt s') = None"
    show "lkh s' (Inner n) \<noteq> Some d" "cli s' d = (if lkh s' Ptable = Some d then 1 else 0)"
      using d m sl_locksD(2,3) [OF j(2) c(1)] sl_locksD(5,6) [OF j(2), of d] c(2) SleepSched
      by (cases "d = c"; simp add: s')+
  qed
  moreover have "sl_own s'" using j(3) by (intro sl_own_move [OF j(3), of _ p]) (auto simp: s')
  moreover have "sl_wake s'"
    using sl_wakeD(4) [OF j(4), of p k] c(2) SleepSched
    by (intro sl_wake_move [OF j(4), of _ p "Sleeping SleepOut k"]) (auto simp: s' waits_def pr split: if_splits)
  ultimately show ?thesis by (simp add: sl_inv_def s')
next
  case SleepOut
  then show ?thesis using c(3) by simp
next
  case SleepTidy
  let ?t = "upd_proc p (\<lambda>x. x\<lparr>p_chan := None\<rparr>) (spt s)"
  have j: "sched_inv (spt s)" "sl_locks s" using i by (auto simp: sl_inv_def)
  have r: "p < NPROC" "p_state (procs (spt s) p) = RUNNING" using cpu_invD [of "spt s" c p] c(1) j(1) by (auto simp: sched_inv_def)
  have "sched_inv ?t" using j(1) r sched_inv_ok [OF j(1) r(1)] by (intro sched_inv_upd) (auto simp: proc_ok_def)
  moreover have "dozes (spt s) ?t" using r by (intro dozes_upd_proc) simp
  ultimately have "sl_inv (goto p (Sleeping SleepUnpt k) (s\<lparr>spt := ?t\<rparr>))"
    using c(2) SleepTidy by (intro sl_inv_stay [OF i c(1)]) (auto simp: myproc_def)
  then show ?thesis using c(3) SleepTidy by simp
next
  case SleepUnpt
  then show ?thesis using c by (auto simp: bindo_Ok_iff intro!: sl_inv_release [OF i c(1)])
next
  case SleepRelock
  then show ?thesis using c by (auto simp: bindo_Ok_iff intro!: sl_inv_acquire [OF i c(1)])
qed

text \<open>\<^verbatim>\<open>wakeup1\<close> on a sleeping lock succeeds, and afterwards no process sleeps on it.\<close>

lemma wakeup_sleeplock:
  assumes "sched_inv (spt s)"
  shows "\<exists>t. wakeup1 (Some (ChSleeplock k)) (spt s) = Ok t \<and> sched_inv t \<and> dozes (spt s) t \<and> cpus t = cpus (spt s) \<and>
    (\<forall>p<NPROC. \<not> (p_state (procs t p) = SLEEPING \<and> p_chan (procs t p) = Some (ChSleeplock k)) \<and>
      (waits s k p \<longrightarrow> p_state (procs t p) = RUNNABLE \<and> queued t p))"
proof -
  obtain t where t: "wakeup1 (Some (ChSleeplock k)) (spt s) = Ok t" "sched_inv t" "cpus t = cpus (spt s)"
      "\<forall>x. p_state (procs t x) = woken_state (spt s) (Some (ChSleeplock k)) [0..<NPROC] x"
    using wakeup1_correct [OF assms, of "Some (ChSleeplock k)"] by blast
  note d = wakeup1_dozes [OF t(1)]
  have "\<not> (p_state (procs t p) = SLEEPING \<and> p_chan (procs t p) = Some (ChSleeplock k))" if "p < NPROC" for p
  proof
    assume a: "p_state (procs t p) = SLEEPING \<and> p_chan (procs t p) = Some (ChSleeplock k)"
    then have "p_state (procs (spt s) p) = SLEEPING" "p_chan (procs (spt s) p) = Some (ChSleeplock k)"
      using d unfolding dozes_def by metis+
    then have "p \<in> set (sleepers (spt s) (Some (ChSleeplock k)) [0..<NPROC])" using that by (simp add: sleepers_def)
    then show False using a t(4) by (simp add: woken_state_def)
  qed
  moreover have "p_state (procs t p) = RUNNABLE \<and> queued t p" if "p < NPROC" "waits s k p" for p
    using that t(4) queued_wakeup [OF assms t(1)] by (auto simp: waits_def woken_state_def sleepers_def)
  ultimately show ?thesis using t d by blast
qed

lemma releasesleep_inv:
  assumes i: "sl_inv s" and c: "myproc c (spt s) = Some p" "pc s p = Releasing a k" "releasesleep c p k a s = Ok s'"
  shows "sl_inv s'"
proof (cases a)
  case RelEnter
  then show ?thesis using c by (auto simp: bindo_Ok_iff intro!: sl_inv_acquire [OF i c(1)])
next
  case RelClear
  have j: "sched_inv (spt s)" "sl_locks s" "sl_own s" "sl_wake s" using i by (auto simp: sl_inv_def)
  have s': "pc s' = (pc s)(p := Releasing RelWake k)" "spt s' = spt s" "lkh s' = lkh s" "cli s' = cli s" "misused s' = misused s"
    "slocks s' = (slocks s)(k := (slocks s k)\<lparr>sl_locked := 0, sl_pid := 0\<rparr>)" "own s' = (own s)(k := own s k - {p})"
    using c(3) RelClear by auto
  have "sl_locks s'" using s' c RelClear by (intro sl_locks_goto [OF j(2,1) c(1)]) auto
  moreover have "sl_own s'" unfolding sl_own_def
  proof (intro allI impI)
    fix n assume n: "n \<notin> misused s'"
    have own: "n = k \<Longrightarrow> own s k = {p}" using j(3) n c(2) RelClear unfolding sl_own_def s'(5) by blast
    have old: "(\<forall>p\<in>own s n. \<forall>q\<in>own s n. p = q) \<and> (sl_locked (slocks s n) = 0 \<longleftrightarrow> own s n = {}) \<and>
      (\<forall>p. pc s p = Releasing RelEnter n \<or> pc s p = Releasing RelClear n \<longrightarrow> p \<in> own s n)"
      using j(3) n unfolding sl_own_def s'(5) by blast
    show "(\<forall>p\<in>own s' n. \<forall>q\<in>own s' n. p = q) \<and> (sl_locked (slocks s' n) = 0 \<longleftrightarrow> own s' n = {}) \<and>
      (\<forall>p. pc s' p = Releasing RelEnter n \<or> pc s' p = Releasing RelClear n \<longrightarrow> p \<in> own s' n)"
      using old own unfolding s' by (cases "n = k") auto
  qed
  moreover have "sl_wake s'" unfolding sl_wake_def
  proof (intro allI conjI impI)
    fix n q
    have w: "waking s n \<or> n = k \<Longrightarrow> waking s' n"
    proof (cases "n = k")
      case True
      then show "waking s' n" unfolding waking_def s' by (intro exI [of _ p]) simp
    next
      case False
      assume "waking s n \<or> n = k"
      then show "waking s' n" using False waking_move [OF _ s'(1)] c(2) RelClear by simp
    qed
    have x: "q = p" if "pc s q = Sleeping SleepLock k \<or> pc s q = Sleeping SleepUnlock k"
      using held_exclusive [OF j(2), of "Inner k" q p] c(2) RelClear that by auto
    show "sl_locked (slocks s' n) = 0" if "pc s' q = Acquiring AcqTake n"
      using that sl_wakeD(1) [OF j(4), of q n] unfolding s' by (auto split: if_splits)
    show "sl_locked (slocks s' n) \<noteq> 0" if "pc s' q = Sleeping SleepLock n \<or> pc s' q = Sleeping SleepUnlock n"
      using that x sl_wakeD(2,3) [OF j(4), of q n] unfolding s' by (auto split: if_splits)
    show "sl_locked (slocks s' n) \<noteq> 0 \<or> waking s' n" if "pc s' q = Sleeping SleepSched n \<or> q < NPROC \<and> waits s' n q"
      using that w sl_wakeD(4,5) [OF j(4), of q n] waits_cong [OF s'(2)] unfolding s' by (auto split: if_splits)
  qed
  ultimately show ?thesis using j(1) s'(2) by (simp add: sl_inv_def)
next
  case RelWake
  then show ?thesis using c by (auto simp: bindo_Ok_iff intro!: sl_inv_acquire [OF i c(1)])
next
  case RelWaking
  have j: "sched_inv (spt s)" "sl_locks s" "sl_own s" "sl_wake s" using i by (auto simp: sl_inv_def)
  obtain t where t: "wakeup1 (Some (ChSleeplock k)) (spt s) = Ok t" "sched_inv t" "dozes (spt s) t" "cpus t = cpus (spt s)"
    "\<And>p. p < NPROC \<Longrightarrow> \<not> (p_state (procs t p) = SLEEPING \<and> p_chan (procs t p) = Some (ChSleeplock k))"
    using wakeup_sleeplock [OF j(1), of k] by blast
  have s': "s' = goto p (Releasing RelWoken k) (s\<lparr>spt := t\<rparr>)" using c(3) RelWaking t(1) by simp
  have "sl_locks s'" using s' c RelWaking t(4) by (intro sl_locks_goto [OF j(2,1) c(1)]) (auto simp: myproc_def)
  moreover have "sl_own s'" using j(3) by (intro sl_own_move [OF j(3), of _ p]) (auto simp: s')
  moreover have "sl_wake s'" unfolding sl_wake_def
  proof (intro allI conjI impI)
    fix n q
    have w: "waking s n \<Longrightarrow> n \<noteq> k \<Longrightarrow> waking s' n" using waking_move [of s n s' p] s' c(2) RelWaking by simp
    have x: "q = p" if "pc s q = Sleeping SleepSched k"
      using held_exclusive [OF j(2), of Ptable q p] c(2) RelWaking that by auto
    have y: "waits s n q \<and> n \<noteq> k" if "q < NPROC" "waits s' n q"
      using that t(5) [of q] dozes_waits [of s s' n q] t(3) by (auto simp: waits_def s')
    show "sl_locked (slocks s' n) = 0" if "pc s' q = Acquiring AcqTake n"
      using that sl_wakeD(1) [OF j(4), of q n] unfolding s' by (auto split: if_splits)
    show "sl_locked (slocks s' n) \<noteq> 0" if "pc s' q = Sleeping SleepLock n \<or> pc s' q = Sleeping SleepUnlock n"
      using that sl_wakeD(2,3) [OF j(4), of q n] unfolding s' by (auto split: if_splits)
    show "sl_locked (slocks s' n) \<noteq> 0 \<or> waking s' n" if "pc s' q = Sleeping SleepSched n \<or> q < NPROC \<and> waits s' n q"
    proof (cases "q < NPROC \<and> waits s' n q")
      case True
      then show ?thesis using y w sl_wakeD(5) [OF j(4), of q n] by (auto simp: s')
    next
      case False
      then have "pc s q = Sleeping SleepSched n" "q \<noteq> p" using that by (auto simp: s' split: if_splits)
      then show ?thesis using x w sl_wakeD(4) [OF j(4), of q n] by (cases "n = k") (auto simp: s')
    qed
  qed
  ultimately show ?thesis using t(2) by (simp add: sl_inv_def s')
next
  case RelWoken
  then show ?thesis using c by (auto simp: bindo_Ok_iff intro!: sl_inv_release [OF i c(1)])
next
  case RelDone
  then show ?thesis using c by (auto simp: bindo_Ok_iff intro!: sl_inv_release [OF i c(1)])
qed


lemma sl_exec_inv:
  assumes "sl_inv s" "myproc c (spt s) = Some p" "sl_exec c p s = Ok s'"
  shows "sl_inv s'"
proof (cases "pc s p")
  case Away
  then show ?thesis using assms(1,3) by (simp add: sl_exec_def)
next
  case (Acquiring a k)
  then have "acquiresleep c p k a s = Ok s'" using assms(3) by (simp add: sl_exec_def)
  then show ?thesis by (rule acquiresleep_inv [OF assms(1,2) Acquiring])
next
  case (Sleeping a k)
  then have "sleep_at c p k a s = Ok s'" using assms(3) by (simp add: sl_exec_def)
  then show ?thesis by (rule sleep_at_inv [OF assms(1,2) Sleeping])
next
  case (Releasing a k)
  then have "releasesleep c p k a s = Ok s'" using assms(3) by (simp add: sl_exec_def)
  then show ?thesis by (rule releasesleep_inv [OF assms(1,2) Releasing])
qed

section \<open>The steps of the rest of the kernel\<close>

text \<open>Which CPUs get or lose a process.\<close>

lemma sched_myproc: "sched c t = Ok t' \<Longrightarrow> myproc d t' = (if d = c then None else myproc d t)"
  by (auto simp: sched_def myproc_def split: option.splits if_splits)

lemma wakeup1_cpus: "sched_inv t \<Longrightarrow> wakeup1 ch t = Ok t' \<Longrightarrow> cpus t' = cpus t"
  using wakeup1_correct [of t ch] by auto

lemma sched_step_cpus:
  assumes "sched_step l t t'" "sched_inv t" "myproc d t' \<noteq> myproc d t"
  shows "(l = Yield d \<or> l = Tick d \<or> l = Exit d \<or> (\<exists>ch. l = Sleep d ch)) \<and> myproc d t' = None \<and> (\<exists>p. myproc d t = Some p) \<or>
    (\<exists>p. l = Pick d (Some p) \<and> myproc d t = None \<and> myproc d t' = Some p \<and> p_state (procs t p) = RUNNABLE)"
  using assms
proof (induction rule: sched_step.induct)
  case (alloc s r s')
  then show ?case by (auto simp: allocproc_slot_def myproc_def split: option.splits)
next
  case (start p s s')
  then show ?case using make_runnable_correct [of s p] by (auto simp: myproc_def)
next
  case (pick c s r s')
  then have i: "runq_inv s" "procs_ok s" by (auto simp: sched_inv_def)
  show ?case
  proof (cases "top_queue (qabs s) NPROCQ")
    case None
    then show ?thesis using pick i by (simp add: scheduler_def sched_loop_correct)
  next
    case (Some q)
    then have s': "s' = pick c q s" "r = Some (hd (qabs s q))" using pick(2) i by (simp_all add: scheduler_def sched_loop_correct)
    have "q < NPROCQ" "qabs s q \<noteq> []" using top_queue_Some [OF Some] by auto
    then have "p_state (procs s (hd (qabs s q))) = RUNNABLE" using runq_invD(3) [OF i(1), of q "hd (qabs s q)"] by auto
    then show ?thesis using pick(1,4) s' by (auto simp: myproc_def pick_simps split: if_splits)
  qed
next
  case (yield c s p s')
  then show ?case using yield_correct [OF yield(3,1)] by (auto simp: myproc_def Let_def split: if_splits)
next
  case (sleep c s p ch lk s')
  then have "lk \<noteq> 0" by (auto simp: sleep_def)
  then show ?case using sleep sleep_correct [of s c p lk ch] by (auto simp: myproc_def split: if_splits)
next
  case (resume c s p s')
  then show ?case by (auto simp: sleep_resume_def myproc_def)
next
  case (wakeup ch s s')
  then show ?case using wakeup1_cpus [OF wakeup(2)] by (simp add: wakeup_def myproc_def)
next
  case (exit c s p s')
  then show ?case using exit_locked_correct [OF exit(3,1)] by (auto simp: myproc_def split: if_splits)
next
  case (tick c s s')
  show ?case
  proof (cases "myproc c s")
    case None
    then show ?thesis using tick by (auto simp: timer_tick_idle myproc_def split: if_splits)
  next
    case (Some p)
    then have "p_state (procs s p) = RUNNING" using tick(2) cpu_invD by (auto simp: sched_inv_def)
    then show ?thesis
      using tick Some tick_state_inv(1) [OF tick(2) Some] yield_correct [of "tick_state c p s" c p]
      by (auto simp: timer_tick_running myproc_def Let_def split: if_splits)
  qed
qed (auto simp: allocproc_init_def myproc_def reap_def kill_def kill_loop_eq split: option.splits)

lemma sl_locks_cpus:
  assumes i: "sl_locks s" and e: "pc s' = pc s" "lkh s' = lkh s" "cli s' = cli s" "lkh s Ptable = None"
    and d: "\<And>d. myproc d (spt s') = myproc d (spt s) \<or>
      (\<exists>p. myproc d (spt s) = Some p \<and> held (pc s p) = [] \<and> myproc d (spt s') = None) \<or>
      (\<exists>p. myproc d (spt s) = None \<and> myproc d (spt s') = Some p \<and> (\<forall>e. myproc e (spt s) \<noteq> Some p) \<and> \<not> switched_out (pc s p))"
  shows "sl_locks s'"
  unfolding sl_locks_def e(1-3)
proof (intro allI conjI impI)
  fix p assume p: "held (pc s p) \<noteq> []"
  then obtain c where "myproc c (spt s) = Some p" using sl_locksD(1) [OF i] by blast
  then show "\<exists>c. myproc c (spt s') = Some p" using d [of c] p by auto
next
  fix c p l assume p: "myproc c (spt s') = Some p"
  have h: "held (pc s p) = []" if "\<forall>e. myproc e (spt s) \<noteq> Some p" using sl_locksD(1) [OF i, of p] that by blast
  show "lkh s l = Some c \<longleftrightarrow> l \<in> set (held (pc s p))"
    using d [of c] p h sl_locksD(2) [OF i, of c p l] sl_locksD(5) [OF i, of c] e(4) by (cases l) auto
  show "cli s c = int (length (held (pc s p)))"
    using d [of c] p h sl_locksD(3) [OF i, of c p] sl_locksD(6) [OF i, of c] e(4) by auto
  show "\<not> switched_out (pc s p)" using d [of c] p sl_locksD(4) [OF i, of c p] by auto
next
  fix c k assume c: "myproc c (spt s') = None"
  show "lkh s (Inner k) \<noteq> Some c" "cli s c = (if lkh s Ptable = Some c then 1 else 0)"
    using d [of c] c sl_locksD(2,3) [OF i, of c] sl_locksD(5,6) [OF i, of c] e(4) by auto
qed


lemma sl_wake_same:
  assumes "sl_wake s" "pc s' = pc s" "slocks s' = slocks s" "\<And>k q. waits s' k q \<Longrightarrow> waits s k q"
  shows "sl_wake s'"
proof -
  have "waking s' = waking s" using assms(2) by (simp add: waking_def fun_eq_iff)
  then show ?thesis using assms unfolding sl_wake_def by metis
qed

lemma sl_own_same:
  "sl_own s \<Longrightarrow> pc s' = pc s \<Longrightarrow> slocks s' = slocks s \<Longrightarrow> own s' = own s \<Longrightarrow> misused s' = misused s \<Longrightarrow> sl_own s'"
  by (simp add: sl_own_def)

lemma pick_step_cpus:
  assumes "sched_step (Pick c (Some p)) t t'" "sched_inv t"
  shows "myproc c t = None" "myproc d t' = (if d = c then Some p else myproc d t)" "myproc d t \<noteq> Some p" "dozes t t'"
proof -
  have i: "runq_inv t" "procs_ok t" using assms(2) by (auto simp: sched_inv_def)
  have c: "myproc c t = None" "scheduler c t = Ok (Some p, t')" using assms(1) by (auto elim: sched_step.cases)
  then obtain q where q: "top_queue (qabs t) NPROCQ = Some q" "p = hd (qabs t q)" "t' = pick c q t"
    using i by (auto simp: scheduler_def sched_loop_correct split: option.splits)
  have "q < NPROCQ" "qabs t q \<noteq> []" using top_queue_Some [OF q(1)] by auto
  then have "p_state (procs t p) = RUNNABLE" using runq_invD(3) [OF i(1), of q p] q(2) by auto
  then show "myproc d t \<noteq> Some p" using assms(2) by (auto simp: sched_inv_def cpu_inv_def myproc_def)
  show "myproc c t = None" by (rule c)
  show "myproc d t' = (if d = c then Some p else myproc d t)" using q(2,3) by (simp add: myproc_def pick_simps)
  show "dozes t t'" using sched_step_dozes [OF assms(1) _ _ assms(2)] by blast
qed

lemma sl_other_waits:
  assumes "sched_step l (spt s) t" "sl_other s l" "sched_inv (spt s)" "waits (s\<lparr>spt := t\<rparr>) k q"
  shows "waits s k q"
proof (cases "\<exists>c ch. l = Sleep c ch")
  case False
  then have "dozes (spt s) t" using sched_step_dozes [OF assms(1) _ _ assms(3)] assms(2) by fastforce
  then show ?thesis using dozes_waits [of s "s\<lparr>spt := t\<rparr>"] assms(4) by simp
next
  case True
  then obtain c ch where l: "l = Sleep c ch" "\<not> sl_chan ch" using assms(2) by auto
  obtain lk p where "sleep c ch lk (spt s) = Ok t" "myproc c (spt s) = Some p" using assms(1) l(1) by (auto elim: sched_step.cases)
  then have "procs t x = (if x = p then (procs (spt s) p)\<lparr>p_chan := Some ch, p_state := SLEEPING\<rparr> else procs (spt s) x)" for x
    by (auto simp: sleep_def sched_def sched_resume_def switchkvm_def upd_cpu_def upd_proc_def split: option.splits if_splits)
  then show ?thesis using l(2) assms(4) by (auto simp: waits_def split: if_splits)
qed

lemma sl_other_locks:
  assumes "sched_step l (spt s) t" "sl_other s l" "sched_inv (spt s)" "sl_locks s" "lkh s Ptable = None"
  shows "sl_locks (s\<lparr>spt := t\<rparr>)"
proof (rule sl_locks_cpus [OF assms(4)])
  fix d
  show "myproc d (spt (s\<lparr>spt := t\<rparr>)) = myproc d (spt s) \<or>
      (\<exists>p. myproc d (spt s) = Some p \<and> held (pc s p) = [] \<and> myproc d (spt (s\<lparr>spt := t\<rparr>)) = None) \<or>
      (\<exists>p. myproc d (spt s) = None \<and> myproc d (spt (s\<lparr>spt := t\<rparr>)) = Some p \<and> (\<forall>e. myproc e (spt s) \<noteq> Some p) \<and>
         \<not> switched_out (pc s p))"
  proof (cases "myproc d t = myproc d (spt s)")
    case False
    from sched_step_cpus [OF assms(1,3) False] show ?thesis
    proof (elim disjE conjE exE)
      fix p assume "l = Pick d (Some p)" "myproc d (spt s) = None" "myproc d t = Some p"
      then show ?thesis using pick_step_cpus(3) [of d p "spt s" t] assms(1-3) by auto
    qed (use assms(2) sl_locksD(3) [OF assms(4), of d] in \<open>auto simp: cpu_away_def\<close>)
  qed simp
qed (use assms(5) in simp_all)

lemma sl_step_inv:
  assumes "sl_step s s'" "sl_inv s"
  shows "sl_inv s'"
  using assms
proof (induction rule: sl_step.induct)
  case (sl_run c s p s')
  then show ?case by (intro sl_exec_inv [of s c p s'])
next
  case (sl_acquire c s p k)
  have "sl_inv (goto p (Acquiring AcqEnter k) (s\<lparr>spt := spt s\<rparr>))"
    using sl_acquire by (intro sl_inv_stay [OF sl_acquire(3,1)]) (auto simp: sl_inv_def)
  then show ?case by simp
next
  case (sl_release c s p k)
  have j: "sched_inv (spt s)" "sl_locks s" "sl_own s" "sl_wake s" using sl_release(3) by (auto simp: sl_inv_def)
  let ?s = "(goto p (Releasing RelEnter k) s)\<lparr>misused := (if p \<in> own s k then misused s else insert k (misused s))\<rparr>"
  have "sl_locks ?s" using sl_release(2) by (intro sl_locks_goto [OF j(2,1) sl_release(1), of _ "Releasing RelEnter k"]) auto
  moreover have "sl_own ?s" using j(3) unfolding sl_own_def by auto
  moreover have "sl_wake ?s"
    using sl_release(2) by (intro sl_wake_move [OF j(4), of _ p "Releasing RelEnter k"]) (auto simp: waits_def)
  ultimately show ?case using j(1) by (simp add: sl_inv_def)
next
  case (sl_back c s s')
  have j: "sched_inv (spt s)" "sl_locks s" "sl_own s" "sl_wake s" using sl_back(4) by (auto simp: sl_inv_def)
  note f = spin_frame(2) [OF sl_back(3)]
  have s': "lkh s' = (lkh s)(Ptable := None)" "cli s' = (cli s)(c := cli s c - 1)"
    using sl_back(3) by (auto simp: spin_release_def split: if_splits)
  have n: "d \<noteq> c" "lkh s Ptable \<noteq> Some d" if "myproc d (spt s) = Some p" for d p using that sl_back(1,2) by auto
  have "sl_locks s'" unfolding sl_locks_def
  proof (intro allI conjI impI)
    fix p assume "held (pc s' p) \<noteq> []"
    then show "\<exists>d. myproc d (spt s') = Some p" using f sl_locksD(1) [OF j(2), of p] by simp
  next
    fix d p l assume "myproc d (spt s') = Some p"
    then have q: "myproc d (spt s) = Some p" using f by simp
    note D = sl_locksD(2-4) [OF j(2) q]
    show "lkh s' l = Some d \<longleftrightarrow> l \<in> set (held (pc s' p))" using f s'(1) D(1) [of l] n(2) [OF q] by (cases l) auto
    show "cli s' d = int (length (held (pc s' p)))" "\<not> switched_out (pc s' p)" using f s'(2) D(2,3) n(1) [OF q] by simp_all
  next
    fix d k assume "myproc d (spt s') = None"
    then show "lkh s' (Inner k) \<noteq> Some d" "cli s' d = (if lkh s' Ptable = Some d then 1 else 0)"
      using f s' sl_locksD(5,6) [OF j(2), of d] sl_back(2) by auto
  qed
  moreover have "sl_own s'" using f by (intro sl_own_same [OF j(3)]) auto
  moreover have "sl_wake s'" using f waits_cong [of s' s] by (intro sl_wake_same [OF j(4)]) auto
  ultimately show ?case using j(1) f by (simp add: sl_inv_def)
next
  case (sl_pick c s s1 p t k)
  have j: "sched_inv (spt s)" "sl_locks s" "sl_own s" "sl_wake s" using sl_pick(4) by (auto simp: sl_inv_def)
  note f = spin_frame(1) [OF sl_pick(1)] and P = pick_step_cpus [OF sl_pick(2) j(1)]
  have s1: "lkh s1 = (lkh s)(Ptable := Some c)" "cli s1 = (cli s)(c := cli s c + 1)" "lkh s Ptable = None"
    using sl_pick(1) by (auto simp: spin_acquire_def split: if_splits)
  let ?s = "goto p (Sleeping SleepTidy k) (s1\<lparr>spt := t\<rparr>)"
  have "sl_locks ?s" unfolding sl_locks_def
  proof (intro allI conjI impI)
    fix q assume q: "held (pc ?s q) \<noteq> []"
    show "\<exists>d. myproc d (spt ?s) = Some q"
    proof (cases "q = p")
      case True
      then show ?thesis using P(2) by (intro exI [of _ c]) simp
    next
      case False
      then obtain d where "myproc d (spt s) = Some q" using q f sl_locksD(1) [OF j(2), of q] by auto
      then show ?thesis using P(1,2) by (intro exI [of _ d]) auto
    qed
  next
    fix d q l assume "myproc d (spt ?s) = Some q"
    then have q: "d = c \<and> q = p \<or> d \<noteq> c \<and> q \<noteq> p \<and> myproc d (spt s) = Some q"
      using P(2) [of d] P(3) [of d] by (auto split: if_splits)
    then show "lkh ?s l = Some d \<longleftrightarrow> l \<in> set (held (pc ?s q))"
      using f s1(1,3) sl_locksD(2) [OF j(2), of d q l] sl_locksD(5) [OF j(2) P(1)] by (cases l) auto
    show "cli ?s d = int (length (held (pc ?s q)))" "\<not> switched_out (pc ?s q)"
      using q f s1 sl_locksD(3,4) [OF j(2), of d q] sl_locksD(6) [OF j(2) P(1)] by auto
  next
    fix d n assume "myproc d (spt ?s) = None"
    then have "d \<noteq> c" "myproc d (spt s) = None" using P(2) [of d] by (auto split: if_splits)
    then show "lkh ?s (Inner n) \<noteq> Some d" "cli ?s d = (if lkh ?s Ptable = Some d then 1 else 0)"
      using s1 sl_locksD(5,6) [OF j(2), of d] by auto
  qed
  moreover have "sched_inv t" using sched_step_inv [OF sl_pick(2) j(1)] .
  moreover have "sl_own ?s" using f by (intro sl_own_move [OF j(3), of _ p "Sleeping SleepTidy k"]) auto
  moreover have "sl_wake ?s"
    using f sl_pick(3) dozes_waits [of s ?s] P(4) by (intro sl_wake_move [OF j(4), of _ p "Sleeping SleepTidy k"]) auto
  ultimately show ?case by (simp add: sl_inv_def)
next
  case (sl_sched s l t)
  have j: "sched_inv (spt s)" "sl_locks s" "sl_own s" "sl_wake s" using sl_sched(4) by (auto simp: sl_inv_def)
  have "sl_wake (s\<lparr>spt := t\<rparr>)" using sl_other_waits [OF sl_sched(2,3) j(1)] by (intro sl_wake_same [OF j(4)]) auto
  moreover have "sl_own (s\<lparr>spt := t\<rparr>)" by (intro sl_own_same [OF j(3)]) auto
  ultimately show ?case
    using sl_other_locks [OF sl_sched(2,3) j(1,2) sl_sched(1)] sched_step_inv [OF sl_sched(2) j(1)] by (simp add: sl_inv_def)
next
  case (sl_local s p f)
  have j: "sched_inv (spt s)" "sl_locks s" "sl_own s" "sl_wake s" using sl_local(4) by (auto simp: sl_inv_def)
  let ?s = "s\<lparr>spt := upd_proc p f (spt s)\<rparr>"
  have "sched_step (Local p) (spt s) (upd_proc p f (spt s))" using sl_local(1,2) by (rule sched_step.local)
  then have "sched_inv (spt ?s)" using sched_step_inv j(1) by simp
  moreover have "sl_locks ?s" using j(2) by (simp add: sl_locks_def myproc_def)
  moreover have "sl_own ?s" by (intro sl_own_same [OF j(3)]) auto
  moreover have "sl_wake ?s"
    using sl_local(1,3) by (intro sl_wake_same [OF j(4)]) (auto simp: waits_def keeps_sched_def split: if_splits)
  ultimately show ?case by (simp add: sl_inv_def)
qed

lemma sl_reach_inv: "sl_step\<^sup>*\<^sup>* sl_boot s \<Longrightarrow> sl_inv s"
proof (induction rule: rtranclp_induct)
  case base
  show ?case
    by (simp add: sl_inv_def boot_inv sl_locks_def sl_own_def sl_wake_def sl_boot_def waits_def)
       (simp add: boot_def myproc_def)
qed (rule sl_step_inv)


section \<open>What a sleeping lock promises\<close>

lemma spin_acquire_ok: "lkh s l \<noteq> Some c \<Longrightarrow> spin_acquire c l s = Wait \<or> (\<exists>s'. spin_acquire c l s = Ok s')"
  by (simp add: spin_acquire_def)

lemma spin_release_ok: "lkh s l = Some c \<Longrightarrow> 0 < cli s c \<Longrightarrow> \<exists>s'. spin_release c l s = Ok s'"
  by (simp add: spin_release_def)

text \<open>No step panics, and the CPU that holds \<^verbatim>\<open>ptable.lock\<close> never waits.\<close>

lemma sl_exec_ok:
  assumes "sl_inv s" "myproc c (spt s) = Some p"
  shows "(\<exists>s'. sl_exec c p s = Ok s') \<or> sl_exec c p s = Wait \<and> lkh s Ptable \<noteq> Some c"
proof -
  have j: "sched_inv (spt s)" "sl_locks s" using assms(1) by (auto simp: sl_inv_def)
  note D = sl_locksD(2-4) [OF j(2) assms(2)]
  have A: "spin_acquire c l s = Wait \<or> (\<exists>s'. spin_acquire c l s = Ok s')" if "l \<notin> set (held (pc s p))" for l
    using that D(1) by (intro spin_acquire_ok) auto
  have R: "\<exists>s'. spin_release c l s = Ok s'" if "l \<in> set (held (pc s p))" for l
    using that D(1,2) by (intro spin_release_ok) (auto simp: length_pos_if_in_set)
  show ?thesis
  proof (cases "pc s p")
    case Away
    then show ?thesis by (simp add: sl_exec_def)
  next
    case (Acquiring a k)
    then show ?thesis using A [of "Inner k"] R [of "Inner k"] D(1) [of Ptable]
      by (cases a) (auto simp: sl_exec_def)
  next
    case (Releasing a k)
    then show ?thesis using A [of "Inner k"] A [of Ptable] R [of "Inner k"] R [of Ptable] D(1) [of Ptable]
        wakeup_sleeplock [OF j(1), of k]
      by (cases a) (auto simp: sl_exec_def)
  next
    case (Sleeping a k)
    show ?thesis
    proof (cases "a = SleepSched")
      case True
      let ?t = "upd_proc p (\<lambda>x. x\<lparr>p_chan := Some (ChSleeplock k), p_state := SLEEPING\<rparr>) (spt s)"
      have "sched c ?t = Ok (sched_resume c ?t)" using assms(2) by (simp add: sched_def myproc_def)
      moreover have "lkh s Ptable = Some c" "cli s c = 1" using D(1,2) Sleeping True by simp_all
      ultimately show ?thesis using Sleeping True by (simp add: sl_exec_def sched_locked_def)
    next
      case False
      then show ?thesis using Sleeping A [of "Inner k"] A [of Ptable] R [of "Inner k"] R [of Ptable] D(1) [of Ptable] D(3)
        by (cases a) (auto simp: sl_exec_def)
    qed
  qed
qed

text \<open>C5: no wakeup is lost on a sleeping lock, whatever the interleaving of the code of \<^verbatim>\<open>acquiresleep\<close>,
  \<^verbatim>\<open>sleep\<close> and \<^verbatim>\<open>releasesleep\<close> between its spin lock operations, of the scheduler and of the clock: a process sleeps on
  a lock only while the lock is taken or another process, which holds the inner spin lock, has
  freed it and is about to call \<^verbatim>\<open>wakeup1\<close>; that call leaves nobody asleep on the lock, nobody between
  its test of \<^verbatim>\<open>locked\<close> and its \<^verbatim>\<open>sched\<close>, and every process that slept runnable and queued. If a lock
  is only released by processes that acquired it, at most one process has it at a time, and
  \<^verbatim>\<open>locked\<close> tells whether one has. None of \<^verbatim>\<open>acquire\<close>, \<^verbatim>\<open>release\<close>, \<^verbatim>\<open>popcli\<close> and \<^verbatim>\<open>sched\<close> panics, and
  whoever holds \<^verbatim>\<open>ptable.lock\<close>, a process or a scheduler, can take its next step.\<close>

theorem sleeplock_no_lost_wakeup:
  assumes "sl_step\<^sup>*\<^sup>* sl_boot s"
  shows "(k \<notin> misused s \<longrightarrow> (\<forall>p\<in>own s k. \<forall>q\<in>own s k. p = q) \<and> (sl_locked (slocks s k) = 0 \<longleftrightarrow> own s k = {})) \<and>
    (\<forall>p<NPROC. waits s k p \<longrightarrow> sl_locked (slocks s k) \<noteq> 0 \<or>
      (\<exists>c q. myproc c (spt s) = Some q \<and> lkh s (Inner k) = Some c \<and>
        (pc s q = Releasing RelWake k \<or> pc s q = Releasing RelWaking k))) \<and>
    (\<forall>c q. myproc c (spt s) = Some q \<and> pc s q = Releasing RelWaking k \<longrightarrow>
      (\<exists>s'. sl_exec c q s = Ok s' \<and>
        (\<forall>p<NPROC. \<not> waits s' k p \<and> (waits s k p \<longrightarrow> p_state (procs (spt s') p) = RUNNABLE \<and> queued (spt s') p)) \<and>
        (\<forall>p. pc s' p \<notin> {Sleeping SleepLock k, Sleeping SleepUnlock k, Sleeping SleepSched k}))) \<and>
    (\<forall>c q. myproc c (spt s) = Some q \<longrightarrow>
      (\<exists>s'. sl_exec c q s = Ok s') \<or> sl_exec c q s = Wait \<and> lkh s Ptable \<noteq> Some c) \<and>
    (\<forall>c. myproc c (spt s) = None \<and> lkh s Ptable = Some c \<longrightarrow> (\<exists>s'. spin_release c Ptable s = Ok s'))"
proof -
  have i: "sl_inv s" using assms by (rule sl_reach_inv)
  then have j: "sched_inv (spt s)" "sl_locks s" "sl_own s" "sl_wake s" by (auto simp: sl_inv_def)
  have 1: "\<exists>c q. myproc c (spt s) = Some q \<and> lkh s (Inner k) = Some c \<and> (pc s q = Releasing RelWake k \<or> pc s q = Releasing RelWaking k)"
    if w: "waking s k"
  proof -
    obtain q where q: "pc s q = Releasing RelWake k \<or> pc s q = Releasing RelWaking k" using w by (auto simp: waking_def)
    then obtain c where c: "myproc c (spt s) = Some q" using sl_locksD(1) [OF j(2), of q] by auto
    then show ?thesis using q sl_locksD(2) [OF j(2) c, of "Inner k"] by auto
  qed
  have 2: "\<exists>s'. sl_exec c q s = Ok s' \<and>
      (\<forall>p<NPROC. \<not> waits s' k p \<and> (waits s k p \<longrightarrow> p_state (procs (spt s') p) = RUNNABLE \<and> queued (spt s') p)) \<and>
      (\<forall>p. pc s' p \<notin> {Sleeping SleepLock k, Sleeping SleepUnlock k, Sleeping SleepSched k})"
    if q: "myproc c (spt s) = Some q \<and> pc s q = Releasing RelWaking k" for c q
  proof -
    obtain t where t: "wakeup1 (Some (ChSleeplock k)) (spt s) = Ok t"
      "\<forall>p<NPROC. \<not> (p_state (procs t p) = SLEEPING \<and> p_chan (procs t p) = Some (ChSleeplock k)) \<and>
        (waits s k p \<longrightarrow> p_state (procs t p) = RUNNABLE \<and> queued t p)"
      using wakeup_sleeplock [OF j(1), of k] by blast
    have "p = q" if "pc s p \<in> {Sleeping SleepLock k, Sleeping SleepUnlock k, Sleeping SleepSched k}" for p
      using that q held_exclusive [OF j(2), of "Inner k" p q] held_exclusive [OF j(2), of Ptable p q] by auto
    then show ?thesis using t q
      by (intro exI [of _ "goto q (Releasing RelWoken k) (s\<lparr>spt := t\<rparr>)"]) (auto simp: sl_exec_def waits_def)
  qed
  have 3: "\<exists>s'. spin_release c Ptable s = Ok s'" if "myproc c (spt s) = None \<and> lkh s Ptable = Some c" for c
    using that sl_locksD(6) [OF j(2), of c] by (intro spin_release_ok) auto
  show ?thesis using sl_wakeD(5) [OF j(4), of _ k] j(3) 1 2 3 sl_exec_ok [OF i] unfolding sl_own_def by meson
qed


text \<open>A contended lock. Two processes run, on CPU 0 and CPU 1.\<close>

lemma sl_other_steps:
  "sched_step l t t' \<Longrightarrow> sl_other (sl_boot\<lparr>spt := t\<rparr>) l \<Longrightarrow> sl_step (sl_boot\<lparr>spt := t\<rparr>) (sl_boot\<lparr>spt := t'\<rparr>)"
  using sl_sched [of "sl_boot\<lparr>spt := t\<rparr>" l t'] by (simp add: sl_boot_def)

lemma sl_local_steps:
  "keeps_sched (procs t p) (f (procs t p)) \<Longrightarrow> proc_ok (f (procs t p)) \<Longrightarrow> p_chan (f (procs t p)) = p_chan (procs t p) \<Longrightarrow>
   sl_step (sl_boot\<lparr>spt := t\<rparr>) (sl_boot\<lparr>spt := upd_proc p f t\<rparr>)"
  using sl_local [of "sl_boot\<lparr>spt := t\<rparr>" p f] by simp

lemma sl_run_e: "sl_step\<^sup>*\<^sup>* sl_boot (sl_boot\<lparr>spt := run_e\<rparr>)"
proof -
  have "sl_step (sl_boot\<lparr>spt := boot\<rparr>) (sl_boot\<lparr>spt := run_a\<rparr>)"
    unfolding run_a_def by (rule sl_other_steps [OF sched_step.alloc [OF prod.collapse [symmetric]]]) simp
  moreover have "sl_step (sl_boot\<lparr>spt := run_a\<rparr>) (sl_boot\<lparr>spt := run_b\<rparr>)"
    unfolding run_b_def by (rule sl_local_steps) (simp_all add: keeps_sched_def proc_ok_def run_procs, simp add: boot_def)
  moreover have "sl_step (sl_boot\<lparr>spt := run_b\<rparr>) (sl_boot\<lparr>spt := run_c\<rparr>)"
    unfolding run_c_def by (rule sl_other_steps [OF sched_step.init]) (simp_all add: run_procs)
  moreover have "sl_step (sl_boot\<lparr>spt := run_c\<rparr>) (sl_boot\<lparr>spt := run_d\<rparr>)"
    by (rule sl_other_steps [OF sched_step.start [OF _ _ _ _ run_start]]) (simp_all add: run_procs)
  moreover have "sl_step (sl_boot\<lparr>spt := run_d\<rparr>) (sl_boot\<lparr>spt := run_e\<rparr>)"
    by (rule sl_other_steps [OF sched_step.pick [OF run_d_myproc run_pick]]) (simp add: sl_boot_def)
  ultimately have "sl_step\<^sup>*\<^sup>* (sl_boot\<lparr>spt := boot\<rparr>) (sl_boot\<lparr>spt := run_e\<rparr>)"
    by (meson converse_rtranclp_into_rtranclp rtranclp.rtrancl_refl)
  then show ?thesis by (simp add: sl_boot_def)
qed

lemma run_e_idle: "qabs run_e q = []" if "q < NPROCQ"
proof -
  have i: "runq_inv run_d" using reachable_inv [OF run_d_reachable] by (auto simp: sched_inv_def)
  show ?thesis unfolding run_e_def using pick_qabs(2) [OF i _ _ that, of 2 0] by (simp add: run_d_qabs)
qed

lemma sl_two_running:
  "\<exists>t. sl_step\<^sup>*\<^sup>* sl_boot (sl_boot\<lparr>spt := t\<rparr>) \<and> myproc 0 t = Some 0 \<and> myproc 1 t = Some 1"
proof -
  have e: "sched_inv run_e" by (rule reachable_inv [OF run_e_reachable])
  have p1: "procs run_e 1 = procs boot 1"
    by (simp add: run_e_def pick_simps run_d_qabs)
       (simp add: run_d_def run_c_def run_b_def run_a_def allocproc_init_def allocproc_slot_def find_unused_boot)
  then have "find_unused run_e = Some 1" using run_e_simps(2)
    by (simp add: find_unused_def upt_conv_Cons) (simp add: boot_def)
  then have a: "allocproc_slot run_e = (Some 1, snd (allocproc_slot run_e))"
    and p2: "procs (snd (allocproc_slot run_e)) = (procs run_e)(1 := (procs run_e 1)\<lparr>p_state := EMBRYO, p_pid := nextpid run_e\<rparr>)"
      "cpus (snd (allocproc_slot run_e)) = cpus run_e"
    by (simp_all add: allocproc_slot_def)
  let ?a = "snd (allocproc_slot run_e)"
  let ?f = "\<lambda>x. x\<lparr>p_kstack := 0x80402000, p_pgdir := 0x80403000\<rparr>"
  let ?b = "upd_proc 1 ?f ?a"
  let ?c = "allocproc_init 1 ?b"
  note ai = allocproc_slot_inv [OF e a]
  have b: "keeps_sched (procs ?a 1) (?f (procs ?a 1))" "proc_ok (?f (procs ?a 1))"
    using p1 by (simp_all add: keeps_sched_def proc_ok_def p2) (simp add: boot_def)
  have bi: "sched_inv ?b" by (rule sched_step_inv [OF sched_step.local [of ?a 1 ?f, OF b] ai(1)])
  have sc: "sched_step (Init 1) ?b ?c" by (rule sched_step.init) (simp add: p2)
  note ci = sched_step_inv [OF sc bi]
  have pc: "procs ?c 1 = (procs ?b 1)\<lparr>p_priority := 2, p_widx := 0\<rparr>" "cpus ?c = cpus run_e"
    by (simp_all add: allocproc_init_def p2)
  have st: "p_state (procs ?c 1) = EMBRYO" "p_kstack (procs ?c 1) \<noteq> 0" "p_pgdir (procs ?c 1) \<noteq> 0"
    "unat (p_priority (procs ?c 1)) = 2" unfolding pc(1) by (simp_all add: p2)
  have "qabs ?c q = []" if "q < NPROCQ" for q
  proof -
    have "qabs ?c q = qabs ?b q" unfolding allocproc_init_def using bi that p2 by (intro runq_upd(2)) (auto simp: sched_inv_def)
    also have "\<dots> = qabs ?a q" using ai(1) that p2 by (intro runq_upd(2)) (auto simp: sched_inv_def)
    finally show ?thesis using ai(2) [OF that] run_e_idle [OF that] by simp
  qed
  then obtain d where d: "make_runnable 1 ?c = Ok d" "sched_inv d" "cpus d = cpus run_e"
      "\<forall>q<NPROCQ. qabs d q = (if q = 2 then [1] else [])"
    using make_runnable_correct [OF ci _ st(1-3), unfolded st(4) pc(2)] by auto
  have sd: "sched_step (Start 1) ?c d" by (rule sched_step.start [OF _ st(1-3) d(1)]) simp
  have "top_queue (qabs d) NPROCQ = Some 2" using d(4) by (simp add: numeral_3_eq_3)
  then have sch: "scheduler 1 d = Ok (Some 1, pick 1 2 d)"
    using d by (simp add: scheduler_def sched_loop_correct sched_inv_def)
  have m1: "myproc 1 d = None"
    unfolding d(3) myproc_def by (simp add: run_e_def pick_simps) (simp add: run_d_def run_procs boot_def)
  have "sl_step (sl_boot\<lparr>spt := run_e\<rparr>) (sl_boot\<lparr>spt := ?a\<rparr>)" by (rule sl_other_steps [OF sched_step.alloc [OF a]]) simp
  moreover have "sl_step (sl_boot\<lparr>spt := ?a\<rparr>) (sl_boot\<lparr>spt := ?b\<rparr>)" by (rule sl_local_steps [of ?a 1 ?f, OF b]) simp
  moreover have "sl_step (sl_boot\<lparr>spt := ?b\<rparr>) (sl_boot\<lparr>spt := ?c\<rparr>)" by (rule sl_other_steps [OF sc]) simp
  moreover have "sl_step (sl_boot\<lparr>spt := ?c\<rparr>) (sl_boot\<lparr>spt := d\<rparr>)" by (rule sl_other_steps [OF sd]) simp
  moreover have "sl_step (sl_boot\<lparr>spt := d\<rparr>) (sl_boot\<lparr>spt := pick 1 2 d\<rparr>)"
    by (rule sl_other_steps [OF sched_step.pick [OF m1 sch]]) (simp add: sl_boot_def)
  ultimately have "sl_step\<^sup>*\<^sup>* sl_boot (sl_boot\<lparr>spt := pick 1 2 d\<rparr>)"
    using sl_run_e by (meson rtranclp.rtrancl_into_rtrancl)
  moreover have "myproc 0 (pick 1 2 d) = Some 0" "myproc 1 (pick 1 2 d) = Some 1"
    using d(4) run_e_simps(1) by (simp_all add: myproc_def pick_simps d(3))
  ultimately show ?thesis by blast
qed


text \<open>A schedule: the CPUs that take the next steps, one after the other.\<close>

fun sl_play :: "nat list \<Rightarrow> sleepst \<Rightarrow> sleepst outcome" where
  "sl_play [] s = Ok s"
| "sl_play (c # cs) s = (case myproc c (spt s) of None \<Rightarrow> UB | Some p \<Rightarrow> bindo (sl_exec c p s) (sl_play cs))"

lemma sl_play_steps: "sl_play cs s = Ok s' \<Longrightarrow> sl_step\<^sup>*\<^sup>* s s'"
  by (induction cs arbitrary: s)
     (auto simp: bindo_Ok_iff split: option.splits intro: converse_rtranclp_into_rtranclp sl_run)

text \<open>Process 0 takes lock 5; process 1 asks for it and goes to sleep; process 0 releases it, up to its \<^verbatim>\<open>wakeup1\<close>.\<close>

lemma sl_contended:
  "\<exists>s. sl_step\<^sup>*\<^sup>* sl_boot s \<and> waits s 5 1 \<and> myproc 0 (spt s) = Some 0 \<and> pc s 0 = Releasing RelWaking 5"
proof -
  obtain t where t: "sl_step\<^sup>*\<^sup>* sl_boot (sl_boot\<lparr>spt := t\<rparr>)" "myproc 0 t = Some 0" "myproc 1 t = Some 1"
    using sl_two_running by blast
  note ev [simp] = sl_exec_def spin_acquire_def spin_release_def and One_nat_def [simp del]
  have 1: "sl_step (sl_boot\<lparr>spt := t\<rparr>) (goto 0 (Acquiring AcqEnter 5) (sl_boot\<lparr>spt := t\<rparr>))"
    by (rule sl_acquire [where c = 0]) (simp_all add: t sl_boot_def)
  obtain s1 where s1: "sl_play [0, 0, 0, 0] (goto 0 (Acquiring AcqEnter 5) (sl_boot\<lparr>spt := t\<rparr>)) = Ok s1"
      "spt s1 = t" "pc s1 0 = Away" "pc s1 1 = Away" "lkh s1 Ptable = None" "lkh s1 (Inner 5) = None" "cli s1 0 = 0" "cli s1 1 = 0"
      "sl_locked (slocks s1 5) = 1" "own s1 5 = {0}"
    by (simp add: t sl_boot_def)
  have 2: "sl_step s1 (goto 1 (Acquiring AcqEnter 5) s1)" by (rule sl_acquire [where c = 1]) (simp_all add: t s1)
  obtain u where u: "sl_play [1, 1, 1, 1] (goto 1 (Acquiring AcqEnter 5) s1) = Ok u" "spt u = t" "pc u 0 = Away"
      "pc u 1 = Sleeping SleepSched 5" "lkh u Ptable = Some 1" "lkh u (Inner 5) = None" "cli u 0 = 0" "cli u 1 = 1" "own u 5 = {0}"
    by (simp add: t s1)
  obtain v where v: "sl_exec 1 1 u = Ok v" "myproc 0 (spt v) = Some 0" "myproc 1 (spt v) = None" "waits v 5 1"
      "pc v 0 = Away" "lkh v Ptable = Some 1" "lkh v (Inner 5) = None" "cli v 0 = 0" "cli v 1 = 1" "own v 5 = {0}"
    using t by (simp add: u sched_locked_def sched_def myproc_def waits_def)
  have 3: "sl_step v (v\<lparr>lkh := (lkh v)(Ptable := None), cli := (cli v)(1 := 0)\<rparr>)" (is "sl_step v ?w")
    by (rule sl_back [where c = 1]) (simp_all add: v)
  have 4: "sl_step ?w ((goto 0 (Releasing RelEnter 5) ?w)\<lparr>misused := (if 0 \<in> own ?w 5 then misused ?w else insert 5 (misused ?w))\<rparr>)"
    (is "sl_step ?w ?x") by (rule sl_release [where c = 0]) (simp_all add: v)
  obtain s where s: "sl_play [0, 0, 0] ?x = Ok s" "spt s = spt v" "pc s 0 = Releasing RelWaking 5"
    by (simp add: v)
  note tr = rtranclp.rtrancl_into_rtrancl [of sl_step] rtranclp_trans [of sl_step]
  have "sl_step\<^sup>*\<^sup>* sl_boot s1" using t(1) 1 sl_play_steps [OF s1(1)] by (meson tr)
  then have "sl_step\<^sup>*\<^sup>* sl_boot u" using 2 sl_play_steps [OF u(1)] by (meson tr)
  moreover have "sl_step u v" by (rule sl_run [where c = 1]) (simp_all add: u t del: ev, rule v(1))
  ultimately have "sl_step\<^sup>*\<^sup>* sl_boot v" by (meson tr)
  then have "sl_step\<^sup>*\<^sup>* sl_boot s" using 3 4 sl_play_steps [OF s(1)] by (meson tr)
  moreover have "waits s 5 1" using v(4) waits_cong [OF s(2)] by simp
  moreover have "myproc 0 (spt s) = Some 0" using v(2) s(2) by simp
  ultimately show ?thesis using s(3) by blast
qed

theorem sleeplock_no_lost_wakeup_witness:
  "\<exists>s s'. waits s 5 1 \<and> sl_exec 0 0 s = Ok s' \<and> \<not> waits s' 5 1 \<and> p_state (procs (spt s') 1) = RUNNABLE \<and> queued (spt s') 1"
proof -
  obtain s where s: "sl_step\<^sup>*\<^sup>* sl_boot s" "waits s 5 1" "myproc 0 (spt s) = Some 0" "pc s 0 = Releasing RelWaking 5"
    using sl_contended by blast
  obtain s' where "sl_exec 0 0 s = Ok s'" and w: "\<forall>p<NPROC. \<not> waits s' 5 p \<and> (waits s 5 p \<longrightarrow> p_state (procs (spt s') p) = RUNNABLE \<and> queued (spt s') p)"
    using sleeplock_no_lost_wakeup [OF s(1), of 5] s(3,4) by blast
  moreover have "\<not> waits s' 5 1 \<and> (waits s 5 1 \<longrightarrow> p_state (procs (spt s') 1) = RUNNABLE \<and> queued (spt s') 1)"
    using w by (rule allE [of _ 1]) simp
  ultimately show ?thesis using s(2) by blast
qed

end
