(* ===== verification/Ide.thy ===== *)
theory Ide
  imports Bio
begin

text \<open>
  The disk driver, \<^verbatim>\<open>ide.c\<close>: the queue of buffers that wait for the disk, the command registers, and the
  interrupt handler. \<open>Bio\<close> takes a transfer as one step; the theorem here is that the driver, fed
  with any sequence of requests and interrupts, has that effect.
\<close>

section \<open>State\<close>

text \<open>\<open>ports\<close> holds the last byte written to each register, \<open>ide_out\<close> the last block sent with \<^verbatim>\<open>outsl\<close>.\<close>

record idest = bio +
  idequeue :: "nat option"
  qnext :: "nat \<Rightarrow> nat option"
  ports :: "u32 \<Rightarrow> u8"
  ide_out :: block

abbreviation (input) IDE_BSY :: u8 where "IDE_BSY \<equiv> 0x80"
abbreviation (input) IDE_DRDY :: u8 where "IDE_DRDY \<equiv> 0x40"
abbreviation (input) IDE_DF :: u8 where "IDE_DF \<equiv> 0x20"
abbreviation (input) IDE_ERR :: u8 where "IDE_ERR \<equiv> 0x01"
abbreviation (input) IDE_CMD_READ :: u8 where "IDE_CMD_READ \<equiv> 0x20"
abbreviation (input) IDE_CMD_WRITE :: u8 where "IDE_CMD_WRITE \<equiv> 0x30"

section \<open>The driver\<close>

text \<open>\<^verbatim>\<open>idewait\<close> reads the status register until the disk is ready; the list holds what it reads. \<open>Wait\<close>: the disk
  has not become ready yet.\<close>

fun idewait :: "bool \<Rightarrow> u8 list \<Rightarrow> int outcome" where
  "idewait checkerr [] = Wait"
| "idewait checkerr (r # rs) =
     (if r AND (IDE_BSY OR IDE_DRDY) \<noteq> IDE_DRDY then idewait checkerr rs
      else if checkerr \<and> r AND (IDE_DF OR IDE_ERR) \<noteq> 0 then Ok (-1)
      else Ok 0)"

definition outb :: "u32 \<Rightarrow> u8 \<Rightarrow> idest \<Rightarrow> idest" where
  "outb p v s = s\<lparr>ports := (ports s)(p := v)\<rparr>"

text \<open>\<^verbatim>\<open>ideinit\<close> after the first wait: \<open>probe\<close> are the values read while looking for disk 1, a thousand at most.\<close>

definition ideinit :: "u8 list \<Rightarrow> idest \<Rightarrow> idest" where
  "ideinit probe s =
     (let s = outb 0x1f6 (0xe0 OR push_bit 4 1) s;
          s = (if \<exists>r\<in>set (take 1000 probe). r \<noteq> 0 then s\<lparr>havedisk1 := True\<rparr> else s)
      in outb 0x1f6 (0xe0 OR push_bit 4 0) s)"

text \<open>A block is one sector.\<close>

definition idestart :: "u8 list \<Rightarrow> nat option \<Rightarrow> idest \<Rightarrow> idest outcome" where
  "idestart sts bo s = (case bo of
     None \<Rightarrow> Panic ''idestart''
   | Some i \<Rightarrow>
       let b = bufs s i; sector = b_blockno b in
       if unat (b_blockno b) \<ge> FSSIZE then Panic ''incorrect blockno''
       else bindo (idewait False sts) (\<lambda>_.
         let s = outb 0x3f6 0 s;
             s = outb 0x1f2 1 s;
             s = outb 0x1f3 (ucast (sector AND 0xff)) s;
             s = outb 0x1f4 (ucast (drop_bit 8 sector AND 0xff)) s;
             s = outb 0x1f5 (ucast (drop_bit 16 sector AND 0xff)) s;
             s = outb 0x1f6 (ucast (0xe0 OR push_bit 4 (b_dev b AND 1) OR (drop_bit 24 sector AND 0x0f))) s
         in if b_dirty b then Ok ((outb 0x1f7 IDE_CMD_WRITE s)\<lparr>ide_out := b_data b\<rparr>)
            else Ok (outb 0x1f7 IDE_CMD_READ s)))"

text \<open>The interrupt handler; \<open>dat\<close> is what \<^verbatim>\<open>insl\<close> reads, \<open>sts\<close> and \<open>sts'\<close> what the two waits read.\<close>

definition ideintr :: "u8 list \<Rightarrow> block \<Rightarrow> u8 list \<Rightarrow> idest \<Rightarrow> idest outcome" where
  "ideintr sts dat sts' s = (case idequeue s of
     None \<Rightarrow> Ok s
   | Some i \<Rightarrow>
       let s = s\<lparr>idequeue := qnext s i\<rparr> in
       bindo (if b_dirty (bufs s i) then Ok s
              else bindo (idewait True sts) (\<lambda>r.
                if r \<ge> 0 then Ok (upd_buf i (\<lambda>b. b\<lparr>b_data := dat\<rparr>) s) else Ok s)) (\<lambda>s.
       let s = upd_buf i (\<lambda>b. b\<lparr>b_valid := True, b_dirty := False\<rparr>) s;
           s = s\<lparr>woken := woken s @ [ChBuf i]\<rparr>
       in if idequeue s \<noteq> None then idestart sts' (idequeue s) s else Ok s))"

text \<open>The walk of \<^verbatim>\<open>iderw\<close> to the end of the queue and the store there; on a queue that ends, one turn per
  buffer is enough.\<close>

fun append_buf :: "nat \<Rightarrow> nat \<Rightarrow> nat \<Rightarrow> idest \<Rightarrow> idest outcome" where
  "append_buf 0 i b s = Wait"
| "append_buf (Suc n) i b s = (case qnext s i of
     None \<Rightarrow> Ok (s\<lparr>qnext := (qnext s)(i := Some b)\<rparr>)
   | Some j \<Rightarrow> append_buf n j b s)"

text \<open>\<^verbatim>\<open>iderw\<close> up to its loop, and the condition with which the loop ends.\<close>

definition iderw_queue :: "u8 list \<Rightarrow> nat \<Rightarrow> idest \<Rightarrow> idest outcome" where
  "iderw_queue sts i s =
     (let b = bufs s i in
      if \<not> b_locked b then Panic ''iderw: buf not locked''
      else if b_valid b \<and> \<not> b_dirty b then Panic ''iderw: nothing to do''
      else if b_dev b \<noteq> 0 \<and> \<not> havedisk1 s then Panic ''iderw: ide disk 1 not present''
      else
        let s = s\<lparr>qnext := (qnext s)(i := None)\<rparr> in
        bindo (case idequeue s of
            None \<Rightarrow> Ok (s\<lparr>idequeue := Some i\<rparr>)
          | Some h \<Rightarrow> append_buf NBUF h i s) (\<lambda>s.
        if idequeue s = Some i then idestart sts (Some i) s else Ok s))"

definition iderw_done :: "nat \<Rightarrow> idest \<Rightarrow> bool" where
  "iderw_done i s \<longleftrightarrow> b_valid (bufs s i) \<and> \<not> b_dirty (bufs s i)"

section \<open>The disk\<close>

text \<open>What the registers address, as the ATA command block has it: the drive and the sector.\<close>

definition reg_drive :: "(u32 \<Rightarrow> u8) \<Rightarrow> u32" where
  "reg_drive p = ucast (drop_bit 4 (p 0x1f6) AND 1)"

definition reg_sector :: "(u32 \<Rightarrow> u8) \<Rightarrow> u32" where
  "reg_sector p = ucast (p 0x1f3) OR push_bit 8 (ucast (p 0x1f4)) OR push_bit 16 (ucast (p 0x1f5)) OR
     push_bit 24 (ucast (p 0x1f6 AND 0x0f))"

text \<open>The disk carries out the command in its registers and interrupts. A write has the block that was sent; a
  read offers the addressed block.\<close>

definition disk_runs :: "idest \<Rightarrow> idest" where
  "disk_runs s = (if ports s 0x1f7 = IDE_CMD_WRITE then
     let d = reg_drive (ports s); a = reg_sector (ports s) in
     s\<lparr>disk := (disk s)(d := (disk s d)(a := ide_out s)), dwrites := dwrites s @ [(d, a, ide_out s)]\<rparr> else s)"

definition disk_offers :: "idest \<Rightarrow> block" where
  "disk_offers s = disk s (reg_drive (ports s)) (reg_sector (ports s))"

section \<open>The queue as a list\<close>

fun qpath :: "(nat \<Rightarrow> nat option) \<Rightarrow> nat option \<Rightarrow> nat list \<Rightarrow> bool" where
  "qpath n p [] = (p = None)"
| "qpath n p (x # xs) = (p = Some x \<and> qpath n (n x) xs)"

lemma qpath_upd [simp]: "x \<notin> set xs \<Longrightarrow> qpath (n(x := v)) p xs = qpath n p xs"
  by (induction xs arbitrary: p) auto

lemma qpath_append:
  "qpath n p xs \<Longrightarrow> xs \<noteq> [] \<Longrightarrow> distinct xs \<Longrightarrow> b \<notin> set xs \<Longrightarrow> n b = None \<Longrightarrow> qpath (n(last xs := Some b)) p (xs @ [b])"
  by (induction xs arbitrary: p) auto

lemma append_buf_end:
  "qpath (qnext s) (Some h) xs \<Longrightarrow> length xs \<le> k \<Longrightarrow> append_buf k h b s = Ok (s\<lparr>qnext := (qnext s)(last xs := Some b)\<rparr>)"
proof (induction xs arbitrary: k h)
  case (Cons x xs)
  then obtain m where m: "k = Suc m" "length xs \<le> m" by (cases k) auto
  show ?case
  proof (cases xs)
    case Nil then show ?thesis using Cons.prems m by (simp add: fun_upd_def)
  next
    case (Cons y ys)
    then show ?thesis using Cons.prems Cons.IH [of y m] m by simp
  qed
qed simp

section \<open>Programming the registers\<close>

definition programmed :: "nat \<Rightarrow> idest \<Rightarrow> bool" where
  "programmed i s \<longleftrightarrow> (let b = bufs s i in
     reg_drive (ports s) = b_dev b \<and> reg_sector (ports s) = b_blockno b \<and>
     ports s 0x1f7 = (if b_dirty b then IDE_CMD_WRITE else IDE_CMD_READ) \<and> (b_dirty b \<longrightarrow> ide_out s = b_data b))"

lemma drop_bit_small: "unat (x :: u32) < 2 ^ k \<Longrightarrow> drop_bit k x = 0"
  unfolding word_unat_eq_iff unat_drop_bit_eq by (simp add: drop_bit_eq_div)

lemma low_bytes:
  fixes x :: u32
  assumes "unat x < 1000"
  shows "ucast (ucast (x AND 0xff) :: u8) OR push_bit 8 (ucast (ucast (drop_bit 8 x AND 0xff) :: u8)) = x"
proof -
  have m: "(0xff :: u32) = mask 8" by (simp add: mask_eq_exp_minus_1)
  have "drop_bit 16 x = 0" using assms by (simp add: drop_bit_small)
  then have "bit (drop_bit 16 x) n = False" for n by simp
  then have "\<not> bit x (16 + n)" for n by (simp add: bit_drop_bit_eq)
  then have z: "bit x n \<Longrightarrow> n < 16" for n by (metis le_add_diff_inverse not_less)
  show ?thesis unfolding m by (rule bit_word_eqI) (auto simp: bit_simps dest: z)
qed

lemma regs_sector:
  fixes x d :: u32
  assumes "unat x < 1000" "unat d < 2"
  shows "ucast (ucast (x AND 0xff) :: u8) OR push_bit 8 (ucast (ucast (drop_bit 8 x AND 0xff) :: u8)) OR
     push_bit 16 (ucast (ucast (drop_bit 16 x AND 0xff) :: u8)) OR
     push_bit 24 (ucast ((ucast (0xe0 OR push_bit 4 (d AND 1) OR (drop_bit 24 x AND 0x0f)) :: u8) AND 0x0f)) = x"
proof -
  have z: "drop_bit 16 x = 0" "drop_bit 24 x = 0" using assms(1) by (simp_all add: drop_bit_small)
  have "unat d = 0 \<or> unat d = 1" using assms(2) by auto
  then have d: "d = 0 \<or> d = 1" by (auto simp: word_unat_eq_iff)
  show ?thesis unfolding z using d low_bytes [OF assms(1)] by auto
qed

lemma regs_drive:
  fixes x d :: u32
  assumes "unat x < 1000" "unat d < 2"
  shows "ucast (drop_bit 4 (ucast (0xe0 OR push_bit 4 (d AND 1) OR (drop_bit 24 x AND 0x0f)) :: u8) AND 1) = d"
proof -
  have z: "drop_bit 24 x = 0" using assms(1) by (simp add: drop_bit_small)
  have "unat d = 0 \<or> unat d = 1" using assms(2) by auto
  then have d: "d = 0 \<or> d = 1" by (auto simp: word_unat_eq_iff)
  show ?thesis unfolding z using d by auto
qed

text \<open>\<^verbatim>\<open>idestart\<close> changes registers only, and they then ask for the right transfer.\<close>

lemma idestart_programs:
  assumes "unat (b_blockno (bufs s i)) < FSSIZE" "unat (b_dev (bufs s i)) < 2" "idewait False sts = Ok r"
  shows "\<exists>p d. idestart sts (Some i) s = Ok (s\<lparr>ports := p, ide_out := d\<rparr>) \<and> programmed i (s\<lparr>ports := p, ide_out := d\<rparr>)"
proof -
  let ?b = "bufs s i" let ?x = "b_blockno ?b"
  let ?p = "(ports s)(0x3f6 := 0, 0x1f2 := 1, 0x1f3 := ucast (?x AND 0xff), 0x1f4 := ucast (drop_bit 8 ?x AND 0xff),
     0x1f5 := ucast (drop_bit 16 ?x AND 0xff),
     0x1f6 := ucast (0xe0 OR push_bit 4 (b_dev ?b AND 1) OR (drop_bit 24 ?x AND 0x0f)),
     0x1f7 := if b_dirty ?b then IDE_CMD_WRITE else IDE_CMD_READ)"
  let ?s = "s\<lparr>ports := ?p, ide_out := if b_dirty ?b then b_data ?b else ide_out s\<rparr>"
  have "idestart sts (Some i) s = Ok ?s" using assms(1,3) by (simp add: idestart_def outb_def Let_def)
  moreover have "reg_sector ?p = ?x" "reg_drive ?p = b_dev ?b"
    using regs_sector [of ?x "b_dev ?b"] regs_drive [of ?x "b_dev ?b"] assms(1,2)
    by (simp_all only: reg_sector_def reg_drive_def fun_upd_apply) simp_all
  then have "programmed i ?s" by (simp add: programmed_def Let_def)
  ultimately show ?thesis by blast
qed

section \<open>The driver in use\<close>

definition wants :: "nat \<Rightarrow> idest \<Rightarrow> bool" where
  "wants i s \<longleftrightarrow> (let b = bufs s i in i < NBUF \<and> b_locked b \<and> \<not> (b_valid b \<and> \<not> b_dirty b) \<and>
     (b_dev b \<noteq> 0 \<longrightarrow> havedisk1 s) \<and> unat (b_dev b) < 2 \<and> unat (b_blockno b) < FSSIZE)"

text \<open>The reachable states with the requests that have not been served, in the order they were made. A
  process requests a block of one of the two disks for a buffer that no other request is about,
  and leaves the buffer alone until it is served; the disk carries out its command and
  interrupts without an error; buffers that are not queued change in any way.\<close>

inductive ide_reach :: "idest \<Rightarrow> nat list \<Rightarrow> bool" where
  ir_idle: "idequeue s = None \<Longrightarrow> ide_reach s []"
| ir_request: "ide_reach s rs \<Longrightarrow> i < NBUF \<Longrightarrow> i \<notin> set rs \<Longrightarrow> unat (b_dev (bufs s i)) < 2 \<Longrightarrow>
    unat (b_blockno (bufs s i)) < FSSIZE \<Longrightarrow> iderw_queue sts i s = Ok s' \<Longrightarrow> ide_reach s' (rs @ [i])"
| ir_interrupt: "ide_reach s (i # rs) \<Longrightarrow> idewait True sts = Ok 0 \<Longrightarrow> idewait False sts' = Ok r \<Longrightarrow>
    ideintr sts (disk_offers s) sts' (disk_runs s) = Ok s' \<Longrightarrow> ide_reach s' rs"
| ir_buffer: "ide_reach s rs \<Longrightarrow> i \<notin> set rs \<Longrightarrow> ide_reach (upd_buf i f s) rs"

definition ide_inv :: "idest \<Rightarrow> nat list \<Rightarrow> bool" where
  "ide_inv s rs \<longleftrightarrow> qpath (qnext s) (idequeue s) rs \<and> distinct rs \<and> (\<forall>i\<in>set rs. wants i s) \<and>
     (\<forall>i xs. rs = i # xs \<longrightarrow> programmed i s)"

lemma ide_inv_length: "ide_inv s rs \<Longrightarrow> length rs \<le> NBUF"
proof -
  assume "ide_inv s rs"
  then have "distinct rs" "set rs \<subseteq> {..<NBUF}" by (auto simp: ide_inv_def wants_def Let_def)
  then show ?thesis using distinct_card [of rs] card_mono [of "{..<NBUF}" "set rs"] by simp
qed

lemma wants_regs [simp]: "wants i (s\<lparr>ports := p, ide_out := d\<rparr>) = wants i s" "wants i (s\<lparr>qnext := n\<rparr>) = wants i s"
  "wants i (s\<lparr>idequeue := q\<rparr>) = wants i s"
  by (simp_all add: wants_def)

text \<open>A request: nothing but the queue and the registers changes.\<close>

lemma request_inv:
  assumes inv: "ide_inv s rs" and i: "i < NBUF" "i \<notin> set rs" "unat (b_dev (bufs s i)) < 2" "unat (b_blockno (bufs s i)) < FSSIZE"
    and q: "iderw_queue sts i s = Ok s'"
  shows "ide_inv s' (rs @ [i])"
proof -
  have w: "wants i s" using i q by (auto simp: wants_def iderw_queue_def Let_def split: if_splits)
  let ?s = "s\<lparr>qnext := (qnext s)(i := None)\<rparr>"
  have qp: "qpath (qnext ?s) (idequeue s) rs" using inv i(2) by (simp add: ide_inv_def)
  show ?thesis
  proof (cases rs)
    case Nil
    then have n: "idequeue s = None" using qp by simp
    have st: "idestart sts (Some i) (?s\<lparr>idequeue := Some i\<rparr>) = Ok s'"
      using q w n by (auto simp: iderw_queue_def wants_def Let_def split: if_splits)
    then obtain r where "idewait False sts = Ok r" by (auto simp: idestart_def Let_def bindo_Ok_iff split: if_splits)
    then obtain p d where "s' = ?s\<lparr>idequeue := Some i, ports := p, ide_out := d\<rparr>" "programmed i s'"
      using idestart_programs [of "?s\<lparr>idequeue := Some i\<rparr>" i sts r] st i by auto
    then show ?thesis using Nil w by (auto simp: ide_inv_def wants_def Let_def)
  next
    case (Cons h xs)
    then have h: "idequeue s = Some h" using qp by simp
    have a: "append_buf NBUF h i ?s = Ok (?s\<lparr>qnext := (qnext ?s)(last rs := Some i)\<rparr>)"
      by (rule append_buf_end) (use qp h ide_inv_length [OF inv] in simp_all)
    have "h \<noteq> i" using Cons i(2) by auto
    then have s': "s' = ?s\<lparr>qnext := (qnext ?s)(last rs := Some i)\<rparr>"
      using q w h a by (auto simp: iderw_queue_def wants_def Let_def split: if_splits)
    have "qpath ((qnext ?s)(last rs := Some i)) (idequeue s) (rs @ [i])"
      by (rule qpath_append [OF qp]) (use Cons inv i(2) in \<open>simp_all add: ide_inv_def\<close>)
    moreover have "programmed h s" using inv Cons by (simp add: ide_inv_def)
    ultimately show ?thesis using Cons inv w i(2)
      by (auto simp: ide_inv_def s' wants_def programmed_def Let_def)
  qed
qed

text \<open>An interrupt: the head of the queue has been transferred as one step of \<open>Bio\<close> would, and the disk is
  set to work on the next one.\<close>

definition ide_served :: "nat \<Rightarrow> idest \<Rightarrow> idest" where
  "ide_served i s =
     (let b = bufs s i;
          s = (if b_dirty b then s\<lparr>disk := (disk s)(b_dev b := (disk s (b_dev b))(b_blockno b := b_data b)),
                 dwrites := dwrites s @ [(b_dev b, b_blockno b, b_data b)]\<rparr> else s);
          s = s\<lparr>idequeue := qnext s i\<rparr>;
          s = (if b_dirty b then s else upd_buf i (\<lambda>x. x\<lparr>b_data := disk s (b_dev b) (b_blockno b)\<rparr>) s)
      in (upd_buf i (\<lambda>x. x\<lparr>b_valid := True, b_dirty := False\<rparr>) s)\<lparr>woken := woken s @ [ChBuf i]\<rparr>)"

lemma iderw_served:
  assumes "wants i s"
  shows "\<exists>t. iderw i s = Ok t \<and> bio.truncate t = bio.truncate (ide_served i s)"
  using assms by (cases "bufs s i") (auto simp: wants_def Let_def iderw_def ide_served_def upd_buf_def bio.truncate_def)

lemma interrupt_served:
  assumes inv: "ide_inv s (i # rs)" and st: "idewait True sts = Ok 0" "idewait False sts' = Ok r"
  shows "\<exists>p d. ideintr sts (disk_offers s) sts' (disk_runs s) = Ok ((ide_served i s)\<lparr>ports := p, ide_out := d\<rparr>) \<and>
    ide_inv ((ide_served i s)\<lparr>ports := p, ide_out := d\<rparr>) rs"
proof -
  have q: "idequeue s = Some i" "qpath (qnext s) (qnext s i) rs" "distinct rs" "i \<notin> set rs" "programmed i s"
    and w: "\<And>j. j \<in> set rs \<Longrightarrow> wants j s" using inv by (auto simp: ide_inv_def)
  let ?t = "ide_served i s"
  have bt: "j \<noteq> i \<Longrightarrow> bufs ?t j = bufs s j" "havedisk1 ?t = havedisk1 s" "qnext ?t = qnext s" "ports ?t = ports s" "ide_out ?t = ide_out s" "idequeue ?t = qnext s i" for j
    by (simp_all add: ide_served_def Let_def upd_buf_def)
  have run: "ideintr sts (disk_offers s) sts' (disk_runs s) = (if qnext s i \<noteq> None then idestart sts' (qnext s i) ?t else Ok ?t)"
    using q(1,5) st(1)
    by (simp add: ideintr_def disk_offers_def disk_runs_def programmed_def ide_served_def Let_def upd_buf_def)
  have inv': "ide_inv (?t\<lparr>ports := p, ide_out := d\<rparr>) rs" if "\<And>h xs. rs = h # xs \<Longrightarrow> programmed h (?t\<lparr>ports := p, ide_out := d\<rparr>)" for p d
  proof -
    have "wants j ?t" if "j \<in> set rs" for j
    proof -
      have "j \<noteq> i" using that q(4) by auto
      then show ?thesis using w [OF that] bt(1) [of j] bt(2) by (simp add: wants_def)
    qed
    then show ?thesis using that q(2,3) bt(3,6) by (simp add: ide_inv_def)
  qed
  show ?thesis
  proof (cases rs)
    case Nil
    then have "qnext s i = None" using q(2) by simp
    moreover have "?t\<lparr>ports := ports s, ide_out := ide_out s\<rparr> = ?t" by (simp add: ide_served_def Let_def upd_buf_def)
    ultimately show ?thesis using run inv' [where p = "ports s" and d = "ide_out s"] Nil
      by (intro exI [of _ "ports s"] exI [of _ "ide_out s"]) simp
  next
    case (Cons h xs)
    then have h: "qnext s i = Some h" "wants h s" "h \<noteq> i" using q w by auto
    then have "unat (b_blockno (bufs ?t h)) < FSSIZE" "unat (b_dev (bufs ?t h)) < 2" using bt(1) [of h] by (auto simp: wants_def Let_def)
    from idestart_programs [OF this st(2)] obtain p d where
      p: "idestart sts' (Some h) ?t = Ok (?t\<lparr>ports := p, ide_out := d\<rparr>)" "programmed h (?t\<lparr>ports := p, ide_out := d\<rparr>)" by blast
    then show ?thesis using run h(1) inv' [where p = p and d = d] Cons by auto
  qed
qed

lemma ide_reach_inv: "ide_reach s rs \<Longrightarrow> ide_inv s rs"
proof (induction rule: ide_reach.induct)
  case (ir_idle s)
  then show ?case by (simp add: ide_inv_def)
next
  case (ir_request s rs i sts s')
  then show ?case using request_inv by blast
next
  case (ir_interrupt s i rs sts sts' r s')
  then show ?case using interrupt_served [OF ir_interrupt(5,2,3)] by auto
next
  case (ir_buffer s rs i f)
  then show ?case by (auto simp: ide_inv_def wants_def programmed_def upd_buf_def Let_def)
qed

text \<open>A request by a process that holds the buffer, on a disk that is there, never panics.\<close>

lemma request_ok:
  assumes "ide_reach s rs" "wants i s" "i \<notin> set rs" "idewait False sts = Ok r"
  shows "\<exists>s'. iderw_queue sts i s = Ok s' \<and> bio.truncate s' = bio.truncate s \<and> ide_reach s' (rs @ [i])"
proof -
  have inv: "ide_inv s rs" using assms(1) by (rule ide_reach_inv)
  let ?s = "s\<lparr>qnext := (qnext s)(i := None)\<rparr>"
  have qp: "qpath (qnext ?s) (idequeue s) rs" using inv assms(3) by (simp add: ide_inv_def)
  have w: "i < NBUF" "unat (b_dev (bufs s i)) < 2" "unat (b_blockno (bufs s i)) < FSSIZE" using assms(2) by (auto simp: wants_def Let_def)
  have "\<exists>s'. iderw_queue sts i s = Ok s' \<and> bio.truncate s' = bio.truncate s"
  proof (cases rs)
    case Nil
    then show ?thesis using qp idestart_programs [of "?s\<lparr>idequeue := Some i\<rparr>" i sts r] w assms(2,4)
      by (auto simp: iderw_queue_def wants_def Let_def bio.truncate_def)
  next
    case (Cons h xs)
    then have h: "idequeue s = Some h" "h \<noteq> i" using qp assms(3) by auto
    have "append_buf NBUF h i ?s = Ok (?s\<lparr>qnext := (qnext ?s)(last rs := Some i)\<rparr>)"
      by (rule append_buf_end) (use qp h ide_inv_length [OF inv] in simp_all)
    then show ?thesis using h assms(2) by (auto simp: iderw_queue_def wants_def Let_def bio.truncate_def)
  qed
  then show ?thesis using ir_request [OF assms(1) w(1) assms(3) w(2,3)] by blast
qed

text \<open>A read that the disk reports as failed is still marked valid, with the old bytes.\<close>

lemma read_error_valid:
  assumes "idequeue s = Some i" "\<not> b_dirty (bufs s i)" "idewait True sts = Ok (-1)" "qnext s i = None"
  shows "\<exists>s'. ideintr sts dat sts' s = Ok s' \<and> b_valid (bufs s' i) \<and> b_data (bufs s' i) = b_data (bufs s i)"
  using assms by (simp add: ideintr_def upd_buf_def)

section \<open>The driver refines a synchronous disk\<close>

text \<open>C6: however requests arrive, the driver serves them in the order in which they were made, and each has
  exactly the effect of the synchronous transfer that the buffer cache is built on: when the disk
  has carried out its command, the interrupt handler leaves the buffers, the disk and the wakeups as
  \<open>iderw\<close> does in one step, the buffer is valid and clean, and the disk is working on the next
  request.\<close>

theorem ide_serves_in_order:
  assumes "ide_reach s (i # rs)" "idewait True sts = Ok 0" "idewait False sts' = Ok r"
  shows "\<exists>t s'. iderw i s = Ok t \<and> ideintr sts (disk_offers s) sts' (disk_runs s) = Ok s' \<and>
    bio.truncate s' = bio.truncate t \<and> iderw_done i s' \<and> ide_reach s' rs \<and>
    (\<forall>h xs. rs = h # xs \<longrightarrow> idequeue s' = Some h \<and> programmed h s')"
proof -
  have inv: "ide_inv s (i # rs)" using assms(1) by (rule ide_reach_inv)
  obtain p d where p: "ideintr sts (disk_offers s) sts' (disk_runs s) = Ok ((ide_served i s)\<lparr>ports := p, ide_out := d\<rparr>)"
    "ide_inv ((ide_served i s)\<lparr>ports := p, ide_out := d\<rparr>) rs"
    using interrupt_served [OF inv assms(2,3)] by blast
  let ?s = "(ide_served i s)\<lparr>ports := p, ide_out := d\<rparr>"
  have "wants i s" using inv by (simp add: ide_inv_def)
  then obtain t where "iderw i s = Ok t" "bio.truncate t = bio.truncate (ide_served i s)" using iderw_served by blast
  moreover have "bio.truncate ?s = bio.truncate (ide_served i s)" by (simp add: bio.truncate_def)
  moreover have "iderw_done i ?s" by (simp add: iderw_done_def ide_served_def Let_def upd_buf_def)
  moreover have "ide_reach ?s rs" by (rule ir_interrupt [OF assms p(1)])
  moreover have "idequeue ?s = Some h \<and> programmed h ?s" if "rs = h # xs" for h xs using p(2) that by (simp add: ide_inv_def)
  ultimately show ?thesis using p(1) by metis
qed

text \<open>An idle driver, and a locked buffer that is to be filled with block 7 of disk 1.\<close>

definition demo_ide :: idest where
  "demo_ide = upd_buf 3 (\<lambda>b. b\<lparr>b_locked := True, b_dev := 1, b_blockno := 7\<rparr>)
     (bio.extend demo_bio (idest.fields None (\<lambda>_. None) (\<lambda>_. 0) []))"

theorem ide_serves_in_order_witness:
  "\<exists>s s'. iderw_queue [0x40] 3 demo_ide = Ok s \<and> ideintr [0x80, 0x40] (disk_offers s) [0x40] (disk_runs s) = Ok s' \<and>
     b_data (bufs s' 3) = replicate 512 7 \<and> iderw_done 3 s'"
proof -
  have d: "idequeue demo_ide = None" "bufs demo_ide 3 = \<lparr>b_valid = False, b_dirty = False, b_dev = 1, b_blockno = 7, b_locked = True,
       b_refcnt = 0, b_data = []\<rparr>" "havedisk1 demo_ide" "disk demo_ide 1 7 = replicate 512 7"
    by (simp_all add: demo_ide_def bio.defs idest.defs upd_buf_def demo_bio_def)
  have st: "idewait False [0x40] = Ok 0" "idewait True [0x80, 0x40] = Ok 0" by simp_all
  have "wants 3 demo_ide" using d by (simp add: wants_def)
  then obtain s where s: "iderw_queue [0x40] 3 demo_ide = Ok s" "bio.truncate s = bio.truncate demo_ide" "ide_reach s [3]"
    using request_ok [OF ir_idle [OF d(1)] _ _ st(1), of 3] by auto
  obtain t s' where t: "iderw 3 s = Ok t" "ideintr [0x80, 0x40] (disk_offers s) [0x40] (disk_runs s) = Ok s'"
      "bio.truncate s' = bio.truncate t" "iderw_done 3 s'"
    using ide_serves_in_order [OF s(3) st(2,1)] by blast
  have b: "bufs s 3 = bufs demo_ide 3" "disk s = disk demo_ide" "havedisk1 s" using s(2) d(3) by (simp_all add: bio.truncate_def)
  then have "b_data (bufs t 3) = replicate 512 7" using t(1) d by (auto simp: iderw_def Let_def upd_buf_def)
  moreover have "bufs s' 3 = bufs t 3" using t(3) by (simp add: bio.truncate_def)
  ultimately show ?thesis using s(1) t(2,4) by auto
qed

end
