(* ===== verification/Kbd.thy ===== *)
theory Kbd
  imports Device
begin

unbundle bit_operations_syntax

text \<open>
  The keyboard, \<^verbatim>\<open>kbd.c\<close> with the tables of \<^verbatim>\<open>kbd.h\<close>: a state machine on scan codes. The tables are given by their first
  entries and by the entries with an index of their own; the others are 0.
\<close>

section \<open>Tables\<close>

definition table :: "u8 list \<Rightarrow> (u8 \<times> u8) list \<Rightarrow> u8 \<Rightarrow> u8" where
  "table xs ups i = (case map_of ups i of Some v \<Rightarrow> v | None \<Rightarrow> if unat i < length xs then xs ! unat i else 0)"

abbreviation (input) SHIFT :: u32 where "SHIFT \<equiv> 1"
abbreviation (input) CTL :: u32 where "CTL \<equiv> 2"
abbreviation (input) ALT :: u32 where "ALT \<equiv> 4"
abbreviation (input) CAPSLOCK :: u32 where "CAPSLOCK \<equiv> 8"
abbreviation (input) NUMLOCK :: u32 where "NUMLOCK \<equiv> 16"
abbreviation (input) SCROLLLOCK :: u32 where "SCROLLLOCK \<equiv> 32"
abbreviation (input) E0ESC :: u32 where "E0ESC \<equiv> 64"
abbreviation (input) KBS_DIB :: u8 where "KBS_DIB \<equiv> 1"

definition shiftcode :: "u8 \<Rightarrow> u8" where
  "shiftcode = table [] [(0x1D, 2), (0x2A, 1), (0x36, 1), (0x38, 4), (0x9D, 2), (0xB8, 4)]"

definition togglecode :: "u8 \<Rightarrow> u8" where
  "togglecode = table [] [(0x3A, 8), (0x45, 16), (0x46, 32)]"

text \<open>The keys above \<open>0x80\<close> without Enter and slash: home, end, arrows, page up and down, insert, delete.\<close>

definition special :: "(u8 \<times> u8) list" where
  "special = [(0xC8, 0xE2), (0xD0, 0xE3), (0xC9, 0xE6), (0xD1, 0xE7), (0xCB, 0xE4), (0xCD, 0xE5), (0x97, 0xE0), (0xCF, 0xE1),
     (0xD2, 0xE8), (0xD3, 0xE9)]"

definition normalmap :: "u8 \<Rightarrow> u8" where
  "normalmap = table
     ([0, 0x1B] @ bytes ''1234567890-='' @ [8, 9] @
      bytes ''qwertyuiop[]'' @ [10, 0] @ bytes ''asdfghjkl;'' @ [39, 96, 0, 92] @ bytes ''zxcvbnm,./'' @ [0, 42] @
      [0, 32] @ replicate 13 0 @ bytes ''789-456+1230.'')
     ((0x9C, 10) # (0xB5, 47) # special)"

definition shiftmap :: "u8 \<Rightarrow> u8" where
  "shiftmap = table
     ([0, 0x1B] @ bytes ''!@#$%^&*()_+'' @ [8, 9] @
      bytes ''QWERTYUIOP{}'' @ [10, 0] @ bytes ''ASDFGHJKL:'' @ [34, 126, 0, 124] @ bytes ''ZXCVBNM<>?'' @ [0, 42] @
      [0, 32] @ replicate 13 0 @ bytes ''789-456+1230.'')
     ((0x9C, 10) # (0xB5, 47) # special)"

text \<open>\<^verbatim>\<open>C(x)\<close> is the control character of \<open>x\<close>.\<close>

abbreviation (input) ctl_chars :: "string \<Rightarrow> u8 list" where
  "ctl_chars s \<equiv> map (\<lambda>c. c - 64) (bytes s)"

definition ctlmap :: "u8 \<Rightarrow> u8" where
  "ctlmap = table
     (replicate 16 0 @ ctl_chars ''QWERTYUIOP'' @ [0, 0, 13, 0] @ ctl_chars ''ASDFGHJKL'' @ [0, 0, 0, 0, 92 - 64] @
      ctl_chars ''ZXCVBNM'' @ [0, 0, 47 - 64, 0, 0])
     ((0x9C, 13) # (0xB5, 47 - 64) # special)"

section \<open>The state machine\<close>

definition charcode :: "u32 \<Rightarrow> u8 \<Rightarrow> u8" where
  "charcode i = (if i = 0 then normalmap else if i = 1 then shiftmap else ctlmap)"

text \<open>\<^verbatim>\<open>kbdgetc\<close> on the bytes at the status and the data port and the state of its static variable.\<close>

definition kbdgetc :: "u8 \<Rightarrow> u8 \<Rightarrow> u32 \<Rightarrow> int \<times> u32" where
  "kbdgetc st data shift =
     (if st AND KBS_DIB = 0 then (-1, shift)
      else if data = 0xE0 then (0, shift OR E0ESC)
      else if data AND 0x80 \<noteq> 0 then
        let data = (if shift AND E0ESC \<noteq> 0 then data else data AND 0x7F)
        in (0, shift AND NOT (ucast (shiftcode data) OR E0ESC))
      else
        let (data, shift) = (if shift AND E0ESC \<noteq> 0 then (data OR 0x80, shift AND NOT E0ESC) else (data, shift));
            shift = shift OR ucast (shiftcode data);
            shift = shift XOR ucast (togglecode data);
            c = charcode (shift AND (CTL OR SHIFT)) data;
            c = (if shift AND CAPSLOCK \<noteq> 0 then
                   if 97 \<le> c \<and> c \<le> 122 then c - 32 else if 65 \<le> c \<and> c \<le> 90 then c + 32 else c
                 else c)
        in (uint c, shift))"

text \<open>The characters that \<^verbatim>\<open>consoleintr\<close> gets while the controller holds the bytes \<open>bs\<close>.\<close>

fun kbd_chars :: "u8 list \<Rightarrow> u32 \<Rightarrow> nat list \<times> u32" where
  "kbd_chars [] shift = ([], shift)"
| "kbd_chars (b # bs) shift =
     (let (c, shift) = kbdgetc KBS_DIB b shift; (cs, shift) = kbd_chars bs shift in (nat c # cs, shift))"

definition kbdintr :: "nat \<Rightarrow> u8 list \<Rightarrow> u32 \<Rightarrow> kernel \<Rightarrow> (u32 \<times> kernel) outcome" where
  "kbdintr c bs shift s = (let (cs, shift) = kbd_chars bs shift in bindo (consoleintr c cs s) (\<lambda>s. Ok (shift, s)))"

section \<open>Keys\<close>

text \<open>What a keyboard does: a key is pressed or released. Keys with a code from \<open>0x80\<close> on are sent with a prefix.\<close>

datatype key_event = Press u8 | Release u8

definition key_ok :: "u8 \<Rightarrow> bool" where
  "key_ok c \<longleftrightarrow> c AND 0x7F \<noteq> 0x60"

fun scan :: "key_event \<Rightarrow> u8 list" where
  "scan (Press c) = (if bit c 7 then [0xE0, c AND 0x7F] else [c])"
| "scan (Release c) = (if bit c 7 then [0xE0, c] else [c OR 0x80])"

record mods =
  m_shift :: bool
  m_ctl :: bool
  m_alt :: bool
  m_caps :: bool
  m_num :: bool
  m_scroll :: bool

definition is_shift :: "u8 \<Rightarrow> bool" where "is_shift c \<longleftrightarrow> c = 0x2A \<or> c = 0x36"
definition is_ctl :: "u8 \<Rightarrow> bool" where "is_ctl c \<longleftrightarrow> c = 0x1D \<or> c = 0x9D"
definition is_alt :: "u8 \<Rightarrow> bool" where "is_alt c \<longleftrightarrow> c = 0x38 \<or> c = 0xB8"

fun apply_key :: "key_event \<Rightarrow> mods \<Rightarrow> mods" where
  "apply_key (Press c) m =
     \<lparr>m_shift = m_shift m \<or> is_shift c, m_ctl = m_ctl m \<or> is_ctl c, m_alt = m_alt m \<or> is_alt c,
      m_caps = (m_caps m \<noteq> (c = 0x3A)), m_num = (m_num m \<noteq> (c = 0x45)), m_scroll = (m_scroll m \<noteq> (c = 0x46))\<rparr>"
| "apply_key (Release c) m =
     m\<lparr>m_shift := m_shift m \<and> \<not> is_shift c, m_ctl := m_ctl m \<and> \<not> is_ctl c, m_alt := m_alt m \<and> \<not> is_alt c\<rparr>"

definition swap_case :: "u8 \<Rightarrow> u8" where
  "swap_case c = (if 97 \<le> c \<and> c \<le> 122 then c - 32 else if 65 \<le> c \<and> c \<le> 90 then c + 32 else c)"

definition key_char :: "mods \<Rightarrow> u8 \<Rightarrow> u8" where
  "key_char m c =
     (let ch = (if m_ctl m then ctlmap c else if m_shift m then shiftmap c else normalmap c)
      in if m_caps m then swap_case ch else ch)"

fun typed :: "key_event list \<Rightarrow> mods \<Rightarrow> nat list" where
  "typed [] m = []"
| "typed (Press c # es) m =
     (let m = apply_key (Press c) m; ch = key_char m c in (if ch = 0 then [] else [unat ch]) @ typed es m)"
| "typed (Release c # es) m = typed es (apply_key (Release c) m)"

text \<open>The flags in the static variable.\<close>

definition mods_of :: "u32 \<Rightarrow> mods" where
  "mods_of sh = \<lparr>m_shift = bit sh 0, m_ctl = bit sh 1, m_alt = bit sh 2, m_caps = bit sh 3, m_num = bit sh 4, m_scroll = bit sh 5\<rparr>"

lemma flag_tests [simp]: "(sh :: u32) AND 64 = 0 \<longleftrightarrow> \<not> bit sh 6" "sh AND 8 = 0 \<longleftrightarrow> \<not> bit sh 3" "(c :: u8) AND 128 = 0 \<longleftrightarrow> \<not> bit c 7"
  using and_exp_eq_0_iff_not_bit [of sh 6] and_exp_eq_0_iff_not_bit [of sh 3] and_exp_eq_0_iff_not_bit [of c 7] by simp_all

lemma shiftcode_eq: "ucast (shiftcode c) = (if is_shift c then SHIFT else if is_ctl c then CTL else if is_alt c then ALT else 0)"
  by (auto simp: shiftcode_def table_def is_shift_def is_ctl_def is_alt_def)

lemma togglecode_eq: "ucast (togglecode c) = (if c = 0x3A then CAPSLOCK else if c = 0x45 then NUMLOCK else if c = 0x46 then SCROLLLOCK else 0)"
  by (auto simp: togglecode_def table_def)

lemma is_disjoint: "is_shift c \<Longrightarrow> \<not> is_ctl c \<and> \<not> is_alt c" "is_ctl c \<Longrightarrow> \<not> is_alt c"
  by (auto simp: is_shift_def is_ctl_def is_alt_def)

lemma shift_bits:
  "bit (ucast (shiftcode c) :: u32) 0 = is_shift c" "bit (ucast (shiftcode c) :: u32) 1 = is_ctl c" "bit (ucast (shiftcode c) :: u32) 2 = is_alt c"
  "\<not> bit (ucast (shiftcode c) :: u32) 3" "\<not> bit (ucast (shiftcode c) :: u32) 4" "\<not> bit (ucast (shiftcode c) :: u32) 5"
  "\<not> bit (ucast (shiftcode c) :: u32) 6"
  unfolding shiftcode_eq using is_disjoint [of c] by (simp_all add: bit_1_iff)

lemma toggle_bits:
  "\<not> bit (ucast (togglecode c) :: u32) 0" "\<not> bit (ucast (togglecode c) :: u32) 1" "\<not> bit (ucast (togglecode c) :: u32) 2"
  "bit (ucast (togglecode c) :: u32) 3 = (c = 0x3A)" "bit (ucast (togglecode c) :: u32) 4 = (c = 0x45)" "bit (ucast (togglecode c) :: u32) 5 = (c = 0x46)"
  "\<not> bit (ucast (togglecode c) :: u32) 6"
  unfolding togglecode_eq by simp_all

lemma e0_bits: "bit (64 :: u32) n \<longleftrightarrow> n = 6"
  using bit_exp_iff [of 6 n, where 'a = u32] by (auto simp: possible_bit_word)

lemma mods_press:
  "mods_of ((sh OR ucast (shiftcode c)) XOR ucast (togglecode c)) = apply_key (Press c) (mods_of sh)"
  "bit ((sh OR ucast (shiftcode c)) XOR ucast (togglecode c)) 6 = bit sh 6"
  by (simp_all add: mods_of_def bit_or_iff bit_xor_iff shift_bits toggle_bits del: One_nat_def)

lemma mods_release:
  "mods_of (sh AND NOT (ucast (shiftcode c) OR E0ESC)) = apply_key (Release c) (mods_of sh)"
  "\<not> bit (sh AND NOT (ucast (shiftcode c) OR E0ESC)) 6"
  unfolding mods_of_def bit_and_iff bit_not_iff bit_or_iff shift_bits e0_bits possible_bit_word by (simp_all add: shift_bits)

lemma mods_prefix: "mods_of (sh OR E0ESC) = mods_of sh" "mods_of (sh AND NOT E0ESC) = mods_of sh"
  "bit (sh OR E0ESC) 6" "\<not> bit (sh AND NOT E0ESC) 6"
  unfolding mods_of_def bit_and_iff bit_not_iff bit_or_iff e0_bits possible_bit_word by simp_all

lemma charcode_mods: "charcode (sh AND (CTL OR SHIFT)) c = (if m_ctl (mods_of sh) then ctlmap c else if m_shift (mods_of sh) then shiftmap c else normalmap c)"
proof -
  have "sh AND 3 = of_bool (bit sh 0) OR (if bit sh 1 then 2 else 0)"
  proof (rule bit_word_eqI)
    fix n assume "n < LENGTH(32)"
    have "(3 :: u32) = 1 OR 2" by simp
    then have "bit (3 :: u32) n \<longleftrightarrow> n = 0 \<or> n = 1" by (simp only: bit_or_iff) (auto simp: bit_simps)
    then show "bit (sh AND 3) n = bit (of_bool (bit sh 0) OR (if bit sh 1 then 2 else 0) :: u32) n" by (auto simp: bit_simps)
  qed
  then show ?thesis by (auto simp: charcode_def mods_of_def)
qed

text \<open>One key at a time.\<close>

lemma kbd_press_plain:
  assumes "\<not> bit c 7" "\<not> bit sh 6"
  obtains sh' where "kbdgetc KBS_DIB c sh = (uint (key_char (mods_of sh') c), sh')" "mods_of sh' = apply_key (Press c) (mods_of sh)" "\<not> bit sh' 6"
proof -
  let ?sh = "(sh OR ucast (shiftcode c)) XOR ucast (togglecode c)"
  have "c \<noteq> 0xE0" using assms(1) by auto
  then have "kbdgetc KBS_DIB c sh = (uint (key_char (mods_of ?sh) c), ?sh)"
    using assms charcode_mods [of ?sh c] by (simp add: kbdgetc_def Let_def key_char_def swap_case_def mods_of_def)
  then show ?thesis using that mods_press [of sh c] assms(2) by blast
qed


lemma bit_7F: "bit (0x7F :: u8) n \<longleftrightarrow> n < 7"
proof -
  have "bit (mask 7 :: u8) n \<longleftrightarrow> n < 7" by (simp only: bit_mask_iff possible_bit_word) auto
  moreover have "(mask 7 :: u8) = 0x7F" by (simp add: mask_eq_exp_minus_1)
  ultimately show ?thesis by metis
qed

lemma bit_80: "bit (0x80 :: u8) n \<longleftrightarrow> n = 7"
  using bit_exp_iff [of 7 n, where 'a = u8] by (auto simp: possible_bit_word)

lemma code_bits:
  "bit c 7 \<Longrightarrow> (c AND 0x7F) OR 0x80 = (c :: u8)" "\<not> bit c 7 \<Longrightarrow> (c OR 0x80) AND 0x7F = c" "\<not> bit (c AND 0x7F) 7" "bit (c OR 0x80) 7"
proof -
  have lt: "n < 7 \<or> n = 7" if "n < LENGTH(8)" for n using that by auto
  show "(c AND 0x7F) OR 0x80 = c" if b: "bit c 7"
  proof (rule bit_word_eqI)
    fix n assume "n < LENGTH(8)"
    from lt [OF this] b show "bit ((c AND 0x7F) OR 0x80) n = bit c n" unfolding bit_or_iff bit_and_iff bit_7F bit_80 by auto
  qed
  show "(c OR 0x80) AND 0x7F = c" if b: "\<not> bit c 7"
  proof (rule bit_word_eqI)
    fix n assume "n < LENGTH(8)"
    from lt [OF this] b show "bit ((c OR 0x80) AND 0x7F) n = bit c n" unfolding bit_or_iff bit_and_iff bit_7F bit_80 by auto
  qed
  show "\<not> bit (c AND 0x7F) 7" "bit (c OR 0x80) 7" by (simp_all add: bit_and_iff bit_or_iff bit_7F bit_80)
qed

lemma kbd_prefix: "kbdgetc KBS_DIB 0xE0 sh = (0, sh OR E0ESC)"
  by (simp add: kbdgetc_def)

lemma kbd_press_prefixed:
  assumes "bit c 7"
  obtains sh' where "kbdgetc KBS_DIB (c AND 0x7F) (sh OR E0ESC) = (uint (key_char (mods_of sh') c), sh')"
    "mods_of sh' = apply_key (Press c) (mods_of sh)" "\<not> bit sh' 6"
proof -
  let ?s0 = "(sh OR E0ESC) AND NOT E0ESC"
  let ?sh = "(?s0 OR ucast (shiftcode c)) XOR ucast (togglecode c)"
  have "c AND 0x7F \<noteq> 0xE0" using code_bits(3) [of c] by auto
  then have "kbdgetc KBS_DIB (c AND 0x7F) (sh OR E0ESC) = (uint (key_char (mods_of ?sh) c), ?sh)"
    using code_bits(3) [of c] code_bits(1) [OF assms] mods_prefix(3) [of sh] charcode_mods [of ?sh c]
    by (simp add: kbdgetc_def Let_def key_char_def swap_case_def mods_of_def)
  then show ?thesis using that mods_press [of ?s0 c] mods_prefix by metis
qed

lemma kbd_release:
  assumes "bit d 7" "d \<noteq> 0xE0"
  shows "kbdgetc KBS_DIB d sh = (0, sh AND NOT (ucast (shiftcode (if bit sh 6 then d else d AND 0x7F)) OR E0ESC))"
  using assms by (simp add: kbdgetc_def)

definition event_ok :: "key_event \<Rightarrow> bool" where
  "event_ok e = (case e of Press c \<Rightarrow> key_ok c | Release c \<Rightarrow> key_ok c)"

lemma kbd_event:
  assumes "event_ok e" "\<not> bit sh 6"
  shows "\<exists>cs sh'. kbd_chars (scan e) sh = (cs, sh') \<and> mods_of sh' = apply_key e (mods_of sh) \<and> \<not> bit sh' 6 \<and>
    filter (\<lambda>c. c \<noteq> 0) cs = typed [e] (mods_of sh)"
proof (cases e)
  case (Press c)
  have nonzero: "unat x = 0 \<longleftrightarrow> x = 0" for x :: u8 by (simp add: unat_eq_zero)
  show ?thesis
  proof (cases "bit c 7")
    case True
    from kbd_press_prefixed [OF True, of sh] obtain sh' where "kbdgetc KBS_DIB (c AND 0x7F) (sh OR E0ESC) = (uint (key_char (mods_of sh') c), sh')"
      "mods_of sh' = apply_key (Press c) (mods_of sh)" "\<not> bit sh' 6" .
    then show ?thesis using Press True nonzero [of "key_char (mods_of sh') c"] by (simp add: kbd_prefix Let_def del: apply_key.simps)
  next
    case False
    from kbd_press_plain [OF False assms(2)] obtain sh' where "kbdgetc KBS_DIB c sh = (uint (key_char (mods_of sh') c), sh')"
      "mods_of sh' = apply_key (Press c) (mods_of sh)" "\<not> bit sh' 6" .
    then show ?thesis using Press False nonzero [of "key_char (mods_of sh') c"] by (simp add: Let_def del: apply_key.simps)
  qed
next
  case (Release c)
  show ?thesis
  proof (cases "bit c 7")
    case True
    have "c \<noteq> 0xE0" using assms(1) Release by (auto simp: event_ok_def key_ok_def)
    from kbd_release [OF True this, of "sh OR E0ESC"] show ?thesis
      using Release True mods_release [of "sh OR E0ESC" c] mods_prefix [of sh] by (simp add: kbd_prefix)
  next
    case False
    have "c OR 0x80 \<noteq> 0xE0" using assms(1) Release code_bits(2) [OF False] by (auto simp: event_ok_def key_ok_def)
    from kbd_release [OF code_bits(4) this, of sh] show ?thesis
      using Release False mods_release [of sh c] assms(2) code_bits(2) [OF False] by simp
  qed
qed

lemma kbd_chars_append:
  "kbd_chars (bs @ bs') sh = (let (cs, sh) = kbd_chars bs sh; (cs', sh) = kbd_chars bs' sh in (cs @ cs', sh))"
  by (induction bs arbitrary: sh) (auto simp: split_beta Let_def)

lemma typed_Cons: "typed (e # es) m = typed [e] m @ typed es (apply_key e m)"
  by (cases e) (simp_all add: Let_def)

definition letter_keys :: "(u8 \<times> u8) list" where
  "letter_keys = zip [0x10, 0x11, 0x12, 0x13, 0x14, 0x15, 0x16, 0x17, 0x18, 0x19] (bytes ''qwertyuiop'') @ zip [0x1E, 0x1F, 0x20, 0x21, 0x22, 0x23, 0x24, 0x25, 0x26] (bytes ''asdfghjkl'') @ zip [0x2C, 0x2D, 0x2E, 0x2F, 0x30, 0x31, 0x32] (bytes ''zxcvbnm'')"

definition letter_char :: "mods \<Rightarrow> u8 \<Rightarrow> u8" where
  "letter_char m l = (if m_ctl m then l - 96 else if m_shift m \<noteq> m_caps m then l - 32 else l)"

lemma letter_maps:
  "map (normalmap \<circ> fst) letter_keys = map snd letter_keys"
  "map (shiftmap \<circ> fst) letter_keys = map (\<lambda>x. snd x - 32) letter_keys"
  "map (ctlmap \<circ> fst) letter_keys = map (\<lambda>x. snd x - 96) letter_keys"
  "list_all (\<lambda>x. swap_case (snd x) = snd x - 32 \<and> swap_case (snd x - 32) = snd x \<and> swap_case (snd x - 96) = snd x - 96) letter_keys"
  by code_simp+

lemma key_letters: "list_all (\<lambda>(c, l). key_char m c = letter_char m l) letter_keys"
proof -
  have "key_char m c = letter_char m l" if cl: "(c, l) \<in> set letter_keys" for c l
  proof -
    have "normalmap c = l" "shiftmap c = l - 32" "ctlmap c = l - 96" "swap_case l = l - 32" "swap_case (l - 32) = l" "swap_case (l - 96) = l - 96"
      using letter_maps cl by (force simp: list_all_iff)+
    then show ?thesis by (simp add: key_char_def letter_char_def Let_def)
  qed
  then show ?thesis by (auto simp: list_all_iff)
qed

lemma kbd_chars_typed:
  assumes "list_all event_ok es" "\<not> bit sh 6"
  shows "filter (\<lambda>c. c \<noteq> 0) (fst (kbd_chars (concat (map scan es)) sh)) = typed es (mods_of sh) \<and>
    mods_of (snd (kbd_chars (concat (map scan es)) sh)) = fold apply_key es (mods_of sh) \<and>
    \<not> bit (snd (kbd_chars (concat (map scan es)) sh)) 6"
  using assms
proof (induction es arbitrary: sh)
  case (Cons e es)
  obtain cs sh' where e: "kbd_chars (scan e) sh = (cs, sh')" "mods_of sh' = apply_key e (mods_of sh)" "\<not> bit sh' 6"
    "filter (\<lambda>c. c \<noteq> 0) cs = typed [e] (mods_of sh)" using kbd_event [of e sh] Cons.prems by auto
  have "kbd_chars (concat (map scan (e # es))) sh = (cs @ fst (kbd_chars (concat (map scan es)) sh'), snd (kbd_chars (concat (map scan es)) sh'))"
    by (simp add: kbd_chars_append e(1) split_beta)
  then show ?case using Cons.IH [OF _ e(3)] Cons.prems(1) e(2,4) typed_Cons [of e es "mods_of sh"] by simp
qed simp


text \<open>C36: whatever keys are pressed and released, in whatever order, the non-null characters that the keyboard driver hands to the console
  are those of the keys pressed, one each, under the modifiers and locks in force - letters in the case that Shift and Caps Lock together give,
  control characters under Control -, and the state left is that of the modifiers: prefix bytes of extended keys leave no trace.\<close>

theorem kbd_types:
  assumes "list_all event_ok es" "\<not> bit sh 6"
  shows "filter (\<lambda>c. c \<noteq> 0) (fst (kbd_chars (concat (map scan es)) sh)) = typed es (mods_of sh) \<and>
    mods_of (snd (kbd_chars (concat (map scan es)) sh)) = fold apply_key es (mods_of sh) \<and>
    list_all (\<lambda>(c, l). \<forall>m. key_char m c = letter_char m l) letter_keys"
  using kbd_chars_typed [OF assms] key_letters by (auto simp: list_all_iff)

text \<open>Shift down, A, A up, Shift up, S.\<close>

theorem kbd_types_witness:
  "filter (\<lambda>c. c \<noteq> 0) (fst (kbd_chars [0x2A, 0x1E, 0x9E, 0xAA, 0x1F] 0)) = [65, 115]"
proof -
  let ?es = "[Press 0x2A, Press 0x1E, Release 0x1E, Release 0x2A, Press 0x1F]"
  have "list_all event_ok ?es" "concat (map scan ?es) = [0x2A, 0x1E, 0x9E, 0xAA, 0x1F]" "typed ?es (mods_of 0) = [65, 115]" by code_simp+
  then show ?thesis using kbd_types [of ?es 0] by simp
qed

text \<open>The two Shift keys share a flag: releasing one of them ends the effect of the other.\<close>

lemma both_shifts: "\<not> m_shift (fold apply_key [Press 0x2A, Press 0x36, Release 0x36] m)"
  by (simp add: is_shift_def)

end
