(* ===== verification/Mp.thy ===== *)
theory Mp
  imports Mem
begin

unbundle bit_operations_syntax

text \<open>
  Finding the processors, \<^verbatim>\<open>mp.c\<close>: the search for the floating pointer structure of the BIOS, the check of the configuration table, and the
  walk over its entries. Addresses are the kernel's virtual addresses. A loop that may not end is a partial function into \<open>option\<close>, where
  \<open>None\<close> says that it runs forever.
\<close>

section \<open>The floating pointer structure\<close>

abbreviation (input) NCPU :: nat where "NCPU \<equiv> 8"

text \<open>\<^verbatim>\<open>sum\<close>, whose result is cut to a byte, and \<^verbatim>\<open>memcmp\<close> with a string literal.\<close>

definition checksum :: "memory \<Rightarrow> u32 \<Rightarrow> nat \<Rightarrow> u8" where
  "checksum m addr len = sum_list (map (\<lambda>i. m (addr + of_nat i)) [0..<len])"

definition signed_as :: "memory \<Rightarrow> u32 \<Rightarrow> u8 list \<Rightarrow> bool" where
  "signed_as m addr s \<longleftrightarrow> map (\<lambda>i. m (addr + of_nat i)) [0..<length s] = s"

definition is_mp :: "memory \<Rightarrow> u32 \<Rightarrow> bool" where
  "is_mp m p \<longleftrightarrow> signed_as m p (bytes ''_MP_'') \<and> checksum m p 16 = 0"

partial_function (option) mpsearch_loop :: "memory \<Rightarrow> u32 \<Rightarrow> u32 \<Rightarrow> u32 option option" where
  "mpsearch_loop m p e =
     (if p < e then (if is_mp m p then Some (Some p) else mpsearch_loop m (p + 16) e) else Some None)"

definition mpsearch1 :: "memory \<Rightarrow> u32 \<Rightarrow> u32 \<Rightarrow> u32 option option" where
  "mpsearch1 m a len = (let addr = P2V a in mpsearch_loop m addr (addr + len))"

definition bda16 :: "memory \<Rightarrow> u32 \<Rightarrow> u32" where
  "bda16 m off = push_bit 8 (ucast (m (P2V 0x400 + off + 1))) OR ucast (m (P2V 0x400 + off))"

definition mpsearch :: "memory \<Rightarrow> u32 option option" where
  "mpsearch m =
     (let p = push_bit 4 (bda16 m 0x0E) in
      case (if p \<noteq> 0 then mpsearch1 m p 1024 else mpsearch1 m (bda16 m 0x13 * 1024 - 1024) 1024) of
        None \<Rightarrow> None
      | Some (Some mp) \<Rightarrow> Some (Some mp)
      | Some None \<Rightarrow> mpsearch1 m 0xF0000 0x10000)"

section \<open>The configuration table\<close>

definition conf_length :: "memory \<Rightarrow> u32 \<Rightarrow> nat" where
  "conf_length m conf = unat (m (conf + 4)) + 256 * unat (m (conf + 5))"

definition mpconfig :: "memory \<Rightarrow> (u32 \<times> u32) option option" where
  "mpconfig m =
     (case mpsearch m of
        None \<Rightarrow> None
      | Some None \<Rightarrow> Some None
      | Some (Some mp) \<Rightarrow>
          if load32 m (mp + 4) = 0 then Some None
          else
            let conf = P2V (load32 m (mp + 4)) in
            if \<not> signed_as m conf (bytes ''PCMP'') then Some None
            else if m (conf + 6) \<noteq> 1 \<and> m (conf + 6) \<noteq> 4 then Some None
            else if checksum m conf (conf_length m conf) \<noteq> 0 then Some None
            else Some (Some (mp, conf)))"

record mpst =
  apicids :: "u8 list"
  ioapicid :: u8
  lapic :: u32
  outs :: "(u16 \<times> u8) list"

text \<open>The walk over the entries. The \<^verbatim>\<open>break\<close> of the last case ends the \<^verbatim>\<open>switch\<close>, not the loop.\<close>

partial_function (option) mp_loop :: "memory \<Rightarrow> u32 \<Rightarrow> u32 \<Rightarrow> bool \<Rightarrow> mpst \<Rightarrow> (bool \<times> mpst) option" where
  "mp_loop m e p ismp s =
     (if p < e then
        (if m p = 0 then mp_loop m e (p + 20) ismp (if length (apicids s) < NCPU then s\<lparr>apicids := apicids s @ [m (p + 1)]\<rparr> else s)
         else if m p = 2 then mp_loop m e (p + 8) ismp (s\<lparr>ioapicid := m (p + 1)\<rparr>)
         else if m p = 1 \<or> m p = 3 \<or> m p = 4 then mp_loop m e (p + 8) ismp s
         else mp_loop m e p False s)
      else Some (ismp, s))"

definition mpinit :: "memory \<Rightarrow> (u16 \<Rightarrow> u8) \<Rightarrow> mpst \<Rightarrow> mpst outcome option" where
  "mpinit m inb s =
     (case mpconfig m of
        None \<Rightarrow> None
      | Some None \<Rightarrow> Some (Panic ''Expect to run on an SMP'')
      | Some (Some (mp, conf)) \<Rightarrow>
          (case mp_loop m (conf + of_nat (conf_length m conf)) (conf + 44) True (s\<lparr>lapic := load32 m (conf + 36)\<rparr>) of
             None \<Rightarrow> None
           | Some (ismp, s) \<Rightarrow>
               Some (if \<not> ismp then Panic ''Didn't find a suitable machine''
                 else if m (mp + 12) \<noteq> 0 then Ok (s\<lparr>outs := outs s @ [(0x22, 0x70), (0x23, inb 0x23 OR 1)]\<rparr>)
                 else Ok s)))"

section \<open>The search\<close>

text \<open>The search looks at every sixteenth byte, in order.\<close>

lemma mpsearch_loop_find:
  "unat p + 16 * k < 2 ^ 32 \<Longrightarrow> unat e = unat p + 16 * k \<Longrightarrow> mpsearch_loop m p e = Some (find (is_mp m) (map (\<lambda>i. p + 16 * of_nat i) [0..<k]))"
proof (induction k arbitrary: p)
  case 0 then show ?case by (simp add: mpsearch_loop.simps word_less_nat_alt)
next
  case (Suc k)
  have u: "unat (p + 16) = unat p + 16" using Suc.prems(1) by (simp add: unat_plus_if')
  have lt: "p < e" using Suc.prems(2) by (simp add: word_less_nat_alt)
  have "[0..<Suc k] = 0 # map Suc [0..<k]" by (metis map_Suc_upt upt_conv_Cons zero_less_Suc)
  then have l: "map (\<lambda>i. p + 16 * of_nat i) [0..<Suc k] = p # map (\<lambda>i. (p + 16) + 16 * of_nat i) [0..<k]" by (simp add: algebra_simps)
  have "mpsearch_loop m (p + 16) e = Some (find (is_mp m) (map (\<lambda>i. (p + 16) + 16 * of_nat i) [0..<k]))"
    using Suc.prems u by (intro Suc.IH) simp_all
  then show ?case unfolding l using lt by (subst mpsearch_loop.simps) simp
qed

lemma mpsearch1_find:
  assumes "unat (P2V a) + 16 * k < 2 ^ 32"
  shows "mpsearch1 m a (of_nat (16 * k)) = Some (find (is_mp m) (map (\<lambda>i. P2V a + 16 * of_nat i) [0..<k]))"
proof -
  have "unat (of_nat (16 * k) :: u32) = 16 * k" using assms by (subst unsigned_of_nat) (simp add: take_bit_nat_eq_self)
  then have "unat (P2V a + of_nat (16 * k)) = unat (P2V a) + 16 * k" using assms by (simp add: unat_plus_if')
  then show ?thesis unfolding mpsearch1_def Let_def by (rule mpsearch_loop_find [OF assms])
qed

text \<open>Where the code looks: in the first kilobyte of the extended BIOS data area, or the last one of base memory when there is none, and then in the upper
  half of the BIOS ROM, from \<open>0xF0000\<close>. The comment of \<^verbatim>\<open>mpsearch\<close> names a ROM from \<open>0xE0000\<close>: a structure in its lower half is not found.\<close>

definition mp_places :: "memory \<Rightarrow> u32 list" where
  "mp_places m =
     (let p = push_bit 4 (bda16 m 0x0E); a = (if p \<noteq> 0 then p else bda16 m 0x13 * 1024 - 1024) in
      map (\<lambda>i. P2V a + 16 * of_nat i) [0..<64] @ map (\<lambda>i. P2V 0xF0000 + 16 * of_nat i) [0..<4096])"

lemma bda16_bound: "unat (bda16 m off) < 65536"
proof -
  have "bda16 m off = take_bit 16 (bda16 m off)"
    by (rule bit_word_eqI) (auto simp: bda16_def bit_simps dest: bit_imp_le_length)
  then have "unat (bda16 m off) = take_bit 16 (unat (bda16 m off))" by (metis unsigned_take_bit_eq)
  then show ?thesis using take_bit_nat_less_exp [of 16 "unat (bda16 m off)"] by simp
qed

lemma find_append: "find P (xs @ ys) = (case find P xs of None \<Rightarrow> find P ys | Some x \<Rightarrow> Some x)"
  by (induction xs) auto

lemma mpsearch_find: "mpsearch m = Some (find (is_mp m) (mp_places m))"
proof -
  let ?p = "push_bit 4 (bda16 m 0x0E)" let ?q = "bda16 m 0x13 * 1024 - 1024"
  have k: "1024 = (of_nat (16 * 64) :: u32)" "0x10000 = (of_nat (16 * 4096) :: u32)" by simp_all
  have "unat ?p = 16 * unat (bda16 m 0x0E)" using bda16_bound [of m "0x0E"] by (simp add: push_bit_eq_mult unat_mult_lem [THEN iffD1])
  then have p: "unat (P2V ?p) + 16 * 64 < 2 ^ 32"
    using bda16_bound [of m "0x0E"] by (simp add: P2V_def KERNBASE_def unat_plus_if')
  have "unat (bda16 m 0x13 * 1024) = unat (bda16 m 0x13) * 1024" using bda16_bound [of m "0x13"] by (simp add: unat_mult_lem [THEN iffD1])
  then have "unat (P2V ?q) + 16 * 64 < 2 ^ 32"
    using bda16_bound [of m "0x13"] by (simp add: P2V_def KERNBASE_def unat_plus_if' unat_sub_if')
  moreover have "unat (P2V 0xF0000) + 16 * 4096 < 2 ^ 32" by (simp add: P2V_def KERNBASE_def)
  ultimately show ?thesis using p
    unfolding mpsearch_def mp_places_def Let_def k by (simp only: mpsearch1_find if_distrib) (auto simp: find_append split: option.splits)
qed

section \<open>The entries\<close>

datatype mpentry = Cpu u8 "u8 list" | Ioapic u8 "u8 list" | Other u8 "u8 list"

fun enc :: "mpentry \<Rightarrow> u8 list" where
  "enc (Cpu a r) = 0 # a # r"
| "enc (Ioapic a r) = 2 # a # r"
| "enc (Other t r) = t # r"

fun entry_ok :: "mpentry \<Rightarrow> bool" where
  "entry_ok (Cpu a r) \<longleftrightarrow> length r = 18"
| "entry_ok (Ioapic a r) \<longleftrightarrow> length r = 6"
| "entry_ok (Other t r) \<longleftrightarrow> t \<in> {1, 3, 4} \<and> length r = 7"

definition holds_at :: "memory \<Rightarrow> u32 \<Rightarrow> u8 list \<Rightarrow> bool" where
  "holds_at m p bs \<longleftrightarrow> (\<forall>i < length bs. m (p + of_nat i) = bs ! i)"

lemma holds_at_append: "holds_at m p (xs @ ys) \<longleftrightarrow> holds_at m p xs \<and> holds_at m (p + of_nat (length xs)) ys"
proof
  assume h: "holds_at m p (xs @ ys)"
  show "holds_at m p xs \<and> holds_at m (p + of_nat (length xs)) ys" unfolding holds_at_def
  proof (intro conjI allI impI)
    fix i assume "i < length xs" then show "m (p + of_nat i) = xs ! i" using h by (auto simp: holds_at_def nth_append)
  next
    fix i assume "i < length ys"
    then show "m (p + of_nat (length xs) + of_nat i) = ys ! i"
      using h [unfolded holds_at_def, rule_format, of "length xs + i"] by (simp add: add.assoc)
  qed
next
  assume h: "holds_at m p xs \<and> holds_at m (p + of_nat (length xs)) ys"
  show "holds_at m p (xs @ ys)" unfolding holds_at_def
  proof (intro allI impI)
    fix i assume "i < length (xs @ ys)"
    then show "m (p + of_nat i) = (xs @ ys) ! i"
      using h [unfolded holds_at_def, THEN conjunct2, rule_format, of "i - length xs"] h
      by (cases "i < length xs") (auto simp: holds_at_def nth_append add.assoc)
  qed
qed

fun record_entry :: "mpentry \<Rightarrow> mpst \<Rightarrow> mpst" where
  "record_entry (Cpu a r) s = (if length (apicids s) < NCPU then s\<lparr>apicids := apicids s @ [a]\<rparr> else s)"
| "record_entry (Ioapic a r) s = s\<lparr>ioapicid := a\<rparr>"
| "record_entry (Other t r) s = s"

lemma one_entry:
  assumes "entry_ok x" "holds_at m p (enc x)" "p < e"
  shows "mp_loop m e p ismp s = mp_loop m e (p + of_nat (length (enc x))) ismp (record_entry x s)"
proof -
  have b: "m p = hd (enc x)" "m (p + 1) = enc x ! 1"
    using assms(1) assms(2) [unfolded holds_at_def, rule_format, of 0] assms(2) [unfolded holds_at_def, rule_format, of 1]
    by (cases x; auto)+
  show ?thesis using assms(1,3) b by (cases x) (auto simp: mp_loop.simps [of m e p])
qed

lemma all_entries:
  assumes "list_all entry_ok es" "holds_at m p (concat (map enc es))" "unat p + length (concat (map enc es)) \<le> unat e"
  shows "mp_loop m e p ismp s = mp_loop m e (p + of_nat (length (concat (map enc es)))) ismp (fold record_entry es s)"
  using assms
proof (induction es arbitrary: p s)
  case (Cons x es)
  have l: "0 < length (enc x)" "length (enc x) < 2 ^ 32" using Cons.prems(1) by (cases x; auto)+
  have x: "entry_ok x" "holds_at m p (enc x)" "holds_at m (p + of_nat (length (enc x))) (concat (map enc es))"
    using Cons.prems(1,2) by (simp_all add: holds_at_append)
  have "length (concat (map enc (x # es))) = length (enc x) + length (concat (map enc es))" by simp
  then have lt: "p < e" using Cons.prems(3) l(1) unfolding word_less_nat_alt by linarith
  have le: "unat p + length (enc x) \<le> unat e" using Cons.prems(3) by simp
  have "unat (of_nat (length (enc x)) :: u32) = length (enc x)" using l(2) by (subst unsigned_of_nat) (simp add: take_bit_nat_eq_self)
  moreover have "unat e < 2 ^ 32" using unsigned_less [of e] by simp
  then have "unat p + length (enc x) < 2 ^ 32" using le by linarith
  ultimately have u: "unat (p + of_nat (length (enc x))) = unat p + length (enc x)" by (simp add: unat_plus_if')
  have "mp_loop m e p ismp s = mp_loop m e (p + of_nat (length (enc x))) ismp (record_entry x s)" by (rule one_entry [OF x(1,2) lt])
  also have "\<dots> = mp_loop m e (p + of_nat (length (enc x)) + of_nat (length (concat (map enc es)))) ismp (fold record_entry es (record_entry x s))"
    using Cons.prems(1,3) x(3) u by (intro Cons.IH) simp_all
  finally show ?case by (simp add: add.assoc)
qed simp

fun cpu_id :: "mpentry \<Rightarrow> u8 option" where
  "cpu_id (Cpu a r) = Some a"
| "cpu_id _ = None"

fun io_id :: "mpentry \<Rightarrow> u8 option" where
  "io_id (Ioapic a r) = Some a"
| "io_id _ = None"

lemma record_entries:
  assumes "length (apicids s) \<le> NCPU"
  shows "fold record_entry es s = s\<lparr>apicids := take NCPU (apicids s @ List.map_filter cpu_id es), ioapicid := last (ioapicid s # List.map_filter io_id es)\<rparr>"
  using assms
proof (induction es arbitrary: s)
  case Nil then show ?case by (simp add: map_filter_simps)
next
  case (Cons x es)
  have "length (apicids (record_entry x s)) \<le> NCPU" using Cons.prems by (cases x) auto
  note ih = Cons.IH [OF this]
  show ?case using Cons.prems unfolding fold.simps o_def ih by (cases x) (auto simp: map_filter_simps take_Cons')
qed

text \<open>An entry of an unknown type stops the walk for good.\<close>

lemma unknown_stuck:
  assumes "p < e" "m p \<notin> {0, 1, 2, 3, 4}"
  shows "mp_loop m e p ismp s = None"
proof -
  have "\<not> (p < e \<and> m p \<notin> {0, 1, 2, 3, 4})" if "mp_loop m e p ismp s = Some r" for r
    using that
    by (rule mp_loop.raw_induct [where P = "\<lambda>m e p ismp s r. \<not> (p < e \<and> m p \<notin> {0, 1, 2, 3, 4})", rotated]) (fastforce split: if_splits)
  then show ?thesis using assms by (cases "mp_loop m e p ismp s") auto
qed

text \<open>A configuration table with the entries \<open>es\<close> and \<open>k\<close> further bytes.\<close>

definition has_table :: "memory \<Rightarrow> u32 \<Rightarrow> mpentry list \<Rightarrow> nat \<Rightarrow> bool" where
  "has_table m conf es k \<longleftrightarrow> list_all entry_ok es \<and> holds_at m (conf + 44) (concat (map enc es)) \<and>
     conf_length m conf = 44 + length (concat (map enc es)) + k \<and> unat conf + conf_length m conf < 2 ^ 32"

lemma table_walk:
  assumes "has_table m conf es k"
  defines "e \<equiv> conf + of_nat (conf_length m conf)" and "q \<equiv> conf + 44 + of_nat (length (concat (map enc es)))"
  shows "mp_loop m e (conf + 44) ismp s = mp_loop m e q ismp (fold record_entry es s)" "q < e \<longleftrightarrow> 0 < k"
proof -
  let ?n = "length (concat (map enc es))"
  have t: "list_all entry_ok es" "holds_at m (conf + 44) (concat (map enc es))" "conf_length m conf = 44 + ?n + k" "unat conf + (44 + ?n + k) < 2 ^ 32"
    using assms(1) by (simp_all add: has_table_def)
  have u: "unat (conf + of_nat i) = unat conf + i" if "i \<le> 44 + ?n + k" for i
  proof -
    have "unat (of_nat i :: u32) = i" using that t(4) by (subst unsigned_of_nat) (simp add: take_bit_nat_eq_self)
    then show ?thesis using that t(4) by (simp add: unat_plus_if')
  qed
  have e: "unat e = unat conf + (44 + ?n + k)" unfolding e_def t(3) by (rule u) simp
  have p: "unat (conf + 44) = unat conf + 44" using u [of 44] by simp
  have "q = conf + of_nat (44 + ?n)" by (simp add: q_def add.assoc)
  then have q: "unat q = unat conf + (44 + ?n)" using u [of "44 + ?n"] by (simp only:)
  show "mp_loop m e (conf + 44) ismp s = mp_loop m e q ismp (fold record_entry es s)"
    unfolding q_def by (rule all_entries [OF t(1,2)]) (use e p in simp)
  show "q < e \<longleftrightarrow> 0 < k" using e q by (simp add: word_less_nat_alt)
qed

text \<open>C25: on a machine whose tables are in order \<^verbatim>\<open>mpinit\<close> returns, with the local APICs of the first eight processors in the order of the
  table, the last I/O APIC, and the address of the local APIC; the tables are those of the first structure with signature and checksum among the places where the code
  looks, every sixteenth byte of one kilobyte and of the ROM from \<open>0xF0000\<close> on.\<close>

theorem mpinit_configures:
  assumes "mpconfig m = Some (Some (mp, conf))" "has_table m conf es 0" "apicids s = []"
  shows "mpsearch m = Some (find (is_mp m) (mp_places m)) \<and>
    (\<exists>s'. mpinit m inb s = Some (Ok s') \<and> apicids s' = take NCPU (List.map_filter cpu_id es) \<and>
      ioapicid s' = last (ioapicid s # List.map_filter io_id es) \<and> lapic s' = load32 m (conf + 36))"
proof -
  let ?e = "conf + of_nat (conf_length m conf)" let ?s = "s\<lparr>lapic := load32 m (conf + 36)\<rparr>"
  let ?q = "conf + 44 + of_nat (length (concat (map enc es)))"
  have "mp_loop m ?e (conf + 44) True ?s = Some (True, fold record_entry es ?s)"
    using table_walk [OF assms(2)] by (simp add: mp_loop.simps [of m ?e ?q])
  then show ?thesis using assms(1,3) record_entries [of ?s es] by (simp add: mpinit_def mpsearch_find)
qed

text \<open>C26: an entry of an unknown type in the configuration table makes \<^verbatim>\<open>mpinit\<close> run forever: its check for an unsuitable machine is never
  reached.\<close>

theorem mpinit_hangs:
  assumes "mpconfig m = Some (Some (mp, conf))" "has_table m conf es k" "0 < k"
    "m (conf + 44 + of_nat (length (concat (map enc es)))) \<notin> {0, 1, 2, 3, 4}"
  shows "mpinit m inb s = None"
  using table_walk [OF assms(2)] unknown_stuck [where m = m, OF _ assms(4)] assms(1,3) by (simp add: mpinit_def)

text \<open>A machine whose structure is at \<open>0x9FC00\<close>, in the extended BIOS data area, followed by the table with one entry of the type \<open>t\<close>.\<close>

definition demo_mem :: "u8 \<Rightarrow> u8 \<Rightarrow> u8 \<Rightarrow> memory" where
  "demo_mem len t c = (\<lambda>_. 0)(0x8000040F := 0x9F, 0x8000040E := 0xC0,
     0x8009FC00 := 95, 0x8009FC01 := 77, 0x8009FC02 := 80, 0x8009FC03 := 95, 0x8009FC04 := 0x10, 0x8009FC05 := 0xFC, 0x8009FC06 := 9,
     0x8009FC08 := 1, 0x8009FC09 := 4, 0x8009FC0A := 139,
     0x8009FC10 := 80, 0x8009FC11 := 67, 0x8009FC12 := 77, 0x8009FC13 := 80, 0x8009FC14 := len, 0x8009FC16 := 4, 0x8009FC17 := c,
     0x8009FC36 := 0xE0, 0x8009FC37 := 0xFE, 0x8009FC3C := t)"

lemma demo_tables:
  "mpconfig (demo_mem 64 0 174) = Some (Some (0x8009FC00, 0x8009FC10))" "mpconfig (demo_mem 52 9 177) = Some (Some (0x8009FC00, 0x8009FC10))"
  by (simp_all add: demo_mem_def mpconfig_def mpsearch_def mpsearch1_def bda16_def P2V_def KERNBASE_def mpsearch_loop.simps is_mp_def signed_as_def
      bytes_def checksum_def upt_rec load32_def conf_length_def Let_def of_char_def)

lemma holds_at_map: "holds_at m p bs \<longleftrightarrow> map (\<lambda>i. m (p + of_nat i)) [0..<length bs] = bs"
  unfolding holds_at_def by (subst list_eq_iff_nth_eq) simp

theorem mpinit_configures_witness:
  "\<exists>s'. mpinit (demo_mem 64 0 174) (\<lambda>_. 0) \<lparr>apicids = [], ioapicid = 7, lapic = 0, outs = []\<rparr> = Some (Ok s') \<and> apicids s' = [0] \<and> lapic s' = 0xFEE00000"
proof -
  let ?m = "demo_mem 64 0 174"
  have "holds_at ?m 0x8009FC3C [0, 0, 0, 0, 0, 0, 0, 0, 0, 0, 0, 0, 0, 0, 0, 0, 0, 0, 0, 0]" unfolding holds_at_map by (simp add: demo_mem_def upt_rec)
  then have t: "has_table ?m 0x8009FC10 [Cpu 0 [0, 0, 0, 0, 0, 0, 0, 0, 0, 0, 0, 0, 0, 0, 0, 0, 0, 0]] 0"
    by (simp add: has_table_def conf_length_def demo_mem_def)
  have "load32 ?m (0x8009FC10 + 36) = 0xFEE00000" by (simp add: load32_def demo_mem_def)
  then show ?thesis using mpinit_configures [OF demo_tables(1) t, of "\<lparr>apicids = [], ioapicid = 7, lapic = 0, outs = []\<rparr>" "\<lambda>_. 0"]
    by (auto simp: map_filter_simps)
qed

theorem mpinit_hangs_witness: "mpinit (demo_mem 52 9 177) (\<lambda>_. 0) \<lparr>apicids = [], ioapicid = 7, lapic = 0, outs = []\<rparr> = None"
proof -
  have "has_table (demo_mem 52 9 177) 0x8009FC10 [] 8" by (simp add: has_table_def holds_at_def conf_length_def demo_mem_def)
  then show ?thesis by (rule mpinit_hangs [OF demo_tables(2)]) (simp_all add: demo_mem_def)
qed

end
