(* ===== verification/Boot.thy ===== *)
theory Boot
  imports Mem
begin

unbundle bit_operations_syntax

text \<open>
  The boot loader, \<^verbatim>\<open>bootmain.c\<close>: it reads the kernel from the disk, sector by sector, and jumps to it. Addresses are physical; the disk
  gives the 512 bytes of every sector, and \<^verbatim>\<open>waitdisk\<close> is taken to return. A loop that may not end is a partial function into \<open>option\<close>.
\<close>

section \<open>Reading the disk\<close>

abbreviation (input) SECTSIZE :: u32 where "SECTSIZE \<equiv> 512"

text \<open>The sector number in the registers \<^verbatim>\<open>0x1F3\<close> to \<^verbatim>\<open>0x1F6\<close> of the drive.\<close>

definition lba :: "u8 \<Rightarrow> u8 \<Rightarrow> u8 \<Rightarrow> u8 \<Rightarrow> u32" where
  "lba r3 r4 r5 r6 = ucast r3 OR push_bit 8 (ucast r4) OR push_bit 16 (ucast r5) OR push_bit 24 (ucast (r6 AND 0x0F))"

definition insl :: "memory \<Rightarrow> u32 \<Rightarrow> u8 list \<Rightarrow> memory" where
  "insl m dst data = (\<lambda>x. if unat (x - dst) < length data then data ! unat (x - dst) else m x)"

definition readsect :: "(u32 \<Rightarrow> u8 list) \<Rightarrow> u32 \<Rightarrow> u32 \<Rightarrow> memory \<Rightarrow> memory" where
  "readsect disk dst offset m =
     (let r3 = ucast offset; r4 = ucast (drop_bit 8 offset); r5 = ucast (drop_bit 16 offset); r6 = ucast (drop_bit 24 offset) OR 0xE0
      in insl m dst (disk (lba r3 r4 r5 r6)))"

partial_function (option) readseg_loop :: "(u32 \<Rightarrow> u8 list) \<Rightarrow> u32 \<Rightarrow> u32 \<Rightarrow> u32 \<Rightarrow> memory \<Rightarrow> memory option" where
  "readseg_loop disk epa pa offset m =
     (if pa < epa then readseg_loop disk epa (pa + SECTSIZE) (offset + 1) (readsect disk pa offset m) else Some m)"

definition readseg :: "(u32 \<Rightarrow> u8 list) \<Rightarrow> u32 \<Rightarrow> u32 \<Rightarrow> u32 \<Rightarrow> memory \<Rightarrow> memory option" where
  "readseg disk pa count offset m = readseg_loop disk (pa + count) (pa - offset mod SECTSIZE) (offset div SECTSIZE + 1) m"

section \<open>Loading the kernel\<close>

abbreviation (input) BOOT_MAGIC :: u32 where "BOOT_MAGIC \<equiv> 0x464C457F"
abbreviation (input) elf :: u32 where "elf \<equiv> 0x10000"

definition load16 :: "memory \<Rightarrow> u32 \<Rightarrow> u32" where
  "load16 m a = ucast (m a) OR push_bit 8 (ucast (m (a + 1)))"

partial_function (option) ph_loop :: "(u32 \<Rightarrow> u8 list) \<Rightarrow> u32 \<Rightarrow> u32 \<Rightarrow> memory \<Rightarrow> memory option" where
  "ph_loop disk eph ph m =
     (if ph < eph then
        (let pa = load32 m (ph + 12); filesz = load32 m (ph + 16); memsz = load32 m (ph + 20) in
         Option.bind (readseg disk pa filesz (load32 m (ph + 4)) m) (\<lambda>m'.
         ph_loop disk eph (ph + 32) (if memsz > filesz then stosb m' (pa + filesz) 0 (memsz - filesz) else m')))
      else Some m)"

text \<open>The result is the memory and the entry point that is called; without the magic number \<^verbatim>\<open>bootmain\<close> returns.\<close>

definition bootmain :: "(u32 \<Rightarrow> u8 list) \<Rightarrow> memory \<Rightarrow> (memory \<times> u32 option) option" where
  "bootmain disk m =
     Option.bind (readseg disk elf 4096 0 m) (\<lambda>m.
     if load32 m elf \<noteq> BOOT_MAGIC then Some (m, None)
     else
       let ph = elf + load32 m (elf + 28); eph = ph + 32 * load16 m (elf + 44) in
       Option.bind (ph_loop disk eph ph m) (\<lambda>m. Some (m, Some (load32 m (elf + 24)))))"

section \<open>Segments\<close>

lemma lba_offset:
  assumes "unat offset < 2 ^ 28"
  shows "lba (ucast offset) (ucast (drop_bit 8 offset)) (ucast (drop_bit 16 offset)) (ucast (drop_bit 24 offset) OR 0xE0) = offset"
proof -
  have "offset = take_bit 28 offset" using assms by (simp add: word_unat_eq_iff unsigned_take_bit_eq take_bit_nat_eq_self)
  then have h: "\<not> bit offset n" if "28 \<le> n" for n using that by (metis bit_take_bit_iff not_less)
  show ?thesis
  proof (rule bit_word_eqI)
    fix n assume n: "n < LENGTH(32)"
    have m: "(0xE0 :: u8) = push_bit 5 (mask 3)" "(0x0F :: u8) = mask 4" by (simp_all add: mask_eq_exp_minus_1 push_bit_eq_mult)
    have e: "\<not> bit (0xE0 :: u8) k" if "k < 4" for k unfolding m bit_push_bit_iff using that by simp
    have f: "bit (0x0F :: u8) k \<longleftrightarrow> k < 4" for k unfolding m bit_mask_iff by auto
    consider "n < 8" | "8 \<le> n" "n < 16" | "16 \<le> n" "n < 24" | "24 \<le> n" "n < 28" | "28 \<le> n" by linarith
    then show "bit (lba (ucast offset) (ucast (drop_bit 8 offset)) (ucast (drop_bit 16 offset)) (ucast (drop_bit 24 offset) OR 0xE0)) n = bit offset n"
      using n h e f by cases (auto simp: lba_def bit_simps)
  qed
qed

text \<open>The byte \<open>i\<close> of the kernel file, which starts at sector 1.\<close>

definition kern :: "(u32 \<Rightarrow> u8 list) \<Rightarrow> nat \<Rightarrow> u8" where
  "kern disk i = disk (of_nat (i div 512 + 1)) ! (i mod 512)"

lemma unat_add_nat: "unat a + k < 2 ^ 32 \<Longrightarrow> unat ((a :: u32) + of_nat k) = unat a + k"
proof -
  assume k: "unat a + k < 2 ^ 32"
  then have "unat (of_nat k :: u32) = k" by (subst unsigned_of_nat) (simp add: take_bit_nat_eq_self)
  then show ?thesis using k by (simp add: unat_plus_if')
qed

lemma unat_minus_in: "unat (a :: u32) + n < 2 ^ 32 \<Longrightarrow> unat (x - a) < n \<longleftrightarrow> unat a \<le> unat x \<and> unat x < unat a + n"
proof -
  assume n: "unat a + n < 2 ^ 32"
  have "unat x < 2 ^ 32" using unsigned_less [of x] by simp
  then show ?thesis using n by (auto simp: unat_sub_if')
qed

lemma readsect_bytes:
  assumes "unat offset < 2 ^ 28" "length (disk offset) = 512" "unat dst + 512 < 2 ^ 32"
  shows "readsect disk dst offset m x = (if unat dst \<le> unat x \<and> unat x < unat dst + 512 then disk offset ! (unat x - unat dst) else m x)"
proof -
  have e: "readsect disk dst offset m = insl m dst (disk offset)" by (simp add: readsect_def Let_def lba_offset [OF assms(1)])
  have "unat dst \<le> unat x \<Longrightarrow> unat (x - dst) = unat x - unat dst" by (simp add: unat_sub_if')
  then show ?thesis using unat_minus_in [OF assms(3), of x] assms(2) by (auto simp: e insl_def)
qed

text \<open>Reading \<open>n\<close> sectors.\<close>

lemma readseg_sectors:
  assumes "\<And>s. length (disk s) = 512" "unat epa \<le> unat pa + 512 * n" "0 < n \<longrightarrow> unat pa + 512 * (n - 1) < unat epa" "unat pa + 512 * n < 2 ^ 32" "unat offset + n < 2 ^ 28"
  shows "\<exists>m'. readseg_loop disk epa pa offset m = Some m' \<and>
    (\<forall>x. m' x = (if unat pa \<le> unat x \<and> unat x < unat pa + 512 * n then disk (offset + of_nat ((unat x - unat pa) div 512)) ! ((unat x - unat pa) mod 512) else m x))"
  using assms(2-)
proof (induction n arbitrary: pa offset m)
  case 0 then show ?case by (auto simp: readseg_loop.simps [of disk epa pa] word_less_nat_alt)
next
  case (Suc n)
  let ?m = "readsect disk pa offset m"
  have u: "unat (pa + SECTSIZE) = unat pa + 512" "unat (offset + 1) = unat offset + 1"
    using unat_add_nat [of pa 512] unat_add_nat [of offset 1] Suc.prems by simp_all
  have lt: "pa < epa" using Suc.prems(2) by (simp add: word_less_nat_alt)
  have b: "?m x = (if unat pa \<le> unat x \<and> unat x < unat pa + 512 then disk offset ! (unat x - unat pa) else m x)" for x
    using Suc.prems by (intro readsect_bytes) (auto simp: assms(1))
  obtain m' where m': "readseg_loop disk epa (pa + SECTSIZE) (offset + 1) ?m = Some m'"
    "\<forall>x. m' x = (if unat pa + 512 \<le> unat x \<and> unat x < unat pa + 512 + 512 * n
       then disk (offset + 1 + of_nat ((unat x - (unat pa + 512)) div 512)) ! ((unat x - (unat pa + 512)) mod 512) else ?m x)"
    using Suc.IH [of "pa + SECTSIZE" "offset + 1" ?m] Suc.prems unfolding u by (cases n) auto
  have "m' x = (if unat pa \<le> unat x \<and> unat x < unat pa + 512 * Suc n
      then disk (offset + of_nat ((unat x - unat pa) div 512)) ! ((unat x - unat pa) mod 512) else m x)" for x
  proof (cases "unat pa + 512 \<le> unat x")
    case True
    define y where "y = unat x - (unat pa + 512)"
    have y: "unat x - unat pa = y + 512" using True by (simp add: y_def)
    have d: "(y + 512) div 512 = Suc (y div 512)" by simp
    show ?thesis using m'(2) b [of x] True unfolding y d by (simp add: y_def [symmetric] add.assoc)
  next
    case False
    then have "unat pa \<le> unat x \<Longrightarrow> (unat x - unat pa) div 512 = 0 \<and> (unat x - unat pa) mod 512 = unat x - unat pa" by simp
    then show ?thesis using m'(2) b [of x] False by auto
  qed
  then show ?case using m'(1) lt by (subst readseg_loop.simps) auto
qed

lemma kern_sector: "kern disk (512 * q + y) = disk (of_nat (q + 1) + of_nat (y div 512)) ! (y mod 512)"
  by (simp add: kern_def algebra_simps)

lemma readseg_ok:
  assumes len: "\<And>s. length (disk s) = 512" and pa: "unat offset mod 512 \<le> unat pa" "unat pa + unat count + 512 < 2 ^ 32"
  obtains m' where "readseg disk pa count offset m = Some m'"
    "\<And>x. unat pa \<le> unat x \<Longrightarrow> unat x < unat pa + unat count \<Longrightarrow> m' x = kern disk (unat offset + (unat x - unat pa))"
    "\<And>x. unat x < unat pa - unat offset mod 512 \<Longrightarrow> m' x = m x"
proof -
  let ?r = "unat offset mod 512" let ?n = "(?r + unat count + 511) div 512" let ?lo = "pa - offset mod SECTSIZE" let ?q = "unat offset div 512"
  have m: "unat (offset mod SECTSIZE) = ?r" "unat (offset div SECTSIZE) = ?q" by (simp_all add: unat_mod unat_div)
  have lo: "unat ?lo = unat pa - ?r" using pa(1) m(1) by (simp add: unat_sub_if')
  have e: "unat (pa + count) = unat pa + unat count" using pa(2) by (simp add: unat_plus_if')
  have "unat offset < 2 ^ 23 * 512" using unsigned_less [of offset] by simp
  then have q: "?q < 2 ^ 23" by (rule less_mult_imp_div_less)
  then have s: "unat (offset div SECTSIZE + 1) = ?q + 1" using m(2) unat_add_nat [of "offset div SECTSIZE" 1] by simp
  have c: "unat count < 2 ^ 32" using pa(2) by linarith
  have n: "unat (pa + count) \<le> unat ?lo + 512 * ?n" "0 < ?n \<longrightarrow> unat ?lo + 512 * (?n - 1) < unat (pa + count)"
    "unat ?lo + 512 * ?n < 2 ^ 32" "unat (offset div SECTSIZE + 1) + ?n < 2 ^ 28"
    unfolding lo e s using pa q c by (linarith | force)+
  obtain m' where r: "readseg_loop disk (pa + count) ?lo (offset div SECTSIZE + 1) m = Some m'"
    "\<And>x. m' x = (if unat ?lo \<le> unat x \<and> unat x < unat ?lo + 512 * ?n
       then disk (offset div SECTSIZE + 1 + of_nat ((unat x - unat ?lo) div 512)) ! ((unat x - unat ?lo) mod 512) else m x)"
    using readseg_sectors [where m = m and disk = disk, OF len n] by blast
  have w: "offset div SECTSIZE + 1 = of_nat (?q + 1)" unfolding s [symmetric] by simp
  have "m' x = kern disk (unat offset + (unat x - unat pa))" if x: "unat pa \<le> unat x" "unat x < unat pa + unat count" for x
  proof -
    have "unat x < unat ?lo + 512 * ?n" using n(1) x(2) unfolding e by linarith
    moreover have "unat ?lo \<le> unat x" using x(1) unfolding lo by linarith
    ultimately have "m' x = kern disk (512 * ?q + (unat x - unat ?lo))" using r(2) [of x] unfolding kern_sector w by simp
    moreover have "512 * ?q + (unat x - unat ?lo) = unat offset + (unat x - unat pa)" using pa(1) x(1) unfolding lo by (simp add: algebra_simps)
    ultimately show ?thesis by simp
  qed
  then show ?thesis using that [of m'] r unfolding readseg_def lo by simp
qed

text \<open>A segment of the kernel file: the fields of its program header that are used.\<close>

record segment =
  s_off :: u32
  s_paddr :: u32
  s_filesz :: u32
  s_memsz :: u32

definition segment_at :: "memory \<Rightarrow> u32 \<Rightarrow> segment" where
  "segment_at m ph = \<lparr>s_off = load32 m (ph + 4), s_paddr = load32 m (ph + 12), s_filesz = load32 m (ph + 16), s_memsz = load32 m (ph + 20)\<rparr>"

definition seg_start :: "segment \<Rightarrow> nat" where
  "seg_start s = unat (s_paddr s) - unat (s_off s) mod 512"

definition seg_end :: "segment \<Rightarrow> nat" where
  "seg_end s = unat (s_paddr s) + unat (s_memsz s)"

definition seg_ok :: "segment \<Rightarrow> bool" where
  "seg_ok s \<longleftrightarrow> unat (s_off s) mod 512 \<le> unat (s_paddr s) \<and> 0x11000 \<le> seg_start s \<and> s_filesz s \<le> s_memsz s \<and> seg_end s + 512 < 2 ^ 32"

text \<open>A header that asks for nothing, like the one that the linker writes for the stack: \<^verbatim>\<open>bootmain\<close> does not test the type of a header.\<close>

definition seg_empty :: "segment \<Rightarrow> bool" where
  "seg_empty s \<longleftrightarrow> s_filesz s = 0 \<and> s_memsz s = 0 \<and> s_off s mod SECTSIZE = 0"

definition loadable :: "segment list \<Rightarrow> segment list" where
  "loadable segs = filter (\<lambda>s. \<not> seg_empty s) segs"

definition loaded :: "(u32 \<Rightarrow> u8 list) \<Rightarrow> memory \<Rightarrow> segment \<Rightarrow> bool" where
  "loaded disk m s \<longleftrightarrow> (\<forall>x. unat (s_paddr s) \<le> unat x \<longrightarrow> unat x < seg_end s \<longrightarrow>
     m x = (if unat x < unat (s_paddr s) + unat (s_filesz s) then kern disk (unat (s_off s) + (unat x - unat (s_paddr s))) else 0))"

lemma load_segment:
  assumes len: "\<And>s. length (disk s) = 512" and ok: "seg_ok s"
  obtains m' where "readseg disk (s_paddr s) (s_filesz s) (s_off s) m = Some m'"
    "loaded disk (if s_memsz s > s_filesz s then stosb m' (s_paddr s + s_filesz s) 0 (s_memsz s - s_filesz s) else m') s"
    "\<And>x. unat x < seg_start s \<Longrightarrow> (if s_memsz s > s_filesz s then stosb m' (s_paddr s + s_filesz s) 0 (s_memsz s - s_filesz s) else m') x = m x"
proof -
  let ?p = "s_paddr s" let ?f = "s_filesz s" let ?z = "s_memsz s"
  have fz: "unat ?f \<le> unat ?z" using ok by (simp add: seg_ok_def word_le_nat_alt)
  have b: "unat ?p + unat ?z + 512 < 2 ^ 32" "unat (s_off s) mod 512 \<le> unat ?p" using ok by (simp_all add: seg_ok_def seg_end_def)
  have f: "unat ?p + unat ?f + 512 < 2 ^ 32" using b(1) fz by linarith
  obtain m' where r: "readseg disk ?p ?f (s_off s) m = Some m'"
    "\<And>x. unat ?p \<le> unat x \<Longrightarrow> unat x < unat ?p + unat ?f \<Longrightarrow> m' x = kern disk (unat (s_off s) + (unat x - unat ?p))"
    "\<And>x. unat x < unat ?p - unat (s_off s) mod 512 \<Longrightarrow> m' x = m x" by (rule readseg_ok [where disk = disk and m = m, OF len b(2) f]) blast
  let ?m = "if ?z > ?f then stosb m' (?p + ?f) 0 (?z - ?f) else m'"
  have e: "unat (?p + ?f) = unat ?p + unat ?f" "unat (?z - ?f) = unat ?z - unat ?f"
    using f fz unat_add_nat [of ?p "unat ?f"] by (simp, simp add: unat_sub word_le_nat_alt)
  have st: "x - (?p + ?f) < ?z - ?f \<longleftrightarrow> unat ?p + unat ?f \<le> unat x \<and> unat x < unat ?p + unat ?z" for x
    using unat_minus_in [of "?p + ?f" "unat ?z - unat ?f" x] b(1) fz e by (simp add: word_less_nat_alt)
  have v: "?m x = (if unat ?p + unat ?f \<le> unat x \<and> unat x < unat ?p + unat ?z then 0 else m' x)" for x
    using st [of x] fz by (auto simp: stosb_def word_less_nat_alt)
  have "loaded disk ?m s" unfolding loaded_def seg_end_def v using r(2) by simp
  moreover have "?m x = m x" if "unat x < seg_start s" for x
  proof -
    have "\<not> unat ?p + unat ?f \<le> unat x" using that unfolding seg_start_def by linarith
    then show ?thesis unfolding v using that r(3) by (simp add: seg_start_def)
  qed
  ultimately show ?thesis using that r(1) by blast
qed

lemma load_empty:
  assumes "seg_empty s"
  shows "readseg disk (s_paddr s) (s_filesz s) (s_off s) m = Some m" "\<not> s_memsz s > s_filesz s" "loaded disk m' s"
  using assms readseg_loop.simps [of disk "s_paddr s" "s_paddr s"] by (simp_all add: seg_empty_def readseg_def loaded_def seg_end_def)

lemma segment_at_low:
  assumes "\<And>x. unat x < 0x11000 \<Longrightarrow> m' x = m x" "unat ph + 32 \<le> 0x11000"
  shows "segment_at m' ph = segment_at m ph"
proof -
  have "load32 m' (ph + of_nat k) = load32 m (ph + of_nat k)" if "k + 4 \<le> 32" for k
  proof (rule load32_cong)
    fix i :: nat assume "i < 4"
    then have "unat (ph + of_nat (k + i)) < 0x11000" using that assms(2) unat_add_nat [of ph "k + i"] by simp
    then show "m' (ph + of_nat k + of_nat i) = m (ph + of_nat k + of_nat i)" using assms(1) by (simp add: add.assoc)
  qed
  from this [of 4] this [of 12] this [of 16] this [of 20] show ?thesis by (simp add: segment_at_def)
qed

text \<open>The loop over the program headers, which lie below the segments.\<close>

lemma ph_loop_loads:
  assumes len: "\<And>s. length (disk s) = 512"
  shows "list_all seg_ok (loadable segs) \<Longrightarrow> sorted_wrt (\<lambda>s t. seg_end s \<le> seg_start t) (loadable segs) \<Longrightarrow>
    \<forall>i < length segs. segment_at m (ph + 32 * of_nat i) = segs ! i \<Longrightarrow> unat eph = unat ph + 32 * length segs \<Longrightarrow> unat eph \<le> 0x11000 \<Longrightarrow>
    \<exists>m'. ph_loop disk eph ph m = Some m' \<and> list_all (loaded disk m') segs \<and> (\<forall>x. list_all (\<lambda>s. unat x < seg_start s) (loadable segs) \<longrightarrow> m' x = m x)"
proof (induction segs arbitrary: ph m)
  case Nil then show ?case by (auto simp: ph_loop.simps [of disk eph ph] word_less_nat_alt)
next
  case (Cons s segs)
  have s: "segment_at m ph = s" using Cons.prems(3) by force
  have seg: "\<exists>m1. readseg disk (s_paddr s) (s_filesz s) (s_off s) m = Some m1 \<and>
    loaded disk (if s_memsz s > s_filesz s then stosb m1 (s_paddr s + s_filesz s) 0 (s_memsz s - s_filesz s) else m1) s \<and>
    (\<forall>x. (\<not> seg_empty s \<longrightarrow> unat x < seg_start s) \<longrightarrow>
       (if s_memsz s > s_filesz s then stosb m1 (s_paddr s + s_filesz s) 0 (s_memsz s - s_filesz s) else m1) x = m x)"
  proof (cases "seg_empty s")
    case True then show ?thesis using load_empty [OF True] by simp
  next
    case False
    then have "seg_ok s" using Cons.prems(1) by (simp add: loadable_def)
    then show ?thesis by (rule load_segment [where disk = disk and m = m, OF len]) (use False in blast)
  qed
  then obtain m1 where m1: "readseg disk (s_paddr s) (s_filesz s) (s_off s) m = Some m1"
    "loaded disk (if s_memsz s > s_filesz s then stosb m1 (s_paddr s + s_filesz s) 0 (s_memsz s - s_filesz s) else m1) s"
    "\<And>x. (\<not> seg_empty s \<longrightarrow> unat x < seg_start s) \<Longrightarrow>
       (if s_memsz s > s_filesz s then stosb m1 (s_paddr s + s_filesz s) 0 (s_memsz s - s_filesz s) else m1) x = m x"
    by blast
  define m2 where "m2 = (if s_memsz s > s_filesz s then stosb m1 (s_paddr s + s_filesz s) 0 (s_memsz s - s_filesz s) else m1)"
  note m1 = m1 [folded m2_def]
  have ok: "0x11000 \<le> seg_start s" if "\<not> seg_empty s" using Cons.prems(1) that by (simp add: loadable_def seg_ok_def)
  have u: "unat (ph + 32) = unat ph + 32" "ph < eph" using Cons.prems(4,5) unat_add_nat [of ph 32] by (simp_all add: word_less_nat_alt)
  have low: "m2 x = m x" if "unat x < 0x11000" for x using m1(3) that ok by fastforce
  have "segment_at m2 (ph + 32 + 32 * of_nat i) = segs ! i" if i: "i < length segs" for i
  proof -
    have "unat (ph + of_nat (32 + 32 * i)) = unat ph + (32 + 32 * i)" using Cons.prems(4,5) i by (intro unat_add_nat) simp
    then have "unat (ph + 32 + 32 * of_nat i) + 32 \<le> 0x11000" using Cons.prems(4,5) i by (simp add: add.assoc)
    then have "segment_at m2 (ph + 32 + 32 * of_nat i) = segment_at m (ph + 32 + 32 * of_nat i)" using low by (intro segment_at_low) auto
    then show ?thesis using Cons.prems(3) [rule_format, of "Suc i"] i by (simp add: algebra_simps)
  qed
  moreover have "list_all seg_ok (loadable segs)" "sorted_wrt (\<lambda>s t. seg_end s \<le> seg_start t) (loadable segs)"
    using Cons.prems(1,2) by (auto simp: loadable_def split: if_splits)
  ultimately obtain m' where m': "ph_loop disk eph (ph + 32) m2 = Some m'" "list_all (loaded disk m') segs"
    "\<And>x. list_all (\<lambda>s. unat x < seg_start s) (loadable segs) \<Longrightarrow> m' x = m2 x"
    using Cons.IH [of m2 "ph + 32"] Cons.prems(4,5) u(1) by auto
  have "ph_loop disk eph ph m = Some m'"
    using u(2) m1(1) m'(1) s unfolding ph_loop.simps [of disk eph ph] by (auto simp: segment_at_def Let_def m2_def)
  moreover have "loaded disk m' s"
  proof (cases "seg_empty s")
    case True then show ?thesis by (rule load_empty(3))
  next
    case False
    then have "m' x = m2 x" if "unat x < seg_end s" for x
      using Cons.prems(2) that by (intro m'(3)) (fastforce simp: loadable_def list_all_iff)
    then show ?thesis using m1(2) by (auto simp: loaded_def)
  qed
  moreover have "m' x = m x" if "list_all (\<lambda>s. unat x < seg_start s) (loadable (s # segs))" for x
    using that m'(3) [of x] m1(3) [of x] by (cases "seg_empty s") (simp_all add: loadable_def)
  ultimately show ?case using m'(2) by auto
qed

text \<open>The file as it lies in memory after its first page was read.\<close>

definition kimg :: "(u32 \<Rightarrow> u8 list) \<Rightarrow> memory" where
  "kimg disk a = kern disk (unat (a - elf))"

definition kernel_segs :: "(u32 \<Rightarrow> u8 list) \<Rightarrow> segment list" where
  "kernel_segs disk = (let m = kimg disk in map (\<lambda>i. segment_at m (elf + load32 m (elf + 28) + 32 * of_nat i)) [0..<unat (load16 m (elf + 44))])"

text \<open>C17: the boot loader loads the kernel: when the program headers lie in the first page of the kernel file, and the segments that are not empty are given in
  increasing order, above the page that the headers were read to and far enough apart for the rounding to sectors, it jumps to the entry point of the file, with
  every segment in place, its bytes from the file followed by zeros. Headers that ask for nothing may stand anywhere between them.\<close>

theorem bootmain_loads:
  assumes len: "\<And>s. length (disk s) = 512" and magic: "load32 (kimg disk) elf = BOOT_MAGIC"
    and hdr: "unat (load32 (kimg disk) (elf + 28)) + 32 * unat (load16 (kimg disk) (elf + 44)) \<le> 4096"
    and segs: "list_all seg_ok (loadable (kernel_segs disk))" "sorted_wrt (\<lambda>s t. seg_end s \<le> seg_start t) (loadable (kernel_segs disk))"
  shows "\<exists>m'. bootmain disk m = Some (m', Some (load32 (kimg disk) (elf + 24))) \<and> list_all (loaded disk m') (kernel_segs disk)"
proof -
  let ?k = "kimg disk" let ?off = "load32 ?k (elf + 28)" let ?num = "load16 ?k (elf + 44)"
  have z: "unat (0 :: u32) mod 512 \<le> unat elf" "unat elf + unat (4096 :: u32) + 512 < 2 ^ 32" by simp_all
  obtain m1 where m1: "readseg disk elf 4096 0 m = Some m1"
    "\<And>x. unat elf \<le> unat x \<Longrightarrow> unat x < unat elf + unat (4096 :: u32) \<Longrightarrow> m1 x = kern disk (unat (0 :: u32) + (unat x - unat elf))"
    by (rule readseg_ok [where disk = disk and m = m, OF len z]) blast
  have b: "m1 x = ?k x" if "0x10000 \<le> unat x" "unat x < 0x11000" for x
    using m1(2) [of x] that by (simp add: kimg_def unat_sub word_le_nat_alt)
  have l32: "load32 m1 (elf + of_nat k) = load32 ?k (elf + of_nat k)" if "k + 4 \<le> 4096" for k
  proof (rule load32_cong)
    fix i :: nat assume "i < 4"
    then have "unat (elf + of_nat (k + i)) = 0x10000 + (k + i)" using that unat_add_nat [of elf "k + i"] by simp
    then show "m1 (elf + of_nat k + of_nat i) = ?k (elf + of_nat k + of_nat i)" using b \<open>i < 4\<close> that by (simp add: add.assoc)
  qed
  have n16: "load16 m1 (elf + 44) = ?num" using b [of "elf + 44"] b [of "elf + 45"] by (simp add: load16_def)
  let ?ph = "elf + ?off" let ?eph = "?ph + 32 * ?num"
  have "unat ?ph = 0x10000 + unat ?off" using hdr unat_add_nat [of elf "unat ?off"] by simp
  moreover have "unat (?ph + of_nat (32 * unat ?num)) = unat ?ph + 32 * unat ?num" using hdr calculation by (intro unat_add_nat) simp
  ultimately have u: "unat ?ph = 0x10000 + unat ?off" "unat ?eph = unat ?ph + 32 * length (kernel_segs disk)" "unat ?eph \<le> 0x11000"
    using hdr by (simp_all add: kernel_segs_def Let_def)
  have "segment_at m1 (?ph + 32 * of_nat i) = kernel_segs disk ! i" if i: "i < length (kernel_segs disk)" for i
  proof -
    have j: "i < unat ?num" using i by (simp add: kernel_segs_def Let_def)
    have "load32 m1 (?ph + 32 * of_nat i + of_nat k) = load32 ?k (?ph + 32 * of_nat i + of_nat k)" if "k + 4 \<le> 32" for k
      using l32 [of "unat ?off + 32 * i + k"] hdr j that by (simp add: add.assoc)
    from this [of 4] this [of 12] this [of 16] this [of 20] have "segment_at m1 (?ph + 32 * of_nat i) = segment_at ?k (?ph + 32 * of_nat i)" by (simp add: segment_at_def)
    then show ?thesis using j by (simp add: kernel_segs_def Let_def)
  qed
  then obtain m' where m': "ph_loop disk ?eph ?ph m1 = Some m'" "list_all (loaded disk m') (kernel_segs disk)"
    "\<And>x. list_all (\<lambda>s. unat x < seg_start s) (loadable (kernel_segs disk)) \<Longrightarrow> m' x = m1 x"
    using ph_loop_loads [where disk = disk and m = m1, OF len segs _ u(2,3)] by auto
  have "m' x = m1 x" if "unat x < 0x11000" for x
    by (rule m'(3)) (use segs(1) that in \<open>fastforce simp: list_all_iff seg_ok_def\<close>)
  then have "load32 m' (elf + 24) = load32 m1 (elf + 24)" using unat_add_nat [of "elf + 24"] by (intro load32_cong) simp
  then show ?thesis using m1(1) m'(1,2) l32 [of 0] l32 [of 24] l32 [of 28] n16 magic by (simp add: bootmain_def Let_def)
qed

text \<open>The headers of the kernel file \<^verbatim>\<open>src/xv6-l/kernel\<close>, its first 116 bytes: one segment of \<open>0xB516\<close> bytes for 1 MB, with zeros up to \<open>0x1FC88\<close> bytes, and
  the empty header of the stack. What follows them is left open.\<close>

definition kernel_header :: "u8 list" where
  "kernel_header =
    [127, 69, 76, 70, 1, 1, 1, 0, 0, 0, 0, 0, 0, 0, 0, 0, 2, 0, 3, 0, 1, 0, 0, 0, 12, 0, 16, 0, 52, 0, 0, 0, 68, 83, 3, 0,
     0, 0, 0, 0, 52, 0, 32, 0, 2, 0, 40, 0, 18, 0, 17, 0, 1, 0, 0, 0, 0, 16, 0, 0, 0, 0, 16, 128, 0, 0, 16, 0, 22, 181, 0,
     0, 136, 252, 1, 0, 7, 0, 0, 0, 0, 16, 0, 0, 81, 229, 116, 100, 0, 0, 0, 0, 0, 0, 0, 0, 0, 0, 0, 0, 0, 0, 0, 0, 0, 0, 0,
     0, 7, 0, 0, 0, 16, 0, 0, 0]"

definition kernel_disk :: "(nat \<Rightarrow> u8) \<Rightarrow> u32 \<Rightarrow> u8 list" where
  "kernel_disk f s = map (\<lambda>j. let i = 512 * (unat s - 1) + j in if i < 116 then kernel_header ! i else f i) [0..<512]"

lemma kern_disk: "i < 2 ^ 32 \<Longrightarrow> kern (kernel_disk f) i = (if i < 116 then kernel_header ! i else f i)"
proof -
  assume "i < 2 ^ 32"
  then have "i div 512 + 1 < 2 ^ 32" by auto
  then have "unat (of_nat (i div 512 + 1) :: u32) = i div 512 + 1" by (subst unsigned_of_nat) (simp add: take_bit_nat_eq_self)
  then show ?thesis by (simp add: kern_def kernel_disk_def Let_def)
qed

lemma kimg_disk: "kimg (kernel_disk f) a = (if unat (a - elf) < 116 then kernel_header ! unat (a - elf) else f (unat (a - elf)))"
  using kern_disk [of "unat (a - elf)" f] unsigned_less [of "a - elf"] by (simp add: kimg_def)

theorem bootmain_loads_witness:
  "\<forall>f. \<exists>m'. bootmain (kernel_disk f) (\<lambda>_. 0x55) = Some (m', Some 0x10000C) \<and>
     m' 0x100000 = f 0x1000 \<and> m' 0x10B515 = f 0xC515 \<and> m' 0x10B516 = 0 \<and> m' 0x11FC87 = 0"
proof
  fix f
  let ?d = "kernel_disk f"
  have l: "load32 (kimg ?d) elf = BOOT_MAGIC" "load32 (kimg ?d) (elf + 28) = 52" "load16 (kimg ?d) (elf + 44) = 2"
    "load32 (kimg ?d) (elf + 24) = 0x10000C"
    by (simp_all add: load32_def load16_def kimg_disk kernel_header_def)
  have two: "[0..<unat (2 :: u32)] = [0, 1]" by (simp add: upt_rec)
  have s: "kernel_segs ?d = [\<lparr>s_off = 0x1000, s_paddr = 0x100000, s_filesz = 0xB516, s_memsz = 0x1FC88\<rparr>, \<lparr>s_off = 0, s_paddr = 0, s_filesz = 0, s_memsz = 0\<rparr>]"
    unfolding kernel_segs_def Let_def l two by (simp add: segment_at_def load32_def kimg_disk kernel_header_def)
  have r: "loadable (kernel_segs ?d) = [\<lparr>s_off = 0x1000, s_paddr = 0x100000, s_filesz = 0xB516, s_memsz = 0x1FC88\<rparr>]"
    unfolding s by (simp add: loadable_def seg_empty_def)
  obtain m' where m: "bootmain ?d (\<lambda>_. 0x55) = Some (m', Some 0x10000C)" "list_all (loaded ?d m') (kernel_segs ?d)"
    using bootmain_loads [of ?d "\<lambda>_. 0x55"] l r by (auto simp: kernel_disk_def seg_ok_def seg_start_def seg_end_def)
  have v: "m' x = (if unat x < 0x10B516 then kern ?d (0x1000 + (unat x - 0x100000)) else 0)" if "0x100000 \<le> unat x" "unat x < 0x11FC88" for x
    using that m(2) unfolding s by (simp add: loaded_def seg_end_def)
  show "\<exists>m'. bootmain ?d (\<lambda>_. 0x55) = Some (m', Some 0x10000C) \<and> m' 0x100000 = f 0x1000 \<and> m' 0x10B515 = f 0xC515 \<and> m' 0x10B516 = 0 \<and> m' 0x11FC87 = 0"
    using m(1) v [of "0x100000"] v [of "0x10B515"] v [of "0x10B516"] v [of "0x11FC87"] by (auto simp: kern_disk)
qed

end
