(* ===== verification/Fs_Read.thy ===== *)
theory Fs_Read
  imports Fs
begin

text \<open>
  Reading the file system: what \<^verbatim>\<open>readi\<close>, \<^verbatim>\<open>dirlookup\<close> and \<^verbatim>\<open>namei\<close> return, in terms of the content of the blocks as the kernel
  sees them. A file is the bytes of the blocks that its inode names, a directory is the list of its entries, and a path is
  resolved by following the entries from the root. None of these operations changes a block.
\<close>

section \<open>Reading blocks\<close>

definition reads :: "'a fs_scheme \<Rightarrow> 'a fs_scheme \<Rightarrow> bool" where
  "reads s s' \<longleftrightarrow> read_only s s' \<and> bio.more s' = bio.more s"

definition can_read :: "'a fs_scheme \<Rightarrow> bool" where
  "can_read s \<longleftrightarrow> qbio s \<and> card (dirties s) < NBUF"

lemma reads_refl: "can_read s \<Longrightarrow> reads s s"
  by (simp add: reads_def read_only_refl can_read_def)

lemma reads_trans: "reads s s' \<Longrightarrow> reads s' s'' \<Longrightarrow> reads s s''"
  unfolding reads_def using read_only_trans [of s s' s''] by simp

lemma reads_fields:
  assumes "reads s s'"
  shows "inodes s' = inodes s" "sb s' = sb s" "d \<noteq> 0 \<Longrightarrow> view s' d c = view s d c" "disk s' = disk s"
  using assms fs_fields [OF more_fields(8), of s' s] by (auto simp: reads_def read_only_def)

lemma reads_can: "reads s s' \<Longrightarrow> can_read s \<Longrightarrow> can_read s'"
  by (simp add: reads_def read_only_def can_read_def)

lemma upd_inode_id: "upd_inode ip (\<lambda>x. x) s = s"
  by (simp add: upd_inode_def)

lemma read_block:
  fixes s :: "'a fs_scheme"
  assumes "can_read s" "dev \<noteq> 0" "unat x < FSSIZE"
  shows "\<exists>i s1 s2. bread dev x s = Ok (i, s1) \<and> b_data (bufs s1 i) = view s dev x \<and> inodes s1 = inodes s \<and> brelse i s1 = Ok s2 \<and> reads s s2"
proof -
  obtain i s1 where b: "bread dev x s = Ok (i, s1)" "b_data (bufs s1 i) = view s dev x" "logst.more s1 = logst.more s"
    and r: "\<forall>g ip. \<exists>s2. brelse i (upd_inode ip g s1) = Ok s2 \<and> bio.more s2 = bio.more (upd_inode ip g s) \<and> read_only s s2"
    using peek [of s dev x] assms unfolding can_read_def by blast
  then show ?thesis using spec [OF spec [OF r, of "\<lambda>x. x"], of 0] fs_fields [OF b(3)] unfolding upd_inode_id reads_def by blast
qed

section \<open>The blocks and bytes of a file\<close>

text \<open>The address of block \<open>k\<close> of the file \<open>x\<close>, what it holds, and the bytes of the file, as the kernel sees them.\<close>

definition faddr :: "'a bio_scheme \<Rightarrow> inode \<Rightarrow> nat \<Rightarrow> u32" where
  "faddr s x k = (if k < NDIRECT then i_addrs x ! k else get32 (view s (i_dev x) (i_addrs x ! NDIRECT)) (4 * (k - NDIRECT)))"

definition file_byte :: "'a bio_scheme \<Rightarrow> inode \<Rightarrow> nat \<Rightarrow> u8" where
  "file_byte s x i = view s (i_dev x) (faddr s x (i div BSIZE)) ! (i mod BSIZE)"

definition mapped :: "'a bio_scheme \<Rightarrow> inode \<Rightarrow> nat \<Rightarrow> bool" where
  "mapped s x n \<longleftrightarrow> i_dev x \<noteq> 0 \<and> n \<le> MAXFILE \<and>
     (NDIRECT < n \<longrightarrow> i_addrs x ! NDIRECT \<noteq> 0 \<and> unat (i_addrs x ! NDIRECT) < FSSIZE) \<and>
     (\<forall>k < n. faddr s x k \<noteq> 0 \<and> unat (faddr s x k) < FSSIZE \<and> length (view s (i_dev x) (faddr s x k)) = BSIZE)"

lemma reads_file:
  assumes "reads s s'" "i_dev x \<noteq> 0"
  shows "faddr s' x = faddr s x" "file_byte s' x = file_byte s x" "mapped s' x n = mapped s x n"
proof -
  show f: "faddr s' x = faddr s x" using reads_fields(3) [OF assms(1)] assms(2) by (simp add: faddr_def fun_eq_iff)
  show "file_byte s' x = file_byte s x" "mapped s' x n = mapped s x n"
    using reads_fields(3) [OF assms(1)] assms(2) by (simp_all add: file_byte_def mapped_def f fun_eq_iff)
qed

lemma bmap_mapped:
  assumes s: "can_read s" and m: "mapped s (inodes s ip) n" "k < n"
  shows "\<exists>s'. bmap ip k s = Ok (faddr s (inodes s ip) k, s') \<and> reads s s'"
proof (cases "k < NDIRECT")
  case True
  then show ?thesis using m reads_refl [OF s] by (auto simp: bmap_def mapped_def faddr_def Let_def)
next
  case False
  let ?x = "inodes s ip"
  have c: "k - NDIRECT < NINDIRECT" "i_addrs ?x ! NDIRECT \<noteq> 0" "unat (i_addrs ?x ! NDIRECT) < FSSIZE" "i_dev ?x \<noteq> 0" "faddr s ?x k \<noteq> 0"
    using m False by (auto simp: mapped_def)
  obtain i s1 s2 where b: "bread (i_dev ?x) (i_addrs ?x ! NDIRECT) s = Ok (i, s1)" "b_data (bufs s1 i) = view s (i_dev ?x) (i_addrs ?x ! NDIRECT)"
    "inodes s1 = inodes s" "brelse i s1 = Ok s2" "reads s s2"
    using read_block [OF s c(4,3)] by blast
  then show ?thesis using False c by (intro exI [of _ s2]) (simp add: bmap_def faddr_def Let_def)
qed

lemma block_bytes:
  assumes "length d = BSIZE" "off mod BSIZE + m \<le> BSIZE" "\<And>i. i div BSIZE = off div BSIZE \<Longrightarrow> f i = d ! (i mod BSIZE)"
  shows "take m (drop (off mod BSIZE) d) = map f [off..<off + m]"
proof (rule nth_equalityI)
  fix i assume "i < length (take m (drop (off mod BSIZE) d))"
  then have i: "i < m" using assms by simp
  then have "off mod BSIZE + i < BSIZE" using assms(2) by simp
  then have q: "(off + i) mod BSIZE = off mod BSIZE + i" by (metis mod_add_left_eq mod_less)
  then have "(off + i) div BSIZE = off div BSIZE"
    using div_mult_mod_eq [of off BSIZE] div_mult_mod_eq [of "off + i" BSIZE] by linarith
  then show "take m (drop (off mod BSIZE) d) ! i = map f [off..<off + m] ! i" using i assms q by simp
qed (use assms in simp)

lemma readi_loop_mapped:
  assumes "can_read s" "mapped s (inodes s ip) n" "off + len \<le> n * BSIZE"
  shows "\<exists>s'. readi_loop ip off len s = Ok (map (file_byte s (inodes s ip)) [off..<off + len], s') \<and> reads s s'"
  using assms
proof (induction len arbitrary: off s rule: less_induct)
  case (less len)
  show ?case
  proof (cases "len = 0")
    case True
    then show ?thesis using reads_refl [OF less.prems(1)] by (simp add: readi_loop.simps)
  next
    case False
    let ?x = "inodes s ip" let ?k = "off div BSIZE" let ?m = "min len (BSIZE - off mod BSIZE)"
    have k: "?k < n" using less.prems(3) False by (simp add: less_mult_imp_div_less)
    obtain s1 where s1: "bmap ip ?k s = Ok (faddr s ?x ?k, s1)" "reads s s1" using bmap_mapped [OF less.prems(1,2) k] by blast
    have x: "i_dev ?x \<noteq> 0" "unat (faddr s ?x ?k) < FSSIZE" "length (view s (i_dev ?x) (faddr s ?x ?k)) = BSIZE"
      using less.prems(2) k by (auto simp: mapped_def)
    have i1: "inodes s1 = inodes s" "view s1 (i_dev ?x) (faddr s ?x ?k) = view s (i_dev ?x) (faddr s ?x ?k)"
      using reads_fields [OF s1(2)] x(1) by simp_all
    obtain i s2 s3 where b: "bread (i_dev ?x) (faddr s ?x ?k) s1 = Ok (i, s2)" "b_data (bufs s2 i) = view s (i_dev ?x) (faddr s ?x ?k)"
      "brelse i s2 = Ok s3" "reads s1 s3"
      using read_block [OF reads_can [OF s1(2) less.prems(1)] x(1,2)] i1(2) by auto
    have r3: "reads s s3" using reads_trans [OF s1(2) b(4)] .
    have i3: "inodes s3 = inodes s" using reads_fields(1) [OF r3] .
    have m: "?m \<le> len" "off mod BSIZE + ?m \<le> BSIZE" "len - ?m < len" using False mod_less_divisor [of BSIZE off] by auto
    have "\<exists>s'. readi_loop ip (off + ?m) (len - ?m) s3 = Ok (map (file_byte s3 (inodes s3 ip)) [off + ?m..<off + ?m + (len - ?m)], s') \<and> reads s3 s'"
      by (rule less.IH [OF m(3) reads_can [OF r3 less.prems(1)]]) (use less.prems m r3 i3 reads_file [OF r3 x(1)] in auto)
    then obtain s' where s': "readi_loop ip (off + ?m) (len - ?m) s3 = Ok (map (file_byte s ?x) [off + ?m..<off + len], s')" "reads s3 s'"
      using i3 reads_file(2) [OF r3 x(1)] m(1) by auto
    have "take ?m (drop (off mod BSIZE) (b_data (bufs s2 i))) = map (file_byte s ?x) [off..<off + ?m]"
      unfolding b(2) by (rule block_bytes [OF x(3) m(2)]) (simp add: file_byte_def)
    moreover have "[off..<off + ?m] @ [off + ?m..<off + len] = [off..<off + len]"
      using m(1) upt_add_eq_append [of off "off + ?m" "len - ?m"] by simp
    ultimately show ?thesis using False s1(1) i1(1) b(1,3) s'(1) reads_trans [OF r3 s'(2)]
      by (intro exI [of _ s']) (subst readi_loop.simps, simp add: Let_def flip: map_append)
  qed
qed

section \<open>Files and directories\<close>

text \<open>The blocks that hold a file of this size.\<close>

definition file_mapped :: "'a bio_scheme \<Rightarrow> inode \<Rightarrow> bool" where
  "file_mapped s x \<longleftrightarrow> mapped s x ((unat (i_size x) + 511) div BSIZE)"

lemma file_mapped_size: "file_mapped s x \<Longrightarrow> unat (i_size x) \<le> MAXFILE * BSIZE"
  unfolding file_mapped_def mapped_def by linarith

lemma sint_unat:
  fixes w :: u32
  assumes "unat w < 2 ^ 31"
  shows "sint w = int (unat w)"
proof -
  have "int (unat w) < int (2 ^ 31)" using assms by (subst of_nat_less_iff)
  then have u: "uint w < 2 ^ 31" by simp
  have "- (2 ^ 31) \<le> uint w" by (rule order_trans [of _ 0]) simp_all
  with u have "sint w = uint w"
    unfolding sint_uint by (intro signed_take_bit_int_eq_self) simp_all
  then show ?thesis by simp
qed

lemma readi_mapped:
  assumes s: "can_read s" "x = inodes s ip" "i_type x \<noteq> T_DEV" "file_mapped s x"
    and off: "off \<le> i_size x" "unat off + unat n < 2 ^ 32" and m: "m = min (unat n) (unat (i_size x) - unat off)"
  shows "\<exists>s'. readi dr ip off n s = Ok (int m, map (file_byte s x) [unat off..<unat off + m], s') \<and> reads s s'"
proof -
  have o: "unat off \<le> unat (i_size x)" using off(1) by (simp add: word_le_nat_alt)
  have no: "unat (off + n) = unat off + unat n" using off(2) by (simp add: unat_word_ariths)
  let ?n = "if off + n > i_size x then i_size x - off else n"
  have um: "unat ?n = m" using m o no unat_sub [OF off(1)] by (simp add: word_less_nat_alt)
  have "m < 2 ^ 31" using m file_mapped_size [OF s(4)] by simp
  then have sm: "sint ?n = int m" using sint_unat [of ?n] unfolding um by simp
  have "\<exists>s'. readi_loop ip (unat off) m s = Ok (map (file_byte s (inodes s ip)) [unat off..<unat off + m], s') \<and> reads s s'"
    by (rule readi_loop_mapped [OF s(1), of _ "(unat (i_size x) + 511) div BSIZE"]) (use s m o in \<open>auto simp: file_mapped_def\<close>)
  then obtain s' where "readi_loop ip (unat off) (unat ?n) s = Ok (map (file_byte s x) [unat off..<unat off + m], s')" "reads s s'"
    using um s(2) by auto
  moreover have "\<not> (off > i_size x \<or> off + n < off)" using off(1) no by (simp add: word_less_nat_alt word_le_nat_alt)
  ultimately show ?thesis using s(2,3) sm by (auto simp: readi_def Let_def)
qed

definition dir_ents :: "'a bio_scheme \<Rightarrow> inode \<Rightarrow> dirent list" where
  "dir_ents s x = map (\<lambda>k. dirent_of (map (file_byte s x) [16 * k..<16 * k + 16])) [0..<unat (i_size x) div 16]"

text \<open>The position of the entry with this name; an entry with inode number 0 is unused.\<close>

definition dir_find :: "u8 list \<Rightarrow> dirent list \<Rightarrow> nat option" where
  "dir_find name es = List.find (\<lambda>k. d_inum (es ! k) \<noteq> 0 \<and> namecmp_eq name (d_name (es ! k))) [0..<length es]"

lemma length_dir_ents [simp]: "length (dir_ents s x) = unat (i_size x) div 16"
  by (simp add: dir_ents_def)

definition dir_ok :: "'a bio_scheme \<Rightarrow> inode \<Rightarrow> bool" where
  "dir_ok s x \<longleftrightarrow> i_type x = T_DIR \<and> unat (i_size x) mod 16 = 0 \<and> file_mapped s x"

lemma reads_dir:
  assumes "reads s s'" "i_dev x \<noteq> 0"
  shows "dir_ents s' x = dir_ents s x" "dir_ok s' x = dir_ok s x" "file_mapped s' x = file_mapped s x"
  using reads_file [OF assms] by (simp_all add: dir_ents_def dir_ok_def file_mapped_def)

lemma readi_dirent:
  assumes s: "can_read s" "x = inodes s dp" "dir_ok s x" and k: "k < unat (i_size x) div 16"
  shows "\<exists>xs s'. readi dr dp (of_nat (16 * k)) 16 s = Ok (16, xs, s') \<and> dirent_of xs = dir_ents s x ! k \<and> reads s s'"
proof -
  have sz: "unat (i_size x) mod 16 = 0" "file_mapped s x" "i_type x \<noteq> T_DEV" using s(3) by (auto simp: dir_ok_def)
  have kl: "16 * k + 16 \<le> unat (i_size x)" using k sz(1) by linarith
  then have o: "unat (of_nat (16 * k) :: u32) = 16 * k" using file_mapped_size [OF sz(2)] by (intro unat_of_nat32) simp
  have l: "(of_nat (16 * k) :: u32) \<le> i_size x" using o kl by (simp add: word_le_nat_alt)
  have "\<exists>s'. readi dr dp (of_nat (16 * k)) 16 s = Ok (int 16, map (file_byte s x) [unat (of_nat (16 * k) :: u32)..<unat (of_nat (16 * k) :: u32) + 16], s') \<and> reads s s'"
    by (rule readi_mapped [OF s(1,2) sz(3,2) l]) (use o kl file_mapped_size [OF sz(2)] in auto)
  then show ?thesis unfolding o using k by (auto simp: dir_ents_def)
qed

lemma dirlookup_loop_finds:
  assumes "can_read s" "dir_ok s (inodes s dp)" "set ks \<subseteq> {..<unat (i_size (inodes s dp)) div 16}" "i_dev (inodes s dp) \<noteq> 0"
  shows "\<exists>s'. reads s s' \<and> dirlookup_loop dr dp name (map (\<lambda>k. 16 * k) ks) s =
    (case List.find (\<lambda>k. d_inum (dir_ents s (inodes s dp) ! k) \<noteq> 0 \<and> namecmp_eq name (d_name (dir_ents s (inodes s dp) ! k))) ks of
       None \<Rightarrow> Ok (None, s')
     | Some k \<Rightarrow> bindo (iget (i_dev (inodes s dp)) (ucast (d_inum (dir_ents s (inodes s dp) ! k))) s') (\<lambda>(ip, s). Ok (Some (ip, of_nat (16 * k)), s)))"
  using assms
proof (induction ks arbitrary: s)
  case Nil
  then show ?case using reads_refl by auto
next
  case (Cons k ks)
  let ?x = "inodes s dp"
  obtain xs s1 where s1: "readi dr dp (of_nat (16 * k)) 16 s = Ok (16, xs, s1)" "dirent_of xs = dir_ents s ?x ! k" "reads s s1"
    using readi_dirent [OF Cons.prems(1) refl Cons.prems(2)] Cons.prems(3) by (metis insert_subset lessThan_iff list.simps(15))
  note r = reads_fields(1) [OF s1(3)] reads_dir [OF s1(3) Cons.prems(4)]
  show ?case
  proof (cases "d_inum (dir_ents s ?x ! k) \<noteq> 0 \<and> namecmp_eq name (d_name (dir_ents s ?x ! k))")
    case True
    then show ?thesis using s1 r(1) by (intro exI [of _ s1]) (simp add: Let_def)
  next
    case False
    obtain s' where s': "reads s1 s'" "dirlookup_loop dr dp name (map (\<lambda>k. 16 * k) ks) s1 =
      (case List.find (\<lambda>k. d_inum (dir_ents s ?x ! k) \<noteq> 0 \<and> namecmp_eq name (d_name (dir_ents s ?x ! k))) ks of
         None \<Rightarrow> Ok (None, s')
       | Some k \<Rightarrow> bindo (iget (i_dev ?x) (ucast (d_inum (dir_ents s ?x ! k))) s') (\<lambda>(ip, s). Ok (Some (ip, of_nat (16 * k)), s)))"
      using Cons.IH [of s1, unfolded r] Cons.prems reads_can [OF s1(3)] by auto
    have "dirlookup_loop dr dp name (map (\<lambda>k. 16 * k) (k # ks)) s = dirlookup_loop dr dp name (map (\<lambda>k. 16 * k) ks) s1"
      using False s1(1,2) by (auto simp: Let_def)
    then show ?thesis using s' reads_trans [OF s1(3) s'(1)] False by (intro exI [of _ s']) auto
  qed
qed

lemma dirlookup_finds:
  assumes "can_read s" "x = inodes s dp" "dir_ok s x" "i_dev x \<noteq> 0"
  shows "\<exists>s'. reads s s' \<and> dirlookup dr dp name s =
    (case dir_find name (dir_ents s x) of None \<Rightarrow> Ok (None, s')
     | Some k \<Rightarrow> bindo (iget (i_dev x) (ucast (d_inum (dir_ents s x ! k))) s') (\<lambda>(ip, s). Ok (Some (ip, of_nat (16 * k)), s)))"
proof -
  have t: "i_type x = T_DIR" and z: "(unat (i_size x) + 15) div 16 = unat (i_size x) div 16" using assms(3) unfolding dir_ok_def by auto
  have "dir_offs 0 (unat (i_size x)) = map (\<lambda>k. 16 * k) [0..<unat (i_size x) div 16]" by (simp add: dir_offs_def z)
  then have "dirlookup dr dp name s = dirlookup_loop dr dp name (map (\<lambda>k. 16 * k) [0..<unat (i_size (inodes s dp)) div 16]) s"
    using t assms(2) by (simp add: dirlookup_def)
  moreover have "{0..<unat (i_size x) div 16} \<subseteq> {..<unat (i_size x) div 16}" by auto
  ultimately show ?thesis using dirlookup_loop_finds [of s dp "[0..<unat (i_size x) div 16]" dr name] assms unfolding assms(2) dir_find_def length_dir_ents by simp
qed

section \<open>Inodes in the cache\<close>

text \<open>An inode as the disk has it.\<close>

definition dinode_at :: "'a fs_scheme \<Rightarrow> u32 \<Rightarrow> u32 \<Rightarrow> inode" where
  "dinode_at s dev inum = read_dinode (view s dev (IBLOCK inum (sb s))) (dip_off inum)
     \<lparr>i_dev = dev, i_inum = inum, i_ref = 0, i_locked = False, i_valid = False, i_type = 0, i_major = 0, i_minor = 0, i_nlink = 0,
      i_size = 0, i_addrs = []\<rparr>"

text \<open>The cache is in order: no inode is there twice, a valid entry in use agrees with the disk, and only the entries in \<open>L\<close> are locked.\<close>

definition entry_ok :: "'a fs_scheme \<Rightarrow> inode \<Rightarrow> bool" where
  "entry_ok s x \<longleftrightarrow> (0 < i_ref x \<longrightarrow> i_dev x \<noteq> 0 \<and> (i_valid x \<longrightarrow> same_dinode x (dinode_at s (i_dev x) (i_inum x))))"

definition icoh :: "nat set \<Rightarrow> 'a fs_scheme \<Rightarrow> bool" where
  "icoh L s \<longleftrightarrow> icache_inv s \<and> (\<forall>i < NINODE. (i_locked (inodes s i) \<longrightarrow> i \<in> L) \<and> entry_ok s (inodes s i))"

lemma entry_ok_ref: "entry_ok s x \<Longrightarrow> 0 < i_ref x \<Longrightarrow> entry_ok s (x\<lparr>i_ref := n\<rparr>)" "entry_ok s (x\<lparr>i_locked := b\<rparr>) = entry_ok s x"
  by (simp_all add: entry_ok_def same_dinode_def)

text \<open>Reading that may change the inode cache.\<close>

definition ireads :: "'a fs_scheme \<Rightarrow> 'a fs_scheme \<Rightarrow> bool" where
  "ireads s s' \<longleftrightarrow> read_only s s' \<and> bio.more s' = bio.more (s\<lparr>inodes := inodes s'\<rparr>)"

lemma reads_ireads: "reads s s' \<Longrightarrow> ireads s s'"
  using reads_fields(1) [of s s'] by (simp add: reads_def ireads_def)

lemma more_inodes:
  fixes s :: "'a fs_scheme"
  shows "bio.more s' = bio.more s'' \<Longrightarrow> bio.more (s'\<lparr>inodes := i\<rparr>) = bio.more (s''\<lparr>inodes := i\<rparr>)"
    "bio.more s' = bio.more (s\<lparr>inodes := inodes s'\<rparr>) \<Longrightarrow> sb s' = sb s \<and> fs.more s' = fs.more s"
  by (cases s'; cases s''; simp) (cases s; cases s'; simp)

lemma ireads_trans:
  assumes "ireads s s'" "ireads s' s''"
  shows "ireads s s''"
proof -
  have "bio.more (s'\<lparr>inodes := inodes s''\<rparr>) = bio.more (s\<lparr>inodes := inodes s'\<rparr>\<lparr>inodes := inodes s''\<rparr>)"
    using assms(1) by (intro more_inodes(1)) (simp add: ireads_def)
  then show ?thesis using assms read_only_trans [of s s' s''] by (simp add: ireads_def)
qed

lemma ireads_can: "ireads s s' \<Longrightarrow> can_read s \<Longrightarrow> can_read s'"
  by (simp add: ireads_def read_only_def can_read_def)

lemma read_only_cong:
  assumes "can_read s" "bufs s' = bufs s" "lru s' = lru s" "disk s' = disk s" "havedisk1 s' = havedisk1 s" "dwrites s' = dwrites s"
  shows "read_only s s'"
  using assms bio_cong [OF assms(2-4)] by (simp add: read_only_def can_read_def qbio_def dirties_def)

lemma ireads_upd: "can_read s \<Longrightarrow> ireads s (upd_inode ip f s)" "can_read s \<Longrightarrow> ireads s (releasesleep_inode ip s)"
  by (auto simp: ireads_def upd_inode_def releasesleep_inode_def intro!: read_only_cong)

lemma ireads_fields:
  assumes "ireads s s'"
  shows "sb s' = sb s" "d \<noteq> 0 \<Longrightarrow> view s' d c = view s d c" "d \<noteq> 0 \<Longrightarrow> dinode_at s' d n = dinode_at s d n"
  using assms more_inodes(2) [of s' s] by (auto simp: ireads_def read_only_def dinode_at_def)

lemma ireads_dir:
  assumes "ireads s s'" "i_dev x \<noteq> 0"
  shows "dir_ents s' x = dir_ents s x" "dir_ok s' x = dir_ok s x" "file_mapped s' x = file_mapped s x" "file_byte s' x = file_byte s x"
proof -
  have v: "view s' (i_dev x) c = view s (i_dev x) c" for c using ireads_fields(2) [OF assms] .
  have f: "faddr s' x = faddr s x" by (simp add: faddr_def v fun_eq_iff)
  show b: "file_byte s' x = file_byte s x" by (simp add: file_byte_def f v fun_eq_iff)
  show "dir_ents s' x = dir_ents s x" "dir_ok s' x = dir_ok s x" "file_mapped s' x = file_mapped s x"
    by (simp_all add: dir_ents_def dir_ok_def file_mapped_def mapped_def f b v)
qed

lemma dinode_at_dev [simp]: "i_dev (dinode_at s d n) = d"
  by (simp add: dinode_at_def read_dinode_def)

lemma same_file:
  assumes "same_dinode x y" "i_dev x = i_dev y"
  shows "dir_ents s x = dir_ents s y" "dir_ok s x = dir_ok s y" "file_mapped s x = file_mapped s y" "file_byte s x = file_byte s y"
proof -
  have f: "faddr s x = faddr s y" using assms by (simp add: same_dinode_def faddr_def fun_eq_iff)
  show b: "file_byte s x = file_byte s y" using assms(2) by (simp add: file_byte_def f fun_eq_iff)
  show "dir_ents s x = dir_ents s y" "dir_ok s x = dir_ok s y" "file_mapped s x = file_mapped s y"
    using assms by (simp_all add: same_dinode_def dir_ents_def dir_ok_def file_mapped_def mapped_def f b)
qed

lemma ireads_entry: "ireads s s' \<Longrightarrow> entry_ok s' x = entry_ok s x"
  using ireads_fields(3) [of s s' "i_dev x"] by (auto simp: entry_ok_def)

text \<open>The operations on cache entries.\<close>

lemma iget_ok:
  assumes s: "icoh L s" "can_read s" "dev \<noteq> 0"
    and free: "i < NINODE" "i_ref (inodes s i) = 0"
  shows "\<exists>ip s'. iget dev inum s = Ok (ip, s') \<and> ip < NINODE \<and> ireads s s' \<and> icoh L s' \<and> i_dev (inodes s' ip) = dev \<and> i_inum (inodes s' ip) = inum \<and>
    i_ref (inodes s' ip) = i_ref (inodes s ip) + 1 \<and> (\<forall>j. j \<noteq> ip \<longrightarrow> inodes s' j = inodes s j) \<and>
    (0 < i_ref (inodes s ip) \<longrightarrow> inodes s' ip = (inodes s ip)\<lparr>i_ref := i_ref (inodes s ip) + 1\<rparr>)"
proof -
  have "\<exists>ip f. iget dev inum s = Ok (ip, upd_inode ip f s) \<and> i_locked (f (inodes s ip)) = i_locked (inodes s ip) \<and>
    (i_ref (inodes s ip) \<le> 0 \<longrightarrow> \<not> i_valid (f (inodes s ip)))"
  proof (cases "List.find (\<lambda>i. i_ref (inodes s i) > 0 \<and> i_dev (inodes s i) = dev \<and> i_inum (inodes s i) = inum) [0..<NINODE]")
    case None
    moreover have "List.find (\<lambda>i. i_ref (inodes s i) = 0) [0..<NINODE] \<noteq> None" using free by (auto simp: find_None_iff)
    ultimately show ?thesis by (fastforce simp: iget_def)
  next
    case (Some k)
    moreover have "0 < i_ref (inodes s k)" using Some by (auto simp: find_Some_iff)
    ultimately show ?thesis by (fastforce simp: iget_def)
  qed
  then obtain ip f where g: "iget dev inum s = Ok (ip, upd_inode ip f s)" and f: "i_locked (f (inodes s ip)) = i_locked (inodes s ip)"
    "i_ref (inodes s ip) \<le> 0 \<longrightarrow> \<not> i_valid (f (inodes s ip))" by blast
  let ?s = "upd_inode ip f s"
  have inv: "icache_inv s" using s(1) by (simp add: icoh_def)
  note r = iget_result [OF inv g]
  have ro: "ireads s ?s" using ireads_upd(1) [OF s(2)] .
  have ip: "inodes ?s ip = f (inodes s ip)" by (simp add: upd_inode_def)
  have "(i_locked (inodes ?s j) \<longrightarrow> j \<in> L) \<and> entry_ok s (inodes ?s j)" if j: "j < NINODE" for j
  proof (cases "j = ip")
    case False
    then show ?thesis using r s(1) j by (auto simp: icoh_def)
  next
    case True
    show ?thesis
    proof (cases "0 < i_ref (inodes s ip)")
      case t: True
      then have "inodes ?s ip = (inodes s ip)\<lparr>i_ref := i_ref (inodes s ip) + 1\<rparr>" using r by blast
      then show ?thesis using s(1) j True t entry_ok_ref(1) [of s "inodes s ip"] by (auto simp: icoh_def)
    next
      case False
      then show ?thesis using ip f s(1,3) j True r by (auto simp: icoh_def entry_ok_def)
    qed
  qed
  then have "\<forall>j < NINODE. (i_locked (inodes ?s j) \<longrightarrow> j \<in> L) \<and> entry_ok ?s (inodes ?s j)" using ireads_entry [OF ro] by blast
  then have "icoh L ?s" using r by (simp add: icoh_def)
  then show ?thesis using g r ro by blast
qed

lemma ilock_ok:
  assumes s: "icoh L s" "can_read s" "ip < NINODE" "0 < i_ref (inodes s ip)" "\<not> i_locked (inodes s ip)"
    and d: "dev = i_dev (inodes s ip)" "n = i_inum (inodes s ip)" "unat (IBLOCK n (sb s)) < FSSIZE" "i_type (dinode_at s dev n) \<noteq> 0"
  shows "\<exists>x s'. ilock ip s = Ok s' \<and> ireads s s' \<and> inodes s' = (inodes s)(ip := x) \<and> icoh (insert ip L) s' \<and> i_dev x = dev \<and> i_inum x = n \<and>
    i_ref x = i_ref (inodes s ip) \<and> i_locked x \<and> i_valid x \<and> same_dinode x (dinode_at s dev n)"
proof -
  let ?y = "inodes s ip"
  let ?s1 = "upd_inode ip (\<lambda>x. x\<lparr>i_locked := True\<rparr>) s"
  have eo: "entry_ok s ?y" and dv: "dev \<noteq> 0" using s(1,3,4) d(1) by (auto simp: icoh_def entry_ok_def)
  have r1: "ireads s ?s1" using ireads_upd(1) [OF s(2)] .
  have i1: "inodes ?s1 = (inodes s)(ip := ?y\<lparr>i_locked := True\<rparr>)" by (simp add: upd_inode_def)
  have a: "acquiresleep_inode ip s = Ok ?s1" using s(5) by (simp add: acquiresleep_inode_def)
  have fin: "icoh (insert ip L) s'"
    if "ireads s s'" "inodes s' = (inodes s)(ip := x)" "i_dev x = dev" "i_inum x = n" "i_ref x = i_ref ?y" "same_dinode x (dinode_at s dev n)" for s' x
  proof -
    have "icache_inv s'" using s(1) that(2-5) d by (auto simp: icoh_def icache_inv_def)
    moreover have "entry_ok s x" using that dv by (simp add: entry_ok_def)
    ultimately show ?thesis using s(1) that(2) ireads_entry [OF that(1)] by (auto simp: icoh_def)
  qed
  show ?thesis
  proof (cases "i_valid ?y")
    case True
    have sd: "same_dinode (?y\<lparr>i_locked := True\<rparr>) (dinode_at s dev n)" using eo True s(4) d by (simp add: entry_ok_def same_dinode_def)
    have "icoh (insert ip L) ?s1" by (rule fin [OF r1 i1 _ _ _ sd]) (use d in simp_all)
    moreover have "ilock ip s = Ok ?s1" using a True s(4) i1 by (simp add: ilock_def)
    ultimately show ?thesis using r1 i1 sd True d by (intro exI [of _ "?y\<lparr>i_locked := True\<rparr>"] exI [of _ ?s1]) simp
  next
    case False
    have c1: "can_read ?s1" using ireads_can [OF r1 s(2)] .
    have sb1: "sb ?s1 = sb s" and v1: "view ?s1 dev c = view s dev c" for c using ireads_fields [OF r1] dv by simp_all
    let ?x = "read_dinode (view s dev (IBLOCK n (sb s))) (dip_off n) (?y\<lparr>i_locked := True\<rparr>)\<lparr>i_valid := True\<rparr>"
    let ?g = "read_dinode (view s dev (IBLOCK n (sb s))) (dip_off n)"
    obtain i s2 where b: "bread dev (IBLOCK n (sb s)) ?s1 = Ok (i, s2)" "b_data (bufs s2 i) = view s dev (IBLOCK n (sb s))" "logst.more s2 = logst.more ?s1"
      and r: "\<forall>g ip. \<exists>s3. brelse i (upd_inode ip g s2) = Ok s3 \<and> inodes s3 = (inodes ?s1)(ip := g (inodes ?s1 ip)) \<and> sb s3 = sb ?s1 \<and>
        bio.more s3 = bio.more (upd_inode ip g ?s1) \<and> read_only ?s1 s3"
      using peek [OF _ dv d(3), of ?s1] c1 v1 unfolding can_read_def by auto
    obtain s3 where s3: "brelse i (upd_inode ip ?g s2) = Ok s3" "inodes s3 = (inodes ?s1)(ip := ?g (inodes ?s1 ip))"
      "bio.more s3 = bio.more (upd_inode ip ?g ?s1)" "read_only ?s1 s3"
      using r by blast
    let ?s4 = "upd_inode ip (\<lambda>x. x\<lparr>i_valid := True\<rparr>) s3"
    have "ireads ?s1 s3" unfolding ireads_def s3(2,3) using s3(4) by (simp add: upd_inode_def)
    then have r4: "ireads s ?s4"
      using ireads_trans [OF r1] ireads_trans [OF _ ireads_upd(1)] ireads_can [OF _ s(2)] by blast
    have i4: "inodes ?s4 = (inodes s)(ip := ?x)" using s3(2) i1 by (simp add: upd_inode_def)
    have sd: "same_dinode ?x (dinode_at s dev n)" by (simp add: same_dinode_def dinode_at_def read_dinode_def)
    have xf: "i_dev ?x = dev" "i_inum ?x = n" "i_ref ?x = i_ref ?y" "i_locked ?x" "i_valid ?x" using d by (simp_all add: read_dinode_def)
    have "icoh (insert ip L) ?s4" by (rule fin [OF r4 i4 xf(1-3) sd])
    moreover have "ilock ip s = Ok ?s4"
    proof -
      have "inodes s2 = inodes ?s1" using fs_fields [OF b(3)] by simp
      moreover have "i_type (inodes ?s4 ip) \<noteq> 0" using i4 sd d(4) by (simp add: same_dinode_def)
      ultimately show ?thesis using a False s(4) i1 b(1,2) s3(1) d sb1 by (simp add: ilock_def Let_def)
    qed
    ultimately show ?thesis using r4 i4 xf sd by blast
  qed
qed

lemma iunlockput_ok:
  assumes s: "icoh (insert ip L) s" "can_read s" "ip \<notin> L" "ip < NINODE" "0 < i_ref (inodes s ip)" "i_locked (inodes s ip)" "i_nlink (inodes s ip) \<noteq> 0"
  shows "\<exists>s'. iunlockput ip s = Ok s' \<and> ireads s s' \<and> icoh L s' \<and>
    inodes s' = (inodes s)(ip := (inodes s ip)\<lparr>i_locked := False, i_ref := i_ref (inodes s ip) - 1\<rparr>)"
proof -
  let ?y = "inodes s ip"
  let ?s1 = "releasesleep_inode ip s"
  let ?s2 = "upd_inode ip (\<lambda>x. x\<lparr>i_locked := True\<rparr>) ?s1"
  let ?s3 = "upd_inode ip (\<lambda>x. x\<lparr>i_ref := i_ref x - 1\<rparr>) (releasesleep_inode ip ?s2)"
  have i: "inodes ?s3 = (inodes s)(ip := ?y\<lparr>i_locked := False, i_ref := i_ref ?y - 1\<rparr>)"
    by (simp add: upd_inode_def releasesleep_inode_def)
  have "iunlockput ip s = Ok ?s3"
    using s(5-7) by (simp add: iunlockput_def iunlock_def iput_def acquiresleep_inode_def releasesleep_inode_def upd_inode_def)
  moreover have r: "ireads s ?s3"
  proof -
    have "ireads s ?s1" using ireads_upd(2) [OF s(2)] .
    moreover have "ireads ?s1 ?s2" by (rule ireads_upd(1) [OF ireads_can [OF calculation s(2)]])
    ultimately have "ireads s ?s2" by (rule ireads_trans)
    moreover have "ireads ?s2 (releasesleep_inode ip ?s2)" by (rule ireads_upd(2) [OF ireads_can [OF calculation s(2)]])
    ultimately have "ireads s (releasesleep_inode ip ?s2)" by (rule ireads_trans)
    moreover have "ireads (releasesleep_inode ip ?s2) ?s3" by (rule ireads_upd(1) [OF ireads_can [OF calculation s(2)]])
    ultimately show ?thesis by (rule ireads_trans)
  qed
  moreover have "icoh L ?s3"
  proof -
    have "icache_inv ?s3" using s(1,5) unfolding icoh_def icache_inv_def i by auto
    moreover have "entry_ok s (?y\<lparr>i_locked := False, i_ref := i_ref ?y - 1\<rparr>)"
      using s(1,4,5) entry_ok_ref(1) [of s "?y\<lparr>i_locked := False\<rparr>"] by (auto simp: icoh_def entry_ok_ref(2))
    ultimately show ?thesis using s(1,3) ireads_entry [OF r] unfolding icoh_def i by auto
  qed
  ultimately show ?thesis using i by blast
qed

section \<open>Path names\<close>

text \<open>Following the entries of directories from inode \<open>i\<close>.\<close>

primrec path_walk :: "'a fs_scheme \<Rightarrow> u32 \<Rightarrow> u32 \<Rightarrow> u8 list list \<Rightarrow> u32 option" where
  "path_walk s dev i [] = Some i"
| "path_walk s dev i (e # es) =
     (let x = dinode_at s dev i in
      if i_type x \<noteq> T_DIR then None
      else case dir_find e (dir_ents s x) of None \<Rightarrow> None | Some k \<Rightarrow> path_walk s dev (ucast (d_inum (dir_ents s x ! k))) es)"

text \<open>A set of inodes that are in order, among them those that their directories name.\<close>

definition tree_ok :: "'a fs_scheme \<Rightarrow> u32 \<Rightarrow> u32 set \<Rightarrow> bool" where
  "tree_ok s dev G \<longleftrightarrow> dev \<noteq> 0 \<and> (\<forall>i \<in> G. unat (IBLOCK i (sb s)) < FSSIZE \<and> i_type (dinode_at s dev i) \<noteq> 0 \<and> i_nlink (dinode_at s dev i) \<noteq> 0 \<and>
     (i_type (dinode_at s dev i) = T_DIR \<longrightarrow> dir_ok s (dinode_at s dev i) \<and>
        (\<forall>e \<in> set (dir_ents s (dinode_at s dev i)). d_inum e \<noteq> 0 \<longrightarrow> ucast (d_inum e) \<in> G)))"

lemma ireads_tree:
  assumes "ireads s s'" "dev \<noteq> 0"
  shows "tree_ok s' dev G = tree_ok s dev G" "path_walk s' dev i es = path_walk s dev i es"
proof -
  have d: "dir_ents s' (dinode_at s dev i) = dir_ents s (dinode_at s dev i)" "dir_ok s' (dinode_at s dev i) = dir_ok s (dinode_at s dev i)" for i
    using ireads_dir [OF assms(1)] assms(2) by simp_all
  show "tree_ok s' dev G = tree_ok s dev G" by (simp add: tree_ok_def ireads_fields [OF assms(1)] assms(2) d)
  show "path_walk s' dev i es = path_walk s dev i es"
    by (induction es arbitrary: i) (simp_all add: ireads_fields [OF assms(1)] assms(2) d Let_def split: option.split)
qed

text \<open>The references on the cache entries are \<open>r\<close>, and the entries that \<open>r\<close> counts are those of the inodes \<open>d\<close>.\<close>

definition ref_counts :: "'a fs_scheme \<Rightarrow> (nat \<Rightarrow> int) \<Rightarrow> bool" where
  "ref_counts s r \<longleftrightarrow> (\<forall>i < NINODE. i_ref (inodes s i) = r i)"

definition ref_names :: "'a fs_scheme \<Rightarrow> (nat \<Rightarrow> int) \<Rightarrow> (nat \<Rightarrow> u32 \<times> u32) \<Rightarrow> bool" where
  "ref_names s r d \<longleftrightarrow> (\<forall>i < NINODE. 0 < r i \<longrightarrow> (i_dev (inodes s i), i_inum (inodes s i)) = d i)"

lemma two_free:
  assumes "2 \<le> card {i. i < NINODE \<and> r i = (0::int)}"
  shows "\<exists>i < NINODE. i \<noteq> ip \<and> r i = 0"
proof (rule ccontr)
  assume "\<not> ?thesis"
  then have "{i. i < NINODE \<and> r i = 0} \<subseteq> {ip}" by auto
  then have "card {i. i < NINODE \<and> r i = 0} \<le> 1" using card_mono [of "{ip}"] by fastforce
  then show False using assms by simp
qed

lemma skipelem_elems: "skipelem path = Some (rest, name) \<Longrightarrow> path_elems path = name # path_elems rest" "skipelem path = None \<Longrightarrow> path_elems path = []"
  by (simp_all add: path_elems.simps [of path])

text \<open>Holding one more reference, on the entry \<open>ip\<close> for the inode \<open>n\<close>; and holding its lock too.\<close>

definition at_inode :: "'a fs_scheme \<Rightarrow> (nat \<Rightarrow> int) \<Rightarrow> (nat \<Rightarrow> u32 \<times> u32) \<Rightarrow> u32 \<Rightarrow> u32 \<Rightarrow> nat \<Rightarrow> bool" where
  "at_inode s r d dev n ip \<longleftrightarrow> icoh {} s \<and> can_read s \<and> ip < NINODE \<and> i_dev (inodes s ip) = dev \<and> i_inum (inodes s ip) = n \<and>
     ref_counts s (r(ip := r ip + 1)) \<and> ref_names s r d"

definition locked_at :: "'a fs_scheme \<Rightarrow> (nat \<Rightarrow> int) \<Rightarrow> (nat \<Rightarrow> u32 \<times> u32) \<Rightarrow> u32 \<Rightarrow> u32 \<Rightarrow> nat \<Rightarrow> bool" where
  "locked_at s r d dev n ip \<longleftrightarrow> icoh {ip} s \<and> can_read s \<and> ip < NINODE \<and> i_dev (inodes s ip) = dev \<and> i_inum (inodes s ip) = n \<and>
     i_locked (inodes s ip) \<and> i_valid (inodes s ip) \<and> i_nlink (inodes s ip) \<noteq> 0 \<and> ref_counts s (r(ip := r ip + 1)) \<and> ref_names s r d"

lemma lock_inode:
  assumes at: "at_inode s r d dev n ip" and t: "tree_ok s dev G" "n \<in> G" and r: "\<forall>i < NINODE. 0 \<le> r i"
  shows "\<exists>s1. ilock ip s = Ok s1 \<and> ireads s s1 \<and> locked_at s1 r d dev n ip \<and> same_dinode (inodes s1 ip) (dinode_at s dev n)"
proof -
  have a: "icoh {} s" "can_read s" "ip < NINODE" "i_dev (inodes s ip) = dev" "i_inum (inodes s ip) = n" "ref_counts s (r(ip := r ip + 1))" "ref_names s r d"
    using at by (simp_all add: at_inode_def)
  have g: "unat (IBLOCK n (sb s)) < FSSIZE" "i_type (dinode_at s dev n) \<noteq> 0" "i_nlink (dinode_at s dev n) \<noteq> 0" using t by (auto simp: tree_ok_def)
  have ul: "0 < i_ref (inodes s ip)" "\<not> i_locked (inodes s ip)" using a(1,3,6) r by (auto simp: icoh_def ref_counts_def)
  obtain y s1 where s1: "ilock ip s = Ok s1" "ireads s s1" "inodes s1 = (inodes s)(ip := y)" "icoh {ip} s1"
    and y: "i_dev y = dev" "i_inum y = n" "i_ref y = i_ref (inodes s ip)" "i_locked y" "i_valid y" "same_dinode y (dinode_at s dev n)"
    using ilock_ok [OF a(1-3) ul a(4) [symmetric] a(5) [symmetric] g(1,2)] by auto
  have "ref_counts s1 (r(ip := r ip + 1))" "ref_names s1 r d" using a y(1-3) by (auto simp: ref_counts_def ref_names_def s1(3))
  moreover have "i_nlink y \<noteq> 0" using y(6) g(3) by (simp add: same_dinode_def)
  ultimately have "locked_at s1 r d dev n ip" using s1 y a(3) ireads_can [OF s1(2) a(2)] by (simp add: locked_at_def)
  then show ?thesis using s1 y(6) by auto
qed

lemma put_inode:
  assumes at: "locked_at s r d dev n ip" and r: "\<forall>i < NINODE. 0 \<le> r i"
  shows "\<exists>s'. iunlockput ip s = Ok s' \<and> ireads s s' \<and> icoh {} s' \<and> ref_counts s' r \<and> ref_names s' r d"
proof -
  have a: "icoh {ip} s" "can_read s" "ip < NINODE" "i_locked (inodes s ip)" "i_nlink (inodes s ip) \<noteq> 0" "ref_counts s (r(ip := r ip + 1))" "ref_names s r d"
    using at by (simp_all add: locked_at_def)
  have "0 < i_ref (inodes s ip)" using a(3,6) r by (simp add: ref_counts_def)
  then obtain s' where s': "iunlockput ip s = Ok s'" "ireads s s'" "icoh {} s'"
    "inodes s' = (inodes s)(ip := (inodes s ip)\<lparr>i_locked := False, i_ref := i_ref (inodes s ip) - 1\<rparr>)"
    using iunlockput_ok [of ip "{}", OF a(1,2) _ a(3) _ a(4,5)] by auto
  have "ref_counts s' r" "ref_names s' r d" using a(3,6,7) by (auto simp: ref_counts_def ref_names_def s'(4))
  then show ?thesis using s' by blast
qed

lemma next_inode:
  assumes at: "locked_at s r d dev n ip" and r: "\<forall>i < NINODE. 0 \<le> r i" "2 \<le> card {i. i < NINODE \<and> r i = 0}" and dev: "dev \<noteq> 0"
  shows "\<exists>jp s1 s2. iget dev m s = Ok (jp, s1) \<and> iunlockput ip s1 = Ok s2 \<and> ireads s s2 \<and> at_inode s2 r d dev m jp"
proof -
  have a: "icoh {ip} s" "can_read s" "ip < NINODE" "i_dev (inodes s ip) = dev" "i_inum (inodes s ip) = n" "i_locked (inodes s ip)" "i_valid (inodes s ip)"
    "i_nlink (inodes s ip) \<noteq> 0" "ref_counts s (r(ip := r ip + 1))" "ref_names s r d"
    using at by (simp_all add: locked_at_def)
  obtain f where f: "f < NINODE" "i_ref (inodes s f) = 0" using two_free [OF r(2), of ip] a(9) by (auto simp: ref_counts_def)
  obtain jp s1 where s1: "iget dev m s = Ok (jp, s1)" "jp < NINODE" "ireads s s1" "icoh {ip} s1" "i_dev (inodes s1 jp) = dev" "i_inum (inodes s1 jp) = m"
      "i_ref (inodes s1 jp) = i_ref (inodes s jp) + 1" and o: "\<forall>j. j \<noteq> jp \<longrightarrow> inodes s1 j = inodes s j"
    and j: "0 < i_ref (inodes s jp) \<longrightarrow> inodes s1 jp = (inodes s jp)\<lparr>i_ref := i_ref (inodes s jp) + 1\<rparr>"
    using iget_ok [OF a(1,2) dev f, of m] by auto
  let ?r = "r(jp := r jp + 1)" and ?d = "d(jp := (dev, m))"
  have used: "i \<noteq> jp \<or> 0 < i_ref (inodes s i) \<Longrightarrow> \<exists>z. inodes s1 i = (inodes s i)\<lparr>i_ref := z\<rparr>" for i
    using o j by (cases "i = jp") (auto intro: exI [of _ "i_ref (inodes s i)"])
  have "0 < i_ref (inodes s ip)" using a(3,9) r(1) by (simp add: ref_counts_def)
  then obtain z where z: "inodes s1 ip = (inodes s ip)\<lparr>i_ref := z\<rparr>" using used by blast
  have "ref_counts s1 (?r(ip := ?r ip + 1))" using a(9) s1(2,7) o by (auto simp: ref_counts_def)
  moreover have "ref_names s1 ?r ?d" using a(10) o s1(5,6) by (auto simp: ref_names_def)
  ultimately have "locked_at s1 ?r ?d dev n ip" using s1(4) ireads_can [OF s1(3) a(2)] a z by (simp add: locked_at_def)
  moreover have nn: "\<forall>i < NINODE. 0 \<le> ?r i" using r(1) by (auto simp: add_nonneg_nonneg)
  ultimately obtain s2 where s2: "iunlockput ip s1 = Ok s2" "ireads s1 s2" "icoh {} s2" "ref_counts s2 ?r" "ref_names s2 ?r ?d"
    using put_inode [OF _ nn] by blast
  have "d jp = (dev, m)" if "0 < r jp"
  proof -
    have "0 < i_ref (inodes s jp)" using that a(9) s1(2) by (auto simp: ref_counts_def)
    then show ?thesis using used [of jp] a(10) that s1(2,5,6) by (auto simp: ref_names_def)
  qed
  then have "?d i = d i" if "0 < r i" for i using that by auto
  then have "ref_names s2 r d" using s2(5) r(1) by (auto simp: ref_names_def split: if_splits)
  moreover have "i_dev (inodes s2 jp) = dev" "i_inum (inodes s2 jp) = m" using s2(5) s1(2) r(1) by (auto simp: ref_names_def add_nonneg_pos)
  ultimately have "at_inode s2 r d dev m jp" using s2(3,4) s1(2) ireads_can [OF ireads_trans [OF s1(3) s2(2)] a(2)] by (simp add: at_inode_def)
  then show ?thesis using s1(1) s2(1) ireads_trans [OF s1(3) s2(2)] by blast
qed

lemma dirlookup_locked:
  assumes at: "locked_at s r d dev n ip" and t: "tree_ok s dev G" "n \<in> G" and sd: "same_dinode (inodes s ip) (dinode_at s dev n)"
    and dir: "i_type (dinode_at s dev n) = T_DIR" and es: "es = dir_ents s (dinode_at s dev n)"
  shows "\<exists>s'. reads s s' \<and> locked_at s' r d dev n ip \<and> dirlookup dr ip name s = (case dir_find name es of None \<Rightarrow> Ok (None, s')
     | Some k \<Rightarrow> bindo (iget dev (ucast (d_inum (es ! k))) s') (\<lambda>(ip, s). Ok (Some (ip, of_nat (16 * k)), s)))"
proof -
  have a: "can_read s" "i_dev (inodes s ip) = dev" using at by (simp_all add: locked_at_def)
  have dev: "dev \<noteq> 0" "dir_ok s (dinode_at s dev n)" using t dir by (auto simp: tree_ok_def)
  have y: "dir_ok s (inodes s ip)" "dir_ents s (inodes s ip) = es" using same_file [OF sd, of s] a(2) dev(2) by (simp_all add: es)
  obtain s' where s': "reads s s'" and l: "dirlookup dr ip name s = (case dir_find name es of None \<Rightarrow> Ok (None, s')
     | Some k \<Rightarrow> bindo (iget dev (ucast (d_inum (es ! k))) s') (\<lambda>(ip, s). Ok (Some (ip, of_nat (16 * k)), s)))"
    using dirlookup_finds [OF a(1) refl y(1), of dr name] unfolding y(2) a(2) using dev(1) by blast
  note i = reads_fields(1) [OF s']
  have "icoh {ip} s'" using at ireads_entry [OF reads_ireads [OF s']] by (simp add: locked_at_def icoh_def icache_inv_def i)
  then have "locked_at s' r d dev n ip" using at reads_can [OF s' a(1)] by (simp add: locked_at_def ref_counts_def ref_names_def i)
  then show ?thesis using s' l by blast
qed

lemma namex_loop_walks:
  assumes "at_inode s r d dev n ip" "tree_ok s dev G" "n \<in> G" and r: "\<forall>i < NINODE. 0 \<le> r i" "2 \<le> card {i. i < NINODE \<and> r i = 0}"
  shows "\<exists>res nm s'. namex_loop dr False path name ip s = Ok (res, nm, s') \<and> ireads s s' \<and>
    (case path_walk s dev n (path_elems path) of
       None \<Rightarrow> res = None \<and> icoh {} s' \<and> ref_counts s' r \<and> ref_names s' r d
     | Some m \<Rightarrow> m \<in> G \<and> (\<exists>jp. res = Some jp \<and> at_inode s' r d dev m jp))"
  using assms(1-3)
proof (induction "length path" arbitrary: path name ip n s rule: less_induct)
  case less
  have dev: "dev \<noteq> 0" using less.prems(2) by (simp add: tree_ok_def)
  show ?case
  proof (cases "skipelem path")
    case None
    have "ireads s s" using less.prems(1) by (intro reads_ireads reads_refl) (simp add: at_inode_def)
    then show ?thesis using None less.prems by (simp add: namex_loop.simps [of dr False path] skipelem_elems(2))
  next
    case (Some a)
    then obtain rest e where e: "skipelem path = Some (rest, e)" by (cases a) simp
    obtain s1 where s1: "ilock ip s = Ok s1" "ireads s s1" "locked_at s1 r d dev n ip" and sd: "same_dinode (inodes s1 ip) (dinode_at s dev n)"
      using lock_inode [OF less.prems r(1)] by blast
    have ty: "i_type (inodes s1 ip) = i_type (dinode_at s dev n)" using sd by (simp add: same_dinode_def)
    have put: "\<exists>s'. iunlockput ip s0 = Ok s' \<and> ireads s s' \<and> icoh {} s' \<and> ref_counts s' r \<and> ref_names s' r d"
      if "ireads s s0" "locked_at s0 r d dev n ip" for s0
      using put_inode [OF that(2) r(1)] ireads_trans [OF that(1)] by blast
    show ?thesis
    proof (cases "i_type (dinode_at s dev n) = T_DIR")
      case False
      then show ?thesis using put [OF s1(2,3)] ty s1(1)
        by (auto simp: namex_loop.simps [of dr False path] e skipelem_elems(1) [OF e])
    next
      case True
      define es where "es = dir_ents s (dinode_at s dev n)"
      have es1: "es = dir_ents s1 (dinode_at s1 dev n)" using ireads_dir(1) [OF s1(2)] ireads_fields(3) [OF s1(2) dev] dev by (simp add: es_def)
      have "tree_ok s1 dev G" "same_dinode (inodes s1 ip) (dinode_at s1 dev n)" "i_type (dinode_at s1 dev n) = T_DIR"
        using less.prems(2) sd True ireads_tree(1) [OF s1(2) dev] ireads_fields(3) [OF s1(2) dev] by simp_all
      then obtain s2 where s2: "reads s1 s2" "locked_at s2 r d dev n ip" and look: "dirlookup dr ip e s1 = (case dir_find e es of None \<Rightarrow> Ok (None, s2)
          | Some k \<Rightarrow> bindo (iget dev (ucast (d_inum (es ! k))) s2) (\<lambda>(ip, s). Ok (Some (ip, of_nat (16 * k)), s)))"
        using dirlookup_locked [OF s1(3) _ less.prems(3) _ _ es1] by blast
      have r2: "ireads s s2" using ireads_trans [OF s1(2) reads_ireads [OF s2(1)]] .
      show ?thesis
      proof (cases "dir_find e es")
        case None
        then show ?thesis using put [OF r2 s2(2)] ty s1(1) look True
          by (auto simp: namex_loop.simps [of dr False path] e skipelem_elems(1) [OF e] Let_def simp flip: es_def)
      next
        case (Some k)
        let ?m = "ucast (d_inum (es ! k)) :: u32"
        obtain jp s3 s4 where s4: "iget dev ?m s2 = Ok (jp, s3)" "iunlockput ip s3 = Ok s4" "ireads s2 s4" "at_inode s4 r d dev ?m jp"
          using next_inode [OF s2(2) r dev] by blast
        have r4: "ireads s s4" using ireads_trans [OF r2 s4(3)] .
        have "k < length es" "d_inum (es ! k) \<noteq> 0" using Some by (auto simp: dir_find_def find_Some_iff)
        then have m: "?m \<in> G" using less.prems(2,3) True nth_mem by (fastforce simp: tree_ok_def es_def)
        have t4: "tree_ok s4 dev G" using ireads_tree(1) [OF r4 dev] less.prems(2) by simp
        have "namex_loop dr False path name ip s = namex_loop dr False rest e jp s4"
          using Some True ty s1(1) look s4(1,2) by (simp add: namex_loop.simps [of dr False path] e)
        moreover have "path_walk s dev n (path_elems path) = path_walk s4 dev ?m (path_elems rest)"
          using Some True ireads_tree(2) [OF r4 dev] by (simp add: skipelem_elems(1) [OF e] Let_def flip: es_def)
        ultimately show ?thesis using less.hyps [OF skipelem_shorter [OF e] s4(4) t4 m, of e] ireads_trans [OF r4] by (auto split: option.splits)
      qed
    qed
  qed
qed

text \<open>Where \<^verbatim>\<open>namex\<close> begins: at the root or at the current directory.\<close>

definition starts_at :: "'a fs_scheme \<Rightarrow> nat option \<Rightarrow> u8 list \<Rightarrow> u32 \<Rightarrow> u32 \<Rightarrow> bool" where
  "starts_at s cwd path dev n \<longleftrightarrow>
     (if path \<noteq> [] \<and> hd path = slash then dev = ROOTDEV \<and> n = ROOTINO
      else case cwd of None \<Rightarrow> False
        | Some c \<Rightarrow> c < NINODE \<and> 0 < i_ref (inodes s c) \<and> i_dev (inodes s c) = dev \<and> i_inum (inodes s c) = n)"

lemma namex_start:
  assumes s: "icoh {} s" "can_read s" "starts_at s cwd path dev n" "dev \<noteq> 0" and r: "r = (\<lambda>i. i_ref (inodes s i))" "2 \<le> card {i. i < NINODE \<and> r i = 0}"
    and d: "d = (\<lambda>i. (i_dev (inodes s i), i_inum (inodes s i)))"
  shows "\<exists>ip s1. (if path \<noteq> [] \<and> hd path = slash then iget ROOTDEV ROOTINO s else case cwd of None \<Rightarrow> UB | Some c \<Rightarrow> Ok (idup c s)) = Ok (ip, s1) \<and>
    ireads s s1 \<and> at_inode s1 r d dev n ip"
proof (cases "path \<noteq> [] \<and> hd path = slash")
  case True
  then have dn: "dev = ROOTDEV" "n = ROOTINO" using s(3) by (simp_all add: starts_at_def)
  obtain f where f: "f < NINODE" "i_ref (inodes s f) = 0" using two_free [OF r(2)] r(1) by auto
  obtain ip s1 where s1: "iget dev n s = Ok (ip, s1)" "ip < NINODE" "ireads s s1" "icoh {} s1" "i_dev (inodes s1 ip) = dev" "i_inum (inodes s1 ip) = n"
      "i_ref (inodes s1 ip) = i_ref (inodes s ip) + 1" and o: "\<forall>j. j \<noteq> ip \<longrightarrow> inodes s1 j = inodes s j"
    and j: "0 < i_ref (inodes s ip) \<longrightarrow> inodes s1 ip = (inodes s ip)\<lparr>i_ref := i_ref (inodes s ip) + 1\<rparr>"
    using iget_ok [OF s(1,2,4) f, of n] by auto
  have "ref_names s1 r d" unfolding ref_names_def
  proof (intro allI impI)
    fix i assume "i < NINODE" "0 < r i"
    then show "(i_dev (inodes s1 i), i_inum (inodes s1 i)) = d i" using o j by (cases "i = ip") (simp_all add: r(1) d)
  qed
  moreover have "ref_counts s1 (r(ip := r ip + 1))" using s1(7) o by (simp add: ref_counts_def r(1))
  ultimately have "at_inode s1 r d dev n ip" using s1 ireads_can [OF s1(3) s(2)] by (simp add: at_inode_def)
  then show ?thesis using True s1(1,3) dn by auto
next
  case False
  then obtain c where c: "cwd = Some c" "c < NINODE" "0 < i_ref (inodes s c)" "i_dev (inodes s c) = dev" "i_inum (inodes s c) = n"
    using s(3) unfolding starts_at_def by (cases cwd) auto
  let ?s = "upd_inode c (\<lambda>x. x\<lparr>i_ref := i_ref x + 1\<rparr>) s"
  have ro: "ireads s ?s" using ireads_upd(1) [OF s(2)] .
  have i: "inodes ?s = (inodes s)(c := (inodes s c)\<lparr>i_ref := i_ref (inodes s c) + 1\<rparr>)" by (simp add: upd_inode_def)
  have "icache_inv ?s" using s(1) c(3) unfolding icoh_def icache_inv_def i by auto
  then have "icoh {} ?s" using s(1) entry_ok_ref(1) [of s "inodes s c"] c(2,3) ireads_entry [OF ro] unfolding icoh_def i by auto
  moreover have "ref_counts ?s (r(c := r c + 1))" "ref_names ?s r d" by (simp_all add: ref_counts_def ref_names_def i r(1) d)
  ultimately have "at_inode ?s r d dev n c" using c i ireads_can [OF ro s(2)] by (simp add: at_inode_def)
  then show ?thesis using False c(1) ro by (auto simp: idup_def)
qed

section \<open>Properties\<close>

text \<open>C10: \<^verbatim>\<open>readi\<close> returns exactly the bytes of the file from the offset on, as many as were asked for and the file
  has; past the end of the file, or where the offset overflows, it returns -1. It changes no block, writes nothing and leaves the
  log and the inode cache alone.\<close>

theorem readi_reads_file:
  assumes "can_read s" "x = inodes s ip" "i_type x \<noteq> T_DEV" "file_mapped s x"
  shows "if off \<le> i_size x \<and> unat off + unat n < 2 ^ 32
    then \<exists>s'. readi dr ip off n s = Ok (int (min (unat n) (unat (i_size x) - unat off)),
             take (unat n) (drop (unat off) (map (file_byte s x) [0..<unat (i_size x)])), s') \<and> reads s s'
    else readi dr ip off n s = Ok (-1, [], s)"
proof (cases "off \<le> i_size x \<and> unat off + unat n < 2 ^ 32")
  case True
  then have "unat off \<le> unat (i_size x)" by (simp add: word_le_nat_alt)
  then have "take (unat n) (drop (unat off) (map (file_byte s x) [0..<unat (i_size x)])) =
      map (file_byte s x) [unat off..<unat off + min (unat n) (unat (i_size x) - unat off)]"
    by (simp add: take_map drop_map) (simp add: min_def)
  then show ?thesis using readi_mapped [OF assms, of off n _ dr] True by auto
next
  case False
  have "off + n < off" if "\<not> unat off + unat n < 2 ^ 32"
  proof -
    have b: "unat off < 2 ^ 32" "unat n < 2 ^ 32" using unsigned_less [of off, where 'a = nat] unsigned_less [of n, where 'a = nat] by simp_all
    then have m: "unat off + unat n - 2 ^ 32 < 2 ^ 32" by linarith
    have "unat (off + n) = (unat off + unat n) mod 2 ^ 32" by (simp add: unat_word_ariths)
    also have "\<dots> = unat off + unat n - 2 ^ 32" using that mod_less [OF m] by (simp only: le_mod_geq not_less)
    finally show ?thesis using that b by (simp only: word_less_nat_alt)
  qed
  then show ?thesis using False assms(2,3) by (auto simp: readi_def Let_def)
qed

theorem readi_reads_file_witness:
  "\<exists>s'. readi (\<lambda>_. None) 0 500 400 demo_fs = Ok (200, replicate 200 0, s')"
proof -
  let ?x = "inodes demo_fs 0"
  have x: "i_dev ?x = 1" "i_type ?x = 2" "i_size ?x = 700" "i_addrs ?x = [59, 60] @ replicate 11 0" by (simp_all add: demo_fs_def)
  have v: "view demo_fs 1 59 = replicate 512 0" "view demo_fs 1 60 = replicate 512 0" by (simp_all add: demo_fs_view) (simp_all add: demo_fs_def)
  have a: "faddr demo_fs ?x k = (if k = 0 then 59 else 60)" if "k < 2" for k
    using that x(4) by (cases k) (auto simp: faddr_def)
  have m: "file_mapped demo_fs ?x" using a v x(1) by (simp add: file_mapped_def mapped_def x(3))
  have "file_byte demo_fs ?x i = 0" if "i < 700" for i
  proof -
    have "i div 512 < 2" using that by simp
    then show ?thesis using a [of "i div 512"] v x(1) by (simp add: file_byte_def)
  qed
  then have c: "map (file_byte demo_fs ?x) [0..<700] = replicate 700 0" by (auto intro!: nth_equalityI)
  have "can_read demo_fs" using demo_fs_qbio by (simp add: can_read_def demo_fs_dirties)
  from readi_reads_file [OF this refl _ m, of 500 400 "\<lambda>_. None"] show ?thesis using x by (auto simp: c)
qed

text \<open>Writing an inode to the disk changes no other inode, not even one in the same block.\<close>

lemma dip_off_apart:
  assumes "m \<noteq> n" "IBLOCK m b = IBLOCK n b"
  shows "dip_off n + 64 \<le> dip_off m \<or> dip_off m + 64 \<le> dip_off n"
proof -
  have e: "unat (k div 8) = unat k div 8" for k :: u32 by (simp add: unat_div)
  have "m div 8 = n div 8" using assms(2) by (simp add: IBLOCK_def)
  then have "unat m div 8 = unat n div 8" by (metis e)
  then have "unat m mod 8 \<noteq> unat n mod 8" using assms(1) div_mult_mod_eq [of "unat m" 8] div_mult_mod_eq [of "unat n" 8] by (metis word_unat_eq_iff)
  then show ?thesis unfolding dip_off_def by linarith
qed

lemma dinode_at_written:
  assumes l: "logged dev x (write_dinode y (dip_off m) (view s dev x)) s s1" and x: "x = IBLOCK m (sb s)" and dev: "dev \<noteq> 0" "d \<noteq> 0"
    and len: "length (view s dev x) = BSIZE" and a: "length (i_addrs y) = 13"
  shows "same_dinode (dinode_at s1 dev m) y" "(d, n) \<noteq> (dev, m) \<Longrightarrow> dinode_at s1 d n = dinode_at s d n"
proof -
  have sb: "sb s1 = sb s" using l fs_fields [of s1 s] by (simp add: logged_def)
  have v: "d \<noteq> 0 \<Longrightarrow> view s1 d c = (if d = dev \<and> c = x then write_dinode y (dip_off m) (view s dev x) else view s d c)" for d c
    using l by (simp add: logged_def)
  have k: "dip_off m + 64 \<le> length (view s dev x)" using dip_off_le len by simp
  show "same_dinode (dinode_at s1 dev m) y"
    using v [OF dev(1)] read_write_dinode [OF k a] by (simp add: dinode_at_def sb flip: x)
  show "dinode_at s1 d n = dinode_at s d n" if "(d, n) \<noteq> (dev, m)"
  proof (cases "d = dev \<and> IBLOCK n (sb s) = x")
    case True
    then have "dip_off n + 64 \<le> dip_off m \<or> dip_off m + 64 \<le> dip_off n" using that x by (intro dip_off_apart [of m n "sb s"]) auto
    then have "read_dinode (write_dinode y (dip_off m) (view s dev x)) (dip_off n) z = read_dinode (view s dev x) (dip_off n) z" for z
      by (intro read_dinode_cong write_dinode_outside) auto
    then show ?thesis using v [OF dev(2)] True by (simp add: dinode_at_def sb)
  next
    case False
    then show ?thesis using v [OF dev(2)] by (auto simp: dinode_at_def sb)
  qed
qed

text \<open>After \<^verbatim>\<open>iupdate\<close> the cache agrees with the disk again.\<close>

lemma iupdate_ok:
  fixes s :: "'a fs_scheme"
  assumes q: "qbio s" "log_room 2 s" and inv: "icache_inv s" "\<forall>i < NINODE. i \<noteq> ip \<longrightarrow> \<not> i_locked (inodes s i) \<and> entry_ok s (inodes s i)"
    and x: "x = inodes s ip" "ip < NINODE" "0 < i_ref x" "i_dev x \<noteq> 0" "length (i_addrs x) = 13"
    and b: "unat (IBLOCK (i_inum x) (sb s)) < FSSIZE" "length (view s (i_dev x) (IBLOCK (i_inum x) (sb s))) = BSIZE"
  shows "\<exists>s1. iupdate ip s = Ok s1 \<and> can_read s1 \<and> icoh {ip} s1 \<and> inodes s1 = inodes s \<and> sb s1 = sb s \<and>
    same_dinode (dinode_at s1 (i_dev x) (i_inum x)) x \<and>
    (\<forall>d n. d \<noteq> 0 \<longrightarrow> (d, n) \<noteq> (i_dev x, i_inum x) \<longrightarrow> dinode_at s1 d n = dinode_at s d n)"
proof -
  have r: "log_room (Suc 1) s" using q(2) by (simp add: numeral_2_eq_2)
  obtain s1 where s1: "iupdate ip s = Ok s1"
    "logged (i_dev x) (IBLOCK (i_inum x) (sb s)) (write_dinode x (dip_off (i_inum x)) (view s (i_dev x) (IBLOCK (i_inum x) (sb s)))) s s1"
    using iupdate_logged [OF q(1) _ _ refl _ r, of ip] x b by auto
  have ff: "sb s1 = sb s" "inodes s1 = inodes s" using s1(2) fs_fields [of s1 s] by (simp_all add: logged_def)
  have "log_room 1 s1" using s1(2) r unfolding logged_def by blast
  then have c1: "can_read s1" using s1(2) by (simp add: can_read_def logged_def log_room_def)
  note w = dinode_at_written [OF s1(2) refl x(4) _ b(2) x(5)]
  have "entry_ok s1 (inodes s i)" if i: "i < NINODE" for i
  proof (cases "i = ip")
    case True
    then show ?thesis using w(1) x(1,4) by (simp add: entry_ok_def same_dinode_def)
  next
    case False
    show ?thesis
    proof (cases "0 < i_ref (inodes s i)")
      case True
      then have "(i_dev (inodes s i), i_inum (inodes s i)) \<noteq> (i_dev x, i_inum x)" using inv(1) x(1-3) i False by (auto simp: icache_inv_def)
      moreover have "entry_ok s (inodes s i)" using inv(2) i False by blast
      ultimately show ?thesis using w(2) by (simp add: entry_ok_def)
    qed (simp add: entry_ok_def)
  qed
  moreover have "icache_inv s1" using inv(1) by (simp add: icache_inv_def ff)
  moreover have "i_locked (inodes s i) \<longrightarrow> i \<in> {ip}" if "i < NINODE" for i using inv(2) that by auto
  ultimately have "icoh {ip} s1" unfolding icoh_def ff by blast
  then show ?thesis using s1(1) c1 ff w x(4) by blast
qed

text \<open>C35: an inode that was written with \<^verbatim>\<open>iupdate\<close> outlives its place in the cache. When the last reference to it is given back and the inode is looked up again,
  \<^verbatim>\<open>iget\<close> hands out an entry that is not valid, and \<^verbatim>\<open>ilock\<close> reads from the disk exactly the type, device numbers, link count, size
  and block addresses that were written. No other inode on the disk is changed, not even in the same block, and the cache agrees with the disk.\<close>

theorem iupdate_ilock_roundtrip:
  fixes s :: "'a fs_scheme"
  assumes "qbio s" "log_room 2 s" "icache_inv s" "\<forall>i < NINODE. i \<noteq> ip \<longrightarrow> \<not> i_locked (inodes s i) \<and> entry_ok s (inodes s i)"
    and x: "x = inodes s ip" "ip < NINODE" "i_locked x" "i_valid x" "i_ref x = 1" "i_nlink x \<noteq> 0" "i_type x \<noteq> 0" "i_dev x \<noteq> 0" "length (i_addrs x) = 13"
    and b: "unat (IBLOCK (i_inum x) (sb s)) < FSSIZE" "length (view s (i_dev x) (IBLOCK (i_inum x) (sb s))) = BSIZE"
  shows "\<exists>s1 s2 jp s3 s4. iupdate ip s = Ok s1 \<and> iunlockput ip s1 = Ok s2 \<and> iget (i_dev x) (i_inum x) s2 = Ok (jp, s3) \<and> \<not> i_valid (inodes s3 jp) \<and>
    ilock jp s3 = Ok s4 \<and> i_ref (inodes s4 jp) = 1 \<and> same_dinode (inodes s4 jp) x \<and> icoh {jp} s4 \<and>
    (\<forall>n. n \<noteq> i_inum x \<longrightarrow> dinode_at s4 (i_dev x) n = dinode_at s (i_dev x) n)"
proof -
  obtain s1 where s1: "iupdate ip s = Ok s1" "can_read s1" "icoh {ip} s1" "inodes s1 = inodes s" "sb s1 = sb s"
    "same_dinode (dinode_at s1 (i_dev x) (i_inum x)) x" "\<forall>n. n \<noteq> i_inum x \<longrightarrow> dinode_at s1 (i_dev x) n = dinode_at s (i_dev x) n"
    using iupdate_ok [OF assms(1-4) x(1,2) _ x(8,9) b] x(5,8) by auto
  have x1: "inodes s1 ip = x" using s1(4) x(1) by simp
  obtain s2 where s2: "iunlockput ip s1 = Ok s2" "ireads s1 s2" "icoh {} s2" "inodes s2 = (inodes s1)(ip := x\<lparr>i_locked := False, i_ref := 0\<rparr>)"
    using iunlockput_ok [of ip "{}", OF s1(3,2) _ x(2)] x(3,5,6) unfolding x1 by auto
  have c2: "can_read s2" using ireads_can [OF s2(2) s1(2)] .
  have f: "i_ref (inodes s2 ip) = 0" using s2(4) by simp
  obtain jp s3 where s3: "iget (i_dev x) (i_inum x) s2 = Ok (jp, s3)" "jp < NINODE" "ireads s2 s3" "icoh {} s3" "i_dev (inodes s3 jp) = i_dev x"
      "i_inum (inodes s3 jp) = i_inum x" "i_ref (inodes s3 jp) = i_ref (inodes s2 jp) + 1"
    and j: "0 < i_ref (inodes s2 jp) \<longrightarrow> inodes s3 jp = (inodes s2 jp)\<lparr>i_ref := i_ref (inodes s2 jp) + 1\<rparr>"
    using iget_ok [OF s2(3) c2 x(8,2) f, of "i_inum x"] by auto
  have z: "i_ref (inodes s2 jp) = 0"
  proof (rule ccontr)
    assume n: "i_ref (inodes s2 jp) \<noteq> 0"
    then have p: "0 < i_ref (inodes s2 jp)" using s2(3) s3(2) by (fastforce simp: icoh_def icache_inv_def)
    then have "jp \<noteq> ip" using f by auto
    then show False using p j s2(4) s3(2,5,6) s1(4) assms(3) x(1,2,5) by (auto simp: icache_inv_def)
  qed
  have "\<not> i_valid (inodes s3 jp)"
    using s3(1) z by (auto simp: iget_def upd_inode_def find_Some_iff split: option.splits)
  moreover have ul: "\<not> i_locked (inodes s3 jp)" "0 < i_ref (inodes s3 jp)" using s3(2,4,7) z by (auto simp: icoh_def)
  have r3: "ireads s1 s3" using ireads_trans [OF s2(2) s3(3)] .
  have d3: "dinode_at s3 (i_dev x) n = dinode_at s1 (i_dev x) n" "sb s3 = sb s" for n using ireads_fields [OF r3] x(8) s1(5) by simp_all
  have ty: "i_type (dinode_at s3 (i_dev x) (i_inum x)) \<noteq> 0" using s1(6) x(7) by (simp add: d3 same_dinode_def)
  obtain y s4 where s4: "ilock jp s3 = Ok s4" "ireads s3 s4" "inodes s4 = (inodes s3)(jp := y)" "icoh {jp} s4" "i_ref y = i_ref (inodes s3 jp)"
    "same_dinode y (dinode_at s3 (i_dev x) (i_inum x))"
    using ilock_ok [OF s3(4) ireads_can [OF s3(3) c2] s3(2) ul(2,1) s3(5) [symmetric] s3(6) [symmetric] _ ty] b(1) d3(2) by auto
  have "same_dinode (inodes s4 jp) x" "i_ref (inodes s4 jp) = 1" using s4(3,5,6) s1(6) s3(7) z by (simp_all add: d3(1) same_dinode_def)
  moreover have "dinode_at s4 (i_dev x) n = dinode_at s (i_dev x) n" if "n \<noteq> i_inum x" for n
    using ireads_fields(3) [OF s4(2) x(8)] d3(1) s1(7) that by simp
  ultimately show ?thesis using s1(1) s2(1) s3(1) s4(1,4) by blast
qed

theorem iupdate_ilock_roundtrip_witness:
  "\<exists>s1 s2 jp s3 s4. iupdate 0 (upd_inode 0 (\<lambda>x. x\<lparr>i_locked := True, i_size := 1234, i_nlink := 3\<rparr>) demo_fs) = Ok s1 \<and> iunlockput 0 s1 = Ok s2 \<and>
     iget 1 9 s2 = Ok (jp, s3) \<and> ilock jp s3 = Ok s4 \<and> i_size (inodes s4 jp) = 1234 \<and> i_nlink (inodes s4 jp) = 3"
proof -
  let ?s = "upd_inode 0 (\<lambda>x. x\<lparr>i_locked := True, i_size := 1234, i_nlink := 3\<rparr>) demo_fs" let ?x = "inodes ?s 0"
  have x: "i_dev ?x = 1" "i_inum ?x = 9" "i_ref ?x = 1" "i_locked ?x" "i_valid ?x" "i_type ?x = 2" "i_nlink ?x = 3" "i_size ?x = 1234" "length (i_addrs ?x) = 13"
    by (simp_all add: upd_inode_def demo_fs_def)
  have e: "bufs ?s = bufs demo_fs" "lru ?s = lru demo_fs" "disk ?s = disk demo_fs" "havedisk1 ?s = havedisk1 demo_fs" "sb ?s = sb demo_fs"
    by (simp_all add: upd_inode_def)
  have q: "qbio ?s" using demo_fs_qbio bio_cong(1) [OF e(1-3)] by (simp add: qbio_def e)
  have "log_room 2 demo_fs" by (rule demo_fs_room) simp
  then have r: "log_room 2 ?s" by (simp add: log_room_def dirties_def e) (simp add: upd_inode_def)
  have inv: "icache_inv ?s" "\<forall>i < NINODE. i \<noteq> 0 \<longrightarrow> \<not> i_locked (inodes ?s i) \<and> entry_ok ?s (inodes ?s i)"
    by (auto simp: icache_inv_def entry_ok_def upd_inode_def demo_fs_def)
  have b: "IBLOCK 9 (sb ?s) = 33" by (simp add: IBLOCK_def e) (simp add: demo_fs_def)
  have v: "length (view ?s 1 33) = 512" unfolding bio_cong(2) [OF e(1-3)] by (simp add: demo_fs_view) (simp add: demo_fs_def)
  obtain s1 s2 jp s3 s4 where s: "iupdate 0 ?s = Ok s1" "iunlockput 0 s1 = Ok s2" "iget (i_dev ?x) (i_inum ?x) s2 = Ok (jp, s3)" "ilock jp s3 = Ok s4"
    "same_dinode (inodes s4 jp) ?x"
    using iupdate_ilock_roundtrip [OF q r inv refl] x b v by auto
  then show ?thesis using x by (auto simp: same_dinode_def)
qed

end
