(* ===== verification/Mkfs.thy ===== *)
theory Mkfs
  imports Fs
begin

unbundle bit_operations_syntax

text \<open>
  The builder of the file system image, \<^verbatim>\<open>mkfs.c\<close>. The image is the content of its blocks, empty where the file has not been written;
  a read past its end fails as in the code, and other failures of the host's file operations are left out. A failed \<^verbatim>\<open>assert\<close> and an exit
  after \<^verbatim>\<open>perror\<close> are a \<open>Panic\<close> with the expression or the operation. \<^verbatim>\<open>xint\<close> and \<^verbatim>\<open>xshort\<close> convert to the byte order of the
  disk, in which blocks are read and written here. Block numbers are natural numbers, stored as 32-bit words; the disk has \<open>FSSIZE\<close> blocks.
\<close>

section \<open>The builder\<close>

record mkst =
  img :: "nat \<Rightarrow> block"
  freeinode :: nat
  freeblock :: nat

abbreviation (input) NINODES :: nat where "NINODES \<equiv> 200"
abbreviation (input) ninodeblocks :: nat where "ninodeblocks \<equiv> 26"
abbreviation (input) mk_nlog :: nat where "mk_nlog \<equiv> 30"
abbreviation (input) nmeta :: nat where "nmeta \<equiv> 59"
abbreviation (input) mk_inodestart :: nat where "mk_inodestart \<equiv> 32"
abbreviation (input) mk_bmapstart :: nat where "mk_bmapstart \<equiv> 58"

definition wsect :: "nat \<Rightarrow> block \<Rightarrow> mkst \<Rightarrow> mkst" where
  "wsect sec buf s = s\<lparr>img := (img s)(sec := buf)\<rparr>"

definition rsect :: "nat \<Rightarrow> mkst \<Rightarrow> block outcome" where
  "rsect sec s = (if length (img s sec) = BSIZE then Ok (img s sec) else Panic ''read'')"

definition dnull :: inode where
  "dnull = \<lparr>i_dev = 0, i_inum = 0, i_ref = 0, i_locked = False, i_valid = False, i_type = 0, i_major = 0, i_minor = 0, i_nlink = 0,
     i_size = 0, i_addrs = replicate 13 0\<rparr>"

definition mk_iblock :: "nat \<Rightarrow> nat" where
  "mk_iblock inum = inum div IPB + mk_inodestart"

definition winode :: "nat \<Rightarrow> inode \<Rightarrow> mkst \<Rightarrow> mkst outcome" where
  "winode inum din s =
     bindo (rsect (mk_iblock inum) s) (\<lambda>buf. Ok (wsect (mk_iblock inum) (write_dinode din (64 * (inum mod IPB)) buf) s))"

definition rinode :: "nat \<Rightarrow> mkst \<Rightarrow> inode outcome" where
  "rinode inum s = bindo (rsect (mk_iblock inum) s) (\<lambda>buf. Ok (read_dinode buf (64 * (inum mod IPB)) dnull))"

definition mk_ialloc :: "u16 \<Rightarrow> mkst \<Rightarrow> (nat \<times> mkst) outcome" where
  "mk_ialloc type s =
     (let inum = freeinode s; s = s\<lparr>freeinode := freeinode s + 1\<rparr> in
      bindo (winode inum (dnull\<lparr>i_type := type, i_nlink := 1\<rparr>) s) (\<lambda>s. Ok (inum, s)))"

definition mk_balloc :: "nat \<Rightarrow> mkst \<Rightarrow> mkst outcome" where
  "mk_balloc used s =
     (if \<not> used < BSIZE * 8 then Panic ''used < BSIZE*8''
      else Ok (wsect mk_bmapstart (fold mark_used [0..<used] (replicate BSIZE 0)) s))"

text \<open>The part of \<^verbatim>\<open>iappend\<close> that finds the block of the file with the number \<open>fbn\<close>, or takes a new one.\<close>

definition next_block :: "mkst \<Rightarrow> nat \<times> mkst" where
  "next_block s = (freeblock s, s\<lparr>freeblock := freeblock s + 1\<rparr>)"

definition alloc_direct :: "nat \<Rightarrow> inode \<Rightarrow> mkst \<Rightarrow> inode \<times> mkst" where
  "alloc_direct k din s =
     (if i_addrs din ! k = 0
      then let (b, s) = next_block s in (din\<lparr>i_addrs := (i_addrs din)[k := of_nat b]\<rparr>, s)
      else (din, s))"

definition alloc_block :: "nat \<Rightarrow> inode \<Rightarrow> mkst \<Rightarrow> (nat \<times> inode \<times> mkst) outcome" where
  "alloc_block fbn din s =
     (if fbn < NDIRECT then let (din, s) = alloc_direct fbn din s in Ok (unat (i_addrs din ! fbn), din, s)
      else
        let (din, s) = alloc_direct NDIRECT din s;
            ind = unat (i_addrs din ! NDIRECT);
            k = 4 * (fbn - NDIRECT)
        in bindo (rsect ind s) (\<lambda>indirect.
             let (indirect, s) =
               (if get32 indirect k = 0
                then let (b, s) = next_block s; indirect = put32 indirect k (of_nat b) in (indirect, wsect ind indirect s)
                else (indirect, s))
             in Ok (unat (get32 indirect k), din, s)))"

lemma block_room: "off < (off div BSIZE + 1) * BSIZE" "off \<le> off div BSIZE * BSIZE + off mod BSIZE" "off mod BSIZE < BSIZE"
  by (simp_all add: dividend_less_times_div)

function iappend_loop :: "u8 list \<Rightarrow> nat \<Rightarrow> inode \<Rightarrow> mkst \<Rightarrow> (nat \<times> inode \<times> mkst) outcome" where
  "iappend_loop p off din s =
     (if p = [] then Ok (off, din, s)
      else
        let fbn = off div BSIZE; n1 = min (length p) ((fbn + 1) * BSIZE - off) in
        if \<not> fbn < MAXFILE then Panic ''fbn < MAXFILE''
        else
          bindo (alloc_block fbn din s) (\<lambda>(x, din, s).
          bindo (rsect x s) (\<lambda>buf.
          iappend_loop (drop n1 p) (off + n1) din (wsect x (splice buf (off - fbn * BSIZE) (take n1 p)) s))))"
  by pat_completeness auto
termination
proof (relation "measure (\<lambda>(p, off, din, s). length p)", goal_cases)
  case 2
  then show ?case using block_room(1) by simp
qed simp

declare iappend_loop.simps [simp del]

definition iappend :: "nat \<Rightarrow> u8 list \<Rightarrow> mkst \<Rightarrow> mkst outcome" where
  "iappend inum p s =
     bindo (rinode inum s) (\<lambda>din.
     bindo (iappend_loop p (unat (i_size din)) din s) (\<lambda>(off, din, s).
     winode inum (din\<lparr>i_size := of_nat off\<rparr>) s))"

text \<open>
  The main program. An argument is the name of a file and what the host gives for it: nothing when it cannot be opened, otherwise
  the results of the successive \<^verbatim>\<open>read\<close> calls.
\<close>

definition mk_superblock :: block where
  "mk_superblock =
     (let buf = replicate BSIZE 0;
          buf = put32 buf 0 (of_nat FSSIZE);
          buf = put32 buf 4 (of_nat (FSSIZE - nmeta));
          buf = put32 buf 8 (of_nat NINODES);
          buf = put32 buf 12 (of_nat mk_nlog);
          buf = put32 buf 16 2;
          buf = put32 buf 20 (of_nat (2 + mk_nlog))
      in put32 buf 24 (of_nat (2 + mk_nlog + ninodeblocks)))"

definition mk_dirent :: "nat \<Rightarrow> u8 list \<Rightarrow> u8 list" where
  "mk_dirent inum name = bytes_of_dirent \<lparr>d_inum = of_nat inum, d_name = strncpy14 name\<rparr>"

definition mkfs_init :: mkst where
  "mkfs_init =
     (let s = \<lparr>img = (\<lambda>_. []), freeinode = 1, freeblock = nmeta\<rparr>;
          s = fold (\<lambda>i. wsect i (replicate BSIZE 0)) [0..<FSSIZE] s
      in wsect 1 mk_superblock s)"

definition mkfs_root :: "mkst \<Rightarrow> (nat \<times> mkst) outcome" where
  "mkfs_root s =
     bindo (mk_ialloc T_DIR s) (\<lambda>(rootino, s).
     if rootino \<noteq> unat ROOTINO then Panic ''rootino == ROOTINO''
     else
       bindo (iappend rootino (mk_dirent rootino (bytes ''.'')) s) (\<lambda>s.
       bindo (iappend rootino (mk_dirent rootino (bytes ''..'')) s) (\<lambda>s.
       Ok (rootino, s))))"

fun mkfs_reads :: "nat \<Rightarrow> u8 list list \<Rightarrow> mkst \<Rightarrow> mkst outcome" where
  "mkfs_reads inum [] s = Ok s"
| "mkfs_reads inum (buf # rest) s = bindo (iappend inum buf s) (mkfs_reads inum rest)"

definition skip_underscore :: "u8 list \<Rightarrow> u8 list" where
  "skip_underscore name = (if name \<noteq> [] \<and> hd name = of_char (CHR ''_'') then tl name else name)"

fun mkfs_file :: "nat \<Rightarrow> u8 list \<times> u8 list list option \<Rightarrow> mkst \<Rightarrow> mkst outcome" where
  "mkfs_file rootino (name, f) s =
     (if slash \<in> set name then Panic ''index(argv[i], slash) == 0''
      else case f of
        None \<Rightarrow> Panic ''open''
      | Some reads \<Rightarrow>
          bindo (mk_ialloc T_FILE s) (\<lambda>(inum, s).
          bindo (iappend rootino (mk_dirent inum (skip_underscore name)) s)
            (mkfs_reads inum reads)))"

fun mkfs_files :: "nat \<Rightarrow> (u8 list \<times> u8 list list option) list \<Rightarrow> mkst \<Rightarrow> mkst outcome" where
  "mkfs_files rootino [] s = Ok s"
| "mkfs_files rootino (f # fs) s = bindo (mkfs_file rootino f s) (mkfs_files rootino fs)"

definition mkfs_fix_root :: "nat \<Rightarrow> mkst \<Rightarrow> mkst outcome" where
  "mkfs_fix_root rootino s =
     bindo (rinode rootino s) (\<lambda>din.
     let off = (unat (i_size din) div BSIZE + 1) * BSIZE in
     winode rootino (din\<lparr>i_size := of_nat off\<rparr>) s)"

definition mkfs :: "(u8 list \<times> u8 list list option) list \<Rightarrow> mkst outcome" where
  "mkfs files =
     bindo (mkfs_root mkfs_init) (\<lambda>(rootino, s).
     bindo (mkfs_files rootino files s) (\<lambda>s.
     bindo (mkfs_fix_root rootino s) (\<lambda>s.
     mk_balloc (freeblock s) s)))"


section \<open>Files in the image\<close>

definition blkno :: "mkst \<Rightarrow> inode \<Rightarrow> nat \<Rightarrow> nat" where
  "blkno s din k =
     (if k < 12 then unat (i_addrs din ! k) else unat (get32 (img s (unat (i_addrs din ! 12))) (4 * (k - 12))))"

text \<open>The blocks a file of \<open>n\<close> blocks owns.\<close>

definition own :: "mkst \<Rightarrow> inode \<Rightarrow> nat \<Rightarrow> nat set" where
  "own s din n = blkno s din ` {..<n} \<union> (if n \<le> 12 then {} else {unat (i_addrs din ! 12)})"

text \<open>The blocks of a file of \<open>n\<close> data blocks, with the indirect block.\<close>

definition tot :: "nat \<Rightarrow> nat" where
  "tot n = n + (if n \<le> 12 then 0 else 1)"

definition img_ok :: "mkst \<Rightarrow> bool" where
  "img_ok s \<longleftrightarrow> (\<forall>b < FSSIZE. length (img s b) = BSIZE) \<and> (\<forall>b. freeblock s \<le> b \<longrightarrow> b < FSSIZE \<longrightarrow> img s b = replicate BSIZE 0) \<and>
     nmeta \<le> freeblock s \<and> freeblock s \<le> FSSIZE"

definition file_ok :: "mkst \<Rightarrow> inode \<Rightarrow> nat \<Rightarrow> bool" where
  "file_ok s din n \<longleftrightarrow> length (i_addrs din) = 13 \<and> n \<le> MAXFILE \<and> own s din n \<subseteq> {nmeta ..< freeblock s} \<and> inj_on (blkno s din) {..<n} \<and>
     (\<forall>k. n \<le> k \<longrightarrow> k < 12 \<longrightarrow> i_addrs din ! k = 0) \<and>
     (n \<le> 12 \<longrightarrow> i_addrs din ! 12 = 0) \<and>
     (12 < n \<longrightarrow> (\<forall>k < n. blkno s din k \<noteq> unat (i_addrs din ! 12)) \<and>
        (\<forall>k. n \<le> k \<longrightarrow> k < MAXFILE \<longrightarrow> get32 (img s (unat (i_addrs din ! 12))) (4 * (k - 12)) = 0))"

definition grown :: "mkst \<Rightarrow> inode \<Rightarrow> nat \<Rightarrow> inode \<Rightarrow> mkst \<Rightarrow> bool" where
  "grown s din n din' s' \<longleftrightarrow> img_ok s' \<and> file_ok s' din' (Suc n) \<and> (\<exists>a. din' = din\<lparr>i_addrs := a\<rparr>) \<and> freeinode s' = freeinode s \<and>
     freeblock s \<le> freeblock s' \<and> freeblock s' + tot n = freeblock s + tot (Suc n) \<and> own s' din' (Suc n) \<subseteq> own s din n \<union> {freeblock s ..< freeblock s'} \<and>
     freeblock s \<le> blkno s' din' n \<and> img s' (blkno s' din' n) = replicate BSIZE 0 \<and>
     (\<forall>k < n. blkno s' din' k = blkno s din k \<and> img s' (blkno s din k) = img s (blkno s din k)) \<and>
     (\<forall>b < freeblock s. b \<notin> own s din n \<longrightarrow> img s' b = img s b)"

lemma file_ok_block:
  assumes "file_ok s din n" "k < n"
  shows "nmeta \<le> blkno s din k" "blkno s din k < freeblock s" "blkno s din k \<in> own s din n"
proof -
  show o: "blkno s din k \<in> own s din n" using assms(2) by (simp add: own_def)
  have "own s din n \<subseteq> {nmeta ..< freeblock s}" using assms(1) by (simp add: file_ok_def)
  then have "blkno s din k \<in> {nmeta ..< freeblock s}" using o by (rule subsetD)
  then show "nmeta \<le> blkno s din k" "blkno s din k < freeblock s" by simp_all
qed

lemma file_ok_ind:
  assumes "file_ok s din n" "12 < n"
  shows "nmeta \<le> unat (i_addrs din ! 12)" "unat (i_addrs din ! 12) < freeblock s" "unat (i_addrs din ! 12) \<in> own s din n"
proof -
  show o: "unat (i_addrs din ! 12) \<in> own s din n" using assms(2) by (simp add: own_def)
  have "own s din n \<subseteq> {nmeta ..< freeblock s}" using assms(1) by (simp add: file_ok_def)
  then have "unat (i_addrs din ! 12) \<in> {nmeta ..< freeblock s}" using o by (rule subsetD)
  then show "nmeta \<le> unat (i_addrs din ! 12)" "unat (i_addrs din ! 12) < freeblock s" by simp_all
qed

lemma unat_of_nat_block: "b < 2 ^ 32 \<Longrightarrow> unat (of_nat b :: u32) = b"
  by (simp add: unsigned_of_nat take_bit_nat_eq_self)

lemma inj_on_Suc:
  "inj_on f {..<n} \<Longrightarrow> (\<And>k. k < n \<Longrightarrow> g k = f k) \<Longrightarrow> g n \<notin> f ` {..<n} \<Longrightarrow> inj_on g {..<Suc n}"
proof -
  assume i: "inj_on f {..<n}" and g: "\<And>k. k < n \<Longrightarrow> g k = f k" and n: "g n \<notin> f ` {..<n}"
  have "inj_on g {..<n} = inj_on f {..<n}" "g ` {..<n} = f ` {..<n}" using g by (auto intro!: inj_on_cong image_cong)
  then show ?thesis using i n unfolding lessThan_Suc inj_on_insert by auto
qed

lemma grownI:
  assumes ok: "file_ok s din n" "n < MAXFILE" "img_ok s'" and d: "length a = 13" "din' = din\<lparr>i_addrs := a\<rparr>"
    and nm: "nmeta \<le> freeblock s" and s': "freeinode s' = freeinode s" "freeblock s \<le> freeblock s'" "freeblock s' + tot n = freeblock s + tot (Suc n)"
    and b: "\<And>k. k < n \<Longrightarrow> blkno s' din' k = blkno s din k"
    and x: "freeblock s \<le> blkno s' din' n" "blkno s' din' n < freeblock s'" "img s' (blkno s' din' n) = replicate BSIZE 0"
    and i: "\<And>k. k < n \<Longrightarrow> img s' (blkno s din k) = img s (blkno s din k)"
      "\<And>c. c < freeblock s \<Longrightarrow> c \<notin> own s din n \<Longrightarrow> img s' c = img s c"
    and z: "\<And>k. n < k \<Longrightarrow> k < 12 \<Longrightarrow> a ! k = 0" "n < 12 \<Longrightarrow> a ! 12 = 0"
    and ind: "12 \<le> n \<Longrightarrow> if n = 12 then freeblock s \<le> unat (a ! 12) \<and> unat (a ! 12) < freeblock s' else a ! 12 = i_addrs din ! 12"
      "12 \<le> n \<Longrightarrow> unat (a ! 12) \<noteq> blkno s' din' n"
      "\<And>k. 12 \<le> n \<Longrightarrow> n < k \<Longrightarrow> k < MAXFILE \<Longrightarrow> get32 (img s' (unat (a ! 12))) (4 * (k - 12)) = 0"
  shows "grown s din n din' s'"
proof -
  note blk = file_ok_block [OF ok(1)]
  have "blkno s' din' ` {..<Suc n} = insert (blkno s' din' n) (blkno s din ` {..<n})" using b by (auto simp: lessThan_Suc)
  then have o: "own s' din' (Suc n) \<subseteq> own s din n \<union> {freeblock s ..< freeblock s'}"
    using x(1,2) ind(1) d(2) by (cases "n \<le> 12") (auto simp: own_def)
  have "own s din n \<subseteq> {nmeta ..< freeblock s}" using ok(1) by (simp add: file_ok_def)
  then have o': "own s' din' (Suc n) \<subseteq> {nmeta ..< freeblock s'}" using o s'(2) nm by fastforce
  have "blkno s' din' n \<notin> blkno s din ` {..<n}" using blk(2) x(1) by fastforce
  then have inj: "inj_on (blkno s' din') {..<Suc n}" using ok(1) b by (intro inj_on_Suc [of "blkno s din"]) (auto simp: file_ok_def)
  have ne: "blkno s' din' k \<noteq> unat (a ! 12)" if "12 \<le> n" "k < Suc n" for k
    using that ind(1,2) b [of k] blk(2) [of k] ok(1) by (cases "k = n"; cases "n = 12") (auto simp: file_ok_def)
  have "file_ok s' din' (Suc n)" using ok(2) d o' inj z ind(3) ne by (auto simp: file_ok_def less_Suc_eq_le Suc_le_eq)
  then show ?thesis using ok(3) d(2) s' o x b i by (auto simp: grown_def)
qed

lemma get32_zero: "k + 4 \<le> BSIZE \<Longrightarrow> get32 (replicate BSIZE 0) k = 0"
  by (simp add: get32_def)

lemma rsect_Ok: "img_ok s \<Longrightarrow> b < freeblock s \<Longrightarrow> rsect b s = Ok (img s b)"
  by (simp add: img_ok_def rsect_def)

lemma alloc_old:
  assumes io: "img_ok s" and ok: "file_ok s din (Suc k)"
  shows "alloc_block k din s = Ok (blkno s din k, din, s)"
proof (cases "k < 12")
  case True
  then have "i_addrs din ! k \<noteq> 0" using file_ok_block [OF ok, of k] by (auto simp: blkno_def)
  then show ?thesis using True by (simp add: alloc_block_def alloc_direct_def blkno_def)
next
  case False
  then have "i_addrs din ! 12 \<noteq> 0" "get32 (img s (unat (i_addrs din ! 12))) (4 * (k - 12)) \<noteq> 0" "unat (i_addrs din ! 12) < freeblock s"
    using file_ok_ind [OF ok] file_ok_block [OF ok, of k] by (auto simp: blkno_def)
  then show ?thesis using False rsect_Ok [OF io] by (simp add: alloc_block_def alloc_direct_def blkno_def)
qed

lemma alloc_new_direct:
  assumes ok: "img_ok s" "file_ok s din n" and n: "n < 12" and fb: "freeblock s + tot (Suc n) \<le> FSSIZE + tot n"
  shows "\<exists>din' s'. alloc_block n din s = Ok (blkno s' din' n, din', s') \<and> grown s din n din' s'"
proof -
  let ?a = "(i_addrs din)[n := of_nat (freeblock s)]"
  let ?din = "din\<lparr>i_addrs := ?a\<rparr>" let ?s = "s\<lparr>freeblock := freeblock s + 1\<rparr>"
  have l: "length (i_addrs din) = 13" "i_addrs din ! n = 0" "i_addrs din ! 12 = 0" "\<And>k. n < k \<Longrightarrow> k < 12 \<Longrightarrow> i_addrs din ! k = 0"
    using ok(2) n by (auto simp: file_ok_def)
  have f1: "freeblock s + 1 \<le> FSSIZE" "tot (Suc n) = tot n + 1" using fb n by (auto simp: tot_def)
  have u: "unat (of_nat (freeblock s) :: u32) = freeblock s" using f1 by (intro unat_of_nat_block) simp
  have b: "blkno ?s ?din n = freeblock s" "k < n \<Longrightarrow> blkno ?s ?din k = blkno s din k" for k
    using n l(1) u by (auto simp: blkno_def nth_list_update)
  have "alloc_block n din s = Ok (blkno ?s ?din n, ?din, ?s)"
    using n l by (simp add: alloc_block_def alloc_direct_def next_block_def blkno_def)
  moreover have "grown s din n ?din ?s"
    by (rule grownI [of s din n _ ?a]) (use ok n l b f1 in \<open>auto simp: img_ok_def nth_list_update\<close>)
  ultimately show ?thesis by blast
qed


text \<open>The first block after the direct ones: the indirect block is taken as well.\<close>

lemma alloc_new_12:
  assumes ok: "img_ok s" "file_ok s din 12" and fb: "freeblock s + tot (Suc 12) \<le> FSSIZE + tot 12"
  shows "\<exists>din' s'. alloc_block 12 din s = Ok (blkno s' din' 12, din', s') \<and> grown s din 12 din' s'"
proof -
  let ?f = "freeblock s" let ?a = "(i_addrs din)[12 := of_nat ?f]" let ?din = "din\<lparr>i_addrs := ?a\<rparr>"
  let ?ind = "put32 (replicate BSIZE 0) 0 (of_nat (?f + 1))"
  let ?s = "s\<lparr>img := (img s)(?f := ?ind), freeblock := ?f + 2\<rparr>"
  have l: "length (i_addrs din) = 13" "i_addrs din ! 12 = 0" using ok(2) by (auto simp: file_ok_def)
  have f2: "?f + 2 \<le> FSSIZE" "tot (Suc 12) = tot 12 + 2" using fb by (auto simp: tot_def)
  have u: "unat (of_nat ?f :: u32) = ?f" "unat (of_nat (?f + 1) :: u32) = ?f + 1" using f2 by (intro unat_of_nat_block; simp)+
  have z: "img s b = replicate BSIZE 0" if "?f \<le> b" "b < FSSIZE" for b using ok(1) that by (simp add: img_ok_def)
  have len: "\<forall>b < FSSIZE. length (img s b) = BSIZE" "nmeta \<le> ?f" using ok(1) by (auto simp: img_ok_def)
  have b: "blkno ?s ?din 12 = ?f + 1" "k < 12 \<Longrightarrow> blkno ?s ?din k = blkno s din k" for k
    using l(1) u by (auto simp: blkno_def)
  have "alloc_block 12 din s = Ok (blkno ?s ?din 12, ?din, ?s)"
    using l u z [of ?f] get32_zero [of 0] b(1) f2(1)
    by (simp add: alloc_block_def alloc_direct_def next_block_def wsect_def rsect_def Let_def)
  moreover have "grown s din 12 ?din ?s"
  proof (rule grownI [of s din 12 _ ?a])
    show "img_ok ?s" using len z f2(1) by (auto simp: img_ok_def)
    show "img ?s (blkno ?s ?din 12) = replicate BSIZE 0" unfolding b(1) using z [of "?f + 1"] f2(1) by simp
    show "img ?s (blkno s din k) = img s (blkno s din k)" if "k < 12" for k using file_ok_block(2) [OF ok(2) that] by simp
    show "get32 (img ?s (unat (?a ! 12))) (4 * (k - 12)) = 0" if "12 < k" "k < MAXFILE" for k
      using that l u get32_zero [of "4 * (k - 12)"] by (simp add: get32_put32_other)
  qed (use ok l b u len f2 in \<open>auto simp: nth_list_update\<close>)
  ultimately show ?thesis by blast
qed

lemma alloc_new_indirect:
  assumes ok: "img_ok s" "file_ok s din n" and n: "12 < n" "n < MAXFILE" and fb: "freeblock s + tot (Suc n) \<le> FSSIZE + tot n"
  shows "\<exists>din' s'. alloc_block n din s = Ok (blkno s' din' n, din', s') \<and> grown s din n din' s'"
proof -
  let ?f = "freeblock s" let ?i = "unat (i_addrs din ! 12)" let ?k = "4 * (n - 12)"
  let ?ind = "put32 (img s ?i) ?k (of_nat ?f)" let ?s = "s\<lparr>img := (img s)(?i := ?ind), freeblock := ?f + 1\<rparr>"
  have l: "length (i_addrs din) = 13" "get32 (img s ?i) ?k = 0" "\<And>k. k < n \<Longrightarrow> blkno s din k \<noteq> ?i"
    "\<And>k. n \<le> k \<Longrightarrow> k < MAXFILE \<Longrightarrow> get32 (img s ?i) (4 * (k - 12)) = 0" using ok(2) n by (auto simp: file_ok_def)
  have i: "?i < ?f" "i_addrs din ! 12 \<noteq> 0" "?i \<in> own s din n" using file_ok_ind [OF ok(2) n(1)] by auto
  have f1: "?f + 1 \<le> FSSIZE" "tot (Suc n) = tot n + 1" using fb n by (auto simp: tot_def)
  have u: "unat (of_nat ?f :: u32) = ?f" using f1 by (intro unat_of_nat_block) simp
  have len: "\<forall>b < FSSIZE. length (img s b) = BSIZE" "nmeta \<le> ?f" and z: "\<And>b. ?f \<le> b \<Longrightarrow> b < FSSIZE \<Longrightarrow> img s b = replicate BSIZE 0"
    using ok(1) by (auto simp: img_ok_def)
  have il: "length (img s ?i) = BSIZE" using len(1) i(1) f1(1) by simp
  have g: "get32 ?ind ?k = of_nat ?f" using il n by (intro get32_put32) simp
  have o: "get32 ?ind (4 * (k - 12)) = get32 (img s ?i) (4 * (k - 12))" if "k \<noteq> n" "12 \<le> k" for k
    using that n by (intro get32_put32_other) auto
  have b: "blkno ?s din n = ?f" "k < n \<Longrightarrow> blkno ?s din k = blkno s din k" for k
    using n g u o [of k] by (auto simp: blkno_def)
  have "alloc_block n din s = Ok (blkno ?s din n, din, ?s)"
    using n l(2) i g b(1) u il by (simp add: alloc_block_def alloc_direct_def next_block_def wsect_def rsect_def Let_def)
  moreover have "grown s din n din ?s"
  proof (rule grownI [of s din n _ "i_addrs din"])
    show "img_ok ?s" using len z i(1) f1(1) by (auto simp: img_ok_def)
    show "img ?s (blkno ?s din n) = replicate BSIZE 0" unfolding b(1) using z [of ?f] i(1) f1(1) by simp
    show "img ?s (blkno s din k) = img s (blkno s din k)" if "k < n" for k using l(3) [OF that] by simp
    show "img ?s c = img s c" if "c \<notin> own s din n" for c using that i(3) by auto
    show "get32 (img ?s ?i) (4 * (k - 12)) = 0" if "n < k" "k < MAXFILE" for k
      using that l(4) [of k] n o [of k] by simp
  qed (use ok l b n i len f1 in auto)
  ultimately show ?thesis by blast
qed


lemma alloc_new:
  assumes "img_ok s" "file_ok s din n" "n < MAXFILE" "freeblock s + tot (Suc n) \<le> FSSIZE + tot n"
  shows "\<exists>din' s'. alloc_block n din s = Ok (blkno s' din' n, din', s') \<and> grown s din n din' s'"
proof -
  consider "n < 12" | "n = 12" | "12 < n" by linarith
  then show ?thesis using alloc_new_direct alloc_new_12 alloc_new_indirect assms by cases auto
qed

section \<open>Appending\<close>

definition nblk :: "nat \<Rightarrow> nat" where
  "nblk off = (off + 511) div BSIZE"

definition fbyte :: "mkst \<Rightarrow> inode \<Rightarrow> nat \<Rightarrow> u8" where
  "fbyte s din i = img s (blkno s din (i div BSIZE)) ! (i mod BSIZE)"

definition content :: "mkst \<Rightarrow> inode \<Rightarrow> nat \<Rightarrow> u8 list" where
  "content s din off = map (fbyte s din) [0..<off]"

text \<open>Writing the bytes \<open>xs\<close> at the end of the file, within its block.\<close>

lemma write_block:
  assumes ok: "img_ok s" "file_ok s din (Suc k)" and off: "off div BSIZE = k" "off mod BSIZE + length xs \<le> BSIZE"
    and z: "\<And>j. off \<le> j \<Longrightarrow> j < Suc k * BSIZE \<Longrightarrow> fbyte s din j = 0"
  defines "s' \<equiv> wsect (blkno s din k) (splice (img s (blkno s din k)) (off mod BSIZE) xs) s"
  shows "img_ok s'" "file_ok s' din (Suc k)" "own s' din (Suc k) = own s din (Suc k)" "content s' din (off + length xs) = content s din off @ xs"
    "\<And>j. off + length xs \<le> j \<Longrightarrow> j < Suc k * BSIZE \<Longrightarrow> fbyte s' din j = 0"
proof -
  let ?x = "blkno s din k"
  have x: "?x < freeblock s" using file_ok_block [OF ok(2), of k] by simp
  have len: "\<forall>b < FSSIZE. length (img s b) = BSIZE" "length (img s ?x) = BSIZE" using ok(1) x by (simp_all add: img_ok_def)
  have i: "img s' b = (if b = ?x then splice (img s ?x) (off mod BSIZE) xs else img s b)" for b by (simp add: s'_def wsect_def)
  have f: "freeblock s' = freeblock s" by (simp add: s'_def wsect_def)
  have nx: "12 < Suc k \<Longrightarrow> unat (i_addrs din ! 12) \<noteq> ?x" using ok(2) by (auto simp: file_ok_def)
  have b: "blkno s' din j = blkno s din j" if "j < Suc k" for j using nx that by (auto simp: blkno_def i)
  show "img_ok s'" using ok(1) x off(2) len by (simp add: img_ok_def i f)
  have bi: "blkno s' din ` {..<Suc k} = blkno s din ` {..<Suc k}" "inj_on (blkno s' din) {..<Suc k} = inj_on (blkno s din) {..<Suc k}"
    using b by (auto intro!: image_cong inj_on_cong)
  show o: "own s' din (Suc k) = own s din (Suc k)" unfolding own_def bi ..
  show "file_ok s' din (Suc k)" using ok(2) b nx unfolding file_ok_def o f bi by (simp add: i)
  have off': "off = k * BSIZE + off mod BSIZE" using off(1) by (metis div_mult_mod_eq)
  have "fbyte s' din j = (content s din off @ xs) ! j" if j: "j < off + length xs" for j
  proof -
    have j': "j = j div BSIZE * BSIZE + j mod BSIZE" by simp
    have m: "j mod BSIZE < BSIZE" by simp
    have jk: "j div BSIZE < Suc k" using j j' off' off(2) by linarith
    show ?thesis
    proof (cases "j div BSIZE = k")
      case False
      then have lt: "j div BSIZE < k" "j < off" using jk j' off' m by linarith+
      have "blkno s din (j div BSIZE) \<noteq> ?x" using ok(2) lt(1) by (auto simp: file_ok_def inj_on_def)
      then show ?thesis using lt b [OF jk] by (simp add: fbyte_def content_def i nth_append)
    next
      case True
      have "j < off \<longleftrightarrow> j mod BSIZE < off mod BSIZE" using j' off' True by linarith
      moreover have "j - off = j mod BSIZE - off mod BSIZE" using j' off' True by linarith
      moreover have "\<not> j < off \<Longrightarrow> j mod BSIZE - off mod BSIZE < length xs" using j j' off' True by linarith
      ultimately show ?thesis using True b [OF jk] len(2) off(2) j
        by (auto simp: fbyte_def content_def i nth_append splice_def)
    qed
  qed
  then show "content s' din (off + length xs) = content s din off @ xs"
    by (intro nth_equalityI) (auto simp: content_def)
  show "fbyte s' din j = 0" if j: "off + length xs \<le> j" "j < Suc k * BSIZE" for j
  proof -
    have j': "j = j div BSIZE * BSIZE + j mod BSIZE" "j mod BSIZE < BSIZE" by simp_all
    have "j < k * BSIZE + BSIZE" using j(2) by simp
    then have jk: "j div BSIZE = k" using j(1) j' off' off(2) by (intro antisym) linarith+
    have "off mod BSIZE + length xs \<le> j mod BSIZE" using j(1) j' off' jk by linarith
    then show ?thesis using z [of j] j jk b [of k] len(2) off(2) j'(2) by (auto simp: fbyte_def i splice_def nth_append)
  qed
qed


text \<open>One file has grown and nothing else has changed.\<close>

definition ext :: "mkst \<Rightarrow> inode \<Rightarrow> nat \<Rightarrow> mkst \<Rightarrow> inode \<Rightarrow> nat \<Rightarrow> bool" where
  "ext s din n s' din' n' \<longleftrightarrow> img_ok s' \<and> file_ok s' din' n' \<and> (\<exists>a. din' = din\<lparr>i_addrs := a\<rparr>) \<and> freeinode s' = freeinode s \<and>
     freeblock s \<le> freeblock s' \<and> freeblock s' + tot n = freeblock s + tot n' \<and> own s' din' n' \<subseteq> own s din n \<union> {freeblock s ..< freeblock s'} \<and>
     (\<forall>b < freeblock s. b \<notin> own s din n \<longrightarrow> img s' b = img s b)"

lemma ext_refl: "img_ok s \<Longrightarrow> file_ok s din n \<Longrightarrow> ext s din n s din n"
  by (auto simp: ext_def intro: exI [of _ "i_addrs din"])

lemma ext_trans:
  assumes "ext s din n s1 din1 n1" "ext s1 din1 n1 s2 din2 n2"
  shows "ext s din n s2 din2 n2"
proof -
  have o: "own s1 din1 n1 \<subseteq> own s din n \<union> {freeblock s ..< freeblock s1}" "own s2 din2 n2 \<subseteq> own s1 din1 n1 \<union> {freeblock s1 ..< freeblock s2}"
    "freeblock s \<le> freeblock s1" "freeblock s1 \<le> freeblock s2" using assms by (auto simp: ext_def)
  then have "own s2 din2 n2 \<subseteq> own s din n \<union> {freeblock s ..< freeblock s2}" by fastforce
  moreover have "img s2 b = img s b" if "b < freeblock s" "b \<notin> own s din n" for b
  proof -
    have "b \<notin> own s1 din1 n1" using o(1) that by auto
    then show ?thesis using assms that o(3) by (auto simp: ext_def)
  qed
  ultimately show ?thesis using assms o(3,4) by (auto simp: ext_def)
qed

lemma nblk_mid: "off mod BSIZE \<noteq> 0 \<Longrightarrow> nblk off = Suc (off div BSIZE)" "off mod BSIZE = 0 \<Longrightarrow> nblk off = off div BSIZE"
proof -
  have "off + 511 = off div BSIZE * BSIZE + (off mod BSIZE + 511)" by simp
  then have e: "nblk off = off div BSIZE + (off mod BSIZE + 511) div BSIZE" unfolding nblk_def by (metis div_mult_self3 zero_neq_numeral)
  have "off mod BSIZE < BSIZE" by simp
  then have "off mod BSIZE \<noteq> 0 \<Longrightarrow> (off mod BSIZE + 511) div BSIZE = 1" "off mod BSIZE = 0 \<Longrightarrow> (off mod BSIZE + 511) div BSIZE = 0" by auto
  then show "off mod BSIZE \<noteq> 0 \<Longrightarrow> nblk off = Suc (off div BSIZE)" "off mod BSIZE = 0 \<Longrightarrow> nblk off = off div BSIZE" using e by auto
qed

lemma nblk_room: "0 < n \<Longrightarrow> off mod BSIZE + n \<le> BSIZE \<Longrightarrow> nblk (off + n) = Suc (off div BSIZE)"
proof -
  assume n: "0 < n" "off mod BSIZE + n \<le> BSIZE"
  have "off + n + 511 = off div BSIZE * BSIZE + (off mod BSIZE + n + 511)" by simp
  then have "nblk (off + n) = off div BSIZE + (off mod BSIZE + n + 511) div BSIZE" unfolding nblk_def by (metis div_mult_self3 zero_neq_numeral)
  moreover have "(off mod BSIZE + n + 511) div BSIZE = 1" using n by auto
  ultimately show ?thesis by simp
qed

text \<open>The bytes of the last block past the end of the file.\<close>

definition ztail :: "mkst \<Rightarrow> inode \<Rightarrow> nat \<Rightarrow> bool" where
  "ztail s din off \<longleftrightarrow> (\<forall>j. off \<le> j \<longrightarrow> j < nblk off * BSIZE \<longrightarrow> fbyte s din j = 0)"

lemma tot_mono: "m \<le> n \<Longrightarrow> tot m \<le> tot n"
  by (simp add: tot_def)

lemma nblk_mono: "m \<le> n \<Longrightarrow> nblk m \<le> nblk n"
  by (simp add: nblk_def div_le_mono)

lemma alloc_for:
  assumes ok: "img_ok s" "file_ok s din (nblk off)" "ztail s din off" and k: "off div BSIZE < MAXFILE"
    and fb: "freeblock s + tot (Suc (off div BSIZE)) \<le> FSSIZE + tot (nblk off)"
  obtains din' s' where "alloc_block (off div BSIZE) din s = Ok (blkno s' din' (off div BSIZE), din', s')"
    "ext s din (nblk off) s' din' (Suc (off div BSIZE))" "content s' din' off = content s din off"
    "\<And>j. off \<le> j \<Longrightarrow> j < Suc (off div BSIZE) * BSIZE \<Longrightarrow> fbyte s' din' j = 0"
proof (cases "off mod BSIZE = 0")
  case False
  then show ?thesis using that [of s din] alloc_old [OF ok(1), of din "off div BSIZE"] ext_refl [OF ok(1,2)] ok(2,3) by (simp add: nblk_mid ztail_def)
next
  case True
  then have n: "nblk off = off div BSIZE" by (simp add: nblk_mid)
  have offn: "off = nblk off * BSIZE" using True n by (metis div_mult_mod_eq add.right_neutral)
  obtain din' s' where a: "alloc_block (nblk off) din s = Ok (blkno s' din' (nblk off), din', s')" "grown s din (nblk off) din' s'"
    using alloc_new [OF ok(1,2)] k fb n by auto
  have "fbyte s' din' i = fbyte s din i" if "i < off" for i
  proof -
    have "i div BSIZE < nblk off" using that offn by (metis less_mult_imp_div_less)
    then show ?thesis using a(2) by (simp add: grown_def fbyte_def)
  qed
  then have "content s' din' off = content s din off" by (simp add: content_def)
  moreover have "ext s din (nblk off) s' din' (Suc (nblk off))" using a(2) by (simp add: grown_def ext_def)
  moreover have "fbyte s' din' j = 0" if "off \<le> j" "j < Suc (nblk off) * BSIZE" for j
  proof -
    have "j div BSIZE = nblk off" using that offn by (intro div_nat_eqI) auto
    then show ?thesis using a(2) by (simp add: grown_def fbyte_def)
  qed
  ultimately show ?thesis using that a by (simp add: n grown_def)
qed

text \<open>One pass of the loop: the block is found or taken, and filled with the first bytes.\<close>

lemma iappend_step:
  assumes ok: "img_ok s" "file_ok s din (nblk off)" "ztail s din off" and k: "off div BSIZE < MAXFILE"
    and fb: "freeblock s + tot (Suc (off div BSIZE)) \<le> FSSIZE + tot (nblk off)"
    and n: "xs \<noteq> []" "off mod BSIZE + length xs \<le> BSIZE"
  obtains x din' s1 s' where "alloc_block (off div BSIZE) din s = Ok (x, din', s1)" "rsect x s1 = Ok (img s1 x)"
    "s' = wsect x (splice (img s1 x) (off mod BSIZE) xs) s1" "ext s din (nblk off) s' din' (nblk (off + length xs))"
    "content s' din' (off + length xs) = content s din off @ xs" "ztail s' din' (off + length xs)"
proof -
  let ?k = "off div BSIZE"
  obtain din1 s1 where a: "alloc_block ?k din s = Ok (blkno s1 din1 ?k, din1, s1)" "ext s din (nblk off) s1 din1 (Suc ?k)"
    "content s1 din1 off = content s din off" "\<And>j. off \<le> j \<Longrightarrow> j < Suc ?k * BSIZE \<Longrightarrow> fbyte s1 din1 j = 0"
    by (rule alloc_for [OF ok k fb]) blast
  have ok1: "img_ok s1" "file_ok s1 din1 (Suc ?k)" using a(2) by (auto simp: ext_def)
  let ?x = "blkno s1 din1 ?k" let ?s2 = "wsect ?x (splice (img s1 ?x) (off mod BSIZE) xs) s1"
  have nb: "nblk (off + length xs) = Suc ?k" using n by (intro nblk_room) auto
  note w = write_block [OF ok1 refl n(2) a(4)]
  have e2: "ext s1 din1 (Suc ?k) ?s2 din1 (nblk (off + length xs))"
    using w(1-3) file_ok_block(3) [OF ok1(2), of ?k] unfolding nb ext_def by (auto simp: wsect_def intro: exI [of _ "i_addrs din1"])
  have r: "rsect ?x s1 = Ok (img s1 ?x)" using rsect_Ok [OF ok1(1)] file_ok_block(2) [OF ok1(2), of ?k] by simp
  have z: "ztail ?s2 din1 (off + length xs)" using w(5) unfolding ztail_def nb by blast
  have c: "content ?s2 din1 (off + length xs) = content s din off @ xs" unfolding a(3) [symmetric] by (rule w(4))
  show ?thesis by (rule that [OF a(1) r refl ext_trans [OF a(2) e2] c z])
qed

lemma first_chunk:
  fixes p :: "u8 list" and off :: nat
  assumes "p \<noteq> []"
  defines "n \<equiv> min (length p) ((off div BSIZE + 1) * BSIZE - off)"
  shows "0 < n" "off mod BSIZE + n \<le> BSIZE" "n \<le> length p" "off - off div BSIZE * BSIZE = off mod BSIZE"
proof -
  have off': "off = off div BSIZE * BSIZE + off mod BSIZE" "off mod BSIZE < BSIZE" by simp_all
  have "o' = k * BSIZE + m \<Longrightarrow> (k + 1) * BSIZE - o' = BSIZE - m" for o' k m :: nat by simp
  from this [OF off'(1)] have "(off div BSIZE + 1) * BSIZE - off = BSIZE - off mod BSIZE" .
  then show "0 < n" "off mod BSIZE + n \<le> BSIZE" "n \<le> length p" using assms(1) off'(2) by (auto simp: n_def min_def)
  show "off - off div BSIZE * BSIZE = off mod BSIZE" by (simp add: minus_div_mult_eq_mod)
qed

lemma iappend_loop_correct:
  assumes "img_ok s" "file_ok s din (nblk off)" "ztail s din off" "off + length p \<le> MAXFILE * BSIZE"
    "freeblock s + tot (nblk (off + length p)) \<le> FSSIZE + tot (nblk off)"
  shows "\<exists>din' s'. iappend_loop p off din s = Ok (off + length p, din', s') \<and> ext s din (nblk off) s' din' (nblk (off + length p)) \<and>
    content s' din' (off + length p) = content s din off @ p \<and> ztail s' din' (off + length p)"
  using assms
proof (induction "length p" arbitrary: p off din s rule: less_induct)
  case less
  show ?case
  proof (cases "p = []")
    case True then show ?thesis using ext_refl [OF less.prems(1,2)] less.prems(3) by (simp add: iappend_loop.simps [of "[]"])
  next
    case False
    let ?k = "off div BSIZE" let ?n = "min (length p) ((?k + 1) * BSIZE - off)"
    note n = first_chunk [OF False, of off]
    have l: "length (take ?n p) = ?n" by simp
    have xs: "take ?n p \<noteq> []" "off mod BSIZE + length (take ?n p) \<le> BSIZE" using n(1,2) False unfolding l by auto
    have nb: "nblk (off + ?n) = Suc ?k" by (rule nblk_room [OF n(1,2)])
    have off': "off = ?k * BSIZE + off mod BSIZE" by simp
    have k: "?k < MAXFILE" using less.prems(4) False off' by (cases "length p") auto
    have le: "off + ?n \<le> off + length p" using n(3) by simp
    have "tot (Suc ?k) \<le> tot (nblk (off + length p))" using tot_mono [OF nblk_mono [OF le]] nb by simp
    then have fb1: "freeblock s + tot (Suc ?k) \<le> FSSIZE + tot (nblk off)" using less.prems(5) by linarith
    obtain x din1 s1 s2 where a: "alloc_block ?k din s = Ok (x, din1, s1)" "rsect x s1 = Ok (img s1 x)"
      "s2 = wsect x (splice (img s1 x) (off mod BSIZE) (take ?n p)) s1" "ext s din (nblk off) s2 din1 (nblk (off + ?n))"
      "content s2 din1 (off + ?n) = content s din off @ take ?n p" "ztail s2 din1 (off + ?n)"
      by (rule iappend_step [OF less.prems(1-3) k fb1 xs, unfolded l]) blast
    have r: "length (drop ?n p) < length p" "off + ?n + length (drop ?n p) = off + length p" using n by auto
    have e: "img_ok s2" "file_ok s2 din1 (nblk (off + ?n))" "freeblock s2 + tot (nblk off) = freeblock s + tot (nblk (off + ?n))"
      using a(4) by (simp_all add: ext_def)
    have fb2: "freeblock s2 + tot (nblk (off + ?n + length (drop ?n p))) \<le> FSSIZE + tot (nblk (off + ?n))"
      using less.prems(5) e(3) unfolding r(2) by linarith
    have off2: "off + ?n + length (drop ?n p) \<le> MAXFILE * BSIZE" using less.prems(4) r(2) by (simp only:)
    obtain din' s' where i: "iappend_loop (drop ?n p) (off + ?n) din1 s2 = Ok (off + length p, din', s')"
      "ext s2 din1 (nblk (off + ?n)) s' din' (nblk (off + length p))" "content s' din' (off + length p) = content s2 din1 (off + ?n) @ drop ?n p"
      "ztail s' din' (off + length p)"
      using less.hyps [OF r(1) e(1,2) a(6) off2 fb2] unfolding r(2) by blast
    have "iappend_loop p off din s = iappend_loop (drop ?n p) (off + ?n) din1 s2"
      using False k a(1-3) n(4) by (subst iappend_loop.simps) (simp add: Let_def)
    moreover have "content s' din' (off + length p) = content s din off @ p" using i(3) a(5) by simp
    ultimately show ?thesis using i(1,4) ext_trans [OF a(4) i(2)] by auto
  qed
qed


section \<open>Inodes in the image\<close>

definition dino :: "nat \<Rightarrow> mkst \<Rightarrow> inode" where
  "dino inum s = read_dinode (img s (mk_iblock inum)) (64 * (inum mod IPB)) dnull"

definition set_dino :: "nat \<Rightarrow> inode \<Rightarrow> mkst \<Rightarrow> mkst" where
  "set_dino inum din s = wsect (mk_iblock inum) (write_dinode din (64 * (inum mod IPB)) (img s (mk_iblock inum))) s"

lemma iblock_meta: "i < NINODES \<Longrightarrow> mk_iblock i < mk_bmapstart"
  unfolding mk_iblock_def by linarith

lemma inode_ops:
  assumes "img_ok s" "i < NINODES"
  shows "rinode i s = Ok (dino i s)" "winode i x s = Ok (set_dino i x s)"
  using rsect_Ok [OF assms(1), of "mk_iblock i"] iblock_meta [OF assms(2)] assms(1)
  by (simp_all add: rinode_def winode_def dino_def set_dino_def img_ok_def)

lemma dino_other:
  assumes "i \<noteq> j"
  shows "dino j (set_dino i x s) = dino j s"
proof (cases "mk_iblock i = mk_iblock j")
  case False then show ?thesis by (simp add: dino_def set_dino_def wsect_def)
next
  case True
  then have "i mod IPB \<noteq> j mod IPB" using assms by (metis add_right_cancel div_mult_mod_eq mk_iblock_def)
  then have m: "64 * (i mod IPB) + 64 \<le> 64 * (j mod IPB) \<or> 64 * (j mod IPB) + 64 \<le> 64 * (i mod IPB)" by linarith
  show ?thesis unfolding dino_def set_dino_def wsect_def
    by (simp add: True) (rule read_dinode_cong, rule write_dinode_outside, use m in linarith)
qed

definition plain_inode :: "inode \<Rightarrow> bool" where
  "plain_inode x \<longleftrightarrow> (\<exists>ty ma mi nl sz a. x = dnull\<lparr>i_type := ty, i_major := ma, i_minor := mi, i_nlink := nl, i_size := sz, i_addrs := a\<rparr>)"

lemma plain_dino: "plain_inode (dino i s)"
  unfolding plain_inode_def dino_def read_dinode_def by blast

lemma plain_upd: "plain_inode x \<Longrightarrow> plain_inode (x\<lparr>i_addrs := a, i_size := z\<rparr>)"
  by (cases x) (auto simp: plain_inode_def dnull_def)

lemma same_plain: "same_dinode x y \<Longrightarrow> plain_inode x \<Longrightarrow> plain_inode y \<Longrightarrow> x = y"
  by (auto simp: same_dinode_def plain_inode_def)

lemma dino_same:
  assumes "length (img s (mk_iblock i)) = BSIZE" "length (i_addrs x) = 13" "plain_inode x"
  shows "dino i (set_dino i x s) = x"
proof (rule same_plain)
  have "i mod IPB < IPB" by simp
  then show "same_dinode (dino i (set_dino i x s)) x"
    using read_write_dinode [of "64 * (i mod IPB)" "img s (mk_iblock i)" x dnull] assms(1,2) by (simp add: dino_def set_dino_def wsect_def)
qed (use assms(3) plain_dino in auto)

section \<open>The image\<close>

definition fsz :: "mkst \<Rightarrow> nat \<Rightarrow> nat" where
  "fsz s i = unat (i_size (dino i s))"

definition fown :: "mkst \<Rightarrow> nat \<Rightarrow> nat set" where
  "fown s i = own s (dino i s) (nblk (fsz s i))"

definition fcontent :: "mkst \<Rightarrow> nat \<Rightarrow> u8 list" where
  "fcontent s i = content s (dino i s) (fsz s i)"

definition fok :: "mkst \<Rightarrow> nat \<Rightarrow> bool" where
  "fok s i \<longleftrightarrow> file_ok s (dino i s) (nblk (fsz s i)) \<and> ztail s (dino i s) (fsz s i)"

text \<open>
  A well-formed image: every file is in order, no two files share a block, and the blocks taken so far are those of the metadata and
  those of the files.
\<close>

definition mk_ok :: "mkst \<Rightarrow> bool" where
  "mk_ok s \<longleftrightarrow> img_ok s \<and> 1 \<le> freeinode s \<and> freeinode s \<le> NINODES \<and>
     (\<forall>i. 1 \<le> i \<longrightarrow> i < freeinode s \<longrightarrow> fok s i) \<and>
     (\<forall>i j. 1 \<le> i \<longrightarrow> i < j \<longrightarrow> j < freeinode s \<longrightarrow> fown s i \<inter> fown s j = {}) \<and>
     freeblock s = nmeta + (\<Sum>i = 1..<freeinode s. tot (nblk (fsz s i)))"

lemma file_cong:
  assumes ok: "file_ok s din n" and eq: "\<And>b. b \<in> own s din n \<Longrightarrow> img s' b = img s b" and fb: "freeblock s \<le> freeblock s'"
  shows "\<And>k. k < n \<Longrightarrow> blkno s' din k = blkno s din k" "own s' din n = own s din n" "file_ok s' din n" "off \<le> n * BSIZE \<Longrightarrow> content s' din off = content s din off"
proof -
  have i: "12 < n \<Longrightarrow> img s' (unat (i_addrs din ! 12)) = img s (unat (i_addrs din ! 12))" using eq file_ok_ind(3) [OF ok] by blast
  show b: "blkno s' din k = blkno s din k" if "k < n" for k using i that by (auto simp: blkno_def)
  have bi: "blkno s' din ` {..<n} = blkno s din ` {..<n}" "inj_on (blkno s' din) {..<n} = inj_on (blkno s din) {..<n}"
    using b by (auto intro!: image_cong inj_on_cong)
  show o: "own s' din n = own s din n" unfolding own_def bi ..
  show "file_ok s' din n" using ok b i fb unfolding file_ok_def o bi by auto
  show "content s' din off = content s din off" if "off \<le> n * BSIZE"
  proof -
    have "fbyte s' din j = fbyte s din j" if "j < off" for j
    proof -
      have "j div BSIZE < n" using that \<open>off \<le> n * BSIZE\<close> by (simp add: less_mult_imp_div_less)
      then show ?thesis using b eq file_ok_block(3) [OF ok] by (simp add: fbyte_def)
    qed
    then show ?thesis by (simp add: content_def)
  qed
qed


lemma nblk_le: "off \<le> nblk off * BSIZE"
  using nblk_mid [of off] by (cases "off mod BSIZE = 0") (metis div_mult_mod_eq add.right_neutral order_refl, use block_room(1) [of off] in simp)

lemma size_irrelevant [simp]:
  "blkno s (din\<lparr>i_size := z\<rparr>) k = blkno s din k" "own s (din\<lparr>i_size := z\<rparr>) n = own s din n"
  "file_ok s (din\<lparr>i_size := z\<rparr>) n = file_ok s din n" "content s (din\<lparr>i_size := z\<rparr>) off = content s din off"
  "ztail s (din\<lparr>i_size := z\<rparr>) off = ztail s din off"
proof -
  show b: "blkno s (din\<lparr>i_size := z\<rparr>) k = blkno s din k" for k by (simp add: blkno_def)
  then have b': "blkno s (din\<lparr>i_size := z\<rparr>) = blkno s din" by (rule ext)
  show o: "own s (din\<lparr>i_size := z\<rparr>) n = own s din n" by (simp add: own_def b')
  show "file_ok s (din\<lparr>i_size := z\<rparr>) n = file_ok s din n" by (simp add: file_ok_def b' o)
  show "content s (din\<lparr>i_size := z\<rparr>) off = content s din off" by (simp add: content_def fbyte_def b')
  show "ztail s (din\<lparr>i_size := z\<rparr>) off = ztail s din off" by (simp add: ztail_def fbyte_def b')
qed

text \<open>Writing the inode of a file back, after its blocks.\<close>

lemma set_dino_files:
  assumes ok: "img_ok s" and i: "i < NINODES" and x: "length (i_addrs x) = 13" "plain_inode x"
  shows "img_ok (set_dino i x s)" "dino i (set_dino i x s) = x" "\<And>b. nmeta \<le> b \<Longrightarrow> img (set_dino i x s) b = img s b"
    "freeblock (set_dino i x s) = freeblock s" "freeinode (set_dino i x s) = freeinode s"
proof -
  have ib: "mk_iblock i < nmeta" using iblock_meta [OF i] by simp
  show "img_ok (set_dino i x s)" using ok ib by (auto simp: img_ok_def set_dino_def wsect_def)
  show "dino i (set_dino i x s) = x" using ok x ib by (intro dino_same) (simp_all add: img_ok_def)
  show "img (set_dino i x s) b = img s b" if "nmeta \<le> b" for b using that ib by (auto simp: set_dino_def wsect_def)
qed (simp_all add: set_dino_def wsect_def)

lemma fown_range: "mk_ok s \<Longrightarrow> 1 \<le> j \<Longrightarrow> j < freeinode s \<Longrightarrow> b \<in> fown s j \<Longrightarrow> nmeta \<le> b \<and> b < freeblock s"
  unfolding mk_ok_def fok_def fown_def file_ok_def by (meson atLeastLessThan_iff subsetD)

lemma fown_disjoint: "mk_ok s \<Longrightarrow> 1 \<le> i \<Longrightarrow> i < freeinode s \<Longrightarrow> 1 \<le> j \<Longrightarrow> j < freeinode s \<Longrightarrow> j \<noteq> i \<Longrightarrow> b \<in> fown s j \<Longrightarrow> b \<notin> fown s i"
  unfolding mk_ok_def by (meson disjoint_iff linorder_neqE_nat)

lemma fbyte_cong: "content s' din m = content s din m \<Longrightarrow> j < m \<Longrightarrow> fbyte s' din j = fbyte s din j"
  unfolding content_def by (metis diff_zero length_map length_upt nth_map nth_upt add_0)

lemma ztail_cong:
  assumes "content s' din (nblk off * BSIZE) = content s din (nblk off * BSIZE)"
  shows "ztail s' din off = ztail s din off"
  using fbyte_cong [OF assms] by (auto simp: ztail_def)

lemma other_file:
  assumes ok: "fok s j" and r: "dino j s' = dino j s"
    and eq: "\<And>b. b \<in> fown s j \<Longrightarrow> img s' b = img s b" and fb: "freeblock s \<le> freeblock s'"
  shows "fok s' j" "fown s' j = fown s j" "fcontent s' j = fcontent s j"
proof -
  have f: "file_ok s (dino j s) (nblk (fsz s j))" using ok by (simp add: fok_def)
  note c = file_cong [OF f eq [unfolded fown_def] fb]
  have z: "fsz s' j = fsz s j" by (simp add: fsz_def r)
  have "ztail s' (dino j s) (fsz s j)" using ok ztail_cong [OF c(4)] by (auto simp: fok_def)
  then show "fok s' j" unfolding fok_def z r by (intro conjI c(3)) auto
  show "fown s' j = fown s j" unfolding fown_def z r by (rule c(2))
  show "fcontent s' j = fcontent s j" unfolding fcontent_def z r by (rule c(4)) (use nblk_le in auto)
qed

text \<open>An image stays well formed when one file grows into fresh blocks and the others keep theirs.\<close>

lemma mk_ok_grow:
  assumes ok: "mk_ok s" and i: "1 \<le> i" "i < freeinode s" and s': "img_ok s'" "freeinode s' = freeinode s"
    and f: "fok s' i" "\<And>b. b \<in> fown s' i \<Longrightarrow> b \<in> fown s i \<or> freeblock s \<le> b"
      "freeblock s' + tot (nblk (fsz s i)) = freeblock s + tot (nblk (fsz s' i))"
    and o: "\<And>j. 1 \<le> j \<Longrightarrow> j < freeinode s \<Longrightarrow> j \<noteq> i \<Longrightarrow> fok s' j \<and> fown s' j = fown s j \<and> fsz s' j = fsz s j"
  shows "mk_ok s'"
proof -
  have di: "fown s' i \<inter> fown s' j = {}" if "1 \<le> j" "j < freeinode s" "j \<noteq> i" for j
  proof -
    have "b \<notin> fown s' i" if b: "b \<in> fown s j" for b
      using f(2) [of b] fown_range [OF ok \<open>1 \<le> j\<close> \<open>j < freeinode s\<close> b] fown_disjoint [OF ok i \<open>1 \<le> j\<close> \<open>j < freeinode s\<close> \<open>j \<noteq> i\<close> b] by auto
    then show ?thesis using o [OF that] by blast
  qed
  have dj: "fown s' j \<inter> fown s' k = {}" if "1 \<le> j" "j < k" "k < freeinode s" for j k
  proof -
    have jf: "j < freeinode s" "1 \<le> k" using that by simp_all
    consider "j = i" | "k = i" | "j \<noteq> i" "k \<noteq> i" by blast
    then show ?thesis
    proof cases
      case 1 then show ?thesis using di [of k] that by simp
    next
      case 2 then show ?thesis using di [of j] that jf by (simp add: Int_commute)
    next
      case 3
      have "fown s j \<inter> fown s k = {}" using ok that by (simp add: mk_ok_def)
      then show ?thesis using o [OF that(1) jf(1) 3(1)] o [OF jf(2) that(3) 3(2)] by simp
    qed
  qed
  let ?t = "\<lambda>s j. tot (nblk (fsz s j))" let ?I = "{1..<freeinode s}"
  have mem: "finite ?I" "i \<in> ?I" using i by simp_all
  have "sum (?t s') (?I - {i}) = sum (?t s) (?I - {i})" by (rule sum.cong) (use o in auto)
  then have "freeblock s' = nmeta + sum (?t s') ?I"
    using sum.remove [OF mem, of "?t s'"] sum.remove [OF mem, of "?t s"] f(3) ok by (simp add: mk_ok_def)
  moreover have "fok s' j" if "1 \<le> j" "j < freeinode s" for j using f(1) o [OF that] by (cases "j = i") simp_all
  moreover have "1 \<le> freeinode s'" "freeinode s' \<le> NINODES" using ok s'(2) by (simp_all add: mk_ok_def)
  ultimately show ?thesis using s' dj by (simp add: mk_ok_def)
qed

text \<open>What appending \<open>p\<close> to the file \<open>i\<close> does to the image.\<close>

definition appended :: "nat \<Rightarrow> u8 list \<Rightarrow> mkst \<Rightarrow> mkst \<Rightarrow> bool" where
  "appended i p s s' \<longleftrightarrow> mk_ok s' \<and> freeinode s' = freeinode s \<and> fcontent s' i = fcontent s i @ p \<and>
     i_type (dino i s') = i_type (dino i s) \<and> i_nlink (dino i s') = i_nlink (dino i s) \<and> img s' 1 = img s 1 \<and>
     freeblock s' + tot (nblk (fsz s i)) = freeblock s + tot (nblk (fsz s i + length p)) \<and>
     (\<forall>j. 1 \<le> j \<longrightarrow> j < freeinode s \<longrightarrow> j \<noteq> i \<longrightarrow> dino j s' = dino j s \<and> fcontent s' j = fcontent s j)"

lemma length_fcontent [simp]: "length (fcontent s i) = fsz s i"
  by (simp add: fcontent_def content_def)

lemma appended_fsz: "appended i p s s' \<Longrightarrow> fsz s' i = fsz s i + length p"
  unfolding appended_def by (metis length_append length_fcontent)

lemma appended_trans:
  assumes "appended i p s s1" "appended i q s1 s2"
  shows "appended i (p @ q) s s2"
  using assms appended_fsz [OF assms(1)] by (auto simp: appended_def add.assoc)

text \<open>Writing back the inode of a file that has grown from \<open>s\<close> to \<open>s1\<close>.\<close>

lemma append_commit:
  assumes ok: "mk_ok s" and i: "1 \<le> i" "i < freeinode s"
    and e: "ext s (dino i s) (nblk (fsz s i)) s1 din1 (nblk off)" and off: "off \<le> MAXFILE * BSIZE"
    and c1: "content s1 din1 off = fcontent s i @ p" and z1: "ztail s1 din1 off"
  shows "appended i p s (set_dino i (din1\<lparr>i_size := of_nat off\<rparr>) s1)"
proof -
  let ?x = "din1\<lparr>i_size := of_nat off\<rparr>"
  define s' where "s' = set_dino i ?x s1"
  have io: "img_ok s" "freeinode s \<le> NINODES" using ok by (simp_all add: mk_ok_def)
  have e': "img_ok s1" "file_ok s1 din1 (nblk off)" "freeinode s1 = freeinode s" "freeblock s \<le> freeblock s1"
    using e by (simp_all add: ext_def)
  have im: "img s1 b = img s b" if "b < freeblock s" "b \<notin> fown s i" for b using e that by (simp add: ext_def fown_def)
  have px: "length (i_addrs ?x) = 13" using e'(2) by (simp add: file_ok_def)
  obtain a where d1: "din1 = dino i s\<lparr>i_addrs := a\<rparr>" using e by (auto simp: ext_def)
  then have pl: "plain_inode ?x" using plain_upd [OF plain_dino] by simp
  have i': "i < NINODES" using i io(2) by simp
  note w = set_dino_files [OF e'(1) i' px pl, folded s'_def]
  have low: "img s1 b = img s b" if "b < nmeta" for b
    using im [of b] that fown_range [OF ok i, of b] io(1) by (auto simp: img_ok_def)
  have r: "dino j s' = dino j s" if "j \<noteq> i" "j < freeinode s" for j
    using dino_other [of i j ?x s1] low [of "mk_iblock j"] iblock_meta [of j] that io(2) by (simp add: dino_def s'_def)
  have same: "img s' b = img s b" if "1 \<le> j" "j < freeinode s" "j \<noteq> i" "b \<in> fown s j" for j b
    using w(3) [of b] im [of b] fown_range [OF ok that(1,2,4)] fown_disjoint [OF ok i that] by simp
  have oth: "fok s' j" "fown s' j = fown s j" "fcontent s' j = fcontent s j" if "1 \<le> j" "j < freeinode s" "j \<noteq> i" for j
    using other_file [OF _ r [OF that(3,2)] same [OF that]] ok that e'(4) w(4) by (simp_all add: mk_ok_def)
  have "unat (of_nat off :: u32) = off" using off by (intro unat_of_nat_block) simp
  then have fs: "fsz s' i = off" unfolding fsz_def w(2) by simp
  have "img s' b = img s1 b" if "b \<in> own s1 din1 (nblk off)" for b using that w(3) [of b] e'(2) by (auto simp: file_ok_def)
  note c = file_cong [OF e'(2) this]
  have fbw: "freeblock s1 \<le> freeblock s'" using w(4) by simp
  have "ztail s' din1 off" using z1 ztail_cong [OF c(4) [OF _ fbw order_refl]] by simp
  moreover have "file_ok s' din1 (nblk off)" by (rule c(3) [OF _ fbw])
  ultimately have fi: "fok s' i" unfolding fok_def fs w(2) by simp
  have fo: "fown s' i = own s1 din1 (nblk off)" unfolding fown_def fs w(2) size_irrelevant by (rule c(2) [OF _ fbw])
  have fc: "fcontent s' i = content s1 din1 off" unfolding fcontent_def fs w(2) size_irrelevant by (rule c(4) [OF _ fbw nblk_le])
  have len: "off = fsz s i + length p" using c1 by (metis content_def diff_zero length_append length_fcontent length_map length_upt)
  have fr: "freeblock s' + tot (nblk (fsz s i)) = freeblock s + tot (nblk (fsz s' i))" using e w(4) fs by (simp add: ext_def)
  have fin: "freeinode s' = freeinode s" using w(5) e'(3) by simp
  have "mk_ok s'"
  proof (rule mk_ok_grow [OF ok i w(1) fin fi _ fr])
    show "b \<in> fown s i \<or> freeblock s \<le> b" if "b \<in> fown s' i" for b using e that unfolding fo by (auto simp: ext_def fown_def)
    show "fok s' j \<and> fown s' j = fown s j \<and> fsz s' j = fsz s j" if "1 \<le> j" "j < freeinode s" "j \<noteq> i" for j
      using oth [OF that] r [OF that(3,2)] by (simp add: fsz_def)
  qed
  moreover have "img s' 1 = img s 1" using low [of 1] by (simp add: s'_def set_dino_def wsect_def mk_iblock_def)
  ultimately show ?thesis using fin fc c1 fr fs len oth(3) r w(2) d1 unfolding s'_def [symmetric] by (simp add: appended_def)
qed

lemma iappend_appends:
  assumes ok: "mk_ok s" and i: "1 \<le> i" "i < freeinode s" and sz: "fsz s i + length p \<le> MAXFILE * BSIZE"
    and fb: "freeblock s + tot (nblk (fsz s i + length p)) \<le> FSSIZE + tot (nblk (fsz s i))"
  obtains s' where "iappend i p s = Ok s'" "appended i p s s'"
proof -
  have io: "img_ok s" "file_ok s (dino i s) (nblk (fsz s i))" "ztail s (dino i s) (fsz s i)" using ok i by (simp_all add: mk_ok_def fok_def)
  have i': "i < NINODES" using ok i by (simp add: mk_ok_def)
  obtain din1 s1 where l: "iappend_loop p (fsz s i) (dino i s) s = Ok (fsz s i + length p, din1, s1)"
    "ext s (dino i s) (nblk (fsz s i)) s1 din1 (nblk (fsz s i + length p))"
    "content s1 din1 (fsz s i + length p) = fcontent s i @ p" "ztail s1 din1 (fsz s i + length p)"
    using iappend_loop_correct [OF io sz fb] unfolding fcontent_def by blast
  let ?s = "set_dino i (din1\<lparr>i_size := of_nat (fsz s i + length p)\<rparr>) s1"
  have "img_ok s1" using l(2) by (simp add: ext_def)
  then have "iappend i p s = Ok ?s" using l(1) inode_ops [OF io(1) i'] inode_ops [of s1, OF _ i'] by (simp add: iappend_def fsz_def)
  then show ?thesis using that append_commit [OF ok i l(2) sz l(3,4)] by blast
qed

end
