(* ===== verification/Mkfs_Image.thy ===== *)
theory Mkfs_Image
  imports Mkfs
begin

text \<open>
  What the image builder produces: the main program of \<^verbatim>\<open>mkfs.c\<close> run on files that fit on the disk. The blocks each file takes are counted
  exactly, so the hypothesis on the room is the condition under which the disk is large enough.
\<close>

section \<open>The main program\<close>

lemma mk_ialloc_ok:
  assumes ok: "mk_ok s" and n: "freeinode s < NINODES"
  obtains s' where "mk_ialloc ty s = Ok (freeinode s, s')" "mk_ok s'" "freeinode s' = freeinode s + 1" "freeblock s' = freeblock s"
    "dino (freeinode s) s' = dnull\<lparr>i_type := ty, i_nlink := 1\<rparr>" "fcontent s' (freeinode s) = []" "img s' 1 = img s 1"
    "\<And>j. 1 \<le> j \<Longrightarrow> j < freeinode s \<Longrightarrow> dino j s' = dino j s \<and> fcontent s' j = fcontent s j"
proof -
  let ?i = "freeinode s" let ?x = "dnull\<lparr>i_type := ty, i_nlink := 1\<rparr>" let ?s1 = "s\<lparr>freeinode := ?i + 1\<rparr>" let ?s = "set_dino ?i ?x ?s1"
  have io: "img_ok s" "1 \<le> ?i" using ok by (simp_all add: mk_ok_def)
  have io1: "img_ok ?s1" using io(1) by (simp add: img_ok_def)
  have px: "length (i_addrs ?x) = 13" "plain_inode ?x" by (auto simp: dnull_def plain_inode_def)
  note w = set_dino_files [OF io1 n px]
  have d: "dino j ?s = dino j s" if "j < ?i" for j using dino_other [of ?i j ?x ?s1] that by (simp add: dino_def)
  have same: "img ?s b = img s b" if "1 \<le> j" "j < ?i" "b \<in> fown s j" for j b using w(3) [of b] fown_range [OF ok that] by simp
  have oth: "fok ?s j" "fown ?s j = fown s j" "fcontent ?s j = fcontent s j" if "1 \<le> j" "j < ?i" for j
    using other_file [OF _ d [OF that(2)] same [OF that]] ok that w(4) by (simp_all add: mk_ok_def)
  have z: "fsz ?s ?i = 0" unfolding fsz_def w(2) by (simp add: dnull_def)
  have nz: "nblk 0 = 0" by (simp add: nblk_def)
  have fo: "fown ?s ?i = {}" unfolding fown_def z nz by (simp add: own_def)
  have "file_ok ?s ?x 0" using io(1) by (auto simp: file_ok_def own_def dnull_def nth_Cons' )
  then have fk: "fok ?s ?i" unfolding fok_def z nz w(2) by (simp add: ztail_def nz)
  have fz: "fsz ?s j = fsz s j" if "j < ?i" for j using d [OF that] by (simp add: fsz_def)
  have "(\<Sum>i = 1..<?i + 1. tot (nblk (fsz ?s i))) = (\<Sum>i = 1..<?i. tot (nblk (fsz s i)))"
    using io(2) z nz fz by (simp add: tot_def)
  moreover have "fok ?s j" if "1 \<le> j" "j < Suc ?i" for j using that oth(1) fk by (cases "j = ?i") auto
  moreover have "fown ?s j \<inter> fown ?s k = {}" if "1 \<le> j" "j < k" "k < Suc ?i" for j k
    using that oth(2) fo ok by (cases "k = ?i") (auto simp: mk_ok_def)
  ultimately have "mk_ok ?s" using ok n w by (simp add: mk_ok_def)
  moreover have "mk_ialloc ty s = Ok (?i, ?s)" using inode_ops(2) [OF io1 n] by (simp add: mk_ialloc_def Let_def)
  moreover have "fcontent ?s ?i = []" using z by (simp add: fcontent_def content_def)
  moreover have "img ?s 1 = img s 1" by (simp add: set_dino_def wsect_def mk_iblock_def)
  ultimately show ?thesis using that w d oth(3) by simp
qed

lemma appended_Nil: "mk_ok s \<Longrightarrow> appended i [] s s"
  by (simp add: appended_def)

lemma mkfs_reads_ok:
  assumes "mk_ok s" "1 \<le> i" "i < freeinode s" "fsz s i + length (concat rs) \<le> MAXFILE * BSIZE"
    "freeblock s + tot (nblk (fsz s i + length (concat rs))) \<le> FSSIZE + tot (nblk (fsz s i))"
  shows "\<exists>s'. mkfs_reads i rs s = Ok s' \<and> appended i (concat rs) s s'"
  using assms
proof (induction rs arbitrary: s)
  case Nil then show ?case by (simp add: appended_Nil)
next
  case (Cons r rs)
  let ?n = "fsz s i + length r"
  have le: "?n \<le> fsz s i + length (concat (r # rs))" by simp
  have "tot (nblk ?n) \<le> tot (nblk (fsz s i + length (concat (r # rs))))" by (rule tot_mono [OF nblk_mono [OF le]])
  then obtain s1 where a: "iappend i r s = Ok s1" "appended i r s s1"
    using iappend_appends [OF Cons.prems(1-3), of r] Cons.prems(4,5) by force
  have z: "fsz s1 i = ?n" by (rule appended_fsz [OF a(2)])
  obtain s' where "mkfs_reads i rs s1 = Ok s'" "appended i (concat rs) s1 s'"
    using Cons.IH [of s1] a(2) z Cons.prems(2-5) by (auto simp: appended_def add.assoc)
  then show ?case using a appended_trans [OF a(2)] by auto
qed

lemma length_mk_dirent [simp]: "length (mk_dirent i name) = 16"
proof -
  have "length (cname name) \<le> 14" unfolding cname_def by (rule order_trans [OF length_takeWhile_le]) simp
  then show ?thesis by (simp add: mk_dirent_def bytes_of_dirent_def strncpy14_def put16_def)
qed

text \<open>The image after the files \<open>done\<close>: what the root directory and the files hold, and the blocks that takes.\<close>

definition blocks_for :: "nat \<Rightarrow> u8 list list \<Rightarrow> nat" where
  "blocks_for n files = nmeta + tot (nblk n) + (\<Sum>f \<leftarrow> files. tot (nblk (length f)))"

definition built :: "u8 list \<Rightarrow> u8 list list \<Rightarrow> mkst \<Rightarrow> bool" where
  "built ents done s \<longleftrightarrow> mk_ok s \<and> freeinode s = 2 + length done \<and> img s 1 = mk_superblock \<and>
     i_type (dino 1 s) = T_DIR \<and> i_nlink (dino 1 s) = 1 \<and> fcontent s 1 = ents \<and>
     (\<forall>k < length done. i_type (dino (2 + k) s) = T_FILE \<and> i_nlink (dino (2 + k) s) = 1 \<and> fcontent s (2 + k) = done ! k)"

lemma built_freeblock:
  assumes "built ents done s"
  shows "freeblock s = blocks_for (length ents) done"
proof -
  have b: "mk_ok s" "freeinode s = 2 + length done" "fcontent s 1 = ents" "\<And>k. k < length done \<Longrightarrow> fcontent s (2 + k) = done ! k"
    using assms by (simp_all add: built_def)
  have z: "fsz s 1 = length ents" "\<And>k. k < length done \<Longrightarrow> fsz s (2 + k) = length (done ! k)" using b(3,4) by (metis length_fcontent)+
  let ?t = "\<lambda>i. tot (nblk (fsz s i))"
  have "{1..<2 + length done} = insert 1 {2..<2 + length done}" by auto
  then have "sum ?t {1..<2 + length done} = ?t 1 + sum ?t {2..<2 + length done}" by simp
  also have "sum ?t {2..<2 + length done} = (\<Sum>k = 0..<length done. ?t (2 + k))"
    using sum.shift_bounds_nat_ivl [of ?t 0 2 "length done"] by (simp only: add.commute [of _ 2] add_0_right)
  also have "\<dots> = (\<Sum>k = 0..<length done. tot (nblk (length (done ! k))))" by (rule sum.cong) (use z(2) in auto)
  also have "\<dots> = (\<Sum>f \<leftarrow> done. tot (nblk (length f)))" by (simp add: sum_list_sum_nth)
  finally show ?thesis using b(1,2) z(1) by (simp add: mk_ok_def blocks_for_def)
qed

text \<open>One file argument.\<close>

lemma mkfs_file_ok:
  assumes b: "built ents done s" and name: "slash \<notin> set name" and n: "2 + length done < NINODES"
    and sz: "length ents + 16 \<le> MAXFILE * BSIZE" "length (concat rs) \<le> MAXFILE * BSIZE"
    and room: "blocks_for (length ents + 16) (done @ [concat rs]) \<le> FSSIZE"
  shows "\<exists>s'. mkfs_file 1 (name, Some rs) s = Ok s' \<and> built (ents @ mk_dirent (2 + length done) (skip_underscore name)) (done @ [concat rs]) s'"
proof -
  let ?i = "2 + length done" let ?e = "mk_dirent ?i (skip_underscore name)"
  have ok: "mk_ok s" "freeinode s = ?i" "fcontent s 1 = ents" using b by (simp_all add: built_def)
  have fb: "freeblock s = blocks_for (length ents) done" by (rule built_freeblock [OF b])
  obtain s1 where i: "mk_ialloc T_FILE s = Ok (?i, s1)" "mk_ok s1" "freeinode s1 = ?i + 1" "freeblock s1 = freeblock s"
    "dino ?i s1 = dnull\<lparr>i_type := T_FILE, i_nlink := 1\<rparr>" "fcontent s1 ?i = []" "img s1 1 = img s 1"
    "\<And>j. 1 \<le> j \<Longrightarrow> j < ?i \<Longrightarrow> dino j s1 = dino j s \<and> fcontent s1 j = fcontent s j"
    using mk_ialloc_ok [OF ok(1), of T_FILE] n unfolding ok(2) by metis
  have root: "dino 1 s1 = dino 1 s" "fcontent s1 1 = ents" using i(8) [of 1] ok(3) by simp_all
  have z1: "fsz s1 1 = length ents" "fsz s1 ?i = 0" using root(2) i(6) by (metis length_fcontent list.size(3))+
  have f1: "1 < freeinode s1" "?i < freeinode s1" using i(3) by simp_all
  have r1: "freeblock s1 + tot (nblk (length ents + 16)) \<le> FSSIZE + tot (nblk (length ents))"
    using room fb i(4) by (simp add: blocks_for_def)
  obtain s2 where a: "iappend 1 ?e s1 = Ok s2" "appended 1 ?e s1 s2"
    using iappend_appends [OF i(2) order_refl f1(1), of ?e] sz(1) r1 unfolding z1 length_mk_dirent by blast
  have A: "mk_ok s2" "freeinode s2 = freeinode s1" "freeblock s2 + tot (nblk (length ents)) = freeblock s1 + tot (nblk (length ents + 16))"
    "fcontent s2 1 = ents @ ?e" "i_type (dino 1 s2) = i_type (dino 1 s1)" "i_nlink (dino 1 s2) = i_nlink (dino 1 s1)" "img s2 1 = img s1 1"
    "\<And>j. 1 \<le> j \<Longrightarrow> j < freeinode s1 \<Longrightarrow> j \<noteq> 1 \<Longrightarrow> dino j s2 = dino j s1 \<and> fcontent s2 j = fcontent s1 j"
    using a(2) root(2) z1 by (simp_all add: appended_def)
  have z2: "fsz s2 ?i = 0" using A(8) [of ?i] f1(2) z1(2) by (simp add: fsz_def)
  have nz: "tot (nblk 0) = 0" by (simp add: nblk_def tot_def)
  have r2: "freeblock s2 + tot (nblk (0 + length (concat rs))) \<le> FSSIZE + tot (nblk 0)"
    using room fb i(4) A(3) unfolding nz by (simp add: blocks_for_def)
  obtain s3 where c: "mkfs_reads ?i rs s2 = Ok s3" "appended ?i (concat rs) s2 s3"
    using mkfs_reads_ok [OF A(1), of ?i rs] f1(2) A(2) sz(2) r2 unfolding z2 by auto
  have C: "mk_ok s3" "freeinode s3 = freeinode s2" "fcontent s3 ?i = fcontent s2 ?i @ concat rs" "i_type (dino ?i s3) = i_type (dino ?i s2)"
    "i_nlink (dino ?i s3) = i_nlink (dino ?i s2)" "img s3 1 = img s2 1"
    "\<And>j. 1 \<le> j \<Longrightarrow> j < freeinode s2 \<Longrightarrow> j \<noteq> ?i \<Longrightarrow> dino j s3 = dino j s2 \<and> fcontent s3 j = fcontent s2 j"
    using c(2) by (simp_all add: appended_def)
  have old: "dino (2 + k) s3 = dino (2 + k) s \<and> fcontent s3 (2 + k) = fcontent s (2 + k)" if "k < length done" for k
    using C(7) [of "2 + k"] A(8) [of "2 + k"] i(8) [of "2 + k"] A(2) f1(2) that by simp
  have new: "dino 1 s3 = dino 1 s2" "fcontent s3 1 = ents @ ?e" "fcontent s3 ?i = concat rs" "i_type (dino ?i s3) = T_FILE" "i_nlink (dino ?i s3) = 1"
    using C(3-5) C(7) [of 1] A(4) A(8) [of ?i] A(2) i(5,6) f1 by simp_all
  have "built (ents @ ?e) (done @ [concat rs]) s3"
    using C(1,2,6) A(2,5-7) i(3,7) root new old b unfolding built_def by (auto simp: nth_append less_Suc_eq)
  moreover have "mkfs_file 1 (name, Some rs) s = Ok s3" using name i(1) a(1) c(1) by simp
  ultimately show ?thesis by blast
qed

fun dir_entries :: "nat \<Rightarrow> u8 list list \<Rightarrow> u8 list" where
  "dir_entries k [] = []"
| "dir_entries k (name # names) = mk_dirent k (skip_underscore name) @ dir_entries (k + 1) names"

lemma length_dir_entries [simp]: "length (dir_entries k names) = 16 * length names"
  by (induction names arbitrary: k) auto

lemma blocks_for_mono:
  assumes "m \<le> n"
  shows "blocks_for m fs \<le> blocks_for n (fs @ gs)"
  using tot_mono [OF nblk_mono [OF assms]] by (simp add: blocks_for_def)

lemma mkfs_files_ok:
  assumes "built ents done s" "\<forall>(name, rs) \<in> set files. slash \<notin> set name \<and> length (concat rs) \<le> MAXFILE * BSIZE"
    "2 + length done + length files \<le> NINODES" "length ents + 16 * length files \<le> MAXFILE * BSIZE"
    "blocks_for (length ents + 16 * length files) (done @ map (\<lambda>f. concat (snd f)) files) \<le> FSSIZE"
  shows "\<exists>s'. mkfs_files 1 (map (apsnd Some) files) s = Ok s' \<and>
    built (ents @ dir_entries (2 + length done) (map fst files)) (done @ map (\<lambda>f. concat (snd f)) files) s'"
  using assms
proof (induction files arbitrary: ents "done" s)
  case Nil then show ?case by simp
next
  case (Cons f files)
  obtain name rs where f: "f = (name, rs)" by fastforce
  let ?e = "mk_dirent (2 + length done) (skip_underscore name)"
  have le: "length ents + 16 \<le> length ents + 16 * length (f # files)" by simp
  have "blocks_for (length ents + 16) (done @ [concat rs]) \<le> FSSIZE"
    using blocks_for_mono [OF le, of "done @ [concat rs]" "map (\<lambda>f. concat (snd f)) files"] Cons.prems(5) f by simp
  then obtain s1 where a: "mkfs_file 1 (name, Some rs) s = Ok s1" "built (ents @ ?e) (done @ [concat rs]) s1"
    using mkfs_file_ok [OF Cons.prems(1), of name rs] Cons.prems(2-4) f by auto
  obtain s' where "mkfs_files 1 (map (apsnd Some) files) s1 = Ok s'"
    "built ((ents @ ?e) @ dir_entries (2 + length (done @ [concat rs])) (map fst files)) ((done @ [concat rs]) @ map (\<lambda>f. concat (snd f)) files) s'"
    using Cons.IH [OF a(2)] Cons.prems(2-5) f by (auto simp: add.assoc)
  then show ?case using a(1) f by auto
qed

text \<open>The empty image.\<close>

lemma img_zeroed: "img (fold (\<lambda>i. wsect i z) [0..<n] s) b = (if b < n then z else img s b)"
  by (induction n) (auto simp: wsect_def)

lemma zeroed_rest: "freeinode (fold (\<lambda>i. wsect i z) xs s) = freeinode s" "freeblock (fold (\<lambda>i. wsect i z) xs s) = freeblock s"
  by (induction xs arbitrary: s) (auto simp: wsect_def)

lemma length_superblock [simp]: "length mk_superblock = BSIZE"
  by (simp add: mk_superblock_def Let_def)

lemma mkfs_init_fields: "freeinode mkfs_init = 1" "freeblock mkfs_init = nmeta" "img mkfs_init 1 = mk_superblock"
  "b < FSSIZE \<Longrightarrow> b \<noteq> 1 \<Longrightarrow> img mkfs_init b = replicate BSIZE 0"
  unfolding mkfs_init_def Let_def wsect_def [of 1] using img_zeroed [of "replicate BSIZE 0" FSSIZE] zeroed_rest by simp_all

lemma mkfs_init_ok: "mk_ok mkfs_init"
proof -
  have l: "length (img mkfs_init b) = BSIZE" if "b < FSSIZE" for b using that mkfs_init_fields(3,4) by (cases "b = 1") simp_all
  have z: "img mkfs_init b = replicate BSIZE 0" if "nmeta \<le> b" "b < FSSIZE" for b using that mkfs_init_fields(4) by simp
  show ?thesis using mkfs_init_fields(1,2) l z by (simp add: mk_ok_def img_ok_def)
qed

text \<open>The root directory with its first two entries.\<close>

lemma append_small:
  assumes ok: "mk_ok s" "freeinode s = 2" and sz: "fsz s 1 + 16 \<le> BSIZE" and e: "length e = 16"
  obtains s' where "iappend 1 e s = Ok s'" "appended 1 e s s'"
proof -
  have "nblk n \<le> 1" if "n \<le> BSIZE" for n using nblk_mono [OF that] by (simp add: nblk_def)
  then have le: "tot (nblk n) \<le> 1" if "n \<le> BSIZE" for n using that tot_mono [of "nblk n" 1] by (simp add: tot_def)
  have "{1..<2} = {1 :: nat}" by auto
  then have fb: "freeblock s = nmeta + tot (nblk (fsz s 1))" using ok by (simp add: mk_ok_def)
  show ?thesis using iappend_appends [OF ok(1) order_refl, of e thesis] ok(2) sz e fb le [OF sz] that by simp
qed

lemma mkfs_root_ok:
  obtains s where "mkfs_root mkfs_init = Ok (1, s)" "built (mk_dirent 1 (bytes ''.'') @ mk_dirent 1 (bytes ''..'')) [] s"
proof -
  have n: "freeinode mkfs_init < NINODES" by (simp add: mkfs_init_fields)
  obtain s1 where i: "mk_ialloc T_DIR mkfs_init = Ok (1, s1)" "mk_ok s1" "freeinode s1 = 2"
    "dino 1 s1 = dnull\<lparr>i_type := T_DIR, i_nlink := 1\<rparr>" "fcontent s1 1 = []" "img s1 1 = mk_superblock"
    using mk_ialloc_ok [OF mkfs_init_ok n, of T_DIR] unfolding mkfs_init_fields by (metis one_add_one)
  have z1: "fsz s1 1 = 0" using i(5) by (metis length_fcontent list.size(3))
  obtain s2 where a: "iappend 1 (mk_dirent 1 (bytes ''.'')) s1 = Ok s2" "appended 1 (mk_dirent 1 (bytes ''.'')) s1 s2"
    using append_small [OF i(2,3), of "mk_dirent 1 (bytes ''.'')"] z1 by auto
  have z2: "fsz s2 1 = 16" using appended_fsz [OF a(2)] z1 by simp
  obtain s3 where b: "iappend 1 (mk_dirent 1 (bytes ''..'')) s2 = Ok s3" "appended 1 (mk_dirent 1 (bytes ''..'')) s2 s3"
    using append_small [of s2 "mk_dirent 1 (bytes ''..'')"] a(2) i(3) z2 by (auto simp: appended_def)
  have "built (mk_dirent 1 (bytes ''.'') @ mk_dirent 1 (bytes ''..'')) [] s3"
    using appended_trans [OF a(2) b(2)] i by (simp add: appended_def built_def)
  moreover have "mkfs_root mkfs_init = Ok (1, s3)" using i(1) a(1) b(1) by (simp add: mkfs_root_def)
  ultimately show ?thesis using that by blast
qed

text \<open>Rounding up the size of the root directory appends zero bytes that its last block already holds.\<close>

lemma mkfs_fix_root_ok:
  assumes b: "built ents done s" and m: "length ents mod BSIZE \<noteq> 0" and sz: "length ents \<le> MAXFILE * BSIZE"
  obtains s' where "mkfs_fix_root 1 s = Ok s'" "built (ents @ replicate (BSIZE - length ents mod BSIZE) 0) done s'"
    "freeblock s' = freeblock s"
proof -
  let ?n = "length ents" let ?off = "(?n div BSIZE + 1) * BSIZE"
  have B: "mk_ok s" "1 < freeinode s" "fcontent s 1 = ents" "fok s 1" using b by (auto simp: built_def mk_ok_def)
  have fz: "fsz s 1 = ?n" using B(3) by (metis length_fcontent)
  have io: "img_ok s" "1 < NINODES" using B(1) by (simp_all add: mk_ok_def)
  have off: "nblk ?n = ?n div BSIZE + 1" "?off = nblk ?n * BSIZE" "nblk ?off = nblk ?n" using nblk_mid(1) [OF m] by (simp_all add: nblk_def)
  have e': "?n = ?n div BSIZE * BSIZE + ?n mod BSIZE" "?n mod BSIZE < BSIZE" by simp_all
  have "n = q * BSIZE + r \<Longrightarrow> r < BSIZE \<Longrightarrow> (q + 1) * BSIZE = n + (BSIZE - r)" for n q r :: nat by simp
  note k = this [OF e']
  have f: "file_ok s (dino 1 s) (nblk ?n)" "ztail s (dino 1 s) ?n" using B(4) fz by (simp_all add: fok_def)
  have "fbyte s (dino 1 s) j = 0" if "?n \<le> j" "j < ?off" for j using f(2) that off(2) by (simp add: ztail_def)
  then have "map (fbyte s (dino 1 s)) [?n..<?off] = replicate (?off - ?n) 0" by (intro nth_equalityI) auto
  moreover have "[0..<?off] = [0..<?n] @ [?n..<?off]" using k upt_add_eq_append [of 0 ?n "BSIZE - ?n mod BSIZE"] by simp
  moreover have "?off - ?n = BSIZE - ?n mod BSIZE" using k by linarith
  ultimately have c: "content s (dino 1 s) ?off = fcontent s 1 @ replicate (BSIZE - ?n mod BSIZE) 0"
    unfolding fcontent_def fz content_def by (simp only: map_append)
  have "nblk ?n \<le> MAXFILE" using f(1) by (simp add: file_ok_def)
  then have sz': "?off \<le> MAXFILE * BSIZE" unfolding off(2) by simp
  have "nblk ?off * BSIZE = ?off" unfolding off(3) by (rule off(2) [symmetric])
  then have z: "ztail s (dino 1 s) ?off" unfolding ztail_def by (metis not_less)
  have x: "ext s (dino 1 s) (nblk (fsz s 1)) s (dino 1 s) (nblk ?off)" unfolding off(3) fz by (rule ext_refl [OF io(1) f(1)])
  let ?s = "set_dino 1 ((dino 1 s)\<lparr>i_size := of_nat ?off\<rparr>) s"
  have a: "appended 1 (replicate (BSIZE - ?n mod BSIZE) 0) s ?s" by (rule append_commit [OF B(1) order_refl B(2) x sz' c z])
  have u: "unat (i_size (dino 1 s)) = ?n" using fz by (simp add: fsz_def)
  have "mkfs_fix_root 1 s = Ok ?s" unfolding mkfs_fix_root_def inode_ops(1) [OF io] bindo.simps Let_def u by (rule inode_ops(2) [OF io])
  moreover have "built (ents @ replicate (BSIZE - ?n mod BSIZE) 0) done ?s" using a b by (auto simp: appended_def built_def)
  ultimately show ?thesis using that by (simp add: set_dino_def wsect_def)
qed

text \<open>The free bitmap.\<close>

lemma bitmap_bits:
  assumes "used \<le> BPB" "b < BPB"
  shows "bit_free (fold mark_used [0..<used] (replicate BSIZE 0)) b \<longleftrightarrow> used \<le> b" "length (fold mark_used [0..<used] (replicate BSIZE 0)) = BSIZE"
proof -
  have "length (fold mark_used xs d) = length d" for xs d by (induction xs arbitrary: d) (auto simp: mark_used_def)
  then show l: "length (fold mark_used [0..<used] (replicate BSIZE 0)) = BSIZE" for used by simp
  show "bit_free (fold mark_used [0..<used] (replicate BSIZE 0)) b \<longleftrightarrow> used \<le> b" using assms(1)
  proof (induction used)
    case 0 then show ?case using assms(2) by (simp add: bit_free_def)
  next
    case (Suc u)
    have "u div 8 < BSIZE" "b div 8 < BSIZE" using Suc.prems assms(2) by auto
    then show ?case using Suc bit_free_marks(1) l [of u] by auto
  qed
qed

lemma card_fown:
  assumes "fok s i"
  shows "finite (fown s i)" "card (fown s i) = tot (nblk (fsz s i))"
proof -
  let ?n = "nblk (fsz s i)"
  have f: "inj_on (blkno s (dino i s)) {..<?n}" "12 < ?n \<Longrightarrow> \<forall>k < ?n. blkno s (dino i s) k \<noteq> unat (i_addrs (dino i s) ! 12)"
    using assms by (simp_all add: fok_def file_ok_def)
  show "finite (fown s i)" by (simp add: fown_def own_def)
  have "card (blkno s (dino i s) ` {..<?n}) = ?n" using card_image [OF f(1)] by simp
  moreover have "12 < ?n \<Longrightarrow> unat (i_addrs (dino i s) ! 12) \<notin> blkno s (dino i s) ` {..<?n}" using f(2) by fastforce
  ultimately show "card (fown s i) = tot ?n" by (cases "?n \<le> 12") (auto simp: fown_def own_def tot_def)
qed

text \<open>The blocks in use are those of the metadata and of the files.\<close>

lemma blocks_in_use:
  assumes ok: "mk_ok s"
  shows "(\<Union>i \<in> {1..<freeinode s}. fown s i) = {nmeta..<freeblock s}"
proof (rule card_subset_eq)
  let ?I = "{1..<freeinode s}"
  have f: "fok s i" if "i \<in> ?I" for i using ok that by (simp add: mk_ok_def)
  have fin: "\<forall>i \<in> ?I. finite (fown s i)" using card_fown(1) [OF f] by blast
  have dj: "\<forall>i \<in> ?I. \<forall>j \<in> ?I. i \<noteq> j \<longrightarrow> fown s i \<inter> fown s j = {}"
  proof (intro ballI impI)
    fix i j assume "i \<in> ?I" "j \<in> ?I" "i \<noteq> j"
    then have "b \<notin> fown s i" if "b \<in> fown s j" for b using fown_disjoint [OF ok _ _ _ _ _ that, of i] by simp
    then show "fown s i \<inter> fown s j = {}" by blast
  qed
  have "card (\<Union>i \<in> ?I. fown s i) = (\<Sum>i \<in> ?I. card (fown s i))" by (rule card_UN_disjoint [OF _ fin dj]) simp
  also have "\<dots> = (\<Sum>i \<in> ?I. tot (nblk (fsz s i)))" by (rule sum.cong) (use card_fown(2) [OF f] in auto)
  finally show "card (\<Union>i \<in> ?I. fown s i) = card {nmeta..<freeblock s}" using ok by (simp add: mk_ok_def)
  show "(\<Union>i \<in> ?I. fown s i) \<subseteq> {nmeta..<freeblock s}" using fown_range [OF ok] by auto
qed simp

lemma built_bitmap:
  assumes b: "built ents done s" and len: "length d = BSIZE"
  shows "built ents done (wsect mk_bmapstart d s)" "\<And>i. 1 \<le> i \<Longrightarrow> i < freeinode s \<Longrightarrow> fown (wsect mk_bmapstart d s) i = fown s i"
proof -
  let ?s = "wsect mk_bmapstart d s"
  have ok: "mk_ok s" "freeinode s \<le> NINODES" using b by (simp_all add: built_def mk_ok_def)
  have d: "dino j ?s = dino j s" if "j < freeinode s" for j using iblock_meta [of j] that ok(2) by (simp add: dino_def wsect_def)
  have same: "img ?s b = img s b" if "1 \<le> j" "j < freeinode s" "b \<in> fown s j" for j b
    using fown_range [OF ok(1) that] by (simp add: wsect_def)
  have oth: "fok ?s j" "fown ?s j = fown s j" "fcontent ?s j = fcontent s j" if "1 \<le> j" "j < freeinode s" for j
    using other_file [OF _ d [OF that(2)] same [OF that]] ok that by (simp_all add: mk_ok_def wsect_def)
  then show "\<And>i. 1 \<le> i \<Longrightarrow> i < freeinode s \<Longrightarrow> fown ?s i = fown s i" by blast
  have fz: "fsz ?s j = fsz s j" if "j < freeinode s" for j using d [OF that] by (simp add: fsz_def)
  have r: "freeinode ?s = freeinode s" "freeblock ?s = freeblock s" "img ?s 1 = img s 1" by (simp_all add: wsect_def)
  have "img_ok ?s" using ok(1) len by (simp add: mk_ok_def img_ok_def wsect_def)
  moreover have "fown ?s i \<inter> fown ?s j = {}" if "1 \<le> i" "i < j" "j < freeinode s" for i j
    using that oth(2) [of i] oth(2) [of j] ok(1) by (simp add: mk_ok_def)
  moreover have "(\<Sum>i = 1..<freeinode s. tot (nblk (fsz ?s i))) = (\<Sum>i = 1..<freeinode s. tot (nblk (fsz s i)))" by (rule sum.cong) (use fz in auto)
  ultimately have m: "mk_ok ?s" using oth(1) ok r by (simp add: mk_ok_def)
  have "1 < freeinode s" "\<And>k. k < length done \<Longrightarrow> 2 + k < freeinode s" using b by (auto simp: built_def)
  then show "built ents done ?s" using b m r d oth(3) unfolding built_def by simp
qed

lemma superblock_written:
  "superblock_of mk_superblock = \<lparr>sb_size = 1000, sb_nblocks = 941, sb_ninodes = 200, sb_nlog = 30, sb_logstart = 2, sb_inodestart = 32, sb_bmapstart = 58\<rparr>"
  by (simp add: superblock_of_def mk_superblock_def Let_def get32_put32 get32_put32_other)

definition root_entries :: "(u8 list \<times> u8 list list) list \<Rightarrow> u8 list" where
  "root_entries files = mk_dirent 1 (bytes ''.'') @ mk_dirent 1 (bytes ''..'') @ dir_entries 2 (map fst files)"

text \<open>The whole of \<^verbatim>\<open>main\<close>.\<close>

lemma mkfs_built:
  assumes files: "\<forall>(name, reads) \<in> set files. slash \<notin> set name \<and> length (concat reads) \<le> MAXFILE * BSIZE"
    and n: "length files + 2 \<le> NINODES" and dir: "(16 * (length files + 2)) mod BSIZE \<noteq> 0"
    and room: "blocks_for (16 * (length files + 2)) (map (\<lambda>f. concat (snd f)) files) \<le> FSSIZE"
  shows "\<exists>s. mkfs (map (apsnd Some) files) = Ok s \<and> (\<forall>b < BPB. bit_free (img s mk_bmapstart) b \<longleftrightarrow> freeblock s \<le> b) \<and>
    built (root_entries files @ replicate (BSIZE - 16 * (length files + 2) mod BSIZE) 0) (map (\<lambda>f. concat (snd f)) files) s"
proof -
  let ?e = "mk_dirent 1 (bytes ''.'') @ mk_dirent 1 (bytes ''..'')" let ?fs = "map (\<lambda>f. concat (snd f)) files"
  obtain s0 where r: "mkfs_root mkfs_init = Ok (1, s0)" "built ?e [] s0" by (rule mkfs_root_ok)
  have "length ?e + 16 * length files = 16 * (length files + 2)" by simp
  moreover have "16 * (length files + 2) \<le> MAXFILE * BSIZE" using n by simp
  ultimately obtain s1 where a: "mkfs_files 1 (map (apsnd Some) files) s0 = Ok s1" "built (root_entries files) ?fs s1"
    using mkfs_files_ok [OF r(2) files] n room unfolding root_entries_def by auto
  have l: "length (root_entries files) = 16 * (length files + 2)" by (simp add: root_entries_def)
  have "length (root_entries files) \<le> MAXFILE * BSIZE" using n unfolding l by simp
  then obtain s2 where f: "mkfs_fix_root 1 s1 = Ok s2" "built (root_entries files @ replicate (BSIZE - 16 * (length files + 2) mod BSIZE) 0) ?fs s2"
    using mkfs_fix_root_ok [OF a(2)] dir unfolding l by metis
  let ?d = "fold mark_used [0..<freeblock s2] (replicate BSIZE 0)"
  have "mk_ok s2" using f(2) by (simp add: built_def)
  then have fb: "freeblock s2 \<le> BPB" "freeblock s2 < BSIZE * 8" by (simp_all add: mk_ok_def img_ok_def)
  have len: "length ?d = BSIZE" using bitmap_bits(2) [OF fb(1), of 0] by simp
  have "mkfs (map (apsnd Some) files) = Ok (wsect mk_bmapstart ?d s2)" using r(1) a(1) f(1) fb(2) by (simp add: mkfs_def mk_balloc_def)
  moreover have "\<forall>b < BPB. bit_free (img (wsect mk_bmapstart ?d s2) mk_bmapstart) b \<longleftrightarrow> freeblock (wsect mk_bmapstart ?d s2) \<le> b"
    using bitmap_bits(1) [OF fb(1)] by (simp add: wsect_def)
  ultimately show ?thesis using built_bitmap(1) [OF f(2) len] by blast
qed

text \<open>C7: the image that \<^verbatim>\<open>mkfs\<close> builds from files that fit on the disk. The kernel finds its layout in the super block; the root directory holds
  an entry for itself, its parent and every file, in order and padded with free entries; the file with the number \<open>k\<close> is at inode \<open>k + 2\<close> with exactly
  the bytes read from the host; no block belongs to two files; and the free bitmap marks exactly the blocks of the metadata and of the files.\<close>

theorem mkfs_image:
  assumes files: "\<forall>(name, reads) \<in> set files. slash \<notin> set name \<and> length (concat reads) \<le> MAXFILE * BSIZE"
    and n: "length files + 2 \<le> NINODES" and dir: "(16 * (length files + 2)) mod BSIZE \<noteq> 0"
    and room: "blocks_for (16 * (length files + 2)) (map (\<lambda>f. concat (snd f)) files) \<le> FSSIZE"
  shows "\<exists>s. mkfs (map (apsnd Some) files) = Ok s \<and>
    superblock_of (img s 1) = \<lparr>sb_size = 1000, sb_nblocks = 941, sb_ninodes = 200, sb_nlog = 30, sb_logstart = 2, sb_inodestart = 32, sb_bmapstart = 58\<rparr> \<and>
    i_type (dino 1 s) = T_DIR \<and> fcontent s 1 = root_entries files @ replicate (BSIZE - 16 * (length files + 2) mod BSIZE) 0 \<and>
    (\<forall>k < length files. i_type (dino (k + 2) s) = T_FILE \<and> i_nlink (dino (k + 2) s) = 1 \<and> fcontent s (k + 2) = concat (snd (files ! k))) \<and>
    (\<forall>i \<in> {1..<length files + 2}. \<forall>j \<in> {1..<length files + 2}. i \<noteq> j \<longrightarrow> fown s i \<inter> fown s j = {}) \<and>
    (\<forall>b < BPB. bit_free (img s mk_bmapstart) b \<longleftrightarrow> nmeta \<le> b \<and> (\<forall>i \<in> {1..<length files + 2}. b \<notin> fown s i))"
proof -
  obtain s where s: "mkfs (map (apsnd Some) files) = Ok s" "\<forall>b < BPB. bit_free (img s mk_bmapstart) b \<longleftrightarrow> freeblock s \<le> b"
    and b: "built (root_entries files @ replicate (BSIZE - 16 * (length files + 2) mod BSIZE) 0) (map (\<lambda>f. concat (snd f)) files) s"
    using mkfs_built [OF assms] by blast
  have B: "img s 1 = mk_superblock" "mk_ok s" "freeinode s = length files + 2" using b by (simp_all add: built_def)
  have dj: "fown s i \<inter> fown s j = {}" if "i \<in> {1..<length files + 2}" "j \<in> {1..<length files + 2}" "i \<noteq> j" for i j
  proof -
    have "x \<notin> fown s i" if "x \<in> fown s j" for x
      using fown_disjoint [OF B(2) _ _ _ _ _ that, of i] B(3) \<open>i \<in> _\<close> \<open>j \<in> _\<close> \<open>i \<noteq> j\<close> by simp
    then show ?thesis by blast
  qed
  have bm: "bit_free (img s mk_bmapstart) x \<longleftrightarrow> nmeta \<le> x \<and> (\<forall>i \<in> {1..<length files + 2}. x \<notin> fown s i)" if "x < BPB" for x
  proof -
    have "bit_free (img s mk_bmapstart) x \<longleftrightarrow> freeblock s \<le> x" using s(2) that by blast
    also have "\<dots> \<longleftrightarrow> nmeta \<le> x \<and> x \<notin> {nmeta..<freeblock s}" using B(2) by (auto simp: mk_ok_def img_ok_def)
    also have "{nmeta..<freeblock s} = (\<Union>i \<in> {1..<length files + 2}. fown s i)" using blocks_in_use [OF B(2)] B(3) by simp
    finally show ?thesis by blast
  qed
  show ?thesis
  proof (intro exI [of _ s] conjI s(1))
    show "superblock_of (img s 1) = \<lparr>sb_size = 1000, sb_nblocks = 941, sb_ninodes = 200, sb_nlog = 30, sb_logstart = 2, sb_inodestart = 32, sb_bmapstart = 58\<rparr>"
      unfolding B(1) by (rule superblock_written)
    show "\<forall>k < length files. i_type (dino (k + 2) s) = T_FILE \<and> i_nlink (dino (k + 2) s) = 1 \<and> fcontent s (k + 2) = concat (snd (files ! k))"
      using b by (auto simp: built_def)
  qed (use b dj bm in \<open>auto simp: built_def\<close>)
qed

theorem mkfs_image_witness:
  "\<exists>s. mkfs [(bytes ''_cat'', Some [[1, 2], [3]]), (bytes ''README'', Some [])] = Ok s \<and> fcontent s 2 = [1, 2, 3] \<and> fcontent s 3 = [] \<and>
     (\<exists>z. fcontent s 1 = mk_dirent 1 (bytes ''.'') @ mk_dirent 1 (bytes ''..'') @ mk_dirent 2 (bytes ''cat'') @ mk_dirent 3 (bytes ''README'') @ z)"
proof -
  let ?f = "[(bytes ''_cat'', [[1, 2], [3]]), (bytes ''README'', [])] :: (u8 list \<times> u8 list list) list"
  have h: "\<forall>(name, reads) \<in> set ?f. slash \<notin> set name \<and> length (concat reads) \<le> MAXFILE * BSIZE" "length ?f + 2 \<le> NINODES"
    "(16 * (length ?f + 2)) mod BSIZE \<noteq> 0" "blocks_for (16 * (length ?f + 2)) (map (\<lambda>f. concat (snd f)) ?f) \<le> FSSIZE"
    by (simp_all add: bytes_def blocks_for_def tot_def nblk_def)
  obtain s where s: "mkfs (map (apsnd Some) ?f) = Ok s" "fcontent s 1 = root_entries ?f @ replicate (BSIZE - 16 * (length ?f + 2) mod BSIZE) 0"
    "\<forall>k < length ?f. i_type (dino (k + 2) s) = T_FILE \<and> i_nlink (dino (k + 2) s) = 1 \<and> fcontent s (k + 2) = concat (snd (?f ! k))"
    by (insert mkfs_image [OF h], elim exE conjE) (rule that; assumption)
  have "fcontent s 2 = [1, 2, 3]" "fcontent s 3 = []"
    using s(3) [rule_format, of 0] s(3) [rule_format, of 1] by (simp_all add: numeral_2_eq_2 numeral_3_eq_3)
  then show ?thesis using s(1,2) by (auto simp: root_entries_def skip_underscore_def bytes_def)
qed

end
