(* ===== verification/Image_Files.thy ===== *)
theory Image_Files
  imports Fs_Read Mkfs_Image
begin

text \<open>
  The files of a disk image as the kernel reads them: the image that \<^verbatim>\<open>mkfs\<close> builds is mounted by \<^verbatim>\<open>iinit\<close>, a file is found by
  \<^verbatim>\<open>namei\<close>, locked and read by \<^verbatim>\<open>readi\<close>. This joins the layout that \<^verbatim>\<open>mkfs.c\<close> writes with the one that \<^verbatim>\<open>fs.c\<close> reads.
\<close>

section \<open>The image as the kernel sees it\<close>

definition on_disk :: "mkst \<Rightarrow> 'a fs_scheme \<Rightarrow> bool" where
  "on_disk m s \<longleftrightarrow> (\<forall>b. unat b < FSSIZE \<longrightarrow> view s ROOTDEV b = img m (unat b)) \<and> sb s = superblock_of mk_superblock"

lemma dinode_dino:
  assumes "on_disk m s" "unat i < NINODES"
  shows "same_dinode (dinode_at s ROOTDEV i) (dino (unat i) m)" "unat (IBLOCK i (sb s)) < FSSIZE"
proof -
  have sb: "sb_inodestart (sb s) = 32" using assms(1) by (simp add: on_disk_def superblock_written)
  have "unat (i div 8) = unat i div 8" by (simp add: unat_div)
  then have u: "unat (IBLOCK i (sb s)) = mk_iblock (unat i)"
    unfolding IBLOCK_def sb mk_iblock_def using assms(2) by (subst unat_add_small) simp_all
  show b: "unat (IBLOCK i (sb s)) < FSSIZE" using iblock_meta [OF assms(2)] unfolding u by simp
  then have "view s ROOTDEV (IBLOCK i (sb s)) = img m (mk_iblock (unat i))" using assms(1) u by (simp add: on_disk_def)
  then show "same_dinode (dinode_at s ROOTDEV i) (dino (unat i) m)"
    by (simp add: same_dinode_def dinode_at_def dino_def dip_off_def read_dinode_def)
qed

lemma image_file:
  assumes d: "on_disk m s" and ok: "mk_ok m" "1 \<le> j" "j < freeinode m" and x: "same_dinode x (dino j m)" "i_dev x = ROOTDEV"
  shows "file_mapped s x" "map (file_byte s x) [0..<unat (i_size x)] = fcontent m j" "unat (i_size x) = fsz m j"
proof -
  let ?y = "dino j m" let ?n = "nblk (fsz m j)"
  have f: "file_ok m ?y ?n" and io: "\<forall>b < FSSIZE. length (img m b) = BSIZE" and fb: "freeblock m \<le> FSSIZE"
    using ok by (auto simp: mk_ok_def fok_def img_ok_def)
  have v: "unat b < FSSIZE \<Longrightarrow> view s ROOTDEV b = img m (unat b)" for b using d by (simp add: on_disk_def)
  have xa: "i_addrs x = i_addrs ?y" "i_size x = i_size ?y" using x(1) by (simp_all add: same_dinode_def)
  show sz: "unat (i_size x) = fsz m j" using xa(2) by (simp add: fsz_def)
  have o: "own m ?y ?n \<subseteq> {nmeta..<freeblock m}" "?n \<le> MAXFILE" using f by (simp_all add: file_ok_def)
  have ind: "nmeta \<le> unat (i_addrs ?y ! 12)" "unat (i_addrs ?y ! 12) < FSSIZE" if "12 < ?n"
    using o(1) fb that by (auto simp: own_def)
  have a: "unat (faddr s x k) = blkno m ?y k" if "k < ?n" for k
    using that ind v x(2) by (auto simp: faddr_def blkno_def xa)
  have bk: "nmeta \<le> blkno m ?y k" "blkno m ?y k < FSSIZE" if "k < ?n" for k using o(1) fb that by (auto simp: own_def)
  have fv: "view s ROOTDEV (faddr s x k) = img m (blkno m ?y k)" if "k < ?n" for k using v a [OF that] bk [OF that] by simp
  have fz: "faddr s x k \<noteq> 0" if "k < ?n" for k using a [OF that] bk(1) [OF that] by auto
  have iz: "i_addrs x ! 12 \<noteq> 0" if "12 < ?n" using ind(1) [OF that] xa(1) by auto
  have "mapped s x ?n" unfolding mapped_def using o(2) x(2) a bk fv fz iz ind io xa(1) by auto
  then show "file_mapped s x" by (simp add: file_mapped_def sz nblk_def)
  have "file_byte s x i = fbyte m ?y i" if "i < fsz m j" for i
  proof -
    have "i div BSIZE < ?n" using that nblk_le [of "fsz m j"] by (simp add: less_mult_imp_div_less)
    then show ?thesis using fv x(2) by (simp add: file_byte_def fbyte_def)
  qed
  then show "map (file_byte s x) [0..<unat (i_size x)] = fcontent m j" unfolding sz by (simp add: fcontent_def content_def)
qed

section \<open>The root directory\<close>

lemma dirent_of_mk: "dirent_of (mk_dirent i name) = \<lparr>d_inum = of_nat i, d_name = strncpy14 name\<rparr>"
proof -
  have "get16 (put16 [0, 0] 0 (of_nat i) @ ys) 0 = get16 (put16 [0, 0] 0 (of_nat i)) 0" for ys
    by (simp add: get16_def put16_def)
  then show ?thesis by (simp add: dirent_of_def mk_dirent_def bytes_of_dirent_def)
qed

lemma dir_entry_at: "k < length names \<Longrightarrow> take 16 (drop (16 * k) (dir_entries i names @ z)) = mk_dirent (i + k) (skip_underscore (names ! k))"
proof (induction names arbitrary: i k)
  case (Cons nm names)
  then show ?case by (cases k) simp_all
qed simp

lemma dir_ents_chunks:
  assumes "map (file_byte s x) [0..<unat (i_size x)] = xs" "k < unat (i_size x) div 16"
  shows "dir_ents s x ! k = dirent_of (take 16 (drop (16 * k) xs))"
proof -
  have "16 * k + 16 \<le> unat (i_size x)" using assms(2) by linarith
  then have "take 16 (drop (16 * k) xs) = map (file_byte s x) [16 * k..<16 * k + 16]"
    unfolding assms(1) [symmetric] by (simp add: take_map drop_map)
  then show ?thesis using assms(2) by (simp add: dir_ents_def)
qed

text \<open>The entries of the root: itself, its parent, the files, and then free entries.\<close>

definition root_entry :: "u8 list list \<Rightarrow> nat \<Rightarrow> dirent" where
  "root_entry names k =
     (if k = 0 then \<lparr>d_inum = 1, d_name = strncpy14 (bytes ''.'')\<rparr>
      else if k = 1 then \<lparr>d_inum = 1, d_name = strncpy14 (bytes ''..'')\<rparr>
      else if k < length names + 2 then \<lparr>d_inum = of_nat k, d_name = strncpy14 (skip_underscore (names ! (k - 2)))\<rparr>
      else \<lparr>d_inum = 0, d_name = replicate 14 0\<rparr>)"

lemma root_ents:
  assumes xs: "map (file_byte s x) [0..<unat (i_size x)] = root_entries files @ replicate z 0" and k: "k < unat (i_size x) div 16"
    and z: "z mod 16 = 0"
  shows "dir_ents s x ! k = root_entry (map fst files) k"
proof -
  let ?n = "length files + 2" let ?xs = "root_entries files @ replicate z 0"
  have l: "unat (i_size x) = 16 * ?n + z" using arg_cong [OF xs, of length] by (simp add: root_entries_def)
  consider "k = 0" | "k = 1" | "2 \<le> k" "k < ?n" | "?n \<le> k" by linarith
  then have "dirent_of (take 16 (drop (16 * k) ?xs)) = root_entry (map fst files) k"
  proof cases
    case 3
    then have "take 16 (drop (16 * k) ?xs) = take 16 (drop (16 * (k - 2)) (dir_entries 2 (map fst files) @ replicate z 0))"
      by (simp add: root_entries_def right_diff_distrib')
    also have "\<dots> = mk_dirent (2 + (k - 2)) (skip_underscore (map fst files ! (k - 2)))" by (rule dir_entry_at) (use 3 in simp)
    also have "2 + (k - 2) = k" using 3 by simp
    finally show ?thesis using 3 by (simp add: dirent_of_mk root_entry_def)
  next
    case 4
    then have "take 16 (drop (16 * k) ?xs) = take 16 (replicate (16 * ?n + z - 16 * k) 0)" by (simp add: root_entries_def)
    also have "\<dots> = replicate 16 0" using k unfolding l by simp
    finally show ?thesis using 4 by (simp add: dirent_of_def root_entry_def get16_def)
  qed (simp_all add: root_entries_def dirent_of_mk root_entry_def)
  then show ?thesis using dir_ents_chunks [OF xs k] by simp
qed

lemma cname_strncpy14: "cname (strncpy14 name) = cname name" "cname (take 14 name) = cname name"
proof -
  have t: "takeWhile (\<lambda>c. c \<noteq> 0) (takeWhile (\<lambda>c. c \<noteq> 0) xs @ replicate n (0 :: u8)) = takeWhile (\<lambda>c. c \<noteq> 0) xs" for xs n
    by (subst takeWhile_append2) (auto dest: set_takeWhileD simp: takeWhile_replicate)
  have "length (cname name) \<le> 14" unfolding cname_def by (rule order_trans [OF length_takeWhile_le]) simp
  then show "cname (strncpy14 name) = cname name" unfolding strncpy14_def cname_def [of "_ @ _"] using t [of "take 14 name"] by (simp add: cname_def)
  show "cname (take 14 name) = cname name" by (simp add: cname_def)
qed

text \<open>Names that the directory tells apart.\<close>

definition names_ok :: "u8 list list \<Rightarrow> bool" where
  "names_ok names \<longleftrightarrow> distinct (map (\<lambda>n. cname (skip_underscore n)) names) \<and>
     (\<forall>n \<in> set names. cname (skip_underscore n) \<noteq> bytes ''.'' \<and> cname (skip_underscore n) \<noteq> bytes ''..'')"

lemma root_find:
  assumes n: "names_ok names" "length names + 2 \<le> NINODES" and k: "k < length names" and l: "length names + 2 \<le> length es"
    and es: "\<And>j. j < length es \<Longrightarrow> es ! j = root_entry names j"
  shows "dir_find (take DIRSIZ (skip_underscore (names ! k))) es = Some (k + 2)"
proof -
  let ?nm = "skip_underscore (names ! k)"
  have nm: "cname ?nm \<noteq> bytes ''.''" "cname ?nm \<noteq> bytes ''..''" using n(1) k by (auto simp: names_ok_def)
  have c: "cname (bytes ''.'') = bytes ''.''" "cname (bytes ''..'') = bytes ''..''" by (simp_all add: cname_def bytes_def)
  have "(of_nat (k + 2) :: u16) \<noteq> 0"
  proof -
    have "unat (of_nat (k + 2) :: u16) = k + 2" using n(2) k by (subst unat_of_nat) simp
    then show ?thesis by auto
  qed
  then have hit: "d_inum (es ! (k + 2)) \<noteq> 0 \<and> namecmp_eq (take DIRSIZ ?nm) (d_name (es ! (k + 2)))"
    using es [of "k + 2"] k l by (simp add: root_entry_def namecmp_eq_def cname_strncpy14)
  have miss: "\<not> namecmp_eq (take DIRSIZ ?nm) (d_name (es ! j))" if j: "j < k + 2" for j
  proof -
    have e: "es ! j = root_entry names j" using es j k l by simp
    have "cname ?nm \<noteq> cname (skip_underscore (names ! (j - 2)))" if "2 \<le> j"
    proof -
      have "j - 2 < length names" "j - 2 \<noteq> k" using j k that by auto
      then show ?thesis using n(1) k unfolding names_ok_def distinct_conv_nth by fastforce
    qed
    then show ?thesis using nm c j k by (auto simp: e root_entry_def namecmp_eq_def cname_strncpy14)
  qed
  have "k + 2 < length es" using k l by simp
  then show ?thesis unfolding dir_find_def find_Some_iff using hit miss
    by (intro exI [of _ "k + 2"]) auto
qed

section \<open>From the image to the bytes of a file\<close>

lemma small_inum:
  assumes "j < NINODES"
  shows "unat (ucast (of_nat j :: u16) :: u32) = j" "unat (of_nat j :: u32) = j"
proof -
  have "unat (of_nat j :: u16) = j" using assms by (subst unat_of_nat) simp
  then show "unat (ucast (of_nat j :: u16) :: u32) = j" using assms by (simp add: unsigned_ucast_eq take_bit_eq_mod)
  show "unat (of_nat j :: u32) = j" using assms by (subst unat_of_nat) simp
qed

definition image_inums :: "nat \<Rightarrow> u32 set" where
  "image_inums n = {i. 1 \<le> unat i \<and> unat i < n + 2}"

lemma root_entry_inum:
  assumes "d_inum (root_entry names k) \<noteq> 0" "length names + 2 \<le> NINODES"
  shows "ucast (d_inum (root_entry names k)) \<in> image_inums (length names)"
  using assms small_inum(1) [of k] by (auto simp: root_entry_def image_inums_def split: if_splits)

text \<open>The kernel has mounted the image \<open>m\<close> of these files, with \<open>z\<close> bytes of free entries in the root directory.\<close>

definition mounted :: "(u8 list \<times> u8 list list) list \<Rightarrow> mkst \<Rightarrow> nat \<Rightarrow> 'a fs_scheme \<Rightarrow> bool" where
  "mounted files m z s \<longleftrightarrow> on_disk m s \<and> length files + 2 \<le> NINODES \<and> z mod 16 = 0 \<and>
     built (root_entries files @ replicate z 0) (map (\<lambda>f. concat (snd f)) files) m"

lemma mountedD:
  assumes "mounted files m z s"
  shows "on_disk m s" "length files + 2 \<le> NINODES" "z mod 16 = 0" "built (root_entries files @ replicate z 0) (map (\<lambda>f. concat (snd f)) files) m"
  using assms by (simp_all add: mounted_def)

lemma inode_kinds:
  assumes m: "mounted files m z s" and "i \<in> image_inums (length files)"
  shows "i_nlink (dinode_at s ROOTDEV i) = 1" "i_type (dinode_at s ROOTDEV i) = (if i = ROOTINO then T_DIR else T_FILE)"
    "unat (IBLOCK i (sb s)) < FSSIZE" "same_dinode (dinode_at s ROOTDEV i) (dino (unat i) m)"
    "file_mapped s (dinode_at s ROOTDEV i)"
    "map (file_byte s (dinode_at s ROOTDEV i)) [0..<unat (i_size (dinode_at s ROOTDEV i))] = fcontent m (unat i)"
proof -
  note mo = mountedD [OF m]
  have i: "1 \<le> unat i" "unat i < length files + 2" using assms(2) by (simp_all add: image_inums_def)
  then have u: "unat i < NINODES" using mo(2) by simp
  note d = dinode_dino [OF mo(1) u]
  show "unat (IBLOCK i (sb s)) < FSSIZE" "same_dinode (dinode_at s ROOTDEV i) (dino (unat i) m)" using d by simp_all
  have mk: "mk_ok m" "unat i < freeinode m" using mo(4) i by (simp_all add: built_def)
  show "file_mapped s (dinode_at s ROOTDEV i)" "map (file_byte s (dinode_at s ROOTDEV i)) [0..<unat (i_size (dinode_at s ROOTDEV i))] = fcontent m (unat i)"
    using image_file [OF mo(1) mk(1) i(1) mk(2) d(1)] by simp_all
  have "unat i = 1 \<longleftrightarrow> i = 1" by (metis unat_1 word_unat_eq_iff)
  moreover have "\<exists>k < length files. unat i = 2 + k" if "unat i \<noteq> 1" using that i by (intro exI [of _ "unat i - 2"]) arith
  ultimately show "i_nlink (dinode_at s ROOTDEV i) = 1" "i_type (dinode_at s ROOTDEV i) = (if i = ROOTINO then T_DIR else T_FILE)"
    using mo(4) d(1) unfolding built_def same_dinode_def by (cases "i = 1"; fastforce)+
qed

lemma root_in: "ROOTINO \<in> image_inums (length files)"
  by (simp add: image_inums_def)

lemma root_dir:
  assumes m: "mounted files m z s"
  shows "dir_ok s (dinode_at s ROOTDEV ROOTINO)" "length files + 2 \<le> length (dir_ents s (dinode_at s ROOTDEV ROOTINO))"
    "k < length (dir_ents s (dinode_at s ROOTDEV ROOTINO)) \<Longrightarrow> dir_ents s (dinode_at s ROOTDEV ROOTINO) ! k = root_entry (map fst files) k"
proof -
  let ?x = "dinode_at s ROOTDEV ROOTINO"
  note mo = mountedD [OF m] and r = inode_kinds [OF m root_in]
  have c: "map (file_byte s ?x) [0..<unat (i_size ?x)] = root_entries files @ replicate z 0" using r(6) mo(4) by (simp add: built_def)
  have l: "unat (i_size ?x) = 16 * (length files + 2) + z" using arg_cong [OF c, of length] by (simp add: root_entries_def)
  have "unat (i_size ?x) mod 16 = 0" unfolding l using mo(3) by presburger
  then show "dir_ok s ?x" using r by (simp add: dir_ok_def)
  show "length files + 2 \<le> length (dir_ents s ?x)" using l by simp
  show "k < length (dir_ents s ?x) \<Longrightarrow> dir_ents s ?x ! k = root_entry (map fst files) k" using root_ents [OF c _ mo(3)] by simp
qed

lemma image_tree:
  assumes m: "mounted files m z s"
  shows "tree_ok s ROOTDEV (image_inums (length files))"
proof -
  let ?x = "dinode_at s ROOTDEV ROOTINO"
  have "ucast (d_inum e) \<in> image_inums (length files)" if e: "e \<in> set (dir_ents s ?x)" "d_inum e \<noteq> 0" for e
  proof -
    obtain k where "k < length (dir_ents s ?x)" "e = dir_ents s ?x ! k" using e(1) by (auto simp: in_set_conv_nth)
    then have "e = root_entry (map fst files) k" using root_dir(3) [OF m] by simp
    then show ?thesis using root_entry_inum [of "map fst files" k] e(2) mountedD(2) [OF m] by simp
  qed
  then show ?thesis using inode_kinds [OF m] root_dir(1) [OF m] unfolding tree_ok_def by auto
qed

lemma image_walk:
  assumes m: "mounted files m z s" and "names_ok (map fst files)" "k < length files"
  shows "path_walk s ROOTDEV ROOTINO [take DIRSIZ (skip_underscore (fst (files ! k)))] = Some (of_nat (k + 2))"
proof -
  let ?es = "dir_ents s (dinode_at s ROOTDEV ROOTINO)"
  have f: "dir_find (take DIRSIZ (skip_underscore (map fst files ! k))) ?es = Some (k + 2)"
    by (rule root_find) (use assms mountedD(2) [OF m] root_dir [OF m] in auto)
  have "ucast (of_nat (k + 2) :: u16) = (of_nat (k + 2) :: u32)"
    using small_inum [of "k + 2"] mountedD(2) [OF m] assms(3) by (metis add_less_cancel_right order_less_le_trans word_unat_eq_iff)
  moreover have "?es ! (k + 2) = root_entry (map fst files) (k + 2)" by (rule root_dir(3) [OF m]) (use root_dir(2) [OF m] assms(3) in simp)
  ultimately show ?thesis using f inode_kinds(2) [OF m root_in] assms(3) by (simp add: root_entry_def)
qed

text \<open>Mounting: \<^verbatim>\<open>iinit\<close> on a disk with the image.\<close>

lemma iinit_image:
  fixes s :: "'a fs_scheme"
  assumes s: "can_read s" "\<forall>b. unat b < FSSIZE \<longrightarrow> view s ROOTDEV b = img m (unat b)" "img m 1 = mk_superblock" "\<forall>i < NINODE. i_ref (inodes s i) = 0"
  shows "\<exists>s'. iinit ROOTDEV s = Ok s' \<and> on_disk m s' \<and> can_read s' \<and> read_only s s' \<and> icoh {} s' \<and> (\<forall>i < NINODE. i_ref (inodes s' i) = 0)"
proof -
  let ?s1 = "s\<lparr>inodes := \<lambda>i. if i < NINODE then (inodes s i)\<lparr>i_locked := False\<rparr> else inodes s i\<rparr>"
  have r1: "read_only s ?s1" by (rule read_only_cong [OF s(1)]) simp_all
  have c1: "can_read ?s1" using r1 s(1) by (simp add: can_read_def read_only_def)
  obtain i s2 s3 where b: "bread ROOTDEV 1 ?s1 = Ok (i, s2)" "b_data (bufs s2 i) = view ?s1 ROOTDEV 1" "brelse i s2 = Ok s3" "reads ?s1 s3"
    using read_block [OF c1, of ROOTDEV 1] by auto
  let ?s4 = "s3\<lparr>sb := superblock_of mk_superblock\<rparr>"
  have v1: "view ?s1 ROOTDEV 1 = mk_superblock" using r1 s(2,3) by (simp add: read_only_def)
  have e: "iinit ROOTDEV s = Ok ?s4" using b(1-3) v1 by (simp add: iinit_def readsb_def Let_def)
  have c3: "can_read s3" using reads_can [OF b(4) c1] .
  have "read_only s3 ?s4" by (rule read_only_cong [OF c3]) simp_all
  then have r: "read_only s ?s4" using read_only_trans r1 b(4) unfolding reads_def by blast
  have i4: "inodes ?s4 = inodes ?s1" using reads_fields(1) [OF b(4)] by simp
  have ref: "i_ref (inodes ?s4 i) = 0" if "i < NINODE" for i using i4 s(4) that by simp
  have "icoh {} ?s4" using ref i4 by (auto simp: icoh_def icache_inv_def entry_ok_def)
  moreover have "on_disk m ?s4" using r s(2) by (simp add: on_disk_def read_only_def)
  moreover have "can_read ?s4" using r s(1) by (simp add: can_read_def read_only_def)
  ultimately show ?thesis using e r ref by blast
qed

lemma split_root_path: "name \<noteq> [] \<Longrightarrow> slash \<notin> set name \<Longrightarrow> split_path [] (slash # name) = [name]"
proof -
  assume a: "name \<noteq> []" "slash \<notin> set name"
  then have "takeWhile (\<lambda>c. c \<noteq> slash) name = name" "dropWhile (\<lambda>c. c \<noteq> slash) name = []" unfolding takeWhile_eq_all_conv dropWhile_eq_Nil_conv by auto
  then show ?thesis using split_path_elem [of "[]" name] a(1) by (simp only: split_path.simps) simp
qed

text \<open>Opening and reading a file of a mounted image.\<close>

lemma read_image_file:
  assumes m: "mounted files m z s" and s: "icoh {} s" "can_read s" "\<forall>i < NINODE. i_ref (inodes s i) = 0" and names: "names_ok (map fst files)"
    and k: "k < length files" "skip_underscore (fst (files ! k)) \<noteq> []" "slash \<notin> set (skip_underscore (fst (files ! k)))"
  shows "\<exists>ip s1 s2 s3. namei dr cwd (slash # skip_underscore (fst (files ! k))) s = Ok (Some ip, s1) \<and> ilock ip s1 = Ok s2 \<and>
    readi dr ip 0 (of_nat (length (concat (snd (files ! k))))) s2 = Ok (int (length (concat (snd (files ! k)))), concat (snd (files ! k)), s3) \<and> ireads s s3"
proof -
  let ?name = "skip_underscore (fst (files ! k))" let ?n = "of_nat (k + 2) :: u32" let ?x = "dinode_at s ROOTDEV ?n" let ?c = "concat (snd (files ! k))"
  have n: "unat ?n = k + 2" using small_inum(2) [of "k + 2"] mountedD(2) [OF m] k(1) by simp
  then have G: "?n \<in> image_inums (length files)" using k(1) by (simp add: image_inums_def)
  note t = inode_kinds [OF m G] and tree = image_tree [OF m]
  have "card {i. i < NINODE \<and> (0::int) = 0} = 50" by simp
  moreover have "{i. i < NINODE \<and> i_ref (inodes s i) = 0} = {i. i < NINODE \<and> (0::int) = 0}" using s(3) by auto
  ultimately have free: "2 \<le> card {i. i < NINODE \<and> (\<lambda>i. i_ref (inodes s i)) i = 0}" by simp
  let ?r = "\<lambda>i. i_ref (inodes s i)" let ?d = "\<lambda>i. (i_dev (inodes s i), i_inum (inodes s i))"
  have r0: "\<forall>i < NINODE. 0 \<le> ?r i" using s(3) by simp
  have st: "starts_at s cwd (slash # ?name) ROOTDEV ROOTINO" by (simp add: starts_at_def)
  obtain jp s0 where a: "iget ROOTDEV ROOTINO s = Ok (jp, s0)" "ireads s s0" "at_inode s0 ?r ?d ROOTDEV ROOTINO jp"
    using namex_start [OF s(1,2) st _ refl free refl] by auto
  have w: "path_walk s0 ROOTDEV ROOTINO (path_elems (slash # ?name)) = Some ?n" "tree_ok s0 ROOTDEV (image_inums (length files))"
    using image_walk [OF m names k(1)] ireads_tree [OF a(2)] tree unfolding path_elems_split split_root_path [OF k(2,3)]
    by (simp_all del: path_walk.simps)
  obtain ip s1 nm where b: "namex_loop dr False (slash # ?name) [] jp s0 = Ok (Some ip, nm, s1)" "ireads s0 s1" "at_inode s1 ?r ?d ROOTDEV ?n ip"
    using namex_loop_walks [OF a(3) w(2) root_in r0 free, of dr "slash # ?name" "[]"] unfolding w(1) by auto
  have r1: "ireads s s1" using ireads_trans [OF a(2) b(2)] .
  have "tree_ok s1 ROOTDEV (image_inums (length files))" using ireads_tree [OF r1] tree by simp
  then obtain s2 where c: "ilock ip s1 = Ok s2" "ireads s1 s2" "locked_at s2 ?r ?d ROOTDEV ?n ip" "same_dinode (inodes s2 ip) (dinode_at s1 ROOTDEV ?n)"
    using lock_inode [OF b(3) _ G r0] by blast
  have r2: "ireads s s2" using ireads_trans [OF r1 c(2)] .
  have sd: "same_dinode (inodes s2 ip) ?x" "i_dev (inodes s2 ip) = i_dev ?x" "can_read s2"
    using c(3,4) ireads_fields(3) [OF r1] by (simp_all add: locked_at_def)
  have d: "i_dev (inodes s2 ip) \<noteq> 0" using sd(2) by simp
  note f = same_file [OF sd(1,2), of s] and g = ireads_dir [OF r2 d]
  have content: "map (file_byte s2 (inodes s2 ip)) [0..<unat (i_size (inodes s2 ip))] = ?c"
    using t(6) f(4) g(4) sd(1) mountedD(4) [OF m] k(1) n by (simp add: same_dinode_def built_def)
  then have len: "unat (i_size (inodes s2 ip)) = length ?c" by (metis length_map length_upt minus_nat.diff_0)
  have fm: "file_mapped s2 (inodes s2 ip)" using t(5) f(3) g(3) by simp
  have ty: "i_type (inodes s2 ip) \<noteq> T_DEV" using t(2) sd(1) by (simp add: same_dinode_def)
  have "length ?c \<le> MAXFILE * BSIZE" using file_mapped_size [OF fm] len by simp
  then have u: "unat (of_nat (length ?c) :: u32) = length ?c" by (intro unat_of_nat32) simp
  have "\<exists>s3. readi dr ip 0 (of_nat (length ?c)) s2 = Ok (int (length ?c), map (file_byte s2 (inodes s2 ip)) [unat (0::u32)..<unat (0::u32) + length ?c], s3) \<and> reads s2 s3"
    by (rule readi_mapped [OF sd(3) refl ty fm]) (use u len unsigned_less [of "of_nat (length ?c) :: u32", where 'a = nat] in auto)
  then obtain s3 where e: "readi dr ip 0 (of_nat (length ?c)) s2 = Ok (int (length ?c), ?c, s3)" "reads s2 s3"
    using content len by auto
  have "namei dr cwd (slash # ?name) s = Ok (Some ip, s1)" using a(1) b(1) by (simp add: namei_def namex_def)
  then show ?thesis using c(1) e ireads_trans [OF r2 reads_ireads [OF e(2)]] by blast
qed

section \<open>Properties\<close>

text \<open>C9: \<^verbatim>\<open>namei\<close> resolves a path: it returns an entry for exactly the inode that the path names, counted once more, or null when
  the path names nothing, and then no reference is left behind; every other count is as before, the entries
  in use stay with their inodes, no lock is kept and no block changes.\<close>

theorem namei_resolves:
  assumes "icoh {} s" "can_read s" "tree_ok s dev G" "n \<in> G" "starts_at s cwd path dev n"
    and "2 \<le> card {i. i < NINODE \<and> i_ref (inodes s i) = 0}"
  shows "\<exists>res s'. namei dr cwd path s = Ok (res, s') \<and> ireads s s' \<and> icoh {} s' \<and>
    (\<forall>i < NINODE. i_ref (inodes s' i) = i_ref (inodes s i) + (if res = Some i then 1 else 0)) \<and>
    (\<forall>i < NINODE. 0 < i_ref (inodes s i) \<longrightarrow> i_dev (inodes s' i) = i_dev (inodes s i) \<and> i_inum (inodes s' i) = i_inum (inodes s i)) \<and>
    (case path_walk s dev n (map (take DIRSIZ) (split_path [] path)) of None \<Rightarrow> res = None
     | Some m \<Rightarrow> \<exists>ip < NINODE. res = Some ip \<and> i_dev (inodes s' ip) = dev \<and> i_inum (inodes s' ip) = m)"
proof -
  define r where "r = (\<lambda>i. i_ref (inodes s i))"
  define d where "d = (\<lambda>i. (i_dev (inodes s i), i_inum (inodes s i)))"
  have dev: "dev \<noteq> 0" using assms(3) by (simp add: tree_ok_def)
  have r: "2 \<le> card {i. i < NINODE \<and> r i = 0}" using assms(6) by (simp add: r_def)
  have r0: "\<forall>i < NINODE. 0 \<le> r i" using assms(1) by (simp add: r_def icoh_def icache_inv_def)
  obtain ip s1 where s1: "(if path \<noteq> [] \<and> hd path = slash then iget ROOTDEV ROOTINO s else case cwd of None \<Rightarrow> UB | Some c \<Rightarrow> Ok (idup c s)) = Ok (ip, s1)"
    "ireads s s1" "at_inode s1 r d dev n ip"
    using namex_start [OF assms(1,2,5) dev r_def r d_def] by blast
  note t = ireads_tree [OF s1(2) dev]
  obtain res nm s' where e: "namex_loop dr False path [] ip s1 = Ok (res, nm, s')" "ireads s1 s'"
    and w: "case path_walk s dev n (path_elems path) of None \<Rightarrow> res = None \<and> icoh {} s' \<and> ref_counts s' r \<and> ref_names s' r d
       | Some m \<Rightarrow> m \<in> G \<and> (\<exists>jp. res = Some jp \<and> at_inode s' r d dev m jp)"
    using namex_loop_walks [OF s1(3) _ assms(4) r0 r, of dr path "[]"] assms(3) unfolding t by blast
  have "namei dr cwd path s = Ok (res, s')" unfolding namei_def namex_def s1(1) by (simp add: e(1))
  moreover have "icoh {} s'" "ref_names s' r d" "ref_counts s' (\<lambda>i. r i + (if res = Some i then 1 else 0))"
    using w by (auto simp: at_inode_def ref_counts_def split: option.splits)
  ultimately show ?thesis using ireads_trans [OF s1(2) e(2)] w unfolding path_elems_split
    by (intro exI [of _ res] exI [of _ s']) (auto simp: ref_counts_def ref_names_def r_def d_def at_inode_def split: option.splits)
qed

text \<open>A kernel that has just started, with this image on its disk.\<close>

definition demo_boot :: "mkst \<Rightarrow> fs" where
  "demo_boot m = demo_fs\<lparr>disk := \<lambda>_ b. img m (unat b), inodes := \<lambda>i. (inodes demo_fs i)\<lparr>i_ref := 0\<rparr>\<rparr>"

definition demo_files :: "(u8 list \<times> u8 list list) list" where
  "demo_files = [(bytes ''_cat'', [[1, 2], [3]]), (bytes ''README'', [[4]])]"

lemma demo_boot_ok:
  "can_read (demo_boot m)" "unat b < FSSIZE \<Longrightarrow> view (demo_boot m) ROOTDEV b = img m (unat b)" "i_ref (inodes (demo_boot m) i) = 0"
proof -
  have i: "binv (demo_boot m)" by (auto simp: binv_def demo_boot_def demo_fs_def zero_buf_def)
  have "dirties (demo_boot m) = {}" by (auto simp: dirties_def demo_boot_def demo_fs_def zero_buf_def)
  then show "can_read (demo_boot m)" using i by (auto simp: can_read_def qbio_def demo_boot_def demo_fs_def zero_buf_def)
  have "view (demo_boot m) ROOTDEV b = disk (demo_boot m) ROOTDEV b"
    by (rule view_uncached [OF i]) (simp add: cached_def demo_boot_def demo_fs_def zero_buf_def)
  then show "view (demo_boot m) ROOTDEV b = img m (unat b)" by (simp add: demo_boot_def)
qed (simp add: demo_boot_def)

lemma demo_files_ok:
  "\<forall>(name, reads) \<in> set demo_files. slash \<notin> set name \<and> length (concat reads) \<le> MAXFILE * BSIZE" "length demo_files + 2 \<le> NINODES"
  "(16 * (length demo_files + 2)) mod BSIZE \<noteq> 0" "blocks_for (16 * (length demo_files + 2)) (map (\<lambda>f. concat (snd f)) demo_files) \<le> FSSIZE"
  "names_ok (map fst demo_files)"
  by (simp_all add: demo_files_def bytes_def blocks_for_def tot_def nblk_def names_ok_def cname_def skip_underscore_def)

text \<open>Mounting the image of these files.\<close>

lemma mount_image:
  fixes s0 :: "'a fs_scheme"
  assumes files: "\<forall>(name, reads) \<in> set files. slash \<notin> set name \<and> length (concat reads) \<le> MAXFILE * BSIZE" "length files + 2 \<le> NINODES"
    "(16 * (length files + 2)) mod BSIZE \<noteq> 0" "blocks_for (16 * (length files + 2)) (map (\<lambda>f. concat (snd f)) files) \<le> FSSIZE"
    and m: "mkfs (map (apsnd Some) files) = Ok m"
    and s0: "can_read s0" "\<forall>b. unat b < FSSIZE \<longrightarrow> view s0 ROOTDEV b = img m (unat b)" "\<forall>i < NINODE. i_ref (inodes s0 i) = 0"
  shows "\<exists>s z. iinit ROOTDEV s0 = Ok s \<and> mounted files m z s \<and> can_read s \<and> read_only s0 s \<and> icoh {} s \<and> (\<forall>i < NINODE. i_ref (inodes s i) = 0)"
proof -
  let ?z = "BSIZE - 16 * (length files + 2) mod BSIZE"
  have b: "built (root_entries files @ replicate ?z 0) (map (\<lambda>f. concat (snd f)) files) m" using mkfs_built [OF files] m by simp
  then have sbk: "img m 1 = mk_superblock" by (simp add: built_def)
  obtain s where "iinit ROOTDEV s0 = Ok s" "on_disk m s" "can_read s" "read_only s0 s" "icoh {} s" "\<forall>i < NINODE. i_ref (inodes s i) = 0"
    using iinit_image [OF s0(1,2) sbk s0(3)] by blast
  moreover have "?z = 16 * (32 - (length files + 2) mod 32)"
    using mult_mod_right [of 16 "length files + 2" 32] by (simp only: right_diff_distrib') simp
  then have "?z mod 16 = 0" by (simp only: mod_mult_self1_is_0)
  ultimately show ?thesis using b files(2) unfolding mounted_def by - (intro exI [of _ s] exI [of _ ?z] conjI; assumption)
qed

theorem namei_resolves_witness:
  "\<exists>m s ip s' s''. mkfs (map (apsnd Some) demo_files) = Ok m \<and> iinit ROOTDEV (demo_boot m) = Ok s \<and>
     namei (\<lambda>_. None) None (bytes ''/README'') s = Ok (Some ip, s') \<and> i_inum (inodes s' ip) = 3 \<and>
     namei (\<lambda>_. None) None (bytes ''/cat/README'') s = Ok (None, s'')"
proof -
  obtain m where m: "mkfs (map (apsnd Some) demo_files) = Ok m" using mkfs_built [OF demo_files_ok(1-4)] by blast
  obtain s z where s: "iinit ROOTDEV (demo_boot m) = Ok s" "mounted demo_files m z s" "can_read s" "icoh {} s" "\<forall>i < NINODE. i_ref (inodes s i) = 0"
    using mount_image [OF demo_files_ok(1-4) m demo_boot_ok(1)] demo_boot_ok(2,3) by blast
  have "{i. i < NINODE \<and> i_ref (inodes s i) = 0} = {..<50}" using s(5) by auto
  then have c: "2 \<le> card {i. i < NINODE \<and> i_ref (inodes s i) = 0}" by simp
  have st: "starts_at s None (bytes ''/README'') ROOTDEV ROOTINO" "starts_at s None (bytes ''/cat/README'') ROOTDEV ROOTINO"
    by (simp_all add: starts_at_def bytes_def)
  note nm = namei_resolves [OF s(4,3) image_tree [OF s(2)] root_in _ c, of None]
  have w1: "path_walk s ROOTDEV ROOTINO (map (take DIRSIZ) (split_path [] (bytes ''/README''))) = Some 3"
    using image_walk [OF s(2) demo_files_ok(5), of 1] by (simp del: path_walk.simps add: demo_files_def skip_underscore_def bytes_def)
  have w2: "path_walk s ROOTDEV ROOTINO (map (take DIRSIZ) (split_path [] (bytes ''/cat/README''))) = None"
  proof -
    have "path_walk s ROOTDEV ROOTINO [bytes ''cat''] = Some 2"
      using image_walk [OF s(2) demo_files_ok(5), of 0] by (simp del: path_walk.simps add: demo_files_def skip_underscore_def bytes_def)
    moreover have "(2 :: u32) \<in> image_inums (length demo_files)" by (simp add: image_inums_def demo_files_def)
    then have "i_type (dinode_at s ROOTDEV 2) \<noteq> T_DIR" using inode_kinds(2) [OF s(2)] by fastforce
    ultimately show ?thesis by (auto simp: bytes_def Let_def split: if_splits option.splits)
  qed
  obtain ip s' where a: "namei (\<lambda>_. None) None (bytes ''/README'') s = Ok (Some ip, s')" "i_inum (inodes s' ip) = 3"
    using nm [OF st(1), of "\<lambda>_. None"] unfolding w1 by auto
  obtain s'' where "namei (\<lambda>_. None) None (bytes ''/cat/README'') s = Ok (None, s'')"
    using nm [OF st(2), of "\<lambda>_. None"] unfolding w2 by auto
  then show ?thesis using m s(1) a by blast
qed

text \<open>C8: the kernel reads back what \<^verbatim>\<open>mkfs\<close> wrote. On a disk with an image built from files that fit and whose names
  the directory tells apart, mounting succeeds, the path of a file leads to an inode that can be locked, and reading it from the start gives
  exactly the bytes of the host file, without changing a block or writing to the disk.\<close>

theorem image_files_readable:
  fixes s0 :: "'a fs_scheme"
  assumes files: "\<forall>(name, reads) \<in> set files. slash \<notin> set name \<and> length (concat reads) \<le> MAXFILE * BSIZE" "length files + 2 \<le> NINODES"
    "(16 * (length files + 2)) mod BSIZE \<noteq> 0" "blocks_for (16 * (length files + 2)) (map (\<lambda>f. concat (snd f)) files) \<le> FSSIZE"
    "names_ok (map fst files)" and m: "mkfs (map (apsnd Some) files) = Ok m"
    and s0: "can_read s0" "\<forall>b. unat b < FSSIZE \<longrightarrow> view s0 ROOTDEV b = img m (unat b)" "\<forall>i < NINODE. i_ref (inodes s0 i) = 0"
    and k: "k < length files" "skip_underscore (fst (files ! k)) \<noteq> []"
  shows "\<exists>s ip s1 s2 s3. iinit ROOTDEV s0 = Ok s \<and> namei dr cwd (slash # skip_underscore (fst (files ! k))) s = Ok (Some ip, s1) \<and>
    ilock ip s1 = Ok s2 \<and> readi dr ip 0 (of_nat (length (concat (snd (files ! k))))) s2 =
      Ok (int (length (concat (snd (files ! k)))), concat (snd (files ! k)), s3) \<and> read_only s0 s3"
proof -
  obtain s z where s: "iinit ROOTDEV s0 = Ok s" "mounted files m z s" "can_read s" "read_only s0 s" "icoh {} s" "\<forall>i < NINODE. i_ref (inodes s i) = 0"
    using mount_image [OF files(1-4) m s0] by blast
  have "slash \<notin> set (fst (files ! k))" using files(1) nth_mem [OF k(1)] by (auto simp: split_beta)
  then have "slash \<notin> set (skip_underscore (fst (files ! k)))" by (auto simp: skip_underscore_def dest: list.set_sel(2))
  then show ?thesis using read_image_file [OF s(2,5,3,6) files(5) k, of dr cwd] s(1) read_only_trans [OF s(4)] unfolding ireads_def by blast
qed

theorem image_files_readable_witness:
  "\<exists>m s ip s1 s2 s3. mkfs [(bytes ''_cat'', Some [[1, 2], [3]]), (bytes ''README'', Some [[4]])] = Ok m \<and> iinit ROOTDEV (demo_boot m) = Ok s \<and>
     namei (\<lambda>_. None) None (bytes ''/cat'') s = Ok (Some ip, s1) \<and> ilock ip s1 = Ok s2 \<and> readi (\<lambda>_. None) ip 0 3 s2 = Ok (3, [1, 2, 3], s3)"
proof -
  obtain m where m: "mkfs (map (apsnd Some) demo_files) = Ok m" using mkfs_built [OF demo_files_ok(1-4)] by blast
  have k: "0 < length demo_files" "skip_underscore (fst (demo_files ! 0)) \<noteq> []" by (simp_all add: demo_files_def skip_underscore_def bytes_def)
  have "\<forall>b. unat b < FSSIZE \<longrightarrow> view (demo_boot m) ROOTDEV b = img m (unat b)" "\<forall>i < NINODE. i_ref (inodes (demo_boot m) i) = 0"
    using demo_boot_ok(2,3) by blast+
  from image_files_readable [OF demo_files_ok m demo_boot_ok(1) this k, of "\<lambda>_. None" None] m
  show ?thesis by (fastforce simp: demo_files_def skip_underscore_def bytes_def)
qed

end
