(* ===== verification/Grep.thy ===== *)
theory Grep
  imports Xv6_Prelude
begin

text \<open>
  The user program \<^verbatim>\<open>grep.c\<close>: its regular-expression matcher, and the loop that cuts the input
  into lines. A C string is the list of its bytes without the terminator.
\<close>

section \<open>The matcher\<close>

abbreviation (input) ch_newline :: u8 where "ch_newline \<equiv> 10"
abbreviation (input) ch_dollar :: u8 where "ch_dollar \<equiv> 36"
abbreviation (input) ch_star :: u8 where "ch_star \<equiv> 42"
abbreviation (input) ch_dot :: u8 where "ch_dot \<equiv> 46"
abbreviation (input) ch_caret :: u8 where "ch_caret \<equiv> 94"

text \<open>\<^verbatim>\<open>matchhere\<close> and the loop of \<^verbatim>\<open>matchstar\<close>.\<close>

function matchhere :: "u8 list \<Rightarrow> u8 list \<Rightarrow> bool" and matchstar :: "u8 \<Rightarrow> u8 list \<Rightarrow> u8 list \<Rightarrow> bool" where
  "matchhere re str =
     (case re of
        [] \<Rightarrow> True
      | r0 # re1 \<Rightarrow>
          if re1 \<noteq> [] \<and> hd re1 = ch_star then matchstar r0 (tl re1) str
          else if r0 = ch_dollar \<and> re1 = [] then str = []
          else if str \<noteq> [] \<and> (r0 = ch_dot \<or> r0 = hd str) then matchhere re1 (tl str)
          else False)"
| "matchstar c re str =
     (if matchhere re str then True
      else if str \<noteq> [] \<and> (hd str = c \<or> c = ch_dot) then matchstar c re (tl str)
      else False)"
  by pat_completeness auto
termination
  by (relation "measures [\<lambda>x. case x of Inl (re, str) \<Rightarrow> length re | Inr (c, re, str) \<Rightarrow> length re + 1,
        \<lambda>x. case x of Inl (re, str) \<Rightarrow> length str | Inr (c, re, str) \<Rightarrow> length str]")
     (auto simp: neq_Nil_conv)

declare matchhere.simps [simp del] matchstar.simps [simp del]

text \<open>The loop of \<^verbatim>\<open>match\<close> looks at every suffix of the text, the empty one included.\<close>

fun match_loop :: "u8 list \<Rightarrow> u8 list \<Rightarrow> bool" where
  "match_loop re [] = matchhere re []"
| "match_loop re (x # xs) = (if matchhere re (x # xs) then True else match_loop re xs)"

definition match :: "u8 list \<Rightarrow> u8 list \<Rightarrow> bool" where
  "match re str = (if re \<noteq> [] \<and> hd re = ch_caret then matchhere (tl re) str else match_loop re str)"

section \<open>The lines of the input\<close>

text \<open>\<^verbatim>\<open>strchr(p, '\n')\<close> in the bytes that follow \<^verbatim>\<open>p\<close>: those before the newline and those after it.\<close>

definition find_newline :: "u8 list \<Rightarrow> (u8 list \<times> u8 list) option" where
  "find_newline p =
     (let k = takeWhile (\<lambda>b. b \<noteq> 0 \<and> b \<noteq> ch_newline) p; rest = drop (length k) p in
      if rest \<noteq> [] \<and> hd rest = ch_newline then Some (k, tl rest) else None)"

lemma find_newline_shorter [termination_simp]: "find_newline p = Some (k, q) \<Longrightarrow> length q < length p"
  by (cases p) (auto simp: find_newline_def Let_def split: if_split_asm)

text \<open>The inner loop of \<^verbatim>\<open>grep\<close>: what it writes, and what is left at \<^verbatim>\<open>p\<close>.\<close>

fun grep_lines :: "u8 list \<Rightarrow> u8 list \<Rightarrow> u8 list \<times> u8 list" where
  "grep_lines pat p = (case find_newline p of
     None \<Rightarrow> ([], p)
   | Some (k, q) \<Rightarrow>
       let (w, r) = grep_lines pat q in ((if match pat k then k @ [ch_newline] else []) @ w, r))"

declare grep_lines.simps [simp del]

text \<open>\<^verbatim>\<open>grep\<close>: \<open>kept\<close> are the first \<^verbatim>\<open>m\<close> bytes of the buffer, and each element of the last argument is what
  one \<^verbatim>\<open>read\<close> returns; an empty one is the end of the file or an error.\<close>

fun grep :: "u8 list \<Rightarrow> u8 list \<Rightarrow> u8 list list \<Rightarrow> u8 list" where
  "grep pat kept [] = []"
| "grep pat kept (chunk # chunks) =
     (if chunk = [] then []
      else let buf = kept @ chunk; (w, p) = grep_lines pat buf in
        w @ grep pat (if p = buf then [] else p) chunks)"

text \<open>\<^verbatim>\<open>main\<close>: what is written to the descriptors 1 and 2 for the arguments after the program's name; \<open>input\<close> is what the standard input delivers and \<open>opens\<close>
  what the file with a name delivers, if it can be opened.\<close>

fun grep_files :: "u8 list \<Rightarrow> (u8 list \<Rightarrow> u8 list list option) \<Rightarrow> u8 list list \<Rightarrow> u8 list" where
  "grep_files pat opens [] = []"
| "grep_files pat opens (name # names) =
     (case opens name of
        None \<Rightarrow> bytes ''grep: cannot open '' @ name @ [ch_newline]
      | Some chunks \<Rightarrow> grep pat [] chunks @ grep_files pat opens names)"

definition grep_main :: "u8 list list \<Rightarrow> u8 list list \<Rightarrow> (u8 list \<Rightarrow> u8 list list option) \<Rightarrow> u8 list \<times> u8 list" where
  "grep_main args input opens =
     (case args of
        [] \<Rightarrow> ([], bytes ''usage: grep pattern [file ...]'' @ [ch_newline])
      | [pattern] \<Rightarrow> (grep pattern [] input, [])
      | pattern # names \<Rightarrow> (grep_files pattern opens names, []))"

section \<open>What patterns mean\<close>

datatype item = One u8 | Many u8

fun items :: "u8 list \<Rightarrow> item list \<times> bool" where
  "items [] = ([], False)"
| "items [c] = (if c = ch_dollar then ([], True) else ([One c], False))"
| "items (c # d # re) =
     (if d = ch_star then (let (is, e) = items re in (Many c # is, e))
      else (let (is, e) = items (d # re) in (One c # is, e)))"

definition fits :: "u8 \<Rightarrow> u8 \<Rightarrow> bool" where
  "fits c x \<longleftrightarrow> c = ch_dot \<or> x = c"

fun lang :: "item list \<Rightarrow> u8 list set" where
  "lang [] = {[]}"
| "lang (One c # is) = {x # w | x w. fits c x \<and> w \<in> lang is}"
| "lang (Many c # is) = {u @ w | u w. (\<forall>x\<in>set u. fits c x) \<and> w \<in> lang is}"

text \<open>A text that begins, or with a final \<^verbatim>\<open>$\<close> is, a word of the pattern.\<close>

definition begins :: "item list \<times> bool \<Rightarrow> u8 list \<Rightarrow> bool" where
  "begins r str \<longleftrightarrow> (\<exists>u v. str = u @ v \<and> u \<in> lang (fst r) \<and> (snd r \<longrightarrow> v = []))"

definition matches :: "u8 list \<Rightarrow> u8 list \<Rightarrow> bool" where
  "matches re str =
     (if re \<noteq> [] \<and> hd re = ch_caret then begins (items (tl re)) str
      else \<exists>a b. str = a @ b \<and> begins (items re) b)"

lemma beginsI: "u \<in> lang is \<Longrightarrow> (e \<Longrightarrow> v = []) \<Longrightarrow> str = u @ v \<Longrightarrow> begins (is, e) str"
  unfolding begins_def by (intro exI [of _ u] exI [of _ v]) simp

lemma beginsE:
  assumes "begins (is, e) str"
  obtains u v where "u \<in> lang is" "e \<longrightarrow> v = []" "str = u @ v"
  using assms unfolding begins_def by auto

lemma begins_One: "begins (One c # is, e) str \<longleftrightarrow> str \<noteq> [] \<and> fits c (hd str) \<and> begins (is, e) (tl str)"
proof
  assume "begins (One c # is, e) str"
  then obtain u v where u: "u \<in> lang (One c # is)" "e \<longrightarrow> v = []" "str = u @ v" by (rule beginsE)
  then obtain x w where "u = x # w" "fits c x" "w \<in> lang is" by auto
  then show "str \<noteq> [] \<and> fits c (hd str) \<and> begins (is, e) (tl str)" using u beginsI [of w "is" e v] by simp
next
  assume a: "str \<noteq> [] \<and> fits c (hd str) \<and> begins (is, e) (tl str)"
  then have "begins (is, e) (tl str)" by blast
  then obtain u v where "u \<in> lang is" "e \<longrightarrow> v = []" "tl str = u @ v" by (rule beginsE)
  then show "begins (One c # is, e) str" using a by (intro beginsI [of "hd str # u" _ _ v]) (auto simp: list.expand)
qed

lemma begins_Many:
  "begins (Many c # is, e) str \<longleftrightarrow>
     begins (is, e) str \<or> str \<noteq> [] \<and> fits c (hd str) \<and> begins (Many c # is, e) (tl str)" (is "?L \<longleftrightarrow> ?R")
proof
  assume ?L
  then obtain z v where z: "z \<in> lang (Many c # is)" "e \<longrightarrow> v = []" "str = z @ v" by (rule beginsE)
  then obtain u w where u: "z = u @ w" "\<forall>x\<in>set u. fits c x" "w \<in> lang is" by auto
  show ?R
  proof (cases u)
    case Nil then show ?thesis using z u beginsI [of w "is" e v] by simp
  next
    case (Cons x u')
    then have "u' @ w \<in> lang (Many c # is)" using u by auto
    then show ?thesis using z u Cons beginsI [of "u' @ w" "Many c # is" e v] by simp
  qed
next
  assume ?R
  then show ?L
  proof
    assume "begins (is, e) str"
    then obtain w v where w: "w \<in> lang is" "e \<longrightarrow> v = []" "str = w @ v" by (rule beginsE)
    then have "w \<in> lang (Many c # is)" by (simp only: lang.simps) (rule CollectI, rule exI [of _ "[]"], auto)
    then show ?thesis using w by (intro beginsI [of w _ _ v]) auto
  next
    assume a: "str \<noteq> [] \<and> fits c (hd str) \<and> begins (Many c # is, e) (tl str)"
    then have "begins (Many c # is, e) (tl str)" by blast
    then obtain z v where z: "z \<in> lang (Many c # is)" "e \<longrightarrow> v = []" "tl str = z @ v" by (rule beginsE)
    then obtain u w where u: "z = u @ w" "\<forall>x\<in>set u. fits c x" "w \<in> lang is" by auto
    have "(hd str # u) @ w \<in> lang (Many c # is)"
      using u a by (simp only: lang.simps) (rule CollectI, rule exI [of _ "hd str # u"], auto)
    then show ?thesis using z u a by (intro beginsI [of "(hd str # u) @ w" _ _ v]) (auto simp: list.expand)
  qed
qed

lemma matchhere_begins:
  "matchhere re str \<longleftrightarrow> begins (items re) str"
  "matchstar c re str \<longleftrightarrow> begins (Many c # fst (items re), snd (items re)) str"
proof (induction re str and c re str rule: matchhere_matchstar.induct)
  case (1 re str)
  show ?case
  proof (cases re)
    case Nil then show ?thesis by (simp add: matchhere.simps begins_def)
  next
    case (Cons r0 re1)
    show ?thesis
    proof (cases re1)
      case Nil then show ?thesis using Cons 1
        by (auto simp: matchhere.simps [of "[r0]"] begins_One fits_def) (auto simp: begins_def matchhere.simps)
    next
      case (Cons d re2)
      then show ?thesis using \<open>re = r0 # re1\<close> 1
        by (auto simp: matchhere.simps [of "r0 # d # re2"] begins_One fits_def split: prod.splits)
    qed
  qed
next
  case (2 c re str)
  then show ?case by (subst matchstar.simps, subst begins_Many) (auto simp: fits_def)
qed

lemma match_matches: "match re str \<longleftrightarrow> matches re str"
proof -
  have "match_loop re str \<longleftrightarrow> (\<exists>a b. str = a @ b \<and> begins (items re) b)"
  proof (induction str)
    case (Cons x xs)
    have "(\<exists>a b. x # xs = a @ b \<and> begins (items re) b) \<longleftrightarrow> begins (items re) (x # xs) \<or> (\<exists>a b. xs = a @ b \<and> begins (items re) b)"
      by (auto simp: Cons_eq_append_conv)
    then show ?case using Cons by (simp add: matchhere_begins)
  qed (simp add: matchhere_begins)
  then show ?thesis by (simp only: match_def matches_def matchhere_begins)
qed

section \<open>What is printed\<close>

text \<open>The complete lines of a text, and what follows the last newline.\<close>

fun text_lines :: "u8 list \<Rightarrow> u8 list \<Rightarrow> u8 list list \<times> u8 list" where
  "text_lines acc [] = ([], acc)"
| "text_lines acc (x # xs) =
     (if x = ch_newline then (let (ls, r) = text_lines [] xs in (acc # ls, r)) else text_lines (acc @ [x]) xs)"

definition print_lines :: "u8 list \<Rightarrow> u8 list list \<Rightarrow> u8 list" where
  "print_lines pat ls = concat (map (\<lambda>l. l @ [ch_newline]) (filter (matches pat) ls))"

lemma text_lines_acc:
  "ch_newline \<notin> set xs \<Longrightarrow> text_lines acc (xs @ ch_newline # ys) = (let (ls, r) = text_lines [] ys in ((acc @ xs) # ls, r))"
  "ch_newline \<notin> set xs \<Longrightarrow> text_lines acc xs = ([], acc @ xs)"
  by (induction xs arbitrary: acc) auto

lemma find_newline_cases:
  assumes "0 \<notin> set p"
  shows "find_newline p = None \<Longrightarrow> ch_newline \<notin> set p"
    "find_newline p = Some (k, q) \<Longrightarrow> p = k @ ch_newline # q \<and> ch_newline \<notin> set k"
proof -
  let ?k = "takeWhile (\<lambda>b. b \<noteq> 0 \<and> b \<noteq> ch_newline) p" let ?d = "dropWhile (\<lambda>b. b \<noteq> 0 \<and> b \<noteq> ch_newline) p"
  have d: "drop (length ?k) p = ?d" by (simp add: dropWhile_eq_drop)
  have k: "ch_newline \<notin> set ?k" by (auto dest: set_takeWhileD)
  have h: "?d \<noteq> [] \<Longrightarrow> hd ?d = ch_newline" 
  proof -
    assume n: "?d \<noteq> []"
    have "hd ?d \<in> set p" using hd_in_set [OF n] by (rule set_dropWhileD)
    then have "hd ?d \<noteq> 0" using assms by metis
    then show ?thesis using hd_dropWhile [OF n] by blast
  qed
  show "ch_newline \<notin> set p" if "find_newline p = None"
  proof -
    have "?d = []"
    proof (rule ccontr)
      assume n: "?d \<noteq> []"
      show False using that h [OF n] n unfolding find_newline_def Let_def d by simp
    qed
    then show ?thesis by auto
  qed
  show "p = k @ ch_newline # q \<and> ch_newline \<notin> set k" if "find_newline p = Some (k, q)"
  proof -
    have e: "k = ?k" "q = tl ?d" "?d \<noteq> []" "hd ?d = ch_newline"
      using that unfolding find_newline_def Let_def d by (simp_all split: if_split_asm del: dropWhile_eq_Nil_conv)
    have "ch_newline # q = ?d" using list.collapse [OF e(3)] unfolding e(4) e(2) [symmetric] .
    moreover have "?k @ ?d = p" by (rule takeWhile_dropWhile_id)
    ultimately show ?thesis using k unfolding e(1) [symmetric] by simp
  qed
qed

lemma grep_lines_correct:
  "0 \<notin> set p \<Longrightarrow> grep_lines pat p = (print_lines pat (fst (text_lines [] p)), snd (text_lines [] p))"
proof (induction pat p rule: grep_lines.induct)
  case (1 pat p)
  show ?case
  proof (cases "find_newline p")
    case None
    then show ?thesis using find_newline_cases(1) [OF 1(2) None]
      by (simp add: grep_lines.simps [of pat p] text_lines_acc(2) print_lines_def)
  next
    case (Some kq)
    obtain k q where kq: "kq = (k, q)" by (cases kq)
    have p: "p = k @ ch_newline # q" "ch_newline \<notin> set k" using find_newline_cases(2) [OF 1(2)] Some kq by auto
    have "grep_lines pat q = (print_lines pat (fst (text_lines [] q)), snd (text_lines [] q))"
      using 1(1) [of "(k, q)" k q] Some kq 1(2) p by simp
    then show ?thesis using Some kq p
      by (simp add: grep_lines.simps [of pat "k @ ch_newline # q"] text_lines_acc(1) print_lines_def match_matches split_beta Let_def)
  qed
qed

lemma text_lines_append:
  "text_lines acc (xs @ ys) = (let (ls, r) = text_lines acc xs; (ls', r') = text_lines r ys in (ls @ ls', r'))"
  by (induction acc xs rule: text_lines.induct) (auto split: prod.splits)

lemma text_lines_rest: "ch_newline \<notin> set acc \<Longrightarrow> ch_newline \<notin> set (snd (text_lines acc xs)) \<and>
    set (snd (text_lines acc xs)) \<subseteq> set acc \<union> set xs \<and>
    length (snd (text_lines acc xs)) \<le> length acc + length xs - (if ch_newline \<in> set xs then 1 else 0)"
  by (induction acc xs rule: text_lines.induct) (auto split: prod.splits if_splits)

lemma text_lines_start: "ch_newline \<notin> set acc \<Longrightarrow> text_lines [] (acc @ xs) = text_lines acc xs"
  by (simp add: text_lines_append text_lines_acc(2))

text \<open>A read that brings no newline is lost together with what was kept before it.\<close>

lemma grep_drops:
  assumes "chunk \<noteq> []" "ch_newline \<notin> set (kept @ chunk)" "0 \<notin> set (kept @ chunk)"
  shows "grep pat kept (chunk # chunks) = grep pat [] chunks"
  using assms by (simp add: grep_lines_correct text_lines_acc(2) print_lines_def)

lemma grep_kept:
  assumes "\<forall>c\<in>set chunks. ch_newline \<in> set c" "0 \<notin> set (kept @ concat chunks)" "ch_newline \<notin> set kept"
  shows "grep pat kept chunks = print_lines pat (fst (text_lines kept (concat chunks)))"
  using assms
proof (induction chunks arbitrary: kept)
  case (Cons chunk chunks)
  let ?t = "text_lines [] (kept @ chunk)"
  have t: "?t = text_lines kept chunk" by (rule text_lines_start) (use Cons.prems in simp)
  have r: "ch_newline \<notin> set (snd ?t)" "set (snd ?t) \<subseteq> set kept \<union> set chunk" "length (snd ?t) < length (kept @ chunk)"
  proof -
    have c: "ch_newline \<in> set chunk" "0 < length chunk" "ch_newline \<notin> set kept"
      using Cons.prems length_pos_if_in_set [of ch_newline chunk] by auto
    note q = text_lines_rest [OF c(3), of chunk, folded t]
    show "ch_newline \<notin> set (snd ?t)" "set (snd ?t) \<subseteq> set kept \<union> set chunk" using q by blast+
    have "length (snd ?t) \<le> length kept + length chunk - 1" using q c(1) by simp
    then show "length (snd ?t) < length (kept @ chunk)" using c(2) unfolding length_append by linarith
  qed
  have "grep pat kept (chunk # chunks) = print_lines pat (fst ?t) @ grep pat (snd ?t) chunks"
  proof -
    have "chunk \<noteq> []" "snd ?t \<noteq> kept @ chunk" using Cons.prems r(3) by auto
    moreover have "grep_lines pat (kept @ chunk) = (print_lines pat (fst ?t), snd ?t)"
      by (rule grep_lines_correct) (use Cons.prems in simp)
    ultimately show ?thesis by (simp add: Let_def)
  qed
  also have "grep pat (snd ?t) chunks = print_lines pat (fst (text_lines (snd ?t) (concat chunks)))"
    by (rule Cons.IH) (use Cons.prems r in auto)
  finally show ?case unfolding t by (simp add: text_lines_append print_lines_def split_beta Let_def)
qed (simp add: print_lines_def)

text \<open>C40: \<^verbatim>\<open>grep\<close> ends and writes exactly the complete lines of its input that contain a match of the
  pattern in the sense of regular languages, in their order, provided every read returns a
  newline and the input holds no null byte; so the recursive matcher agrees with the language of the
  pattern on every line.\<close>

theorem grep_prints_matches:
  assumes "\<forall>c\<in>set chunks. ch_newline \<in> set c" "0 \<notin> set (concat chunks)"
  shows "grep pat [] chunks =
    concat (map (\<lambda>l. l @ [ch_newline]) (filter (matches pat) (fst (text_lines [] (concat chunks)))))"
  using grep_kept [of chunks "[]" pat] assms by (simp add: print_lines_def)

theorem grep_prints_matches_witness: "grep [98, 36] [] [[98, 97, 10, 97], [98, 10]] = [97, 98, 10]"
proof -
  have "text_lines [] (concat [[98, 97, 10, 97], [98, 10 :: u8]]) = ([[98, 97], [97, 98]], [])" by simp
  moreover have "\<not> matches [98, 36] [98, 97]" "matches [98, 36] [97, 98]"
    unfolding match_matches [symmetric] by (simp_all add: match_def matchhere.simps)
  ultimately show ?thesis using grep_prints_matches [of "[[98, 97, 10, 97], [98, 10]]" "[98, 36]"] by simp
qed

end
