(* ===== verification/Scsh.thy ===== *)
theory Scsh
  imports Xv6_Prelude
begin

text \<open>
  The parser of the Lisp shell, \<^verbatim>\<open>scsh.c\<close>. A pointer into the line is an index into the array that holds it; reading or writing
  past the end of the array is \<open>UB\<close>. Expressions are allocated with \<^verbatim>\<open>malloc\<close>, which is taken to succeed.
\<close>

section \<open>Expressions\<close>

text \<open>Expressions over the symbols \<open>'a\<close>, which for the parser are the indices of their beginning and end; \<open>Null\<close> is the null pointer.\<close>

datatype (atoms: 'a) sexp = Null | ATOM 'a | LIST "'a sexp list" | APPLY "'a sexp list"

abbreviation (input) MAXARGS :: nat where "MAXARGS \<equiv> 10"
abbreviation (input) ch_open :: u8 where "ch_open \<equiv> 40"
abbreviation (input) ch_close :: u8 where "ch_close \<equiv> 41"
abbreviation (input) ch_quote :: u8 where "ch_quote \<equiv> 39"

definition swhitespace :: "u8 list" where
  "swhitespace = [32, 9, 13, 10, 11]"

definition esymbols :: "u8 list" where
  "esymbols = [40, 41]"

definition rd :: "u8 list \<Rightarrow> nat \<Rightarrow> u8 outcome" where
  "rd buf i = (if i < length buf then Ok (buf ! i) else UB)"

section \<open>The parser\<close>

text \<open>The loops that advance over bytes with a property.\<close>

function scan_while :: "(u8 \<Rightarrow> bool) \<Rightarrow> u8 list \<Rightarrow> nat \<Rightarrow> nat \<Rightarrow> nat outcome" where
  "scan_while P buf s es =
     (if s < es then bindo (rd buf s) (\<lambda>c. if P c then scan_while P buf (s + 1) es else Ok s) else Ok s)"
  by pat_completeness auto
termination by (relation "measure (\<lambda>(P, buf, s, es). es - s)") auto

declare scan_while.simps [simp del]

definition is_ws :: "u8 \<Rightarrow> bool" where
  "is_ws c \<longleftrightarrow> c \<in> set swhitespace"

definition is_plain :: "u8 \<Rightarrow> bool" where
  "is_plain c \<longleftrightarrow> c \<notin> set swhitespace \<and> c \<notin> set esymbols"

text \<open>The loop of \<^verbatim>\<open>parselist\<close> that looks for the closing parenthesis.\<close>

function scan_close :: "u8 list \<Rightarrow> nat \<Rightarrow> nat \<Rightarrow> int \<Rightarrow> nat outcome" where
  "scan_close buf res es i =
     (if res < es
      then bindo (rd buf res) (\<lambda>c.
        let i = (if c = ch_open then i + 1 else i) in
        if c = ch_close
        then (if i - 1 = 0 then Ok res else scan_close buf (res + 1) es (i - 1))
        else scan_close buf (res + 1) es i)
      else Ok res)"
  by pat_completeness auto
termination by (relation "measure (\<lambda>(buf, res, es, i). es - res)") auto

declare scan_close.simps [simp del]

text \<open>\<^verbatim>\<open>parselist\<close> is given the recursive call of \<^verbatim>\<open>parsesexp\<close>; its loop takes \<open>MAXARGS\<close> elements at most.\<close>

type_synonym span = "nat \<times> nat"
type_synonym reader = "nat \<Rightarrow> nat \<Rightarrow> (span sexp \<times> nat) outcome"

fun parseitems :: "reader \<Rightarrow> nat \<Rightarrow> nat \<Rightarrow> nat \<Rightarrow> (span sexp list \<times> nat) outcome" where
  "parseitems pe 0 ps res = Ok ([], ps)"
| "parseitems pe (Suc k) ps res =
     (if ps < res
      then bindo (pe ps res) (\<lambda>(x, ps). bindo (parseitems pe k ps res) (\<lambda>(xs, ps). Ok (x # xs, ps)))
      else Ok ([], ps))"

definition parselist :: "reader \<Rightarrow> u8 list \<Rightarrow> nat \<Rightarrow> nat \<Rightarrow> (span sexp list \<times> nat) outcome" where
  "parselist pe buf ps es =
     bindo (scan_close buf ps es 1) (\<lambda>res.
     if res = es then Panic ''syntax error'' else parseitems pe MAXARGS ps res)"

definition parseatom :: "u8 list \<Rightarrow> nat \<Rightarrow> nat \<Rightarrow> (span sexp \<times> nat) outcome" where
  "parseatom buf ps es = bindo (scan_while is_plain buf ps es) (\<lambda>e. Ok (ATOM (ps, e), e))"

text \<open>The recursion has the fuel \<open>n\<close>; \<open>Wait\<close> says that it is used up.\<close>

primrec parsesexp :: "nat \<Rightarrow> u8 list \<Rightarrow> reader" where
  "parsesexp 0 buf ps es = Wait"
| "parsesexp (Suc n) buf ps es =
     bindo (scan_while is_ws buf ps es) (\<lambda>ps.
     bindo (rd buf ps) (\<lambda>c.
       if c = 0 then Ok (Null, ps)
       else if c = ch_open then bindo (parselist (parsesexp n buf) buf (ps + 1) es) (\<lambda>(xs, ps). Ok (APPLY xs, ps + 1))
       else if c = ch_quote then bindo (parselist (parsesexp n buf) buf (ps + 2) es) (\<lambda>(xs, ps). Ok (LIST xs, ps + 1))
       else parseatom buf ps es))"

fun snulterminate :: "span sexp \<Rightarrow> u8 list \<Rightarrow> u8 list outcome" and
    snulterminates :: "span sexp list \<Rightarrow> u8 list \<Rightarrow> u8 list outcome" where
  "snulterminate Null buf = Ok buf"
| "snulterminate (ATOM (s, e)) buf = (if e < length buf then Ok (buf[e := 0]) else UB)"
| "snulterminate (LIST xs) buf = snulterminates xs buf"
| "snulterminate (APPLY xs) buf = snulterminates xs buf"
| "snulterminates [] buf = Ok buf"
| "snulterminates (x # xs) buf = bindo (snulterminate x buf) (snulterminates xs)"

definition slen :: "u8 list \<Rightarrow> nat" where
  "slen buf = length (takeWhile (\<lambda>c. c \<noteq> 0) buf)"

text \<open>\<^verbatim>\<open>parseexp\<close> on the array with the line; the result is the expression and the array with the atoms terminated.\<close>

definition parseexp :: "u8 list \<Rightarrow> (span sexp \<times> u8 list) outcome" where
  "parseexp buf =
     (let es = slen buf in
      bindo (parsesexp (Suc es) buf 0 es) (\<lambda>(exp, s).
      bindo (scan_while is_ws buf s es) (\<lambda>s.
      bindo (rd buf s) (\<lambda>_.
      if s \<noteq> es then Panic ''syntax error''
      else bindo (snulterminate exp buf) (\<lambda>buf. Ok (exp, buf))))))"

definition cstring :: "u8 list \<Rightarrow> span \<Rightarrow> u8 list" where
  "cstring buf = (\<lambda>(s, _). takeWhile (\<lambda>c. c \<noteq> 0) (drop s buf))"

section \<open>Printing and parsing\<close>

text \<open>An expression as it is written: the elements of a list separated by single spaces.\<close>

fun pr :: "u8 list sexp \<Rightarrow> u8 list" and prt :: "u8 list sexp list \<Rightarrow> u8 list" where
  "pr Null = []"
| "pr (ATOM w) = w"
| "pr (LIST xs) = ch_quote # ch_open # tl (prt xs) @ [ch_close]"
| "pr (APPLY xs) = ch_open # tl (prt xs) @ [ch_close]"
| "prt [] = []"
| "prt (x # xs) = 32 # pr x @ prt xs"

definition solid :: "u8 \<Rightarrow> bool" where
  "solid c \<longleftrightarrow> is_plain c \<and> c \<noteq> 0"

definition word_ok :: "u8 list \<Rightarrow> bool" where
  "word_ok w \<longleftrightarrow> w \<noteq> [] \<and> hd w \<noteq> ch_quote \<and> list_all solid w"

fun wf :: "u8 list sexp \<Rightarrow> bool" where
  "wf Null = False"
| "wf (ATOM w) = word_ok w"
| "wf (LIST xs) = (length xs \<le> MAXARGS \<and> (\<forall>x \<in> set xs. wf x))"
| "wf (APPLY xs) = (length xs \<le> MAXARGS \<and> (\<forall>x \<in> set xs. wf x))"

lemma scan_while_exact:
  "list_all P w \<Longrightarrow> length pre + length w \<le> es \<Longrightarrow> length pre + length w = es \<or> (post \<noteq> [] \<and> \<not> P (hd post)) \<Longrightarrow>
   scan_while P (pre @ w @ post) (length pre) es = Ok (length pre + length w)"
proof (induction w arbitrary: pre)
  case Nil
  then show ?case by (cases post) (auto simp: scan_while.simps [of P _ "length pre"] rd_def nth_append)
next
  case (Cons c w)
  have "scan_while P (pre @ (c # w) @ post) (length pre) es = scan_while P ((pre @ [c]) @ w @ post) (length (pre @ [c])) es"
    using Cons.prems by (subst scan_while.simps) (auto simp: rd_def nth_append)
  then show ?case using Cons.IH [of "pre @ [c]"] Cons.prems by simp
qed

text \<open>Text over which the search for the closing parenthesis passes.\<close>

definition skips :: "u8 list \<Rightarrow> bool" where
  "skips s \<longleftrightarrow> (\<forall>pre post es i. length pre + length s \<le> es \<longrightarrow> 1 \<le> i \<longrightarrow>
     scan_close (pre @ s @ post) (length pre) es i = scan_close (pre @ s @ post) (length pre + length s) es i)"

lemma skipsI:
  "(\<And>pre post es i. length pre + length s \<le> es \<Longrightarrow> 1 \<le> i \<Longrightarrow>
     scan_close (pre @ s @ post) (length pre) es i = scan_close (pre @ s @ post) (length pre + length s) es i) \<Longrightarrow> skips s"
  by (simp add: skips_def)

lemma skipsD:
  "skips s \<Longrightarrow> length pre + length s \<le> es \<Longrightarrow> 1 \<le> i \<Longrightarrow>
   scan_close (pre @ s @ post) (length pre) es i = scan_close (pre @ s @ post) (length pre + length s) es i"
  by (simp add: skips_def)

lemma skips_Nil: "skips []"
  by (simp add: skips_def)

lemma skips_append: "skips s \<Longrightarrow> skips t \<Longrightarrow> skips (s @ t)"
proof (rule skipsI)
  fix pre post :: "u8 list" and es :: nat and i :: int
  assume "skips s" "skips t" and l: "length pre + length (s @ t) \<le> es" "1 \<le> (i :: int)"
  then show "scan_close (pre @ (s @ t) @ post) (length pre) es i = scan_close (pre @ (s @ t) @ post) (length pre + length (s @ t)) es i"
    using skipsD [of s pre es i "t @ post"] skipsD [of t "pre @ s" es i post] by (simp add: add.assoc)
qed

lemma skips_plain: "c \<noteq> ch_open \<Longrightarrow> c \<noteq> ch_close \<Longrightarrow> skips [c]"
  by (rule skipsI, subst scan_close.simps) (simp add: rd_def)

lemma skips_paren: "skips s \<Longrightarrow> skips (ch_open # s @ [ch_close])"
proof (rule skipsI)
  fix pre post :: "u8 list" and es :: nat and i :: int
  assume s: "skips s" and l: "length pre + length (ch_open # s @ [ch_close]) \<le> es" "1 \<le> (i :: int)"
  let ?b = "pre @ (ch_open # s @ [ch_close]) @ post"
  have "scan_close ?b (length pre) es i = scan_close ?b (length pre + 1) es (i + 1)"
    using l by (subst scan_close.simps) (simp add: rd_def)
  also have "\<dots> = scan_close ?b (length pre + 1 + length s) es (i + 1)"
    using skipsD [OF s, of "pre @ [ch_open]" es "i + 1" "ch_close # post"] l by simp
  also have "\<dots> = scan_close ?b (length pre + length (ch_open # s @ [ch_close])) es i"
    using l by (subst scan_close.simps) (simp add: rd_def nth_append)
  finally show "scan_close ?b (length pre) es i = scan_close ?b (length pre + length (ch_open # s @ [ch_close])) es i" .
qed

lemma skips_word: "list_all solid w \<Longrightarrow> skips w"
proof (induction w)
  case (Cons c w)
  then have "skips [c]" by (intro skips_plain) (auto simp: solid_def is_plain_def esymbols_def)
  then show ?case using Cons skips_append [of "[c]" w] by simp
qed (simp add: skips_Nil)

lemma skips_pr: "wf x \<Longrightarrow> skips (pr x)" "\<forall>x \<in> set xs. wf x \<Longrightarrow> skips (prt xs) \<and> skips (tl (prt xs))"
proof (induction x and xs rule: pr_prt.induct)
  case (2 w) then show ?case by (simp add: word_ok_def skips_word)
next
  case (3 xs)
  then have "skips ([ch_quote] @ (ch_open # tl (prt xs) @ [ch_close]))" by (intro skips_append skips_plain skips_paren) auto
  then show ?case by simp
next
  case (4 xs) then show ?case using skips_paren by auto
next
  case (6 x xs)
  then have "skips (pr x @ prt xs)" by (intro skips_append) auto
  then show ?case using skips_append [OF skips_plain, of 32 "pr x @ prt xs"] by simp
qed (simp_all add: skips_Nil)

lemma close_found:
  assumes "skips s" "length pre + length s < es"
  shows "scan_close (pre @ s @ ch_close # post) (length pre) es 1 = Ok (length pre + length s)"
proof -
  have "scan_close (pre @ s @ ch_close # post) (length pre) es 1 = scan_close (pre @ s @ ch_close # post) (length pre + length s) es 1"
    using skipsD [OF assms(1), of pre es 1] assms(2) by simp
  then show ?thesis using assms(2) by (simp add: scan_close.simps [of _ "length pre + length s"] rd_def nth_append)
qed

text \<open>The expression \<open>x\<close>, read off an expression with spans into \<open>buf\<close>.\<close>

definition span_ok :: "u8 list \<Rightarrow> span \<Rightarrow> bool" where
  "span_ok buf = (\<lambda>(s, e). s \<le> e \<and> e < length buf \<and> \<not> solid (buf ! e) \<and> (\<forall>i. s \<le> i \<longrightarrow> i < e \<longrightarrow> solid (buf ! i)))"

definition span_word :: "u8 list \<Rightarrow> span \<Rightarrow> u8 list" where
  "span_word buf = (\<lambda>(s, e). take (e - s) (drop s buf))"

definition denotes :: "u8 list \<Rightarrow> span sexp \<Rightarrow> u8 list sexp \<Rightarrow> bool" where
  "denotes buf e x \<longleftrightarrow> map_sexp (span_word buf) e = x \<and> (\<forall>p \<in> atoms e. span_ok buf p)"

lemma denotes_list:
  assumes "list_all2 (denotes buf) es xs"
  shows "denotes buf (LIST es) (LIST xs)" "denotes buf (APPLY es) (APPLY xs)"
proof -
  have "map (map_sexp (span_word buf)) es = xs \<and> (\<forall>e \<in> set es. \<forall>p \<in> atoms e. span_ok buf p)"
    using assms by (induction rule: list_all2_induct) (auto simp: denotes_def)
  then show "denotes buf (LIST es) (LIST xs)" "denotes buf (APPLY es) (APPLY xs)" by (auto simp: denotes_def)
qed

text \<open>\<open>parsesexp\<close> with the fuel \<open>n\<close> reads \<open>x\<close>, after white space and before a delimiter or the end of the text.\<close>

definition delim :: "bool \<Rightarrow> u8 list \<Rightarrow> bool" where
  "delim at_end post \<longleftrightarrow> post \<noteq> [] \<and> \<not> solid (hd post) \<and> (hd post = 0 \<longrightarrow> at_end)"

definition parses :: "nat \<Rightarrow> u8 list sexp \<Rightarrow> bool" where
  "parses n x \<longleftrightarrow> (\<forall>pre w post es. list_all is_ws w \<longrightarrow> length (pre @ w @ pr x) \<le> es \<longrightarrow> delim (length (pre @ w @ pr x) = es) post \<longrightarrow>
     (\<exists>e. parsesexp n (pre @ w @ pr x @ post) (length pre) es = Ok (e, length (pre @ w @ pr x)) \<and> denotes (pre @ w @ pr x @ post) e x))"

lemma first_char: "wf x \<Longrightarrow> \<exists>c cs. pr x = c # cs \<and> \<not> is_ws c \<and> c \<noteq> 0 \<and> c \<noteq> ch_close"
  by (cases x) (auto simp: word_ok_def list_all_iff solid_def is_plain_def is_ws_def neq_Nil_conv swhitespace_def esymbols_def)

lemma parses_word:
  assumes w: "word_ok u"
  shows "parses (Suc n) (ATOM u)"
  unfolding parses_def
proof (intro allI impI)
  fix pre w post es
  let ?b = "pre @ w @ pr (ATOM u) @ post" let ?p = "length pre + length w"
  assume a: "list_all is_ws w" "length (pre @ w @ pr (ATOM u)) \<le> es" "delim (length (pre @ w @ pr (ATOM u)) = es) post"
  obtain c cs where u: "u = c # cs" "solid c" "c \<noteq> ch_quote" "list_all solid cs" using w by (cases u) (auto simp: word_ok_def)
  have s1: "scan_while is_ws ?b (length pre) es = Ok ?p"
    using scan_while_exact [OF a(1), of pre es "u @ post"] a(2) u by (simp add: solid_def is_plain_def is_ws_def)
  have r: "rd ?b ?p = Ok c" using u(1) by (simp add: rd_def nth_append)
  have "?p + length u = es \<or> (post \<noteq> [] \<and> \<not> is_plain (hd post))" using a(3) by (auto simp: delim_def solid_def add.assoc)
  then have s2: "scan_while is_plain ?b ?p es = Ok (?p + length u)"
    using scan_while_exact [of is_plain u "pre @ w" es post] a(2) w by (auto simp: word_ok_def list_all_iff solid_def add.assoc)
  have "parsesexp (Suc n) ?b (length pre) es = Ok (ATOM (?p, ?p + length u), length (pre @ w @ pr (ATOM u)))"
    using u s1 r s2 by (simp add: parseatom_def solid_def is_plain_def esymbols_def)
  moreover have "span_ok ?b (?p, ?p + length u)"
    using a(3) w by (auto simp: span_ok_def delim_def word_ok_def list_all_length nth_append hd_conv_nth)
  moreover have "span_word ?b (?p, ?p + length u) = u" by (simp add: span_word_def)
  ultimately show "\<exists>e. parsesexp (Suc n) ?b (length pre) es = Ok (e, length (pre @ w @ pr (ATOM u))) \<and> denotes ?b e (ATOM u)"
    by (intro exI [of _ "ATOM (?p, ?p + length u)"]) (simp add: denotes_def)
qed

lemma parsesD:
  "parses n x \<Longrightarrow> list_all is_ws w \<Longrightarrow> length (pre @ w @ pr x) \<le> es \<Longrightarrow> delim (length (pre @ w @ pr x) = es) post \<Longrightarrow>
   \<exists>e. parsesexp n (pre @ w @ pr x @ post) (length pre) es = Ok (e, length (pre @ w @ pr x)) \<and> denotes (pre @ w @ pr x @ post) e x"
  by (simp add: parses_def)

text \<open>The elements of a list after the first.\<close>

lemma parseitems_rest:
  "\<forall>x \<in> set xs. parses n x \<Longrightarrow> length xs \<le> k \<Longrightarrow>
   \<exists>es. parseitems (parsesexp n (pre @ prt xs @ ch_close # post)) k (length pre) (length pre + length (prt xs)) = Ok (es, length pre + length (prt xs)) \<and>
     list_all2 (denotes (pre @ prt xs @ ch_close # post)) es xs"
proof (induction xs arbitrary: pre k)
  case Nil then show ?case by (cases k) simp_all
next
  case (Cons x xs)
  let ?b = "pre @ prt (x # xs) @ ch_close # post" let ?r = "length pre + length (prt (x # xs))"
  obtain k' where k: "k = Suc k'" "length xs \<le> k'" using Cons.prems(2) by (cases k) auto
  have d: "delim b (prt xs @ ch_close # post)" for b
    by (cases xs) (auto simp: delim_def solid_def is_plain_def swhitespace_def esymbols_def)
  have w: "list_all is_ws [32]" by (simp add: is_ws_def swhitespace_def)
  obtain e where e: "parsesexp n ?b (length pre) ?r = Ok (e, length (pre @ [32] @ pr x))" "denotes ?b e x"
    using parsesD [of n x "[32]" pre ?r, OF _ w _ d] Cons.prems(1) by auto
  obtain es where "parseitems (parsesexp n ?b) k' (length (pre @ [32] @ pr x)) ?r = Ok (es, ?r)" "list_all2 (denotes ?b) es xs"
    using Cons.IH [of k' "pre @ [32] @ pr x"] Cons.prems(1) k(2) by (auto simp: add.assoc)
  then show ?case using e k(1) by (intro exI [of _ "e # es"]) (simp add: add.assoc)
qed

lemma parseitems_all:
  fixes pre post :: "u8 list"
  assumes p: "\<forall>x \<in> set xs. parses n x" "length xs \<le> k" and wf: "\<forall>x \<in> set xs. wf x"
  defines "b \<equiv> pre @ tl (prt xs) @ ch_close # post" and "r \<equiv> length pre + length (tl (prt xs))"
  shows "\<exists>es. parseitems (parsesexp n b) k (length pre) r = Ok (es, r) \<and> list_all2 (denotes b) es xs"
proof (cases xs)
  case Nil then show ?thesis by (cases k) (simp_all add: b_def r_def)
next
  case (Cons x ys)
  obtain k' where k: "k = Suc k'" "length ys \<le> k'" using p(2) Cons by (cases k) auto
  have d: "delim c (prt ys @ ch_close # post)" for c
    by (cases ys) (auto simp: delim_def solid_def is_plain_def swhitespace_def esymbols_def)
  obtain e where e: "parsesexp n b (length pre) r = Ok (e, length (pre @ pr x))" "denotes b e x"
    using parsesD [of n x "[]" pre r, OF _ _ _ d] p(1) Cons by (auto simp: b_def r_def)
  obtain es where "parseitems (parsesexp n b) k' (length (pre @ pr x)) r = Ok (es, r)" "list_all2 (denotes b) es ys"
    using parseitems_rest [of ys n k' "pre @ pr x" post] p(1) k(2) Cons by (auto simp: add.assoc b_def r_def)
  moreover have "length pre < r" using first_char [of x] wf Cons by (auto simp: r_def)
  ultimately show ?thesis using e k(1) Cons by (intro exI [of _ "e # es"]) simp
qed

lemma parselist_reads:
  fixes pre post :: "u8 list"
  assumes p: "\<forall>x \<in> set xs. parses n x" "length xs \<le> MAXARGS" and wf: "\<forall>x \<in> set xs. wf x" and es: "length pre + length (tl (prt xs)) < es"
  defines "b \<equiv> pre @ tl (prt xs) @ ch_close # post"
  shows "\<exists>ys. parselist (parsesexp n b) b (length pre) es = Ok (ys, length pre + length (tl (prt xs))) \<and> list_all2 (denotes b) ys xs"
  using close_found [of "tl (prt xs)" pre es post] skips_pr(2) [OF wf] es parseitems_all [OF p wf, of pre post]
  by (auto simp: parselist_def b_def)

lemma length_elem: "x \<in> set xs \<Longrightarrow> length (pr x) \<le> length (tl (prt xs))"
proof (induction xs)
  case (Cons y ys)
  have "length (tl (prt ys)) \<le> length (prt ys)" by simp
  then show ?case using Cons by auto
qed simp

lemma parses_wf: "wf x \<Longrightarrow> length (pr x) < n \<Longrightarrow> parses n x"
proof (induction x arbitrary: n)
  case (ATOM w) then show ?case using parses_word by (cases n) auto
next
  case (APPLY xs)
  obtain m where n: "n = Suc m" using APPLY.prems(2) by (cases n) auto
  have p: "\<forall>x \<in> set xs. parses m x" using APPLY length_elem n by fastforce
  have l: "length xs \<le> MAXARGS" "\<forall>x \<in> set xs. wf x" using APPLY.prems(1) by simp_all
  show ?case unfolding parses_def
  proof (intro allI impI)
    fix pre w post :: "u8 list" and es :: nat
    let ?b = "pre @ w @ pr (APPLY xs) @ post" let ?p = "length pre + length w"
    assume a: "list_all is_ws w" "length (pre @ w @ pr (APPLY xs)) \<le> es" "delim (length (pre @ w @ pr (APPLY xs)) = es) post"
    have s1: "scan_while is_ws ?b (length pre) es = Ok ?p"
      using scan_while_exact [OF a(1), of pre es "pr (APPLY xs) @ post"] a(2) by (simp add: is_ws_def swhitespace_def)
    have r: "rd ?b ?p = Ok ch_open" by (simp add: rd_def nth_append)
    obtain ys where y: "parselist (parsesexp m ?b) ?b (?p + 1) es = Ok (ys, ?p + 1 + length (tl (prt xs)))" "list_all2 (denotes ?b) ys xs"
      using parselist_reads [OF p l, of "pre @ w @ [ch_open]" es post] a(2) by auto
    show "\<exists>e. parsesexp n ?b (length pre) es = Ok (e, length (pre @ w @ pr (APPLY xs))) \<and> denotes ?b e (APPLY xs)"
      using s1 r y denotes_list(2) [OF y(2)] n by (intro exI [of _ "APPLY ys"]) simp
  qed
next
  case (LIST xs)
  obtain m where n: "n = Suc m" using LIST.prems(2) by (cases n) auto
  have p: "\<forall>x \<in> set xs. parses m x" using LIST length_elem n by fastforce
  have l: "length xs \<le> MAXARGS" "\<forall>x \<in> set xs. wf x" using LIST.prems(1) by simp_all
  show ?case unfolding parses_def
  proof (intro allI impI)
    fix pre w post :: "u8 list" and es :: nat
    let ?b = "pre @ w @ pr (LIST xs) @ post" let ?p = "length pre + length w"
    assume a: "list_all is_ws w" "length (pre @ w @ pr (LIST xs)) \<le> es" "delim (length (pre @ w @ pr (LIST xs)) = es) post"
    have s1: "scan_while is_ws ?b (length pre) es = Ok ?p"
      using scan_while_exact [OF a(1), of pre es "pr (LIST xs) @ post"] a(2) by (simp add: is_ws_def swhitespace_def)
    have r: "rd ?b ?p = Ok ch_quote" by (simp add: rd_def nth_append)
    obtain ys where y: "parselist (parsesexp m ?b) ?b (?p + 2) es = Ok (ys, ?p + 2 + length (tl (prt xs)))" "list_all2 (denotes ?b) ys xs"
      using parselist_reads [OF p l, of "pre @ w @ [ch_quote, ch_open]" es post] a(2) by auto
    show "\<exists>e. parsesexp n ?b (length pre) es = Ok (e, length (pre @ w @ pr (LIST xs))) \<and> denotes ?b e (LIST xs)"
      using s1 r y denotes_list(1) [OF y(2)] n by (intro exI [of _ "LIST ys"]) simp
  qed
qed simp

text \<open>Terminating the symbols.\<close>

lemma snulterminate_ends:
  "\<forall>p \<in> atoms e. snd p < length buf \<Longrightarrow> \<exists>b. snulterminate e buf = Ok b \<and> length b = length buf \<and>
     (\<forall>i < length buf. b ! i = (if i \<in> snd ` atoms e then 0 else buf ! i))"
  "\<forall>e \<in> set es. \<forall>p \<in> atoms e. snd p < length buf \<Longrightarrow> \<exists>b. snulterminates es buf = Ok b \<and> length b = length buf \<and>
     (\<forall>i < length buf. b ! i = (if i \<in> snd ` (\<Union>e \<in> set es. atoms e) then 0 else buf ! i))"
proof (induction e buf and es buf rule: snulterminate_snulterminates.induct)
  case (6 x xs buf)
  then obtain b where b: "snulterminate x buf = Ok b" "length b = length buf" "\<forall>i < length buf. b ! i = (if i \<in> snd ` atoms x then 0 else buf ! i)"
    by auto
  obtain c where c: "snulterminates xs b = Ok c" "length c = length b"
    "\<forall>i < length b. c ! i = (if i \<in> snd ` (\<Union>e \<in> set xs. atoms e) then 0 else b ! i)" using 6 b by fastforce
  show ?case using b c by (intro exI [of _ c]) (simp add: image_Un)
qed (auto simp: nth_list_update)

lemma terminated_word:
  assumes ok: "\<forall>p \<in> atoms e. span_ok buf p" and b: "length b = length buf" "\<forall>i < length buf. b ! i = (if i \<in> snd ` atoms e then 0 else buf ! i)"
    and p: "p \<in> atoms e"
  shows "cstring b p = span_word buf p"
proof -
  obtain s t where st: "p = (s, t)" "s \<le> t" "t < length buf" "\<And>i. s \<le> i \<Longrightarrow> i < t \<Longrightarrow> solid (buf ! i)" using ok p by (cases p) (auto simp: span_ok_def)
  have n: "b ! i = buf ! i" "buf ! i \<noteq> 0" if "s \<le> i" "i < t" for i
  proof -
    have "i \<notin> snd ` atoms e" using st(4) [OF that] ok by (force simp: span_ok_def)
    then show "b ! i = buf ! i" using b(2) that st(3) by simp
    show "buf ! i \<noteq> 0" using st(4) [OF that] by (simp add: solid_def)
  qed
  have "t \<in> snd ` atoms e" using p st(1) by force
  then have z: "b ! t = 0" using b(2) st(3) by simp
  have "takeWhile (\<lambda>c. c \<noteq> 0) (drop s b) = take (t - s) (drop s b)"
    by (rule takeWhile_eq_take_P_nth) (use n z st(2,3) b(1) in auto)
  also have "\<dots> = take (t - s) (drop s buf)" using n st(2,3) b(1) by (intro nth_equalityI) auto
  finally show ?thesis by (simp add: cstring_def span_word_def st(1))
qed

lemma pr_no_null: "wf x \<Longrightarrow> 0 \<notin> set (pr x)" "\<forall>x \<in> set xs. wf x \<Longrightarrow> 0 \<notin> set (prt xs) \<and> 0 \<notin> set (tl (prt xs))"
  by (induction x and xs rule: pr_prt.induct) (auto simp: word_ok_def list_all_iff solid_def)

text \<open>C20: reading back a written expression: every expression of words and lists of at most ten elements, written out and followed by white space
  and the terminator, is parsed to an expression whose symbols, as C strings in the terminated line, make up the expression again.\<close>

theorem sexp_roundtrip:
  assumes wf: "wf x" and w: "list_all is_ws w"
  shows "\<exists>e b. parseexp (pr x @ w @ 0 # rest) = Ok (e, b) \<and> map_sexp (cstring b) e = x"
proof -
  let ?b = "pr x @ w @ 0 # rest" let ?es = "length (pr x) + length w"
  have nz: "0 \<notin> set (pr x @ w)" using pr_no_null(1) [OF wf] w by (auto simp: list_all_iff is_ws_def swhitespace_def)
  have "takeWhile (\<lambda>c. c \<noteq> 0) ((pr x @ w) @ 0 # rest) = pr x @ w" using nz by (subst takeWhile_append2) auto
  then have es: "slen ?b = ?es" by (simp add: slen_def)
  have d: "delim (length (pr x) = ?es) (w @ 0 # rest)" using w by (cases w) (auto simp: delim_def solid_def is_plain_def is_ws_def swhitespace_def)
  obtain e where e: "parsesexp (Suc ?es) ?b 0 ?es = Ok (e, length (pr x))" "denotes ?b e x"
    using parsesD [OF parses_wf [OF wf, of "Suc ?es"], of "[]" "[]" ?es] d by auto
  have s: "scan_while is_ws ?b (length (pr x)) ?es = Ok ?es" by (rule scan_while_exact [OF w]) simp_all
  have r: "rd ?b ?es = Ok 0" by (simp add: rd_def nth_append)
  have ok: "\<forall>p \<in> atoms e. span_ok ?b p" "map_sexp (span_word ?b) e = x" using e(2) by (simp_all add: denotes_def)
  then have "\<forall>p \<in> atoms e. snd p < length ?b" by (auto simp: span_ok_def)
  then obtain b where b: "snulterminate e ?b = Ok b" "length b = length ?b" "\<forall>i < length ?b. b ! i = (if i \<in> snd ` atoms e then 0 else ?b ! i)"
    using snulterminate_ends(1) by blast
  have "map_sexp (cstring b) e = map_sexp (span_word ?b) e" by (rule sexp.map_cong [OF refl]) (rule terminated_word [OF ok(1) b(2,3)])
  then show ?thesis using e(1) s r b(1) ok(2) es by (simp add: parseexp_def)
qed

theorem sexp_roundtrip_witness:
  "\<exists>e b. parseexp (bytes ''(if (equal n 0) '(a b) (minus n 1))'' @ [10, 0]) = Ok (e, b) \<and>
     map_sexp (cstring b) e = APPLY [ATOM (bytes ''if''), APPLY [ATOM (bytes ''equal''), ATOM (bytes ''n''), ATOM (bytes ''0'')],
       LIST [ATOM (bytes ''a''), ATOM (bytes ''b'')], APPLY [ATOM (bytes ''minus''), ATOM (bytes ''n''), ATOM (bytes ''1'')]]"
proof -
  let ?x = "APPLY [ATOM (bytes ''if''), APPLY [ATOM (bytes ''equal''), ATOM (bytes ''n''), ATOM (bytes ''0'')],
       LIST [ATOM (bytes ''a''), ATOM (bytes ''b'')], APPLY [ATOM (bytes ''minus''), ATOM (bytes ''n''), ATOM (bytes ''1'')]]"
  have wf: "wf ?x" by (simp add: word_ok_def bytes_def solid_def is_plain_def swhitespace_def esymbols_def)
  have "pr ?x @ [10] @ 0 # [] = bytes ''(if (equal n 0) '(a b) (minus n 1))'' @ [10, 0]" by (simp add: bytes_def)
  then show ?thesis using sexp_roundtrip [OF wf, of "[10]" "[]"] by (simp add: is_ws_def swhitespace_def)
qed

section \<open>Lines without quotes\<close>

lemma scan_while_total:
  assumes "es < length buf" "s \<le> es"
  shows "\<exists>q. scan_while P buf s es = Ok q \<and> s \<le> q \<and> q \<le> es"
  using assms(2)
proof (induction "es - s" arbitrary: s)
  case 0 then show ?case by (simp add: scan_while.simps [of P buf s])
next
  case (Suc n)
  then have s: "s < es" "rd buf s = Ok (buf ! s)" using assms(1) by (simp_all add: rd_def)
  have "\<exists>q. scan_while P buf (s + 1) es = Ok q \<and> s + 1 \<le> q \<and> q \<le> es" using Suc by (intro Suc.hyps(1)) auto
  then show ?case using s by (subst scan_while.simps) auto
qed

lemma scan_close_total:
  assumes "es < length buf" "r \<le> es"
  shows "\<exists>q. scan_close buf r es i = Ok q \<and> r \<le> q \<and> q \<le> es \<and> (q < es \<longrightarrow> buf ! q = ch_close)"
  using assms(2)
proof (induction "es - r" arbitrary: r i)
  case 0 then show ?case by (simp add: scan_close.simps [of buf r])
next
  case (Suc n)
  then have r: "r < es" "rd buf r = Ok (buf ! r)" using assms(1) by (simp_all add: rd_def)
  have "\<exists>q. scan_close buf (r + 1) es j = Ok q \<and> r + 1 \<le> q \<and> q \<le> es \<and> (q < es \<longrightarrow> buf ! q = ch_close)" for j
    using Suc by (intro Suc.hyps(1)) auto
  then show ?case using r by (subst scan_close.simps) (fastforce simp: Let_def)
qed

text \<open>A step of the parser ends within the text, or with the complaint about the syntax.\<close>

definition lands :: "u8 list \<Rightarrow> nat \<Rightarrow> nat \<Rightarrow> ('a \<Rightarrow> span set) \<Rightarrow> ('a \<times> nat) outcome \<Rightarrow> bool" where
  "lands buf ps es syms r \<longleftrightarrow> r = Panic ''syntax error'' \<or> (\<exists>x q. r = Ok (x, q) \<and> ps \<le> q \<and> q \<le> es \<and> (\<forall>p \<in> syms x. snd p < length buf))"

lemma parseitems_lands:
  assumes pe: "\<And>ps. lo \<le> ps \<Longrightarrow> ps < res \<Longrightarrow> lands buf ps res atoms (pe ps res)"
  shows "lo \<le> ps \<Longrightarrow> ps \<le> res \<Longrightarrow> lands buf ps res (\<lambda>xs. \<Union>x \<in> set xs. atoms x) (parseitems pe k ps res)"
proof (induction k arbitrary: ps)
  case 0 then show ?case by (simp add: lands_def)
next
  case (Suc k)
  show ?case
  proof (cases "ps < res")
    case False then show ?thesis using Suc.prems by (simp add: lands_def)
  next
    case True
    consider "pe ps res = Panic ''syntax error''" | x q where "pe ps res = Ok (x, q)" "ps \<le> q" "q \<le> res" "\<forall>p \<in> atoms x. snd p < length buf"
      using pe [OF Suc.prems(1) True] by (auto simp: lands_def)
    then show ?thesis
    proof cases
      case 1 then show ?thesis using True by (simp add: lands_def)
    next
      case 2
      then have "lands buf q res (\<lambda>xs. \<Union>x \<in> set xs. atoms x) (parseitems pe k q res)" using Suc by (intro Suc.IH) auto
      then show ?thesis using True 2 by (fastforce simp: lands_def)
    qed
  qed
qed

lemma parsesexp_lands:
  assumes "es < length buf" "buf ! es = 0 \<or> buf ! es = ch_close" "ps \<le> es" "es - ps < n" "\<forall>i < es. buf ! i \<noteq> ch_quote"
  shows "lands buf ps es atoms (parsesexp n buf ps es)"
  using assms
proof (induction n arbitrary: ps es)
  case (Suc n)
  obtain p where p: "scan_while is_ws buf ps es = Ok p" "ps \<le> p" "p \<le> es" using scan_while_total [OF Suc.prems(1,3)] by blast
  have r: "rd buf p = Ok (buf ! p)" using p(3) Suc.prems(1) by (simp add: rd_def)
  have nq: "buf ! p \<noteq> ch_quote" using Suc.prems(2,5) p(3) by (cases "p = es") auto
  consider "buf ! p = 0" | "buf ! p = ch_open" | "buf ! p \<noteq> 0" "buf ! p \<noteq> ch_open" by blast
  then show ?case
  proof cases
    case 1 then show ?thesis using p r by (simp add: lands_def)
  next
    case 2
    then have lt: "p + 1 \<le> es" using Suc.prems(2) p(3) by (cases "p = es") auto
    obtain q where q: "scan_close buf (p + 1) es 1 = Ok q" "p + 1 \<le> q" "q \<le> es" "q < es \<Longrightarrow> buf ! q = ch_close"
      using scan_close_total [OF Suc.prems(1) lt] by blast
    show ?thesis
    proof (cases "q = es")
      case True then show ?thesis using p r 2 q(1) by (simp add: parselist_def lands_def)
    next
      case False
      have "lands buf x q atoms (parsesexp n buf x q)" if "p + 1 \<le> x" "x < q" for x
        using that q False Suc.prems p by (intro Suc.IH) auto
      then have "lands buf (p + 1) q (\<lambda>xs. \<Union>x \<in> set xs. atoms x) (parseitems (parsesexp n buf) MAXARGS (p + 1) q)"
        by (rule parseitems_lands) (use q(2) in auto)
      then show ?thesis using p r 2 q False by (fastforce simp: parselist_def lands_def)
    qed
  next
    case 3
    obtain e where "scan_while is_plain buf p es = Ok e" "p \<le> e" "e \<le> es" using scan_while_total [OF Suc.prems(1) p(3)] by blast
    then show ?thesis using p r 3 nq Suc.prems(1) by (simp add: parseatom_def lands_def)
  qed
qed simp

text \<open>C21: on every line without a quote the parser of the Lisp shell returns: it gives an expression or reports a syntax error, and never
  reads or writes outside the array that holds the line.\<close>

theorem parseexp_safe:
  assumes "0 \<notin> set line" "ch_quote \<notin> set line"
  shows "parseexp (line @ 0 # rest) = Panic ''syntax error'' \<or> (\<exists>e b. parseexp (line @ 0 # rest) = Ok (e, b) \<and> length b = length (line @ 0 # rest))"
proof -
  let ?b = "line @ 0 # rest" let ?es = "length line"
  have "takeWhile (\<lambda>c. c \<noteq> 0) ?b = line" using assms(1) by (subst takeWhile_append2) auto
  then have es: "slen ?b = ?es" by (simp add: slen_def)
  have nq: "\<forall>i < ?es. ?b ! i \<noteq> ch_quote" using assms(2) by (simp add: nth_append) (metis nth_mem)
  consider "parsesexp (Suc ?es) ?b 0 ?es = Panic ''syntax error''"
    | e q where "parsesexp (Suc ?es) ?b 0 ?es = Ok (e, q)" "q \<le> ?es" "\<forall>p \<in> atoms e. snd p < length ?b"
    using parsesexp_lands [of ?es ?b 0 "Suc ?es"] nq by (auto simp: lands_def)
  then show ?thesis
  proof cases
    case 1 then show ?thesis by (simp add: parseexp_def es)
  next
    case 2
    obtain s where s: "scan_while is_ws ?b q ?es = Ok s" "s \<le> ?es" using scan_while_total [of ?es ?b q is_ws] 2(2) by auto
    obtain b where b: "snulterminate e ?b = Ok b" "length b = length ?b" using snulterminate_ends(1) [OF 2(3)] by blast
    show ?thesis using 2(1) s b by (simp add: parseexp_def es rd_def)
  qed
qed

theorem parseexp_safe_witness:
  "parseexp (bytes ''(con (ls) (cat README)'' @ 0 # []) = Panic ''syntax error'' \<or>
   (\<exists>e b. parseexp (bytes ''(con (ls) (cat README)'' @ 0 # []) = Ok (e, b) \<and> length b = length (bytes ''(con (ls) (cat README)'' @ 0 # []))"
  by (rule parseexp_safe) (simp_all add: bytes_def)

text \<open>A quote at the end of a list makes the parser step over the closing parenthesis and read beyond the array; white space before a closing
  parenthesis gives an empty symbol; and the eleventh element of a list is a syntax error.\<close>

lemma quote_at_end: "parseexp (bytes ''(a '))'' @ [0]) = UB"
  by code_simp

lemma trailing_space: "parseexp (bytes ''(a )'' @ [0]) = Ok (APPLY [ATOM (1, 2), ATOM (3, 3)], bytes ''(a'' @ [0, 0, 0])"
  by code_simp

lemma eleven_elements: "parseexp (bytes ''(a b c d e f g h i j k)'' @ [0]) = Panic ''syntax error''"
  by code_simp

end
