(* ===== verification/Umalloc.thy ===== *)
theory Umalloc
  imports Xv6_Prelude
begin

text \<open>
  The allocator of the user library, \<^verbatim>\<open>umalloc.c\<close>: a circular list of free blocks in the order of their
  addresses. Addresses and sizes count units of one header (8 bytes); the two fields of the header at an
  address are \<open>hptr\<close> and \<open>hsize\<close>. \<open>brk\<close> is the end of the memory of the process. Whether the
  kernel grants a change of the size is the parameter \<open>grant\<close>, of the old end and the number of bytes.
\<close>

section \<open>The allocator\<close>

record umem =
  hptr :: "nat \<Rightarrow> nat"
  hsize :: "nat \<Rightarrow> nat"
  base :: nat
  freep :: "nat option"
  brk :: nat

definition set_hptr :: "nat \<Rightarrow> nat \<Rightarrow> umem \<Rightarrow> umem" where
  "set_hptr p v m = m\<lparr>hptr := (hptr m)(p := v)\<rparr>"

definition set_hsize :: "nat \<Rightarrow> nat \<Rightarrow> umem \<Rightarrow> umem" where
  "set_hsize p v m = m\<lparr>hsize := (hsize m)(p := v)\<rparr>"

text \<open>The loop of \<^verbatim>\<open>free\<close> that finds the free block after which the block \<open>bp\<close> belongs.\<close>

partial_function (option) free_find :: "(nat \<Rightarrow> nat) \<Rightarrow> nat \<Rightarrow> nat \<Rightarrow> nat option" where
  "free_find nx bp p =
     (if bp > p \<and> bp < nx p then Some p
      else if p \<ge> nx p \<and> (bp > p \<or> bp < nx p) then Some p
      else free_find nx bp (nx p))"

definition free :: "nat \<Rightarrow> umem \<Rightarrow> umem option" where
  "free ap m =
     (let bp = ap - 1 in
      case freep m of None \<Rightarrow> None
      | Some f \<Rightarrow>
        (case free_find (hptr m) bp f of None \<Rightarrow> None
         | Some p \<Rightarrow>
           let m = (if bp + hsize m bp = hptr m p
                    then let m = set_hsize bp (hsize m bp + hsize m (hptr m p)) m in set_hptr bp (hptr m (hptr m p)) m
                    else set_hptr bp (hptr m p) m);
               m = (if p + hsize m p = bp
                    then let m = set_hsize p (hsize m p + hsize m bp) m in set_hptr p (hptr m bp) m
                    else set_hptr p bp m)
           in Some (m\<lparr>freep := Some p\<rparr>)))"

definition sbrk :: "(nat \<Rightarrow> int \<Rightarrow> bool) \<Rightarrow> u32 \<Rightarrow> umem \<Rightarrow> nat option \<times> umem" where
  "sbrk grant n m =
     (if grant (brk m) (sint n) then (Some (brk m), m\<lparr>brk := nat (int (brk m) + sint n div 8)\<rparr>) else (None, m))"

text \<open>\<open>None\<close> where \<^verbatim>\<open>free\<close> does not return; a null pointer is the inner \<open>None\<close>.\<close>

definition morecore :: "(nat \<Rightarrow> int \<Rightarrow> bool) \<Rightarrow> u32 \<Rightarrow> umem \<Rightarrow> (nat option \<times> umem) option" where
  "morecore grant nu m =
     (let nu = (if nu < 4096 then 4096 else nu) in
      case sbrk grant (nu * 8) m of
        (None, m) \<Rightarrow> Some (None, m)
      | (Some hp, m) \<Rightarrow>
          (case free (hp + 1) (set_hsize hp (unat nu) m) of
             None \<Rightarrow> None
           | Some m \<Rightarrow> Some (freep m, m)))"

definition take_block :: "u32 \<Rightarrow> nat \<Rightarrow> nat \<Rightarrow> umem \<Rightarrow> nat \<times> umem" where
  "take_block nunits prevp p m =
     (let (p, m) =
        (if hsize m p = unat nunits then (p, set_hptr prevp (hptr m p) m)
         else let m = set_hsize p (hsize m p - unat nunits) m; p = p + hsize m p in (p, set_hsize p (unat nunits) m))
      in (p + 1, m\<lparr>freep := Some prevp\<rparr>))"

partial_function (option) malloc_loop :: "(nat \<Rightarrow> int \<Rightarrow> bool) \<Rightarrow> u32 \<Rightarrow> nat \<Rightarrow> nat \<Rightarrow> umem \<Rightarrow> (nat option \<times> umem) option" where
  "malloc_loop grant nunits prevp p m =
     (if hsize m p \<ge> unat nunits then (let (q, m) = take_block nunits prevp p m in Some (Some q, m))
      else if Some p = freep m then
        (case morecore grant nunits m of
           None \<Rightarrow> None
         | Some (None, m) \<Rightarrow> Some (None, m)
         | Some (Some p, m) \<Rightarrow> malloc_loop grant nunits p (hptr m p) m)
      else malloc_loop grant nunits p (hptr m p) m)"

definition nunits_of :: "u32 \<Rightarrow> u32" where
  "nunits_of nbytes = (nbytes + 8 - 1) div 8 + 1"

definition malloc :: "(nat \<Rightarrow> int \<Rightarrow> bool) \<Rightarrow> u32 \<Rightarrow> umem \<Rightarrow> (nat option \<times> umem) option" where
  "malloc grant nbytes m =
     (let nunits = nunits_of nbytes;
          (prevp, m) = (case freep m of
             None \<Rightarrow> (base m, set_hsize (base m) 0 ((set_hptr (base m) (base m) m)\<lparr>freep := Some (base m)\<rparr>))
           | Some f \<Rightarrow> (f, m))
      in malloc_loop grant nunits prevp (hptr m prevp) m)"

section \<open>The free list\<close>

text \<open>The headers from \<open>p\<close> on are those of the blocks \<open>bs\<close>, given as address and size, up to \<open>q\<close>.\<close>

fun blocks :: "umem \<Rightarrow> nat \<Rightarrow> (nat \<times> nat) list \<Rightarrow> nat \<Rightarrow> bool" where
  "blocks m p [] q \<longleftrightarrow> p = q"
| "blocks m p ((a, n) # bs) q \<longleftrightarrow> p = a \<and> hsize m a = n \<and> blocks m (hptr m a) bs q"

text \<open>Nonempty blocks in the order of their addresses, no two of them adjacent, between \<open>lo\<close> and \<open>hi\<close>.\<close>

fun sep :: "nat \<Rightarrow> (nat \<times> nat) list \<Rightarrow> nat \<Rightarrow> bool" where
  "sep lo [] hi \<longleftrightarrow> lo \<le> hi"
| "sep lo ((a, n) # bs) hi \<longleftrightarrow> lo < a \<and> 0 < n \<and> sep (a + n) bs hi"

definition units :: "(nat \<times> nat) list \<Rightarrow> nat set" where
  "units bs = (\<Union>(a, n) \<in> set bs. {a ..< a + n})"

definition heap_inv :: "umem \<Rightarrow> (nat \<times> nat) list \<Rightarrow> bool" where
  "heap_inv m bs \<longleftrightarrow> blocks m (base m) ((base m, 0) # bs) (base m) \<and> sep (base m) bs (brk m) \<and> base m < brk m \<and>
     (\<exists>f. freep m = Some f \<and> f \<in> fst ` set ((base m, 0) # bs))"

lemma units_simps [simp]: "units [] = {}" "units ((a, n) # bs) = {a ..< a + n} \<union> units bs" "units (bs @ cs) = units bs \<union> units cs"
  by (auto simp: units_def)

lemma blocks_append: "blocks m p (bs @ cs) q \<longleftrightarrow> (\<exists>r. blocks m p bs r \<and> blocks m r cs q)"
  by (induction bs arbitrary: p) auto

lemma blocks_cong:
  "(\<And>a n. (a, n) \<in> set bs \<Longrightarrow> hptr m' a = hptr m a \<and> hsize m' a = hsize m a) \<Longrightarrow> blocks m' p bs q = blocks m p bs q"
  by (induction bs arbitrary: p) (auto, metis+)

lemma sep_le: "sep lo bs hi \<Longrightarrow> lo \<le> hi"
  by (induction bs arbitrary: lo) fastforce+

lemma sep_mono: "sep lo bs hi \<Longrightarrow> lo' \<le> lo \<Longrightarrow> hi \<le> hi' \<Longrightarrow> sep lo' bs hi'"
  by (induction bs arbitrary: lo lo') fastforce+

lemma sep_member: "sep lo bs hi \<Longrightarrow> (a, n) \<in> set bs \<Longrightarrow> lo < a \<and> 0 < n \<and> a + n \<le> hi"
  by (induction bs arbitrary: lo) (auto dest: sep_le order_trans, fastforce+)

lemma sep_append: "sep lo (bs @ (a, n) # cs) hi \<longleftrightarrow> sep lo bs (a - 1) \<and> 0 < a \<and> 0 < n \<and> sep (a + n) cs hi"
proof (induction bs arbitrary: lo)
  case (Cons b bs) then show ?case by (cases b) auto
qed auto


lemma sep_sorted: "sep lo bs hi \<Longrightarrow> sorted_wrt (<) (lo # map fst bs)"
proof (induction bs arbitrary: lo)
  case (Cons b bs)
  obtain a n where b: "b = (a, n)" by (cases b)
  have "sorted_wrt (<) ((a + n) # map fst bs)" using Cons.IH [of "a + n"] Cons.prems b by simp
  then show ?case using Cons.prems b by (auto dest: bspec)
qed simp

lemma blocks_next: "blocks m p (xs @ (x, k) # ys) q \<Longrightarrow> hptr m x = fst (hd (ys @ [(q, 0)]))"
  by (cases ys) (auto simp: blocks_append)

lemma free_find_walk:
  "blocks m p xs q \<Longrightarrow> (\<And>a n. (a, n) \<in> set xs \<Longrightarrow> free_find (hptr m) bp a = free_find (hptr m) bp (hptr m a)) \<Longrightarrow>
   free_find (hptr m) bp p = free_find (hptr m) bp q"
proof (induction xs arbitrary: p)
  case (Cons x xs)
  obtain a n where x: "x = (a, n)" by (cases x)
  have "free_find (hptr m) bp (hptr m a) = free_find (hptr m) bp q" by (rule Cons.IH) (use Cons.prems x in auto)
  moreover have "free_find (hptr m) bp a = free_find (hptr m) bp (hptr m a)" using Cons.prems(2) [of a n] x by simp
  ultimately show ?case using Cons.prems(1) x by simp
qed simp

lemma free_find_ends:
  assumes b: "blocks m b (us @ (p, n) # cs) b" and s: "sorted_wrt (<) (map fst (us @ (p, n) # cs))"
    and p: "p < bp" "b \<le> p" and cs: "\<forall>(a, k) \<in> set cs. bp < a" and f: "f \<in> fst ` set (us @ (p, n) # cs)"
  shows "free_find (hptr m) bp f = Some p"
proof -
  let ?nx = "hptr m"
  have stop: "free_find ?nx bp p = Some p"
  proof (cases cs)
    case Nil
    then have "?nx p = b" using blocks_next [OF b] by simp
    then show ?thesis using p by (simp add: free_find.simps)
  next
    case (Cons c cs')
    then have "?nx p = fst c" using blocks_next [OF b] by simp
    then show ?thesis using p cs Cons by (cases c) (simp add: free_find.simps)
  qed
  have us: "free_find ?nx bp a = free_find ?nx bp (?nx a)" if ak: "(a, k) \<in> set us" for a k
  proof -
    obtain us1 us2 where u: "us = us1 @ (a, k) # us2" using split_list [OF ak] by blast
    have "?nx a = fst (hd (us2 @ (p, n) # cs @ [(b, 0)]))" using b blocks_next [of m b us1 a k "us2 @ (p, n) # cs" b] by (simp add: u)
    then have "a < ?nx a \<and> ?nx a \<le> p" using s by (cases us2) (auto simp: u sorted_wrt_append)
    then show ?thesis using p by (subst free_find.simps) auto
  qed
  have cs': "free_find ?nx bp a = free_find ?nx bp (?nx a)" if ak: "(a, k) \<in> set cs" for a k
  proof -
    obtain cs1 cs2 where u: "cs = cs1 @ (a, k) # cs2" using split_list [OF ak] by blast
    have "?nx a = fst (hd (cs2 @ [(b, 0)]))" using b blocks_next [of m b "us @ (p, n) # cs1" a k cs2 b] by (simp add: u)
    then have "a < ?nx a \<or> ?nx a = b" using s by (cases cs2) (auto simp: u sorted_wrt_append)
    moreover have "bp < a" using cs ak by auto
    ultimately show ?thesis using p by (subst free_find.simps) auto
  qed
  have from_b: "free_find ?nx bp b = Some p" using b free_find_walk [of m b us p bp] us stop by (auto simp: blocks_append)
  have from_us: "free_find ?nx bp f = Some p" if fk: "(f, k) \<in> set us" for k
  proof -
    obtain us1 us2 where u: "us = us1 @ (f, k) # us2" using split_list [OF fk] by blast
    then have "blocks m f ((f, k) # us2) p" using b by (auto simp: blocks_append)
    then show ?thesis using free_find_walk [of m f "(f, k) # us2" p bp] us u stop by auto
  qed
  have from_cs: "free_find ?nx bp f = Some p" if fk: "(f, k) \<in> set cs" for k
  proof -
    obtain cs1 cs2 where u: "cs = cs1 @ (f, k) # cs2" using split_list [OF fk] by blast
    then have "blocks m f ((f, k) # cs2) b" using b by (auto simp: blocks_append)
    then show ?thesis using free_find_walk [of m f "(f, k) # cs2" b bp] cs' u from_b by auto
  qed
  show ?thesis using f stop from_us from_cs by auto
qed


section \<open>Freeing\<close>

definition join_right :: "nat \<Rightarrow> nat \<Rightarrow> umem \<Rightarrow> umem" where
  "join_right bp p m =
     (if bp + hsize m bp = hptr m p
      then let m = set_hsize bp (hsize m bp + hsize m (hptr m p)) m in set_hptr bp (hptr m (hptr m p)) m
      else set_hptr bp (hptr m p) m)"

definition join_left :: "nat \<Rightarrow> nat \<Rightarrow> umem \<Rightarrow> umem" where
  "join_left bp p m =
     (if p + hsize m p = bp
      then let m = set_hsize p (hsize m p + hsize m bp) m in set_hptr p (hptr m bp) m
      else set_hptr p bp m)"

lemma free_join: "free ap m = (case freep m of None \<Rightarrow> None | Some f \<Rightarrow>
    (case free_find (hptr m) (ap - 1) f of None \<Rightarrow> None
     | Some p \<Rightarrow> Some ((join_left (ap - 1) p (join_right (ap - 1) p m))\<lparr>freep := Some p\<rparr>)))"
  by (simp add: free_def join_left_def join_right_def Let_def cong: option.case_cong)

text \<open>The two headers \<^verbatim>\<open>free\<close> writes.\<close>

lemma join_frame:
  "x \<noteq> bp \<Longrightarrow> hptr (join_right bp p m) x = hptr m x" "x \<noteq> bp \<Longrightarrow> hsize (join_right bp p m) x = hsize m x"
  "x \<noteq> p \<Longrightarrow> hptr (join_left bp p m) x = hptr m x" "x \<noteq> p \<Longrightarrow> hsize (join_left bp p m) x = hsize m x"
  "base (join_right bp p m) = base m" "base (join_left bp p m) = base m" "brk (join_right bp p m) = brk m" "brk (join_left bp p m) = brk m"
  by (auto simp: join_right_def join_left_def Let_def set_hptr_def set_hsize_def)

lemma ivl_split: "{a ..< a + (x + y)} = {a ..< a + x} \<union> {a + x ..< a + x + (y :: nat)}"
  by auto

lemma join_right:
  assumes cs: "blocks m (hptr m p) cs b" "sep lo cs hi" "\<forall>(a, k) \<in> set cs. bp + hsize m bp \<le> a"
    and b: "b < bp" "0 < hsize m bp" "bp + hsize m bp \<le> hi"
  obtains s r where "blocks (join_right bp p m) bp ((bp, s) # r) b" "sep (bp + s) r hi"
    "units ((bp, s) # r) = {bp ..< bp + hsize m bp} \<union> units cs" "0 < s" "set r \<subseteq> set cs"
proof -
  let ?m = "join_right bp p m"
  have frame: "blocks ?m q xs b = blocks m q xs b" if "set xs \<subseteq> set cs" for q xs
  proof (rule blocks_cong)
    fix a k assume "(a, k) \<in> set xs"
    then have "(a, k) \<in> set cs" using that by blast
    then have "a \<noteq> bp" using bspec [OF cs(3)] b(2) by fastforce
    then show "hptr ?m a = hptr m a \<and> hsize ?m a = hsize m a" by (simp add: join_frame)
  qed
  show ?thesis
  proof (cases "bp + hsize m bp = hptr m p")
    case False
    then have h: "hptr ?m bp = hptr m p" "hsize ?m bp = hsize m bp" by (simp_all add: join_right_def set_hptr_def)
    have "sep (bp + hsize m bp) cs hi"
    proof (cases cs)
      case (Cons c cs')
      then have "fst c = hptr m p" "bp + hsize m bp \<le> fst c" using cs(1,3) by (cases c; simp)+
      then show ?thesis using cs(2) Cons False by (cases c) simp
    qed (use b in simp)
    then show ?thesis using that [of "hsize m bp" cs] h frame [of cs] cs(1) b by simp
  next
    case True
    then obtain c k cs' where c: "cs = (c, k) # cs'" "c = hptr m p" using cs(1) b by (cases cs) auto
    have "c \<noteq> bp" using True c b by simp
    then have h: "hptr ?m bp = hptr m c" "hsize ?m bp = hsize m bp + k"
      using True c cs(1) by (simp_all add: join_right_def Let_def set_hptr_def set_hsize_def)
    have "{bp ..< bp + (hsize m bp + k)} = {bp ..< bp + hsize m bp} \<union> {c ..< c + k}" unfolding ivl_split True c(2) ..
    then have u: "units ((bp, hsize m bp + k) # cs') = {bp ..< bp + hsize m bp} \<union> units cs" unfolding c(1) units_simps by (simp only: Un_assoc)
    have e: "bp + (hsize m bp + k) = c + k" using True c by simp
    have "sep (bp + (hsize m bp + k)) cs' hi" "set cs' \<subseteq> set cs" using cs c unfolding e by auto
    then show ?thesis using that [of "hsize m bp + k" cs'] h frame [of cs'] cs(1) c b u by simp
  qed
qed

lemma join_left:
  assumes r: "blocks m bp ((bp, s) # r) b" "sep (bp + s) r hi" and us: "blocks m b us p" and n: "p + hsize m p \<le> bp" "0 < s"
    and d: "p \<notin> fst ` set us" "p \<notin> fst ` set r" "p \<noteq> bp"
  obtains n' cs where "blocks (join_left bp p m) b (us @ (p, n') # cs) b" "sep (p + n') cs hi" "hsize m p \<le> n'"
    "units ((p, n') # cs) = {p ..< p + hsize m p} \<union> units ((bp, s) # r)" "hsize m p = 0 \<Longrightarrow> n' = 0"
proof -
  let ?m = "join_left bp p m"
  have frame: "blocks ?m q xs b' = blocks m q xs b'" if "p \<notin> fst ` set xs" for q xs b'
    by (rule blocks_cong) (metis that fst_conv image_eqI join_frame(3,4))
  have us': "blocks ?m b us p" using us frame d by simp
  show ?thesis
  proof (cases "p + hsize m p = bp")
    case True
    then have h: "hptr ?m p = hptr m bp" "hsize ?m p = hsize m p + s"
      using r(1) d(3) by (auto simp: join_left_def Let_def set_hptr_def set_hsize_def)
    have "{p ..< p + (hsize m p + s)} = {p ..< p + hsize m p} \<union> {bp ..< bp + s}" unfolding ivl_split True ..
    then have u: "units ((p, hsize m p + s) # r) = {p ..< p + hsize m p} \<union> units ((bp, s) # r)" by (simp add: Un_assoc)
    have b: "blocks ?m b (us @ (p, hsize m p + s) # r) b" using h us' frame [of r] r(1) d by (auto simp: blocks_append)
    have s: "sep (p + (hsize m p + s)) r hi" using r(2) True by (metis add.assoc)
    show ?thesis by (rule that [OF b s _ u]) (use True d in auto)
  next
    case False
    then have h: "hptr ?m p = bp" "hsize ?m p = hsize m p" by (simp_all add: join_left_def set_hptr_def)
    have b: "blocks ?m b (us @ (p, hsize m p) # (bp, s) # r) b" using h us' frame [of "(bp, s) # r"] r(1) d by (auto simp: blocks_append)
    show ?thesis by (rule that [OF b]) (use r(2) n False in auto)
  qed
qed


text \<open>Where a block that is not free belongs.\<close>

lemma free_slot:
  assumes s: "sep b bs hi" and bp: "b < bp" "0 < n" and dis: "{bp ..< bp + n} \<inter> units bs = {}"
  obtains us p k cs where "(b, 0) # bs = us @ (p, k) # cs" "p < bp" "p + k \<le> bp" "\<forall>(a, k) \<in> set cs. bp + n \<le> a"
proof -
  let ?P = "\<lambda>x. fst x < bp" let ?all = "(b, 0) # bs"
  obtain us x where us: "takeWhile ?P ?all = us @ [x]" using bp by (cases "takeWhile ?P ?all" rule: rev_cases) auto
  obtain p k where x: "x = (p, k)" by (cases x)
  define cs where "cs = dropWhile ?P ?all"
  have all: "?all = us @ (p, k) # cs" using takeWhile_dropWhile_id [of ?P ?all] us x unfolding cs_def by (metis append.assoc append_Cons append_Nil)
  have mem: "a \<in> units bs" if "(a, j) \<in> set bs" for a j using that sep_member [OF s that] by (force simp: units_def)
  have p: "p < bp" using us x set_takeWhileD [of x ?P ?all] by (metis fst_conv in_set_conv_decomp)
  have "p + k \<le> bp"
  proof (rule ccontr)
    assume "\<not> p + k \<le> bp"
    moreover have "(p, k) \<in> set ?all" unfolding all by simp
    ultimately have "bp \<in> {p ..< p + k}" "(p, k) \<in> set bs" using p by auto
    then have "bp \<in> units bs" by (force simp: units_def)
    moreover have "bp \<in> {bp ..< bp + n}" using bp by simp
    ultimately show False using dis by blast
  qed
  moreover have "\<forall>(a, j) \<in> set cs. bp + n \<le> a"
  proof safe
    fix a j assume a: "(a, j) \<in> set cs"
    then have c0: "cs \<noteq> []" by auto
    have "sorted_wrt (<) (map fst cs)" using sep_sorted [OF s] all by (metis (mono_tags, lifting) fst_conv list.simps(9) map_append sorted_wrt.simps(2) sorted_wrt_append)
    moreover have "bp \<le> fst (hd cs)" using hd_dropWhile [of ?P ?all] c0 by (simp add: cs_def)
    ultimately have "bp \<le> a" using a by (cases cs) (auto dest!: bspec)
    moreover have "(a, j) \<in> set bs" using a bp set_dropWhileD [of "(a, j)" ?P bs] by (simp add: cs_def)
    ultimately show "bp + n \<le> a" using mem [of a j] dis by (auto simp: not_le)
  qed
  ultimately show ?thesis using that [OF all p] by blast
qed


lemma sep_replace:
  assumes "(b, 0) # bs = us @ (p, k) # cs" "sep b bs hi" "k \<le> k'" "k = 0 \<Longrightarrow> k' = 0" "sep (p + k') cs' hi"
  shows "\<exists>bs'. us @ (p, k') # cs' = (b, 0) # bs' \<and> sep b bs' hi"
proof (cases us)
  case Nil then show ?thesis using assms by simp
next
  case (Cons u us')
  then have "bs = us' @ (p, k) # cs" using assms by simp
  then show ?thesis using assms Cons by (auto simp: sep_append)
qed

text \<open>\<^verbatim>\<open>free\<close> finds that place.\<close>

lemma free_place:
  assumes inv: "heap_inv m bs" and bp: "base m < bp" "0 < n" and dis: "{bp ..< bp + n} \<inter> units bs = {}"
  obtains f us p k cs where "freep m = Some f" "free_find (hptr m) bp f = Some p" "(base m, 0) # bs = us @ (p, k) # cs"
    "p < bp" "p + k \<le> bp" "\<forall>(a, k) \<in> set cs. bp + n \<le> a" "sorted_wrt (<) (map fst (us @ (p, k) # cs))"
    "blocks m (base m) us p" "hsize m p = k" "blocks m (hptr m p) cs (base m)" "sep (p + k) cs (brk m)" "p \<in> units bs \<union> {base m}"
proof -
  let ?b = "base m" let ?all = "(?b, 0) # bs"
  obtain f where f: "freep m = Some f" "f \<in> fst ` set ?all" and bl: "blocks m ?b ?all ?b" and se: "sep ?b bs (brk m)"
    using inv unfolding heap_inv_def by blast
  obtain us p k cs where sl: "?all = us @ (p, k) # cs" "p < bp" "p + k \<le> bp" "\<forall>(a, j) \<in> set cs. bp + n \<le> a"
    using free_slot [OF se bp dis] .
  have so: "sorted_wrt (<) (map fst (us @ (p, k) # cs))" using sep_sorted [OF se] unfolding sl(1) [symmetric] by simp
  have bpp: "?b \<le> p" using sl(1) so by (cases us) (auto simp: sorted_wrt_append)
  have gt: "\<forall>(a, j) \<in> set cs. bp < a" using sl(4) bp(2) by fastforce
  have find: "free_find (hptr m) bp f = Some p"
    by (rule free_find_ends [OF bl [unfolded sl(1)] so sl(2) bpp gt f(2) [unfolded sl(1)]])
  have parts: "blocks m ?b us p" "hsize m p = k" "blocks m (hptr m p) cs ?b" using bl unfolding sl(1) by (auto simp: blocks_append)
  have scs: "sep (p + k) cs (brk m)" using se sl(1) by (cases us) (auto simp: sep_append)
  have "p \<in> units bs \<union> {?b}"
  proof (cases us)
    case Nil then show ?thesis using sl(1) by simp
  next
    case (Cons u us')
    then have "(p, k) \<in> set bs" using sl(1) by simp
    then show ?thesis using sep_member [OF se] by (force simp: units_def)
  qed
  then show ?thesis using that [OF f(1) find sl so parts scs] by blast
qed

lemma free_correct:
  assumes inv: "heap_inv m bs" and bp: "base m < bp" "0 < hsize m bp" "bp + hsize m bp \<le> brk m"
    and dis: "{bp ..< bp + hsize m bp} \<inter> units bs = {}"
  obtains m' bs' where "free (bp + 1) m = Some m'" "heap_inv m' bs'" "units bs' = units bs \<union> {bp ..< bp + hsize m bp}"
    "base m' = base m" "brk m' = brk m" "\<forall>x. x \<notin> units bs \<union> {base m, bp} \<longrightarrow> hsize m' x = hsize m x"
proof -
  let ?b = "base m" let ?all = "(?b, 0) # bs"
  have se: "sep ?b bs (brk m)" "?b < brk m" using inv by (auto simp: heap_inv_def)
  obtain f us p k cs where f: "freep m = Some f" and find: "free_find (hptr m) bp f = Some p"
    and sl: "?all = us @ (p, k) # cs" "p < bp" "p + k \<le> bp" "\<forall>(a, j) \<in> set cs. bp + hsize m bp \<le> a"
    and so: "sorted_wrt (<) (map fst (us @ (p, k) # cs))" and parts: "blocks m ?b us p" "hsize m p = k" "blocks m (hptr m p) cs ?b"
    and scs: "sep (p + k) cs (brk m)" and pu: "p \<in> units bs \<union> {?b}"
    by (rule free_place [OF inv bp(1,2) dis])
  let ?m1 = "join_right bp p m"
  obtain s r where r: "blocks ?m1 bp ((bp, s) # r) ?b" "sep (bp + s) r (brk m)"
      "units ((bp, s) # r) = {bp ..< bp + hsize m bp} \<union> units cs" "0 < s" "set r \<subseteq> set cs"
    by (rule join_right [OF parts(3) scs sl(4) bp])
  have ne: "p \<noteq> bp" "p \<notin> fst ` set us" "p \<notin> fst ` set r" "bp \<notin> fst ` set us"
    using sl(2) so r(5) by (auto simp: sorted_wrt_append)
  have us1: "blocks ?m1 ?b us p" using parts(1) by (subst blocks_cong [of us ?m1 m]) (metis ne(4) fst_conv image_eqI join_frame(1,2), assumption)
  have k1: "hsize ?m1 p = k" using parts(2) ne(1) by (simp add: join_frame)
  let ?m2 = "join_left bp p ?m1"
  obtain n' cs' where l: "blocks ?m2 ?b (us @ (p, n') # cs') ?b" "sep (p + n') cs' (brk m)" "hsize ?m1 p \<le> n'"
      "units ((p, n') # cs') = {p ..< p + hsize ?m1 p} \<union> units ((bp, s) # r)" "hsize ?m1 p = 0 \<Longrightarrow> n' = 0"
    by (rule join_left [OF r(1,2) us1 _ r(4) ne(2,3,1)]) (use sl(3) k1 in auto)
  obtain bs' where bs': "us @ (p, n') # cs' = (?b, 0) # bs'" "sep ?b bs' (brk m)"
    using sep_replace [OF sl(1) se(1) _ _ l(2)] l(3,5) k1 by auto
  let ?m' = "?m2\<lparr>freep := Some p\<rparr>"
  have "blocks ?m' ?b ((?b, 0) # bs') ?b" using l(1) unfolding bs'(1) by (subst blocks_cong [of _ ?m' ?m2]) auto
  moreover have "p \<in> fst ` set ((?b, 0) # bs')" unfolding bs'(1) [symmetric] by simp
  ultimately have inv': "heap_inv ?m' bs'" using bs'(2) se(2) by (simp add: heap_inv_def join_frame)
  have "units ((?b, 0) # bs') = units ?all \<union> {bp ..< bp + hsize m bp}"
    unfolding bs'(1) [symmetric] sl(1) using l(4) r(3) k1 by auto
  then have un: "units bs' = units bs \<union> {bp ..< bp + hsize m bp}" by simp
  have "x \<noteq> p" if "x \<notin> units bs \<union> {?b, bp}" for x using that pu by blast
  then have "\<forall>x. x \<notin> units bs \<union> {?b, bp} \<longrightarrow> hsize ?m' x = hsize m x" by (simp add: join_frame)
  moreover have "free (bp + 1) m = Some ?m'" using f find by (simp add: free_join)
  ultimately show ?thesis using that [OF _ inv' un] by (simp add: join_frame)
qed


section \<open>Allocating\<close>

lemma blocks_update:
  "x \<notin> fst ` set bs \<Longrightarrow> blocks (m\<lparr>hptr := (hptr m)(x := v), freep := g\<rparr>) p bs q = blocks m p bs q"
  "x \<notin> fst ` set bs \<Longrightarrow> y \<notin> fst ` set bs \<Longrightarrow> blocks (m\<lparr>hsize := (hsize m)(x := v, y := w), freep := g\<rparr>) p bs q = blocks m p bs q"
  by (rule blocks_cong, force)+

lemma sep_disjoint: "sep lo (xs @ (p, n) # ys) hi \<Longrightarrow> {p ..< p + n} \<inter> (units xs \<union> units ys) = {}"
proof -
  assume s: "sep lo (xs @ (p, n) # ys) hi"
  have "a + k < p" if "(a, k) \<in> set xs" for a k using s sep_member [of lo xs "p - 1" a k] that by (auto simp: sep_append)
  moreover have "p + n < a" if "(a, k) \<in> set ys" for a k using s sep_member [of "p + n" ys hi a k] that by (auto simp: sep_append)
  ultimately show ?thesis by (fastforce simp: units_def)
qed

lemma sep_remove: "sep lo (xs @ (p, n) # ys) hi \<Longrightarrow> sep lo (xs @ ys) hi"
proof (induction xs arbitrary: lo)
  case Nil then show ?case using sep_mono [of "p + n" ys hi lo hi] by simp
next
  case (Cons x xs) then show ?case by (cases x) auto
qed

lemma take_block_correct:
  assumes inv: "heap_inv m bs" and all: "(base m, 0) # bs = us @ (prevp, k) # (p, n) # cs" and n: "unat nu \<le> n" "0 < unat nu"
  obtains b m' bs' where "take_block nu prevp p m = (b + 1, m')" "heap_inv m' bs'" "{b ..< b + unat nu} \<subseteq> units bs"
    "units bs' = units bs - {b ..< b + unat nu}" "hsize m' b = unat nu" "base m' = base m" "brk m' = brk m"
    "\<forall>x. x \<notin> units bs \<longrightarrow> hsize m' x = hsize m x"
proof -
  let ?b = "base m"
  have bl: "blocks m ?b (us @ (prevp, k) # (p, n) # cs) ?b" and se: "sep ?b bs (brk m)" and bb: "?b < brk m" using inv all by (auto simp: heap_inv_def)
  obtain xs where xs: "us @ [(prevp, k)] = (?b, 0) # xs" "bs = xs @ (p, n) # cs" using all by (cases us) auto
  have so: "sorted_wrt (<) (map fst (us @ (prevp, k) # (p, n) # cs))" using sep_sorted [OF se] unfolding all [symmetric] by simp
  have hs: "hsize m p = n" using bl by (auto simp: blocks_append)
  have dj: "{p ..< p + n} \<inter> (units xs \<union> units cs) = {}" using sep_disjoint se xs(2) by blast
  have pn: "p \<in> {p ..< p + n}" using n by simp
  show ?thesis
  proof (cases "n = unat nu")
    case True
    let ?m = "m\<lparr>hptr := (hptr m)(prevp := hptr m p), freep := Some prevp\<rparr>"
    have t: "take_block nu prevp p m = (p + 1, ?m)" using True hs by (simp add: take_block_def set_hptr_def)
    have "prevp \<notin> fst ` set us" "prevp \<notin> fst ` set cs" using so by (auto simp: sorted_wrt_append)
    then have "blocks ?m ?b ((us @ [(prevp, k)]) @ cs) ?b" using bl by (auto simp: blocks_append blocks_update)
    moreover have "sep ?b (xs @ cs) (brk m)"
      using se xs(2) sep_remove by blast
    moreover have "prevp \<in> fst ` set ((?b, 0) # xs)" unfolding xs(1) [symmetric] by simp
    ultimately have inv': "heap_inv ?m (xs @ cs)" unfolding heap_inv_def xs(1) using bb by auto
    show ?thesis by (rule that [OF t inv']) (use True hs xs(2) dj in auto)
  next
    case False
    let ?q = "p + (n - unat nu)"
    let ?m = "m\<lparr>hsize := (hsize m)(p := n - unat nu, ?q := unat nu), freep := Some prevp\<rparr>"
    have t: "take_block nu prevp p m = (?q + 1, ?m)" using False hs by (simp add: take_block_def set_hsize_def Let_def)
    have sp: "sep (p + n) cs (brk m)" "sep ?b xs (p - 1)" "0 < p" using se xs(2) by (auto simp: sep_append)
    have cs: "p + n < a" if "a \<in> fst ` set cs" for a using that sep_member [OF sp(1)] by force
    have us: "a < p" if "a \<in> fst ` set (us @ [(prevp, k)])" for a using that so by (auto simp: sorted_wrt_append)
    have "blocks m ?b (us @ [(prevp, k)]) p" "blocks m (hptr m p) cs ?b" using bl by (auto simp: blocks_append)
    moreover have "\<not> ?q < p" "\<not> p + n < ?q" "\<not> p < p" "\<not> p + n < p" using n by simp_all
    then have "p \<notin> fst ` set (us @ [(prevp, k)])" "?q \<notin> fst ` set (us @ [(prevp, k)])" "p \<notin> fst ` set cs" "?q \<notin> fst ` set cs"
      using us cs by blast+
    ultimately have "blocks ?m ?b (us @ [(prevp, k)]) p" "blocks ?m (hptr m p) cs ?b" by (simp_all only: blocks_update not_False_eq_True)
    then have "blocks ?m ?b ((us @ [(prevp, k)]) @ (p, n - unat nu) # cs) ?b" using False n unfolding blocks_append by auto
    moreover have "sep ?b (xs @ (p, n - unat nu) # cs) (brk m)"
      unfolding sep_append using sp False n by (auto intro: sep_mono [of "p + n" cs "brk m"])
    moreover have "prevp \<in> fst ` set ((?b, 0) # xs)" unfolding xs(1) [symmetric] by simp
    ultimately have inv': "heap_inv ?m (xs @ (p, n - unat nu) # cs)" unfolding heap_inv_def xs(1) using bb by auto
    have sub: "{?q ..< ?q + unat nu} \<subseteq> {p ..< p + n}" using n by auto
    have "{p ..< p + n} - {?q ..< ?q + unat nu} = {p ..< p + (n - unat nu)}" using n by auto
    then have "units (xs @ (p, n - unat nu) # cs) = units bs - {?q ..< ?q + unat nu}" unfolding xs(2) units_simps using dj sub by blast
    moreover have "\<forall>x. x \<notin> units bs \<longrightarrow> hsize ?m x = hsize m x" using pn sub n unfolding xs(2) units_simps by auto
    ultimately show ?thesis by (intro that [OF t inv']) (use sub xs(2) in auto)
  qed
qed


lemma malloc_walk:
  "blocks m p xs q \<Longrightarrow> hptr m prevp = p \<Longrightarrow> (\<And>a n. (a, n) \<in> set xs \<Longrightarrow> n < unat nu \<and> Some a \<noteq> freep m) \<Longrightarrow>
   \<exists>prevp'. malloc_loop grant nu prevp p m = malloc_loop grant nu prevp' q m \<and> hptr m prevp' = q \<and> prevp' \<in> insert prevp (fst ` set xs)"
proof (induction xs arbitrary: prevp p)
  case (Cons x xs)
  obtain a n where x: "x = (a, n)" by (cases x)
  have a: "p = a" "hsize m a = n" "blocks m (hptr m a) xs q" "n < unat nu" "Some a \<noteq> freep m" using Cons.prems(1,3) x by auto
  have "malloc_loop grant nu prevp p m = malloc_loop grant nu a (hptr m a) m"
    using a by (subst malloc_loop.simps) simp
  moreover obtain prevp' where "malloc_loop grant nu a (hptr m a) m = malloc_loop grant nu prevp' q m" "hptr m prevp' = q" "prevp' \<in> insert a (fst ` set xs)"
    using Cons.IH [OF a(3) refl] Cons.prems(3) by auto
  ultimately show ?case using x by auto
qed auto

lemma adjacent:
  assumes inv: "heap_inv m bs" and p: "prevp \<in> fst ` set ((base m, 0) # bs)" "hptr m prevp = p" "p \<noteq> base m"
  obtains us k n cs where "(base m, 0) # bs = us @ (prevp, k) # (p, n) # cs"
proof -
  obtain k where "(prevp, k) \<in> set ((base m, 0) # bs)" using p(1) by force
  then obtain us ys where all: "(base m, 0) # bs = us @ (prevp, k) # ys" by (meson split_list)
  have "blocks m (base m) (us @ (prevp, k) # ys) (base m)" using inv unfolding heap_inv_def all by blast
  then have "p = fst (hd (ys @ [(base m, 0)]))" using p(2) blocks_next by metis
  then obtain n cs where "ys = (p, n) # cs" using p(3) by (cases ys) auto
  then show ?thesis using that all by blast
qed

text \<open>One lap around the list, from the block after \<^verbatim>\<open>freep\<close> to \<^verbatim>\<open>freep\<close> itself.\<close>

lemma lap:
  assumes inv: "heap_inv m bs" "freep m = Some f"
  obtains xs k where "blocks m (hptr m f) (xs @ [(f, k)]) (hptr m f)" "f \<notin> fst ` set xs" "set (xs @ [(f, k)]) = set ((base m, 0) # bs)"
proof -
  have f: "f \<in> fst ` set ((base m, 0) # bs)" and bl: "blocks m (base m) ((base m, 0) # bs) (base m)" and se: "sep (base m) bs (brk m)"
    using inv unfolding heap_inv_def by auto
  obtain k where "(f, k) \<in> set ((base m, 0) # bs)" using f by force
  then obtain us vs where all: "(base m, 0) # bs = us @ (f, k) # vs" by (meson split_list)
  have "sorted_wrt (<) (map fst (us @ (f, k) # vs))" using sep_sorted [OF se] unfolding all [symmetric] by simp
  then have "f \<notin> fst ` set (vs @ us)" by (auto simp: sorted_wrt_append)
  moreover have "blocks m (hptr m f) ((vs @ us) @ [(f, k)]) (hptr m f)" using bl unfolding all by (auto simp: blocks_append)
  ultimately show ?thesis using that [of "vs @ us" k] unfolding all by auto
qed

definition taken :: "nat \<Rightarrow> umem \<Rightarrow> (nat \<times> nat) list \<Rightarrow> nat \<Rightarrow> umem \<Rightarrow> (nat \<times> nat) list \<Rightarrow> bool" where
  "taken nu m bs b m' bs' \<longleftrightarrow> heap_inv m' bs' \<and> {b ..< b + nu} \<subseteq> units bs \<and> units bs' = units bs - {b ..< b + nu} \<and>
     hsize m' b = nu \<and> base m' = base m \<and> brk m' = brk m \<and> (\<forall>x. x \<notin> units bs \<longrightarrow> hsize m' x = hsize m x)"

lemma malloc_loop_fits:
  assumes inv: "heap_inv m bs" "freep m = Some f" and fits: "(a, n) \<in> set bs" "unat nu \<le> n" and nu: "0 < unat nu"
  shows "\<exists>b m' bs'. malloc_loop grant nu f (hptr m f) m = Some (Some (b + 1), m') \<and> taken (unat nu) m bs b m' bs'"
proof -
  obtain xs k where l: "blocks m (hptr m f) (xs @ [(f, k)]) (hptr m f)" "f \<notin> fst ` set xs" "set (xs @ [(f, k)]) = set ((base m, 0) # bs)"
    using lap [OF inv] .
  have "\<exists>x \<in> set (xs @ [(f, k)]). unat nu \<le> snd x" unfolding l(3) using fits by force
  then obtain ys x zs where s: "xs @ [(f, k)] = ys @ x # zs" "unat nu \<le> snd x" "\<forall>y \<in> set ys. \<not> unat nu \<le> snd y"
    using split_list_first_prop [of "xs @ [(f, k)]" "\<lambda>x. unat nu \<le> snd x"] by blast
  obtain c j where x: "x = (c, j)" by (cases x)
  have ys: "set ys \<subseteq> set xs" using s(1) by (cases zs rule: rev_cases) (auto simp: append_eq_append_conv2 append_eq_Cons_conv)
  have b: "blocks m (hptr m f) ys c" "hsize m c = j" using l(1) unfolding s(1) x by (auto simp: blocks_append)
  have skip: "n < unat nu \<and> Some a \<noteq> freep m" if "(a, n) \<in> set ys" for a n
    using s(3) that ys l(2) inv(2) by (metis fst_conv image_eqI not_le option.inject snd_conv subsetD)
  obtain prevp where w: "malloc_loop grant nu f (hptr m f) m = malloc_loop grant nu prevp c m" "hptr m prevp = c" "prevp \<in> insert f (fst ` set ys)"
    using malloc_walk [OF b(1) refl skip] by blast
  have cin: "(c, j) \<in> set ((base m, 0) # bs)" unfolding l(3) [symmetric] s(1) x by simp
  have cb: "c \<noteq> base m" using b(2) s(2) x nu inv(1) by (auto simp: heap_inv_def)
  have "prevp \<in> fst ` set ((base m, 0) # bs)" unfolding l(3) [symmetric] using w(3) ys by force
  then obtain us k' n' cs where all: "(base m, 0) # bs = us @ (prevp, k') # (c, n') # cs" using adjacent [OF inv(1) _ w(2) cb] by blast
  have "n' = j" using inv(1) b(2) unfolding heap_inv_def all by (auto simp: blocks_append)
  then obtain q m' bs' where t: "take_block nu prevp c m = (q + 1, m')" "taken (unat nu) m bs q m' bs'"
    using take_block_correct [OF inv(1) all, of nu] s(2) x nu unfolding taken_def by (metis snd_conv)
  then show ?thesis using w(1) b(2) s(2) x by (subst w(1), subst malloc_loop.simps) auto
qed

lemma malloc_loop_full:
  assumes inv: "heap_inv m bs" "freep m = Some f" and full: "\<forall>(a, n) \<in> set bs. n < unat nu" and nu: "0 < unat nu"
  shows "malloc_loop grant nu f (hptr m f) m =
    (case morecore grant nu m of None \<Rightarrow> None | Some (None, m) \<Rightarrow> Some (None, m)
     | Some (Some p, m) \<Rightarrow> malloc_loop grant nu p (hptr m p) m)"
proof -
  obtain xs k where l: "blocks m (hptr m f) (xs @ [(f, k)]) (hptr m f)" "f \<notin> fst ` set xs" "set (xs @ [(f, k)]) = set ((base m, 0) # bs)"
    using lap [OF inv] .
  have small: "n < unat nu" if "(a, n) \<in> set (xs @ [(f, k)])" for a n using that full nu unfolding l(3) by auto
  have skip: "n < unat nu \<and> Some a \<noteq> freep m" if "(a, n) \<in> set xs" for a n
    using small [of a n] that l(2) inv(2) by force
  have b: "blocks m (hptr m f) xs f" "hsize m f = k" using l(1) by (auto simp: blocks_append)
  obtain prevp where w: "malloc_loop grant nu f (hptr m f) m = malloc_loop grant nu prevp f m"
    using malloc_walk [OF b(1) refl skip] by blast
  show ?thesis unfolding w by (subst malloc_loop.simps) (use b(2) small [of f k] inv(2) in simp)
qed

text \<open>Free blocks are not adjacent, so a run of free units lies in one of them.\<close>

lemma sep_end: "sep lo bs hi \<Longrightarrow> (a, n) \<in> set bs \<Longrightarrow> a + n \<notin> units bs"
proof -
  assume s: "sep lo bs hi" and a: "(a, n) \<in> set bs"
  obtain xs ys where bs: "bs = xs @ (a, n) # ys" using split_list [OF a] by blast
  have "c + k < a" if "(c, k) \<in> set xs" for c k using s sep_member [of lo xs "a - 1" c k] that by (auto simp: bs sep_append)
  moreover have "a + n < c" if "(c, k) \<in> set ys" for c k using s sep_member [of "a + n" ys hi c k] that by (auto simp: bs sep_append)
  ultimately show ?thesis by (fastforce simp: units_def bs)
qed

lemma run_in_block:
  assumes s: "sep lo bs hi" and r: "{x ..< x + n} \<subseteq> units bs" "0 < n"
  obtains a k where "(a, k) \<in> set bs" "n \<le> k"
proof -
  have "x \<in> units bs" using r by auto
  then obtain a k where a: "(a, k) \<in> set bs" "a \<le> x" "x < a + k" by (auto simp: units_def)
  have "x + n \<le> a + k" using sep_end [OF s a(1)] r(1) a(3) by (meson atLeastLessThan_iff less_imp_le not_le subsetD)
  then show ?thesis using that [OF a(1)] a(2) by simp
qed

abbreviation (input) core_units :: "u32 \<Rightarrow> nat" where
  "core_units nu \<equiv> max 4096 (unat nu)"

lemma sint_units:
  assumes "unat (w :: u32) < 2 ^ 28"
  shows "sint (w * 8) = int (unat w) * 8"
proof -
  have "unat (w * 8) = unat w * 8" using assms by (simp add: unat_word_ariths)
  then have u: "uint (w * 8) = uint w * 8" by (metis of_nat_mult of_nat_numeral uint_nat)
  have "int (unat w) < int (2 ^ 28)" using assms by (simp only: of_nat_less_iff)
  then have b: "uint w < 268435456" by simp
  have "0 \<le> uint w" by simp
  then have b0: "- 268435456 \<le> uint w" by linarith
  have "sint (w * 8) = signed_take_bit 31 (uint (w * 8))" by (simp add: sint_uint)
  also have "\<dots> = uint (w * 8)" unfolding u by (rule signed_take_bit_int_eq_self) (use b b0 in simp_all)
  finally show ?thesis using u by simp
qed

lemma core_word: "unat (if nu < 4096 then 4096 else nu :: u32) = core_units nu"
  by (auto simp: word_less_nat_alt max_def)

lemma morecore_correct:
  assumes inv: "heap_inv m bs" and nu: "unat nu < 2 ^ 28" and g: "grant (brk m) (int (core_units nu) * 8)"
  shows "\<exists>f m' bs' a k. morecore grant nu m = Some (Some f, m') \<and> heap_inv m' bs' \<and> freep m' = Some f \<and> base m' = base m \<and>
    brk m' = brk m + core_units nu \<and> units bs' = units bs \<union> {brk m ..< brk m'} \<and> (a, k) \<in> set bs' \<and> unat nu \<le> k \<and>
    (\<forall>x < brk m. x \<notin> units bs \<longrightarrow> x \<noteq> base m \<longrightarrow> hsize m' x = hsize m x)"
proof -
  let ?nu = "if nu < 4096 then 4096 else nu" let ?n = "core_units nu" let ?hp = "brk m"
  have n: "unat ?nu = ?n" by (rule core_word)
  have s: "sint (?nu * 8) = int ?n * 8" using sint_units [of ?nu] nu unfolding n by simp
  let ?m = "set_hsize ?hp ?n (m\<lparr>brk := brk m + ?n\<rparr>)"
  have se: "sep (base m) bs (brk m)" "base m < brk m" and bl: "blocks m (base m) ((base m, 0) # bs) (base m)" using inv by (auto simp: heap_inv_def)
  have below: "a < brk m" if "(a, k) \<in> set ((base m, 0) # bs)" for a k using that sep_member [OF se(1)] se(2) by fastforce
  have "blocks ?m (base m) ((base m, 0) # bs) (base m) = blocks m (base m) ((base m, 0) # bs) (base m)"
  proof (rule blocks_cong)
    fix a k assume "(a, k) \<in> set ((base m, 0) # bs)"
    then have "a \<noteq> ?hp" using below by blast
    then show "hptr ?m a = hptr m a \<and> hsize ?m a = hsize m a" by (simp add: set_hsize_def)
  qed
  then have inv': "heap_inv ?m bs" using inv bl se sep_mono [OF se(1), of "base m" "brk m + ?n"] by (simp add: heap_inv_def set_hsize_def)
  have u: "units bs \<subseteq> {..< brk m}" using sep_member [OF se(1)] by (fastforce simp: units_def)
  have hs: "hsize ?m ?hp = ?n" "base ?m = base m" "brk ?m = brk m + ?n" "\<And>x. x \<noteq> ?hp \<Longrightarrow> hsize ?m x = hsize m x" by (simp_all add: set_hsize_def)
  have pre: "base ?m < ?hp" "0 < hsize ?m ?hp" "?hp + hsize ?m ?hp \<le> brk ?m" "{?hp ..< ?hp + hsize ?m ?hp} \<inter> units bs = {}"
    unfolding hs(1-3) using se(2) u by auto
  obtain m' bs' where f: "free (?hp + 1) ?m = Some m'" "heap_inv m' bs'" "units bs' = units bs \<union> {?hp ..< ?hp + ?n}"
    "base m' = base m" "brk m' = brk m + ?n" "\<forall>x. x \<notin> units bs \<union> {base m, ?hp} \<longrightarrow> hsize m' x = hsize ?m x"
    by (rule free_correct [OF inv' pre, unfolded hs(1-3)])
  obtain g' where g': "freep m' = Some g'" "sep (base m') bs' (brk m')" using f(2) by (auto simp: heap_inv_def)
  obtain a k where a: "(a, k) \<in> set bs'" "?n \<le> k" 
  proof (rule run_in_block [OF g'(2), of ?hp ?n])
    show "{?hp ..< ?hp + ?n} \<subseteq> units bs'" unfolding f(3) by blast
  qed (auto simp: less_max_iff_disj)
  have "morecore grant nu m = Some (Some g', m')"
    using g f(1) g'(1) s n by (simp add: morecore_def sbrk_def Let_def nat_int_add)
  then show ?thesis using f g'(1) a hs(4) by (intro exI [of _ g'] exI [of _ m'] exI [of _ bs'] exI [of _ a] exI [of _ k]) auto
qed

abbreviation (input) MAXREQ :: nat where "MAXREQ \<equiv> 2147483632"

lemma unat_nunits: "unat nbytes \<le> MAXREQ \<Longrightarrow> unat (nunits_of nbytes) = (unat nbytes + 7) div 8 + 1"
proof -
  assume n: "unat nbytes \<le> MAXREQ"
  have "unat (nbytes + 8 - 1) = unat nbytes + 7"
    using n by (simp add: unat_word_ariths)
  then have "unat ((nbytes + 8 - 1) div 8) = (unat nbytes + 7) div 8" by (simp add: unat_div_distrib)
  moreover have "(unat nbytes + 7) div 8 < 2 ^ 31" using n by simp
  ultimately show ?thesis unfolding nunits_of_def by (simp add: unat_word_ariths)
qed

definition heap_ok :: "umem \<Rightarrow> (nat \<times> nat) list \<Rightarrow> bool" where
  "heap_ok m bs \<longleftrightarrow> freep m = None \<and> bs = [] \<and> base m < brk m \<or> heap_inv m bs"

text \<open>What \<^verbatim>\<open>malloc\<close> promises, with the result \<open>r\<close>.\<close>

definition malloced :: "(nat \<Rightarrow> int \<Rightarrow> bool) \<Rightarrow> u32 \<Rightarrow> umem \<Rightarrow> (nat \<times> nat) list \<Rightarrow> nat option \<Rightarrow> umem \<Rightarrow> (nat \<times> nat) list \<Rightarrow> bool" where
  "malloced grant nu m bs r m' bs' \<longleftrightarrow> heap_inv m' bs' \<and> base m' = base m \<and> brk m \<le> brk m' \<and>
     (\<forall>x < brk m. x \<notin> units bs \<longrightarrow> x \<noteq> base m \<longrightarrow> hsize m' x = hsize m x) \<and>
     (case r of
        None \<Rightarrow> units bs' = units bs \<and> brk m' = brk m \<and> \<not> grant (brk m) (int (core_units nu) * 8) \<and> (\<forall>(a, n) \<in> set bs. n < unat nu)
      | Some q \<Rightarrow> 0 < q \<and> hsize m' (q - 1) = unat nu \<and> {q - 1 ..< q - 1 + unat nu} \<subseteq> units bs \<union> {brk m ..< brk m'} \<and>
          units bs' = units bs \<union> {brk m ..< brk m'} - {q - 1 ..< q - 1 + unat nu})"

lemma morecore_refused: "\<not> grant (brk m) (int (core_units nu) * 8) \<Longrightarrow> unat nu < 2 ^ 28 \<Longrightarrow> morecore grant nu m = Some (None, m)"
proof -
  assume "\<not> grant (brk m) (int (core_units nu) * 8)" "unat nu < 2 ^ 28"
  moreover have "sint ((if nu < 4096 then 4096 else nu) * 8) = int (core_units nu) * 8"
    using sint_units [of "if nu < 4096 then 4096 else nu"] \<open>unat nu < 2 ^ 28\<close> unfolding core_word by simp
  ultimately show ?thesis by (simp add: morecore_def sbrk_def Let_def)
qed

lemma malloc_loop_correct:
  assumes inv: "heap_inv m bs" "freep m = Some f" and nu: "0 < unat nu" "unat nu < 2 ^ 28"
  shows "\<exists>r m' bs'. malloc_loop grant nu f (hptr m f) m = Some (r, m') \<and> malloced grant nu m bs r m' bs'"
proof (cases "\<exists>(a, n) \<in> set bs. unat nu \<le> n")
  case True
  then obtain a n where a: "(a, n) \<in> set bs" "unat nu \<le> n" by auto
  obtain b m' bs' where "malloc_loop grant nu f (hptr m f) m = Some (Some (b + 1), m')" "taken (unat nu) m bs b m' bs'"
    using malloc_loop_fits [OF inv a nu(1)] by blast
  then show ?thesis by (intro exI [of _ "Some (b + 1)"] exI [of _ m'] exI [of _ bs']) (auto simp: taken_def malloced_def)
next
  case False
  then have full: "\<forall>(a, n) \<in> set bs. n < unat nu" by (auto simp: not_le)
  note loop = malloc_loop_full [OF inv full nu(1), of grant]
  show ?thesis
  proof (cases "grant (brk m) (int (core_units nu) * 8)")
    case False
    then have "malloc_loop grant nu f (hptr m f) m = Some (None, m)" unfolding loop by (simp add: morecore_refused [OF _ nu(2)])
    then show ?thesis using inv(1) False full by (intro exI [of _ None] exI [of _ m] exI [of _ bs]) (simp add: malloced_def)
  next
    case True
    obtain g m1 bs1 a k where mc: "morecore grant nu m = Some (Some g, m1)" "heap_inv m1 bs1" "freep m1 = Some g" "base m1 = base m"
      "brk m1 = brk m + core_units nu" "units bs1 = units bs \<union> {brk m ..< brk m1}" "(a, k) \<in> set bs1" "unat nu \<le> k"
      "\<forall>x < brk m. x \<notin> units bs \<longrightarrow> x \<noteq> base m \<longrightarrow> hsize m1 x = hsize m x"
      using morecore_correct [where grant = grant, OF inv(1) nu(2) True] by blast
    obtain b m' bs' where t: "malloc_loop grant nu g (hptr m1 g) m1 = Some (Some (b + 1), m')" "taken (unat nu) m1 bs1 b m' bs'"
      using malloc_loop_fits [OF mc(2,3,7,8) nu(1)] by blast
    have "malloc_loop grant nu f (hptr m f) m = Some (Some (b + 1), m')" unfolding loop using mc(1) t(1) by simp
    moreover have "malloced grant nu m bs (Some (b + 1)) m' bs'" using t(2) mc(4,5,6,9) by (auto simp: taken_def malloced_def)
    ultimately show ?thesis by blast
  qed
qed

lemma malloc_correct:
  assumes ok: "heap_ok m bs" and n: "unat nbytes \<le> MAXREQ"
  shows "\<exists>r m' bs'. malloc grant nbytes m = Some (r, m') \<and> malloced grant (nunits_of nbytes) m bs r m' bs'"
proof -
  have nu: "0 < unat (nunits_of nbytes)" "unat (nunits_of nbytes) < 2 ^ 28" using n by (simp_all add: unat_nunits)
  show ?thesis
  proof (cases "freep m")
    case (Some f)
    then have "heap_inv m bs" using ok by (simp add: heap_ok_def)
    from malloc_loop_correct [OF this Some nu] show ?thesis by (simp add: malloc_def Some)
  next
    case None
    let ?m = "set_hsize (base m) 0 ((set_hptr (base m) (base m) m)\<lparr>freep := Some (base m)\<rparr>)"
    have "heap_inv ?m []" "bs = []" using ok None by (auto simp: heap_ok_def heap_inv_def set_hsize_def set_hptr_def)
    moreover have "freep ?m = Some (base m)" "base ?m = base m" "brk ?m = brk m" "x \<noteq> base m \<Longrightarrow> hsize ?m x = hsize m x" for x
      by (simp_all add: set_hsize_def set_hptr_def)
    ultimately show ?thesis using malloc_loop_correct [OF _ _ nu, of ?m "[]" "base m" grant]
      by (auto simp: malloc_def None Let_def malloced_def cong: option.case_cong)
  qed
qed


section \<open>Programs that allocate and free\<close>

text \<open>The blocks a program holds: the pointers it was given, with the number of bytes it asked for.\<close>

type_synonym holds = "nat \<Rightarrow> u32 option"

definition blk :: "holds \<Rightarrow> nat \<Rightarrow> nat set" where
  "blk A q = (case A q of None \<Rightarrow> {} | Some n \<Rightarrow> {q - 1 ..< q - 1 + unat (nunits_of n)})"

text \<open>The states a program reaches that starts with its memory ending at \<open>h\<close> and calls \<^verbatim>\<open>malloc\<close>, and \<^verbatim>\<open>free\<close> with pointers it
  was given and has not freed since. The kernel may refuse memory at any time.\<close>

inductive heap_run :: "nat \<Rightarrow> umem \<Rightarrow> holds \<Rightarrow> bool" for h where
  start: "freep m = None \<Longrightarrow> base m < h \<Longrightarrow> brk m = h \<Longrightarrow> heap_run h m (\<lambda>_. None)"
| malloc: "heap_run h m A \<Longrightarrow> unat n \<le> MAXREQ \<Longrightarrow> malloc grant n m = Some (Some q, m') \<Longrightarrow> heap_run h m' (A(q \<mapsto> n))"
| malloc_null: "heap_run h m A \<Longrightarrow> unat n \<le> MAXREQ \<Longrightarrow> malloc grant n m = Some (None, m') \<Longrightarrow> heap_run h m' A"
| free: "heap_run h m A \<Longrightarrow> A q \<noteq> None \<Longrightarrow> free q m = Some m' \<Longrightarrow> heap_run h m' (A(q := None))"

definition held :: "nat \<Rightarrow> umem \<Rightarrow> holds \<Rightarrow> (nat \<times> nat) list \<Rightarrow> bool" where
  "held h m A bs \<longleftrightarrow> heap_ok m bs \<and> (freep m = None \<longrightarrow> (\<forall>q. A q = None)) \<and> base m < h \<and> h \<le> brk m \<and> units bs \<inter> (\<Union>q. blk A q) = {} \<and> units bs \<union> (\<Union>q. blk A q) = {h ..< brk m} \<and>
     (\<forall>q q'. q \<noteq> q' \<longrightarrow> blk A q \<inter> blk A q' = {}) \<and>
     (\<forall>q n. A q = Some n \<longrightarrow> 0 < q \<and> unat n \<le> MAXREQ \<and> hsize m (q - 1) = unat (nunits_of n))"

lemma nunits_pos: "unat n \<le> MAXREQ \<Longrightarrow> 0 < unat (nunits_of n)"
  by (simp add: unat_nunits)

lemma held_header:
  assumes "held h m A bs" "A q = Some n"
  shows "q - 1 \<in> blk A q" "q - 1 < brk m" "q - 1 \<notin> units bs" "q - 1 \<noteq> base m"
proof -
  show i: "q - 1 \<in> blk A q" using assms nunits_pos [of n] by (auto simp: held_def blk_def)
  then have "q - 1 \<in> {h ..< brk m}" "q - 1 \<notin> units bs" using assms(1) unfolding held_def by blast+
  then show "q - 1 < brk m" "q - 1 \<notin> units bs" "q - 1 \<noteq> base m" using assms(1) by (auto simp: held_def)
qed

lemma held_start: "freep m = None \<Longrightarrow> base m < h \<Longrightarrow> brk m = h \<Longrightarrow> held h m (\<lambda>_. None) []"
  by (simp add: held_def heap_ok_def blk_def)

lemma blk_upd [simp]: "q' \<noteq> q \<Longrightarrow> blk (A(q := v)) q' = blk A q'"
  by (simp add: blk_def)

lemma Union_blk_new:
  assumes "A q = None"
  shows "(\<Union>x. blk (A(q \<mapsto> n)) x) = {q - 1 ..< q - 1 + unat (nunits_of n)} \<union> (\<Union>x. blk A x)"
proof -
  have "blk (A(q \<mapsto> n)) = (blk A)(q := {q - 1 ..< q - 1 + unat (nunits_of n)})" by (simp add: blk_def fun_eq_iff)
  moreover have "blk A q = {}" using assms by (simp add: blk_def)
  ultimately show ?thesis by (auto split: if_splits)
qed

lemma Union_blk_freed:
  assumes "\<And>x. x \<noteq> q \<Longrightarrow> blk A x \<inter> blk A q = {}"
  shows "(\<Union>x. blk (A(q := None)) x) = (\<Union>x. blk A x) - blk A q"
proof -
  have "blk (A(q := None)) = (blk A)(q := {})" by (simp add: blk_def fun_eq_iff)
  then show ?thesis using assms by (fastforce split: if_splits)
qed

lemma held_malloc:
  assumes A: "held h m A bs" and n: "unat n \<le> MAXREQ" and r: "malloced grant (nunits_of n) m bs (Some q) m' bs'"
  shows "held h m' (A(q \<mapsto> n)) bs'"
proof -
  let ?new = "{q - 1 ..< q - 1 + unat (nunits_of n)}"
  define U where "U = (\<Union>q. blk A q)"
  have r': "heap_inv m' bs'" "base m' = base m" "brk m \<le> brk m'" "0 < q" "hsize m' (q - 1) = unat (nunits_of n)"
    "?new \<subseteq> units bs \<union> {brk m ..< brk m'}" "units bs' = units bs \<union> {brk m ..< brk m'} - ?new"
    "\<And>x. x < brk m \<Longrightarrow> x \<notin> units bs \<Longrightarrow> x \<noteq> base m \<Longrightarrow> hsize m' x = hsize m x"
    using r by (auto simp: malloced_def)
  have U: "U \<inter> units bs = {}" "units bs \<union> U = {h ..< brk m}" "h \<le> brk m" "base m < h" using A unfolding held_def U_def by blast+
  have lt: "x < brk m" if "x \<in> U" for x
    using that U(2) by (metis Un_iff atLeastLessThan_iff)
  have d: "U \<inter> {brk m ..< brk m'} = {}"
  proof (rule equals0I)
    fix x assume "x \<in> U \<inter> {brk m ..< brk m'}"
    then show False using lt [of x] by simp
  qed
  then have dj: "?new \<inter> U = {}" using r'(6) U(1) by blast
  have "q - 1 \<in> ?new" using nunits_pos [OF n] by simp
  then have q: "A q = None" using held_header(1) [OF A] dj unfolding U_def by (cases "A q") (simp, blast)
  have b: "blk (A(q \<mapsto> n)) q = ?new" by (simp add: blk_def)
  note U' = Union_blk_new [of A q n, OF q, folded U_def]
  have iv: "{h ..< brk m} \<union> {brk m ..< brk m'} = {h ..< brk m'}" using U(3) r'(3) by auto
  have 1: "units bs' \<inter> (?new \<union> U) = {}" unfolding r'(7) using U(1) d by blast
  have 2: "units bs' \<union> (?new \<union> U) = {h ..< brk m'}" unfolding r'(7) iv [symmetric] U(2) [symmetric] using r'(6) by blast
  have 3: "x \<noteq> y \<Longrightarrow> blk (A(q \<mapsto> n)) x \<inter> blk (A(q \<mapsto> n)) y = {}" for x y
  proof -
    assume xy: "x \<noteq> y"
    have "blk A z \<inter> ?new = {}" for z using dj unfolding U_def by blast
    moreover have "blk A x \<inter> blk A y = {}" using A xy by (simp add: held_def)
    ultimately show ?thesis using xy b by (cases "x = q"; cases "y = q") (auto simp: Int_commute)
  qed
  have 4: "0 < x \<and> unat k \<le> MAXREQ \<and> hsize m' (x - 1) = unat (nunits_of k)" if "(A(q \<mapsto> n)) x = Some k" for x k
    using that r'(4,5) n A r'(8) held_header [OF A, of x k] by (cases "x = q") (auto simp: held_def)
  have 5: "freep m' \<noteq> None" using r'(1) by (auto simp: heap_inv_def)
  show ?thesis unfolding held_def U' using r'(1,2,3) U(3,4) 1 2 3 4 5 by (auto simp: heap_ok_def)
qed


lemma held_malloc_null:
  assumes A: "held h m A bs" and r: "malloced grant nu m bs None m' bs'"
  shows "held h m' A bs'"
proof -
  have r': "heap_inv m' bs'" "base m' = base m" "brk m' = brk m" "units bs' = units bs"
    "\<And>x. x < brk m \<Longrightarrow> x \<notin> units bs \<Longrightarrow> x \<noteq> base m \<Longrightarrow> hsize m' x = hsize m x"
    using r by (auto simp: malloced_def)
  have "hsize m' (q - 1) = hsize m (q - 1)" if "A q = Some n" for q n using held_header [OF A that] r'(5) by blast
  moreover have "freep m' \<noteq> None" using r'(1) by (auto simp: heap_inv_def)
  ultimately show ?thesis using A r'(1-4) by (auto simp: held_def heap_ok_def)
qed

lemma free_held:
  assumes A: "held h m A bs" and q: "A q = Some n"
  obtains m' bs' where "free q m = Some m'" "held h m' (A(q := None)) bs'"
proof -
  let ?bp = "q - 1"
  define U where "U = (\<Union>q. blk A q)"
  have hd: "0 < q" "hsize m ?bp = unat (nunits_of n)" "unat n \<le> MAXREQ" using A q by (auto simp: held_def)
  have b: "blk A q = {?bp ..< ?bp + hsize m ?bp}" using q hd(2) by (simp add: blk_def)
  have U: "units bs \<inter> U = {}" "units bs \<union> U = {h ..< brk m}" "h \<le> brk m" "base m < h" using A unfolding held_def U_def by blast+
  have inv: "heap_inv m bs" using A q by (auto simp: held_def heap_ok_def)
  have bU: "blk A q \<subseteq> U" unfolding U_def by blast
  then have "blk A q \<subseteq> {h ..< brk m}" using U(2) by blast
  then have pre: "base m < ?bp" "0 < hsize m ?bp" "?bp + hsize m ?bp \<le> brk m"
    using nunits_pos [OF hd(3)] U(4) unfolding b hd(2) by auto
  have dj: "{?bp ..< ?bp + hsize m ?bp} \<inter> units bs = {}" using U(1) b bU by blast
  obtain m' bs' where f: "free (?bp + 1) m = Some m'" "heap_inv m' bs'" "units bs' = units bs \<union> {?bp ..< ?bp + hsize m ?bp}"
    "base m' = base m" "brk m' = brk m" "\<forall>x. x \<notin> units bs \<union> {base m, ?bp} \<longrightarrow> hsize m' x = hsize m x"
    by (rule free_correct [OF inv pre dj])
  have pw: "blk A x \<inter> blk A y = {}" if "x \<noteq> y" for x y using A that by (simp add: held_def)
  have U': "(\<Union>x. blk (A(q := None)) x) = U - blk A q" unfolding U_def by (rule Union_blk_freed) (rule pw)
  have 1: "units bs' \<inter> (U - blk A q) = {}" unfolding f(3) b [symmetric] using U(1) by blast
  have 2: "units bs' \<union> (U - blk A q) = {h ..< brk m'}" unfolding f(3,5) b [symmetric] U(2) [symmetric] using bU by blast
  have 3: "x \<noteq> y \<Longrightarrow> blk (A(q := None)) x \<inter> blk (A(q := None)) y = {}" for x y using pw by (auto simp: blk_def)
  have 4: "0 < x \<and> unat k \<le> MAXREQ \<and> hsize m' (x - 1) = unat (nunits_of k)" if x: "(A(q := None)) x = Some k" for x k
  proof -
    have x': "x \<noteq> q" "A x = Some k" using x by (auto split: if_splits)
    have "x - 1 \<noteq> ?bp" using held_header(1) [OF A x'(2)] held_header(1) [OF A q] pw [OF x'(1)] by force
    then show ?thesis using A x'(2) held_header [OF A x'(2)] f(6) by (auto simp: held_def)
  qed
  have 5: "freep m' \<noteq> None" using f(2) by (auto simp: heap_inv_def)
  have "held h m' (A(q := None)) bs'" unfolding held_def U' using f(2,4,5) U(3,4) 1 2 3 4 5 by (auto simp: heap_ok_def)
  then show ?thesis using that f(1) hd(1) by simp
qed

definition payload :: "nat \<Rightarrow> u32 \<Rightarrow> nat set" where
  "payload q n = {8 * q ..< 8 * q + unat n}"

lemma heap_run_held: "heap_run h m A \<Longrightarrow> \<exists>bs. held h m A bs"
proof (induction rule: heap_run.induct)
  case (start m) then show ?case using held_start by blast
next
  case (malloc m A n grant q m')
  then obtain bs where "held h m A bs" by blast
  moreover from this obtain bs' where "malloced grant (nunits_of n) m bs (Some q) m' bs'"
    using malloc_correct [of m bs n grant] malloc.hyps(2,3) by (auto simp: held_def)
  ultimately show ?case using held_malloc malloc.hyps(2) by blast
next
  case (malloc_null m A n grant m')
  then obtain bs where "held h m A bs" by blast
  moreover from this obtain bs' where "malloced grant (nunits_of n) m bs None m' bs'"
    using malloc_correct [of m bs n grant] malloc_null.hyps(2,3) by (auto simp: held_def)
  ultimately show ?case using held_malloc_null by blast
next
  case (free m A q m')
  then obtain bs n where "held h m A bs" "A q = Some n" by blast
  then show ?case using free_held [of h m A bs q n] free.hyps(3) by (metis option.inject)
qed

lemma payload_blk:
  assumes "held h m A bs" "A q = Some n" "y \<in> payload q n"
  shows "y div 8 \<in> blk A q"
proof -
  have "0 < q" "unat n \<le> MAXREQ" using assms(1,2) by (auto simp: held_def)
  then show ?thesis using assms(2,3) unat_nunits [of n] by (auto simp: blk_def payload_def less_diff_conv)
qed

text \<open>C16: in every run of a program that allocates with \<^verbatim>\<open>malloc\<close> and frees what it was given, whenever the kernel refuses memory: both functions
  return; the bytes of a block it holds lie in the memory the process has got for its heap, and those of two blocks are disjoint; and every
  unit of the heap is either in a block that is held or in exactly one free block, the free blocks being sorted and never adjacent, so no memory is lost
  and freed neighbours are joined. Requests are up to 2 GB less 16 bytes.\<close>

theorem heap_safe:
  assumes "heap_run h m A"
  shows "(\<forall>grant n. unat n \<le> MAXREQ \<longrightarrow> (\<exists>r m'. malloc grant n m = Some (r, m'))) \<and>
    (\<forall>q. A q \<noteq> None \<longrightarrow> (\<exists>m'. free q m = Some m')) \<and>
    (\<forall>q n. A q = Some n \<longrightarrow> payload q n \<subseteq> {8 * h ..< 8 * brk m}) \<and>
    (\<forall>q n q' n'. A q = Some n \<longrightarrow> A q' = Some n' \<longrightarrow> q \<noteq> q' \<longrightarrow> payload q n \<inter> payload q' n' = {}) \<and>
    (\<exists>bs. sep (base m) bs (brk m) \<and> (freep m \<noteq> None \<longrightarrow> blocks m (base m) ((base m, 0) # bs) (base m)) \<and>
      units bs \<union> (\<Union>q. blk A q) = {h ..< brk m} \<and> units bs \<inter> (\<Union>q. blk A q) = {})"
proof (intro conjI allI impI)
  obtain bs where A: "held h m A bs" using heap_run_held [OF assms] by blast
  then have ok: "heap_ok m bs" by (simp add: held_def)
  show "\<exists>r m'. malloc grant n m = Some (r, m')" if "unat n \<le> MAXREQ" for grant n using malloc_correct [OF ok that] by blast
  show "\<exists>m'. free q m = Some m'" if "A q \<noteq> None" for q using free_held [OF A] that by blast
  have U: "(\<Union>q. blk A q) \<subseteq> {h ..< brk m}" and pw: "q \<noteq> q' \<Longrightarrow> blk A q \<inter> blk A q' = {}" for q q' using A unfolding held_def by blast+
  show "payload q n \<subseteq> {8 * h ..< 8 * brk m}" if "A q = Some n" for q n
  proof
    fix y assume "y \<in> payload q n"
    then have "y div 8 \<in> {h ..< brk m}" using payload_blk [OF A that] U by blast
    then show "y \<in> {8 * h ..< 8 * brk m}" by auto
  qed
  show "payload q n \<inter> payload q' n' = {}" if "A q = Some n" "A q' = Some n'" "q \<noteq> q'" for q n q' n'
    using payload_blk [OF A that(1)] payload_blk [OF A that(2)] pw [OF that(3)] by blast
  show "\<exists>bs. sep (base m) bs (brk m) \<and> (freep m \<noteq> None \<longrightarrow> blocks m (base m) ((base m, 0) # bs) (base m)) \<and>
      units bs \<union> (\<Union>q. blk A q) = {h ..< brk m} \<and> units bs \<inter> (\<Union>q. blk A q) = {}"
    using A by (intro exI [of _ bs]) (auto simp: held_def heap_ok_def heap_inv_def)
qed

text \<open>Larger requests wrap around: \<^verbatim>\<open>malloc\<close> of nearly 4 GB asks for one unit, and one of 2 GB makes \<^verbatim>\<open>morecore\<close> shrink the process.\<close>

lemma malloc_wraps: "nunits_of 0xFFFFFFF9 = 1"
  by (simp add: nunits_of_def)

lemma malloc_shrinks: "sint (nunits_of 0x80000000 * 8) = - 2147483640"
  by (simp add: nunits_of_def)

definition first_heap :: umem where
  "first_heap = \<lparr>hptr = \<lambda>_. 0, hsize = \<lambda>_. 0, base = 1, freep = None, brk = 2\<rparr>"


lemma first_malloc: "\<exists>m'. malloc (\<lambda>_ _. True) 16 first_heap = Some (Some 4096, m')"
proof -
  have n: "nunits_of 16 = 3" by (simp add: nunits_of_def)
  show ?thesis unfolding malloc_def n first_heap_def
    by (simp add: Let_def malloc_loop.simps morecore_def sbrk_def free_def free_find.simps take_block_def set_hptr_def set_hsize_def)
qed


theorem heap_safe_witness:
  "\<exists>m. malloc (\<lambda>_ _. True) 16 first_heap = Some (Some 4096, m) \<and> payload 4096 16 \<subseteq> {16 ..< 8 * brk m} \<and> (\<exists>m'. free 4096 m = Some m')"
proof -
  obtain m where m: "malloc (\<lambda>_ _. True) 16 first_heap = Some (Some 4096, m)" using first_malloc by blast
  have "heap_run 2 first_heap (\<lambda>_. None)" by (rule heap_run.start) (simp_all add: first_heap_def)
  from heap_run.malloc [OF this _ m] have "heap_run 2 m [4096 \<mapsto> 16]" by simp
  from heap_safe [OF this] m show ?thesis by simp
qed

end
