(* ===== verification/Ulib.thy ===== *)
theory Ulib
  imports Console
begin

text \<open>
  The user library: \<^verbatim>\<open>ulib.c\<close> and \<^verbatim>\<open>printf.c\<close>. A C string is the list of its bytes without the terminator; \<^verbatim>\<open>memmove\<close>
  works on byte-addressed memory. The characters that \<^verbatim>\<open>printf\<close> writes are a list.
\<close>

section \<open>Strings and memory\<close>

fun strcmp :: "u8 list \<Rightarrow> u8 list \<Rightarrow> int" where
  "strcmp [] [] = 0"
| "strcmp [] (d # q) = - uint d"
| "strcmp (c # p) [] = uint c"
| "strcmp (c # p) (d # q) = (if c = d then strcmp p q else uint c - uint d)"

fun strchr :: "u8 list \<Rightarrow> u8 \<Rightarrow> nat option" where
  "strchr [] c = None"
| "strchr (d # s) c = (if d = c then Some 0 else map_option Suc (strchr s c))"

text \<open>The loop of \<^verbatim>\<open>atoi\<close>; \<open>n\<close> wraps around as a 32-bit integer.\<close>

fun atoi_loop :: "u32 \<Rightarrow> u8 list \<Rightarrow> u32" where
  "atoi_loop n [] = n"
| "atoi_loop n (c # s) = (if 48 \<le> c \<and> c \<le> 57 then atoi_loop (n * 10 + ucast c - 48) s else n)"

definition atoi :: "u8 list \<Rightarrow> u32" where
  "atoi s = atoi_loop 0 s"

text \<open>\<^verbatim>\<open>memmove\<close> of the library copies upwards.\<close>

fun umemmove :: "nat \<Rightarrow> u32 \<Rightarrow> u32 \<Rightarrow> (u32 \<Rightarrow> u8) \<Rightarrow> (u32 \<Rightarrow> u8)" where
  "umemmove 0 dst src m = m"
| "umemmove (Suc n) dst src m = umemmove n (dst + 1) (src + 1) (m(dst := m src))"

lemma strcmp_zero: "0 \<notin> set p \<Longrightarrow> 0 \<notin> set q \<Longrightarrow> strcmp p q = 0 \<longleftrightarrow> p = q"
  by (induction p q rule: strcmp.induct) (auto simp: uint_0_iff dest: unsigned_word_eqI)

section \<open>Formatted output\<close>

definition udigits :: "u8 list" where
  "udigits = bytes ''0123456789ABCDEF''"

text \<open>The do loop of \<^verbatim>\<open>printint\<close>, called with base 10 and 16 only.\<close>

function udigits_of :: "u32 \<Rightarrow> u32 \<Rightarrow> u8 list" where
  "udigits_of b x =
     (if b < 2 then []
      else udigits ! unat (x mod b) # (if x div b = 0 then [] else udigits_of b (x div b)))"
  by pat_completeness auto
termination
proof (relation "measure (\<lambda>(base, x). unat x)", goal_cases)
  case (2 base x)
  then have "x \<noteq> 0" "2 \<le> unat base" by (auto simp: word_le_nat_alt not_less)
  then have "unat x div unat base < unat x" by (intro div_less_dividend) (auto simp: unat_gt_0)
  then show ?case by (simp add: unat_div)
qed simp

declare udigits_of.simps [simp del]

definition uprintint :: "u32 \<Rightarrow> u32 \<Rightarrow> bool \<Rightarrow> u8 list" where
  "uprintint xx b sg =
     (let neg = (sg \<and> sint xx < 0); x = (if neg then - xx else xx) in
      rev (udigits_of b x @ (if neg then [45] else [])))"

text \<open>The loop of \<^verbatim>\<open>printf\<close>: whether a percent sign has just been read, the rest of the format, and the words of the arguments that are left.
  The string at an address is \<open>str\<close>; \<open>None\<close> where an argument is missing.\<close>

fun printf_loop :: "(u32 \<Rightarrow> u8 list) \<Rightarrow> bool \<Rightarrow> u8 list \<Rightarrow> u32 list \<Rightarrow> u8 list option" where
  "printf_loop str st [] ap = Some []"
| "printf_loop str False (c # fmt) ap =
     (if c = 37 then printf_loop str True fmt ap else map_option ((#) c) (printf_loop str False fmt ap))"
| "printf_loop str True (c # fmt) ap =
     (if c = 100 then
        (case ap of x # ap \<Rightarrow> map_option ((@) (uprintint x 10 True)) (printf_loop str False fmt ap) | [] \<Rightarrow> None)
      else if c = 120 \<or> c = 112 then
        (case ap of x # ap \<Rightarrow> map_option ((@) (uprintint x 16 False)) (printf_loop str False fmt ap) | [] \<Rightarrow> None)
      else if c = 115 then
        (case ap of x # ap \<Rightarrow> map_option ((@) (if x = 0 then bytes ''(null)'' else str x)) (printf_loop str False fmt ap) | [] \<Rightarrow> None)
      else if c = 99 then
        (case ap of x # ap \<Rightarrow> map_option ((#) (ucast x)) (printf_loop str False fmt ap) | [] \<Rightarrow> None)
      else if c = 37 then map_option ((#) c) (printf_loop str False fmt ap)
      else map_option ((@) [37, c]) (printf_loop str False fmt ap))"

definition printf :: "(u32 \<Rightarrow> u8 list) \<Rightarrow> u8 list \<Rightarrow> u32 list \<Rightarrow> u8 list option" where
  "printf str fmt ap = printf_loop str False fmt ap"

section \<open>Reading back what is printed\<close>

lemma udigits_10: "udigits_of 10 x = digits_of 10 x"
proof (induction x rule: measure_induct_rule [where f = unat])
  case (less x)
  have "unat (x mod 10) < 10" using mod_less_divisor [of 10 "unat x"] by (simp add: unat_mod)
  moreover have "\<forall>d \<in> set [0..<10]. udigits ! d = digits ! d" by code_simp
  ultimately have d: "udigits ! unat (x mod 10) = digits ! unat (x mod 10)" by auto
  show ?case
  proof (cases "x div 10 = 0")
    case False
    then have "x \<noteq> 0" by auto
    then have "unat (x div 10) < unat x" by (simp add: unat_div unat_gt_0)
    then show ?thesis using less d False by (simp add: udigits_of.simps [of 10 x] digits_of.simps [of 10 x])
  qed (use d in \<open>simp add: udigits_of.simps [of 10 x] digits_of.simps [of 10 x]\<close>)
qed

definition is_digit :: "u8 \<Rightarrow> bool" where
  "is_digit c \<longleftrightarrow> 48 \<le> c \<and> c \<le> 57"

lemma atoi_loop_rev:
  "list_all is_digit ds \<Longrightarrow> atoi_loop n (rev ds @ r) = atoi_loop (n * 10 ^ length ds + of_nat (value_of 10 ds)) r"
proof (induction ds arbitrary: r n)
  case (Cons d ds)
  have d: "48 \<le> d" "d \<le> 57" using Cons.prems by (auto simp: is_digit_def)
  have u: "48 \<le> unat d" "unat d \<le> 57" using d by (simp_all add: word_le_nat_alt)
  then have v: "ucast d = (of_nat (digit_val d) :: u32) + 48" by (simp add: of_nat_diff)
  have "atoi_loop n (rev (d # ds) @ r) = atoi_loop (n * 10 ^ length ds + of_nat (value_of 10 ds)) (d # r)" using Cons by simp
  also have "\<dots> = atoi_loop (n * 10 ^ length (d # ds) + of_nat (value_of 10 (d # ds))) r" using d v by (simp add: algebra_simps del: digit_val.simps)
  finally show ?case .
qed simp


lemma digits_10: "list_all is_digit (digits_of 10 x)"
proof (induction x rule: measure_induct_rule [where f = unat])
  case (less x)
  have "unat (x mod 10) < 10" using mod_less_divisor [of 10 "unat x"] by (simp add: unat_mod)
  moreover have "\<forall>d \<in> set [0..<10]. is_digit (digits ! d)" by code_simp
  ultimately have d: "is_digit (digits ! unat (x mod 10))" by auto
  show ?case
  proof (cases "x div 10 = 0")
    case False
    then have "x \<noteq> 0" by auto
    then have "unat (x div 10) < unat x" by (simp add: unat_div unat_gt_0)
    then show ?thesis using less d False by (simp add: digits_of.simps [of 10 x])
  qed (use d in \<open>simp add: digits_of.simps [of 10 x]\<close>)
qed

lemma atoi_digits: "r = [] \<or> \<not> is_digit (hd r) \<Longrightarrow> atoi (rev (digits_of 10 x) @ r) = x"
proof -
  assume r: "r = [] \<or> \<not> is_digit (hd r)"
  have "value_of 10 (digits_of 10 x) = unat x" using value_digits_of [of 10 x] by simp
  then have "atoi (rev (digits_of 10 x) @ r) = atoi_loop x r" using atoi_loop_rev [OF digits_10, of 0 x r] by (simp add: atoi_def)
  then show ?thesis using r by (cases r) (auto simp: is_digit_def)
qed

text \<open>\<^verbatim>\<open>printf\<close> and \<^verbatim>\<open>atoi\<close> are inverse on decimal numbers: what \<open>%d\<close> prints for a nonnegative int, followed by anything but a digit, is read
  back as that number; and a format without percent signs is printed as it stands.\<close>

theorem atoi_printf:
  assumes "0 \<le> sint x" "c \<noteq> 37" "\<not> is_digit c"
  shows "\<exists>out. printf str [37, 100, c] [x] = Some out \<and> atoi out = x"
proof -
  have "uprintint x 10 True = rev (digits_of 10 x)" using assms(1) by (simp add: uprintint_def udigits_10)
  then have "printf str [37, 100, c] [x] = Some (rev (digits_of 10 x) @ [c])" using assms(2) by (simp add: printf_def)
  then show ?thesis using atoi_digits [of "[c]" x] assms(3) by simp
qed

theorem atoi_printf_witness: "\<exists>out. printf (\<lambda>_. []) [37, 100, 10] [2147483647] = Some out \<and> atoi out = 2147483647"
  by (rule atoi_printf) (simp_all add: is_digit_def)

text \<open>\<^verbatim>\<open>memmove\<close> of the library repeats bytes when the destination overlaps the source from above: the byte 1 at address 1 should move to address 2.\<close>

lemma umemmove_overlap: "umemmove 2 1 0 (\<lambda>x. ucast x) 2 = 0"
  by (simp add: numeral_eq_Suc)

text \<open>\<^verbatim>\<open>kill abc\<close> kills process 0, since \<^verbatim>\<open>atoi\<close> gives 0 for what is no number.\<close>

lemma atoi_no_number: "s = [] \<or> \<not> is_digit (hd s) \<Longrightarrow> atoi s = 0"
  by (cases s) (auto simp: atoi_def is_digit_def)

end
