(* ===== verification/Wc.thy ===== *)
theory Wc
  imports Ulib
begin

text \<open>
  The user program \<^verbatim>\<open>wc.c\<close>. What a file descriptor delivers is the list of the results of \<^verbatim>\<open>read\<close>: the bytes of each call, or
  \<open>None\<close> for an error; after its end every call returns no bytes.
\<close>

section \<open>Counting\<close>

definition wc_space :: "u8 list" where
  "wc_space = [32, 13, 9, 10, 11]"

record counts =
  n_lines :: u32
  n_words :: u32
  n_chars :: u32
  inword :: bool

definition wc_byte :: "u8 \<Rightarrow> counts \<Rightarrow> counts" where
  "wc_byte b s =
     (let s = s\<lparr>n_chars := n_chars s + 1\<rparr>;
          s = (if b = 10 then s\<lparr>n_lines := n_lines s + 1\<rparr> else s)
      in if strchr wc_space b \<noteq> None then s\<lparr>inword := False\<rparr>
         else if \<not> inword s then s\<lparr>n_words := n_words s + 1, inword := True\<rparr>
         else s)"

fun wc_reads :: "u8 list option list \<Rightarrow> counts \<Rightarrow> counts option" where
  "wc_reads [] s = Some s"
| "wc_reads (None # rs) s = None"
| "wc_reads (Some bs # rs) s = (if bs = [] then Some s else wc_reads rs (fold wc_byte bs s))"

definition no_counts :: counts where
  "no_counts = \<lparr>n_lines = 0, n_words = 0, n_chars = 0, inword = False\<rparr>"

text \<open>\<^verbatim>\<open>wc\<close>: what it prints for the file with the name at \<open>name\<close>.\<close>

definition wc :: "(u32 \<Rightarrow> u8 list) \<Rightarrow> u8 list option list \<Rightarrow> u32 \<Rightarrow> u8 list option" where
  "wc str rs name =
     (case wc_reads rs no_counts of
        None \<Rightarrow> printf str (bytes ''wc: read error'' @ [10]) []
      | Some s \<Rightarrow> printf str (bytes ''%d %d %d %s'' @ [10]) [n_lines s, n_words s, n_chars s, name])"

text \<open>\<^verbatim>\<open>main\<close> on the names it is given, where \<open>opens\<close> is what each delivers, if it can be opened.\<close>

fun wc_files :: "(u32 \<Rightarrow> u8 list) \<Rightarrow> (u32 \<Rightarrow> u8 list option list option) \<Rightarrow> u32 list \<Rightarrow> u8 list option" where
  "wc_files str opens [] = Some []"
| "wc_files str opens (name # names) =
     (case opens name of
        None \<Rightarrow> printf str (bytes ''wc: cannot open %s'' @ [10]) [name]
      | Some rs \<Rightarrow>
          if wc_reads rs no_counts = None then wc str rs name
          else (case (wc str rs name, wc_files str opens names) of (Some a, Some b) \<Rightarrow> Some (a @ b) | _ \<Rightarrow> None))"

text \<open>The positions where a word begins.\<close>

definition word_starts :: "u8 list \<Rightarrow> nat set" where
  "word_starts d = {i. i < length d \<and> d ! i \<notin> set wc_space \<and> (i = 0 \<or> d ! (i - 1) \<in> set wc_space)}"

lemma strchr_None: "strchr s c = None \<longleftrightarrow> c \<notin> set s"
  by (induction s c rule: strchr.induct) auto

lemma word_starts_snoc:
  "word_starts (d @ [x]) = word_starts d \<union> (if x \<notin> set wc_space \<and> (d = [] \<or> last d \<in> set wc_space) then {length d} else {})"
proof (cases "d = []")
  case True then show ?thesis by (auto simp: word_starts_def)
next
  case False
  then have "(d @ [x]) ! (length d - 1) = last d" "length d - 1 < length d" by (simp_all add: nth_append last_conv_nth)
  then show ?thesis using False by (auto simp: word_starts_def nth_append less_Suc_eq split: if_splits)
qed

lemma wc_bytes:
  "fold wc_byte d no_counts =
     \<lparr>n_lines = of_nat (count_list d 10), n_words = of_nat (card (word_starts d)), n_chars = of_nat (length d),
      inword = (d \<noteq> [] \<and> last d \<notin> set wc_space)\<rparr>"
proof (induction d rule: rev_induct)
  case Nil then show ?case by (simp add: no_counts_def word_starts_def)
next
  case (snoc x d)
  have "finite (word_starts d)" "length d \<notin> word_starts d" by (auto simp: word_starts_def)
  then have "card (word_starts (d @ [x])) = card (word_starts d) + (if x \<notin> set wc_space \<and> (d = [] \<or> last d \<in> set wc_space) then 1 else 0)"
    by (simp add: word_starts_snoc)
  moreover have "(10 :: u8) \<in> set wc_space" by (simp add: wc_space_def)
  ultimately show ?case using snoc by (auto simp: wc_byte_def Let_def strchr_None)
qed

definition dec :: "nat \<Rightarrow> u8 list" where
  "dec n = uprintint (of_nat n) 10 True"

lemma atoi_dec:
  assumes "n < 2 ^ 31"
  shows "atoi (dec n) = of_nat n"
proof -
  have "sint (of_nat n :: u32) = signed_take_bit 31 (int n)" by (simp add: signed_of_nat)
  also have "\<dots> = int n" by (rule signed_take_bit_int_eq_self) (use assms in auto)
  finally have "dec n = rev (digits_of 10 (of_nat n))" by (simp add: dec_def uprintint_def udigits_10)
  then show ?thesis using atoi_digits [of "[]" "of_nat n"] by simp
qed

lemma wc_reads_concat: "list_all (\<lambda>bs. bs \<noteq> []) bss \<Longrightarrow> wc_reads (map Some bss) s = Some (fold wc_byte (concat bss) s)"
  by (induction bss arbitrary: s) auto

text \<open>\<^verbatim>\<open>wc\<close> prints the numbers of lines, words and bytes of the file and its name, however the file is cut into the
  pieces that \<^verbatim>\<open>read\<close> returns: the number of newlines, the number of positions where a byte that is no space follows a space or the beginning, and the length,
  in decimal, and each number is read back by \<^verbatim>\<open>atoi\<close>.\<close>

theorem wc_counts:
  assumes "list_all (\<lambda>bs. bs \<noteq> []) bss" "d = concat bss" "length d < 2 ^ 31" "name \<noteq> 0"
  shows "wc str (map Some bss) name =
      Some (dec (count_list d 10) @ [32] @ dec (card (word_starts d)) @ [32] @ dec (length d) @ [32] @ str name @ [10]) \<and>
    atoi (dec (count_list d 10)) = of_nat (count_list d 10) \<and> atoi (dec (card (word_starts d))) = of_nat (card (word_starts d)) \<and>
    atoi (dec (length d)) = of_nat (length d)"
proof -
  have "wc_reads (map Some bss) no_counts = Some (fold wc_byte d no_counts)" using wc_reads_concat assms by blast
  then have "wc str (map Some bss) name =
      Some (dec (count_list d 10) @ [32] @ dec (card (word_starts d)) @ [32] @ dec (length d) @ [32] @ str name @ [10])"
    using assms(4) by (simp add: wc_def wc_bytes printf_def bytes_def of_char_def dec_def)
  moreover have "atoi (dec n) = of_nat n" if "n \<le> length d" for n using atoi_dec that assms(3) by simp
  moreover have "card (word_starts d) \<le> length d" using card_mono [of "{..< length d}" "word_starts d"] by (auto simp: word_starts_def)
  ultimately show ?thesis by (simp add: count_le_length)
qed


lemma word_starts_filter:
  "word_starts d = set (filter (\<lambda>i. d ! i \<notin> set wc_space \<and> (i = 0 \<or> d ! (i - 1) \<in> set wc_space)) [0..<length d])"
  by (auto simp: word_starts_def)

text \<open>The bytes of \<open>ab c\<close> and a newline, in two pieces.\<close>

theorem wc_counts_witness:
  "wc (\<lambda>_. [120]) (map Some [[97], [98, 32, 99, 10]]) 1 = Some [49, 32, 50, 32, 53, 32, 120, 10]"
proof -
  let ?d = "[97, 98, 32, 99, 10] :: u8 list"
  have "word_starts ?d = set (filter (\<lambda>i. ?d ! i \<notin> set wc_space \<and> (i = 0 \<or> ?d ! (i - 1) \<in> set wc_space)) [0..<length ?d])"
    by (rule word_starts_filter)
  also have "filter (\<lambda>i. ?d ! i \<notin> set wc_space \<and> (i = 0 \<or> ?d ! (i - 1) \<in> set wc_space)) [0..<length ?d] = [0, 3]" by code_simp
  finally have s: "word_starts ?d = {0, 3}" by simp
  have d: "dec (Suc 0) = [49]" "dec (Suc (Suc 0)) = [50]" "dec (Suc (Suc (Suc (Suc (Suc 0))))) = [53]" by (simp_all add: dec_def uprintint_def udigits_of.simps udigits_def bytes_def of_char_def)
  show ?thesis using wc_counts [of "[[97], [98, 32, 99, 10]]" ?d 1 "\<lambda>_. [120]"] by (simp add: s d)
qed

end
