(* ===== verification/Spec2Isabelle.thy ===== *)
theory Spec2Isabelle
  imports Fd_Calls Sleeplock Ide Kbd Mp Boot Image_Files Grep Sh_Run Scsh Umalloc Wc
begin

text \<open>
  A verification library for the xv6 kernel in \<^verbatim>\<open>src/xv6-l\<close>: xv6 with a three-level feedback
  scheduler, pages shared between processes, memo files, and a console with several windows and
  a status line. \<^verbatim>\<open>src/xv6-o\<close> is the xv6 it was derived from and is not modelled.

  \<^bold>\<open>How the program is put together.\<close> Processes live in a table (\<^verbatim>\<open>proc.c\<close>) and run on CPUs that
  pick them from three run queues. A trap (\<^verbatim>\<open>trap.c\<close>) enters the kernel; a system call takes its
  arguments from the user stack (\<^verbatim>\<open>syscall.c\<close>) and is one of the handlers of \<^verbatim>\<open>sysproc.c\<close> and
  \<^verbatim>\<open>sysfile.c\<close>. File calls work on the file table (\<^verbatim>\<open>file.c\<close>), whose entries are pipes (\<^verbatim>\<open>pipe.c\<close>),
  memo files or inodes (\<^verbatim>\<open>fs.c\<close>); inodes are stored in blocks that go through the log (\<^verbatim>\<open>log.c\<close>)
  and the buffer cache (\<^verbatim>\<open>bio.c\<close>) to the disk. The console (\<^verbatim>\<open>console.c\<close>) is the one device.
  Memory is handed out in pages (\<^verbatim>\<open>kalloc.c\<close>) and mapped by page tables (\<^verbatim>\<open>vm.c\<close>). Shared data is
  protected by spin locks and sleeping locks. The boot loader (\<^verbatim>\<open>bootmain.c\<close>) reads the kernel from the disk,
  \<^verbatim>\<open>mp.c\<close> finds the processors, and \<^verbatim>\<open>mkfs.c\<close> builds the disk image on the host. User programs use the
  library (\<^verbatim>\<open>ulib.c\<close>, \<^verbatim>\<open>umalloc.c\<close>, \<^verbatim>\<open>printf.c\<close>) over the system calls; the shells (\<^verbatim>\<open>sh.c\<close>, \<^verbatim>\<open>scsh.c\<close>) start them.

  \<^bold>\<open>The theories,\<close> in the order of their imports.

  \<^item> \<open>Xv6_Prelude\<close>: words, the outcome of kernel code (\<open>Ok\<close>, \<open>Panic\<close>, \<open>UB\<close> where C gives no meaning,
    \<open>Wait\<close> where the code would wait for another process), constants, shared lemmas.
  \<^item> \<open>Mem\<close>: byte-addressed memory and \<^verbatim>\<open>string.c\<close>: overlapping moves, filling, bounded copies and
    comparison do what the C library promises.
  \<^item> \<open>Kalloc\<close>: the free list threaded through the free pages; allocation and release are exact.
  \<^item> \<open>Vm\<close>: \<^verbatim>\<open>vm.c\<close> on page tables that lie in memory. Mapping affects exactly the given range,
    unmapping returns exactly the unmapped frames, and neither panics on a well-formed space.
  \<^item> \<open>Sched\<close>, \<open>Sched_Steps\<close>: the process table, the run queues as linked lists, and the critical
    sections of \<^verbatim>\<open>proc.c\<close> as steps of a transition system. The queue invariant, what the scheduler
    picks, time slices, wakeups, and two ways in which \<^verbatim>\<open>kill\<close> goes wrong.
  \<^item> \<open>Spinlock\<close>: \<^verbatim>\<open>spinlock.c\<close> instruction by instruction with the CPUs interleaved: mutual exclusion,
    interrupts off inside, exact panics.
  \<^item> \<open>Sleeplock\<close>: \<^verbatim>\<open>sleeplock.c\<close> with \<^verbatim>\<open>sleep\<close>, \<^verbatim>\<open>sched\<close> and \<^verbatim>\<open>wakeup1\<close>, in steps between the operations on the inner
    spin lock and \<^verbatim>\<open>ptable.lock\<close>, interleaved with the scheduler: the hand-over of the locks loses no
    wakeup, a lock has one holder, and nothing panics.
  \<^item> \<open>Bio\<close>: the buffer cache over a disk that records its writes; reading is transparent.
  \<^item> \<open>Ide\<close>: the queue of the disk driver (\<^verbatim>\<open>ide.c\<close>) with requests and disk interrupts interleaved: requests
    are served in order, and the waiting process sees the synchronous transfer that \<open>Bio\<close> works with.
  \<^item> \<open>Log\<close>: transactions. A crash after any prefix of the writes of a commit leaves all of the
    transaction or nothing after recovery; the reservation of log space is enough exactly when the
    log has \<^verbatim>\<open>LOGSIZE\<close> blocks, which the image that \<^verbatim>\<open>mkfs\<close> builds does not have.
  \<^item> \<open>Fs\<close>: \<^verbatim>\<open>fs.c\<close>: blocks, inodes, directories, path names. \<open>Fs_Frame\<close> states what these leave alone,
    as a locale over a relation that devices and the file system respect. \<open>Fs_Read\<close> is about reading: \<open>readi\<close> returns the
    bytes of the file, \<open>dirlookup\<close> finds the entry, and \<open>namei\<close> follows a path while it keeps the counts of the inode cache exact.
  \<^item> \<open>Mkfs\<close>, \<open>Mkfs_Image\<close>: the image builder \<^verbatim>\<open>mkfs.c\<close>. Appending to a file extends its content and accounts for
    every block; the whole of \<^verbatim>\<open>main\<close> builds an image whose root directory names the given files and
    whose inodes hold their bytes. Its super block has 30 log blocks, the size that the shortage of
    log space in \<open>Log\<close> is about. \<open>Image_Files\<close> joins the two sides: the kernel mounts such an image, finds every file by its path and
    reads back the bytes it was built from.
  \<^item> \<open>Ring\<close>: ring buffers with wrapping 32-bit counters as bounded queues; the locale \<open>bounded_fifo\<close>
    is interpreted for pipes in \<open>File\<close>.
  \<^item> \<open>Console\<close>: the screen, the status line, windows, number formatting, and the line discipline.
  \<^item> \<open>Kernel\<close>: the state of the whole kernel, user memory through the page tables, shared pages.
  \<^item> \<open>File\<close>: pipes, memo files and the file table. \<open>Device\<close>: the console as a device.
  \<^item> \<open>Proc\<close>: process creation and exit on the whole state. \<open>Syscall\<close>: argument checks and \<^verbatim>\<open>sysproc.c\<close>.
    \<open>Exec\<close>: the program loader. \<open>Sysfile\<close>: \<^verbatim>\<open>sysfile.c\<close>. \<open>Trap\<close>: dispatch.
  \<^item> \<open>Descriptors\<close>: rules for postconditions of kernel code, as a locale over the conditions that only
    the file table and the descriptors decide, and with them the reference counts: over all calls
    that open, share or close files the count of a file is the number of its descriptors.
  \<^item> \<open>Kbd\<close>: the scan codes of the keyboard (\<^verbatim>\<open>kbd.c\<close>) as a state machine.
  \<^item> \<open>Mp\<close>: the search for the multiprocessor tables and their interpretation: what is configured from correct
    tables, and tables on which the search for the configuration never ends.
  \<^item> \<open>Boot\<close>: the boot loader puts every segment of the kernel where its program header says.
  \<^item> \<open>Umalloc\<close>: the allocator of user programs on its circular free list. \<open>Ulib\<close>: the strings and the formatted output of
    the user library. \<open>Wc\<close>: the word count \<^verbatim>\<open>wc.c\<close>.
  \<^item> \<open>Grep\<close>: the user program \<^verbatim>\<open>grep.c\<close>; its matcher agrees with the language of the pattern.
  \<^item> \<open>Sh\<close>: the parser of the shell (\<^verbatim>\<open>sh.c\<close>): it ends, finds whole words, and reads back every command tree that is
    printed. \<open>Sh_Run\<close>: the system calls of the shell as trees; the programs it starts, and their descriptors, are those of a
    compositional meaning of command trees, whatever fails.
  \<^item> \<open>Fd_Calls\<close>: what the shell relies on in the kernel's descriptors, as the locale \<open>fd_table\<close>, interpreted on the
    handlers of \<open>Sysfile\<close>: redirection by closing and duplicating gives the intended descriptor.
  \<^item> \<open>Scsh\<close>: the reader of the Lisp shell: it reads back every expression that is printed within its
    limits, and stays inside the line when the line has no quote.

  \<^bold>\<open>Conventions.\<close> A C structure is a record, a pointer to an element of a kernel array is its index,
  other pointers are 32-bit addresses; integers keep their width. A function that holds a spin lock
  from beginning to end is one atomic step and the lock is not written; \<open>Spinlock\<close> is why that is
  sound, and \<open>Sleeplock\<close> does without it for the locks of \<^verbatim>\<open>sleep\<close>. In the file-system layers a sleeping lock is a flag and waiting for it is \<open>Wait\<close>; wakeups
  they issue are recorded in \<open>woken\<close>. A call that sleeps ends in \<open>Blocked\<close> with the state at that
  moment, and is resumed by running the code after the sleep. \<^verbatim>\<open>swtch\<close> to the scheduler is
  followed by what the scheduler does on being resumed. Device reads and writes are arguments of the
  file-system operations and instantiated with the console in \<open>Device\<close>. The disk is the content of
  its blocks; a transfer is synchronous, which \<open>Ide\<close> justifies.

  \<^bold>\<open>Loops.\<close> Loops over arrays and ranges recurse on the list of their indices. Loops whose bound is a
  value recurse on that value: \<open>fetchstr_loop\<close> on the bytes left below the size of the process,
  \<open>uread\<close> and \<open>uwrite\<close> on their length, \<open>piperead_loop\<close> and \<open>pipewrite_loop\<close> on the bytes still to move.
  \<open>filewrite_loop\<close>, \<open>readi_loop\<close>, \<open>drop_stale\<close>, \<open>matchhere\<close>, \<open>grep_lines\<close>, \<open>iappend_loop\<close>, \<open>scan_while\<close> and \<open>scan_close\<close>
  have their own termination proofs. \<open>free_find\<close>, \<open>malloc_loop\<close>, \<open>mpsearch_loop\<close>, \<open>mp_loop\<close>, \<open>readseg_loop\<close> and
  \<open>ph_loop\<close> are partial functions into an option, whose value \<open>None\<close> means that the loop runs forever. The parsers
  of both shells recurse with fuel \<open>Suc (length line)\<close>, which is shown to be enough. The loops of \<open>Vm\<close> that step through addresses carry a bound on their turns: the number of
  pages of the range, and two more where the start is rounded up; the theorems about them show
  that they return within it, and running out would show as \<open>Wait\<close>. Spinning for a lock is a step that may
  be repeated.

  \<^bold>\<open>Not modelled.\<close> Segment and interrupt descriptor tables, the registers of the interrupt controllers
  (\<^verbatim>\<open>lapic.c\<close>, \<^verbatim>\<open>ioapic.c\<close>, \<^verbatim>\<open>picirq.c\<close>) and of the serial port, the order of the calls in \<^verbatim>\<open>main.c\<close> and
  the assembly files: device accesses and initialisation with no logic above them. \<^verbatim>\<open>memide.c\<close> replaces
  the disk driver only in the memory-file-system build. The evaluator of the Lisp shell forks a process for
  each subexpression and passes results as pointers into a shared page that both processes write; only
  its reader is modelled. The small user programs are thin mains over the calls modelled here, and
  \<^verbatim>\<open>usertests.c\<close> is a test. Messages printed by other components, and the spin lock stored in the shared
  memo page, are left out of the state.

  \<^bold>\<open>Plan.\<close> What would come next: the content of files under \<open>writei\<close> and across \<open>itrunc\<close>, with the bitmap as an invariant; the
  evaluator of the Lisp shell over the processes and shared pages of \<open>Proc\<close>; and the interrupt controllers as the source of the steps of
  \<open>Trap\<close> and \<open>Ide\<close>.
\<close>

end
